(* ===== verification/Prelude.thy ===== *)
theory Prelude
  imports Main "HOL-Library.Word" "HOL-Library.Monad_Syntax"
begin

text \<open>
  What every component of the development shares: the machine types of the 32-bit kernel
  (\<open>unsigned char\<close>, \<open>unsigned short\<close> and \<open>unsigned int\<close> as words), the constants of
  \<^verbatim>\<open>constants.h\<close>, the model of \<^verbatim>\<open>assert\<close>, byte-addressed memory with its
  little-endian 32-bit accesses, and the generic lemmas on options, lists and words.

  An operation that may stop the machine (a failed \<open>assert\<close> ends in the endless loop of
  \<open>__assert\<close>, a bad pointer is undefined behaviour, a loop may run forever) returns an
  \<open>option\<close>: \<open>None\<close> means that the call does not return to its caller. The error codes
  of system calls are ordinary integer results.
\<close>

unbundle bit_operations_syntax

named_theorems kmonad \<open>how the option-valued steps of the kernel compose\<close>
named_theorems mem_simps \<open>reads over writes of byte-addressed memory\<close>

subsection \<open>Machine types\<close>

type_synonym u8 = "8 word"
type_synonym u16 = "16 word"
type_synonym u32 = "32 word"
type_synonym byte_mem = "u32 \<Rightarrow> u8"
type_synonym bytes = "u8 list"

definition chars :: "string \<Rightarrow> bytes" where
  "chars s = map (\<lambda>c. of_char c) s"

subsection \<open>Constants\<close>

definition PAGE_SIZE :: u32 where [simp]: "PAGE_SIZE = 4096"
definition BUFSIZE :: nat where [simp]: "BUFSIZE = 1024"
definition MAX_PROCESSES :: nat where [simp]: "MAX_PROCESSES = 32"
definition MAX_FDS :: nat where [simp]: "MAX_FDS = 16"
definition PATH_MAX :: nat where [simp]: "PATH_MAX = 1024"
definition NAME_MAX :: nat where [simp]: "NAME_MAX = 1024"

subsection \<open>Assertions and the option monad\<close>

text \<open>\<open>assert(e)\<close> of \<^verbatim>\<open>user.h\<close>: when \<open>e\<close> is false the call never comes back.\<close>

definition assert_c :: "bool \<Rightarrow> unit option" where
  "assert_c b = (if b then Some () else None)"

lemma assert_c_simps [simp, kmonad]:
  "assert_c True = Some ()" "assert_c False = None"
  by (simp_all add: assert_c_def)

lemma assert_c_bind [simp, kmonad]:
  "(assert_c b \<bind> f) = (if b then f () else None)"
  by (simp add: assert_c_def)

lemma assert_c_eq_Some [simp, kmonad]: "assert_c b = Some u \<longleftrightarrow> b"
  by (simp add: assert_c_def)

lemma bind_SomeI [intro]: "x = Some a \<Longrightarrow> f a = Some b \<Longrightarrow> (x \<bind> f) = Some b"
  by simp

lemma bind_SomeE [elim]:
  assumes "(x \<bind> f) = Some b"
  obtains a where "x = Some a" and "f a = Some b"
  using assms by (auto simp: bind_eq_Some_conv)

subsection \<open>Lists\<close>

lemma remove1_hd: "xs \<noteq> [] \<Longrightarrow> remove1 (hd xs) xs = tl xs"
  by (cases xs) auto

lemma set_remove1_distinct: "distinct xs \<Longrightarrow> set (remove1 x xs) = set xs - {x}"
  by simp

subsection \<open>Powers of two\<close>

lemma pow2_le_mono: "a \<le> b \<Longrightarrow> (2::nat) ^ a \<le> 2 ^ b"
  by (rule power_increasing) auto

lemma add_pow2_less: "x + 2 ^ k \<le> y \<Longrightarrow> x < (y::nat)"
  using zero_less_power [of "2::nat" k] by linarith

lemma dvd_less_add_le:
  fixes a b k :: nat
  assumes "k dvd a" "k dvd b" "a < b"
  shows "a + k \<le> b"
proof -
  from assms have "k dvd b - a" by (simp add: dvd_diff_nat)
  with assms(3) have "k \<le> b - a" by (auto dest: dvd_imp_le)
  with assms(3) show ?thesis by simp
qed

subsection \<open>Words\<close>

lemma unat_of_nat_u32: "x < 4294967296 \<Longrightarrow> unat (of_nat x :: u32) = x"
  by (simp add: unat_of_nat)

lemma unat_pow2_u32: "m < 32 \<Longrightarrow> unat (2 ^ m :: u32) = 2 ^ m"
proof -
  assume "m < 32"
  then have "(2::nat) ^ m < 2 ^ 32" by (intro power_strict_increasing) auto
  then show ?thesis using unat_of_nat_u32 [of "2 ^ m"] by simp
qed

lemma unat_lt_u32 [simp]: "unat (x::u32) < 4294967296"
  by (rule order_less_le_trans [OF unsigned_less]) simp

lemma unat_add_u32: "unat (a::u32) + unat b < 4294967296 \<Longrightarrow> unat (a + b) = unat a + unat b"
  using unat_add_lem [of a b] by simp

lemma unat_add_of_nat_u32:
  "unat (a::u32) + n < 4294967296 \<Longrightarrow> unat (a + of_nat n) = unat a + n"
  by (simp add: unat_add_u32 unat_of_nat_u32)

end
