(* ===== verification/Alloc_Spec.thy ===== *)
theory Alloc_Spec
  imports Prelude
begin

text \<open>
  The contract of a memory allocator, as the rest of the kernel relies on it. The kernel has
  two allocators, the buddy allocator behind \<open>kmalloc\<close>/\<open>malloc\<close> (\<^verbatim>\<open>buddy.c\<close>) and the
  page allocator (\<^verbatim>\<open>page.c\<close>); both are interpreted as instances of the locale below in
  their own theories. \<open>live s\<close> is the set of regions (start, length) that are handed out in
  state \<open>s\<close>.
\<close>

definition region :: "nat \<times> nat \<Rightarrow> nat set" where
  "region r = {fst r ..< fst r + snd r}"

definition apart :: "nat \<times> nat \<Rightarrow> nat \<times> nat \<Rightarrow> bool" where
  "apart r r' \<longleftrightarrow> region r \<inter> region r' = {}"

definition all_apart :: "(nat \<times> nat) set \<Rightarrow> bool" where
  "all_apart L \<longleftrightarrow> (\<forall>r\<in>L. \<forall>r'\<in>L. r \<noteq> r' \<longrightarrow> apart r r')"

lemma apart_sym: "apart r r' \<Longrightarrow> apart r' r"
  by (auto simp: apart_def)

lemma apartI_le: "fst r + snd r \<le> fst r' \<Longrightarrow> apart r r'"
  by (auto simp: apart_def region_def)

lemma apart_distinct_start: "apart (p, k) (p, l) \<Longrightarrow> k = 0 \<or> l = 0"
  unfolding apart_def region_def by (auto simp: set_eq_iff dest!: spec [of _ p])

lemma all_apart_empty [simp]: "all_apart {}"
  by (simp add: all_apart_def)

lemma all_apart_insert:
  "all_apart L \<Longrightarrow> \<forall>r'\<in>L. apart r r' \<Longrightarrow> all_apart (insert r L)"
  by (auto simp: all_apart_def intro: apart_sym)

lemma all_apart_subset: "all_apart L \<Longrightarrow> L' \<subseteq> L \<Longrightarrow> all_apart L'"
  unfolding all_apart_def by blast

text \<open>A client's request: allocate for a given demand, or release the region at an address.\<close>

datatype 'n request = Alloc 'n | Release nat

locale allocator =
  fixes invar :: "'s \<Rightarrow> bool"
    and live :: "'s \<Rightarrow> (nat \<times> nat) set"
    and alloc :: "'n \<Rightarrow> 's \<Rightarrow> (nat \<times> 's) option"
    and release :: "nat \<Rightarrow> 's \<Rightarrow> 's option"
    and demand :: "'n \<Rightarrow> nat"
  assumes alloc_grants:
      "invar s \<Longrightarrow> alloc n s = Some (p, s') \<Longrightarrow>
        \<exists>k. demand n \<le> k \<and> 0 < k \<and> invar s' \<and> live s' = insert (p, k) (live s) \<and>
            (\<forall>r\<in>live s. apart (p, k) r)"
    and release_returns:
      "invar s \<Longrightarrow> (p, k) \<in> live s \<Longrightarrow>
        \<exists>s'. release p s = Some s' \<and> invar s' \<and> live s' = live s - {(p, k)}"
begin

lemma alloc_fresh:
  assumes "invar s" "alloc n s = Some (p, s')"
  shows "(p, k) \<notin> live s \<or> k = 0"
  using alloc_grants [OF assms] by (auto dest: apart_distinct_start)

text \<open>Releasing what was just handed out gives back the regions that were live before.\<close>

lemma alloc_release:
  assumes inv: "invar s" and al: "alloc n s = Some (p, s')" and pos: "\<forall>r\<in>live s. 0 < snd r"
  shows "\<exists>s''. release p s' = Some s'' \<and> invar s'' \<and> live s'' = live s"
proof -
  from alloc_grants [OF inv al] obtain k where
    k: "0 < k" "invar s'" "live s' = insert (p, k) (live s)" by blast
  have new: "(p, k) \<notin> live s"
    using alloc_fresh [OF inv al, of k] k(1) by simp
  from k have "(p, k) \<in> live s'" by simp
  from release_returns [OF k(2) this] k(3) new show ?thesis by auto
qed

text \<open>
  A whole session of a well-behaved client, one that releases only live regions, never
  leaves the invariant, and at every moment the live regions are pairwise disjoint.
\<close>

inductive session :: "'s \<Rightarrow> 'n request list \<Rightarrow> 's \<Rightarrow> bool" where
  done_: "session s [] s"
| grant: "alloc n s = Some (p, s') \<Longrightarrow> session s' rs t \<Longrightarrow> session s (Alloc n # rs) t"
| give_back: "(p, k) \<in> live s \<Longrightarrow> release p s = Some s' \<Longrightarrow> session s' rs t \<Longrightarrow>
    session s (Release p # rs) t"

lemma session_safe:
  "session s rs t \<Longrightarrow> invar s \<Longrightarrow> all_apart (live s) \<Longrightarrow> invar t \<and> all_apart (live t)"
proof (induction rule: session.induct)
  case (done_ s)
  then show ?case by simp
next
  case (grant n s p s' rs t)
  from alloc_grants [OF grant.prems(1) grant.hyps(1)] obtain k where
    "invar s'" "live s' = insert (p, k) (live s)" "\<forall>r\<in>live s. apart (p, k) r" by blast
  with grant show ?case by (simp add: all_apart_insert)
next
  case (give_back p k s s' rs t)
  from release_returns [OF give_back.prems(1) give_back.hyps(1)] give_back.hyps(2)
  have "invar s'" "live s' = live s - {(p, k)}" by auto
  with give_back show ?case by (auto intro: all_apart_subset)
qed

end

end
