(* ===== verification/Buddy.thy ===== *)
theory Buddy
  imports Alloc_Spec
begin

text \<open>
  The buddy allocator, \<^verbatim>\<open>source/buddy.c\<close> and \<^verbatim>\<open>source/buddy.h\<close>: the definitions.
  Block offsets, sizes and indices are natural numbers (they stay below \<open>2 ^ 32\<close> in a
  well-formed area); the requested size and the pointers are 32-bit words, since the loop of
  \<open>mforsize\<close> depends on their wrap-around. The first word of a free block, which the code
  uses as the link of the free list, is \<open>ma_links\<close>.
\<close>

definition EMPTY :: nat where "EMPTY = 4294967295"

definition DEFAULT_LOWER :: nat where [simp]: "DEFAULT_LOWER = 8"

record blockinfo =
  bi_sizem :: nat
  bi_used :: bool

record memarea =
  ma_lower :: nat
  ma_upper :: nat
  ma_mem :: u32
  ma_blocks :: "blockinfo list"
  ma_freelist :: "nat list"
  ma_links :: "nat \<Rightarrow> nat"

subsection \<open>The macros over the blocks array\<close>

definition bix :: "memarea \<Rightarrow> nat \<Rightarrow> nat" where
  "bix ma b = b div 2 ^ ma_lower ma"

definition get_blk :: "memarea \<Rightarrow> nat \<Rightarrow> blockinfo option" where
  "get_blk ma b =
     (if bix ma b < length (ma_blocks ma) then Some (ma_blocks ma ! bix ma b) else None)"

definition get_sizem :: "memarea \<Rightarrow> nat \<Rightarrow> nat option" where
  "get_sizem ma b = map_option bi_sizem (get_blk ma b)"

definition is_used :: "memarea \<Rightarrow> nat \<Rightarrow> bool option" where
  "is_used ma b = map_option bi_used (get_blk ma b)"

definition put_blk :: "memarea \<Rightarrow> nat \<Rightarrow> blockinfo \<Rightarrow> memarea" where
  "put_blk ma b x = ma\<lparr>ma_blocks := (ma_blocks ma)[bix ma b := x]\<rparr>"

text \<open>\<open>sizem\<close> is a bit field of seven bits.\<close>

definition set_sizem :: "memarea \<Rightarrow> nat \<Rightarrow> nat \<Rightarrow> memarea option" where
  "set_sizem ma b s =
     map_option (\<lambda>x. put_blk ma b (x\<lparr>bi_sizem := s mod 128\<rparr>)) (get_blk ma b)"

definition set_used :: "memarea \<Rightarrow> nat \<Rightarrow> bool \<Rightarrow> memarea option" where
  "set_used ma b u = map_option (\<lambda>x. put_blk ma b (x\<lparr>bi_used := u\<rparr>)) (get_blk ma b)"

subsection \<open>Sizes and buddies\<close>

text \<open>
  The loop \<open>for (pow2 = 1; pow2 <= nbytes; pow2 *= 2) m++\<close>. \<open>pow2\<close> is an
  \<open>unsigned int\<close>: it wraps to 0, and the loop then never ends.
\<close>

partial_function (option) mforsize_loop :: "u32 \<Rightarrow> u32 \<Rightarrow> nat \<Rightarrow> nat option" where
  "mforsize_loop nbytes pow2 m =
     (if pow2 \<le> nbytes then mforsize_loop nbytes (pow2 * 2) (Suc m) else Some m)"

definition mforsize :: "memarea \<Rightarrow> u32 \<Rightarrow> nat option" where
  "mforsize ma nbytes =
     do {
       m \<leftarrow> mforsize_loop nbytes 1 0;
       Some (if ma_lower ma \<le> m then m else ma_lower ma)
     }"

definition buddy_of :: "nat \<Rightarrow> nat \<Rightarrow> nat" where
  "buddy_of m block = (if bit block m then unset_bit m block else set_bit m block)"

definition get_buddy :: "memarea \<Rightarrow> nat \<Rightarrow> nat option" where
  "get_buddy ma block =
     do {
       m \<leftarrow> get_sizem ma block;
       assert_c (ma_lower ma \<le> m \<and> m \<le> ma_upper ma);
       Some (buddy_of m block)
     }"

subsection \<open>Free lists\<close>

definition add_to_freelist :: "memarea \<Rightarrow> nat \<Rightarrow> nat \<Rightarrow> memarea option" where
  "add_to_freelist ma m block =
     do {
       assert_c (block + 2 ^ m \<le> 2 ^ ma_upper ma);
       Some (ma\<lparr>ma_links := (ma_links ma)(block := ma_freelist ma ! m),
                ma_freelist := (ma_freelist ma)[m := block]\<rparr>)
     }"

text \<open>
  \<open>remove_from_freelist\<close> walks the list with a pointer to the cell that holds the current
  link: first the list head in the \<open>freelist\<close> array, then the first word of a free block.
\<close>

datatype cell = Head nat | Link nat

definition cell_read :: "memarea \<Rightarrow> cell \<Rightarrow> nat" where
  "cell_read ma p = (case p of Head m \<Rightarrow> ma_freelist ma ! m | Link b \<Rightarrow> ma_links ma b)"

definition cell_write :: "memarea \<Rightarrow> cell \<Rightarrow> nat \<Rightarrow> memarea" where
  "cell_write ma p v =
     (case p of
        Head m \<Rightarrow> ma\<lparr>ma_freelist := (ma_freelist ma)[m := v]\<rparr>
      | Link b \<Rightarrow> ma\<lparr>ma_links := (ma_links ma)(b := v)\<rparr>)"

partial_function (option) remove_loop :: "memarea \<Rightarrow> nat \<Rightarrow> cell \<Rightarrow> memarea option" where
  "remove_loop ma block p =
     (if cell_read ma p = EMPTY then None
      else if cell_read ma p = block then Some (cell_write ma p (ma_links ma (cell_read ma p)))
      else remove_loop ma block (Link (cell_read ma p)))"

definition remove_from_freelist :: "memarea \<Rightarrow> nat \<Rightarrow> nat \<Rightarrow> memarea option" where
  "remove_from_freelist ma m block = remove_loop ma block (Head m)"

subsection \<open>Allocation\<close>

text \<open>The search for the first non-empty free list of a larger size.\<close>

function find_cm :: "memarea \<Rightarrow> nat \<Rightarrow> nat" where
  "find_cm ma cm =
     (if cm \<le> ma_upper ma then
        (if EMPTY \<noteq> ma_freelist ma ! cm then cm else find_cm ma (Suc cm))
      else cm)"
  by pat_completeness auto
termination
  by (relation "measure (\<lambda>(ma, cm). Suc (ma_upper ma) - cm)") auto

declare find_cm.simps [simp del]

text \<open>One round of the splitting loop: the first free block of size \<open>2 ^ cm\<close> in two.\<close>

definition split_block :: "memarea \<Rightarrow> nat \<Rightarrow> memarea option" where
  "split_block ma cm =
     do {
       let block = ma_freelist ma ! cm;
       u \<leftarrow> is_used ma block;
       assert_c (\<not> u);
       s \<leftarrow> get_sizem ma block;
       assert_c (s = cm);
       ma \<leftarrow> remove_from_freelist ma cm block;
       let half1 = block;
       let half2 = block + 2 ^ (cm - 1);
       ma \<leftarrow> set_sizem ma half1 (cm - 1);
       ma \<leftarrow> set_sizem ma half2 (cm - 1);
       u1 \<leftarrow> is_used ma half1;
       assert_c (\<not> u1);
       u2 \<leftarrow> is_used ma half2;
       assert_c (\<not> u2);
       ma \<leftarrow> add_to_freelist ma (cm - 1) half2;
       add_to_freelist ma (cm - 1) half1
     }"

fun split_down :: "memarea \<Rightarrow> nat \<Rightarrow> nat \<Rightarrow> memarea option" where
  "split_down ma cm m =
     (if m < cm then do { ma \<leftarrow> split_block ma cm; split_down ma (cm - 1) m } else Some ma)"

declare split_down.simps [simp del]

text \<open>The last part of \<open>buddy_alloc\<close>: take the next correctly sized block.\<close>

definition take_block :: "memarea \<Rightarrow> nat \<Rightarrow> (u32 \<times> memarea) option" where
  "take_block ma m =
     do {
       let block = ma_freelist ma ! m;
       assert_c (EMPTY \<noteq> block);
       u \<leftarrow> is_used ma block;
       assert_c (\<not> u);
       s \<leftarrow> get_sizem ma block;
       assert_c (s = m);
       ma \<leftarrow> set_used ma block True;
       ma \<leftarrow> remove_from_freelist ma m block;
       Some (of_nat block + ma_mem ma, ma)
     }"

text \<open>
  \<open>userland\<close> is the macro \<open>USERLAND\<close>: without it running out of memory is a failed
  assertion, with it the result is \<open>NULL\<close>.
\<close>

definition buddy_alloc :: "bool \<Rightarrow> memarea \<Rightarrow> u32 \<Rightarrow> (u32 \<times> memarea) option" where
  "buddy_alloc userland ma nbytes =
     do {
       m \<leftarrow> mforsize ma nbytes;
       if EMPTY = ma_freelist ma ! m
       then (let cm = find_cm ma (Suc m) in
             if ma_upper ma < cm
             then (if userland then Some (0, ma) else None)
             else do { ma \<leftarrow> split_down ma cm m; take_block ma m })
       else take_block ma m
     }"

subsection \<open>Release\<close>

text \<open>The body of the merging loop: one merge of \<open>block\<close> with its free buddy.\<close>

definition merge_block :: "memarea \<Rightarrow> nat \<Rightarrow> nat \<Rightarrow> nat \<Rightarrow> (memarea \<times> nat) option" where
  "merge_block ma block m buddy =
     do {
       ma \<leftarrow> remove_from_freelist ma m buddy;
       let lo = (if buddy < block then buddy else block);
       let hi = (if buddy < block then block else buddy);
       ma \<leftarrow> set_sizem ma lo (Suc m);
       ma \<leftarrow> set_sizem ma hi 0;
       Some (ma, lo)
     }"

lemma remove_loop_fields:
  assumes "remove_loop ma block p = Some ma'"
  shows "ma_upper ma' = ma_upper ma \<and> ma_lower ma' = ma_lower ma \<and> ma_mem ma' = ma_mem ma \<and>
    ma_blocks ma' = ma_blocks ma"
  by (rule remove_loop.raw_induct [OF _ assms, where
        P = "\<lambda>ma block p ma'. ma_upper ma' = ma_upper ma \<and> ma_lower ma' = ma_lower ma \<and>
          ma_mem ma' = ma_mem ma \<and> ma_blocks ma' = ma_blocks ma"])
     (auto simp: cell_write_def split: if_splits cell.splits)

lemma merge_block_upper:
  "merge_block ma block m buddy = Some (ma', lo) \<Longrightarrow> ma_upper ma' = ma_upper ma"
  by (auto simp: merge_block_def remove_from_freelist_def set_sizem_def put_blk_def Let_def
      bind_eq_Some_conv dest: remove_loop_fields)

function merge_loop :: "memarea \<Rightarrow> nat \<Rightarrow> nat \<Rightarrow> nat \<Rightarrow> (memarea \<times> nat \<times> nat) option" where
  "merge_loop ma block m buddy =
     (if m < ma_upper ma then
        do {
          u \<leftarrow> is_used ma buddy;
          s \<leftarrow> get_sizem ma buddy;
          if \<not> u \<and> s = m
          then do {
                 x \<leftarrow> merge_block ma block m buddy;
                 buddy' \<leftarrow> get_buddy (fst x) (snd x);
                 merge_loop (fst x) (snd x) (Suc m) buddy'
               }
          else Some (ma, block, m)
        }
      else Some (ma, block, m))"
  by pat_completeness auto
termination
  by (relation "measure (\<lambda>(ma, block, m, buddy). ma_upper ma - m)")
     (auto dest: merge_block_upper)

declare merge_loop.simps [simp del]

definition buddy_free :: "memarea \<Rightarrow> u32 \<Rightarrow> memarea option" where
  "buddy_free ma ptr =
     (if ptr = 0 then Some ma
      else do {
        assert_c (ma_mem ma \<le> ptr \<and> ptr < ma_mem ma + of_nat (2 ^ ma_upper ma));
        let block = unat (ptr - ma_mem ma);
        m \<leftarrow> get_sizem ma block;
        assert_c (ma_lower ma \<le> m \<and> m \<le> ma_upper ma);
        u \<leftarrow> is_used ma block;
        assert_c u;
        ma \<leftarrow> set_used ma block False;
        buddy \<leftarrow> get_buddy ma block;
        x \<leftarrow> merge_loop ma block m buddy;
        add_to_freelist (fst x) (snd (snd x)) (fst (snd x))
      })"

subsection \<open>Initialisation\<close>

definition buddy_nblocks :: "nat \<Rightarrow> nat" where
  "buddy_nblocks sizepow2 = 2 ^ (sizepow2 - DEFAULT_LOWER)"

text \<open>
  \<open>membase\<close> is the memory to manage, with \<open>lk\<close> the words it holds, and \<open>bs\<close> is the
  array that the caller provides for the block table (it is overwritten).
\<close>

definition buddy_init :: "nat \<Rightarrow> u32 \<Rightarrow> (nat \<Rightarrow> nat) \<Rightarrow> blockinfo list \<Rightarrow> memarea" where
  "buddy_init sizepow2 membase lk bs =
     (let nblocks = 2 ^ (sizepow2 - DEFAULT_LOWER);
          zeroed = replicate nblocks \<lparr>bi_sizem = 0, bi_used = False\<rparr> @ drop nblocks bs
      in \<lparr>ma_lower = DEFAULT_LOWER, ma_upper = sizepow2, ma_mem = membase,
          ma_blocks = zeroed[0 := \<lparr>bi_sizem = sizepow2 mod 128, bi_used = False\<rparr>],
          ma_freelist = (replicate 32 EMPTY)[sizepow2 := 0],
          ma_links = lk(0 := EMPTY)\<rparr>)"

subsection \<open>The kernel's and the processes' heaps\<close>

definition KERNEL_MEM_BASE :: u32 where [simp]: "KERNEL_MEM_BASE = 2097152"
definition KERNEL_MEM_SIZEPOW2 :: nat where [simp]: "KERNEL_MEM_SIZEPOW2 = 22"
definition PROCESS_DATA_BASE :: u32 where [simp]: "PROCESS_DATA_BASE = 0x20000000"

definition kmalloc_init :: "(nat \<Rightarrow> nat) \<Rightarrow> blockinfo list \<Rightarrow> memarea" where
  "kmalloc_init lk kernel_blocks = buddy_init KERNEL_MEM_SIZEPOW2 KERNEL_MEM_BASE lk kernel_blocks"

definition kmalloc :: "u32 \<Rightarrow> memarea \<Rightarrow> (u32 \<times> memarea) option" where
  "kmalloc nbytes kernel_memarea =
     do {
       (ptr, ma) \<leftarrow> buddy_alloc False kernel_memarea nbytes;
       assert_c (ptr \<noteq> 0);
       Some (ptr, ma)
     }"

definition kfree :: "u32 \<Rightarrow> memarea \<Rightarrow> memarea option" where
  "kfree ptr kernel_memarea = buddy_free kernel_memarea ptr"

text \<open>\<open>ma\<close> is the structure at \<open>PROCESS_DATA_BASE\<close> of the calling process.\<close>

definition malloc :: "bool \<Rightarrow> u32 \<Rightarrow> memarea \<Rightarrow> (u32 \<times> memarea) option" where
  "malloc in_user_mode nbytes ma =
     do {
       assert_c in_user_mode;
       (ptr, ma) \<leftarrow> buddy_alloc False ma nbytes;
       assert_c (ptr \<noteq> 0);
       Some (ptr, ma)
     }"

definition free_user :: "bool \<Rightarrow> u32 \<Rightarrow> memarea \<Rightarrow> memarea option" where
  "free_user in_user_mode ptr ma =
     do {
       assert_c in_user_mode;
       buddy_free ma ptr
     }"

text \<open>
  \<open>sizeof(memarea)\<close> is 144 and \<open>sizeof(blockinfo)\<close> is 1. The heap and the block table lie
  behind the structure in the data segment, which \<open>brk\<close> makes large enough; when it fails
  the process exits.
\<close>

definition init_userspace_malloc ::
    "(u32 \<Rightarrow> int) \<Rightarrow> (nat \<Rightarrow> nat) \<Rightarrow> blockinfo list \<Rightarrow> memarea option" where
  "init_userspace_malloc brk lk bs =
     (let heap_sizep2 = 20;
          heap_size = 2 ^ heap_sizep2 :: u32;
          memarea_size = 144;
          blocks_size = of_nat (buddy_nblocks heap_sizep2);
          total_size = heap_size + memarea_size + blocks_size;
          data_end = PROCESS_DATA_BASE + total_size;
          heap_start = PROCESS_DATA_BASE + memarea_size
      in if brk data_end \<noteq> 0 then None
         else Some (buddy_init heap_sizep2 heap_start lk bs))"

end
