(* ===== verification/Buddy_Tiles.thy ===== *)
theory Buddy_Tiles
  imports Buddy
begin

text \<open>
  The abstract view of a buddy area: a block table, which maps the start of each block to the
  exponent of its size and to whether it is in use, and the property \<open>tiles\<close> that the blocks
  partition the area into aligned pieces. This theory is about tables only: what splitting,
  merging and marking do to a tiling, and that a fully coalesced table with nothing in use is
  the single block of the whole area.
\<close>

type_synonym btable = "nat \<rightharpoonup> nat \<times> bool"

definition in_area :: "nat \<Rightarrow> nat \<Rightarrow> nat \<Rightarrow> nat \<Rightarrow> bool" where
  "in_area lo up b m \<longleftrightarrow> lo \<le> m \<and> m \<le> up \<and> 2 ^ m dvd b \<and> b + 2 ^ m \<le> 2 ^ up"

definition tiles :: "nat \<Rightarrow> nat \<Rightarrow> btable \<Rightarrow> bool" where
  "tiles lo up B \<longleftrightarrow>
     (\<forall>b m u. B b = Some (m, u) \<longrightarrow> in_area lo up b m) \<and>
     (\<forall>b m u b' m' u'. B b = Some (m, u) \<longrightarrow> B b' = Some (m', u') \<longrightarrow> b < b' \<longrightarrow> b + 2 ^ m \<le> b') \<and>
     (\<forall>x < 2 ^ up. \<exists>b m u. B b = Some (m, u) \<and> b \<le> x \<and> x < b + 2 ^ m)"

text \<open>No two free blocks of the same size are buddies: everything that can merge has merged.\<close>

definition coalesced :: "nat \<Rightarrow> (nat \<Rightarrow> nat set) \<Rightarrow> bool" where
  "coalesced up F \<longleftrightarrow> (\<forall>m b. m < up \<longrightarrow> b \<in> F m \<longrightarrow> buddy_of m b \<notin> F m)"

lemma tiles_area: "tiles lo up B \<Longrightarrow> B b = Some (m, u) \<Longrightarrow> in_area lo up b m"
  by (auto simp: tiles_def)

lemma tiles_disjoint:
  "tiles lo up B \<Longrightarrow> B b = Some (m, u) \<Longrightarrow> B b' = Some (m', u') \<Longrightarrow> b < b' \<Longrightarrow> b + 2 ^ m \<le> b'"
  unfolding tiles_def by blast

lemma tiles_cover:
  assumes "tiles lo up B" "x < 2 ^ up"
  obtains b m u where "B b = Some (m, u)" "b \<le> x" "x < b + 2 ^ m"
  using assms unfolding tiles_def by blast

text \<open>Two blocks that share a point are the same block.\<close>

lemma tiles_same:
  assumes t: "tiles lo up B" and a: "B b = Some (m, u)" and b: "B b' = Some (m', u')"
    and x: "b \<le> x" "x < b + 2 ^ m" "b' \<le> x" "x < b' + 2 ^ m'"
  shows "b = b'"
proof (rule ccontr)
  assume "b \<noteq> b'"
  then consider "b < b'" | "b' < b" by linarith
  then show False
    using tiles_disjoint [OF t a b] tiles_disjoint [OF t b a] x by cases auto
qed

lemma tiles_lt: "tiles lo up B \<Longrightarrow> B b = Some (m, u) \<Longrightarrow> b < 2 ^ up"
  using tiles_area [of lo up B b m u] zero_less_power [of "2::nat" m]
  unfolding in_area_def by linarith

subsection \<open>Buddies\<close>

lemma bit_iff_not_dvd:
  fixes b :: nat
  assumes "2 ^ m dvd b"
  shows "bit b m \<longleftrightarrow> \<not> 2 ^ Suc m dvd b"
proof -
  from assms obtain q where q: "b = 2 ^ m * q" by (auto simp: dvd_def)
  then have "bit b m \<longleftrightarrow> odd q" by (simp add: bit_iff_odd)
  moreover have "2 ^ Suc m dvd b \<longleftrightarrow> even q" using q by simp
  ultimately show ?thesis by simp
qed

lemma unset_bit_nat:
  fixes b :: nat
  assumes "bit b m"
  shows "unset_bit m b = b - 2 ^ m"
proof -
  have "set_bit m (unset_bit m b) = b"
    by (rule bit_eqI) (auto simp: bit_set_bit_iff bit_unset_bit_iff assms)
  moreover have "set_bit m (unset_bit m b) = unset_bit m b + 2 ^ m"
    by (simp add: set_bit_eq bit_unset_bit_iff)
  ultimately show ?thesis by simp
qed

lemma buddy_of_arith:
  assumes "2 ^ m dvd b"
  shows "buddy_of m b = (if 2 ^ Suc m dvd b then b + 2 ^ m else b - 2 ^ m)"
  using bit_iff_not_dvd [OF assms]
  by (auto simp: buddy_of_def set_bit_eq unset_bit_nat)

lemma not_dvd_Suc_ge:
  fixes b :: nat
  assumes "2 ^ m dvd b" "\<not> 2 ^ Suc m dvd b"
  shows "2 ^ m \<le> b"
  using assms by (metis dvd_0_right dvd_imp_le gr_zeroI)

lemma not_dvd_Suc_pred:
  fixes b :: nat
  assumes "2 ^ m dvd b" "\<not> 2 ^ Suc m dvd b"
  shows "2 ^ Suc m dvd b - 2 ^ m"
proof -
  from assms(1) obtain q where q: "b = 2 ^ m * q" by (auto simp: dvd_def)
  with assms(2) have "odd q" by auto
  then obtain r where "q = Suc (2 * r)" by (auto elim: oddE)
  with q have "b - 2 ^ m = 2 ^ Suc m * r" by (simp add: algebra_simps)
  then show ?thesis by (rule dvdI)
qed

lemma dvd_Suc_not_add:
  fixes b :: nat
  assumes "2 ^ Suc m dvd b"
  shows "\<not> 2 ^ Suc m dvd b + 2 ^ m"
  using assms by (auto simp: dvd_add_right_iff dest: dvd_imp_le)

lemma buddy_of_dvd: "2 ^ m dvd b \<Longrightarrow> 2 ^ m dvd buddy_of m b"
  by (auto simp: buddy_of_arith intro: dvd_diff_nat)

lemma buddy_of_neq:
  assumes "2 ^ m dvd b"
  shows "buddy_of m b \<noteq> b"
proof (cases "2 ^ Suc m dvd b")
  case True
  with assms show ?thesis by (simp add: buddy_of_arith)
next
  case False
  have "b - 2 ^ m < b"
    using not_dvd_Suc_ge [OF assms False] zero_less_power [of "2::nat" m] by linarith
  with assms False show ?thesis by (simp add: buddy_of_arith)
qed

lemma buddy_of_involution:
  assumes "2 ^ m dvd b"
  shows "buddy_of m (buddy_of m b) = b"
proof (cases "2 ^ Suc m dvd b")
  case True
  from assms have "2 ^ m dvd b + 2 ^ m" by simp
  with True assms dvd_Suc_not_add [OF True] show ?thesis by (simp add: buddy_of_arith)
next
  case False
  from assms have "2 ^ m dvd b - 2 ^ m" by (simp add: dvd_diff_nat)
  with False assms not_dvd_Suc_pred [OF assms False] not_dvd_Suc_ge [OF assms False]
  show ?thesis by (simp add: buddy_of_arith)
qed

text \<open>A block and its buddy are the two halves of one aligned block of twice the size.\<close>

lemma buddy_of_halves:
  assumes "2 ^ m dvd b"
  obtains "2 ^ Suc m dvd b" "buddy_of m b = b + 2 ^ m"
  | "2 ^ Suc m dvd buddy_of m b" "b = buddy_of m b + 2 ^ m"
  using assms not_dvd_Suc_pred [OF assms] not_dvd_Suc_ge [OF assms]
  by (cases "2 ^ Suc m dvd b") (auto simp: buddy_of_arith)

lemma buddy_of_in_area:
  assumes "in_area lo up b m" "m < up"
  shows "in_area lo up (buddy_of m b) m"
proof -
  from assms have d: "2 ^ m dvd b" and le: "b + 2 ^ m \<le> 2 ^ up" by (auto simp: in_area_def)
  show ?thesis
  proof (rule buddy_of_halves [OF d])
    assume h: "2 ^ Suc m dvd b" "buddy_of m b = b + 2 ^ m"
    have "2 ^ Suc m dvd (2::nat) ^ up" using assms(2) by (intro le_imp_power_dvd) simp
    moreover have "b < 2 ^ up" using le zero_less_power [of "2::nat" m] by linarith
    ultimately have "b + 2 ^ Suc m \<le> 2 ^ up" using h(1) by (intro dvd_less_add_le)
    with assms d h show ?thesis by (simp add: in_area_def)
  next
    assume "2 ^ Suc m dvd buddy_of m b" "b = buddy_of m b + 2 ^ m"
    with assms le buddy_of_dvd [OF d] show ?thesis by (simp add: in_area_def)
  qed
qed

subsection \<open>Marking, splitting and merging keep the tiling\<close>

lemma tiles_mark:
  assumes t: "tiles lo up B" and b: "B b = Some (m, u)"
  shows "tiles lo up (B(b \<mapsto> (m, v)))"
proof -
  let ?B = "B(b \<mapsto> (m, v))"
  have from_B: "\<exists>u'. B c = Some (k, u')" if "?B c = Some (k, w)" for c k w
    using that b by (auto split: if_splits)
  have to_B: "\<exists>u'. ?B c = Some (k, u')" if "B c = Some (k, w)" for c k w
    using that b by auto
  have "in_area lo up c k" if "?B c = Some (k, w)" for c k w
    using from_B [OF that] tiles_area [OF t] by blast
  moreover have "c + 2 ^ k \<le> c'" if "?B c = Some (k, w)" "?B c' = Some (k', w')" "c < c'" for c c' k k' w w'
    using from_B [OF that(1)] from_B [OF that(2)] that(3) tiles_disjoint [OF t] by blast
  moreover have "\<exists>c k w. ?B c = Some (k, w) \<and> c \<le> x \<and> x < c + 2 ^ k" if "x < 2 ^ up" for x
    using tiles_cover [OF t that] to_B by metis
  ultimately show ?thesis unfolding tiles_def by blast
qed

lemma tiles_split:
  assumes t: "tiles lo up B" and b: "B b = Some (Suc k, u)" and lo: "lo \<le> k"
  shows "tiles lo up (B(b \<mapsto> (k, v), b + 2 ^ k \<mapsto> (k, w)))"
proof -
  let ?B = "B(b \<mapsto> (k, v), b + 2 ^ k \<mapsto> (k, w))"
  from tiles_area [OF t b] have dv: "2 ^ Suc k dvd b" and top: "b + 2 * 2 ^ k \<le> 2 ^ up" "Suc k \<le> up"
    by (auto simp: in_area_def)
  from dv have dv': "2 ^ k dvd b" by (auto dest: dvd_mult_right)
  have old: "c \<noteq> b \<and> B c = Some (l, x) \<and> (c + 2 ^ l \<le> b \<or> b + 2 * 2 ^ k \<le> c)"
    if "?B c = Some (l, x)" "c \<noteq> b" "c \<noteq> b + 2 ^ k" for c l x
  proof -
    from that have c: "B c = Some (l, x)" by simp
    from that(2) consider "c < b" | "b < c" by linarith
    then show ?thesis using tiles_disjoint [OF t c b] tiles_disjoint [OF t b c] c that(2) by cases auto
  qed
  have area: "in_area lo up c l" if "?B c = Some (l, x)" for c l x
  proof (cases "c = b \<or> c = b + 2 ^ k")
    case True
    with that lo top dv' show ?thesis by (auto simp: in_area_def split: if_splits)
  next
    case False
    with old [OF that] tiles_area [OF t] show ?thesis by blast
  qed
  have disj: "c + 2 ^ l \<le> c'" if "?B c = Some (l, x)" "?B c' = Some (l', x')" "c < c'" for c c' l l' x x'
  proof (cases "c = b \<or> c = b + 2 ^ k")
    case True
    with that have "l = k" by (auto split: if_splits)
    with True that(3) old [OF that(2)] show ?thesis by (cases "c' = b + 2 ^ k") auto
  next
    case False
    then have c: "B c = Some (l, x)" "c + 2 ^ l \<le> b \<or> b + 2 * 2 ^ k \<le> c" using old [OF that(1)] by auto
    show ?thesis
    proof (cases "c' = b \<or> c' = b + 2 ^ k")
      case True
      with c that(3) show ?thesis by auto
    next
      case False
      with old [OF that(2)] have "B c' = Some (l', x')" by auto
      from tiles_disjoint [OF t c(1) this that(3)] show ?thesis .
    qed
  qed
  have cov: "\<exists>c l x'. ?B c = Some (l, x') \<and> c \<le> x \<and> x < c + 2 ^ l" if "x < 2 ^ up" for x
  proof -
    from tiles_cover [OF t that] obtain c l y where c: "B c = Some (l, y)" "c \<le> x" "x < c + 2 ^ l" .
    consider "c = b" "x < b + 2 ^ k" | "c = b" "b + 2 ^ k \<le> x" | "c \<noteq> b" by linarith
    then show ?thesis
    proof cases
      case 1
      then have "?B b = Some (k, v)" by simp
      with 1 c show ?thesis by blast
    next
      case 2
      with c b have "x < b + 2 ^ k + 2 ^ k" by auto
      with 2 show ?thesis by - (rule exI [of _ "b + 2 ^ k"], auto)
    next
      case 3
      have "c \<noteq> b + 2 ^ k"
        using tiles_disjoint [OF t b c(1)] by auto
      with 3 c show ?thesis by - (rule exI [of _ c], auto)
    qed
  qed
  from area disj cov show ?thesis unfolding tiles_def by blast
qed

lemma tiles_merge:
  assumes t: "tiles lo up B" and b: "B b = Some (k, u)" "B (b + 2 ^ k) = Some (k, u')"
    and al: "2 ^ Suc k dvd b" and up: "k < up"
  shows "tiles lo up (B(b \<mapsto> (Suc k, v), b + 2 ^ k := None))"
proof -
  let ?B = "B(b \<mapsto> (Suc k, v), b + 2 ^ k := None)"
  from tiles_area [OF t b(1)] tiles_area [OF t b(2)]
  have lo: "lo \<le> k" and top: "b + 2 * 2 ^ k \<le> 2 ^ up" by (auto simp: in_area_def)
  have old: "B c = Some (l, x) \<and> (c + 2 ^ l \<le> b \<or> b + 2 * 2 ^ k \<le> c)"
    if "?B c = Some (l, x)" "c \<noteq> b" for c l x
  proof -
    from that have c: "B c = Some (l, x)" and ne: "c \<noteq> b + 2 ^ k" by (auto split: if_splits)
    from that(2) ne consider "c < b" | "b < c" "c < b + 2 ^ k" | "b + 2 ^ k < c" by linarith
    then show ?thesis
      using tiles_disjoint [OF t c b(1)] tiles_disjoint [OF t b(1) c] tiles_disjoint [OF t b(2) c] c
      by cases auto
  qed
  have area: "in_area lo up c l" if "?B c = Some (l, x)" for c l x
    using that old [OF that] tiles_area [OF t] lo top al up
    by (cases "c = b") (auto simp: in_area_def split: if_splits)
  have disj: "c + 2 ^ l \<le> c'" if "?B c = Some (l, x)" "?B c' = Some (l', x')" "c < c'" for c c' l l' x x'
  proof (cases "c = b")
    case True
    with that have "l = Suc k" by (auto split: if_splits)
    with True that(3) old [OF that(2)] show ?thesis by auto
  next
    case False
    note c = old [OF that(1) False]
    show ?thesis
    proof (cases "c' = b")
      case True
      with c that(3) show ?thesis by auto
    next
      case False
      with c old [OF that(2) False] that(3) show ?thesis using tiles_disjoint [OF t] by blast
    qed
  qed
  have cov: "\<exists>c l x'. ?B c = Some (l, x') \<and> c \<le> x \<and> x < c + 2 ^ l" if "x < 2 ^ up" for x
  proof -
    from tiles_cover [OF t that] obtain c l y where c: "B c = Some (l, y)" "c \<le> x" "x < c + 2 ^ l" .
    show ?thesis
    proof (cases "c = b \<or> c = b + 2 ^ k")
      case True
      with c b have "b \<le> x \<and> x < b + 2 ^ Suc k" by (elim disjE) auto
      then show ?thesis by - (rule exI [of _ b], auto)
    next
      case False
      with c show ?thesis by - (rule exI [of _ c], auto)
    qed
  qed
  from area disj cov show ?thesis unfolding tiles_def by blast
qed

subsection \<open>A coalesced area with nothing in use is one block\<close>

text \<open>A smallest block has a block of its own size as its buddy.\<close>

lemma smallest_buddy:
  assumes t: "tiles lo up B" and b: "B b = Some (m, u)" and m: "m < up"
    and least: "\<And>c k w. B c = Some (k, w) \<Longrightarrow> m \<le> k"
  shows "\<exists>w. B (buddy_of m b) = Some (m, w)"
proof -
  let ?c = "buddy_of m b"
  from tiles_area [OF t b] have ab: "in_area lo up b m" and d: "2 ^ m dvd b" by (auto simp: in_area_def)
  from buddy_of_in_area [OF ab m] have dc: "2 ^ m dvd ?c" and "?c + 2 ^ m \<le> 2 ^ up"
    by (auto simp: in_area_def)
  then have "?c < 2 ^ up" using zero_less_power [of "2::nat" m] by linarith
  from tiles_cover [OF t this] obtain a k w where a: "B a = Some (k, w)" "a \<le> ?c" "?c < a + 2 ^ k" .
  from tiles_area [OF t a(1)] have da: "2 ^ k dvd a" by (simp add: in_area_def)
  show ?thesis
  proof (cases "k = m")
    case True
    then have "a = ?c"
      using a da dc dvd_less_add_le [of "2 ^ m" a ?c] by (cases "a = ?c") auto
    with a True show ?thesis by blast
  next
    case False
    with least [OF a(1)] have mk: "m < k" by simp
    then have dk: "2 ^ Suc m dvd (2::nat) ^ k" by (intro le_imp_power_dvd) simp
    with da have das: "2 ^ Suc m dvd a" by (rule dvd_trans [rotated])
    have das': "2 ^ Suc m dvd a + 2 ^ k" using das dk by simp
    have "a \<le> b \<and> b < a + 2 ^ k"
    proof (rule buddy_of_halves [OF d])
      assume h: "2 ^ Suc m dvd b" "?c = b + 2 ^ m"
      have "a \<le> b"
        using dvd_less_add_le [OF h(1) das] a(2) h(2) zero_less_power [of "2::nat" m]
        by (cases "a \<le> b") auto
      with a h show ?thesis by simp
    next
      assume h: "2 ^ Suc m dvd ?c" "b = ?c + 2 ^ m"
      have "?c + 2 ^ Suc m \<le> a + 2 ^ k" by (rule dvd_less_add_le [OF h(1) das' a(3)])
      with a h zero_less_power [of "2::nat" m] show ?thesis by simp
    qed
    then have "b = a" using tiles_same [OF t b a(1), of b] by simp
    with a b mk show ?thesis by simp
  qed
qed

theorem all_free_single:
  assumes t: "tiles lo up B" and free: "\<And>b m u. B b = Some (m, u) \<Longrightarrow> \<not> u"
    and co: "coalesced up (\<lambda>m. {b. B b = Some (m, False)})"
  shows "B = [0 \<mapsto> (up, False)]"
proof -
  have whole: "m = up" if "B b = Some (m, u)" for b m u
  proof -
    let ?P = "\<lambda>k. \<exists>c w. B c = Some (k, w)"
    define k where "k = (LEAST k. ?P k)"
    have "?P k" unfolding k_def by (rule LeastI_ex) (use that in blast)
    then obtain c w where c: "B c = Some (k, w)" by blast
    have least: "k \<le> l" if "B d = Some (l, x)" for d l x
      unfolding k_def by (rule Least_le) (use that in blast)
    have "\<not> k < up"
    proof
      assume k: "k < up"
      from smallest_buddy [OF t c k] least obtain x where x: "B (buddy_of k c) = Some (k, x)" by blast
      from free [OF c] free [OF x] c x have "B c = Some (k, False)" "B (buddy_of k c) = Some (k, False)"
        by auto
      with co k show False by (auto simp: coalesced_def)
    qed
    with least [OF that] tiles_area [OF t that] show ?thesis by (auto simp: in_area_def)
  qed
  have zero: "b = 0" if "B b = Some (m, u)" for b m u
    using tiles_area [OF t that] whole [OF that] by (auto simp: in_area_def)
  have none: "B b = None" if "b \<noteq> 0" for b
    using that zero by (cases "B b") auto
  obtain b m u where b: "B b = Some (m, u)"
    by (rule tiles_cover [OF t, of 0]) auto
  with none have "b = 0" by (cases "b = 0") auto
  with b whole [OF b] free [OF b] have "B 0 = Some (up, False)" by simp
  with none show ?thesis by (auto simp: fun_eq_iff)
qed

end
