(* ===== verification/Buddy_Correct.thy ===== *)
theory Buddy_Correct
  imports Buddy_Tiles
begin

text \<open>
  Correctness of the buddy allocator. \<open>rep ma B F l\<close> relates a memory area to its abstract
  block table \<open>B\<close>: the geometry is sane, the blocks tile the area, the array \<open>blocks\<close> is the
  table, and the linked free list of each size \<open>m\<close> is the list \<open>F m\<close> of exactly the free
  blocks of that size, except for the blocks in \<open>l\<close>, which an operation holds in its hands.
\<close>

subsection \<open>Free lists in memory\<close>

primrec chain :: "(nat \<Rightarrow> nat) \<Rightarrow> nat \<Rightarrow> nat list \<Rightarrow> bool" where
  "chain lk v [] \<longleftrightarrow> v = EMPTY"
| "chain lk v (x # xs) \<longleftrightarrow> v = x \<and> x \<noteq> EMPTY \<and> chain lk (lk x) xs"

definition lists :: "memarea \<Rightarrow> (nat \<Rightarrow> nat list) \<Rightarrow> bool" where
  "lists ma F \<longleftrightarrow>
     length (ma_freelist ma) = 32 \<and>
     (\<forall>m<32. chain (ma_links ma) (ma_freelist ma ! m) (F m) \<and> distinct (F m)) \<and>
     (\<forall>m m'. m \<noteq> m' \<longrightarrow> set (F m) \<inter> set (F m') = {})"

definition same_area :: "memarea \<Rightarrow> memarea \<Rightarrow> bool" where
  "same_area ma ma' \<longleftrightarrow> ma_lower ma' = ma_lower ma \<and> ma_upper ma' = ma_upper ma \<and> ma_mem ma' = ma_mem ma"

lemma same_area_refl [simp]: "same_area ma ma"
  by (simp add: same_area_def)

lemma same_area_trans [trans]: "same_area a b \<Longrightarrow> same_area b c \<Longrightarrow> same_area a c"
  by (simp add: same_area_def)

lemma chain_cong:
  "(\<And>x. x \<in> set xs \<Longrightarrow> lk' x = lk x) \<Longrightarrow> chain lk' v xs = chain lk v xs"
  by (induction xs arbitrary: v) auto

lemma chain_update [simp]: "b \<notin> set xs \<Longrightarrow> chain (lk(b := y)) v xs = chain lk v xs"
  by (rule chain_cong) auto

lemma chain_empty_iff: "chain lk v xs \<Longrightarrow> v = EMPTY \<longleftrightarrow> xs = []"
  by (cases xs) auto

lemma chain_head: "chain lk v (x # xs) \<Longrightarrow> v = x"
  by simp

lemma lists_head: "lists ma F \<Longrightarrow> m < 32 \<Longrightarrow> F m = b # bs \<Longrightarrow> ma_freelist ma ! m = b"
  unfolding lists_def by (metis chain_head)

lemma lists_distinct: "lists ma F \<Longrightarrow> m < 32 \<Longrightarrow> distinct (F m)"
  by (simp add: lists_def)

lemma lists_nil: "lists ma F \<Longrightarrow> m < 32 \<Longrightarrow> ma_freelist ma ! m = EMPTY \<longleftrightarrow> F m = []"
  using chain_empty_iff by (auto simp: lists_def)

text \<open>
  The walk of \<open>remove_from_freelist\<close>: it unlinks the block and changes no cell but the one
  that pointed to it.
\<close>

lemma remove_loop_spec:
  assumes "chain (ma_links ma) (cell_read ma p) (xs @ block # ys)"
    and "distinct (xs @ block # ys)" and "\<And>q. p = Link q \<Longrightarrow> q \<notin> set (xs @ block # ys)"
    and "\<And>m. p = Head m \<Longrightarrow> m < length (ma_freelist ma)"
  shows "\<exists>fl lk. remove_loop ma block p = Some (ma\<lparr>ma_freelist := fl, ma_links := lk\<rparr>) \<and>
     length fl = length (ma_freelist ma) \<and>
     chain lk (cell_read (ma\<lparr>ma_freelist := fl, ma_links := lk\<rparr>) p) (xs @ ys) \<and>
     (\<forall>q. p \<noteq> Link q \<longrightarrow> q \<notin> set xs \<longrightarrow> lk q = ma_links ma q) \<and>
     (\<forall>m. p \<noteq> Head m \<longrightarrow> fl ! m = ma_freelist ma ! m)"
  using assms
proof (induction xs arbitrary: p)
  case Nil
  then have read: "cell_read ma p = block" "block \<noteq> EMPTY" by auto
  then have eq: "remove_loop ma block p = Some (cell_write ma p (ma_links ma block))"
    by (subst remove_loop.simps) simp
  show ?case
  proof (cases p)
    case (Head m)
    with Nil eq show ?thesis
      by (intro exI [of _ "(ma_freelist ma)[m := ma_links ma block]"] exI [of _ "ma_links ma"])
         (auto simp: cell_write_def cell_read_def)
  next
    case (Link q)
    define lk where "lk = (ma_links ma)(q := ma_links ma block)"
    have "chain lk (ma_links ma block) ys" using Nil Link by (simp add: lk_def cell_read_def)
    moreover from eq Link
    have "remove_loop ma block p = Some (ma\<lparr>ma_freelist := ma_freelist ma, ma_links := lk\<rparr>)"
      by (simp add: cell_write_def lk_def)
    moreover have "lk q = ma_links ma block" "\<And>r. r \<noteq> q \<Longrightarrow> lk r = ma_links ma r"
      by (auto simp: lk_def)
    ultimately show ?thesis using Link
      by (intro exI [of _ "ma_freelist ma"] exI [of _ lk]) (auto simp: cell_read_def)
  qed
next
  case (Cons x xs)
  then have read: "cell_read ma p = x" "x \<noteq> EMPTY" "x \<noteq> block" by auto
  then have eq: "remove_loop ma block p = remove_loop ma block (Link x)"
    by (subst remove_loop.simps) simp
  have "\<exists>fl lk. remove_loop ma block (Link x) = Some (ma\<lparr>ma_freelist := fl, ma_links := lk\<rparr>) \<and>
     length fl = length (ma_freelist ma) \<and>
     chain lk (cell_read (ma\<lparr>ma_freelist := fl, ma_links := lk\<rparr>) (Link x)) (xs @ ys) \<and>
     (\<forall>q. Link x \<noteq> Link q \<longrightarrow> q \<notin> set xs \<longrightarrow> lk q = ma_links ma q) \<and>
     (\<forall>m. Link x \<noteq> Head m \<longrightarrow> fl ! m = ma_freelist ma ! m)"
    by (rule Cons.IH) (use Cons.prems in \<open>auto simp: cell_read_def\<close>)
  then obtain fl lk where
    IH: "remove_loop ma block (Link x) = Some (ma\<lparr>ma_freelist := fl, ma_links := lk\<rparr>)"
      "length fl = length (ma_freelist ma)" "chain lk (lk x) (xs @ ys)"
      "\<And>q. q \<noteq> x \<Longrightarrow> q \<notin> set xs \<Longrightarrow> lk q = ma_links ma q" "\<And>m. fl ! m = ma_freelist ma ! m"
    by (auto simp: cell_read_def)
  have "cell_read (ma\<lparr>ma_freelist := fl, ma_links := lk\<rparr>) p = x"
    using Cons.prems(3) read(1) IH(4,5) by (cases p) (auto simp: cell_read_def)
  with eq IH read show ?case by (intro exI [of _ fl] exI [of _ lk]) auto
qed

lemma remove_from_freelist_lists:
  assumes ls: "lists ma F" and m: "m < 32" and b: "b \<in> set (F m)"
  obtains fl lk where
    "remove_from_freelist ma m b = Some (ma\<lparr>ma_freelist := fl, ma_links := lk\<rparr>)"
    "lists (ma\<lparr>ma_freelist := fl, ma_links := lk\<rparr>) (F(m := remove1 b (F m)))"
proof -
  from b obtain xs ys where split: "F m = xs @ b # ys" "b \<notin> set xs" by (meson split_list_first)
  from ls m have "chain (ma_links ma) (cell_read ma (Head m)) (F m)" "distinct (F m)"
    and len: "length (ma_freelist ma) = 32"
    by (auto simp: lists_def cell_read_def)
  then have ch: "chain (ma_links ma) (cell_read ma (Head m)) (xs @ b # ys)"
    and d: "distinct (xs @ b # ys)" using split by auto
  from remove_loop_spec [OF ch d] m len obtain fl lk where r:
    "remove_from_freelist ma m b = Some (ma\<lparr>ma_freelist := fl, ma_links := lk\<rparr>)"
    "length fl = 32" "chain lk (fl ! m) (xs @ ys)"
    "\<And>q. q \<notin> set xs \<Longrightarrow> lk q = ma_links ma q" "\<And>j. j \<noteq> m \<Longrightarrow> fl ! j = ma_freelist ma ! j"
    by (auto simp: remove_from_freelist_def cell_read_def)
  have F': "remove1 b (F m) = xs @ ys" using split by (simp add: remove1_append)
  let ?F = "F(m := xs @ ys)"
  have other: "chain lk (fl ! j) (F j)" if "j \<noteq> m" "j < 32" for j
  proof -
    from ls that m have "set (F j) \<inter> set (F m) = {}" by (auto simp: lists_def)
    then have "lk x = ma_links ma x" if "x \<in> set (F j)" for x using r(4) split that by auto
    then have "chain lk (fl ! j) (F j) = chain (ma_links ma) (fl ! j) (F j)" by (rule chain_cong)
    with ls that r(5) [OF that(1)] show ?thesis by (simp add: lists_def)
  qed
  have sub: "set (?F j) \<subseteq> set (F j)" for j using split by auto
  have disj: "set (?F j) \<inter> set (?F j') = {}" if "j \<noteq> j'" for j j'
  proof -
    from ls that have "set (F j) \<inter> set (F j') = {}" unfolding lists_def by blast
    with sub [of j] sub [of j'] show ?thesis by blast
  qed
  have "chain lk (fl ! j) (?F j) \<and> distinct (?F j)" if "j < 32" for j
    using other [of j] that ls r(3) d by (auto simp: lists_def)
  with disj r(2) have "lists (ma\<lparr>ma_freelist := fl, ma_links := lk\<rparr>) ?F" by (simp add: lists_def)
  then have "lists (ma\<lparr>ma_freelist := fl, ma_links := lk\<rparr>) (F(m := remove1 b (F m)))"
    by (simp add: F')
  with r(1) show thesis by (rule that)
qed

lemma add_to_freelist_lists:
  assumes ls: "lists ma F" and m: "m < 32" and b: "\<And>j. b \<notin> set (F j)" "b \<noteq> EMPTY"
    and top: "b + 2 ^ m \<le> 2 ^ ma_upper ma"
  shows "\<exists>fl lk. add_to_freelist ma m b = Some (ma\<lparr>ma_freelist := fl, ma_links := lk\<rparr>) \<and>
    lists (ma\<lparr>ma_freelist := fl, ma_links := lk\<rparr>) (F(m := b # F m))"
proof -
  let ?fl = "(ma_freelist ma)[m := b]" and ?lk = "(ma_links ma)(b := ma_freelist ma ! m)"
  have "add_to_freelist ma m b = Some (ma\<lparr>ma_freelist := ?fl, ma_links := ?lk\<rparr>)"
    using top by (simp add: add_to_freelist_def)
  moreover have "lists (ma\<lparr>ma_freelist := ?fl, ma_links := ?lk\<rparr>) (F(m := b # F m))"
    using ls m b unfolding lists_def by (auto simp: nth_list_update)
  ultimately show ?thesis by blast
qed

subsection \<open>The representation\<close>

definition geom :: "memarea \<Rightarrow> bool" where
  "geom ma \<longleftrightarrow> 2 \<le> ma_lower ma \<and> ma_lower ma \<le> ma_upper ma \<and> ma_upper ma \<le> 31 \<and>
     length (ma_blocks ma) = 2 ^ (ma_upper ma - ma_lower ma)"

definition entry_of :: "(nat \<times> bool) option \<Rightarrow> blockinfo" where
  "entry_of e = (case e of None \<Rightarrow> \<lparr>bi_sizem = 0, bi_used = False\<rparr>
                 | Some (m, u) \<Rightarrow> \<lparr>bi_sizem = m, bi_used = u\<rparr>)"

lemma entry_of_simps [simp]:
  "bi_sizem (entry_of None) = 0" "\<not> bi_used (entry_of None)"
  "bi_sizem (entry_of (Some (m, u))) = m" "bi_used (entry_of (Some (m, u))) = u"
  by (simp_all add: entry_of_def)

definition table :: "memarea \<Rightarrow> btable \<Rightarrow> bool" where
  "table ma B \<longleftrightarrow> (\<forall>i < length (ma_blocks ma). ma_blocks ma ! i = entry_of (B (i * 2 ^ ma_lower ma)))"

definition rep :: "memarea \<Rightarrow> btable \<Rightarrow> (nat \<Rightarrow> nat list) \<Rightarrow> nat set \<Rightarrow> bool" where
  "rep ma B F l \<longleftrightarrow> geom ma \<and> tiles (ma_lower ma) (ma_upper ma) B \<and> table ma B \<and> lists ma F \<and>
     (\<forall>m. set (F m) = {b. B b = Some (m, False)} - l)"

lemma repD:
  assumes "rep ma B F l"
  shows "geom ma" "tiles (ma_lower ma) (ma_upper ma) B" "table ma B" "lists ma F"
    "\<And>m. set (F m) = {b. B b = Some (m, False)} - l"
  using assms by (auto simp: rep_def)

lemma bix_lt:
  assumes "geom ma" "b < 2 ^ ma_upper ma"
  shows "bix ma b < length (ma_blocks ma)"
proof -
  have "2 ^ ma_upper ma = 2 ^ (ma_upper ma - ma_lower ma) * (2::nat) ^ ma_lower ma"
    using assms(1) by (simp add: geom_def flip: power_add)
  with assms show ?thesis by (simp add: geom_def bix_def less_mult_imp_div_less)
qed

lemma get_blk_table:
  assumes "geom ma" "table ma B" "2 ^ ma_lower ma dvd b" "b < 2 ^ ma_upper ma"
  shows "get_blk ma b = Some (entry_of (B b))"
proof -
  have "bix ma b * 2 ^ ma_lower ma = b" using assms(3) by (simp add: bix_def)
  with bix_lt [OF assms(1,4)] assms(2) show ?thesis by (simp add: get_blk_def table_def)
qed

lemma table_put:
  assumes "geom ma" "table ma B" "2 ^ ma_lower ma dvd b" "b < 2 ^ ma_upper ma"
  shows "table (put_blk ma b (entry_of e)) (B(b := e))"
  unfolding table_def
proof (intro allI impI)
  fix i assume i: "i < length (ma_blocks (put_blk ma b (entry_of e)))"
  have "bix ma b = i \<longleftrightarrow> i * 2 ^ ma_lower ma = b" using assms(3) by (auto simp: bix_def)
  with i assms(2) bix_lt [OF assms(1,4)]
  show "ma_blocks (put_blk ma b (entry_of e)) ! i =
      entry_of ((B(b := e)) (i * 2 ^ ma_lower (put_blk ma b (entry_of e))))"
    by (auto simp: put_blk_def table_def nth_list_update)
qed

lemma table_frame [simp]:
  "table (ma\<lparr>ma_freelist := fl, ma_links := lk\<rparr>) B = table ma B"
  "geom (ma\<lparr>ma_freelist := fl, ma_links := lk\<rparr>) = geom ma"
  "get_blk (ma\<lparr>ma_freelist := fl, ma_links := lk\<rparr>) b = get_blk ma b"
  by (simp_all add: table_def geom_def get_blk_def bix_def)

lemma put_blk_frame [simp]:
  "geom (put_blk ma b x) = geom ma" "lists (put_blk ma b x) F = lists ma F"
  "ma_lower (put_blk ma b x) = ma_lower ma" "ma_upper (put_blk ma b x) = ma_upper ma"
  "ma_mem (put_blk ma b x) = ma_mem ma" "ma_freelist (put_blk ma b x) = ma_freelist ma"
  by (simp_all add: put_blk_def geom_def lists_def)

text \<open>The block-table macros act on the abstract table.\<close>

lemma set_sizem_table:
  assumes "geom ma" "table ma B" "2 ^ ma_lower ma dvd b" "b < 2 ^ ma_upper ma"
    and "case B b of None \<Rightarrow> u = False | Some (m, v) \<Rightarrow> u = v" and "s < 128"
  shows "set_sizem ma b s = Some (put_blk ma b \<lparr>bi_sizem = s, bi_used = u\<rparr>)"
  using get_blk_table [OF assms(1-4)] assms(5,6)
  by (auto simp: set_sizem_def entry_of_def split: option.splits)

lemma in_area_low:
  assumes "in_area lo up b m"
  shows "2 ^ lo dvd b" "b < 2 ^ up" "m < 128 \<or> 127 < up"
proof -
  from assms have "2 ^ lo dvd (2::nat) ^ m" "2 ^ m dvd b" "b + 2 ^ m \<le> 2 ^ up" "m \<le> up"
    by (auto simp: in_area_def intro: le_imp_power_dvd)
  moreover from this zero_less_power [of "2::nat" m] have "b < 2 ^ up" by linarith
  ultimately show "2 ^ lo dvd b" "b < 2 ^ up" "m < 128 \<or> 127 < up"
    by (auto intro: dvd_trans)
qed

lemma rep_lookup:
  assumes r: "rep ma B F l" and b: "B b = Some (m, u)"
  shows "get_blk ma b = Some \<lparr>bi_sizem = m, bi_used = u\<rparr>" "get_sizem ma b = Some m"
    "is_used ma b = Some u" "in_area (ma_lower ma) (ma_upper ma) b m" "m < 32" "b \<noteq> EMPTY"
proof -
  note R = repD [OF r]
  show a: "in_area (ma_lower ma) (ma_upper ma) b m" by (rule tiles_area [OF R(2) b])
  from get_blk_table [OF R(1,3) in_area_low(1,2) [OF a]] b
  show g: "get_blk ma b = Some \<lparr>bi_sizem = m, bi_used = u\<rparr>" by (simp add: entry_of_def)
  then show "get_sizem ma b = Some m" "is_used ma b = Some u"
    by (simp_all add: get_sizem_def is_used_def)
  from a R(1) show "m < 32" by (auto simp: in_area_def geom_def)
  have "b < 2 ^ ma_upper ma" by (rule in_area_low(2) [OF a])
  also have "\<dots> \<le> 2 ^ 31" using R(1) by (intro pow2_le_mono) (simp add: geom_def)
  finally show "b \<noteq> EMPTY" by (auto simp: EMPTY_def)
qed

lemma rep_small: "rep ma B F l \<Longrightarrow> b < 2 ^ ma_upper ma \<Longrightarrow> b \<noteq> EMPTY"
proof -
  assume "rep ma B F l" "b < 2 ^ ma_upper ma"
  moreover from this have "(2::nat) ^ ma_upper ma \<le> 2 ^ 31"
    by (intro pow2_le_mono) (simp add: rep_def geom_def)
  ultimately show "b \<noteq> EMPTY" by (auto simp: EMPTY_def)
qed

lemma is_used_table:
  "geom ma \<Longrightarrow> table ma B \<Longrightarrow> 2 ^ ma_lower ma dvd b \<Longrightarrow> b < 2 ^ ma_upper ma \<Longrightarrow>
   is_used ma b = Some (bi_used (entry_of (B b)))"
  "geom ma \<Longrightarrow> table ma B \<Longrightarrow> 2 ^ ma_lower ma dvd b \<Longrightarrow> b < 2 ^ ma_upper ma \<Longrightarrow>
   get_sizem ma b = Some (bi_sizem (entry_of (B b)))"
  by (simp_all add: is_used_def get_sizem_def get_blk_table)

lemma inside_block_None:
  assumes "tiles lo up B" "B b = Some (m, u)" "b < x" "x < b + 2 ^ m"
  shows "B x = None"
  using tiles_disjoint [OF assms(1,2)] assms(3,4) by (cases "B x") force+

subsection \<open>The primitive steps on a well-formed area\<close>

text \<open>
  \<open>wfa ma B F\<close> is the part of \<open>rep\<close> that the primitive steps keep one by one; the tiling and
  the contents of the free lists are restored only at the end of an operation.
\<close>

definition wfa :: "memarea \<Rightarrow> btable \<Rightarrow> (nat \<Rightarrow> nat list) \<Rightarrow> bool" where
  "wfa ma B F \<longleftrightarrow> geom ma \<and> table ma B \<and> lists ma F"

definition at_unit :: "memarea \<Rightarrow> nat \<Rightarrow> bool" where
  "at_unit ma b \<longleftrightarrow> 2 ^ ma_lower ma dvd b \<and> b < 2 ^ ma_upper ma"

lemma at_unit_same [simp]: "same_area ma ma' \<Longrightarrow> at_unit ma' b = at_unit ma b"
  by (simp add: at_unit_def same_area_def)

lemma rep_iff_wfa:
  "rep ma B F l \<longleftrightarrow> wfa ma B F \<and> tiles (ma_lower ma) (ma_upper ma) B \<and>
     (\<forall>m. set (F m) = {b. B b = Some (m, False)} - l)"
  by (auto simp: rep_def wfa_def)

lemma rep_at_unit: "rep ma B F l \<Longrightarrow> B b = Some (m, u) \<Longrightarrow> at_unit ma b"
  using in_area_low [of "ma_lower ma" "ma_upper ma" b m] rep_lookup(4) [of ma B F l b m u]
  by (simp add: at_unit_def)

lemma wf_read:
  assumes "wfa ma B F" "at_unit ma b"
  shows "is_used ma b = Some (bi_used (entry_of (B b)))"
    "get_sizem ma b = Some (bi_sizem (entry_of (B b)))"
  using assms is_used_table by (auto simp: wfa_def at_unit_def)

lemma wf_set_sizem:
  assumes w: "wfa ma B F" and b: "at_unit ma b" and s: "s < 128"
    and e: "entry_of e = (entry_of (B b))\<lparr>bi_sizem := s\<rparr>"
  shows "\<exists>ma'. set_sizem ma b s = Some ma' \<and> wfa ma' (B(b := e)) F \<and> same_area ma ma'"
proof -
  from w b have "get_blk ma b = Some (entry_of (B b))" by (simp add: wfa_def at_unit_def get_blk_table)
  with s e have "set_sizem ma b s = Some (put_blk ma b (entry_of e))" by (simp add: set_sizem_def)
  moreover from w b have "wfa (put_blk ma b (entry_of e)) (B(b := e)) F"
    by (simp add: wfa_def at_unit_def table_put)
  ultimately show ?thesis by (auto simp: same_area_def)
qed

lemma wf_set_used:
  assumes w: "wfa ma B F" and b: "at_unit ma b" and e: "entry_of e = (entry_of (B b))\<lparr>bi_used := u\<rparr>"
  shows "\<exists>ma'. set_used ma b u = Some ma' \<and> wfa ma' (B(b := e)) F \<and> same_area ma ma'"
proof -
  from w b have "get_blk ma b = Some (entry_of (B b))" by (simp add: wfa_def at_unit_def get_blk_table)
  with e have "set_used ma b u = Some (put_blk ma b (entry_of e))" by (simp add: set_used_def)
  moreover from w b have "wfa (put_blk ma b (entry_of e)) (B(b := e)) F"
    by (simp add: wfa_def at_unit_def table_put)
  ultimately show ?thesis by (auto simp: same_area_def)
qed

lemma wf_remove:
  assumes w: "wfa ma B F" and m: "m < 32" and b: "b \<in> set (F m)"
  shows "\<exists>ma'. remove_from_freelist ma m b = Some ma' \<and> wfa ma' B (F(m := remove1 b (F m))) \<and>
    same_area ma ma'"
proof -
  from w have "lists ma F" by (simp add: wfa_def)
  from remove_from_freelist_lists [OF this m b] obtain fl lk where
    "remove_from_freelist ma m b = Some (ma\<lparr>ma_freelist := fl, ma_links := lk\<rparr>)"
    "lists (ma\<lparr>ma_freelist := fl, ma_links := lk\<rparr>) (F(m := remove1 b (F m)))" .
  with w show ?thesis by (auto simp: wfa_def same_area_def)
qed

lemma wf_add:
  assumes w: "wfa ma B F" and m: "m < 32" and b: "\<And>j. b \<notin> set (F j)" "b + 2 ^ m \<le> 2 ^ ma_upper ma"
  shows "\<exists>ma'. add_to_freelist ma m b = Some ma' \<and> wfa ma' B (F(m := b # F m)) \<and> same_area ma ma'"
proof -
  from w have l: "lists ma F" and g: "geom ma" by (auto simp: wfa_def)
  from g have "(2::nat) ^ ma_upper ma \<le> 2 ^ 31" by (intro pow2_le_mono) (simp add: geom_def)
  with b(2) zero_less_power [of "2::nat" m] have "b \<noteq> EMPTY" by (auto simp: EMPTY_def)
  from add_to_freelist_lists [OF l m b(1) this b(2)] w show ?thesis
    by (auto simp: wfa_def same_area_def)
qed

subsection \<open>Splitting\<close>

lemma split_owns:
  assumes own: "\<And>m. set (F m) = {b. B b = Some (m, False)}" and F: "F (Suc k) = b # bs"
    and d: "b \<notin> set bs" and h: "B (b + 2 ^ k) = None"
  shows "set ((F(Suc k := bs, k := b # (b + 2 ^ k) # F k)) j) =
    {x. (B(b \<mapsto> (k, False), b + 2 ^ k \<mapsto> (k, False))) x = Some (j, False)}"
proof -
  have "b \<in> set (F (Suc k))" using F by simp
  then have b: "B b = Some (Suc k, False)" using own by simp
  have bs: "set bs = {x. B x = Some (Suc k, False)} - {b}" using own [of "Suc k"] F d by auto
  show ?thesis using own [of j] own [of k] b h by (auto simp: bs split: if_splits)
qed

lemma split_block_rep:
  assumes r: "rep ma B F {}" and F: "F (Suc k) = b # bs" and lo: "ma_lower ma \<le> k"
  defines "B' \<equiv> B(b \<mapsto> (k, False), b + 2 ^ k \<mapsto> (k, False))"
    and "F' \<equiv> F(Suc k := bs, k := b # (b + 2 ^ k) # F k)"
  shows "\<exists>ma'. split_block ma (Suc k) = Some ma' \<and> same_area ma ma' \<and> rep ma' B' F' {}"
proof -
  let ?h = "b + 2 ^ k"
  note R = repD [OF r]
  have b: "B b = Some (Suc k, False)" using R(5) [of "Suc k"] F by auto
  note L = rep_lookup [OF r b]
  have k: "k < 32" "Suc k < 32" using L(5) by auto
  have top: "?h + 2 ^ k \<le> 2 ^ ma_upper ma" and kb: "2 ^ k dvd ?h"
    using L(4) by (auto simp: in_area_def dest: dvd_mult_right)
  have uh: "at_unit ma ?h"
    using add_pow2_less [OF top] dvd_trans [OF le_imp_power_dvd [OF lo] kb] by (simp add: at_unit_def)
  have ub: "at_unit ma b" by (rule rep_at_unit [OF r b])
  have Bh: "B ?h = None" by (rule inside_block_None [OF R(2) b]) auto
  have notin: "?h \<notin> set (F j)" "b \<in> set (F j) \<longleftrightarrow> j = Suc k" for j using R(5) [of j] Bh b by auto
  have dist: "b \<notin> set bs" using lists_distinct [OF R(4) k(2)] F by simp
  have head: "ma_freelist ma ! Suc k = b" by (rule lists_head [OF R(4) k(2) F])
  have new: "?h \<notin> set ((F(Suc k := bs)) j)" "b \<notin> set ((F(Suc k := bs, k := ?h # F k)) j)" for j
    using notin [of j] notin [of "Suc k"] notin [of k] F dist by auto
  have w: "wfa ma B F" using r by (simp add: rep_iff_wfa)
  obtain ma1 where 1: "remove_from_freelist ma (Suc k) b = Some ma1"
    "wfa ma1 B (F(Suc k := bs))" "same_area ma ma1"
    using wf_remove [OF w k(2), of b] F by auto
  obtain ma2 where 2: "set_sizem ma1 b k = Some ma2"
    "wfa ma2 (B(b \<mapsto> (k, False))) (F(Suc k := bs))" "same_area ma1 ma2"
    using wf_set_sizem [OF 1(2), of b k "Some (k, False)"] 1(3) ub b k by (auto simp: entry_of_def)
  obtain ma3 where 3: "set_sizem ma2 ?h k = Some ma3" "wfa ma3 B' (F(Suc k := bs))" "same_area ma2 ma3"
    using wf_set_sizem [OF 2(2), of ?h k "Some (k, False)"] 1(3) 2(3) uh Bh k
    by (auto simp: entry_of_def B'_def)
  have s3: "same_area ma ma3" using 1(3) 2(3) 3(3) by (blast intro: same_area_trans)
  have u: "is_used ma3 b = Some False" "is_used ma3 ?h = Some False"
    using wf_read(1) [OF 3(2)] s3 ub uh by (auto simp: B'_def)
  obtain ma4 where 4: "add_to_freelist ma3 k ?h = Some ma4"
    "wfa ma4 B' (F(Suc k := bs, k := ?h # F k))" "same_area ma3 ma4"
    using wf_add [where F = "F(Suc k := bs)", OF 3(2) k(1) new(1)] top s3
    by (auto simp: same_area_def)
  obtain ma5 where 5: "add_to_freelist ma4 k b = Some ma5" "wfa ma5 B' F'" "same_area ma4 ma5"
    using wf_add [where F = "F(Suc k := bs, k := ?h # F k)", OF 4(2) k(1) new(2)] top s3 4(3) by (auto simp: same_area_def F'_def)
  have "split_block ma (Suc k) = Some ma5"
    using L(2,3) 1(1) 2(1) 3(1) u 4(1) 5(1) by (simp add: split_block_def head)
  moreover have s5: "same_area ma ma5" using s3 4(3) 5(3) by (blast intro: same_area_trans)
  moreover have "rep ma5 B' F' {}"
    using 5(2) tiles_split [OF R(2) b lo] split_owns [of F B k b bs] R(5) F dist Bh s5
    by (simp add: rep_iff_wfa B'_def F'_def same_area_def)
  ultimately show ?thesis by blast
qed

subsection \<open>Taking a block\<close>

lemma take_block_rep:
  assumes r: "rep ma B F {}" and F: "F m = b # bs"
  shows "\<exists>ma'. take_block ma m = Some (of_nat b + ma_mem ma, ma') \<and> same_area ma ma' \<and>
    rep ma' (B(b \<mapsto> (m, True))) (F(m := bs)) {}"
proof -
  note R = repD [OF r]
  have b: "B b = Some (m, False)" using R(5) [of m] F by auto
  note L = rep_lookup [OF r b]
  have head: "ma_freelist ma ! m = b" by (rule lists_head [OF R(4) L(5) F])
  have dist: "b \<notin> set bs" using lists_distinct [OF R(4) L(5)] F by simp
  have w: "wfa ma B F" using r by (simp add: rep_iff_wfa)
  obtain ma1 where 1: "set_used ma b True = Some ma1" "wfa ma1 (B(b \<mapsto> (m, True))) F" "same_area ma ma1"
    using wf_set_used [OF w rep_at_unit [OF r b], of "Some (m, True)" True] b by (auto simp: entry_of_def)
  obtain ma2 where 2: "remove_from_freelist ma1 m b = Some ma2"
    "wfa ma2 (B(b \<mapsto> (m, True))) (F(m := bs))" "same_area ma1 ma2"
    using wf_remove [OF 1(2) L(5), of b] F by auto
  have s2: "same_area ma ma2" using 1(3) 2(3) by (rule same_area_trans)
  have "take_block ma m = Some (of_nat b + ma_mem ma, ma2)"
    using L(2,3,6) 1(1) 2(1) s2 by (simp add: take_block_def head same_area_def)
  moreover have "rep ma2 (B(b \<mapsto> (m, True))) (F(m := bs)) {}"
  proof -
    have "set ((F(m := bs)) j) = {x. (B(b \<mapsto> (m, True))) x = Some (j, False)}" for j
      using R(5) [of j] R(5) [of m] F dist b by (auto split: if_splits)
    with 2(2) tiles_mark [OF R(2) b] s2 show ?thesis by (simp add: rep_iff_wfa same_area_def)
  qed
  ultimately show ?thesis using s2 by blast
qed

subsection \<open>The size computation\<close>

lemma mforsize_loop_pow2:
  assumes "k \<le> 31" "unat nbytes < 2 ^ 31" "k = 0 \<or> 2 ^ (k - 1) \<le> unat nbytes"
  shows "\<exists>m. mforsize_loop nbytes (2 ^ k) k = Some m \<and> m \<le> 31 \<and> unat nbytes < 2 ^ m \<and>
    (m = 0 \<or> 2 ^ (m - 1) \<le> unat nbytes)"
  using assms
proof (induction "31 - k" arbitrary: k)
  case 0
  then have "k = 31" by simp
  with 0 show ?case by (simp add: mforsize_loop.simps word_le_nat_alt)
next
  case (Suc d)
  show ?case
  proof (cases "2 ^ k \<le> unat nbytes")
    case True
    from Suc.prems(1) have "unat (2 ^ k :: u32) = 2 ^ k" by (intro unat_pow2_u32) simp
    with True have "mforsize_loop nbytes (2 ^ k) k = mforsize_loop nbytes (2 ^ Suc k) (Suc k)"
      by (subst mforsize_loop.simps) (simp add: word_le_nat_alt mult.commute)
    with Suc.hyps(1) [of "Suc k"] Suc.hyps(2) Suc.prems True show ?thesis by simp
  next
    case False
    from Suc.prems(1) have "unat (2 ^ k :: u32) = 2 ^ k" by (intro unat_pow2_u32) simp
    with False Suc.prems show ?thesis
      by (intro exI [of _ k]) (auto simp: mforsize_loop.simps [of nbytes "2 ^ k"] word_le_nat_alt)
  qed
qed

lemma mforsize_spec:
  assumes "unat nbytes < 2 ^ 31"
  obtains m where "mforsize ma nbytes = Some m" "ma_lower ma \<le> m" "unat nbytes < 2 ^ m"
    "m \<le> max (ma_lower ma) 31" "m = ma_lower ma \<or> 2 ^ (m - 1) \<le> unat nbytes"
proof -
  from mforsize_loop_pow2 [of 0 nbytes] assms obtain k where k:
    "mforsize_loop nbytes 1 0 = Some k" "k \<le> 31" "unat nbytes < 2 ^ k"
    "k = 0 \<or> 2 ^ (k - 1) \<le> unat nbytes" by auto
  let ?m = "if ma_lower ma \<le> k then k else ma_lower ma"
  have "unat nbytes < 2 ^ ?m"
    using k(3) less_le_trans [OF k(3) pow2_le_mono [of k "ma_lower ma"]] by auto
  with k show thesis by (intro that [of ?m]) (auto simp: mforsize_def)
qed

text \<open>\<open>2 ^ 31\<close> bytes or more: the doubling wraps to 0 and the loop never ends.\<close>

lemma mforsize_loop_diverges:
  assumes big: "2 ^ 31 \<le> unat nbytes" and p: "pow2 = 0 \<or> (\<exists>k<32. pow2 = 2 ^ k)"
  shows "mforsize_loop nbytes pow2 m = None"
proof (rule ccontr)
  assume "mforsize_loop nbytes pow2 m \<noteq> None"
  then obtain r where ret: "mforsize_loop nbytes pow2 m = Some r" by auto
  have "\<not> (2 ^ 31 \<le> unat nbytes \<and> (pow2 = 0 \<or> (\<exists>k<32. pow2 = 2 ^ k)))"
  proof (rule mforsize_loop.raw_induct [OF _ ret])
    fix f and n q :: u32 and m r :: nat
    assume IH: "\<And>n q m r. f n q m = Some r \<Longrightarrow> \<not> (2 ^ 31 \<le> unat n \<and> (q = 0 \<or> (\<exists>k<32. q = 2 ^ k)))"
      and eq: "(if q \<le> n then f n (q * 2) (Suc m) else Some m) = Some r"
    show "\<not> (2 ^ 31 \<le> unat n \<and> (q = 0 \<or> (\<exists>k<32. q = (2 :: u32) ^ k)))"
    proof
      assume n: "2 ^ 31 \<le> unat n \<and> (q = 0 \<or> (\<exists>k<32. q = 2 ^ k))"
      have next_q: "q * 2 = 0 \<or> (\<exists>k<32. q * 2 = 2 ^ k)"
      proof (cases "q = 0")
        case False
        with n obtain k where k: "k < 32" "q = 2 ^ k" by blast
        show ?thesis
        proof (cases "k = 31")
          case True
          with k show ?thesis by simp
        next
          case False
          with k show ?thesis by (intro disjI2 exI [of _ "Suc k"]) simp
        qed
      qed simp
      have "q \<le> n"
      proof (cases "q = 0")
        case False
        with n obtain k where k: "k < 32" "q = 2 ^ k" by blast
        have "(2::nat) ^ k \<le> 2 ^ 31" using k(1) by (intro pow2_le_mono) simp
        with k n show ?thesis by (simp add: word_le_nat_alt unat_pow2_u32)
      qed simp
      with eq have "f n (q * 2) (Suc m) = Some r" by simp
      from IH [OF this] n next_q show False by blast
    qed
  qed
  with assms show False by blast
qed

lemma find_cm_spec:
  assumes "lists ma F" "ma_upper ma < 32"
  shows "cm \<le> find_cm ma cm \<and> (\<forall>j. cm \<le> j \<longrightarrow> j < find_cm ma cm \<longrightarrow> j \<le> ma_upper ma \<longrightarrow> F j = []) \<and>
    (find_cm ma cm \<le> ma_upper ma \<longrightarrow> F (find_cm ma cm) \<noteq> [])"
  using assms
proof (induction ma cm rule: find_cm.induct)
  case (1 ma cm)
  show ?case
  proof (cases "cm \<le> ma_upper ma \<and> ma_freelist ma ! cm = EMPTY")
    case True
    with 1 have IH: "Suc cm \<le> find_cm ma (Suc cm)"
      "\<forall>j. Suc cm \<le> j \<longrightarrow> j < find_cm ma (Suc cm) \<longrightarrow> j \<le> ma_upper ma \<longrightarrow> F j = []"
      "find_cm ma (Suc cm) \<le> ma_upper ma \<longrightarrow> F (find_cm ma (Suc cm)) \<noteq> []" by auto
    have "F cm = []" using lists_nil [OF 1(2), of cm] 1(3) True by simp
    then have "F j = []" if "cm \<le> j" "j < find_cm ma (Suc cm)" "j \<le> ma_upper ma" for j
      using IH(2) that by (cases "j = cm") auto
    moreover have "find_cm ma cm = find_cm ma (Suc cm)" using True by (subst find_cm.simps) simp
    ultimately show ?thesis using IH(1,3) by simp
  next
    case False
    with lists_nil [OF 1(2), of cm] 1(3) show ?thesis by (auto simp: find_cm.simps [of ma cm])
  qed
qed

subsection \<open>Allocation\<close>

definition used_of :: "btable \<Rightarrow> (nat \<times> nat) set" where
  "used_of B = {(b, m). B b = Some (m, True)}"

text \<open>Between two splits the free lists are coalesced but for the block at the head of one.\<close>

definition co_but_head :: "nat \<Rightarrow> (nat \<Rightarrow> nat list) \<Rightarrow> nat \<Rightarrow> bool" where
  "co_but_head up F m \<longleftrightarrow> coalesced up (\<lambda>j. set ((F(m := tl (F m))) j))"

lemma coalesced_mono: "coalesced up F \<Longrightarrow> (\<And>j. F' j \<subseteq> F j) \<Longrightarrow> coalesced up F'"
  unfolding coalesced_def by blast

lemma co_but_head_start: "coalesced up (\<lambda>j. set (F j)) \<Longrightarrow> co_but_head up F m"
  unfolding co_but_head_def by (erule coalesced_mono) (cases "F m"; auto)

lemma co_but_head_split:
  assumes r: "rep ma B F {}" and F: "F (Suc k) = b # bs"
    and co: "co_but_head (ma_upper ma) F (Suc k)"
  shows "co_but_head (ma_upper ma) (F(Suc k := bs, k := b # (b + 2 ^ k) # F k)) k"
proof -
  note R = repD [OF r]
  let ?h = "b + 2 ^ k"
  have b: "B b = Some (Suc k, False)" using R(5) [of "Suc k"] F by auto
  have db: "2 ^ Suc k dvd b" using rep_lookup(4) [OF r b] by (simp add: in_area_def)
  then have "2 ^ k dvd b" by (auto dest: dvd_mult_right)
  then have bh: "buddy_of k b = ?h" "buddy_of k ?h = b"
    using db buddy_of_involution [of k b] by (auto simp: buddy_of_arith)
  have bk: "b \<notin> set (F k)" using R(5) [of k] b by auto
  have old: "buddy_of j x \<notin> set ((F(Suc k := bs)) j)" if "j < ma_upper ma" "x \<in> set ((F(Suc k := bs)) j)" for j x
    using co that F by (simp add: co_but_head_def coalesced_def)
  have "buddy_of k x \<noteq> ?h" if "x \<in> set (F k)" for x
  proof
    assume x: "buddy_of k x = ?h"
    from that R(5) [of k] have bx: "B x = Some (k, False)" by auto
    have "2 ^ k dvd x" using rep_lookup(4) [OF r bx] by (simp add: in_area_def)
    then have "x = b" using buddy_of_involution [of k x] x bh(2) by simp
    with that bk show False by simp
  qed
  with old [of k] bh bk have level: "buddy_of k x \<notin> insert ?h (set (F k))"
    if "k < ma_upper ma" "x \<in> insert ?h (set (F k))" for x using that by auto
  show ?thesis unfolding co_but_head_def coalesced_def
  proof (intro allI impI)
    fix j x
    assume j: "j < ma_upper ma"
    let ?G = "F(Suc k := bs, k := b # ?h # F k)"
    have G: "(?G(k := tl (?G k))) j = (if j = k then ?h # F k else (F(Suc k := bs)) j)" by simp
    assume "x \<in> set ((?G(k := tl (?G k))) j)"
    with old [OF j, of x] level [of x] j show "buddy_of j x \<notin> set ((?G(k := tl (?G k))) j)"
      unfolding G by (cases "j = k") (simp_all only: if_True if_False list.set simp_thms)
  qed
qed

lemma split_down_rep:
  assumes "rep ma B F {}" "m \<le> cm" "ma_lower ma \<le> m" "F cm \<noteq> []" "co_but_head (ma_upper ma) F cm"
  shows "\<exists>ma' B' F'. split_down ma cm m = Some ma' \<and> same_area ma ma' \<and> rep ma' B' F' {} \<and>
    F' m \<noteq> [] \<and> used_of B' = used_of B \<and> co_but_head (ma_upper ma) F' m"
  using assms
proof (induction "cm - m" arbitrary: ma cm B F)
  case 0
  then have "cm = m" by simp
  with 0 show ?case by (auto simp: split_down.simps)
next
  case (Suc d)
  then obtain k where cm: "cm = Suc k" "m \<le> k" by (cases cm) auto
  from Suc.prems(4) cm obtain b bs where F: "F (Suc k) = b # bs" by (cases "F (Suc k)") auto
  let ?B = "B(b \<mapsto> (k, False), b + 2 ^ k \<mapsto> (k, False))"
  let ?F = "F(Suc k := bs, k := b # (b + 2 ^ k) # F k)"
  from split_block_rep [OF Suc.prems(1) F] Suc.prems(3) cm obtain ma1 where 1:
    "split_block ma (Suc k) = Some ma1" "same_area ma ma1" "rep ma1 ?B ?F {}" by auto
  have bb: "B b = Some (Suc k, False)" using repD(5) [OF Suc.prems(1), of "Suc k"] F by auto
  have "B (b + 2 ^ k) = None"
    by (rule inside_block_None [OF repD(2) [OF Suc.prems(1)] bb]) auto
  with bb have used: "used_of ?B = used_of B" by (auto simp: used_of_def split: if_splits)
  have co: "co_but_head (ma_upper ma1) ?F k"
    using co_but_head_split [OF Suc.prems(1) F] Suc.prems(5) cm(1) 1(2) by (simp add: same_area_def)
  have "\<exists>ma' B' F'. split_down ma1 k m = Some ma' \<and> same_area ma1 ma' \<and> rep ma' B' F' {} \<and>
    F' m \<noteq> [] \<and> used_of B' = used_of ?B \<and> co_but_head (ma_upper ma1) F' m"
    by (rule Suc.hyps(1) [OF _ 1(3) _ _ _ co]) (use Suc cm 1(2) in \<open>auto simp: same_area_def\<close>)
  moreover have "split_down ma cm m = split_down ma1 k m"
    using cm 1(1) by (subst split_down.simps) simp
  ultimately show ?case using used 1(2) by (auto simp: same_area_def)
qed

text \<open>
  What \<open>buddy_alloc\<close> does to the abstract table: it marks one block of the computed size,
  obtained from a free one by splitting, and touches no block in use.
\<close>

lemma alloc_from_list:
  assumes r: "rep ma B F {}" and F: "F m \<noteq> []" and co: "co_but_head (ma_upper ma) F m"
  shows "\<exists>b ma' B' F'. take_block ma m = Some (of_nat b + ma_mem ma, ma') \<and> same_area ma ma' \<and>
    rep ma' B' F' {} \<and> B' b = Some (m, True) \<and> used_of B' = insert (b, m) (used_of B) \<and>
    b \<notin> fst ` used_of B \<and> coalesced (ma_upper ma) (\<lambda>j. set (F' j))"
proof -
  from F obtain b bs where bs: "F m = b # bs" by (cases "F m") auto
  have b: "B b = Some (m, False)" using repD(5) [OF r, of m] bs by auto
  from take_block_rep [OF r bs] obtain ma' where
    "take_block ma m = Some (of_nat b + ma_mem ma, ma')" "same_area ma ma'"
    "rep ma' (B(b \<mapsto> (m, True))) (F(m := bs)) {}" by blast
  moreover have "used_of (B(b \<mapsto> (m, True))) = insert (b, m) (used_of B)" "b \<notin> fst ` used_of B"
    using b by (auto simp: used_of_def split: if_splits)
  moreover have "coalesced (ma_upper ma) (\<lambda>j. set ((F(m := bs)) j))"
    using co bs by (simp add: co_but_head_def)
  ultimately show ?thesis
    by (intro exI [of _ b] exI [of _ ma'] exI [of _ "B(b \<mapsto> (m, True))"] exI [of _ "F(m := bs)"]) simp
qed

lemma mforsize_range:
  assumes "mforsize ma nbytes = Some m" "geom ma"
  shows "ma_lower ma \<le> m" "m < 32" "unat nbytes < 2 ^ m"
proof -
  have "unat nbytes < 2 ^ 31"
  proof (rule ccontr)
    assume "\<not> unat nbytes < 2 ^ 31"
    then have big: "2 ^ 31 \<le> unat nbytes" by (simp only: not_less)
    have "\<exists>k<32. (1::u32) = 2 ^ k" by (rule exI [of _ 0]) simp
    then have "mforsize_loop nbytes 1 0 = None" using mforsize_loop_diverges [OF big] by blast
    with assms(1) show False by (simp add: mforsize_def)
  qed
  then obtain m' where "mforsize ma nbytes = Some m'" "ma_lower ma \<le> m'" "unat nbytes < 2 ^ m'"
    "m' \<le> max (ma_lower ma) 31" by (rule mforsize_spec [where ma = ma])
  with assms show "ma_lower ma \<le> m" "m < 32" "unat nbytes < 2 ^ m" by (auto simp: geom_def)
qed

lemma buddy_alloc_rep:
  assumes r: "rep ma B F {}" and co: "coalesced (ma_upper ma) (\<lambda>j. set (F j))"
    and m: "mforsize ma nbytes = Some m"
  shows "if \<exists>k b. m \<le> k \<and> B b = Some (k, False)
     then \<exists>b ma' B' F'. buddy_alloc ul ma nbytes = Some (of_nat b + ma_mem ma, ma') \<and> same_area ma ma' \<and>
       rep ma' B' F' {} \<and> B' b = Some (m, True) \<and> used_of B' = insert (b, m) (used_of B) \<and>
       b \<notin> fst ` used_of B \<and> coalesced (ma_upper ma) (\<lambda>j. set (F' j))
     else buddy_alloc ul ma nbytes = (if ul then Some (0, ma) else None)"
proof -
  note R = repD [OF r]
  note M = mforsize_range [OF m R(1)]
  have free: "B b = Some (k, False) \<longleftrightarrow> b \<in> set (F k)" for b k using R(5) [of k] by simp
  have up: "ma_upper ma < 32" using R(1) by (simp add: geom_def)
  have le_up: "k \<le> ma_upper ma" if "F k \<noteq> []" for k
  proof -
    from that obtain b where "B b = Some (k, False)" using free [of _ k] by (cases "F k") auto
    from rep_lookup(4) [OF r this] show ?thesis by (simp add: in_area_def)
  qed
  have empty: "EMPTY = ma_freelist ma ! m \<longleftrightarrow> F m = []" using lists_nil [OF R(4) M(2)] by auto
  note cm = find_cm_spec [OF R(4) up, of "Suc m"]
  consider (direct) "F m \<noteq> []" | (split) "F m = []" "find_cm ma (Suc m) \<le> ma_upper ma"
    | (none) "F m = []" "ma_upper ma < find_cm ma (Suc m)" by linarith
  then show ?thesis
  proof cases
    case direct
    then obtain b where "B b = Some (m, False)" using free [of _ m] by (cases "F m") auto
    then have ex: "\<exists>k b. m \<le> k \<and> B b = Some (k, False)" by blast
    have "buddy_alloc ul ma nbytes = take_block ma m" using m empty direct by (simp add: buddy_alloc_def)
    with alloc_from_list [OF r direct co_but_head_start [OF co]] ex show ?thesis by auto
  next
    case split
    let ?c = "find_cm ma (Suc m)"
    have ne: "F ?c \<noteq> []" "m \<le> ?c" using cm split by auto
    then obtain b where "B b = Some (?c, False)" using free [of _ ?c] by (cases "F ?c") auto
    with ne have ex: "\<exists>k b. m \<le> k \<and> B b = Some (k, False)" by blast
    from split_down_rep [OF r ne(2) M(1) ne(1) co_but_head_start [OF co]] obtain ma1 B1 F1 where 1:
      "split_down ma ?c m = Some ma1" "same_area ma ma1" "rep ma1 B1 F1 {}" "F1 m \<noteq> []"
      "used_of B1 = used_of B" "co_but_head (ma_upper ma) F1 m" by blast
    have "buddy_alloc ul ma nbytes = take_block ma1 m"
      using m empty split 1(1) by (simp add: buddy_alloc_def Let_def)
    with alloc_from_list [OF 1(3,4)] 1 ex show ?thesis by (auto simp: same_area_def)
  next
    case none
    have "F k = []" if "m \<le> k" for k
      using le_up [of k] that none cm by (cases "k = m") (auto simp: Suc_le_eq, force)
    then have "\<not> (\<exists>k b. m \<le> k \<and> B b = Some (k, False))" using free by auto
    moreover have "buddy_alloc ul ma nbytes = (if ul then Some (0, ma) else None)"
      using m empty none by (simp add: buddy_alloc_def Let_def)
    ultimately show ?thesis by (simp only: if_False simp_thms)
  qed
qed

subsection \<open>Merging and release\<close>

lemma merge_owns:
  assumes own: "\<And>m. set (F m) = {x. B x = Some (m, False)} - {b}"
    and d: "distinct (F k)" and b: "B b = Some (k, False)" and c: "B c = Some (k, False)" and ne: "b \<noteq> c"
    and lh: "{lo, hi} = {b, c}"
  shows "set ((F(k := remove1 c (F k))) j) =
    {x. (B(lo \<mapsto> (Suc k, False), hi := None)) x = Some (j, False)} - {lo}"
proof -
  from lh ne consider "lo = b" "hi = c" | "lo = c" "hi = b" by (auto simp: doubleton_eq_iff)
  moreover have "set (remove1 c (F k)) = {x. B x = Some (k, False)} - {b, c}"
    using own [of k] d by auto
  ultimately have "x \<in> set ((F(k := remove1 c (F k))) j) \<longleftrightarrow>
      (B(lo \<mapsto> (Suc k, False), hi := None)) x = Some (j, False) \<and> x \<noteq> lo" for x
    using own [of j] b c ne by cases auto
  then show ?thesis by blast
qed

lemma merge_block_rep:
  assumes r: "rep ma B F {b}" and b: "B b = Some (k, False)" and up: "k < ma_upper ma"
    and c: "c = buddy_of k b" "B c = Some (k, False)"
  shows "\<exists>ma' lo B' F'. merge_block ma b k c = Some (ma', lo) \<and> same_area ma ma' \<and> rep ma' B' F' {lo} \<and>
    B' lo = Some (Suc k, False) \<and> used_of B' = used_of B \<and> (\<forall>j. set (F' j) \<subseteq> set (F j))"
proof -
  note R = repD [OF r] and L = rep_lookup [OF r b]
  have db: "2 ^ k dvd b" using L(4) by (simp add: in_area_def)
  have ne: "c \<noteq> b" using buddy_of_neq [OF db] c(1) by simp
  define lo where "lo = (if c < b then c else b)"
  define hi where "hi = (if c < b then b else c)"
  have lh: "{lo, hi} = {b, c} \<and> hi = lo + 2 ^ k \<and> 2 ^ Suc k dvd lo"
  proof (rule buddy_of_halves [OF db])
    assume h: "2 ^ Suc k dvd b" "buddy_of k b = b + 2 ^ k"
    then have "lo = b" "hi = c" using c(1) by (auto simp: lo_def hi_def)
    with h c(1) show ?thesis by simp
  next
    assume h: "2 ^ Suc k dvd buddy_of k b" "b = buddy_of k b + 2 ^ k"
    then have "c < b" using c(1) zero_less_power [of "2::nat" k] by linarith
    then have "lo = c" "hi = b" by (auto simp: lo_def hi_def)
    with h c(1) show ?thesis by (simp add: insert_commute)
  qed
  then have lh: "{lo, hi} = {b, c}" "hi = lo + 2 ^ k" "2 ^ Suc k dvd lo" by auto
  have Blo: "B lo = Some (k, False)" "B hi = Some (k, False)" using b c(2) by (auto simp: lo_def hi_def)
  let ?F = "F(k := remove1 c (F k))"
  let ?B = "B(lo \<mapsto> (Suc k, False), hi := None)"
  have "c \<in> set (F k)" using R(5) [of k] c(2) ne by simp
  moreover have w: "wfa ma B F" using r by (simp add: rep_iff_wfa)
  ultimately obtain ma1 where 1: "remove_from_freelist ma k c = Some ma1" "wfa ma1 B ?F" "same_area ma ma1"
    using wf_remove [OF w L(5), of c] by blast
  have un: "at_unit ma lo" "at_unit ma hi" using rep_at_unit [OF r] Blo by auto
  obtain ma2 where 2: "set_sizem ma1 lo (Suc k) = Some ma2" "wfa ma2 (B(lo \<mapsto> (Suc k, False))) ?F"
    "same_area ma1 ma2"
    using wf_set_sizem [OF 1(2), of lo "Suc k" "Some (Suc k, False)"] un 1(3) Blo L(5)
    by (auto simp: entry_of_def)
  obtain ma3 where 3: "set_sizem ma2 hi 0 = Some ma3" "wfa ma3 ?B ?F" "same_area ma2 ma3"
    using wf_set_sizem [OF 2(2), of hi 0 None] un 1(3) 2(3) Blo lh(2)
    by (auto simp: entry_of_def)
  have s: "same_area ma ma3" using 1(3) 2(3) 3(3) by (blast intro: same_area_trans)
  have "merge_block ma b k c = Some (ma3, lo)"
    using 1(1) 2(1) 3(1) by (simp add: merge_block_def Let_def flip: lo_def hi_def)
  moreover have "rep ma3 ?B ?F {lo}"
  proof -
    have "tiles (ma_lower ma) (ma_upper ma) ?B"
      using tiles_merge [OF R(2) Blo(1), of False False] Blo(2) lh up by simp
    moreover have "set (?F j) = {x. ?B x = Some (j, False)} - {lo}" for j
      by (rule merge_owns [OF R(5) lists_distinct [OF R(4) L(5)] b c(2) ne [symmetric] lh(1)])
    ultimately show ?thesis using 3(2) s by (simp only: rep_iff_wfa same_area_def) simp
  qed
  moreover have "used_of ?B = used_of B" using Blo by (auto simp: used_of_def split: if_splits)
  moreover have "\<forall>j. set (?F j) \<subseteq> set (F j)" by (auto dest: in_set_remove1 [THEN iffD1, rotated] notin_set_remove1)
  moreover have "?B lo = Some (Suc k, False)" using lh(2) by simp
  ultimately show ?thesis using s by blast
qed

text \<open>The guard of the merging loop, on the abstract table.\<close>

lemma merge_guard:
  assumes r: "rep ma B F l" and a: "in_area (ma_lower ma) (ma_upper ma) c k"
  shows "\<exists>u s. is_used ma c = Some u \<and> get_sizem ma c = Some s \<and>
    (\<not> u \<and> s = k \<longleftrightarrow> B c = Some (k, False))"
proof -
  from a have "at_unit ma c" using in_area_low(1,2) [OF a] by (simp add: at_unit_def)
  moreover have "wfa ma B F" using r by (simp add: rep_iff_wfa)
  ultimately have "is_used ma c = Some (bi_used (entry_of (B c)))"
    "get_sizem ma c = Some (bi_sizem (entry_of (B c)))" by (simp_all add: wf_read)
  moreover have "0 < k" using a repD(1) [OF r] by (auto simp: in_area_def geom_def)
  then have "\<not> bi_used (entry_of (B c)) \<and> bi_sizem (entry_of (B c)) = k \<longleftrightarrow> B c = Some (k, False)"
    by (cases "B c") auto
  ultimately show ?thesis by blast
qed

lemma get_buddy_rep:
  "rep ma B F l \<Longrightarrow> B b = Some (m, u) \<Longrightarrow> get_buddy ma b = Some (buddy_of m b)"
  using rep_lookup(2,4) [of ma B F l b m u] by (auto simp: get_buddy_def in_area_def)

lemma merge_loop_rep:
  assumes "rep ma B F {b}" "B b = Some (k, False)" "coalesced (ma_upper ma) (\<lambda>j. set (F j))"
  shows "\<exists>ma' b' k' B' F'. merge_loop ma b k (buddy_of k b) = Some (ma', b', k') \<and> same_area ma ma' \<and>
    rep ma' B' F' {b'} \<and> B' b' = Some (k', False) \<and> used_of B' = used_of B \<and>
    coalesced (ma_upper ma) (\<lambda>j. set (F' j)) \<and>
    (k' < ma_upper ma \<longrightarrow> B' (buddy_of k' b') \<noteq> Some (k', False))"
  using assms
proof (induction "ma_upper ma - k" arbitrary: ma b k B F)
  case 0
  then have "\<not> k < ma_upper ma" by simp
  moreover from this have "merge_loop ma b k (buddy_of k b) = Some (ma, b, k)"
    by (subst merge_loop.simps) simp
  ultimately show ?case using "0.prems" by fastforce
next
  case (Suc d)
  then have k: "k < ma_upper ma" by simp
  let ?c = "buddy_of k b"
  note r = Suc.prems(1)
  have "in_area (ma_lower ma) (ma_upper ma) ?c k"
    by (rule buddy_of_in_area [OF rep_lookup(4) [OF r Suc.prems(2)] k])
  from merge_guard [OF r this] obtain u s where g: "is_used ma ?c = Some u" "get_sizem ma ?c = Some s"
    "\<not> u \<and> s = k \<longleftrightarrow> B ?c = Some (k, False)" by blast
  show ?case
  proof (cases "B ?c = Some (k, False)")
    case False
    with g k have "merge_loop ma b k ?c = Some (ma, b, k)" by (subst merge_loop.simps) auto
    with Suc.prems False show ?thesis by fastforce
  next
    case True
    from merge_block_rep [OF r Suc.prems(2) k refl True] obtain ma1 lo B1 F1 where 1:
      "merge_block ma b k ?c = Some (ma1, lo)" "same_area ma ma1" "rep ma1 B1 F1 {lo}"
      "B1 lo = Some (Suc k, False)" "used_of B1 = used_of B" "\<forall>j. set (F1 j) \<subseteq> set (F j)" by blast
    have eq: "merge_loop ma b k ?c = merge_loop ma1 lo (Suc k) (buddy_of (Suc k) lo)"
      using g k True 1(1) get_buddy_rep [OF 1(3,4)] by (subst merge_loop.simps) simp
    have up: "ma_upper ma1 = ma_upper ma" using 1(2) by (simp add: same_area_def)
    have "d = ma_upper ma1 - Suc k" using Suc.hyps(2) up by simp
    moreover have "coalesced (ma_upper ma1) (\<lambda>j. set (F1 j))"
      unfolding up by (rule coalesced_mono [OF Suc.prems(3)]) (use 1(6) in blast)
    ultimately obtain ma2 b2 k2 B2 F2 where 2:
      "merge_loop ma1 lo (Suc k) (buddy_of (Suc k) lo) = Some (ma2, b2, k2)" "same_area ma1 ma2"
      "rep ma2 B2 F2 {b2}" "B2 b2 = Some (k2, False)" "used_of B2 = used_of B1"
      "coalesced (ma_upper ma) (\<lambda>j. set (F2 j))"
      "k2 < ma_upper ma \<longrightarrow> B2 (buddy_of k2 b2) \<noteq> Some (k2, False)"
      using Suc.hyps(1) [OF _ 1(3,4)] unfolding up by blast
    with same_area_trans [OF 1(2) 2(2)] 1(5) show ?thesis
      by (intro exI [of _ ma2] exI [of _ b2] exI [of _ k2] exI [of _ B2] exI [of _ F2]) (simp add: eq)
  qed
qed

lemma block_pointer:
  fixes base :: u32
  assumes area: "unat base + 2 ^ up < 2 ^ 32" and b: "b < 2 ^ up" and nz: "base \<noteq> 0"
  shows "of_nat b + base \<noteq> 0" "base \<le> of_nat b + base"
    "of_nat b + base < base + of_nat (2 ^ up)" "unat (of_nat b + base - base) = b"
    "unat (of_nat b + base) = unat base + b"
proof -
  have "unat base + b < 4294967296" using area b by simp
  from unat_add_of_nat_u32 [OF this] show p: "unat (of_nat b + base) = unat base + b"
    by (simp only: add.commute)
  have "unat base + 2 ^ up < 4294967296" using area by simp
  from unat_add_of_nat_u32 [OF this] have t: "unat (base + of_nat (2 ^ up)) = unat base + 2 ^ up" .
  have "0 < unat base" using nz by (simp add: unat_gt_0)
  with p show "of_nat b + base \<noteq> 0" by (auto simp only: unsigned_0)
  show "base \<le> of_nat b + base" by (simp only: word_le_nat_alt p)
  show "of_nat b + base < base + of_nat (2 ^ up)" using b by (simp only: word_less_nat_alt p t)
  have "b < 4294967296" using area b by simp
  then show "unat (of_nat b + base - base) = b" by (simp add: unat_of_nat_u32)
qed

lemma coalesced_add:
  assumes r: "rep ma B F {b}" and b: "B b = Some (k, False)"
    and co: "coalesced (ma_upper ma) (\<lambda>j. set (F j))"
    and nb: "k < ma_upper ma \<longrightarrow> B (buddy_of k b) \<noteq> Some (k, False)"
  shows "coalesced (ma_upper ma) (\<lambda>j. set ((F(k := b # F k)) j))"
  unfolding coalesced_def
proof (intro allI impI)
  fix j x
  assume j: "j < ma_upper ma" and x: "x \<in> set ((F(k := b # F k)) j)"
  have old: "x \<in> set (F j) \<Longrightarrow> buddy_of j x \<notin> set (F j)" using co j by (simp add: coalesced_def)
  have db: "2 ^ k dvd b" using rep_lookup(4) [OF r b] by (simp add: in_area_def)
  note own = repD(5) [OF r]
  show "buddy_of j x \<notin> set ((F(k := b # F k)) j)"
  proof (cases "j = k")
    case False
    with x old show ?thesis by simp
  next
    case True
    have "buddy_of k b \<notin> set (F k)" using own [of k] nb j True by auto
    moreover have "buddy_of k y \<noteq> b" if y: "y \<in> set (F k)" for y
    proof
      assume e: "buddy_of k y = b"
      from y own [of k] have yB: "B y = Some (k, False)" by auto
      then have "2 ^ k dvd y" using rep_lookup(4) [OF r yB] by (simp add: in_area_def)
      from buddy_of_involution [OF this] e have "y = buddy_of k b" by simp
      with nb j True yB show False by simp
    qed
    ultimately show ?thesis using x old True buddy_of_neq [OF db] by auto
  qed
qed

lemma unmark_rep:
  assumes r: "rep ma B F {}" and b: "B b = Some (m, True)"
  shows "\<exists>ma'. set_used ma b False = Some ma' \<and> same_area ma ma' \<and> rep ma' (B(b \<mapsto> (m, False))) F {b}"
proof -
  note R = repD [OF r]
  have w: "wfa ma B F" using r by (simp add: rep_iff_wfa)
  obtain ma1 where 1: "set_used ma b False = Some ma1" "wfa ma1 (B(b \<mapsto> (m, False))) F" "same_area ma ma1"
    using wf_set_used [OF w rep_at_unit [OF r b], of "Some (m, False)" False] b by (auto simp: entry_of_def)
  have "set (F j) = {x. (B(b \<mapsto> (m, False))) x = Some (j, False)} - {b}" for j using R(5) [of j] b by auto
  with 1(2,3) tiles_mark [OF R(2) b] have "rep ma1 (B(b \<mapsto> (m, False))) F {b}"
    by (simp add: rep_iff_wfa same_area_def)
  with 1 show ?thesis by blast
qed

text \<open>What \<open>buddy_free\<close> does to the abstract table: the block is no longer in use.\<close>

lemma buddy_free_rep:
  assumes r: "rep ma B F {}" and co: "coalesced (ma_upper ma) (\<lambda>j. set (F j))"
    and b: "B b = Some (m, True)" and p: "ma_mem ma \<noteq> 0" "unat (ma_mem ma) + 2 ^ ma_upper ma < 2 ^ 32"
  shows "\<exists>ma' B' F'. buddy_free ma (of_nat b + ma_mem ma) = Some ma' \<and> same_area ma ma' \<and>
    rep ma' B' F' {} \<and> used_of B' = used_of B - {(b, m)} \<and> coalesced (ma_upper ma) (\<lambda>j. set (F' j))"
proof -
  note R = repD [OF r] and L = rep_lookup [OF r b]
  have lt: "b < 2 ^ ma_upper ma" by (rule in_area_low(2) [OF L(4)])
  let ?ptr = "of_nat b + ma_mem ma"
  note ptr = block_pointer [OF p(2) lt p(1)]
  let ?B = "B(b \<mapsto> (m, False))"
  obtain ma1 where 1: "set_used ma b False = Some ma1" "same_area ma ma1" and r1: "rep ma1 ?B F {b}"
    using unmark_rep [OF r b] by blast
  have u1: "ma_upper ma1 = ma_upper ma" using 1(2) by (simp add: same_area_def)
  have b1: "?B b = Some (m, False)" by simp
  from merge_loop_rep [where B = ?B, OF r1 b1] co u1 obtain ma2 b2 k2 B2 F2 where 2:
    "merge_loop ma1 b m (buddy_of m b) = Some (ma2, b2, k2)" "same_area ma1 ma2" "rep ma2 B2 F2 {b2}"
    "B2 b2 = Some (k2, False)" "used_of B2 = used_of ?B" "coalesced (ma_upper ma2) (\<lambda>j. set (F2 j))"
    "k2 < ma_upper ma2 \<longrightarrow> B2 (buddy_of k2 b2) \<noteq> Some (k2, False)"
    by (auto simp: same_area_def)
  note L2 = rep_lookup [OF 2(3,4)]
  have nin: "\<And>j. b2 \<notin> set (F2 j)" using repD(5) [OF 2(3)] by simp
  have top2: "b2 + 2 ^ k2 \<le> 2 ^ ma_upper ma2" using L2(4) by (simp add: in_area_def)
  have w2: "wfa ma2 B2 F2" using 2(3) by (simp add: rep_iff_wfa)
  from wf_add [OF w2 L2(5) nin top2] obtain ma3 where 3: "add_to_freelist ma2 k2 b2 = Some ma3"
    "wfa ma3 B2 (F2(k2 := b2 # F2 k2))" "same_area ma2 ma3" by blast
  have s: "same_area ma ma3" using 1(2) 2(2) 3(3) by (blast intro: same_area_trans)
  have "buddy_free ma ?ptr = Some ma3"
    using ptr L(2,3,4) 1(1) 2(1) 3(1) get_buddy_rep [OF r1 b1]
    by (simp add: buddy_free_def Let_def in_area_def)
  moreover have "rep ma3 B2 (F2(k2 := b2 # F2 k2)) {}"
  proof -
    have "set ((F2(k2 := b2 # F2 k2)) j) = {x. B2 x = Some (j, False)}" for j
      using repD(5) [OF 2(3), of j] 2(4) by auto
    with 3(2,3) repD(2) [OF 2(3)] show ?thesis by (simp add: rep_iff_wfa same_area_def)
  qed
  moreover have "used_of B2 = used_of B - {(b, m)}" using 2(5) b by (auto simp: used_of_def split: if_splits)
  moreover have "coalesced (ma_upper ma) (\<lambda>j. set ((F2(k2 := b2 # F2 k2)) j))"
    using coalesced_add [OF 2(3,4,6,7)] u1 2(2) by (simp add: same_area_def)
  ultimately show ?thesis using s by blast
qed

end
