(* ===== verification/Buddy_Props.thy ===== *)
theory Buddy_Props
  imports Buddy_Correct
begin

text \<open>
  The properties of the buddy allocator over the memory area itself: the block table is read
  off the array \<open>blocks\<close>, the invariant \<open>buddy_inv\<close> is established by \<open>buddy_init\<close> and kept by
  allocation and release, and the kernel heap is an instance of the allocator contract.
\<close>

definition block_table :: "memarea \<Rightarrow> btable" where
  "block_table ma b =
     (if b < 2 ^ ma_upper ma \<and> b mod 2 ^ ma_lower ma = 0
      then (let e = ma_blocks ma ! (b div 2 ^ ma_lower ma)
            in if bi_sizem e = 0 then None else Some (bi_sizem e, bi_used e))
      else None)"

definition used_blocks :: "memarea \<Rightarrow> (nat \<times> nat) set" where
  "used_blocks ma = used_of (block_table ma)"

definition buddy_inv :: "memarea \<Rightarrow> bool" where
  "buddy_inv ma \<longleftrightarrow>
     (\<exists>F. rep ma (block_table ma) F {} \<and> coalesced (ma_upper ma) (\<lambda>m. set (F m))) \<and>
     ma_mem ma \<noteq> 0 \<and> unat (ma_mem ma) + 2 ^ ma_upper ma < 2 ^ 32"

lemma rep_block_table:
  assumes r: "rep ma B F l"
  shows "block_table ma = B"
proof
  fix b
  note R = repD [OF r]
  show "block_table ma b = B b"
  proof (cases "at_unit ma b")
    case True
    then have "get_blk ma b = Some (entry_of (B b))"
      using R by (simp add: at_unit_def get_blk_table)
    then have "ma_blocks ma ! (b div 2 ^ ma_lower ma) = entry_of (B b)"
      by (simp add: get_blk_def bix_def split: if_splits)
    moreover have "0 < m" if "B b = Some (m, u)" for m u
      using rep_lookup(4) [OF r that] R(1) by (auto simp: in_area_def geom_def)
    ultimately show ?thesis using True
      by (cases "B b") (auto simp: block_table_def at_unit_def mod_eq_0_iff_dvd)
  next
    case False
    then have "B b = None" using rep_at_unit [OF r, of b] by (cases "B b") auto
    with False show ?thesis by (auto simp: block_table_def at_unit_def mod_eq_0_iff_dvd)
  qed
qed

lemma buddy_invE:
  assumes "buddy_inv ma"
  obtains F where "rep ma (block_table ma) F {}" "coalesced (ma_upper ma) (\<lambda>m. set (F m))"
    "ma_mem ma \<noteq> 0" "unat (ma_mem ma) + 2 ^ ma_upper ma < 2 ^ 32"
  using assms by (auto simp: buddy_inv_def)

lemma buddy_invI:
  assumes "rep ma' B F {}" "coalesced (ma_upper ma) (\<lambda>m. set (F m))" "same_area ma ma'" "buddy_inv ma"
  shows "buddy_inv ma'" "block_table ma' = B"
proof -
  from rep_block_table [OF assms(1)] show "block_table ma' = B" .
  with assms show "buddy_inv ma'" by (auto simp: buddy_inv_def same_area_def)
qed

subsection \<open>Initialisation\<close>

lemma buddy_init_rep:
  assumes p: "8 \<le> p" "p \<le> 31" and bs: "length bs = 2 ^ (p - 8)"
  shows "rep (buddy_init p base lk bs) [0 \<mapsto> (p, False)] (\<lambda>m. if m = p then [0] else []) {}"
proof -
  let ?ma = "buddy_init p base lk bs"
  have len: "length (ma_blocks ?ma) = 2 ^ (p - 8)" using bs by (simp add: buddy_init_def Let_def)
  have "tiles 8 p [0 \<mapsto> (p, False)]" using p by (auto simp: tiles_def in_area_def split: if_splits)
  moreover have "table ?ma [0 \<mapsto> (p, False)]"
    unfolding table_def using p bs
    by (auto simp: buddy_init_def Let_def entry_of_def nth_list_update nth_append)
  moreover have "lists ?ma (\<lambda>m. if m = p then [0] else [])"
    using p by (auto simp: lists_def buddy_init_def Let_def EMPTY_def nth_list_update)
  moreover have "geom ?ma" using p len by (simp add: geom_def buddy_init_def Let_def)
  moreover have "ma_lower ?ma = 8" "ma_upper ?ma = p" by (simp_all add: buddy_init_def Let_def)
  ultimately show ?thesis by (auto simp: rep_def)
qed

lemma buddy_init_inv:
  assumes "8 \<le> p" and "p \<le> 31" and "length bs = 2 ^ (p - 8)"
    and "base \<noteq> 0" and "unat base + 2 ^ p < 2 ^ 32"
  shows "buddy_inv (buddy_init p base lk bs)" "block_table (buddy_init p base lk bs) = [0 \<mapsto> (p, False)]"
    "used_blocks (buddy_init p base lk bs) = {}"
proof -
  let ?ma = "buddy_init p base lk bs"
  note r = buddy_init_rep [OF assms(1,2,3), of base lk]
  have "coalesced (ma_upper ?ma) (\<lambda>m. set (if m = p then [0] else []))"
    by (auto simp: coalesced_def buddy_init_def Let_def)
  with r rep_block_table [OF r] assms(4,5) show "buddy_inv ?ma" "block_table ?ma = [0 \<mapsto> (p, False)]"
    "used_blocks ?ma = {}"
    by (auto simp: buddy_inv_def used_blocks_def used_of_def buddy_init_def Let_def split: if_splits)
qed

text \<open>A small area for the witnesses: 1 KB at address 4096.\<close>

definition small_area :: memarea where
  "small_area = buddy_init 10 4096 (\<lambda>_. 0) (replicate 4 \<lparr>bi_sizem = 0, bi_used = False\<rparr>)"

lemma small_area_inv:
  "buddy_inv small_area" "block_table small_area = [0 \<mapsto> (10, False)]" "used_blocks small_area = {}"
  using buddy_init_inv [of 10 "replicate 4 \<lparr>bi_sizem = 0, bi_used = False\<rparr>" 4096 "\<lambda>_. 0"]
  by (simp_all add: small_area_def)

lemma small_area_lower: "ma_lower small_area = 8"
  by (simp add: small_area_def buddy_init_def Let_def)

lemma mforsize_100: "mforsize small_area 100 = Some 8"
  by (simp add: mforsize_def small_area_lower mforsize_loop.simps)

subsection \<open>Allocation\<close>

lemma buddy_alloc_inv:
  assumes inv: "buddy_inv ma" and m: "mforsize ma nbytes = Some m"
  shows "if \<exists>k b. m \<le> k \<and> block_table ma b = Some (k, False)
     then \<exists>b ma'. buddy_alloc userland ma nbytes = Some (of_nat b + ma_mem ma, ma') \<and> buddy_inv ma' \<and> same_area ma ma' \<and>
       used_blocks ma' = insert (b, m) (used_blocks ma) \<and> (\<forall>k. (b, k) \<notin> used_blocks ma) \<and>
       2 ^ m dvd b \<and> b + 2 ^ m \<le> 2 ^ ma_upper ma \<and> unat nbytes < 2 ^ m
     else buddy_alloc userland ma nbytes = (if userland then Some (0, ma) else None)"
proof -
  from inv obtain F where F: "rep ma (block_table ma) F {}" "coalesced (ma_upper ma) (\<lambda>m. set (F m))"
    by (rule buddy_invE)
  note spec = buddy_alloc_rep [OF F m, of userland]
  show ?thesis
  proof (cases "\<exists>k b. m \<le> k \<and> block_table ma b = Some (k, False)")
    case True
    with spec obtain b ma' B' F' where
      a: "buddy_alloc userland ma nbytes = Some (of_nat b + ma_mem ma, ma')" "same_area ma ma'"
        "rep ma' B' F' {}" "B' b = Some (m, True)" "used_of B' = insert (b, m) (used_blocks ma)"
        "b \<notin> fst ` used_blocks ma" "coalesced (ma_upper ma) (\<lambda>j. set (F' j))"
      by (auto simp: used_blocks_def)
    have "in_area (ma_lower ma) (ma_upper ma) b m"
      using rep_lookup(4) [OF a(3,4)] a(2) by (simp add: same_area_def)
    then have "2 ^ m dvd b" "b + 2 ^ m \<le> 2 ^ ma_upper ma" by (auto simp: in_area_def)
    moreover have "buddy_inv ma'" "used_blocks ma' = insert (b, m) (used_blocks ma)"
      using buddy_invI [OF a(3,7,2) inv] a(5) by (simp_all add: used_blocks_def)
    moreover have "\<forall>k. (b, k) \<notin> used_blocks ma" using a(6) by force
    ultimately show ?thesis
      using a(1,2) mforsize_range(3) [OF m repD(1) [OF F(1)]] True by (simp only: if_True) blast
  next
    case False
    with spec show ?thesis by (simp only: if_False simp_thms)
  qed
qed

text \<open>
  C1: \<open>buddy_alloc\<close> succeeds exactly when some free block is large enough. It then returns the
  address of a block of the computed size \<open>2 ^ m\<close>, which was not in use before, lies aligned
  inside the area and is the only change to the set of blocks in use; the invariant is kept. When
  no free block is large enough, the kernel build stops on its assertion and the \<open>USERLAND\<close>
  build returns \<open>NULL\<close> and changes nothing.
\<close>

theorem buddy_alloc_correct:
  assumes inv: "buddy_inv ma" and m: "mforsize ma nbytes = Some m"
  shows "if \<exists>k b. m \<le> k \<and> block_table ma b = Some (k, False)
     then \<exists>b ma'. buddy_alloc userland ma nbytes = Some (of_nat b + ma_mem ma, ma') \<and> buddy_inv ma' \<and>
       used_blocks ma' = insert (b, m) (used_blocks ma) \<and> (\<forall>k. (b, k) \<notin> used_blocks ma) \<and>
       2 ^ m dvd b \<and> b + 2 ^ m \<le> 2 ^ ma_upper ma \<and> unat nbytes < 2 ^ m
     else buddy_alloc userland ma nbytes = (if userland then Some (0, ma) else None)"
proof (cases "\<exists>k b. m \<le> k \<and> block_table ma b = Some (k, False)")
  case True
  from buddy_alloc_inv [OF inv m, of userland, unfolded if_P [OF True]] show ?thesis
    unfolding if_P [OF True] by blast
next
  case False
  from buddy_alloc_inv [OF inv m, of userland, unfolded if_not_P [OF False]] show ?thesis
    unfolding if_not_P [OF False] .
qed

theorem buddy_alloc_correct_witness:
  "\<exists>b ma'. buddy_alloc False small_area 100 = Some (of_nat b + 4096, ma') \<and> buddy_inv ma' \<and>
     used_blocks ma' = {(b, 8)} \<and> 256 dvd b \<and> b + 256 \<le> 1024"
proof -
  have "ma_mem small_area = 4096" "ma_upper small_area = 10"
    by (simp_all add: small_area_def buddy_init_def Let_def)
  moreover have "\<exists>k b. 8 \<le> k \<and> block_table small_area b = Some (k, False)"
    by (rule exI [of _ 10], rule exI [of _ 0]) (simp add: small_area_inv)
  ultimately show ?thesis
    using buddy_alloc_correct [OF small_area_inv(1) mforsize_100, of False] small_area_inv(3)
    by auto
qed

text \<open>
  the size class. For a request below \<open>2 ^ 31\<close> bytes the loop of \<open>mforsize\<close> ends with the
  exponent of a block strictly larger than the request, the smallest such one that is not below
  the granularity. (A request of exactly a power of two is given twice its size, although the
  comment says that sizes are rounded up to the nearest power of two.)
\<close>

theorem mforsize_correct:
  assumes "unat nbytes < 2 ^ 31" and "ma_lower ma \<le> 31"
  shows "\<exists>m. mforsize ma nbytes = Some m \<and> ma_lower ma \<le> m \<and> m \<le> 31 \<and> unat nbytes < 2 ^ m \<and>
    (m = ma_lower ma \<or> 2 ^ (m - 1) \<le> unat nbytes)"
  by (rule mforsize_spec [OF assms(1), of ma]) (use assms(2) in auto)

theorem mforsize_correct_witness:
  "\<exists>m. mforsize small_area 1024 = Some m \<and> (1024::nat) < 2 ^ m \<and> (m = 8 \<or> 2 ^ (m - 1) \<le> (1024::nat))"
  using mforsize_correct [of 1024 small_area] by (auto simp: small_area_lower)

text \<open>
  A request of \<open>2 ^ 31\<close> bytes or more never returns: \<open>pow2\<close> wraps to 0 and the loop of
  \<open>mforsize\<close> runs forever, in every memory area.
\<close>

theorem mforsize_hangs:
  assumes "2 ^ 31 \<le> unat nbytes"
  shows "mforsize ma nbytes = None \<and> buddy_alloc userland ma nbytes = None"
proof -
  have "\<exists>k<32. (1::u32) = 2 ^ k" by (rule exI [of _ 0]) simp
  then have "mforsize_loop nbytes 1 0 = None" using mforsize_loop_diverges [OF assms] by blast
  then show ?thesis by (simp add: mforsize_def buddy_alloc_def)
qed

theorem mforsize_hangs_witness:
  "(2::nat) ^ 31 \<le> unat (0x80000000 :: u32) \<and> mforsize small_area 0x80000000 = None"
  using mforsize_hangs [of "0x80000000" small_area] by simp

subsection \<open>Release\<close>

lemma buddy_free_inv:
  assumes inv: "buddy_inv ma" and b: "block_table ma b = Some (m, True)"
  shows "\<exists>ma'. buddy_free ma (of_nat b + ma_mem ma) = Some ma' \<and> buddy_inv ma' \<and>
    used_blocks ma' = used_blocks ma - {(b, m)} \<and> same_area ma ma'"
proof -
  from inv obtain F where F: "rep ma (block_table ma) F {}" "coalesced (ma_upper ma) (\<lambda>m. set (F m))"
    "ma_mem ma \<noteq> 0" "unat (ma_mem ma) + 2 ^ ma_upper ma < 2 ^ 32" by (rule buddy_invE)
  from buddy_free_rep [OF F(1,2) b F(3,4)] obtain ma' B' F' where
    "buddy_free ma (of_nat b + ma_mem ma) = Some ma'" "same_area ma ma'" "rep ma' B' F' {}"
    "used_of B' = used_of (block_table ma) - {(b, m)}" "coalesced (ma_upper ma) (\<lambda>j. set (F' j))" by blast
  with buddy_invI [of ma' B' F' ma] inv show ?thesis by (auto simp: used_blocks_def)
qed

lemma small_area_alloc:
  "\<exists>b ma. buddy_alloc False small_area 100 = Some (of_nat b + 4096, ma) \<and> buddy_inv ma \<and>
     used_blocks ma = {(b, 8)} \<and> block_table ma b = Some (8, True) \<and> ma_mem ma = 4096"
proof -
  have f: "ma_mem small_area = 4096" by (simp add: small_area_def buddy_init_def Let_def)
  have "\<exists>k b. 8 \<le> k \<and> block_table small_area b = Some (k, False)"
    by (rule exI [of _ 10], rule exI [of _ 0]) (simp add: small_area_inv)
  with buddy_alloc_inv [OF small_area_inv(1) mforsize_100, of False] obtain b ma where
    a: "buddy_alloc False small_area 100 = Some (of_nat b + ma_mem small_area, ma)" "buddy_inv ma"
    "same_area small_area ma" "used_blocks ma = {(b, 8)}"
    unfolding small_area_inv(3) by (simp only: if_True) blast
  then have "(b, 8) \<in> used_of (block_table ma)" by (simp add: used_blocks_def)
  then have "block_table ma b = Some (8, True)" by (simp add: used_of_def)
  with a f show ?thesis by (auto simp: same_area_def)
qed

text \<open>
  C2: \<open>buddy_free\<close> on the address of a block in use returns, keeps the invariant (in particular
  merges with every free buddy), and removes exactly this block from the blocks in use.
\<close>

theorem buddy_free_correct:
  assumes "buddy_inv ma" and "block_table ma b = Some (m, True)"
  shows "\<exists>ma'. buddy_free ma (of_nat b + ma_mem ma) = Some ma' \<and> buddy_inv ma' \<and>
    used_blocks ma' = used_blocks ma - {(b, m)} \<and> same_area ma ma'"
  using assms by (rule buddy_free_inv)

theorem buddy_free_correct_witness:
  "\<exists>ma b ma'. buddy_inv ma \<and> block_table ma b = Some (8, True) \<and>
     buddy_free ma (of_nat b + ma_mem ma) = Some ma' \<and> used_blocks ma' = {}"
proof -
  from small_area_alloc obtain b ma where
    m: "buddy_inv ma" "used_blocks ma = {(b, 8)}" "block_table ma b = Some (8, True)" by blast
  with buddy_free_correct [OF m(1,3)] show ?thesis by auto
qed

text \<open>
  Nothing is lost to fragmentation. In a memory area where no block is in use, the free
  memory has coalesced into the single block that \<open>buddy_init\<close> set up, whatever happened before.
\<close>

theorem buddy_all_released:
  assumes inv: "buddy_inv ma" and none: "used_blocks ma = {}"
  shows "block_table ma = [0 \<mapsto> (ma_upper ma, False)] \<and> ma_freelist ma ! ma_upper ma = 0"
proof -
  from inv obtain F where F: "rep ma (block_table ma) F {}" "coalesced (ma_upper ma) (\<lambda>m. set (F m))"
    by (rule buddy_invE)
  note R = repD [OF F(1)]
  have free: "\<not> u" if "block_table ma b = Some (m, u)" for b m u
    using none that by (auto simp: used_blocks_def used_of_def)
  have "coalesced (ma_upper ma) (\<lambda>m. {b. block_table ma b = Some (m, False)})"
    using F(2) R(5) by (simp only: Diff_empty)
  from all_free_single [OF R(2) free this] have t: "block_table ma = [0 \<mapsto> (ma_upper ma, False)]" .
  with R(5) [of "ma_upper ma"] have "set (F (ma_upper ma)) = {0}" by (auto split: if_splits)
  moreover have u: "ma_upper ma < 32" using R(1) by (simp add: geom_def)
  ultimately obtain xs where "F (ma_upper ma) = 0 # xs"
    by (cases "F (ma_upper ma)") auto
  with lists_head [OF R(4) u] t show ?thesis by blast
qed

theorem buddy_all_released_witness:
  "buddy_inv small_area \<and> block_table small_area = [0 \<mapsto> (ma_upper small_area, False)]"
  using buddy_all_released [OF small_area_inv(1,3)] small_area_inv(1) by simp

text \<open>
  \<open>buddy_init\<close> with the array size that \<open>buddy_nblocks\<close> gives sets up a memory area that
  satisfies the allocator's invariant, with one free block of the whole size and nothing in use.
\<close>

theorem buddy_init_establishes:
  assumes "8 \<le> p" and "p \<le> 31" and "length bs = buddy_nblocks p"
    and "base \<noteq> 0" and "unat base + 2 ^ p < 2 ^ 32"
  shows "buddy_inv (buddy_init p base lk bs) \<and>
    block_table (buddy_init p base lk bs) = [0 \<mapsto> (p, False)] \<and>
    used_blocks (buddy_init p base lk bs) = {}"
  using buddy_init_inv [of p bs base lk] assms by (simp add: buddy_nblocks_def)

theorem buddy_init_establishes_witness:
  "(8::nat) \<le> 10 \<and> length (replicate 4 \<lparr>bi_sizem = 3, bi_used = True\<rparr>) = buddy_nblocks 10 \<and>
   buddy_inv (buddy_init 10 4096 (\<lambda>_. 7) (replicate 4 \<lparr>bi_sizem = 3, bi_used = True\<rparr>))"
  using buddy_init_establishes [of 10 "replicate 4 \<lparr>bi_sizem = 3, bi_used = True\<rparr>" 4096 "\<lambda>_. 7"]
  by (simp add: buddy_nblocks_def)

subsection \<open>The kernel heap as an allocator\<close>

definition kmalloc_nat :: "u32 \<Rightarrow> memarea \<Rightarrow> (nat \<times> memarea) option" where
  "kmalloc_nat n ma = map_option (\<lambda>(p, ma'). (unat p, ma')) (kmalloc n ma)"

definition kfree_nat :: "nat \<Rightarrow> memarea \<Rightarrow> memarea option" where
  "kfree_nat p ma = kfree (of_nat p) ma"

definition heap_live :: "memarea \<Rightarrow> (nat \<times> nat) set" where
  "heap_live ma = (\<lambda>(b, m). (unat (ma_mem ma) + b, 2 ^ m)) ` used_blocks ma"

lemma used_blocks_iff: "(b, m) \<in> used_blocks ma \<longleftrightarrow> block_table ma b = Some (m, True)"
  by (simp add: used_blocks_def used_of_def)

lemma used_blocks_apart:
  assumes inv: "buddy_inv ma" and "(b, m) \<in> used_blocks ma" "(b', m') \<in> used_blocks ma" "b \<noteq> b'"
  shows "b + 2 ^ m \<le> b' \<or> b' + 2 ^ m' \<le> b"
proof -
  from inv obtain F where F: "rep ma (block_table ma) F {}" by (rule buddy_invE)
  from assms show ?thesis
    using tiles_disjoint [OF repD(2) [OF F]] by (metis used_blocks_iff linorder_neqE_nat)
qed

lemma used_block_low:
  assumes inv: "buddy_inv ma" and "(b, m) \<in> used_blocks ma"
  shows "b < 2 ^ ma_upper ma"
proof -
  from inv obtain F where F: "rep ma (block_table ma) F {}" by (rule buddy_invE)
  with assms show ?thesis using tiles_lt [OF repD(2) [OF F]] by (simp add: used_blocks_iff)
qed

lemma used_block_pointer:
  assumes inv: "buddy_inv ma" and u: "(b, m) \<in> used_blocks ma"
  shows "of_nat (unat (ma_mem ma) + b) = of_nat b + ma_mem ma" "of_nat b + ma_mem ma \<noteq> 0"
    "unat (of_nat b + ma_mem ma) = unat (ma_mem ma) + b"
proof -
  from inv have a: "ma_mem ma \<noteq> 0" "unat (ma_mem ma) + 2 ^ ma_upper ma < 2 ^ 32"
    by (auto simp: buddy_inv_def)
  note P = block_pointer [OF a(2) used_block_low [OF inv u] a(1)]
  from P(1) show "of_nat b + ma_mem ma \<noteq> 0" .
  from P(5) show "unat (of_nat b + ma_mem ma) = unat (ma_mem ma) + b" .
  show "of_nat (unat (ma_mem ma) + b) = of_nat b + ma_mem ma" by simp
qed

lemma kmalloc_grants:
  assumes inv: "buddy_inv ma" and k: "kmalloc n ma = Some (p, ma')"
  obtains b m where "p = of_nat b + ma_mem ma" "buddy_inv ma'" "same_area ma ma'"
    "used_blocks ma' = insert (b, m) (used_blocks ma)" "\<forall>k. (b, k) \<notin> used_blocks ma" "unat n < 2 ^ m"
proof -
  from k obtain m where m: "mforsize ma n = Some m"
    by (cases "mforsize ma n") (auto simp: kmalloc_def buddy_alloc_def)
  from k have b: "buddy_alloc False ma n = Some (p, ma')"
    by (auto simp: kmalloc_def split: if_splits)
  show thesis
  proof (cases "\<exists>k b. m \<le> k \<and> block_table ma b = Some (k, False)")
    case True
    from buddy_alloc_inv [OF inv m, of False, unfolded if_P [OF True]] b show thesis
      by (auto intro: that)
  next
    case False
    from buddy_alloc_inv [OF inv m, of False, unfolded if_not_P [OF False]] b show thesis by simp
  qed
qed

lemma heap_live_apart:
  assumes inv: "buddy_inv ma" and "(b, m) \<in> used_blocks ma" "(b', m') \<in> used_blocks ma" "b \<noteq> b'"
  shows "apart (unat (ma_mem ma) + b, 2 ^ m) (unat (ma_mem ma) + b', 2 ^ m')"
  using used_blocks_apart [OF assms] by (auto simp: apart_def region_def)

lemma kmalloc_nat_grants:
  assumes inv: "buddy_inv s" and k: "kmalloc_nat n s = Some (p, s')"
  shows "\<exists>k. unat n \<le> k \<and> 0 < k \<and> buddy_inv s' \<and> heap_live s' = insert (p, k) (heap_live s) \<and>
    (\<forall>r\<in>heap_live s. apart (p, k) r)"
proof -
  from k obtain q where q: "kmalloc n s = Some (q, s')" "p = unat q" by (auto simp: kmalloc_nat_def)
  from kmalloc_grants [OF inv q(1)] obtain b m where
    g: "q = of_nat b + ma_mem s" "buddy_inv s'" "same_area s s'"
      "used_blocks s' = insert (b, m) (used_blocks s)" "\<forall>k. (b, k) \<notin> used_blocks s" "unat n < 2 ^ m"
    by blast
  have mem: "ma_mem s' = ma_mem s" using g(3) by (simp add: same_area_def)
  have p: "p = unat (ma_mem s) + b"
    using used_block_pointer(3) [OF g(2), of b m] g(1,4) q(2) mem by simp
  have "apart (unat (ma_mem s) + b, 2 ^ m) (unat (ma_mem s) + b', 2 ^ m')"
    if "(b', m') \<in> used_blocks s" for b' m'
    using heap_live_apart [OF g(2), of b m b' m'] that g(4,5) mem by auto
  with g(2,4,6) mem p show ?thesis
    by (intro exI [of _ "2 ^ m"]) (auto simp: heap_live_def)
qed

lemma kfree_nat_returns:
  assumes inv: "buddy_inv s" and l: "(p, k) \<in> heap_live s"
  shows "\<exists>s'. kfree_nat p s = Some s' \<and> buddy_inv s' \<and> heap_live s' = heap_live s - {(p, k)}"
proof -
  from l obtain b m where b: "(b, m) \<in> used_blocks s" "p = unat (ma_mem s) + b" "k = 2 ^ m"
    by (auto simp: heap_live_def)
  from buddy_free_inv [OF inv b(1) [unfolded used_blocks_iff]] obtain s' where
    f: "buddy_free s (of_nat b + ma_mem s) = Some s'" "buddy_inv s'" "same_area s s'"
      "used_blocks s' = used_blocks s - {(b, m)}" by blast
  have "inj_on (\<lambda>(b, m). (unat (ma_mem s) + b, (2::nat) ^ m)) (used_blocks s)"
    by (auto simp: inj_on_def)
  from inj_on_image_set_diff [OF this Diff_subset, of "{(b, m)}"]
  have "heap_live s' = heap_live s - {(p, k)}"
    using b f(3,4) by (simp add: heap_live_def same_area_def)
  with f used_block_pointer(1) [OF inv b(1)] b(2) show ?thesis
    by (simp add: kfree_nat_def kfree_def add.commute [of "ma_mem s"])
qed

interpretation kheap: allocator buddy_inv heap_live kmalloc_nat kfree_nat unat
proof (unfold_locales, goal_cases)
  case (1 s n p s')
  then show ?case by (rule kmalloc_nat_grants)
next
  case (2 s p k)
  then show ?case by (rule kfree_nat_returns)
qed

lemma kmalloc_init_inv:
  assumes "length kernel_blocks = buddy_nblocks KERNEL_MEM_SIZEPOW2"
  shows "buddy_inv (kmalloc_init lk kernel_blocks)" "heap_live (kmalloc_init lk kernel_blocks) = {}"
    "block_table (kmalloc_init lk kernel_blocks) = [0 \<mapsto> (22, False)]"
proof -
  have n: "buddy_nblocks KERNEL_MEM_SIZEPOW2 = 2 ^ (22 - 8)" by (simp add: buddy_nblocks_def)
  from buddy_init_inv [of 22 kernel_blocks "0x200000" lk] assms n
  show "buddy_inv (kmalloc_init lk kernel_blocks)" "heap_live (kmalloc_init lk kernel_blocks) = {}"
    "block_table (kmalloc_init lk kernel_blocks) = [0 \<mapsto> (22, False)]"
    by (simp_all add: kmalloc_init_def heap_live_def)
qed

text \<open>
  C40: the safety of the kernel heap over any history. Starting from \<open>kmalloc_init\<close>, whatever
  sequence of \<open>kmalloc\<close> and \<open>kfree\<close> calls a client makes that frees only what it was given,
  the regions it holds at the end are pairwise disjoint and the heap is well formed.
\<close>

theorem kernel_heap_safe:
  assumes "length kernel_blocks = buddy_nblocks KERNEL_MEM_SIZEPOW2"
    and "kheap.session (kmalloc_init lk kernel_blocks) requests heap"
  shows "buddy_inv heap \<and> all_apart (heap_live heap)"
  using kheap.session_safe [OF assms(2)] kmalloc_init_inv [OF assms(1)] by simp

lemma kmalloc_some:
  assumes inv: "buddy_inv ma" and m: "mforsize ma n = Some m" "block_table ma b = Some (k, False)" "m \<le> k"
  obtains p ma' where "kmalloc n ma = Some (p, ma')"
proof -
  have ex: "\<exists>k b. m \<le> k \<and> block_table ma b = Some (k, False)" using m by blast
  from buddy_alloc_inv [OF inv m(1), of False, unfolded if_P [OF ex]] obtain b ma' where
    a: "buddy_alloc False ma n = Some (of_nat b + ma_mem ma, ma')" "buddy_inv ma'" "same_area ma ma'"
      "used_blocks ma' = insert (b, m) (used_blocks ma)" by blast
  have "of_nat b + ma_mem ma \<noteq> 0"
    using used_block_pointer(2) [OF a(2), of b m] a(3,4) by (simp add: same_area_def)
  with a(1) show thesis by (intro that) (simp add: kmalloc_def)
qed

theorem kernel_heap_safe_witness:
  "\<exists>heap bs. length bs = buddy_nblocks KERNEL_MEM_SIZEPOW2 \<and>
     kheap.session (kmalloc_init (\<lambda>_. 0) bs) [Alloc 100] heap \<and> buddy_inv heap \<and> all_apart (heap_live heap)"
proof -
  define bs where "bs = replicate (buddy_nblocks KERNEL_MEM_SIZEPOW2) \<lparr>bi_sizem = 0, bi_used = False\<rparr>"
  let ?ma = "kmalloc_init (\<lambda>_. 0) bs"
  have l: "length bs = buddy_nblocks KERNEL_MEM_SIZEPOW2" by (simp add: bs_def)
  have "ma_lower ?ma = 8" by (simp add: kmalloc_init_def buddy_init_def Let_def)
  then have "mforsize ?ma 100 = Some 8" by (simp add: mforsize_def mforsize_loop.simps)
  from kmalloc_some [OF kmalloc_init_inv(1) [OF l] this, of 0 22] kmalloc_init_inv(3) [OF l]
  obtain p heap where "kmalloc 100 ?ma = Some (p, heap)" by auto
  then have "kheap.session ?ma [Alloc 100] heap"
    by (intro kheap.session.intros(2) [of _ _ "unat p" heap] kheap.session.intros(1)) (simp add: kmalloc_nat_def)
  with kernel_heap_safe [OF l this] l show ?thesis by blast
qed

end
