(* ===== verification/Memory.thy ===== *)
theory Memory
  imports Prelude
begin

text \<open>
  Physical memory, byte by byte, and the little-endian 32-bit accesses that the kernel makes
  through \<open>unsigned int *\<close> pointers: page directories, page tables, the links of the list
  of free pages, words on user stacks. The lemmas are reads over writes at 4-aligned addresses and
  the addresses of the 1024 words (\<open>slot\<close>) of a page.
\<close>

subsection \<open>Words in memory\<close>

definition load32 :: "byte_mem \<Rightarrow> u32 \<Rightarrow> u32" where
  "load32 m a =
     ucast (m a) OR push_bit 8 (ucast (m (a + 1))) OR
     push_bit 16 (ucast (m (a + 2))) OR push_bit 24 (ucast (m (a + 3)))"

definition store32 :: "u32 \<Rightarrow> u32 \<Rightarrow> byte_mem \<Rightarrow> byte_mem" where
  "store32 a v m =
     m(a := ucast v, a + 1 := ucast (drop_bit 8 v), a + 2 := ucast (drop_bit 16 v),
       a + 3 := ucast (drop_bit 24 v))"

text \<open>\<open>for (i = 0; i < n; i++) ((unsigned int*)a)[i] = 0\<close>\<close>

fun zero_words :: "u32 \<Rightarrow> nat \<Rightarrow> byte_mem \<Rightarrow> byte_mem" where
  "zero_words a 0 m = m"
| "zero_words a (Suc n) m = zero_words (a + 4) n (store32 a 0 m)"

definition word_aligned :: "u32 \<Rightarrow> bool" where
  "word_aligned a \<longleftrightarrow> 4 dvd unat a"

definition page_aligned :: "u32 \<Rightarrow> bool" where
  "page_aligned a \<longleftrightarrow> 4096 dvd unat a"

definition slot :: "u32 \<Rightarrow> u32 \<Rightarrow> u32" where
  "slot base i = base + 4 * i"

lemma join_bytes:
  "ucast (ucast v :: u8) OR push_bit 8 (ucast (ucast (drop_bit 8 v) :: u8)) OR
    push_bit 16 (ucast (ucast (drop_bit 16 v) :: u8)) OR push_bit 24 (ucast (ucast (drop_bit 24 v) :: u8)) = (v :: u32)"
proof (rule bit_word_eqI)
  fix n assume "n < LENGTH(32)"
  consider "n < 8" | "8 \<le> n" "n < 16" | "16 \<le> n" "n < 24" | "24 \<le> n" by linarith
  then show "bit (ucast (ucast v :: u8) OR push_bit 8 (ucast (ucast (drop_bit 8 v) :: u8)) OR
      push_bit 16 (ucast (ucast (drop_bit 16 v) :: u8)) OR
      push_bit 24 (ucast (ucast (drop_bit 24 v) :: u8)) :: u32) n = bit v n"
    using \<open>n < LENGTH(32)\<close> by cases (auto simp: bit_simps)
qed

lemma load32_store32_same [simp, mem_simps]: "load32 (store32 a v m) a = v"
  using join_bytes [of v] by (simp add: load32_def store32_def)

lemma word_aligned_neq:
  assumes "word_aligned a" "word_aligned b" "a \<noteq> b" "i < 4" "j < 4"
  shows "a + of_nat i \<noteq> b + of_nat j"
proof
  assume eq: "a + of_nat i = b + of_nat j"
  have no: "unat (x + of_nat k) = unat x + k" if "word_aligned x" "k < 4" for x :: u32 and k
  proof (rule unat_add_of_nat_u32)
    from that obtain l where l: "unat x = 4 * l" by (auto simp: word_aligned_def dvd_def)
    have "4 * l < 4294967296" using unat_lt_u32 [of x] unfolding l .
    then have "l < 1073741824" by simp
    with that(2) l show "unat x + k < 4294967296" by linarith
  qed
  from eq have "unat a + i = unat b + j" using no assms by metis
  with assms have "unat a = unat b" by (auto simp: word_aligned_def dvd_def)
  with assms(3) show False by (simp add: word_unat_eq_iff)
qed

lemma load32_store32_other [mem_simps]:
  assumes "word_aligned a" "word_aligned b" "a \<noteq> b"
  shows "load32 (store32 a v m) b = load32 m b"
proof -
  have "a \<noteq> b + 1" "a \<noteq> b + 2" "a \<noteq> b + 3" "a + 1 \<noteq> b" "a + 2 \<noteq> b" "a + 3 \<noteq> b"
    "a + 1 \<noteq> b + 2" "a + 1 \<noteq> b + 3" "a + 2 \<noteq> b + 1" "a + 2 \<noteq> b + 3" "a + 3 \<noteq> b + 1" "a + 3 \<noteq> b + 2"
    using word_aligned_neq [OF assms, of 0 1] word_aligned_neq [OF assms, of 0 2]
      word_aligned_neq [OF assms, of 0 3] word_aligned_neq [OF assms, of 1 0]
      word_aligned_neq [OF assms, of 2 0] word_aligned_neq [OF assms, of 3 0]
      word_aligned_neq [OF assms, of 1 2] word_aligned_neq [OF assms, of 1 3]
      word_aligned_neq [OF assms, of 2 1] word_aligned_neq [OF assms, of 2 3]
      word_aligned_neq [OF assms, of 3 1] word_aligned_neq [OF assms, of 3 2] by simp_all
  with assms(3) show ?thesis
    by (simp add: load32_def store32_def)
qed

subsection \<open>The words of a page\<close>

lemma page_aligned_bound:
  assumes "page_aligned p"
  shows "unat p + 4096 \<le> 4294967296"
proof -
  from assms obtain k where k: "unat p = 4096 * k" by (auto simp: page_aligned_def dvd_def)
  have "4096 * k < 4294967296" using unat_lt_u32 [of p] unfolding k .
  then have "k < 1048576" by simp
  with k show ?thesis by linarith
qed

lemma unat_slot:
  assumes "page_aligned p" "i < 1024"
  shows "unat (slot p i) = unat p + 4 * unat i"
proof -
  from assms(2) have i: "unat i < 1024" by (simp add: word_less_nat_alt)
  then have "unat (4 * i) = 4 * unat i" by (simp add: unat_word_ariths)
  moreover have "unat p + 4 * unat i < 4294967296" using page_aligned_bound [OF assms(1)] i by simp
  ultimately show ?thesis by (simp add: slot_def unat_add_u32)
qed

lemma slot_aligned:
  assumes "page_aligned p" "i < 1024"
  shows "word_aligned (slot p i)"
proof -
  have "4 dvd unat p" using assms(1) by (auto simp: page_aligned_def dvd_def)
  then show ?thesis by (simp add: word_aligned_def unat_slot [OF assms])
qed

lemma slot_eq:
  assumes "page_aligned p" "page_aligned q" "i < 1024" "j < 1024"
  shows "slot p i = slot q j \<longleftrightarrow> p = q \<and> i = j"
proof
  assume "slot p i = slot q j"
  then have e: "unat p + 4 * unat i = unat q + 4 * unat j"
    using unat_slot [OF assms(1,3)] unat_slot [OF assms(2,4)] by simp
  moreover have "unat i < 1024" "unat j < 1024" using assms(3,4) by (simp_all add: word_less_nat_alt)
  moreover obtain x y where "unat p = 4096 * x" "unat q = 4096 * y"
    using assms(1,2) by (auto simp: page_aligned_def dvd_def)
  ultimately have "x = y"
    by (cases x y rule: linorder_cases) linarith+
  with e \<open>unat p = _\<close> \<open>unat q = _\<close> have "unat p = unat q" "unat i = unat j" by simp_all
  then show "p = q \<and> i = j" by (simp add: word_unat_eq_iff)
qed simp

lemma slot_0 [simp]: "slot p 0 = p"
  by (simp add: slot_def)

lemma load32_store32_slot [mem_simps]:
  assumes "page_aligned p" "page_aligned q" "i < 1024" "j < 1024"
  shows "load32 (store32 (slot p i) v m) (slot q j) =
    (if p = q \<and> i = j then v else load32 m (slot q j))"
  using assms slot_eq [OF assms] by (auto simp: load32_store32_other slot_aligned)

lemma zero_words_slot:
  assumes "page_aligned p" "page_aligned q" "j < 1024" "i + n \<le> 1024"
  shows "load32 (zero_words (slot p (of_nat i)) n m) (slot q j) =
    (if p = q \<and> i \<le> unat j \<and> unat j < i + n then 0 else load32 m (slot q j))"
  using assms(4)
proof (induction n arbitrary: i m)
  case 0
  then show ?case by auto
next
  case (Suc n)
  have next_slot: "slot p (of_nat i) + 4 = slot p (of_nat (Suc i))" by (simp add: slot_def algebra_simps)
  have i: "(of_nat i :: u32) < 1024" "unat (of_nat i :: u32) = i"
    using Suc.prems by (simp_all add: word_less_nat_alt unat_of_nat_u32)
  then have "of_nat i = j \<longleftrightarrow> i = unat j" by auto
  then show ?case
    using Suc.IH [of "Suc i"] Suc.prems assms(1-3) i
    by (simp only: zero_words.simps next_slot) (auto simp: load32_store32_slot)
qed

lemma zero_page_slot [mem_simps]:
  assumes "page_aligned p" "page_aligned q" "j < 1024"
  shows "load32 (zero_words p 1024 m) (slot q j) = (if p = q then 0 else load32 m (slot q j))"
  using zero_words_slot [OF assms, of 0 1024 m] assms(3) by (simp add: word_less_nat_alt)

end
