(* ===== verification/Page.thy ===== *)
theory Page
  imports Memory Alloc_Spec
begin

text \<open>
  Paging, \<^verbatim>\<open>source/page.c\<close>: the page allocator and the two-level page tables. Page
  directories and page tables live in physical memory as the code has them; a page directory is
  named by its physical address, and the free pages are linked through their first word.

  \<open>mm_ram\<close> is the amount of installed memory: the code never compares \<open>page_end\<close> with
  it, and a page outside it cannot be written, so \<open>alloc_page\<close> does not return there.
\<close>

definition PAGE_START :: u32 where [simp]: "PAGE_START = 6291456"
definition PAGE_ADDRESS_MASK :: u32 where [simp]: "PAGE_ADDRESS_MASK = 0xFFFFF000"
definition PAGE_USER :: u32 where [simp]: "PAGE_USER = 4"
definition PAGE_SUPERVISOR :: u32 where [simp]: "PAGE_SUPERVISOR = 0"
definition PAGE_READ_WRITE :: u32 where [simp]: "PAGE_READ_WRITE = 2"
definition PAGE_READ_ONLY :: u32 where [simp]: "PAGE_READ_ONLY = 0"
definition PAGE_PRESENT :: u32 where [simp]: "PAGE_PRESENT = 1"

record mm =
  mm_mem :: byte_mem
  mm_ram :: nat
  page_end :: u32
  page_free :: u32
  npages :: u32

definition mm_init :: "byte_mem \<Rightarrow> nat \<Rightarrow> mm" where
  "mm_init mem ram =
     \<lparr>mm_mem = mem, mm_ram = ram, page_end = PAGE_START, page_free = 0, npages = 0\<rparr>"

definition mm_load :: "u32 \<Rightarrow> mm \<Rightarrow> u32" where
  "mm_load a s = load32 (mm_mem s) a"

definition mm_store :: "u32 \<Rightarrow> u32 \<Rightarrow> mm \<Rightarrow> mm" where
  "mm_store a v s = s\<lparr>mm_mem := store32 a v (mm_mem s)\<rparr>"

subsection \<open>Allocating pages\<close>

definition alloc_page :: "mm \<Rightarrow> (u32 \<times> mm) option" where
  "alloc_page s =
     do {
       let s = s\<lparr>npages := npages s + 1\<rparr>;
       let (address, s) =
         (if page_free s = 0 then (page_end s, s\<lparr>page_end := page_end s + PAGE_SIZE\<rparr>)
          else (page_free s, s\<lparr>page_free := mm_load (page_free s) s\<rparr>));
       assert_c (unat address + 4096 \<le> mm_ram s);
       Some (address, s\<lparr>mm_mem := zero_words address 1024 (mm_mem s)\<rparr>)
     }"

definition free_page :: "u32 \<Rightarrow> mm \<Rightarrow> mm option" where
  "free_page page s =
     do {
       assert_c (0 < npages s);
       let s = s\<lparr>npages := npages s - 1\<rparr>;
       let s = mm_store page (page_free s) s;
       Some (s\<lparr>page_free := page\<rparr>)
     }"

subsection \<open>Page directories\<close>

definition dirindex :: "u32 \<Rightarrow> u32" where
  "dirindex logical = logical div PAGE_SIZE div 1024"

definition tblindex :: "u32 \<Rightarrow> u32" where
  "tblindex logical = logical div PAGE_SIZE mod 1024"

definition present :: "u32 \<Rightarrow> bool" where
  "present e \<longleftrightarrow> e AND PAGE_PRESENT \<noteq> 0"

text \<open>The first step of \<open>map_page\<close>: get the page directory entry, creating it if necessary.\<close>

definition ensure_table :: "u32 \<Rightarrow> u32 \<Rightarrow> mm \<Rightarrow> mm option" where
  "ensure_table pdir logical s =
     (if \<not> present (mm_load (slot pdir (dirindex logical)) s)
      then do {
             (dirpage, s) \<leftarrow> alloc_page s;
             Some (mm_store (slot pdir (dirindex logical))
                     (dirpage OR PAGE_PRESENT OR PAGE_USER OR PAGE_READ_WRITE) s)
           }
      else Some s)"

definition map_page :: "u32 \<Rightarrow> u32 \<Rightarrow> u32 \<Rightarrow> u32 \<Rightarrow> u32 \<Rightarrow> mm \<Rightarrow> mm option" where
  "map_page pdir logical physical access readwrite s =
     do {
       assert_c (logical mod PAGE_SIZE = 0);
       assert_c (physical mod PAGE_SIZE = 0);
       s \<leftarrow> ensure_table pdir logical s;
       let ptable = mm_load (slot pdir (dirindex logical)) s AND PAGE_ADDRESS_MASK;
       Some (mm_store (slot ptable (tblindex logical))
               (physical OR PAGE_PRESENT OR access OR readwrite) s)
     }"

text \<open>\<open>lookup_page\<close>: the inner option is the result with its out parameter, \<open>None\<close> for 0.\<close>

definition lookup_page :: "u32 \<Rightarrow> u32 \<Rightarrow> mm \<Rightarrow> u32 option option" where
  "lookup_page pdir logical s =
     do {
       assert_c (logical mod PAGE_SIZE = 0);
       let e = mm_load (slot pdir (dirindex logical)) s;
       if \<not> present e then Some None
       else (let ptable = e AND PAGE_ADDRESS_MASK;
                 pe = mm_load (slot ptable (tblindex logical)) s
             in if \<not> present pe then Some None else Some (Some (pe AND PAGE_ADDRESS_MASK)))
     }"

definition unmap_and_free_page :: "u32 \<Rightarrow> u32 \<Rightarrow> mm \<Rightarrow> mm option" where
  "unmap_and_free_page pdir logical s =
     do {
       assert_c (logical mod PAGE_SIZE = 0);
       let e = mm_load (slot pdir (dirindex logical)) s;
       if \<not> present e then Some s
       else (let ptable = e AND PAGE_ADDRESS_MASK;
                 pe = mm_load (slot ptable (tblindex logical)) s
             in if \<not> present pe then Some s
                else do {
                  s \<leftarrow> free_page (pe AND PAGE_ADDRESS_MASK) s;
                  Some (mm_store (slot ptable (tblindex logical)) 0 s)
                })
     }"

text \<open>
  The loop variable of \<open>identity_map\<close> wraps when \<open>end\<close> lies in the last page of the address
  space; the loop then does not end.
\<close>

partial_function (option) identity_map :: "u32 \<Rightarrow> u32 \<Rightarrow> u32 \<Rightarrow> u32 \<Rightarrow> u32 \<Rightarrow> mm \<Rightarrow> mm option" where
  "identity_map pdir addr limit access readwrite s =
     (if addr < limit
      then do {
             s \<leftarrow> map_page pdir addr addr access readwrite s;
             identity_map pdir (addr + PAGE_SIZE) limit access readwrite s
           }
      else Some s)"

fun map_new_pages_loop :: "u32 \<Rightarrow> u32 \<Rightarrow> nat \<Rightarrow> mm \<Rightarrow> mm option" where
  "map_new_pages_loop pdir logical 0 s = Some s"
| "map_new_pages_loop pdir logical (Suc n) s =
     do {
       (page, s) \<leftarrow> alloc_page s;
       s \<leftarrow> map_page pdir logical page PAGE_USER PAGE_READ_WRITE s;
       map_new_pages_loop pdir (logical + PAGE_SIZE) n s
     }"

definition map_new_pages :: "u32 \<Rightarrow> u32 \<Rightarrow> u32 \<Rightarrow> mm \<Rightarrow> mm option" where
  "map_new_pages pdir base n s =
     do {
       assert_c (base mod PAGE_SIZE = 0);
       map_new_pages_loop pdir base (unat n) s
     }"

fun free_page_dir_loop :: "u32 \<Rightarrow> u32 list \<Rightarrow> mm \<Rightarrow> mm option" where
  "free_page_dir_loop pdir [] s = Some s"
| "free_page_dir_loop pdir (i # is) s =
     (let e = mm_load (slot pdir i) s in
      if present e
      then do { s \<leftarrow> free_page (e AND PAGE_ADDRESS_MASK) s; free_page_dir_loop pdir is s }
      else free_page_dir_loop pdir is s)"

definition free_page_dir :: "u32 \<Rightarrow> mm \<Rightarrow> mm option" where
  "free_page_dir pdir s =
     do {
       s \<leftarrow> free_page_dir_loop pdir (map of_nat [0..<1024]) s;
       free_page pdir s
     }"

end
