(* ===== verification/Page_Correct.thy ===== *)
theory Page_Correct
  imports Page
begin

text \<open>
  The page allocator meets the allocator contract: \<open>live_pages\<close> are the pages handed out,
  \<open>npages\<close> counts them, and the free pages form a list through their first words.
\<close>

subsection \<open>The list of free pages\<close>

fun plinks :: "mm \<Rightarrow> u32 \<Rightarrow> u32 list \<Rightarrow> bool" where
  "plinks s p [] \<longleftrightarrow> p = 0"
| "plinks s p (x # xs) \<longleftrightarrow> p = x \<and> x \<noteq> 0 \<and> plinks s (mm_load x s) xs"

definition managed :: "mm \<Rightarrow> u32 set" where
  "managed s = {p. page_aligned p \<and> PAGE_START \<le> p \<and> p < page_end s}"

definition live_pages :: "mm \<Rightarrow> u32 set" where
  "live_pages s = managed s - {p. \<exists>xs. plinks s (page_free s) xs \<and> p \<in> set xs}"

definition pages_rep :: "mm \<Rightarrow> u32 list \<Rightarrow> bool" where
  "pages_rep s xs \<longleftrightarrow>
     plinks s (page_free s) xs \<and> distinct xs \<and> set xs \<subseteq> managed s \<and>
     page_aligned (page_end s) \<and> PAGE_START \<le> page_end s \<and>
     unat (page_end s) \<le> mm_ram s \<and> mm_ram s < 2 ^ 32 \<and>
     unat (npages s) = card (live_pages s)"

definition pages_inv :: "mm \<Rightarrow> bool" where
  "pages_inv s \<longleftrightarrow> (\<exists>xs. pages_rep s xs)"

lemma plinks_unique: "plinks s p xs \<Longrightarrow> plinks s p ys \<Longrightarrow> xs = ys"
  by (induction xs arbitrary: p ys) (case_tac ys; auto)+

lemma plinks_cong:
  "(\<And>x. x \<in> set xs \<Longrightarrow> mm_load x s' = mm_load x s) \<Longrightarrow> plinks s' p xs = plinks s p xs"
  by (induction xs arbitrary: p) auto

lemma live_pages_rep:
  assumes "plinks s (page_free s) xs"
  shows "live_pages s = managed s - set xs"
proof -
  have "(\<exists>ys. plinks s (page_free s) ys \<and> p \<in> set ys) \<longleftrightarrow> p \<in> set xs" for p
    using assms plinks_unique [OF assms] by blast
  then show ?thesis unfolding live_pages_def by simp
qed

lemma page_aligned_0 [simp]: "page_aligned 0"
  by (simp add: page_aligned_def)

lemma page_aligned_mod: "page_aligned p \<longleftrightarrow> p mod PAGE_SIZE = 0"
  by (simp add: page_aligned_def word_unat_eq_iff unat_mod mod_eq_0_iff_dvd)

lemma managedD:
  assumes "p \<in> managed s"
  shows "page_aligned p" "p \<noteq> 0" "PAGE_START \<le> p" "p < page_end s"
  using assms by (auto simp: managed_def)

lemma live_managed: "p \<in> live_pages s \<Longrightarrow> p \<in> managed s"
  by (simp add: live_pages_def)

lemma page_aligned_next:
  assumes "page_aligned p" "unat p + 4096 < 2 ^ 32"
  shows "unat (p + 4096) = unat p + 4096" "page_aligned (p + 4096)"
proof -
  show u: "unat (p + 4096) = unat p + 4096"
    using assms(2) by (simp add: unat_add_u32)
  from assms(1) show "page_aligned (p + 4096)"
    unfolding page_aligned_def u by simp
qed

lemma card_aligned:
  assumes "\<forall>p\<in>A. page_aligned p"
  shows "card A \<le> 1048576"
proof -
  have "inj_on (\<lambda>p. unat p div 4096) A"
  proof (rule inj_onI)
    fix x y assume "x \<in> A" "y \<in> A" "unat x div 4096 = unat y div 4096"
    then have "unat x = unat y" using assms unfolding page_aligned_def by (metis dvd_div_mult_self)
    then show "x = y" by (simp add: word_unat_eq_iff)
  qed
  moreover have "(\<lambda>p. unat p div 4096) ` A \<subseteq> {..<1048576}"
    using unat_lt_u32 by (auto simp: less_mult_imp_div_less)
  ultimately show ?thesis
    by (metis card_image card_mono card_lessThan finite_lessThan)
qed

lemma finite_live [simp]: "finite (live_pages s)"
  by (rule finite)

subsection \<open>Frame lemmas\<close>

lemma mm_store_fields [simp]:
  "page_end (mm_store a v s) = page_end s" "page_free (mm_store a v s) = page_free s"
  "npages (mm_store a v s) = npages s" "mm_ram (mm_store a v s) = mm_ram s"
  "managed (mm_store a v s) = managed s"
  by (simp_all add: mm_store_def managed_def)

lemma mm_load_store_slot [mem_simps]:
  assumes "page_aligned p" "page_aligned q" "i < 1024" "j < 1024"
  shows "mm_load (slot q j) (mm_store (slot p i) v s) =
    (if p = q \<and> i = j then v else mm_load (slot q j) s)"
  by (simp add: mm_load_def mm_store_def load32_store32_slot [OF assms])

lemma mm_load_zero_page [mem_simps]:
  assumes "page_aligned p" "page_aligned q" "j < 1024"
  shows "mm_load (slot q j) (s\<lparr>mm_mem := zero_words p 1024 (mm_mem s)\<rparr>) =
    (if p = q then 0 else mm_load (slot q j) s)"
  by (simp add: mm_load_def zero_page_slot [OF assms])

text \<open>Writing into a page that is handed out does not disturb the allocator.\<close>

lemma pages_rep_store:
  assumes r: "pages_rep s xs" and p: "p \<in> live_pages s" and i: "i < 1024"
  shows "pages_rep (mm_store (slot p i) v s) xs" "live_pages (mm_store (slot p i) v s) = live_pages s"
proof -
  from r have pl: "plinks s (page_free s) xs" and sub: "set xs \<subseteq> managed s" by (auto simp: pages_rep_def)
  have "mm_load x (mm_store (slot p i) v s) = mm_load x s" if "x \<in> set xs" for x
  proof -
    from that sub have "page_aligned x" by (auto dest: managedD)
    moreover have "page_aligned p" "p \<noteq> x"
      using p that live_pages_rep [OF pl] by (auto dest: managedD)
    ultimately show ?thesis using mm_load_store_slot [of p x i 0 v s] i by simp
  qed
  then have pl': "plinks (mm_store (slot p i) v s) (page_free s) xs" using pl plinks_cong by metis
  then show l: "live_pages (mm_store (slot p i) v s) = live_pages s"
    using live_pages_rep [OF pl] live_pages_rep [of "mm_store (slot p i) v s" xs] by simp
  from r pl' l show "pages_rep (mm_store (slot p i) v s) xs" by (auto simp: pages_rep_def)
qed

lemma pages_inv_store:
  assumes "pages_inv s" "p \<in> live_pages s" "i < 1024"
  shows "pages_inv (mm_store (slot p i) v s)" "live_pages (mm_store (slot p i) v s) = live_pages s"
proof -
  from assms(1) obtain xs where "pages_rep s xs" by (auto simp: pages_inv_def)
  from pages_rep_store [OF this assms(2,3), of v] show "pages_inv (mm_store (slot p i) v s)"
    "live_pages (mm_store (slot p i) v s) = live_pages s" by (auto simp: pages_inv_def)
qed

subsection \<open>alloc\_page and free\_page\<close>

definition room :: "mm \<Rightarrow> bool" where
  "room s \<longleftrightarrow> page_free s \<noteq> 0 \<or> unat (page_end s) + 4096 \<le> mm_ram s"

text \<open>What a successful \<open>alloc_page\<close> does, as a relation between the states.\<close>

definition granted :: "mm \<Rightarrow> u32 \<Rightarrow> mm \<Rightarrow> bool" where
  "granted s p s' \<longleftrightarrow>
     pages_inv s' \<and> p \<notin> live_pages s \<and> live_pages s' = insert p (live_pages s) \<and> page_aligned p \<and>
     PAGE_START \<le> p \<and> mm_ram s' = mm_ram s \<and> (\<forall>j<1024. mm_load (slot p j) s' = 0) \<and>
     (\<forall>q j. page_aligned q \<longrightarrow> j < 1024 \<longrightarrow> q \<noteq> p \<longrightarrow> mm_load (slot q j) s' = mm_load (slot q j) s)"

lemma grantedI:
  assumes r: "pages_rep s xs" and p: "page_aligned p" "PAGE_START \<le> p" "p \<notin> live_pages s"
    and m: "mm_mem s' = zero_words p 1024 (mm_mem s)" "mm_ram s' = mm_ram s"
    and f: "page_aligned (page_end s')" "PAGE_START \<le> page_end s'" "unat (page_end s') \<le> mm_ram s"
    and n: "npages s' = npages s + 1"
    and l: "plinks s (page_free s') ys" "distinct ys" "set ys \<subseteq> managed s'" "p \<notin> set ys"
    and eq: "managed s' - set ys = insert p (live_pages s)"
  shows "granted s p s'"
proof -
  have other: "mm_load (slot q j) s' = (if p = q then 0 else mm_load (slot q j) s)"
    if "page_aligned q" "j < 1024" for q j
    using mm_load_zero_page [OF p(1) that, of s] m(1) by (simp add: mm_load_def)
  have "mm_load x s' = mm_load x s" if "x \<in> set ys" for x
  proof -
    from that l(3) have "page_aligned x" by (auto dest: managedD)
    with other [of x 0] that l(4) show ?thesis by auto
  qed
  then have pl: "plinks s' (page_free s') ys" using l(1) plinks_cong by metis
  from live_pages_rep [OF this] eq have live: "live_pages s' = insert p (live_pages s)" by simp
  have "card (live_pages s) \<le> 1048576"
    by (rule card_aligned) (auto dest: live_managed managedD)
  moreover have "unat (npages s) = card (live_pages s)" using r by (simp add: pages_rep_def)
  ultimately have "unat (npages s + 1) = card (live_pages s) + 1" by (simp add: unat_add_u32)
  with n p(3) live have "unat (npages s') = card (live_pages s')" by simp
  with r pl l f m(2) have "pages_rep s' ys" by (simp add: pages_rep_def)
  then show ?thesis using other p live m(2) by (auto simp: granted_def pages_inv_def)
qed

lemma managed_extend:
  assumes "page_aligned (page_end s)" "PAGE_START \<le> page_end s" "unat (page_end s) + 4096 < 2 ^ 32"
    and e: "page_end s' = page_end s + 4096"
  shows "managed s' = insert (page_end s) (managed s)"
proof -
  note n = page_aligned_next [OF assms(1,3)]
  have "q < page_end s + 4096 \<longleftrightarrow> q = page_end s \<or> q < page_end s" if "page_aligned q" for q
  proof -
    from that assms(1) have "unat q < unat (page_end s) + 4096 \<longleftrightarrow> unat q \<le> unat (page_end s)"
      using dvd_less_add_le [of 4096 "unat (page_end s)" "unat q"]
      by (cases "unat (page_end s) < unat q") (auto simp: page_aligned_def)
    then show ?thesis by (simp add: word_less_nat_alt n(1) word_unat_eq_iff le_less disj_commute)
  qed
  with assms(1,2) show ?thesis by (auto simp: managed_def e)
qed

lemma alloc_page_granted:
  assumes inv: "pages_inv s" and a: "alloc_page s = Some (p, s')"
  shows "granted s p s'"
proof -
  from inv obtain xs where r: "pages_rep s xs" by (auto simp: pages_inv_def)
  then have pl: "plinks s (page_free s) xs" and d: "distinct xs" "set xs \<subseteq> managed s"
    and pe: "page_aligned (page_end s)" "PAGE_START \<le> page_end s" "unat (page_end s) \<le> mm_ram s"
      "mm_ram s < 2 ^ 32" by (auto simp: pages_rep_def)
  note live = live_pages_rep [OF pl]
  show ?thesis
  proof (cases xs)
    case Nil
    with pl have z: "page_free s = 0" by simp
    with a have p: "p = page_end s" and s': "unat (page_end s) + 4096 \<le> mm_ram s"
      "s' = s\<lparr>npages := npages s + 1, page_end := page_end s + 4096,
        mm_mem := zero_words p 1024 (mm_mem s)\<rparr>"
      by (auto simp: alloc_page_def Let_def split: if_splits)
    have lt: "unat (page_end s) + 4096 < 2 ^ 32" using s'(1) pe(4) by simp
    note n = page_aligned_next [OF pe(1) lt]
    have m: "managed s' = insert p (managed s)"
      using managed_extend [OF pe(1,2) lt, of s'] s'(2) p by simp
    have "PAGE_START \<le> page_end s + 4096" using pe(2) n(1) by (simp add: word_le_nat_alt)
    then show ?thesis
      using grantedI [OF r, of p s' "[]"] pe n s' p z m live Nil
      by (simp add: managed_def)
  next
    case (Cons y ys)
    with pl have y: "page_free s = y" "y \<noteq> 0" "plinks s (mm_load y s) ys" by auto
    with a have p: "p = y" and s':
      "s' = s\<lparr>npages := npages s + 1, page_free := mm_load y s, mm_mem := zero_words p 1024 (mm_mem s)\<rparr>"
      by (auto simp: alloc_page_def Let_def mm_load_def split: if_splits)
    have m: "managed s' = managed s" using s' by (simp add: managed_def)
    have "p \<in> managed s" using d(2) Cons p by auto
    with grantedI [OF r, of p s' ys] m y p s' Cons d live pe managedD [of p s] show ?thesis by auto
  qed
qed

lemma alloc_page_room:
  assumes "pages_inv s" "room s"
  obtains p s' where "alloc_page s = Some (p, s')"
proof -
  from assms(1) obtain xs where r: "plinks s (page_free s) xs" "set xs \<subseteq> managed s"
    "unat (page_end s) \<le> mm_ram s" "page_aligned (page_end s)" by (auto simp: pages_inv_def pages_rep_def)
  have "unat (page_free s) + 4096 \<le> mm_ram s" if z: "page_free s \<noteq> 0"
  proof -
    from r z have "page_free s \<in> managed s" by (cases xs) auto
    from managedD [OF this] r(3,4) dvd_less_add_le [of 4096 "unat (page_free s)" "unat (page_end s)"]
    show ?thesis by (simp add: page_aligned_def word_less_nat_alt)
  qed
  with assms(2) that show thesis
    by (cases "page_free s = 0") (auto simp: alloc_page_def room_def Let_def)
qed

text \<open>Giving a page back: only its first word, now a link, changes.\<close>

definition returned :: "mm \<Rightarrow> u32 \<Rightarrow> mm \<Rightarrow> bool" where
  "returned s p s' \<longleftrightarrow>
     pages_inv s' \<and> live_pages s' = live_pages s - {p} \<and> mm_ram s' = mm_ram s \<and>
     (\<forall>q j. page_aligned q \<longrightarrow> j < 1024 \<longrightarrow> q \<noteq> p \<longrightarrow> mm_load (slot q j) s' = mm_load (slot q j) s)"

lemma free_page_returned:
  assumes inv: "pages_inv s" and p: "p \<in> live_pages s"
  obtains s' where "free_page p s = Some s'" "returned s p s'"
proof -
  from inv obtain xs where r: "pages_rep s xs" by (auto simp: pages_inv_def)
  then have pl: "plinks s (page_free s) xs" and d: "distinct xs" "set xs \<subseteq> managed s"
    and n: "unat (npages s) = card (live_pages s)" by (auto simp: pages_rep_def)
  note live = live_pages_rep [OF pl]
  have P: "page_aligned p" "p \<noteq> 0" "p \<notin> set xs" "p \<in> managed s"
    using p live by (auto dest: managedD)
  have "0 < card (live_pages s)" using p by (auto simp: card_gt_0_iff)
  with n have nz: "npages s \<noteq> 0" by auto
  from unat_minus_one [OF this] nz n have np: "0 < npages s" "unat (npages s - 1) = card (live_pages s) - 1"
    by (auto simp: word_gt_0)
  define s' where "s' = (mm_store p (page_free s) (s\<lparr>npages := npages s - 1\<rparr>))\<lparr>page_free := p\<rparr>"
  have f: "free_page p s = Some s'" using np by (simp add: free_page_def s'_def Let_def)
  have other: "mm_load (slot q j) s' = (if p = q \<and> j = 0 then page_free s else mm_load (slot q j) s)"
    if "page_aligned q" "j < 1024" for q j
    using mm_load_store_slot [OF P(1) that(1) _ that(2), of 0 "page_free s" s]
    by (simp add: s'_def mm_load_def mm_store_def)
  have "mm_load x s' = mm_load x s" if "x \<in> set xs" for x
    using other [of x 0] managedD(1) [of x s] that d(2) P(3) by (auto split: if_splits)
  then have "plinks s' (page_free s) xs" using pl plinks_cong by metis
  then have pl': "plinks s' (page_free s') (p # xs)"
    using other [of p 0] P by (simp add: s'_def)
  have m: "managed s' = managed s" by (simp add: s'_def mm_store_def managed_def)
  from live_pages_rep [OF pl'] live m have l': "live_pages s' = live_pages s - {p}" by auto
  have "pages_rep s' (p # xs)"
    using r pl' d P m l' np p by (simp add: pages_rep_def) (simp add: s'_def mm_store_def)
  with l' other have "returned s p s'" by (auto simp: returned_def pages_inv_def s'_def mm_store_def)
  with f show thesis by (rule that)
qed

lemma mm_init_inv:
  assumes "6291456 \<le> ram" "ram < 2 ^ 32"
  shows "pages_inv (mm_init mem ram)" "live_pages (mm_init mem ram) = {}"
proof -
  let ?s = "mm_init mem ram"
  have m: "managed ?s = {}" by (auto simp: mm_init_def managed_def)
  then show l: "live_pages ?s = {}" by (simp add: live_pages_def)
  have "page_aligned PAGE_START" by (simp add: page_aligned_mod)
  with m l assms have "pages_rep ?s []" by (simp add: pages_rep_def mm_init_def)
  then show "pages_inv ?s" by (auto simp: pages_inv_def)
qed

subsection \<open>The page allocator as an allocator\<close>

definition page_region :: "u32 \<Rightarrow> nat \<times> nat" where
  "page_region p = (unat p, 4096)"

definition alloc_page_nat :: "unit \<Rightarrow> mm \<Rightarrow> (nat \<times> mm) option" where
  "alloc_page_nat _ s = map_option (\<lambda>(p, s'). (unat p, s')) (alloc_page s)"

definition free_page_nat :: "nat \<Rightarrow> mm \<Rightarrow> mm option" where
  "free_page_nat p s = free_page (of_nat p) s"

definition page_regions :: "mm \<Rightarrow> (nat \<times> nat) set" where
  "page_regions s = page_region ` live_pages s"

lemma inj_page_region: "inj page_region"
  by (auto simp: inj_def page_region_def word_unat_eq_iff)

lemma pages_apart:
  assumes "page_aligned p" "page_aligned q" "p \<noteq> q"
  shows "apart (page_region p) (page_region q)"
proof -
  from assms have "unat p < unat q \<or> unat q < unat p" by (auto simp: word_unat_eq_iff)
  then show ?thesis
    using assms dvd_less_add_le [of 4096 "unat p" "unat q"] dvd_less_add_le [of 4096 "unat q" "unat p"]
    by (auto simp: page_aligned_def apart_def region_def page_region_def)
qed

interpretation pages: allocator pages_inv page_regions alloc_page_nat free_page_nat "\<lambda>_. 4096"
proof (unfold_locales, goal_cases)
  case (1 s n p s')
  then obtain a where a: "alloc_page s = Some (a, s')" "p = unat a" by (auto simp: alloc_page_nat_def)
  from alloc_page_granted [OF 1(1) a(1)] have g: "granted s a s'" .
  then have "apart (page_region a) (page_region q)" if "q \<in> live_pages s" for q
    using pages_apart [of a q] that by (auto simp: granted_def dest: live_managed managedD)
  with g a(2) show ?case
    by (intro exI [of _ 4096]) (auto simp: granted_def page_regions_def page_region_def)
next
  case (2 s p k)
  then obtain a where a: "a \<in> live_pages s" "p = unat a" "k = 4096"
    by (auto simp: page_regions_def page_region_def)
  from free_page_returned [OF 2(1) a(1)] obtain s' where
    f: "free_page a s = Some s'" "returned s a s'" by blast
  have "page_region ` (live_pages s - {a}) = page_region ` live_pages s - page_region ` {a}"
    by (rule image_set_diff [OF inj_page_region])
  with f a show ?case
    by (auto simp: free_page_nat_def returned_def page_regions_def page_region_def)
qed

end
