(* ===== verification/Page_Dirs.thy ===== *)
theory Page_Dirs
  imports Page_Correct
begin

text \<open>
  Page directories as finite maps. \<open>table_of\<close> reads a directory entry, \<open>pte\<close> the entry of a
  logical page, \<open>frames\<close> are the pages that hold the directory and its tables, and \<open>dir_ok\<close>
  says that these are handed out and not shared. \<open>map_page\<close> is then an update of the map, and it
  leaves every other directory alone.
\<close>

subsection \<open>Entries\<close>

definition flags_ok :: "u32 \<Rightarrow> bool" where
  "flags_ok f \<longleftrightarrow> f AND PAGE_ADDRESS_MASK = 0"

lemma flags_ok_consts [simp]:
  "flags_ok PAGE_USER" "flags_ok PAGE_SUPERVISOR" "flags_ok PAGE_READ_WRITE" "flags_ok PAGE_READ_ONLY"
  by (simp_all add: flags_ok_def)

lemma page_aligned_mask:
  assumes "page_aligned p"
  shows "p AND PAGE_ADDRESS_MASK = p"
proof -
  have m: "(0xFFFFF000 :: u32) = NOT (mask 12)" by (simp add: mask_eq_exp_minus_1)
  have "take_bit 12 p = 0"
    using assms by (simp add: page_aligned_mod take_bit_eq_mod)
  then have low: "\<not> bit p n" if "n < 12" for n using that by (metis bit_0_eq bit_take_bit_iff bot_apply bot_bool_def)
  have "bit (0xFFFFF000 :: u32) n \<longleftrightarrow> 12 \<le> n" if "n < 32" for n
    unfolding m using that by (simp add: bit_simps not_less)
  then show ?thesis by (intro bit_word_eqI) (auto simp: bit_and_iff not_less dest: low intro: leI)
qed

lemma masked_aligned: "page_aligned (e AND PAGE_ADDRESS_MASK)"
proof -
  have "(0xFFFFF000 :: u32) = NOT (mask 12)" by (simp add: mask_eq_exp_minus_1)
  then have "take_bit 12 (e AND 0xFFFFF000) = 0"
    by (simp only:) (rule bit_word_eqI, simp add: bit_simps)
  then show ?thesis by (simp add: page_aligned_mod take_bit_eq_mod)
qed

lemma entry_present [simp]: "present (p OR PAGE_PRESENT OR f)"
proof -
  have "bit ((p OR 1 OR f) AND 1) 0" by (simp add: bit_simps)
  then show ?thesis unfolding present_def PAGE_PRESENT_def by (cases "(p OR 1 OR f) AND 1 = 0") (simp_all only: bit_0_eq bot_apply simp_thms, auto)
qed

lemma entry_address:
  assumes "page_aligned p" "flags_ok f" "flags_ok g"
  shows "(p OR PAGE_PRESENT OR f OR g) AND PAGE_ADDRESS_MASK = p"
proof -
  have "(p OR 1 OR f OR g) AND PAGE_ADDRESS_MASK =
    (p AND PAGE_ADDRESS_MASK) OR (1 AND PAGE_ADDRESS_MASK) OR (f AND PAGE_ADDRESS_MASK) OR (g AND PAGE_ADDRESS_MASK)"
    by (simp only: bit.conj_disj_distrib2)
  then show ?thesis
    using page_aligned_mask [OF assms(1)] assms(2,3) by (simp add: flags_ok_def)
qed

lemma not_present_0 [simp]: "\<not> present 0"
  by (simp add: present_def)

subsection \<open>Indices\<close>

lemma dirindex_bound [simp]: "dirindex l < 1024"
proof -
  have "unat l div 4096 div 1024 < 1024"
    using unat_lt_u32 [of l] by (simp only: div_mult2_eq [symmetric]) (simp add: less_mult_imp_div_less)
  then show ?thesis by (simp add: dirindex_def word_less_nat_alt unat_div)
qed

lemma tblindex_bound [simp]: "tblindex l < 1024"
  by (simp add: tblindex_def word_less_nat_alt unat_mod)

lemma index_eq:
  assumes "page_aligned l" "page_aligned l'"
  shows "dirindex l = dirindex l' \<and> tblindex l = tblindex l' \<longleftrightarrow> l = l'"
proof
  assume "dirindex l = dirindex l' \<and> tblindex l = tblindex l'"
  then have "unat l div 4096 div 1024 = unat l' div 4096 div 1024"
    "unat l div 4096 mod 1024 = unat l' div 4096 mod 1024"
    by (auto simp: dirindex_def tblindex_def word_unat_eq_iff unat_div unat_mod)
  then have "unat l div 4096 = unat l' div 4096" by (metis div_mult_mod_eq)
  then have "unat l = unat l'"
    using assms unfolding page_aligned_def by (metis dvd_div_mult_self)
  then show "l = l'" by (simp add: word_unat_eq_iff)
qed simp

subsection \<open>Well-formed directories\<close>

definition table_of :: "mm \<Rightarrow> u32 \<Rightarrow> u32 \<Rightarrow> u32 option" where
  "table_of s pdir i =
     (let e = mm_load (slot pdir i) s in if present e then Some (e AND PAGE_ADDRESS_MASK) else None)"

definition frames :: "mm \<Rightarrow> u32 \<Rightarrow> u32 set" where
  "frames s pdir = insert pdir {t. \<exists>i<1024. table_of s pdir i = Some t}"

definition dir_ok :: "mm \<Rightarrow> u32 \<Rightarrow> bool" where
  "dir_ok s pdir \<longleftrightarrow>
     frames s pdir \<subseteq> live_pages s \<and> (\<forall>i<1024. table_of s pdir i \<noteq> Some pdir) \<and>
     (\<forall>i<1024. \<forall>j<1024. \<forall>t. table_of s pdir i = Some t \<longrightarrow> table_of s pdir j = Some t \<longrightarrow> i = j)"

definition pte :: "mm \<Rightarrow> u32 \<Rightarrow> u32 \<Rightarrow> u32 option" where
  "pte s pdir l =
     (case table_of s pdir (dirindex l) of
        None \<Rightarrow> None
      | Some t \<Rightarrow> (let e = mm_load (slot t (tblindex l)) s in if present e then Some e else None))"

lemma lookup_page_pte:
  assumes "page_aligned l"
  shows "lookup_page pdir l s = Some (map_option (\<lambda>e. e AND PAGE_ADDRESS_MASK) (pte s pdir l))"
  using assms by (simp add: lookup_page_def pte_def table_of_def Let_def page_aligned_mod)

lemma framesI: "i < 1024 \<Longrightarrow> table_of s pdir i = Some t \<Longrightarrow> t \<in> frames s pdir"
  by (auto simp: frames_def)

lemma pdir_frame [simp]: "pdir \<in> frames s pdir"
  by (simp add: frames_def)

lemma dir_okD:
  assumes "dir_ok s pdir"
  shows "frames s pdir \<subseteq> live_pages s" "pdir \<in> live_pages s" "page_aligned pdir"
    "i < 1024 \<Longrightarrow> table_of s pdir i = Some t \<Longrightarrow> t \<noteq> pdir \<and> t \<in> live_pages s \<and> page_aligned t"
    "i < 1024 \<Longrightarrow> j < 1024 \<Longrightarrow> table_of s pdir i = Some t \<Longrightarrow> table_of s pdir j = Some t \<Longrightarrow> i = j"
proof -
  show f: "frames s pdir \<subseteq> live_pages s" using assms by (simp add: dir_ok_def)
  then show p: "pdir \<in> live_pages s" using pdir_frame by blast
  then show "page_aligned pdir" by (auto dest: live_managed managedD)
  show "i < 1024 \<Longrightarrow> table_of s pdir i = Some t \<Longrightarrow> t \<noteq> pdir \<and> t \<in> live_pages s \<and> page_aligned t"
    using assms f framesI [of i s pdir t] by (auto simp: dir_ok_def dest: live_managed managedD)
  show "i < 1024 \<Longrightarrow> j < 1024 \<Longrightarrow> table_of s pdir i = Some t \<Longrightarrow> table_of s pdir j = Some t \<Longrightarrow> i = j"
    using assms unfolding dir_ok_def by blast
qed

lemma live_aligned: "p \<in> live_pages s \<Longrightarrow> page_aligned p"
  by (auto dest: live_managed managedD)

text \<open>
  Two states in which the words of all frames of a directory agree have the same directory.
\<close>

definition agree_on :: "u32 set \<Rightarrow> mm \<Rightarrow> mm \<Rightarrow> bool" where
  "agree_on F s s' \<longleftrightarrow> (\<forall>p\<in>F. \<forall>j<1024. mm_load (slot p j) s' = mm_load (slot p j) s)"

lemma agree_on_mono: "agree_on G s s' \<Longrightarrow> F \<subseteq> G \<Longrightarrow> agree_on F s s'"
  unfolding agree_on_def by blast

lemma agree_on_trans: "agree_on F s s1 \<Longrightarrow> agree_on F s1 s2 \<Longrightarrow> agree_on F s s2"
  by (simp add: agree_on_def)

lemma agree_dir:
  assumes a: "agree_on (frames s pdir) s s'"
  shows "i < 1024 \<Longrightarrow> table_of s' pdir i = table_of s pdir i" "frames s' pdir = frames s pdir"
    "pte s' pdir l = pte s pdir l"
proof -
  show t: "table_of s' pdir i = table_of s pdir i" if "i < 1024" for i
    using a that by (simp add: agree_on_def table_of_def Let_def)
  then show "frames s' pdir = frames s pdir" by (auto simp: frames_def)
  show "pte s' pdir l = pte s pdir l"
    using a framesI [OF dirindex_bound] by (auto simp: pte_def t agree_on_def split: option.splits)
qed

lemma agree_dir_ok:
  assumes "dir_ok s pdir" "agree_on (frames s pdir) s s'" "live_pages s \<subseteq> live_pages s'"
  shows "dir_ok s' pdir"
  using assms(1,3) agree_dir [OF assms(2)] by (auto simp: dir_ok_def)

subsection \<open>map\_page\<close>

text \<open>
  What changes for the rest of the machine: every page that was handed out keeps its words,
  except those of the directory that is being changed.
\<close>

definition dir_step :: "mm \<Rightarrow> u32 \<Rightarrow> mm \<Rightarrow> bool" where
  "dir_step s pdir s' \<longleftrightarrow>
     pages_inv s' \<and> dir_ok s' pdir \<and> mm_ram s' = mm_ram s \<and> live_pages s \<subseteq> live_pages s' \<and>
     frames s pdir \<subseteq> frames s' pdir \<and> live_pages s' - live_pages s = frames s' pdir - frames s pdir \<and>
     agree_on (live_pages s - frames s pdir) s s'"

lemma ensure_table_old:
  assumes "table_of s pdir (dirindex l) = Some t"
  shows "ensure_table pdir l s = Some s"
  using assms by (auto simp: ensure_table_def table_of_def Let_def split: if_splits)

lemma ensure_table_new:
  assumes inv: "pages_inv s" and ok: "dir_ok s pdir" and none: "table_of s pdir (dirindex l) = None"
    and e: "ensure_table pdir l s = Some s'"
  obtains t where "dir_step s pdir s'" "table_of s' pdir (dirindex l) = Some t" "\<And>k. pte s' pdir k = pte s pdir k"
proof -
  let ?d = "dirindex l"
  from none have "\<not> present (mm_load (slot pdir ?d) s)" by (auto simp: table_of_def Let_def split: if_splits)
  with e obtain t s1 where a: "alloc_page s = Some (t, s1)" and
    s': "s' = mm_store (slot pdir ?d) (t OR PAGE_PRESENT OR PAGE_USER OR PAGE_READ_WRITE) s1"
    by (auto simp: ensure_table_def)
  note D = dir_okD [OF ok]
  from alloc_page_granted [OF inv a] have g: "pages_inv s1" "t \<notin> live_pages s"
    "live_pages s1 = insert t (live_pages s)" "page_aligned t" "mm_ram s1 = mm_ram s"
    "\<And>j. j < 1024 \<Longrightarrow> mm_load (slot t j) s1 = 0"
    "\<And>q j. page_aligned q \<Longrightarrow> j < 1024 \<Longrightarrow> q \<noteq> t \<Longrightarrow> mm_load (slot q j) s1 = mm_load (slot q j) s"
    by (auto simp: granted_def)
  have load: "mm_load (slot q j) s' = (if pdir = q \<and> ?d = j then t OR PAGE_PRESENT OR PAGE_USER OR PAGE_READ_WRITE
      else if q = t then 0 else mm_load (slot q j) s)" if "page_aligned q" "j < 1024" for q j
    unfolding s' using mm_load_store_slot [OF D(3) that(1) dirindex_bound that(2)] g that by simp
  have pt: "pdir \<noteq> t" using D(2) g(2) by blast
  have tab: "table_of s' pdir i = (if i = ?d then Some t else table_of s pdir i)" if "i < 1024" for i
    using load [OF D(3) that] pt entry_address [OF g(4) flags_ok_consts(1,3), simplified]
      entry_present [of t "PAGE_USER OR PAGE_READ_WRITE", simplified]
    by (auto simp: table_of_def Let_def)
  have fr: "frames s' pdir = insert t (frames s pdir)"
  proof -
    have "{u. \<exists>i<1024. table_of s' pdir i = Some u} = insert t {u. \<exists>i<1024. table_of s pdir i = Some u}"
      using tab none dirindex_bound [of l]
      by (auto split: if_splits) (metis dirindex_bound, metis option.distinct(1))
    then show ?thesis by (auto simp: frames_def)
  qed
  have st: "pages_inv s'" "live_pages s' = insert t (live_pages s)"
    unfolding s' using pages_inv_store [OF g(1), of pdir ?d] D(2) g(3) by auto
  have "t \<notin> frames s pdir" using D(1) g(2) by blast
  have ok': "dir_ok s' pdir"
    unfolding dir_ok_def fr using D pt tab st(2) \<open>t \<notin> frames s pdir\<close> framesI [of _ s pdir]
    by (auto simp: tab split: if_splits)
  have pte: "pte s' pdir k = pte s pdir k" for k
  proof (cases "dirindex k = ?d")
    case True
    with load [OF g(4) tblindex_bound, of k] pt none show ?thesis by (simp add: pte_def tab)
  next
    case False
    then show ?thesis
      using load [OF _ tblindex_bound, of _ k] D(4) [OF dirindex_bound, of k] g(2)
      by (auto simp: pte_def tab split: option.splits)
  qed
  have "agree_on (live_pages s - frames s pdir) s s'"
    using load g(2) by (auto simp: agree_on_def live_aligned)
  then have "dir_step s pdir s'"
    using ok' fr st g(3,5) D(1) \<open>t \<notin> frames s pdir\<close> g(2) by (auto simp: dir_step_def s')
  then show thesis using that [of t] tab [of ?d] pte by simp
qed

lemma set_pte:
  assumes inv: "pages_inv s" and ok: "dir_ok s pdir" and t: "table_of s pdir (dirindex l) = Some t"
    and l: "page_aligned l" and s': "s' = mm_store (slot t (tblindex l)) v s"
  shows "dir_step s pdir s'"
    and "page_aligned k \<Longrightarrow> pte s' pdir k = (if k = l then if present v then Some v else None else pte s pdir k)"
    and "frames s' pdir = frames s pdir"
proof -
  note D = dir_okD [OF ok]
  note T = D(4) [OF dirindex_bound t]
  have load: "mm_load (slot q j) s' = (if t = q \<and> tblindex l = j then v else mm_load (slot q j) s)"
    if "page_aligned q" "j < 1024" for q j
    unfolding s' using mm_load_store_slot [OF _ that(1) tblindex_bound that(2)] T by simp
  have tab: "table_of s' pdir i = table_of s pdir i" if "i < 1024" for i
    using load [OF D(3) that] T by (simp add: table_of_def)
  then show fr: "frames s' pdir = frames s pdir" by (auto simp: frames_def)
  have st: "pages_inv s'" "live_pages s' = live_pages s"
    unfolding s' using pages_inv_store [OF inv, of t "tblindex l"] T by auto
  have "dir_ok s' pdir" using ok by (auto simp: dir_ok_def fr st(2) tab)
  moreover have "agree_on (live_pages s - frames s pdir) s s'"
    using load framesI [OF dirindex_bound t] by (auto simp: agree_on_def live_aligned)
  ultimately show "dir_step s pdir s'" using st fr by (auto simp: dir_step_def s')
  show "pte s' pdir k = (if k = l then if present v then Some v else None else pte s pdir k)"
    if k: "page_aligned k"
  proof (cases "table_of s pdir (dirindex k)")
    case None
    with t show ?thesis by (auto simp: pte_def tab)
  next
    case (Some u)
    from D(4) [OF dirindex_bound Some] have u: "page_aligned u" by simp
    have "t = u \<and> tblindex l = tblindex k \<longleftrightarrow> k = l"
      using D(5) [OF dirindex_bound dirindex_bound t, of k] Some t index_eq [OF l k] by auto
    with Some load [OF u tblindex_bound, of k] show ?thesis by (simp add: pte_def tab)
  qed
qed

lemma dir_step_trans:
  assumes "dir_step s pdir s1" "dir_step s1 pdir s2"
  shows "dir_step s pdir s2"
proof -
  from assms have f: "frames s pdir \<subseteq> frames s1 pdir" "live_pages s1 - live_pages s = frames s1 pdir - frames s pdir"
    "live_pages s \<subseteq> live_pages s1" by (auto simp: dir_step_def)
  then have "live_pages s - frames s pdir \<subseteq> live_pages s1 - frames s1 pdir" by blast
  moreover from assms have "agree_on (live_pages s - frames s pdir) s s1"
    "agree_on (live_pages s1 - frames s1 pdir) s1 s2" by (auto simp: dir_step_def)
  ultimately have "agree_on (live_pages s - frames s pdir) s s2" by (blast intro: agree_on_trans agree_on_mono)
  moreover from assms have g: "live_pages s1 \<subseteq> live_pages s2" "frames s1 pdir \<subseteq> frames s2 pdir"
    "live_pages s2 - live_pages s1 = frames s2 pdir - frames s1 pdir" by (auto simp: dir_step_def)
  have "live_pages s2 - live_pages s = (live_pages s2 - live_pages s1) \<union> (live_pages s1 - live_pages s)"
    using f(3) g(1) by blast
  moreover have "frames s2 pdir - frames s pdir = (frames s2 pdir - frames s1 pdir) \<union> (frames s1 pdir - frames s pdir)"
    using f(1) g(2) by blast
  ultimately show ?thesis
    using assms f g subset_trans [OF f(3) g(1)] subset_trans [OF f(1) g(2)] by (simp add: dir_step_def)
qed

lemma dir_step_refl: "pages_inv s \<Longrightarrow> dir_ok s pdir \<Longrightarrow> dir_step s pdir s"
  by (auto simp: dir_step_def agree_on_def)

lemma ensure_table_step:
  assumes inv: "pages_inv s" and ok: "dir_ok s pdir" and e: "ensure_table pdir l s = Some s'"
  obtains t where "dir_step s pdir s'" "table_of s' pdir (dirindex l) = Some t" "\<And>k. pte s' pdir k = pte s pdir k"
proof (cases "table_of s pdir (dirindex l)")
  case None
  from ensure_table_new [OF inv ok None e] that show thesis by blast
next
  case (Some t)
  with ensure_table_old [OF Some] e that dir_step_refl [OF inv ok] show thesis by simp
qed

lemma map_page_step:
  assumes inv: "pages_inv s" and ok: "dir_ok s pdir" and al: "page_aligned l" "page_aligned p"
    and m: "map_page pdir l p access rw s = Some s'"
  shows "dir_step s pdir s'"
    and "page_aligned k \<Longrightarrow>
      pte s' pdir k = (if k = l then Some (p OR PAGE_PRESENT OR access OR rw) else pte s pdir k)"
proof -
  from m obtain s1 where e: "ensure_table pdir l s = Some s1" and
    s': "s' = mm_store (slot (mm_load (slot pdir (dirindex l)) s1 AND PAGE_ADDRESS_MASK) (tblindex l))
      (p OR PAGE_PRESENT OR access OR rw) s1"
    by (auto simp: map_page_def Let_def bind_eq_Some_conv split: if_splits)
  from ensure_table_step [OF inv ok e] obtain t where
    t: "dir_step s pdir s1" "table_of s1 pdir (dirindex l) = Some t" "\<And>k. pte s1 pdir k = pte s pdir k" by blast
  from t(1) have ok1: "pages_inv s1" "dir_ok s1 pdir" by (auto simp: dir_step_def)
  from t(2) s' have s': "s' = mm_store (slot t (tblindex l)) (p OR PAGE_PRESENT OR access OR rw) s1"
    by (auto simp: table_of_def Let_def split: if_splits)
  note S = set_pte [OF ok1 t(2) al(1) s']
  show "dir_step s pdir s'" by (rule dir_step_trans [OF t(1) S(1)])
  show "page_aligned k \<Longrightarrow>
      pte s' pdir k = (if k = l then Some (p OR PAGE_PRESENT OR access OR rw) else pte s pdir k)"
    using S(2) [of k] t(3) entry_present by presburger
qed

text \<open>Other directories keep their entries, stay well formed and stay apart.\<close>

lemma dir_step_other:
  assumes st: "dir_step s pdir s'" and ok: "dir_ok s other" and dj: "frames s pdir \<inter> frames s other = {}"
  shows "dir_ok s' other" "pte s' other l = pte s other l" "frames s' pdir \<inter> frames s' other = {}"
    "frames s' other = frames s other"
proof -
  note D = dir_okD [OF ok]
  have "frames s other \<subseteq> live_pages s - frames s pdir" using D(1) dj by blast
  then have a: "agree_on (frames s other) s s'"
    using st unfolding dir_step_def agree_on_def by blast
  show "dir_ok s' other" using agree_dir_ok [OF ok a] st by (simp add: dir_step_def)
  show "pte s' other l = pte s other l" "frames s' other = frames s other" using agree_dir [OF a] by auto
  then show "frames s' pdir \<inter> frames s' other = {}"
    using st D(1) dj unfolding dir_step_def by blast
qed

subsection \<open>When there is memory left\<close>

definition ram_pages :: "mm \<Rightarrow> nat" where
  "ram_pages s = (mm_ram s - unat PAGE_START) div 4096"

lemma card_managed:
  assumes "page_aligned (page_end s)" "PAGE_START \<le> page_end s"
  shows "card (managed s) = (unat (page_end s) - unat PAGE_START) div 4096"
proof -
  let ?n = "(unat (page_end s) - unat PAGE_START) div 4096"
  have st: "unat PAGE_START = 4096 * 1536" by simp
  obtain e where e: "unat (page_end s) = 4096 * e" using assms(1) by (auto simp: page_aligned_def dvd_def)
  have le: "unat PAGE_START \<le> unat (page_end s)" using assms(2) by (simp only: word_le_nat_alt)
  have n: "?n = e - 1536" "1536 \<le> e" using e le by (simp_all add: st diff_mult_distrib2 [symmetric])
  have "bij_betw (\<lambda>p. unat p div 4096) (managed s) {1536..<e}"
  proof (rule bij_betw_imageI)
    show "inj_on (\<lambda>p. unat p div 4096) (managed s)"
    proof (rule inj_onI)
      fix x y assume "x \<in> managed s" "y \<in> managed s" "unat x div 4096 = unat y div 4096"
      then have "unat x = unat y" using managedD(1) unfolding page_aligned_def by (metis dvd_div_mult_self)
      then show "x = y" by (simp add: word_unat_eq_iff)
    qed
    have "\<exists>p\<in>managed s. unat p div 4096 = i" if i: "1536 \<le> i" "i < e" for i
    proof
      have "4096 * i < 4294967296" using i e unat_lt_u32 [of "page_end s"] by linarith
      then have u: "unat (of_nat (4096 * i) :: u32) = 4096 * i" by (rule unat_of_nat_u32)
      show "of_nat (4096 * i) \<in> managed s"
        using i e unfolding managed_def mem_Collect_eq page_aligned_def word_le_nat_alt word_less_nat_alt u st by simp
      show "unat (of_nat (4096 * i) :: u32) div 4096 = i" unfolding u by simp
    qed
    moreover have "unat p div 4096 \<in> {1536..<e}" if "p \<in> managed s" for p
    proof -
      from managedD [OF that] have "4096 * 1536 \<le> unat p" "unat p < 4096 * e"
        by (simp_all add: word_le_nat_alt word_less_nat_alt e)
      then show ?thesis by (simp add: less_eq_div_iff_mult_less_eq less_mult_imp_div_less mult.commute)
    qed
    ultimately show "(\<lambda>p. unat p div 4096) ` managed s = {1536..<e}" by force
  qed
  from bij_betw_same_card [OF this] n show ?thesis by simp
qed

lemma room_if:
  assumes inv: "pages_inv s" and lt: "card (live_pages s) < ram_pages s"
  shows "room s"
proof (rule ccontr)
  assume "\<not> room s"
  then have z: "page_free s = 0" and full: "mm_ram s < unat (page_end s) + 4096" by (auto simp: room_def)
  from inv obtain xs where r: "pages_rep s xs" by (auto simp: pages_inv_def)
  then have "xs = []" using z by (cases xs) (auto simp: pages_rep_def)
  with r have live: "live_pages s = managed s" and e: "page_aligned (page_end s)" "PAGE_START \<le> page_end s"
    using live_pages_rep [of s xs] by (auto simp: pages_rep_def)
  obtain k where k: "unat (page_end s) = 4096 * k" using e(1) by (auto simp: page_aligned_def dvd_def)
  have "1536 \<le> k" using e(2) k by (simp add: word_le_nat_alt)
  with full k have "(mm_ram s - 4096 * 1536) div 4096 < Suc (k - 1536)"
    by (intro less_mult_imp_div_less) simp
  with lt live card_managed [OF e] k show False
    by (simp add: ram_pages_def diff_mult_distrib2 [symmetric])
qed

end
