(* ===== verification/Page_Props.thy ===== *)
theory Page_Props
  imports Page_Dirs
begin

text \<open>
  The properties of paging: what \<open>map_page\<close>, \<open>map_new_pages\<close>, \<open>unmap_and_free_page\<close>,
  \<open>identity_map\<close> and \<open>free_page_dir\<close> do to the lookups of every page directory, and the
  safety of the page allocator over any history.
\<close>

lemma new_dir:
  assumes "granted s p s'"
  shows "dir_ok s' p" "frames s' p = {p}" "pte s' p l = None"
proof -
  have "table_of s' p i = None" if "i < 1024" for i
    using assms that by (simp add: granted_def table_of_def)
  then show "frames s' p = {p}" "dir_ok s' p" "pte s' p l = None"
    using assms by (auto simp: frames_def dir_ok_def granted_def pte_def)
qed

text \<open>A machine with 16 MB and one empty page directory, for the witnesses.\<close>

lemma small_machine:
  obtains pdir s where "pages_inv s" "dir_ok s pdir" "room s" "live_pages s = {pdir}" "frames s pdir = {pdir}"
    "ram_pages s = 2560" "\<And>l. pte s pdir l = None"
proof -
  let ?s = "mm_init (\<lambda>_. 0) 16777216"
  have i: "pages_inv ?s" "live_pages ?s = {}" using mm_init_inv [of 16777216 "\<lambda>_. 0"] by simp_all
  have "ram_pages ?s = 2560" by (simp add: ram_pages_def mm_init_def)
  then have "room ?s" using room_if [OF i(1)] i(2) by simp
  with i(1) obtain p s where a: "alloc_page ?s = Some (p, s)" by (rule alloc_page_room)
  note g = alloc_page_granted [OF i(1) a]
  then have s: "pages_inv s" "live_pages s = {p}" "mm_ram s = 16777216"
    using i(2) by (auto simp: granted_def mm_init_def)
  then have "ram_pages s = 2560" by (simp add: ram_pages_def)
  with room_if [OF s(1)] s new_dir [OF g] show thesis by (intro that [of s p]) auto
qed

subsection \<open>Mapping one page\<close>

lemma map_page_returns:
  assumes inv: "pages_inv s" and mem: "room s" and al: "page_aligned l" "page_aligned p"
  obtains s' where "map_page pdir l p access rw s = Some s'"
proof -
  obtain q s1 where "alloc_page s = Some (q, s1)" using inv mem by (rule alloc_page_room)
  then obtain s2 where "ensure_table pdir l s = Some s2"
    by (cases "present (mm_load (slot pdir (dirindex l)) s)") (auto simp: ensure_table_def)
  with al that show thesis by (auto simp: map_page_def page_aligned_mod Let_def)
qed

text \<open>
  C4: \<open>map_page\<close> with memory left returns; afterwards \<open>lookup_page\<close> finds the physical page at the
  logical address, every other logical page of this directory is mapped as before, and the
  allocator and the directory stay well formed.
\<close>

theorem map_page_correct:
  assumes "pages_inv s" and "dir_ok s pdir" and "room s"
    and "page_aligned logical" and "page_aligned physical" and "flags_ok access" and "flags_ok readwrite"
  shows "\<exists>s'. map_page pdir logical physical access readwrite s = Some s' \<and> pages_inv s' \<and> dir_ok s' pdir \<and>
    lookup_page pdir logical s' = Some (Some physical) \<and>
    (\<forall>l. page_aligned l \<and> l \<noteq> logical \<longrightarrow> lookup_page pdir l s' = lookup_page pdir l s)"
proof -
  obtain s' where m: "map_page pdir logical physical access readwrite s = Some s'"
    using assms(1,3,4,5) by (rule map_page_returns)
  note S = map_page_step [OF assms(1,2,4,5) m]
  have "lookup_page pdir logical s' = Some (Some physical)"
    using S(2) [OF assms(4)] entry_address [OF assms(5,6,7)]
    by (simp only: lookup_page_pte [OF assms(4)] if_True option.map simp_thms)
  moreover have "lookup_page pdir l s' = lookup_page pdir l s" if "page_aligned l" "l \<noteq> logical" for l
    using S(2) [OF that(1)] that by (simp add: lookup_page_pte)
  ultimately show ?thesis using m S(1) by (auto simp: dir_step_def)
qed

theorem map_page_correct_witness:
  "\<exists>s pdir s'. map_page pdir 0x40000000 0x700000 PAGE_USER PAGE_READ_WRITE s = Some s' \<and>
     lookup_page pdir 0x40000000 s' = Some (Some 0x700000)"
proof -
  obtain pdir s where s: "pages_inv s" "dir_ok s pdir" "room s" by (rule small_machine)
  have "page_aligned 0x40000000" "page_aligned 0x700000" by (simp_all add: page_aligned_mod)
  from map_page_correct [OF s this flags_ok_consts(1,3)] show ?thesis by blast
qed

text \<open>
  isolation of address spaces. Mapping a page in one directory changes no lookup in another
  directory that shares no table with it, whatever is mapped where, and the two still share no table.
\<close>

theorem map_page_isolation:
  assumes "pages_inv s" and "dir_ok s pdir" and "dir_ok s other" and "frames s pdir \<inter> frames s other = {}"
    and "page_aligned logical" and "page_aligned physical"
    and "map_page pdir logical physical access readwrite s = Some s'"
  shows "dir_ok s' other \<and> frames s' pdir \<inter> frames s' other = {} \<and>
    (\<forall>l. page_aligned l \<longrightarrow> lookup_page other l s' = lookup_page other l s)"
  using dir_step_other [OF map_page_step(1) [OF assms(1,2,5,6,7)] assms(3,4)]
  by (simp add: lookup_page_pte)

subsection \<open>Extending an address space\<close>

text \<open>
  What all operations that add to a directory have in common: pages are only taken from the
  allocator, new tables are new pages, and pages that belong to somebody else keep their words.
\<close>

definition dir_ext :: "mm \<Rightarrow> u32 \<Rightarrow> mm \<Rightarrow> bool" where
  "dir_ext s pdir s' \<longleftrightarrow>
     pages_inv s' \<and> dir_ok s' pdir \<and> mm_ram s' = mm_ram s \<and> live_pages s \<subseteq> live_pages s' \<and>
     frames s pdir \<subseteq> frames s' pdir \<and> frames s' pdir \<inter> live_pages s \<subseteq> frames s pdir \<and>
     agree_on (live_pages s - frames s pdir) s s'"

lemma dir_step_ext: "dir_step s pdir s' \<Longrightarrow> dir_ext s pdir s'"
  unfolding dir_step_def dir_ext_def by blast

lemma dir_ext_refl: "pages_inv s \<Longrightarrow> dir_ok s pdir \<Longrightarrow> dir_ext s pdir s"
  by (auto simp: dir_ext_def agree_on_def)

lemma dir_ext_trans:
  assumes "dir_ext s pdir s1" "dir_ext s1 pdir s2"
  shows "dir_ext s pdir s2"
proof -
  note a = assms [unfolded dir_ext_def]
  have sub: "live_pages s - frames s pdir \<subseteq> live_pages s1 - frames s1 pdir" using a by blast
  have "agree_on (live_pages s - frames s pdir) s s2"
    using a agree_on_mono [OF _ sub] agree_on_trans by blast
  moreover have "live_pages s \<subseteq> live_pages s2" "frames s pdir \<subseteq> frames s2 pdir" using a by blast+
  moreover have "frames s2 pdir \<inter> live_pages s \<subseteq> frames s pdir" using a by blast
  ultimately show ?thesis using a unfolding dir_ext_def by simp
qed

lemma dir_ext_keeps:
  assumes "dir_ext s pdir s'" "p \<in> live_pages s" "p \<notin> frames s pdir"
  shows "p \<in> live_pages s'" "p \<notin> frames s' pdir" "j < 1024 \<Longrightarrow> mm_load (slot p j) s' = mm_load (slot p j) s"
  using assms unfolding dir_ext_def agree_on_def by blast+

lemma granted_ext:
  assumes g: "granted s p s'" and ok: "dir_ok s pdir"
  shows "dir_ext s pdir s'" "frames s' pdir = frames s pdir" "pte s' pdir l = pte s pdir l"
proof -
  note D = dir_okD [OF ok]
  have all: "agree_on (live_pages s) s s'"
    using g unfolding granted_def agree_on_def by (metis live_aligned)
  then have a: "agree_on (frames s pdir) s s'" using D(1) by (auto simp: agree_on_def)
  show f: "frames s' pdir = frames s pdir" "pte s' pdir l = pte s pdir l" using agree_dir [OF a] by auto
  have "live_pages s \<subseteq> live_pages s'" using g by (auto simp: granted_def)
  from agree_dir_ok [OF ok a this] this f all g show "dir_ext s pdir s'"
    by (auto simp: dir_ext_def granted_def agree_on_def)
qed

lemma dir_ext_other:
  assumes st: "dir_ext s pdir s'" and ok: "dir_ok s other" and dj: "frames s pdir \<inter> frames s other = {}"
  shows "dir_ok s' other" "pte s' other l = pte s other l" "frames s' pdir \<inter> frames s' other = {}"
proof -
  note D = dir_okD [OF ok]
  have "frames s other \<subseteq> live_pages s - frames s pdir" using D(1) dj by blast
  then have a: "agree_on (frames s other) s s'"
    using st unfolding dir_ext_def agree_on_def by blast
  show "dir_ok s' other" using agree_dir_ok [OF ok a] st by (simp add: dir_ext_def)
  show "pte s' other l = pte s other l" using agree_dir [OF a] by auto
  show "frames s' pdir \<inter> frames s' other = {}"
    using st D(1) dj agree_dir(2) [OF a] unfolding dir_ext_def by blast
qed

theorem map_page_isolation_witness:
  "\<exists>s pdir other s'. frames s pdir \<inter> frames s other = {} \<and>
     map_page pdir 0x40000000 0x700000 PAGE_USER PAGE_READ_WRITE s = Some s' \<and> dir_ok s' other \<and>
     lookup_page other 0x40000000 s' = lookup_page other 0x40000000 s"
proof -
  obtain other s where s: "pages_inv s" "dir_ok s other" "room s" "live_pages s = {other}"
    "frames s other = {other}" "ram_pages s = 2560" by (rule small_machine)
  obtain pdir s1 where a: "alloc_page s = Some (pdir, s1)" using s(1,3) by (rule alloc_page_room)
  note g = alloc_page_granted [OF s(1) a]
  note n = new_dir [OF g] and e = granted_ext [OF g s(2)]
  have live: "live_pages s1 = {pdir, other}" "pdir \<noteq> other" "mm_ram s1 = mm_ram s"
    using g s(4) by (auto simp: granted_def)
  have r: "pages_inv s1" "dir_ok s1 other" "room s1"
    using e(1) room_if [of s1] live s(6) by (auto simp: dir_ext_def ram_pages_def)
  have dj: "frames s1 pdir \<inter> frames s1 other = {}" using n(2) e(2) s(5) live(2) by simp
  have al: "page_aligned 0x40000000" "page_aligned 0x700000" by (simp_all add: page_aligned_mod)
  obtain s' where "map_page pdir 0x40000000 0x700000 PAGE_USER PAGE_READ_WRITE s1 = Some s'"
    using r(1,3) al by (rule map_page_returns)
  with map_page_isolation [OF r(1) n(1) r(2) dj al this] dj al show ?thesis by blast
qed

lemma ensure_table_live:
  assumes "pages_inv s" "dir_ok s pdir" "ensure_table pdir l s = Some s'"
  shows "card (live_pages s') \<le> Suc (card (live_pages s))"
proof (cases "present (mm_load (slot pdir (dirindex l)) s)")
  case True
  with assms(3) show ?thesis by (simp add: ensure_table_def)
next
  case False
  with assms(3) obtain t s1 v where a: "alloc_page s = Some (t, s1)" "s' = mm_store (slot pdir (dirindex l)) v s1"
    by (auto simp: ensure_table_def)
  have g: "granted s t s1" by (rule alloc_page_granted [OF assms(1) a(1)])
  then have "pages_inv s1" "pdir \<in> live_pages s1" "live_pages s1 = insert t (live_pages s)"
    using dir_okD(2) [OF assms(2)] by (auto simp: granted_def)
  then show ?thesis using pages_inv_store(2) [of s1 pdir "dirindex l" v] a(2) by (simp add: card_insert_if)
qed

lemma map_page_live:
  assumes inv: "pages_inv s" and ok: "dir_ok s pdir" and m: "map_page pdir l p access rw s = Some s'"
  shows "card (live_pages s') \<le> Suc (card (live_pages s))"
proof -
  from m obtain s1 v where e: "ensure_table pdir l s = Some s1" and
    s': "s' = mm_store (slot (mm_load (slot pdir (dirindex l)) s1 AND PAGE_ADDRESS_MASK) (tblindex l)) v s1"
    by (auto simp: map_page_def Let_def bind_eq_Some_conv split: if_splits)
  from ensure_table_step [OF inv ok e] obtain t where
    t: "dir_step s pdir s1" "table_of s1 pdir (dirindex l) = Some t" by blast
  have "t \<in> live_pages s1" "pages_inv s1"
    using t(1) dir_okD(4) [OF _ dirindex_bound t(2)] by (auto simp: dir_step_def)
  moreover have "s' = mm_store (slot t (tblindex l)) v s1"
    using t(2) s' by (auto simp: table_of_def Let_def split: if_splits)
  ultimately have "live_pages s' = live_pages s1"
    using pages_inv_store(2) [OF _ _ tblindex_bound] by simp
  with ensure_table_live [OF inv ok e] show ?thesis by simp
qed

text \<open>The logical pages from \<open>l\<close> on, \<open>n\<close> of them.\<close>

definition lpage :: "u32 \<Rightarrow> nat \<Rightarrow> u32" where
  "lpage l i = l + of_nat (4096 * i)"

definition in_range :: "u32 \<Rightarrow> nat \<Rightarrow> u32 \<Rightarrow> bool" where
  "in_range l n k \<longleftrightarrow> unat l \<le> unat k \<and> unat k < unat l + 4096 * n"

lemma lpage_0 [simp]: "lpage l 0 = l"
  by (simp add: lpage_def)

lemma lpage_Suc: "lpage l (Suc i) = lpage (l + PAGE_SIZE) i"
  by (simp add: lpage_def algebra_simps)

lemma page_aligned_succ: "page_aligned l \<Longrightarrow> page_aligned (l + 4096)"
proof (cases "unat l + 4096 < 2 ^ 32")
  case True
  then show "page_aligned l \<Longrightarrow> page_aligned (l + 4096)" by (rule page_aligned_next(2) [rotated])
next
  case False
  assume al: "page_aligned l"
  have "unat l = 4294963200" using page_aligned_bound [OF al] False by simp
  then have "l = 4294963200" by (simp add: word_unat_eq_iff)
  then show "page_aligned (l + 4096)" by (simp add: page_aligned_mod)
qed

lemma in_range_Suc:
  assumes "page_aligned l" "unat l + 4096 * Suc n \<le> 2 ^ 32" "page_aligned k"
  shows "in_range l (Suc n) k \<longleftrightarrow> k = l \<or> in_range (l + 4096) n k" "\<not> in_range (l + 4096) n l"
    "unat (l + 4096) + 4096 * n \<le> 2 ^ 32 \<or> n = 0"
proof -
  have one: "unat l \<le> unat k \<and> unat k < unat l + 4096 \<longleftrightarrow> k = l"
    using dvd_less_add_le [of 4096 "unat l" "unat k"] assms(1,3)
    by (cases "unat l < unat k") (auto simp: page_aligned_def word_unat_eq_iff)
  have u: "n = 0 \<or> unat (l + 4096) = unat l + 4096"
    using page_aligned_next(1) [OF assms(1)] assms(2) by (cases n) auto
  show "in_range l (Suc n) k \<longleftrightarrow> k = l \<or> in_range (l + 4096) n k"
    using u one by (auto simp: in_range_def)
  show "\<not> in_range (l + 4096) n l" using u by (auto simp: in_range_def)
  show "unat (l + 4096) + 4096 * n \<le> 2 ^ 32 \<or> n = 0" using u assms(2) by auto
qed

text \<open>One iteration: a fresh zeroed page is mapped at \<open>l\<close>.\<close>

lemma new_page_step:
  assumes inv: "pages_inv s" and ok: "dir_ok s pdir" and l: "page_aligned l"
    and a: "alloc_page s = Some (p, s1)" and m: "map_page pdir l p PAGE_USER PAGE_READ_WRITE s1 = Some s2"
  shows "dir_ext s pdir s2" "p \<in> live_pages s2" "p \<notin> live_pages s" "p \<notin> frames s2 pdir"
    "j < 1024 \<Longrightarrow> mm_load (slot p j) s2 = 0"
    "page_aligned k \<Longrightarrow> pte s2 pdir k = (if k = l then Some (p OR 7) else pte s pdir k)"
    "card (live_pages s2) \<le> card (live_pages s) + 2"
proof -
  have g: "granted s p s1" by (rule alloc_page_granted [OF inv a])
  note e1 = granted_ext [OF g ok]
  have s1: "pages_inv s1" "dir_ok s1 pdir" "page_aligned p" "p \<in> live_pages s1"
    using e1(1) g by (auto simp: dir_ext_def granted_def)
  show pl: "p \<notin> live_pages s" using g by (simp add: granted_def)
  have pf: "p \<notin> frames s1 pdir" using e1(2) pl dir_okD(1) [OF ok] by auto
  note M = map_page_step [OF s1(1,2) l s1(3) m]
  have e2: "dir_ext s1 pdir s2" by (rule dir_step_ext [OF M(1)])
  note K = dir_ext_keeps [OF e2 s1(4) pf]
  show "dir_ext s pdir s2" by (rule dir_ext_trans [OF e1(1) e2])
  show "p \<in> live_pages s2" "p \<notin> frames s2 pdir" by (rule K)+
  show "j < 1024 \<Longrightarrow> mm_load (slot p j) s2 = 0" using K(3) [of j] g by (simp add: granted_def)
  show "page_aligned k \<Longrightarrow> pte s2 pdir k = (if k = l then Some (p OR 7) else pte s pdir k)"
    using M(2) [of k] e1(3) by simp
  have "card (live_pages s1) = Suc (card (live_pages s))" using g by (simp add: granted_def)
  with map_page_live [OF s1(1,2) m] show "card (live_pages s2) \<le> card (live_pages s) + 2" by simp
qed

definition fresh_pages :: "mm \<Rightarrow> u32 \<Rightarrow> u32 \<Rightarrow> nat \<Rightarrow> u32 list \<Rightarrow> mm \<Rightarrow> bool" where
  "fresh_pages s pdir l n ps s' \<longleftrightarrow>
     length ps = n \<and> distinct ps \<and> set ps \<subseteq> live_pages s' - live_pages s \<and> set ps \<inter> frames s' pdir = {} \<and>
     (\<forall>i<n. pte s' pdir (lpage l i) = Some (ps ! i OR 7) \<and> (\<forall>j<1024. mm_load (slot (ps ! i) j) s' = 0))"

lemma map_new_pages_loop_spec:
  assumes "pages_inv s" "dir_ok s pdir" "page_aligned l" "unat l + 4096 * n \<le> 2 ^ 32"
    and "map_new_pages_loop pdir l n s = Some s'"
  shows "dir_ext s pdir s' \<and> (\<forall>k. page_aligned k \<longrightarrow> \<not> in_range l n k \<longrightarrow> pte s' pdir k = pte s pdir k) \<and>
    (\<exists>ps. fresh_pages s pdir l n ps s')"
  using assms
proof (induction n arbitrary: l s)
  case 0
  then show ?case by (auto simp: dir_ext_refl fresh_pages_def)
next
  case (Suc n)
  from Suc.prems(5) obtain p s1 s2 where a: "alloc_page s = Some (p, s1)" and
    m: "map_page pdir l p PAGE_USER PAGE_READ_WRITE s1 = Some s2" and
    rest: "map_new_pages_loop pdir (l + 4096) n s2 = Some s'"
    by (auto simp: bind_eq_Some_conv split: prod.splits)
  note S = new_page_step [OF Suc.prems(1-3) a m]
  have s2: "pages_inv s2" "dir_ok s2 pdir" using S(1) by (auto simp: dir_ext_def)
  note R = in_range_Suc [OF Suc.prems(3,4)]
  have "unat (l + 4096) + 4096 * n \<le> 2 ^ 32"
    using R(3) [OF Suc.prems(3)] unat_lt_u32 [of "l + 4096"] by (auto simp: less_imp_le)
  from Suc.IH [OF s2 page_aligned_succ [OF Suc.prems(3)] this rest] obtain ps where
    r: "dir_ext s2 pdir s'" "\<And>k. page_aligned k \<Longrightarrow> \<not> in_range (l + 4096) n k \<Longrightarrow> pte s' pdir k = pte s2 pdir k"
    "length ps = n" "distinct ps" "set ps \<subseteq> live_pages s' - live_pages s2" "set ps \<inter> frames s' pdir = {}"
    "\<And>i. i < n \<Longrightarrow> pte s' pdir (lpage (l + 4096) i) = Some (ps ! i OR 7) \<and> (\<forall>j<1024. mm_load (slot (ps ! i) j) s' = 0)"
    by (auto simp: fresh_pages_def)
  note k = dir_ext_keeps [OF r(1) S(2,4)]
  from r(2) [OF Suc.prems(3) R(2) [OF Suc.prems(3)]] S(6) [OF Suc.prems(3)]
  have first: "pte s' pdir l = Some (p OR 7)" by simp
  have others: "pte s' pdir q = pte s pdir q" if "page_aligned q" "\<not> in_range l (Suc n) q" for q
    using r(2) [OF that(1)] S(6) [OF that(1)] that(2) R(1) [OF that(1)] by auto
  have "pte s' pdir (lpage l i) = Some ((p # ps) ! i OR 7) \<and> (\<forall>j<1024. mm_load (slot ((p # ps) ! i) j) s' = 0)"
    if "i < Suc n" for i
    using that first k(3) S(5) r(7) by (cases i) (simp_all add: lpage_Suc)
  then have "fresh_pages s pdir l (Suc n) (p # ps) s'"
    using r(3-6) k(1,2) S(1-4) by (auto simp: fresh_pages_def dir_ext_def)
  then show ?case using dir_ext_trans [OF S(1) r(1)] others by blast
qed

lemma map_new_pages_loop_returns:
  assumes "pages_inv s" "dir_ok s pdir" "page_aligned l" "card (live_pages s) + 2 * n \<le> ram_pages s"
  shows "\<exists>s'. map_new_pages_loop pdir l n s = Some s'"
  using assms
proof (induction n arbitrary: l s)
  case (Suc n)
  obtain p s1 where a: "alloc_page s = Some (p, s1)"
    using alloc_page_room [OF Suc.prems(1)] room_if [OF Suc.prems(1)] Suc.prems(4) by auto
  have g: "granted s p s1" by (rule alloc_page_granted [OF Suc.prems(1) a])
  then have s1: "pages_inv s1" "page_aligned p" "card (live_pages s1) = Suc (card (live_pages s))" "mm_ram s1 = mm_ram s"
    by (auto simp: granted_def)
  have "room s1" using room_if [OF s1(1)] s1(3,4) Suc.prems(4) by (simp add: ram_pages_def)
  then obtain s2 where m: "map_page pdir l p PAGE_USER PAGE_READ_WRITE s1 = Some s2"
    using map_page_returns [OF s1(1) _ Suc.prems(3) s1(2)] by blast
  note S = new_page_step [OF Suc.prems(1-3) a m]
  have "\<exists>s'. map_new_pages_loop pdir (l + 4096) n s2 = Some s'"
    using Suc.prems(4) S(1,7)
    by (intro Suc.IH page_aligned_succ [OF Suc.prems(3)]) (auto simp: dir_ext_def ram_pages_def)
  with a m show ?case by simp
qed simp

text \<open>
  \<open>map_new_pages\<close> with enough memory (at most one page table per page) returns, and maps the
  given number of pages from the base on to physical pages that are new, pairwise different and
  filled with zeros; all other logical pages are mapped as before.
\<close>

theorem map_new_pages_correct:
  assumes "pages_inv s" and "dir_ok s pdir" and "page_aligned base"
    and "unat base + 4096 * unat n \<le> 2 ^ 32" and "card (live_pages s) + 2 * unat n \<le> ram_pages s"
  shows "\<exists>s' ps. map_new_pages pdir base n s = Some s' \<and> pages_inv s' \<and> dir_ok s' pdir \<and>
    length ps = unat n \<and> distinct ps \<and> set ps \<subseteq> live_pages s' - live_pages s \<and>
    (\<forall>i<unat n. lookup_page pdir (lpage base i) s' = Some (Some (ps ! i)) \<and>
      (\<forall>j<1024. mm_load (slot (ps ! i) j) s' = 0)) \<and>
    (\<forall>k. page_aligned k \<and> \<not> in_range base (unat n) k \<longrightarrow> lookup_page pdir k s' = lookup_page pdir k s)"
proof -
  obtain s' where m: "map_new_pages_loop pdir base (unat n) s = Some s'"
    using map_new_pages_loop_returns [OF assms(1-3,5)] by blast
  from map_new_pages_loop_spec [OF assms(1-4) m] obtain ps where
    r: "dir_ext s pdir s'" "\<And>k. page_aligned k \<Longrightarrow> \<not> in_range base (unat n) k \<Longrightarrow> pte s' pdir k = pte s pdir k"
    "fresh_pages s pdir base (unat n) ps s'" by blast
  have al: "page_aligned (lpage base i)" for i
  proof (induction i)
    case (Suc i)
    have "lpage base (Suc i) = lpage base i + 4096" by (simp add: lpage_def algebra_simps)
    with Suc show ?case by (simp add: page_aligned_succ)
  qed (simp add: assms(3))
  have "(ps ! i OR 7) AND PAGE_ADDRESS_MASK = ps ! i" if "i < unat n" for i
    using that r(3) entry_address [of "ps ! i" PAGE_USER PAGE_READ_WRITE] flags_ok_consts live_aligned [of "ps ! i" s']
    by (auto simp: fresh_pages_def subset_iff)
  then have "lookup_page pdir (lpage base i) s' = Some (Some (ps ! i))" if "i < unat n" for i
    using that r(3) by (simp add: lookup_page_pte [OF al] fresh_pages_def)
  with m r show ?thesis
    using assms(3) by (intro exI [of _ s'] exI [of _ ps])
      (auto simp: map_new_pages_def page_aligned_mod fresh_pages_def dir_ext_def lookup_page_pte [unfolded page_aligned_mod])
qed

theorem map_new_pages_correct_witness:
  "\<exists>s pdir s' ps. map_new_pages pdir 0x40000000 16 s = Some s' \<and> length ps = 16 \<and> distinct ps \<and>
     (\<forall>i<16. lookup_page pdir (lpage 0x40000000 i) s' = Some (Some (ps ! i)))"
proof -
  obtain pdir s where s: "pages_inv s" "dir_ok s pdir" "live_pages s = {pdir}" "ram_pages s = 2560"
    by (rule small_machine)
  have "page_aligned 0x40000000" by (simp add: page_aligned_mod)
  from map_new_pages_correct [OF s(1,2) this, of 16] s(3,4) obtain s' ps where
    "map_new_pages pdir 0x40000000 16 s = Some s'" "length ps = 16" "distinct ps"
    "\<forall>i<16. lookup_page pdir (lpage 0x40000000 i) s' = Some (Some (ps ! i))" by auto
  then show ?thesis by blast
qed

subsection \<open>Taking mappings away\<close>

lemma agree_dir_ok_live:
  assumes "dir_ok s pdir" "agree_on (frames s pdir) s s'" "frames s pdir \<subseteq> live_pages s'"
  shows "dir_ok s' pdir"
  using assms(1,3) agree_dir [OF assms(2)] by (auto simp: dir_ok_def)

lemma returned_agree:
  assumes "returned s p s'" "F \<subseteq> live_pages s - {p}"
  shows "agree_on F s s'"
  using assms live_aligned unfolding returned_def agree_on_def by blast

lemma unmap_mapped:
  assumes inv: "pages_inv s" and ok: "dir_ok s pdir" and l: "page_aligned logical" and e: "pte s pdir logical = Some e"
    and p: "e AND PAGE_ADDRESS_MASK \<in> live_pages s - frames s pdir"
  obtains s' where "unmap_and_free_page pdir logical s = Some s'" "pages_inv s'" "dir_ok s' pdir" "frames s' pdir = frames s pdir"
    "live_pages s' = live_pages s - {e AND PAGE_ADDRESS_MASK}"
    "\<And>k. page_aligned k \<Longrightarrow> pte s' pdir k = (if k = logical then None else pte s pdir k)"
    "agree_on (live_pages s' - frames s pdir) s s'"
proof -
  let ?p = "e AND PAGE_ADDRESS_MASK"
  from e obtain t where t: "table_of s pdir (dirindex logical) = Some t" and le: "e = mm_load (slot t (tblindex logical)) s" "present e"
    by (auto simp: pte_def Let_def split: option.splits if_splits)
  obtain s1 where f: "free_page ?p s = Some s1" "returned s ?p s1" using free_page_returned [OF inv] p by blast
  have sub: "frames s pdir \<subseteq> live_pages s - {?p}" using dir_okD(1) [OF ok] p by blast
  note a = returned_agree [OF f(2) sub]
  have s1: "pages_inv s1" "live_pages s1 = live_pages s - {?p}" using f(2) by (auto simp: returned_def)
  have ok1: "dir_ok s1 pdir" using agree_dir_ok_live [OF ok a] sub s1(2) by simp
  have t1: "table_of s1 pdir (dirindex logical) = Some t" using agree_dir(1) [OF a dirindex_bound] t by simp
  define s' where "s' = mm_store (slot t (tblindex logical)) 0 s1"
  note S = set_pte [OF s1(1) ok1 t1 l s'_def]
  have "live_pages s' = live_pages s1"
    unfolding s'_def using pages_inv_store(2) [OF s1(1) _ tblindex_bound] dir_okD(4) [OF ok1 dirindex_bound t1] by blast
  moreover have "unmap_and_free_page pdir logical s = Some s'"
    using t l le f(1) by (simp add: unmap_and_free_page_def table_of_def Let_def page_aligned_mod s'_def split: if_splits)
  moreover have "agree_on (live_pages s - {?p} - frames s pdir) s s1" by (rule returned_agree [OF f(2)]) blast
  ultimately show thesis
    using S agree_dir(2,3) [OF a] s1(2) by (intro that [of s']) (auto simp: dir_step_def intro: agree_on_trans)
qed

text \<open>
  \<open>unmap_and_free_page\<close> on a mapped page returns; the page is no longer mapped and goes back to
  the allocator, and every other page is mapped as before. On a page that is not mapped it changes
  nothing.
\<close>

theorem unmap_and_free_page_correct:
  assumes inv: "pages_inv s" and ok: "dir_ok s pdir" and l: "page_aligned logical"
  shows "case lookup_page pdir logical s of
      Some (Some p) \<Rightarrow> p \<in> live_pages s - frames s pdir \<longrightarrow>
        (\<exists>s'. unmap_and_free_page pdir logical s = Some s' \<and> pages_inv s' \<and> dir_ok s' pdir \<and>
           live_pages s' = live_pages s - {p} \<and> lookup_page pdir logical s' = Some None \<and>
           (\<forall>k. page_aligned k \<and> k \<noteq> logical \<longrightarrow> lookup_page pdir k s' = lookup_page pdir k s))
    | Some None \<Rightarrow> unmap_and_free_page pdir logical s = Some s
    | None \<Rightarrow> False"
proof (cases "pte s pdir logical")
  case None
  then have "unmap_and_free_page pdir logical s = Some s" using l
    by (auto simp: pte_def unmap_and_free_page_def table_of_def Let_def page_aligned_mod split: if_splits)
  with None show ?thesis by (simp add: lookup_page_pte [OF l])
next
  case (Some e)
  have "\<exists>s'. unmap_and_free_page pdir logical s = Some s' \<and> pages_inv s' \<and> dir_ok s' pdir \<and>
      live_pages s' = live_pages s - {e AND PAGE_ADDRESS_MASK} \<and> lookup_page pdir logical s' = Some None \<and>
      (\<forall>k. page_aligned k \<and> k \<noteq> logical \<longrightarrow> lookup_page pdir k s' = lookup_page pdir k s)"
    if "e AND PAGE_ADDRESS_MASK \<in> live_pages s - frames s pdir"
    by (rule unmap_mapped [OF inv ok l Some that]) (auto simp: lookup_page_pte l)
  with Some show ?thesis by (simp add: lookup_page_pte [OF l])
qed

theorem unmap_and_free_page_correct_witness:
  "\<exists>s pdir s'. unmap_and_free_page pdir 0x40000000 s = Some s' \<and> lookup_page pdir 0x40000000 s \<noteq> Some None \<and>
     lookup_page pdir 0x40000000 s' = Some None"
proof -
  obtain pdir s where s: "pages_inv s" "dir_ok s pdir" "live_pages s = {pdir}" "ram_pages s = 2560"
    by (rule small_machine)
  have al: "page_aligned 0x40000000" by (simp add: page_aligned_mod)
  obtain s1 where m: "map_new_pages_loop pdir 0x40000000 1 s = Some s1"
    using map_new_pages_loop_returns [OF s(1,2) al, of 1] s(3,4) by auto
  from map_new_pages_loop_spec [OF s(1,2) al _ m] obtain ps where
    r: "dir_ext s pdir s1" "fresh_pages s pdir 0x40000000 1 ps s1" by auto
  then obtain p where p: "ps = [p]" by (auto simp: fresh_pages_def length_Suc_conv)
  with r have q: "pte s1 pdir 0x40000000 = Some (p OR 7)" "p \<in> live_pages s1 - frames s1 pdir"
    by (auto simp: fresh_pages_def)
  have "(p OR 7) AND PAGE_ADDRESS_MASK = p"
    using entry_address [of p PAGE_USER PAGE_READ_WRITE] flags_ok_consts live_aligned q(2) by auto
  then have l: "lookup_page pdir 0x40000000 s1 = Some (Some p)" using q(1) by (simp add: lookup_page_pte [OF al])
  have "pages_inv s1" "dir_ok s1 pdir" using r(1) by (auto simp: dir_ext_def)
  from unmap_and_free_page_correct [OF this al] l q(2) obtain s' where
    "unmap_and_free_page pdir 0x40000000 s1 = Some s'" "lookup_page pdir 0x40000000 s' = Some None" by auto
  with l show ?thesis by (intro exI [of _ s1] exI [of _ pdir] exI [of _ s']) simp
qed

lemma free_page_dir_loop_spec:
  assumes "pages_inv s" "pdir \<in> live_pages s" "distinct is" "\<forall>i\<in>set is. i < 1024"
    and "\<forall>i\<in>set is. \<forall>t. table_of s pdir i = Some t \<longrightarrow> t \<in> live_pages s \<and> t \<noteq> pdir"
    and "\<forall>i\<in>set is. \<forall>j\<in>set is. \<forall>t. table_of s pdir i = Some t \<longrightarrow> table_of s pdir j = Some t \<longrightarrow> i = j"
  shows "\<exists>s'. free_page_dir_loop pdir is s = Some s' \<and> pages_inv s' \<and>
    live_pages s' = live_pages s - {t. \<exists>i\<in>set is. table_of s pdir i = Some t} \<and> agree_on (live_pages s') s s'"
  using assms
proof (induction "is" arbitrary: s)
  case Nil
  then show ?case by (auto simp: agree_on_def)
next
  case (Cons i "is")
  show ?case
  proof (cases "table_of s pdir i")
    case None
    then have "free_page_dir_loop pdir (i # is) s = free_page_dir_loop pdir is s"
      by (auto simp: table_of_def Let_def split: if_splits)
    with Cons None show ?thesis by (simp add: disj_left_commute)
  next
    case (Some t)
    then have t: "present (mm_load (slot pdir i) s)" "mm_load (slot pdir i) s AND PAGE_ADDRESS_MASK = t"
      by (auto simp: table_of_def Let_def split: if_splits)
    have tl: "t \<in> live_pages s" "t \<noteq> pdir" using Cons.prems(5) Some by auto
    obtain s1 where f: "free_page t s = Some s1" "returned s t s1"
      using free_page_returned [OF Cons.prems(1) tl(1)] by blast
    then have s1: "pages_inv s1" "live_pages s1 = live_pages s - {t}" by (auto simp: returned_def)
    have a: "agree_on (live_pages s - {t}) s s1" by (rule returned_agree [OF f(2)]) simp
    have tab: "table_of s1 pdir j = table_of s pdir j" if "j < 1024" for j
      using a that Cons.prems(2) tl(2) by (auto simp: agree_on_def table_of_def)
    have neq: "u \<noteq> t" if "j \<in> set is" "table_of s pdir j = Some u" for j u
      using Cons.prems(3,6) Some that by auto
    have "\<exists>s'. free_page_dir_loop pdir is s1 = Some s' \<and> pages_inv s' \<and>
        live_pages s' = live_pages s1 - {t. \<exists>i\<in>set is. table_of s1 pdir i = Some t} \<and> agree_on (live_pages s') s1 s'"
    proof (rule Cons.IH)
      show "\<forall>i\<in>set is. \<forall>u. table_of s1 pdir i = Some u \<longrightarrow> u \<in> live_pages s1 \<and> u \<noteq> pdir"
        using Cons.prems(4,5) s1(2) tab neq by auto
      show "\<forall>i\<in>set is. \<forall>j\<in>set is. \<forall>u. table_of s1 pdir i = Some u \<longrightarrow> table_of s1 pdir j = Some u \<longrightarrow> i = j"
        using Cons.prems(4,6) tab by auto
    qed (use Cons.prems s1 tl in auto)
    then obtain s' where r: "free_page_dir_loop pdir is s1 = Some s'" "pages_inv s'"
      "live_pages s' = live_pages s1 - {t. \<exists>i\<in>set is. table_of s1 pdir i = Some t}" "agree_on (live_pages s') s1 s'"
      by blast
    have "{u. \<exists>i\<in>set is. table_of s1 pdir i = Some u} = {u. \<exists>i\<in>set is. table_of s pdir i = Some u}"
      using tab Cons.prems(4) by auto
    then have "live_pages s' = live_pages s - {u. \<exists>j\<in>set (i # is). table_of s pdir j = Some u}"
      using r(3) s1(2) Some by auto
    moreover have "agree_on (live_pages s') s s1" by (rule agree_on_mono [OF a]) (use r(3) s1(2) in blast)
    ultimately show ?thesis using t f(1) r agree_on_trans by fastforce
  qed
qed

lemma set_indices: "set (map of_nat [0..<1024]) = {i :: u32. i < 1024}" "distinct (map of_nat [0..<1024] :: u32 list)"
proof -
  have u: "unat (of_nat i :: u32) = i" if "i < 1024" for i using that by (simp add: unat_of_nat_u32)
  have "i \<in> of_nat ` {0..<1024}" if "i < 1024" for i :: u32
    using that by (intro image_eqI [of _ _ "unat i"]) (auto simp: word_less_nat_alt)
  then show "set (map of_nat [0..<1024]) = {i :: u32. i < 1024}"
    using u by (auto simp: word_less_nat_alt)
  show "distinct (map of_nat [0..<1024] :: u32 list)"
    unfolding distinct_map using u by (intro conjI inj_onI) (auto, metis u)
qed

lemma free_page_dir_returns:
  assumes inv: "pages_inv s" and ok: "dir_ok s pdir"
  shows "\<exists>s'. free_page_dir pdir s = Some s' \<and> pages_inv s' \<and>
    live_pages s' = live_pages s - frames s pdir \<and> agree_on (live_pages s') s s'"
proof -
  note D = dir_okD [OF ok]
  from free_page_dir_loop_spec [OF inv D(2) set_indices(2)] D(4,5) obtain s1 where
    l: "free_page_dir_loop pdir (map of_nat [0..<1024]) s = Some s1" "pages_inv s1"
      "live_pages s1 = live_pages s - {t. \<exists>i<1024. table_of s pdir i = Some t}" "agree_on (live_pages s1) s s1"
    unfolding set_indices(1) by auto
  have "pdir \<in> live_pages s1" using l(3) D(2,4) by auto
  from free_page_returned [OF l(2) this] obtain s' where f: "free_page pdir s1 = Some s'" "returned s1 pdir s'" by blast
  have "live_pages s' = live_pages s - frames s pdir"
    using f(2) l(3) by (auto simp: returned_def frames_def)
  moreover have "agree_on (live_pages s') s s'"
    using returned_agree [OF f(2)] agree_on_mono [OF l(4)] f(2) by (auto simp: returned_def intro: agree_on_trans)
  ultimately show ?thesis using l(1) f by (auto simp: free_page_dir_def returned_def)
qed

text \<open>
  \<open>free_page_dir\<close> returns and gives back exactly the pages of the directory and its tables, no
  other page is freed, and all pages that stay handed out keep their contents.
\<close>

theorem free_page_dir_correct:
  assumes inv: "pages_inv s" and ok: "dir_ok s pdir"
  shows "\<exists>s'. free_page_dir pdir s = Some s' \<and> pages_inv s' \<and>
    live_pages s' = live_pages s - frames s pdir \<and> agree_on (live_pages s') s s'"
  using assms by (rule free_page_dir_returns)

theorem free_page_dir_correct_witness:
  "\<exists>s pdir s'. dir_ok s pdir \<and> free_page_dir pdir s = Some s' \<and> live_pages s' = {}"
proof -
  obtain pdir s where s: "pages_inv s" "dir_ok s pdir" "live_pages s = {pdir}" "frames s pdir = {pdir}"
    by (rule small_machine)
  from free_page_dir_correct [OF s(1,2)] s show ?thesis by auto
qed

subsection \<open>identity\_map\<close>

lemma identity_map_spec:
  assumes "pages_inv s" "dir_ok s pdir" "page_aligned addr" "limit \<le> 0xFFFFF000"
    and "unat limit \<le> unat addr + 4096 * n" "card (live_pages s) + n \<le> ram_pages s"
  shows "\<exists>s'. identity_map pdir addr limit access rw s = Some s' \<and> dir_ext s pdir s' \<and>
    card (live_pages s') \<le> card (live_pages s) + n \<and>
    (\<forall>k. page_aligned k \<longrightarrow> pte s' pdir k =
       (if addr \<le> k \<and> k < limit then Some (k OR PAGE_PRESENT OR access OR rw) else pte s pdir k))"
  using assms
proof (induction n arbitrary: addr s)
  case 0
  then have nl: "\<not> addr < limit" by (simp add: word_less_nat_alt)
  then have "\<not> (addr \<le> k \<and> k < limit)" for k by (meson order.strict_trans1)
  with nl 0 show ?case by (auto simp: identity_map.simps [of _ addr] dir_ext_refl)
next
  case (Suc n)
  show ?case
  proof (cases "addr < limit")
    case False
    then have "\<not> (addr \<le> k \<and> k < limit)" for k by (meson order.strict_trans1)
    with False Suc.prems show ?thesis by (auto simp: identity_map.simps [of _ addr] dir_ext_refl)
  next
    case True
    have "room s" using room_if [OF Suc.prems(1)] Suc.prems(6) by simp
    then obtain s1 where m: "map_page pdir addr addr access rw s = Some s1"
      using map_page_returns [OF Suc.prems(1) _ Suc.prems(3,3)] by blast
    note M = map_page_step [OF Suc.prems(1-3,3) m]
    note e1 = dir_step_ext [OF M(1)]
    have lt: "unat addr < 4294963200" using True Suc.prems(4) by (simp add: word_less_nat_alt word_le_nat_alt)
    note nx = page_aligned_next [OF Suc.prems(3)]
    have u: "unat (addr + 4096) = unat addr + 4096" "page_aligned (addr + 4096)" using nx lt by simp_all
    have "\<exists>s'. identity_map pdir (addr + 4096) limit access rw s1 = Some s' \<and> dir_ext s1 pdir s' \<and>
      card (live_pages s') \<le> card (live_pages s1) + n \<and>
      (\<forall>k. page_aligned k \<longrightarrow> pte s' pdir k =
         (if addr + 4096 \<le> k \<and> k < limit then Some (k OR PAGE_PRESENT OR access OR rw) else pte s1 pdir k))"
      using e1 u Suc.prems(4-6) map_page_live [OF Suc.prems(1,2) m]
      by (intro Suc.IH) (auto simp: dir_ext_def ram_pages_def)
    then obtain s' where r: "identity_map pdir (addr + 4096) limit access rw s1 = Some s'" "dir_ext s1 pdir s'"
      "card (live_pages s') \<le> card (live_pages s1) + n" "\<And>k. page_aligned k \<Longrightarrow> pte s' pdir k =
         (if addr + 4096 \<le> k \<and> k < limit then Some (k OR PAGE_PRESENT OR access OR rw) else pte s1 pdir k)" by blast
    have "pte s' pdir k = (if addr \<le> k \<and> k < limit then Some (k OR PAGE_PRESENT OR access OR rw) else pte s pdir k)"
      if k: "page_aligned k" for k
    proof -
      have "addr \<le> k \<longleftrightarrow> k = addr \<or> addr + 4096 \<le> k"
        using dvd_less_add_le [of 4096 "unat addr" "unat k"] k Suc.prems(3) u(1)
        by (cases "unat addr < unat k") (auto simp: page_aligned_def word_le_nat_alt word_unat_eq_iff)
      then show ?thesis unfolding r(4) [OF k] M(2) [OF k] using True by auto
    qed
    moreover have "card (live_pages s') \<le> card (live_pages s) + Suc n" using map_page_live [OF Suc.prems(1,2) m] r(3) by simp
    ultimately show ?thesis
      using r(1) m True dir_ext_trans [OF e1 r(2)] by (simp add: identity_map.simps [of _ addr])
  qed
qed

text \<open>
  \<open>identity_map\<close> below the last page of the address space returns when there is memory for its
  tables, and every page of the range is then mapped to itself, every other page as before; pages
  that belong to somebody else keep their contents.
\<close>

theorem identity_map_correct:
  assumes "pages_inv s" and "dir_ok s pdir" and "page_aligned start" and "limit \<le> 0xFFFFF000"
    and "flags_ok access" and "flags_ok readwrite"
    and "card (live_pages s) + (unat limit - unat start + 4095) div 4096 \<le> ram_pages s"
  shows "\<exists>s'. identity_map pdir start limit access readwrite s = Some s' \<and> pages_inv s' \<and> dir_ok s' pdir \<and>
    agree_on (live_pages s - frames s pdir) s s' \<and>
    (\<forall>k. page_aligned k \<longrightarrow> lookup_page pdir k s' =
       (if start \<le> k \<and> k < limit then Some (Some k) else lookup_page pdir k s))"
proof -
  let ?n = "(unat limit - unat start + 4095) div 4096"
  have "unat limit - unat start \<le> 4096 * ?n" by simp
  then have "unat limit \<le> unat start + 4096 * ?n" by simp
  from identity_map_spec [OF assms(1-4) this assms(7), of access readwrite] obtain s' where
    r: "identity_map pdir start limit access readwrite s = Some s'" "dir_ext s pdir s'"
    "\<And>k. page_aligned k \<Longrightarrow> pte s' pdir k =
       (if start \<le> k \<and> k < limit then Some (k OR PAGE_PRESENT OR access OR readwrite) else pte s pdir k)" by blast
  have "lookup_page pdir k s' = (if start \<le> k \<and> k < limit then Some (Some k) else lookup_page pdir k s)"
    if k: "page_aligned k" for k
    using r(3) [OF k] entry_address [OF k assms(5,6)] by (simp add: lookup_page_pte [OF k])
  with r show ?thesis by (auto simp: dir_ext_def)
qed

theorem identity_map_correct_witness:
  "\<exists>s pdir s'. identity_map pdir 0 0x600000 PAGE_SUPERVISOR PAGE_READ_WRITE s = Some s' \<and>
     lookup_page pdir 0xB8000 s' = Some (Some 0xB8000)"
proof -
  obtain pdir s where s: "pages_inv s" "dir_ok s pdir" "live_pages s = {pdir}" "ram_pages s = 2560"
    by (rule small_machine)
  have "page_aligned 0xB8000" by (simp add: page_aligned_mod)
  with identity_map_correct [OF s(1,2) page_aligned_0 _ flags_ok_consts(2,3), of "0x600000"] s(3,4)
  obtain s' where "identity_map pdir 0 0x600000 PAGE_SUPERVISOR PAGE_READ_WRITE s = Some s'"
    "lookup_page pdir 0xB8000 s' = Some (Some 0xB8000)" by auto
  then show ?thesis by blast
qed

subsection \<open>Any history of page allocations\<close>

text \<open>
  starting from boot, after any sequence of \<open>alloc_page\<close> and \<open>free_page\<close> that frees only pages
  handed out, no two pages handed out overlap, and \<open>npages\<close> is their number.
\<close>

theorem page_allocator_safe:
  assumes "6291456 \<le> ram" and "ram < 2 ^ 32" and "pages.session (mm_init mem ram) requests s"
  shows "all_apart (page_regions s) \<and> unat (npages s) = card (live_pages s)"
proof -
  have "pages_inv s" "all_apart (page_regions s)"
    using pages.session_safe [OF assms(3)] mm_init_inv [OF assms(1,2), of mem] by (auto simp: page_regions_def)
  then show ?thesis by (auto simp: pages_inv_def pages_rep_def)
qed

theorem page_allocator_safe_witness:
  "\<exists>s. pages.session (mm_init (\<lambda>_. 0) 16777216) [Alloc (), Release 6291456] s \<and>
     all_apart (page_regions s) \<and> unat (npages s) = card (live_pages s)"
proof -
  let ?s = "mm_init (\<lambda>_. 0) 16777216"
  have i: "pages_inv ?s" using mm_init_inv [of 16777216 "\<lambda>_. 0"] by simp
  obtain s1 where a: "alloc_page ?s = Some (6291456, s1)" by (simp add: alloc_page_def mm_init_def)
  have g: "granted ?s 6291456 s1" by (rule alloc_page_granted [OF i a])
  then have s1: "pages_inv s1" "(6291456, 4096) \<in> page_regions s1"
    by (auto simp: granted_def page_regions_def page_region_def image_iff)
  from pages.release_returns [OF this] obtain s2 where f: "free_page_nat 6291456 s1 = Some s2" by blast
  have "pages.session ?s [Alloc (), Release 6291456] s2"
    using a by (intro pages.session.intros(2) [of _ _ 6291456 s1] pages.session.intros(3) [OF s1(2) f] pages.session.intros(1))
      (simp add: alloc_page_nat_def)
  with page_allocator_safe [OF _ _ this] show ?thesis by auto
qed

end
