(* ===== verification/Libc.thy ===== *)
theory Libc
  imports Memory
begin

text \<open>
  The C library shared by the kernel and the processes, \<^verbatim>\<open>source/libc.c\<close>: the definitions.
  \<open>memset\<close> and \<open>memmove\<close> work on byte-addressed memory. A \<open>char *\<close> that is only read as a
  string is the list of the bytes from it to the end of its buffer; running off the buffer is
  \<open>None\<close>. Buffers that \<open>vsnprintf\<close> writes are byte lists, and a write outside is \<open>None\<close>.
\<close>

subsection \<open>Error names\<close>

definition ERRNO_MAX :: int where [simp]: "ERRNO_MAX = 14"

definition error_names :: "string list" where
  "error_names =
     [''Success'', '''', ''Bad file descriptor'', ''Invalid argument'', ''No such process'',
      ''Operation not permitted'', ''No such file or directory'', ''Too many open files'',
      ''Is a directory'', ''Not a directory'', ''Function not implemented'', ''Not enough space'',
      ''Bad address'', ''Resource unavailable, try again'', ''No child processes'']"

definition strerror :: "int \<Rightarrow> string" where
  "strerror errnum =
     (if 0 > errnum \<or> ERRNO_MAX < errnum then ''Unknown error'' else error_names ! nat errnum)"

subsection \<open>Memory\<close>

fun memset_loop :: "u32 \<Rightarrow> u8 \<Rightarrow> nat \<Rightarrow> byte_mem \<Rightarrow> byte_mem" where
  "memset_loop dst c 0 m = m"
| "memset_loop dst c (Suc n) m = memset_loop (dst + 1) c n (m(dst := c))"

text \<open>\<open>dst[i] = c\<close> converts the \<open>int\<close> to a \<open>char\<close>.\<close>

definition memset :: "u32 \<Rightarrow> int \<Rightarrow> u32 \<Rightarrow> byte_mem \<Rightarrow> byte_mem" where
  "memset b c len m = memset_loop b (of_int c) (unat len) m"

fun memmove_loop :: "u32 \<Rightarrow> u32 \<Rightarrow> nat \<Rightarrow> byte_mem \<Rightarrow> byte_mem" where
  "memmove_loop to from 0 m = m"
| "memmove_loop to from (Suc n) m = memmove_loop (to + 1) (from + 1) n (m(to := m from))"

definition memmove :: "u32 \<Rightarrow> u32 \<Rightarrow> u32 \<Rightarrow> byte_mem \<Rightarrow> byte_mem" where
  "memmove dst src len m = memmove_loop dst src (unat len) m"

definition memcpy :: "u32 \<Rightarrow> u32 \<Rightarrow> u32 \<Rightarrow> byte_mem \<Rightarrow> byte_mem" where
  "memcpy dst src len m = memmove dst src len m"

subsection \<open>Strings\<close>

fun strlen :: "bytes \<Rightarrow> nat option" where
  "strlen [] = None"
| "strlen (c # s) = (if c \<noteq> 0 then map_option Suc (strlen s) else Some 0)"

text \<open>\<open>char\<close> is signed.\<close>

fun strcmp :: "bytes \<Rightarrow> bytes \<Rightarrow> int option" where
  "strcmp (a # s1) (b # s2) =
     (if a \<noteq> 0 \<and> b \<noteq> 0 then (if a \<noteq> b then Some (sint a - sint b) else strcmp s1 s2)
      else if a \<noteq> 0 then Some (- 1) else if b \<noteq> 0 then Some 1 else Some 0)"
| "strcmp _ _ = None"

fun strncmp :: "bytes \<Rightarrow> bytes \<Rightarrow> nat \<Rightarrow> int option" where
  "strncmp s1 s2 0 = Some 0"
| "strncmp (a # s1) (b # s2) (Suc n) =
     (if a \<noteq> 0 \<and> b \<noteq> 0 then (if a \<noteq> b then Some (sint a - sint b) else strncmp s1 s2 n)
      else if b \<noteq> 0 then Some (- 1) else Some 1)"
| "strncmp _ _ _ = None"

subsection \<open>Formatted output\<close>

text \<open>
  The buffer and the position in it, which goes on counting when the buffer is full. The position is a \<open>size_t\<close>: it wraps
  around at 4GB (\<open>size_t_max\<close> values).
\<close>

definition size_t_max :: nat where [simp]: "size_t_max = 4294967296"

type_synonym out = "bytes \<times> nat"

definition addchar :: "nat \<Rightarrow> u8 \<Rightarrow> out \<Rightarrow> out option" where
  "addchar sz c x =
     (case x of (str, pos) \<Rightarrow>
        if (pos + 1) mod size_t_max < sz
        then (if pos < length str then Some (str[pos := c], (pos + 1) mod size_t_max) else None)
        else Some (str, (pos + 1) mod size_t_max))"

definition hexdigits :: bytes where
  "hexdigits = chars ''0123456789abcdef''"

text \<open>The first loop of \<open>print_num\<close>, for the multiplier of the leading digit.\<close>

partial_function (option) num_mult :: "u32 \<Rightarrow> u32 \<Rightarrow> u32 \<Rightarrow> u32 option" where
  "num_mult base x mult =
     (if base \<le> x then num_mult base (x div base) (mult * base) else Some mult)"

partial_function (option) num_digits ::
    "nat \<Rightarrow> u32 \<Rightarrow> u32 \<Rightarrow> u32 \<Rightarrow> u32 \<Rightarrow> out \<Rightarrow> out option" where
  "num_digits sz val base x mult out =
     (if base \<le> x
      then do {
             assert_c (mult \<noteq> 0);
             out \<leftarrow> addchar sz (hexdigits ! unat (val div mult mod base)) out;
             num_digits sz val base (x div base) (mult div base) out
           }
      else Some out)"

definition print_num :: "nat \<Rightarrow> u32 \<Rightarrow> u32 \<Rightarrow> out \<Rightarrow> out option" where
  "print_num sz val base out =
     do {
       mult \<leftarrow> num_mult base val 1;
       out \<leftarrow> num_digits sz val base val mult out;
       addchar sz (hexdigits ! unat (val mod base)) out
     }"

text \<open>
  The variable arguments: a word, or a pointer to a string. Taking an argument that was not
  passed, or one of the wrong kind, is undefined.
\<close>

datatype va = Word u32 | Str bytes

fun va_word :: "va list \<Rightarrow> (u32 \<times> va list) option" where
  "va_word (Word w # ap) = Some (w, ap)"
| "va_word _ = None"

fun va_str :: "va list \<Rightarrow> (bytes \<times> va list) option" where
  "va_str (Str s # ap) = Some (s, ap)"
| "va_str _ = None"

fun print_str :: "nat \<Rightarrow> bytes \<Rightarrow> out \<Rightarrow> out option" where
  "print_str sz [] out = None"
| "print_str sz (c # s) out =
     (if c \<noteq> 0 then do { out \<leftarrow> addchar sz c out; print_str sz s out } else Some out)"

definition print_field :: "nat \<Rightarrow> u8 \<Rightarrow> va list \<Rightarrow> out \<Rightarrow> (out \<times> va list) option" where
  "print_field sz c ap out =
     (if c = of_char CHR ''s'' then
        do { (s, ap) \<leftarrow> va_str ap; out \<leftarrow> print_str sz s out; Some (out, ap) }
      else if c = of_char CHR ''c'' then
        do { (val, ap) \<leftarrow> va_word ap; out \<leftarrow> addchar sz (ucast val) out; Some (out, ap) }
      else if c = of_char CHR ''d'' then
        do {
          (val, ap) \<leftarrow> va_word ap;
          out \<leftarrow> (if val <s 0 then addchar sz (of_char CHR ''-'') out else Some out);
          out \<leftarrow> print_num sz (if val <s 0 then - val else val) 10 out;
          Some (out, ap)
        }
      else if c = of_char CHR ''u'' then
        do { (val, ap) \<leftarrow> va_word ap; out \<leftarrow> print_num sz val 10 out; Some (out, ap) }
      else if c = of_char CHR ''p'' then
        do {
          out \<leftarrow> addchar sz (of_char CHR ''0'') out;
          out \<leftarrow> addchar sz (of_char CHR ''x'') out;
          (val, ap) \<leftarrow> va_word ap;
          out \<leftarrow> print_num sz val 16 out;
          Some (out, ap)
        }
      else if c = of_char CHR ''x'' then
        do { (val, ap) \<leftarrow> va_word ap; out \<leftarrow> print_num sz val 16 out; Some (out, ap) }
      else do { out \<leftarrow> addchar sz (of_char CHR ''%'') out; Some (out, ap) })"

fun pad_spaces :: "nat \<Rightarrow> nat \<Rightarrow> out \<Rightarrow> out option" where
  "pad_spaces sz 0 out = Some out"
| "pad_spaces sz (Suc n) out =
     do { out \<leftarrow> addchar sz (of_char CHR '' '') out; pad_spaces sz n out }"

definition is_digit :: "u8 \<Rightarrow> bool" where
  "is_digit c \<longleftrightarrow> of_char CHR ''0'' \<le> c \<and> c \<le> of_char CHR ''9''"

text \<open>\<open>pad\<close> is a signed 32-bit integer and wraps around when the digits say more.\<close>

fun scan_pad :: "u32 \<Rightarrow> bytes \<Rightarrow> (u32 \<times> bytes) option" where
  "scan_pad pad [] = None"
| "scan_pad pad (c # cs) =
     (if is_digit c then scan_pad (pad * 10 + ucast c - 48) cs else Some (pad, c # cs))"

lemma scan_pad_length: "scan_pad pad cs = Some (pad', rest) \<Longrightarrow> length rest \<le> length cs \<and> rest \<noteq> []"
  by (induction pad cs rule: scan_pad.induct) (auto split: if_splits)

text \<open>
  The code prints the field once to learn its length; when it is right-aligned it goes back,
  writes the padding and prints the field again.
\<close>

definition print_padded :: "nat \<Rightarrow> bool \<Rightarrow> u32 \<Rightarrow> u8 \<Rightarrow> va list \<Rightarrow> out \<Rightarrow> (out \<times> va list) option" where
  "print_padded sz right_aligned pad c ap out =
     do {
       let start_pos = snd out;
       (out, ap') \<leftarrow> print_field sz c ap out;
       let pad = pad - (of_nat (snd out) - of_nat start_pos);
       if right_aligned
       then do {
              out \<leftarrow> pad_spaces sz (nat (sint pad)) (fst out, start_pos);
              print_field sz c ap out
            }
       else do { out \<leftarrow> pad_spaces sz (nat (sint pad)) out; Some (out, ap') }
     }"

text \<open>
  The main loop. The list is the format from \<open>c\<close> on. After a field the loop steps over its
  letter without looking at it, also when it is the terminating 0.
\<close>

function vsnprintf_loop :: "nat \<Rightarrow> bytes \<Rightarrow> va list \<Rightarrow> out \<Rightarrow> out option" where
  "vsnprintf_loop sz [] ap out = None"
| "vsnprintf_loop sz (c # cs) ap out =
     (if c = 0 then Some out
      else if c = of_char CHR ''%'' then
        do {
          let left = (cs \<noteq> [] \<and> hd cs = of_char CHR ''-'');
          (pad, rest) \<leftarrow> scan_pad 0 (if left then tl cs else cs);
          (out, ap) \<leftarrow> print_padded sz (\<not> left) pad (hd rest) ap out;
          vsnprintf_loop sz (tl rest) ap out
        }
      else do { out \<leftarrow> addchar sz c out; vsnprintf_loop sz cs ap out })"
  by pat_completeness auto
termination
  by (relation "measure (\<lambda>(sz, cs, ap, out). length cs)") (auto dest!: scan_pad_length split: if_splits)

definition vsnprintf :: "bytes \<Rightarrow> nat \<Rightarrow> bytes \<Rightarrow> va list \<Rightarrow> (bytes \<times> nat) option" where
  "vsnprintf str sz format ap =
     do {
       (str, pos) \<leftarrow> vsnprintf_loop sz format ap (str, 0);
       if 0 < sz
       then (let i = (if (pos + 1) mod size_t_max < sz then pos else sz - 1) in
             if i < length str then Some (str[i := 0], pos) else None)
       else Some (str, pos)
     }"

definition snprintf :: "bytes \<Rightarrow> nat \<Rightarrow> bytes \<Rightarrow> va list \<Rightarrow> (bytes \<times> nat) option" where
  "snprintf str sz format ap = vsnprintf str sz format ap"

text \<open>
  \<open>printf\<close> and \<open>kprintf\<close> format into a buffer on the stack, with \<open>junk\<close> its old contents, and
  pass the buffer with the returned length on to \<open>write\<close> (a system call) and \<open>write_to_screen\<close>.
\<close>

definition printf :: "bool \<Rightarrow> (int \<Rightarrow> bytes \<Rightarrow> nat \<Rightarrow> 'w \<Rightarrow> 'w option) \<Rightarrow> bytes \<Rightarrow>
    bytes \<Rightarrow> va list \<Rightarrow> 'w \<Rightarrow> (nat \<times> 'w) option" where
  "printf in_user_mode write junk format ap w =
     do {
       assert_c in_user_mode;
       (buf, len) \<leftarrow> vsnprintf junk 4096 format ap;
       w \<leftarrow> write 1 buf len w;
       Some (len, w)
     }"

definition kprintf :: "bool \<Rightarrow> (bytes \<Rightarrow> nat \<Rightarrow> 's \<Rightarrow> 's option) \<Rightarrow> bytes \<Rightarrow>
    bytes \<Rightarrow> va list \<Rightarrow> 's \<Rightarrow> (nat \<times> 's) option" where
  "kprintf in_user_mode write_to_screen junk format ap s =
     do {
       assert_c (\<not> in_user_mode);
       (buf, len) \<leftarrow> vsnprintf junk 4096 format ap;
       s \<leftarrow> write_to_screen buf len s;
       Some (len, s)
     }"

text \<open>
  \<open>perror\<close>: the second branch passes \<open>s\<close> itself for the only \<open>%s\<close>, also when it is \<open>NULL\<close> (the
  string at address 0 is undefined here).
\<close>

definition perror :: "(bytes \<Rightarrow> va list \<Rightarrow> 'w \<Rightarrow> (nat \<times> 'w) option) \<Rightarrow> int \<Rightarrow> bytes option \<Rightarrow>
    'w \<Rightarrow> (nat \<times> 'w) option" where
  "perror print err s w =
     (case s of
        None \<Rightarrow> None
      | Some s \<Rightarrow>
          do {
            assert_c (s \<noteq> []);
            if hd s \<noteq> 0
            then print (chars ''%s: %s'' @ [10, 0]) [Str s, Str (chars (strerror err) @ [0])] w
            else print (chars ''%s'' @ [10, 0]) [Str s, Str (chars (strerror err) @ [0])] w
          })"

definition user_mode_assert :: "(bytes \<Rightarrow> va list \<Rightarrow> 'w \<Rightarrow> (nat \<times> 'w) option) \<Rightarrow> (int \<Rightarrow> 'w \<Rightarrow> 'r option) \<Rightarrow>
    bytes \<Rightarrow> bytes \<Rightarrow> 'w \<Rightarrow> 'r option" where
  "user_mode_assert print exit_call str func w =
     do {
       (_, w) \<leftarrow> print (chars ''Assertion failure in %s: %s'' @ [10, 0]) [Str func, Str str] w;
       exit_call 1 w
     }"

subsection \<open>Directory streams\<close>

text \<open>The system calls and the heap of the process are parameters that act on its world \<open>'w\<close>.\<close>

record dirent =
  d_ino :: u32
  d_name :: bytes

record DIR =
  dir_fd :: int
  dir_ent :: dirent

definition OPEN_DIRECTORY :: int where [simp]: "OPEN_DIRECTORY = 65535"

definition opendir :: "(bytes \<Rightarrow> int \<Rightarrow> 'w \<Rightarrow> int \<times> 'w) \<Rightarrow> (u32 \<Rightarrow> 'w \<Rightarrow> (DIR \<times> 'w) option) \<Rightarrow>
    bytes \<Rightarrow> 'w \<Rightarrow> (DIR option \<times> 'w) option" where
  "opendir open_call malloc_call filename w =
     (let (fd, w) = open_call filename OPEN_DIRECTORY w in
      if 0 > fd then Some (None, w)
      else do { (dir, w) \<leftarrow> malloc_call 1036 w; Some (Some (dir\<lparr>dir_fd := fd\<rparr>), w) })"

definition readdir :: "(int \<Rightarrow> dirent \<Rightarrow> 'w \<Rightarrow> int \<times> dirent \<times> 'w) \<Rightarrow> DIR \<Rightarrow> 'w \<Rightarrow> dirent option \<times> DIR \<times> 'w" where
  "readdir getdent dirp w =
     (let (r, ent, w) = getdent (dir_fd dirp) (dir_ent dirp) w in
      (if 1 \<noteq> r then None else Some ent, dirp\<lparr>dir_ent := ent\<rparr>, w))"

definition closedir :: "(int \<Rightarrow> 'w \<Rightarrow> int \<times> 'w) \<Rightarrow> (DIR \<Rightarrow> 'w \<Rightarrow> 'w option) \<Rightarrow> DIR \<Rightarrow> 'w \<Rightarrow> (int \<times> 'w) option" where
  "closedir close_call free_call dirp w =
     (let (_, w) = close_call (dir_fd dirp) w in
      do { w \<leftarrow> free_call dirp w; Some (0, w) })"

end
