(* ===== verification/Libc_Props.thy ===== *)
theory Libc_Props
  imports Libc
begin

text \<open>
  The properties of the C library: \<open>memmove\<close>, the string comparisons, and that \<open>vsnprintf\<close>
  with its buffer, its rewinding for right-aligned fields and its machine arithmetic produces the
  text of a reference formatter, cut off at the buffer size.
\<close>

subsection \<open>memset and memmove\<close>

lemma memset_loop_other: "\<forall>i<n. dst + of_nat i \<noteq> a \<Longrightarrow> memset_loop dst c n m a = m a"
proof (induction n arbitrary: dst m)
  case (Suc n)
  have "\<forall>i<n. dst + 1 + of_nat i \<noteq> a"
  proof (intro allI impI)
    fix i assume "i < n"
    with Suc.prems [rule_format, of "Suc i"] show "dst + 1 + of_nat i \<noteq> a" by (simp add: ac_simps)
  qed
  from Suc.IH [OF this] Suc.prems [rule_format, of 0] show ?case by simp
qed simp

lemma memmove_loop_other: "\<forall>i<n. dst + of_nat i \<noteq> a \<Longrightarrow> memmove_loop dst src n m a = m a"
proof (induction n arbitrary: dst src m)
  case (Suc n)
  have "\<forall>i<n. dst + 1 + of_nat i \<noteq> a"
  proof (intro allI impI)
    fix i assume "i < n"
    with Suc.prems [rule_format, of "Suc i"] show "dst + 1 + of_nat i \<noteq> a" by (simp add: ac_simps)
  qed
  from Suc.IH [OF this] Suc.prems [rule_format, of 0] show ?case by simp
qed simp

text \<open>No byte of the source is overwritten before it has been read.\<close>

definition forward_safe :: "u32 \<Rightarrow> u32 \<Rightarrow> nat \<Rightarrow> bool" where
  "forward_safe dst src n \<longleftrightarrow>
     unat dst + n \<le> 2 ^ 32 \<and> unat src + n \<le> 2 ^ 32 \<and> (unat dst \<le> unat src \<or> unat src + n \<le> unat dst)"

lemma unat_offset: "unat (p :: u32) + n \<le> 2 ^ 32 \<Longrightarrow> i < n \<Longrightarrow> unat (p + of_nat i) = unat p + i"
  by (rule unat_add_of_nat_u32) simp

lemma memmove_loop_copies:
  assumes "\<And>i j. i < j \<Longrightarrow> j < n \<Longrightarrow> dst + of_nat i \<noteq> src + of_nat j"
    and "\<And>i j. i < n \<Longrightarrow> j < n \<Longrightarrow> dst + of_nat i = dst + of_nat j \<Longrightarrow> i = j" and "i < n"
  shows "memmove_loop dst src n m (dst + of_nat i) = m (src + of_nat i)"
  using assms
proof (induction n arbitrary: dst src m i)
  case (Suc n)
  have step: "x + 1 + of_nat k = x + of_nat (Suc k)" for x :: u32 and k by (simp add: ac_simps)
  show ?case
  proof (cases i)
    case 0
    have "dst + 1 + of_nat j \<noteq> dst" if "j < n" for j
      using Suc.prems(2) [of "Suc j" 0] that step [of dst j] by auto
    with memmove_loop_other [of n "dst + 1" dst] 0 show ?thesis by simp
  next
    case (Suc k)
    have "memmove_loop (dst + 1) (src + 1) n (m(dst := m src)) (dst + 1 + of_nat k)
        = (m(dst := m src)) (src + 1 + of_nat k)"
    proof (rule Suc.IH)
      show "dst + 1 + of_nat i \<noteq> src + 1 + of_nat j" if "i < j" "j < n" for i j
        using Suc.prems(1) [of "Suc i" "Suc j"] that by (simp only: step) simp
      show "i = j" if "i < n" "j < n" "dst + 1 + of_nat i = dst + 1 + of_nat j" for i j
        using Suc.prems(2) [of "Suc i" "Suc j"] that by (simp only: step) simp
      show "k < n" using Suc Suc.prems(3) by simp
    qed
    moreover have "src + 1 + of_nat k \<noteq> dst"
      using Suc.prems(1) [of 0 "Suc k"] Suc.prems(3) Suc by (simp only: step) auto
    ultimately show ?thesis using Suc by (simp only: step) simp
  qed
qed simp

lemma memmove_copies:
  assumes "forward_safe dst src n" "i < n"
  shows "memmove_loop dst src n m (dst + of_nat i) = m (src + of_nat i)"
proof (rule memmove_loop_copies [OF _ _ assms(2)])
  from assms(1) have le: "unat dst + n \<le> 2 ^ 32" "unat src + n \<le> 2 ^ 32"
    "unat dst \<le> unat src \<or> unat src + n \<le> unat dst" by (simp_all only: forward_safe_def)
  note U = unat_offset [OF le(1)] unat_offset [OF le(2)]
  show "dst + of_nat i \<noteq> src + of_nat j" if "i < j" "j < n" for i j
  proof
    assume "dst + of_nat i = src + of_nat j"
    then have "unat dst + i = unat src + j" using U(1) [of i] U(2) [of j] that by simp
    with le(3) that show False by linarith
  qed
  show "i = j" if "i < n" "j < n" "dst + of_nat i = dst + of_nat j" for i j
    using U(1) [OF that(1)] U(1) [OF that(2)] unfolding that(3) by (simp only: add_left_cancel)
qed

text \<open>
  \<open>memmove\<close> copies the source to the destination and changes nothing else, provided that the
  destination does not start inside the source (it copies forwards only).
\<close>

theorem memmove_correct:
  assumes "forward_safe dst src (unat len)"
  shows "(\<forall>i<unat len. memmove dst src len m (dst + of_nat i) = m (src + of_nat i)) \<and>
    (\<forall>a. (\<forall>i<unat len. dst + of_nat i \<noteq> a) \<longrightarrow> memmove dst src len m a = m a)"
  using memmove_copies [OF assms] memmove_loop_other by (simp add: memmove_def)

theorem memmove_correct_witness:
  "forward_safe 0x1000 0x1004 (unat (16 :: u32)) \<and>
   memmove 0x1000 0x1004 16 (\<lambda>a. ucast a) (0x1000 + of_nat 3) = ucast (0x1004 + of_nat 3 :: u32)"
proof -
  have f: "forward_safe 0x1000 0x1004 (unat (16 :: u32))" by (simp add: forward_safe_def)
  from memmove_correct [OF this, of "\<lambda>a. ucast a"] have
    "\<forall>i<unat (16 :: u32). memmove 0x1000 0x1004 16 (\<lambda>a. ucast a) (0x1000 + of_nat i) = ucast (0x1004 + of_nat i :: u32)"
    by blast
  then have "memmove 0x1000 0x1004 16 (\<lambda>a. ucast a) (0x1000 + of_nat 3) = ucast (0x1004 + of_nat 3 :: u32)"
    by (rule allE [of _ 3]) simp
  with f show ?thesis by blast
qed

lemma memmove_smear_loop:
  assumes "unat src + Suc n \<le> 2 ^ 32" "i \<le> n"
  shows "memmove_loop (src + 1) src n m (src + of_nat i) = m src"
  using assms
proof (induction n arbitrary: src m i)
  case (Suc n)
  have s1: "unat (src + 1) = unat src + 1" using Suc.prems(1) unat_add_of_nat_u32 [of src 1] by simp
  show ?case
  proof (cases i)
    case 0
    have "\<forall>j<n. src + 1 + 1 + of_nat j \<noteq> src"
    proof (intro allI impI)
      fix j assume "j < n"
      then have "unat (src + of_nat (j + 2)) = unat src + (j + 2)"
        using Suc.prems(1) by (intro unat_add_of_nat_u32) simp
      moreover have "src + 1 + 1 + of_nat j = src + of_nat (j + 2)" by simp
      ultimately show "src + 1 + 1 + of_nat j \<noteq> src" by auto
    qed
    with memmove_loop_other [of n "src + 1 + 1" src] 0 show ?thesis by simp
  next
    case (Suc k)
    have "memmove_loop (src + 1 + 1) (src + 1) n (m(src + 1 := m src)) (src + 1 + of_nat k) = (m(src + 1 := m src)) (src + 1)"
      by (rule Suc.IH) (use Suc Suc.prems s1 in simp_all)
    then show ?thesis using Suc by (simp add: ac_simps)
  qed
qed simp

text \<open>
  where the destination starts one byte into the source, \<open>memmove\<close> does not move the bytes: the
  whole range is filled with its first byte. (The C standard defines \<open>memmove\<close> for overlapping ranges.)
\<close>

theorem memmove_overlap:
  assumes "unat src + Suc (unat len) \<le> 2 ^ 32" and "i \<le> unat len"
  shows "memmove (src + 1) src len m (src + of_nat i) = m src"
  using memmove_smear_loop [OF assms] by (simp add: memmove_def)

theorem memmove_overlap_witness:
  "memmove 0x1001 0x1000 2 (\<lambda>a. ucast a) (0x1000 + of_nat 2) = (ucast (0x1000 :: u32) :: u8)"
  using memmove_overlap [of "0x1000" 2 2 "\<lambda>a. ucast a"] by simp

subsection \<open>Strings\<close>

text \<open>The string at a pointer, and that it is terminated inside its buffer.\<close>

definition cstr :: "bytes \<Rightarrow> bytes" where
  "cstr s = takeWhile (\<lambda>c. c \<noteq> 0) s"

definition terminated :: "bytes \<Rightarrow> bool" where
  "terminated s \<longleftrightarrow> 0 \<in> set s"

lemma cstr_simps [simp]:
  "cstr [] = []" "cstr (c # s) = (if c = 0 then [] else c # cstr s)"
  by (simp_all add: cstr_def)

lemma terminated_simps [simp]:
  "\<not> terminated []" "terminated (c # s) \<longleftrightarrow> c = 0 \<or> terminated s"
  by (auto simp: terminated_def)

lemma cstr_append_0: "0 \<notin> set s \<Longrightarrow> cstr (s @ 0 # t) = s"
  by (induction s) auto

lemma cstr_no_0: "0 \<notin> set (cstr s)"
  by (auto simp: cstr_def dest: set_takeWhileD)

lemma strlen_cstr: "strlen s = (if terminated s then Some (length (cstr s)) else None)"
  by (induction s) auto

lemma strcmp_some: "terminated s1 \<Longrightarrow> terminated s2 \<Longrightarrow> \<exists>r. strcmp s1 s2 = Some r"
  by (induction s1 s2 rule: strcmp.induct) auto

lemma strcmp_0_iff:
  "terminated s1 \<Longrightarrow> terminated s2 \<Longrightarrow> strcmp s1 s2 = Some 0 \<longleftrightarrow> cstr s1 = cstr s2"
  by (induction s1 s2 rule: strcmp.induct) (auto dest: signed_word_eqI)

lemma strcmp_longer:
  "terminated s1 \<Longrightarrow> terminated s2 \<Longrightarrow> cstr s1 = cstr s2 @ t \<Longrightarrow> t \<noteq> [] \<Longrightarrow> strcmp s1 s2 = Some (- 1)"
  by (induction s1 s2 rule: strcmp.induct) (auto split: if_splits)

text \<open>
  \<open>strcmp\<close> on terminated strings always returns, it returns 0 exactly for equal strings, and (unlike
  the C standard's) it returns a negative number when the first string is a proper extension of the second.
\<close>

theorem strcmp_correct:
  assumes "terminated s1" and "terminated s2"
  shows "\<exists>r. strcmp s1 s2 = Some r \<and> (r = 0 \<longleftrightarrow> cstr s1 = cstr s2) \<and>
    ((\<exists>t. t \<noteq> [] \<and> cstr s1 = cstr s2 @ t) \<longrightarrow> r < 0)"
proof -
  obtain r where r: "strcmp s1 s2 = Some r" using strcmp_some [OF assms] by blast
  then have "r = 0 \<longleftrightarrow> cstr s1 = cstr s2" using strcmp_0_iff [OF assms] by simp
  with r strcmp_longer [OF assms] show ?thesis by auto
qed

theorem strcmp_correct_witness:
  "\<exists>r. strcmp (chars ''abc'' @ [0]) (chars ''ab'' @ [0]) = Some r \<and> r < 0"
proof -
  have t: "terminated (chars ''abc'' @ [0])" "terminated (chars ''ab'' @ [0])" by (simp_all add: terminated_def)
  have "cstr (chars ''abc'' @ [0]) = cstr (chars ''ab'' @ [0]) @ chars ''c''" "chars ''c'' \<noteq> []"
    by (simp_all add: chars_def)
  with strcmp_correct [OF t] show ?thesis by blast
qed

lemma strncmp_0_iff:
  "n \<le> length (cstr s1) \<Longrightarrow> n \<le> length (cstr s2) \<Longrightarrow>
     strncmp s1 s2 n = Some 0 \<longleftrightarrow> take n (cstr s1) = take n (cstr s2)"
  by (induction s1 s2 n rule: strncmp.induct) (auto dest: signed_word_eqI split: if_splits)

lemma strncmp_some:
  "terminated s1 \<Longrightarrow> terminated s2 \<Longrightarrow> \<exists>r. strncmp s1 s2 n = Some r"
  by (induction s1 s2 n rule: strncmp.induct) auto

lemma strncmp_short:
  "terminated s1 \<Longrightarrow> terminated s2 \<Longrightarrow> cstr s1 = cstr s2 \<Longrightarrow> length (cstr s1) < n \<Longrightarrow> strncmp s1 s2 n = Some 1"
  by (induction s1 s2 n rule: strncmp.induct) (auto split: if_splits)

text \<open>
  \<open>strncmp\<close> decides equality of prefixes that both strings have in full, but reports equal
  strings that are shorter than the limit as different (it returns 1).
\<close>

theorem strncmp_correct:
  assumes "terminated s1" and "terminated s2"
  shows "(n \<le> length (cstr s1) \<and> n \<le> length (cstr s2) \<longrightarrow>
      (strncmp s1 s2 n = Some 0 \<longleftrightarrow> take n (cstr s1) = take n (cstr s2))) \<and>
    (cstr s1 = cstr s2 \<and> length (cstr s1) < n \<longrightarrow> strncmp s1 s2 n = Some 1)"
  using strncmp_0_iff strncmp_short [OF assms] by blast

theorem strncmp_correct_witness:
  "strncmp (chars ''ab'' @ [0]) (chars ''ab'' @ [0]) 3 = Some 1"
proof -
  have t: "terminated (chars ''ab'' @ [0])" by (simp add: terminated_def)
  have "length (cstr (chars ''ab'' @ [0])) < 3" by (simp add: chars_def)
  with strncmp_correct [OF t t] show ?thesis by blast
qed

end
