(* ===== verification/Format.thy ===== *)
theory Format
  imports Libc_Props
begin

text \<open>
  A reference formatter for the format strings of \<open>printf\<close>, and the proof that \<open>vsnprintf\<close>
  implements it: numbers are written as the digits of their value, fields are padded to their
  width, and the buffer receives the text, cut off and terminated.
\<close>

subsection \<open>The reference\<close>

function digits :: "nat \<Rightarrow> nat \<Rightarrow> nat list" where
  "digits b v = (if 2 \<le> b \<and> b \<le> v then digits b (v div b) @ [v mod b] else [v])"
  by pat_completeness auto
termination
  by (relation "measure snd") auto

declare digits.simps [simp del]

definition num_text :: "nat \<Rightarrow> nat \<Rightarrow> bytes" where
  "num_text b v = map (\<lambda>d. hexdigits ! d) (digits b v)"

definition field_text :: "u8 \<Rightarrow> va list \<Rightarrow> (bytes \<times> va list) option" where
  "field_text c ap =
     (if c = of_char CHR ''s'' then
        do { (s, ap) \<leftarrow> va_str ap; if terminated s then Some (cstr s, ap) else None }
      else if c = of_char CHR ''c'' then map_option (\<lambda>(v, ap). ([ucast v], ap)) (va_word ap)
      else if c = of_char CHR ''d'' then
        map_option (\<lambda>(v, ap). (if v <s 0 then (chars ''-'' @ num_text 10 (nat (- sint v)), ap)
          else (num_text 10 (nat (sint v)), ap))) (va_word ap)
      else if c = of_char CHR ''u'' then map_option (\<lambda>(v, ap). (num_text 10 (unat v), ap)) (va_word ap)
      else if c = of_char CHR ''p'' then
        map_option (\<lambda>(v, ap). (chars ''0x'' @ num_text 16 (unat v), ap)) (va_word ap)
      else if c = of_char CHR ''x'' then map_option (\<lambda>(v, ap). (num_text 16 (unat v), ap)) (va_word ap)
      else Some (chars ''%'', ap))"

text \<open>The width of a field, any number.\<close>

fun scan_width :: "nat \<Rightarrow> bytes \<Rightarrow> (nat \<times> bytes) option" where
  "scan_width w [] = None"
| "scan_width w (c # cs) = (if is_digit c then scan_width (w * 10 + (unat c - 48)) cs else Some (w, c # cs))"

lemma scan_width_length: "scan_width w cs = Some (w', rest) \<Longrightarrow> length rest \<le> length cs \<and> rest \<noteq> []"
  by (induction w cs rule: scan_width.induct) (auto split: if_splits)

definition spaces :: "nat \<Rightarrow> bytes" where
  "spaces n = replicate n (of_char CHR '' '')"

definition padded :: "bool \<Rightarrow> nat \<Rightarrow> bytes \<Rightarrow> bytes" where
  "padded right_aligned w t =
     (if right_aligned then spaces (w - length t) @ t else t @ spaces (w - length t))"

function format_text :: "bytes \<Rightarrow> va list \<Rightarrow> bytes option" where
  "format_text [] ap = None"
| "format_text (c # cs) ap =
     (if c = 0 then Some []
      else if c = of_char CHR ''%'' then
        do {
          let left = (cs \<noteq> [] \<and> hd cs = of_char CHR ''-'');
          (w, rest) \<leftarrow> scan_width 0 (if left then tl cs else cs);
          (t, ap) \<leftarrow> field_text (hd rest) ap;
          u \<leftarrow> format_text (tl rest) ap;
          Some (padded (\<not> left) w t @ u)
        }
      else map_option (\<lambda>u. c # u) (format_text cs ap))"
  by pat_completeness auto
termination
  by (relation "measure (\<lambda>(cs, ap). length cs)") (auto dest!: scan_width_length split: if_splits)

subsection \<open>Digits\<close>

lemma digits_small: "v < b \<Longrightarrow> digits b v = [v]"
  by (simp add: digits.simps [of b v])

lemma digits_step: "2 \<le> b \<Longrightarrow> b \<le> v \<Longrightarrow> digits b v = digits b (v div b) @ [v mod b]"
  by (simp add: digits.simps [of b v])

lemma digits_length: "0 < length (digits b v)"
  by (cases "2 \<le> b \<and> b \<le> v") (simp_all add: digits.simps [of b v])

lemma digits_nth:
  assumes b: "2 \<le> b"
  shows "digits b v = map (\<lambda>e. v div b ^ e mod b) (rev [0..<length (digits b v)])"
proof (induction v rule: less_induct)
  case (less v)
  show ?case
  proof (cases "b \<le> v")
    case True
    define n where "n = length (digits b (v div b))"
    have "v div b < v" using True b by simp
    from less [OF this] have ih: "digits b (v div b) = map (\<lambda>e. v div b div b ^ e mod b) (rev [0..<n])"
      by (simp add: n_def)
    have up: "[0..<Suc n] = 0 # map Suc [0..<n]" by (simp only: upt_conv_Cons map_Suc_upt zero_less_Suc)
    have "digits b v = map (\<lambda>e. v div b div b ^ e mod b) (rev [0..<n]) @ [v mod b]"
      using digits_step [OF b True] ih by simp
    also have "\<dots> = map (\<lambda>e. v div b ^ e mod b) (rev [0..<Suc n])"
      unfolding up by (simp add: rev_map div_mult2_eq)
    finally show ?thesis using digits_step [OF b True] by (simp add: n_def)
  next
    case False
    then show ?thesis by (simp add: digits_small)
  qed
qed

lemma digits_top:
  assumes b: "2 \<le> b" and v: "0 < v"
  shows "b ^ (length (digits b v) - 1) \<le> v"
  using v
proof (induction v rule: less_induct)
  case (less v)
  show ?case
  proof (cases "b \<le> v")
    case True
    then have "0 < v div b" "v div b < v" using b less.prems by (simp_all add: div_greater_zero_iff)
    from less.IH [OF this(2,1)] have "b ^ (length (digits b (v div b)) - 1) \<le> v div b" .
    then have "b * b ^ (length (digits b (v div b)) - 1) \<le> v"
      using b times_div_less_eq_dividend [of b v] by (meson mult_le_mono2 order_trans)
    then show ?thesis
      using digits_step [OF b True] digits_length [of b "v div b"] by (simp flip: power_Suc)
  qed (use less in \<open>simp add: digits_small\<close>)
qed

text \<open>The digits, read back, are the number.\<close>

lemma digits_value: "2 \<le> b \<Longrightarrow> foldl (\<lambda>a d. a * b + d) 0 (digits b v) = v"
proof (induction v rule: less_induct)
  case (less v)
  then show ?case
  proof (cases "b \<le> v")
    case True
    then have "v div b < v" using less.prems by simp
    with less True show ?thesis by (simp add: digits_step)
  qed (simp add: digits_small)
qed

subsection \<open>Writing a text\<close>

fun addchars :: "nat \<Rightarrow> bytes \<Rightarrow> out \<Rightarrow> out option" where
  "addchars sz [] out = Some out"
| "addchars sz (c # t) out = (addchar sz c out \<bind> addchars sz t)"

lemma addchars_append: "addchars sz (t @ u) out = (addchars sz t out \<bind> addchars sz u)"
proof (induction t arbitrary: out)
  case (Cons c t)
  then show ?case by (cases "addchar sz c out") simp_all
qed simp

lemma addchars_Nil [simp]: "addchars sz [] = Some"
  by (rule ext) simp

lemma addchars_single: "addchars sz [c] = addchar sz c"
  by (rule ext) simp

definition blit :: "nat \<Rightarrow> bytes \<Rightarrow> nat \<Rightarrow> bytes \<Rightarrow> bytes" where
  "blit sz str pos t =
     map (\<lambda>i. if pos \<le> i \<and> i < pos + length t \<and> i + 1 < sz then t ! (i - pos) else str ! i) [0..<length str]"

lemma length_blit [simp]: "length (blit sz str pos t) = length str"
  by (simp add: blit_def)

lemma nth_blit:
  "i < length str \<Longrightarrow> blit sz str pos t ! i =
     (if pos \<le> i \<and> i < pos + length t \<and> i + 1 < sz then t ! (i - pos) else str ! i)"
  by (simp add: blit_def)

lemma addchars_blit:
  "sz \<le> length str \<Longrightarrow> pos + length t < size_t_max \<Longrightarrow> addchars sz t (str, pos) = Some (blit sz str pos t, pos + length t)"
proof (induction t arbitrary: str pos)
  case Nil
  have "blit sz str pos [] = str" by (rule nth_equalityI) (auto simp: nth_blit)
  then show ?case by simp
next
  case (Cons c t)
  define str' where "str' = (if pos + 1 < sz then str[pos := c] else str)"
  have len: "length str' = length str" by (simp add: str'_def)
  have a: "addchar sz c (str, pos) = Some (str', pos + 1)"
    using Cons.prems by (simp add: addchar_def str'_def)
  have "blit sz str' (pos + 1) t = blit sz str pos (c # t)"
    by (rule nth_equalityI) (auto simp: nth_blit len str'_def nth_list_update nth_Cons' Suc_diff_Suc not_le)
  with a Cons.IH [of str' "pos + 1"] Cons.prems len show ?case by simp
qed

text \<open>Text that is written over by a longer text leaves no trace.\<close>

lemma blit_over:
  "length t \<le> length u \<Longrightarrow> blit sz (blit sz str pos t) pos u = blit sz str pos u"
  by (rule nth_equalityI) (auto simp: nth_blit)

lemma blit_append: "blit sz (blit sz str pos t) (pos + length t) u = blit sz str pos (t @ u)"
  by (rule nth_equalityI) (auto simp: nth_blit nth_append)

subsection \<open>Numbers\<close>

lemma unat_div_u32: "unat ((x :: u32) div y) = unat x div unat y"
  by (simp add: unat_div)

lemma num_mult_digits:
  assumes b: "2 \<le> unat base"
  shows "num_mult base x mult = Some (mult * base ^ (length (digits (unat base) (unat x)) - 1))"
proof (induction "unat x" arbitrary: x mult rule: less_induct)
  case less
  show ?case
  proof (cases "base \<le> x")
    case True
    then have le: "unat base \<le> unat x" by (simp add: word_le_nat_alt)
    then have "unat (x div base) < unat x" using b by (simp add: unat_div_u32)
    from less [OF this] have "num_mult base x mult =
        Some (mult * base * base ^ (length (digits (unat base) (unat x div unat base)) - 1))"
      using True by (simp add: num_mult.simps [of base x] unat_div_u32)
    then show ?thesis
      using digits_step [OF b le] digits_length [of "unat base" "unat x div unat base"]
      by (simp add: mult.assoc flip: power_Suc)
  next
    case False
    then show ?thesis by (simp add: num_mult.simps [of base x] word_le_nat_alt digits_small)
  qed
qed

lemma unat_power_u32: "unat (base :: u32) ^ k < 2 ^ 32 \<Longrightarrow> unat (base ^ k) = unat base ^ k"
proof (induction k)
  case (Suc k)
  show ?case
  proof (cases "unat base = 0")
    case False
    then have "unat base ^ k \<le> unat base * unat base ^ k" by simp
    from le_less_trans [OF this] Suc.prems have "unat base ^ k < 2 ^ 32" by simp
    with Suc show ?thesis by (simp add: unat_word_ariths)
  next
    case True
    then have "base = 0" by (simp add: word_unat_eq_iff)
    then show ?thesis by simp
  qed
qed simp

lemma num_digits_text:
  assumes b: "2 \<le> unat base" "unat base \<le> 16"
    and "unat mult = unat base ^ (length (digits (unat base) (unat x)) - 1)"
  shows "num_digits sz val base x mult out =
    addchars sz (map (\<lambda>e. hexdigits ! (unat val div unat base ^ e mod unat base))
      (rev [1..<length (digits (unat base) (unat x))])) out"
  using assms(3)
proof (induction "unat x" arbitrary: x mult out rule: less_induct)
  case less
  show ?case
  proof (cases "base \<le> x")
    case True
    then have le: "unat base \<le> unat x" by (simp add: word_le_nat_alt)
    let ?n = "length (digits (unat base) (unat (x div base)))"
    have n: "length (digits (unat base) (unat x)) = Suc ?n" "0 < ?n"
      using digits_step [OF b(1) le] digits_length by (simp_all add: unat_div_u32)
    have m: "unat mult = unat base ^ ?n" using less.prems n by simp
    have nz: "mult \<noteq> 0" using m b(1) by auto
    have m': "unat (mult div base) = unat base ^ (?n - 1)"
      using m n(2) b(1) by (cases ?n) (simp_all add: unat_div_u32)
    have "unat (x div base) < unat x" using le b by (simp add: unat_div_u32)
    from less.hyps [OF this m'] have ih: "num_digits sz val base (x div base) (mult div base) =
        addchars sz (map (\<lambda>e. hexdigits ! (unat val div unat base ^ e mod unat base)) (rev [1..<?n]))"
      by (rule ext)
    have "rev [1..<Suc ?n] = ?n # rev [1..<?n]" using n(2) by (simp add: Suc_le_eq)
    then show ?thesis
      using True nz ih n m
      by (simp add: num_digits.simps [of sz val base x] unat_div_u32 unat_mod)
  next
    case False
    then have "digits (unat base) (unat x) = [unat x]" by (simp add: word_le_nat_alt digits_small)
    with False show ?thesis by (simp add: num_digits.simps [of sz val base x])
  qed
qed

lemma print_num_text:
  assumes b: "2 \<le> unat base" "unat base \<le> 16"
  shows "print_num sz val base out = addchars sz (num_text (unat base) (unat val)) out"
proof -
  let ?n = "length (digits (unat base) (unat val))"
  have "unat base ^ (?n - 1) < 2 ^ 32"
  proof (cases "unat val = 0")
    case True
    then have "digits (unat base) (unat val) = [unat val]" using b by (intro digits_small) simp
    then show ?thesis by simp
  next
    case False
    then have "unat base ^ (?n - 1) \<le> unat val" using digits_top [OF b(1)] by simp
    moreover have "unat val < 2 ^ 32" using unat_lt_u32 [of val] by simp
    ultimately show ?thesis by (rule le_less_trans)
  qed
  then have m: "unat (base ^ (?n - 1)) = unat base ^ (?n - 1)" by (rule unat_power_u32)
  have "rev [0..<?n] = rev [1..<?n] @ [0]"
    using digits_length [of "unat base" "unat val"] by (simp add: upt_rec [of 0])
  then have "num_text (unat base) (unat val) =
      map (\<lambda>e. hexdigits ! (unat val div unat base ^ e mod unat base)) (rev [1..<?n]) @ [hexdigits ! unat (val mod base)]"
    unfolding num_text_def by (subst digits_nth [OF b(1)]) (simp add: unat_mod)
  then show ?thesis
    unfolding print_num_def using num_digits_text [OF b m]
    by (simp add: num_mult_digits [OF b(1)] addchars_append addchars_single)
qed

subsection \<open>Fields\<close>

lemma print_str_text:
  "print_str sz s out = (if terminated s then addchars sz (cstr s) out else None)"
  by (induction s arbitrary: out) (auto split: bind_splits)

lemma pad_spaces_text: "pad_spaces sz n out = addchars sz (replicate n (of_char CHR '' '')) out"
  by (induction n arbitrary: out) (auto split: bind_splits)

lemma neg_value: "v <s (0::u32) \<Longrightarrow> unat (- v) = nat (- sint v)" "\<not> v <s (0::u32) \<Longrightarrow> unat v = nat (sint v)"
proof -
  have r: "- (2 ^ 31) \<le> sint v" "sint v < 2 ^ 31" using sint_ge [of v] sint_lt [of v] by simp_all
  have u: "uint v = sint v mod 2 ^ 32" by (simp add: uint_sint take_bit_eq_mod)
  show "v <s 0 \<Longrightarrow> unat (- v) = nat (- sint v)"
  proof -
    assume "v <s 0"
    then have "0 \<le> - sint v" "- sint v < 2 ^ 32" using r by (simp_all add: word_sless_alt)
    moreover have "uint (- v) = (- uint v) mod 2 ^ 32" by (simp add: uint_word_ariths)
    ultimately show "unat (- v) = nat (- sint v)"
      using u by (simp add: mod_minus_eq flip: nat_uint_eq)
  qed
  show "\<not> v <s 0 \<Longrightarrow> unat v = nat (sint v)"
    using u r by (simp add: word_sless_alt flip: nat_uint_eq)
qed

lemma print_field_text:
  "print_field sz c ap out = do { (t, ap') \<leftarrow> field_text c ap; x \<leftarrow> addchars sz t out; Some (x, ap') }"
proof -
  have nums: "print_num sz v 10 = addchars sz (num_text 10 (unat v))"
    "print_num sz v 16 = addchars sz (num_text 16 (unat v))" for v
    using print_num_text [of 10] print_num_text [of 16] by auto
  note facts = print_field_def field_text_def nums print_str_text chars_def addchars_append
  consider "c = of_char CHR ''s''" | "c = of_char CHR ''c''" | "c = of_char CHR ''d''" | "c = of_char CHR ''u''"
    | "c = of_char CHR ''p''" | "c = of_char CHR ''x''"
    | "c \<notin> of_char ` {CHR ''s'', CHR ''c'', CHR ''d'', CHR ''u'', CHR ''p'', CHR ''x''}" by auto
  then show ?thesis
  proof cases
    case 1
    then show ?thesis by (cases ap rule: va_str.cases) (simp_all add: facts)
  next
    case 2
    then show ?thesis by (cases ap rule: va_word.cases) (simp_all add: facts)
  next
    case 3
    then show ?thesis
      by (cases ap rule: va_word.cases) (simp_all add: facts neg_value)
  next
    case 4
    then show ?thesis by (cases ap rule: va_word.cases) (simp_all add: facts)
  next
    case 5
    then show ?thesis
      by (cases ap rule: va_word.cases) (auto simp: facts split: bind_splits)
  next
    case 6
    then show ?thesis by (cases ap rule: va_word.cases) (simp_all add: facts)
  next
    case 7
    then show ?thesis by (auto simp: facts)
  qed
qed

text \<open>The width as the code computes it, and the number of spaces.\<close>

lemma scan_pad_width: "scan_pad (of_nat w) cs = map_option (\<lambda>(v, rest). (of_nat v, rest)) (scan_width w cs)"
proof (induction w cs rule: scan_width.induct)
  case (2 w c cs)
  have "(of_nat (w * 10 + (unat c - 48)) :: u32) = of_nat w * 10 + ucast c - 48" if "is_digit c"
  proof -
    have "48 \<le> unat c" using that by (simp add: is_digit_def word_le_nat_alt)
    then have "(of_nat (unat c - 48) :: u32) = ucast c - 48" by (simp add: of_nat_diff)
    then show ?thesis by simp
  qed
  note e = this
  show ?case
  proof (cases "is_digit c")
    case True
    then have "scan_pad (of_nat w) (c # cs) = scan_pad (of_nat (w * 10 + (unat c - 48))) cs" by (simp only: scan_pad.simps if_True e)
    with 2 [OF True] True show ?thesis by simp
  qed simp
qed simp

lemma spaces_left:
  assumes "w < 2147483648" "pos + n < 2147483648"
  shows "nat (sint ((of_nat w :: u32) - (of_nat (pos + n) - of_nat pos))) = w - n"
proof -
  have "(of_nat w :: u32) - (of_nat (pos + n) - of_nat pos) = of_int (int w - int n)" by simp
  then have "sint ((of_nat w :: u32) - (of_nat (pos + n) - of_nat pos)) = sint (of_int (int w - int n) :: u32)" by (simp only:)
  also have "\<dots> = int w - int n" unfolding signed_of_int
    using assms by (simp add: signed_take_bit_int_eq_self del: of_int_diff)
  finally show ?thesis by simp
qed

lemma padded_length: "length (padded right w t) = max w (length t)"
  by (auto simp: padded_def spaces_def max_def)

lemma print_padded_none: "field_text c ap = None \<Longrightarrow> print_padded sz right pad c ap out = None"
  by (simp add: print_padded_def print_field_text)

lemma print_padded_rest:
  "print_padded sz right pad c ap out = Some (out', ap') \<Longrightarrow> \<exists>t. field_text c ap = Some (t, ap')"
  by (auto simp: print_padded_def print_field_text Let_def bind_eq_Some_conv split: if_splits)

lemma print_padded_text:
  assumes l: "sz \<le> length str" and f: "field_text c ap = Some (t, ap')" and p: "pos + length (padded right w t) < 2147483648"
  shows "print_padded sz right (of_nat w) c ap (str, pos) =
    Some ((blit sz str pos (padded right w t), pos + length (padded right w t)), ap')"
proof -
  let ?sp = "replicate (w - length t) (of_char CHR '' '') :: bytes"
  have b: "w < 2147483648" "pos + length t < 2147483648" "pos + (w - length t) + length t < 2147483648"
    using p by (auto simp: padded_length)
  have first: "print_field sz c ap (str, pos) = Some ((blit sz str pos t, pos + length t), ap')"
    using f b by (simp add: print_field_text addchars_blit [OF l])
  note n = spaces_left [OF b(1,2)]
  show ?thesis
  proof (cases right)
    case True
    have "addchars sz ?sp (blit sz str pos t, pos) = Some (blit sz (blit sz str pos t) pos ?sp, pos + length ?sp)"
      using l b by (intro addchars_blit) simp_all
    moreover have "print_field sz c ap (blit sz (blit sz str pos t) pos ?sp, pos + length ?sp) =
        Some ((blit sz (blit sz str pos t) pos (?sp @ t), pos + length (?sp @ t)), ap')"
      using f l b by (simp add: print_field_text addchars_blit blit_append [symmetric] del: length_replicate) (simp add: addchars_blit)
    moreover have "blit sz (blit sz str pos t) pos (?sp @ t) = blit sz str pos (?sp @ t)"
      by (rule blit_over) simp
    ultimately show ?thesis
      using True first n by (simp add: print_padded_def pad_spaces_text padded_def spaces_def del: of_nat_add)
  next
    case False
    have "addchars sz ?sp (blit sz str pos t, pos + length t) =
        Some (blit sz (blit sz str pos t) (pos + length t) ?sp, pos + length t + length ?sp)"
      using l b by (intro addchars_blit) simp_all
    then show ?thesis
      using False first n by (simp add: print_padded_def pad_spaces_text padded_def spaces_def blit_append del: of_nat_add)
  qed
qed

text \<open>One field of the format, in the code and in the reference.\<close>

lemma field_unfold:
  assumes "c = of_char CHR ''%''" and left: "left = (cs \<noteq> [] \<and> hd cs = of_char CHR ''-'')"
  shows "vsnprintf_loop sz (c # cs) ap out =
      do { (w, rest) \<leftarrow> scan_width 0 (if left then tl cs else cs);
           (out, ap) \<leftarrow> print_padded sz (\<not> left) (of_nat w) (hd rest) ap out;
           vsnprintf_loop sz (tl rest) ap out }"
    and "format_text (c # cs) ap =
      do { (w, rest) \<leftarrow> scan_width 0 (if left then tl cs else cs);
           (t, ap) \<leftarrow> field_text (hd rest) ap;
           u \<leftarrow> format_text (tl rest) ap;
           Some (padded (\<not> left) w t @ u) }"
proof -
  have "scan_pad 0 s = map_option (\<lambda>(v, rest). (of_nat v, rest)) (scan_width 0 s)" for s
    using scan_pad_width [of 0] by simp
  then show "vsnprintf_loop sz (c # cs) ap out =
      do { (w, rest) \<leftarrow> scan_width 0 (if left then tl cs else cs);
           (out, ap) \<leftarrow> print_padded sz (\<not> left) (of_nat w) (hd rest) ap out;
           vsnprintf_loop sz (tl rest) ap out }"
    using assms by (cases "scan_width 0 (if left then tl cs else cs)") (auto simp: Let_def)
qed (use assms in \<open>simp add: Let_def\<close>)

lemma vsnprintf_loop_none: "format_text fmt ap = None \<Longrightarrow> vsnprintf_loop sz fmt ap out = None"
proof (induction fmt ap arbitrary: out rule: format_text.induct)
  case (2 c cs ap)
  show ?case
  proof (cases "c = of_char CHR ''%''")
    case True
    define left where "left = (cs \<noteq> [] \<and> hd cs = of_char CHR ''-'')"
    have "vsnprintf_loop sz (tl rest) ap' out' = None"
      if w: "scan_width 0 (if left then tl cs else cs) = Some (w, rest)" and f: "field_text (hd rest) ap = Some (t, ap')" for w rest t ap' out'
    proof (rule 2(1) [OF _ _ left_def w refl f refl])
      show "format_text (tl rest) ap' = None" using 2(3) w f unfolding field_unfold [OF True left_def] by (auto simp: bind_eq_None_conv)
    qed (use True in auto)
    then have "vsnprintf_loop sz (c # cs) ap out \<noteq> Some x" for x
      unfolding field_unfold [OF True left_def] by (auto simp: bind_eq_Some_conv dest!: print_padded_rest)
    then show ?thesis by (cases "vsnprintf_loop sz (c # cs) ap out") auto
  next
    case False
    with 2 show ?thesis by (cases "c = 0") (auto simp: bind_eq_None_conv)
  qed
qed simp

lemma vsnprintf_loop_text:
  "sz \<le> length str \<Longrightarrow> format_text fmt ap = Some u \<Longrightarrow> pos + length u < 2147483648 \<Longrightarrow>
     vsnprintf_loop sz fmt ap (str, pos) = Some (blit sz str pos u, pos + length u)"
proof (induction fmt ap arbitrary: str pos u rule: format_text.induct)
  case (2 c cs ap)
  show ?case
  proof (cases "c = of_char CHR ''%''")
    case True
    define left where "left = (cs \<noteq> [] \<and> hd cs = of_char CHR ''-'')"
    obtain w rest t ap' v where f: "scan_width 0 (if left then tl cs else cs) = Some (w, rest)" "field_text (hd rest) ap = Some (t, ap')"
      "format_text (tl rest) ap' = Some v" "u = padded (\<not> left) w t @ v"
      using 2(4) unfolding field_unfold [OF True left_def] by (auto simp: bind_eq_Some_conv)
    let ?p = "padded (\<not> left) w t"
    have "vsnprintf_loop sz (tl rest) ap' (blit sz str pos ?p, pos + length ?p) =
        Some (blit sz (blit sz str pos ?p) (pos + length ?p) v, pos + length ?p + length v)"
      by (rule 2(1) [OF _ _ left_def f(1) refl f(2) refl _ f(3)]) (use True 2(3,5) f(4) in auto)
    then show ?thesis
      unfolding field_unfold [OF True left_def] f(4) using f(1,2) print_padded_text [OF 2(3) f(2), of pos "\<not> left" w] 2(5) f(4)
      by (simp add: blit_append add.assoc)
  next
    case False
    show ?thesis
    proof (cases "c = 0")
      case True
      have "blit sz str pos [] = str" by (rule nth_equalityI) (auto simp: nth_blit)
      then show ?thesis using True 2(4) by simp
    next
      case nz: False
      with False 2(4) obtain v where v: "format_text cs ap = Some v" "u = c # v" by auto
      have "addchar sz c (str, pos) = Some (blit sz str pos [c], pos + 1)"
        using addchars_blit [OF 2(3), of pos "[c]"] 2(5) v(2) by (simp add: addchars_single)
      moreover have "vsnprintf_loop sz cs ap (blit sz str pos [c], pos + 1) = Some (blit sz (blit sz str pos [c]) (pos + 1) v, pos + 1 + length v)"
        using 2(2) [OF nz False, of "blit sz str pos [c]" v "pos + 1"] 2(3,5) v by simp
      moreover have "blit sz (blit sz str pos [c]) (pos + 1) v = blit sz str pos (c # v)"
        using blit_append [of sz str pos "[c]" v] by simp
      ultimately show ?thesis using False nz v(2) by simp
    qed
  qed
qed simp

lemma vsnprintf_text:
  assumes l: "sz \<le> length str" and f: "format_text fmt ap = Some t" "length t < 2147483648"
  shows "vsnprintf str sz fmt ap =
    Some (if sz = 0 then str else take (sz - 1) t @ [0] @ drop (min (length t) (sz - 1) + 1) str, length t)"
proof -
  let ?i = "if length t + 1 < sz then length t else sz - 1"
  have "(blit sz str 0 t)[?i := 0] = take (sz - 1) t @ [0] @ drop (min (length t) (sz - 1) + 1) str" if "0 < sz"
    using l that by (intro nth_equalityI) (auto simp: nth_blit nth_list_update nth_append min_def nth_Cons' split: if_splits)
  moreover have "blit 0 str 0 t = str" by (rule nth_equalityI) (auto simp: nth_blit)
  ultimately show ?thesis
    using vsnprintf_loop_text [OF l f(1), of 0] f(2) l
    by (cases "sz = 0") (auto simp: vsnprintf_def Let_def split: if_splits)
qed

text \<open>
  C33: \<open>vsnprintf\<close> into a buffer of at least \<open>sz\<close> bytes computes the text of the reference formatter, in which fields have any width and
  numbers any number of digits, as long as this text is shorter than 2GB: positions and widths are 32-bit integers in the code and wrap
  around beyond that. Every field is padded to its width and every number written in full. The buffer then holds the text cut
  off at \<open>sz - 1\<close> bytes with a terminating 0, nothing behind it is touched, and the result is the length
  of the whole text. Where the format or its arguments leave the defined behaviour, so does the call.
\<close>

theorem vsnprintf_correct:
  assumes l: "sz \<le> length str" and t: "\<forall>t. format_text fmt ap = Some t \<longrightarrow> length t < 2 ^ 31"
  shows "vsnprintf str sz fmt ap =
    (case format_text fmt ap of
       None \<Rightarrow> None
     | Some t \<Rightarrow> Some (if sz = 0 then str else take (sz - 1) t @ [0] @ drop (min (length t) (sz - 1) + 1) str, length t))"
proof (cases "format_text fmt ap")
  case None
  then show ?thesis by (simp add: vsnprintf_def vsnprintf_loop_none)
next
  case (Some u)
  with t show ?thesis using vsnprintf_text [OF l Some] by simp
qed

theorem vsnprintf_correct_witness:
  "vsnprintf (replicate 8 1) 8 (chars ''<%4d>'' @ [0]) [Word (- 12)] =
     Some (chars ''< -12>'' @ [0] @ [1], 6)"
proof -
  have "format_text (chars ''<%4d>'' @ [0]) [Word (- 12)] = Some (chars ''< -12>'')"
    by code_simp
  moreover from this have "\<forall>t. format_text (chars ''<%4d>'' @ [0]) [Word (- 12)] = Some t \<longrightarrow> length t < 2 ^ 31" by (simp add: chars_def)
  note vsnprintf_correct [OF _ this, of 8 "replicate 8 1"]
  ultimately show ?thesis by (simp add: chars_def eval_nat_numeral)
qed

text \<open>Beyond that the width wraps around: a field of \<open>2^32 + 2\<close> characters has 2.\<close>

lemma scan_pad_wraps: "scan_pad 0 (chars ''4294967298d'') = Some (2, chars ''d'')"
  by (simp add: chars_def is_digit_def)

end
