(* ===== verification/Filesystem.thy ===== *)
theory Filesystem
  imports Format
begin

text \<open>
  The read-only filesystem, \<^verbatim>\<open>source/filesystem.c\<close> and \<^verbatim>\<open>source/filesystem.h\<close>: the
  definitions. The image is the list of its bytes; a pointer to a directory or to a directory entry is its
  offset in the image, and reading outside the image is \<open>None\<close>. An entry takes 276 bytes (five words and
  256 bytes of name), a directory a word and its entries.
\<close>

definition TYPE_DIR :: u32 where [simp]: "TYPE_DIR = 1"
definition TYPE_FILE :: u32 where [simp]: "TYPE_FILE = 2"
definition MAX_FILENAME_LEN :: nat where [simp]: "MAX_FILENAME_LEN = 255"
definition ENOENT :: int where [simp]: "ENOENT = 6"

definition entry_bytes :: nat where [simp]: "entry_bytes = 276"

definition img_word :: "bytes \<Rightarrow> nat \<Rightarrow> u32 option" where
  "img_word img o1 =
     (if o1 + 4 \<le> length img
      then Some (ucast (img ! o1) OR push_bit 8 (ucast (img ! (o1 + 1))) OR
                 push_bit 16 (ucast (img ! (o1 + 2))) OR push_bit 24 (ucast (img ! (o1 + 3))))
      else None)"

text \<open>The fields of \<open>directory_entry\<close> at offset \<open>e\<close>, and \<open>directory\<close> at offset \<open>d\<close>.\<close>

definition de_size :: "bytes \<Rightarrow> nat \<Rightarrow> u32 option" where "de_size img e = img_word img e"
definition de_type :: "bytes \<Rightarrow> nat \<Rightarrow> u32 option" where "de_type img e = img_word img (e + 4)"
definition de_location :: "bytes \<Rightarrow> nat \<Rightarrow> nat option" where
  "de_location img e = map_option unat (img_word img (e + 8))"
definition de_mode :: "bytes \<Rightarrow> nat \<Rightarrow> u32 option" where "de_mode img e = img_word img (e + 12)"
definition de_mtime :: "bytes \<Rightarrow> nat \<Rightarrow> u32 option" where "de_mtime img e = img_word img (e + 16)"
definition de_name :: "bytes \<Rightarrow> nat \<Rightarrow> bytes" where "de_name img e = drop (e + 20) img"

definition dir_count :: "bytes \<Rightarrow> nat \<Rightarrow> nat option" where
  "dir_count img d = map_option unat (img_word img d)"

definition dir_entry :: "nat \<Rightarrow> nat \<Rightarrow> nat" where
  "dir_entry d i = d + 4 + entry_bytes * i"

subsection \<open>Looking up names\<close>

text \<open>\<open>name\<close> points into a path and is not terminated at \<open>len\<close>.\<close>

function lookup_loop :: "bytes \<Rightarrow> nat \<Rightarrow> bytes \<Rightarrow> nat \<Rightarrow> nat \<Rightarrow> nat \<Rightarrow> nat option option" where
  "lookup_loop img dir name len count i =
     (if i < count
      then do {
             n \<leftarrow> strlen (de_name img (dir_entry dir i));
             if n = len
             then do {
                    r \<leftarrow> strncmp (de_name img (dir_entry dir i)) name len;
                    if r = 0 then Some (Some (dir_entry dir i))
                    else lookup_loop img dir name len count (Suc i)
                  }
             else lookup_loop img dir name len count (Suc i)
           }
      else Some None)"
  by pat_completeness auto
termination
  by (relation "measure (\<lambda>(img, dir, name, len, count, i). count - i)") auto

declare lookup_loop.simps [simp del]

definition lookup :: "bytes \<Rightarrow> nat \<Rightarrow> bytes \<Rightarrow> nat \<Rightarrow> nat option option" where
  "lookup img dir name len =
     do {
       count \<leftarrow> dir_count img dir;
       lookup_loop img dir name len count 0
     }"

definition slash :: u8 where "slash = of_char CHR ''/''"

text \<open>The result is the return value and the value left in \<open>*entry\<close>.\<close>

function get_directory_entry_loop :: "bytes \<Rightarrow> bytes \<Rightarrow> nat \<Rightarrow> nat \<Rightarrow> nat \<Rightarrow> nat \<Rightarrow> nat option \<Rightarrow>
    (int \<times> nat option) option" where
  "get_directory_entry_loop img path len pos start dir entry =
     (if pos \<le> len then
        (if path ! pos = slash \<or> pos = len then
           (if start < pos then
              do {
                r \<leftarrow> lookup img dir (drop start path) (pos - start);
                case r of
                  None \<Rightarrow> Some (- ENOENT, None)
                | Some e \<Rightarrow>
                    do {
                      t \<leftarrow> de_type img e;
                      if t = TYPE_DIR
                      then do {
                             d \<leftarrow> de_location img e;
                             get_directory_entry_loop img path len (Suc pos) (Suc pos) d (Some e)
                           }
                      else if pos < len then Some (- ENOENT, Some e)
                      else get_directory_entry_loop img path len (Suc pos) (Suc pos) dir (Some e)
                    }
              }
            else get_directory_entry_loop img path len (Suc pos) (Suc pos) dir entry)
         else get_directory_entry_loop img path len (Suc pos) start dir entry)
      else Some (0, entry))"
  by pat_completeness auto
termination
  by (relation "measure (\<lambda>(img, path, len, pos, start, dir, entry). Suc len - pos)") auto

declare get_directory_entry_loop.simps [simp del]

definition get_directory_entry :: "bytes \<Rightarrow> bytes \<Rightarrow> (int \<times> nat option) option" where
  "get_directory_entry filesystem path =
     do {
       dir \<leftarrow> de_location filesystem 0;
       len \<leftarrow> strlen path;
       get_directory_entry_loop filesystem path len 0 0 dir (Some 0)
     }"

subsection \<open>Relative paths\<close>

text \<open>
  \<open>abspath\<close> (\<open>abs\<close> in the code) is a buffer of at least \<open>maxlen\<close> (\<open>max\<close>) bytes, with \<open>abs_len\<close> the length of the path in it. A read
  or write outside the buffer, as with \<open>abspath[-1]\<close> for an empty base, is \<open>None\<close>.
\<close>

fun strip_component :: "bytes \<Rightarrow> nat \<Rightarrow> (bytes \<times> nat) option" where
  "strip_component abspath 0 = Some (abspath, 0)"
| "strip_component abspath (Suc n) =
     (if 0 < n then
        (if n < length abspath then
           (if abspath ! n \<noteq> slash then strip_component (abspath[n := 0]) n else Some (abspath, Suc n))
         else None)
      else Some (abspath, Suc n))"

definition remove_last :: "bytes \<Rightarrow> nat \<Rightarrow> (bytes \<times> nat) option" where
  "remove_last abspath abs_len =
     do {
       (abspath, abs_len) \<leftarrow> strip_component abspath abs_len;
       if 1 < abs_len then Some (abspath[abs_len - 1 := 0], abs_len - 1) else Some (abspath, abs_len)
     }"

text \<open>The bytes \<open>rel[rpos..pos-1]\<close> are passed as a list.\<close>

fun append_bytes :: "nat \<Rightarrow> bytes \<Rightarrow> bytes \<Rightarrow> nat \<Rightarrow> (bytes \<times> nat) option" where
  "append_bytes maxlen [] abspath abs_len = Some (abspath, abs_len)"
| "append_bytes maxlen (c # cs) abspath abs_len =
     (if abs_len < maxlen - 1
      then (if abs_len < length abspath then append_bytes maxlen cs (abspath[abs_len := c]) (Suc abs_len) else None)
      else Some (abspath, abs_len))"

definition add_component :: "nat \<Rightarrow> bytes \<Rightarrow> bytes \<Rightarrow> nat \<Rightarrow> (bytes \<times> nat) option" where
  "add_component maxlen component abspath abs_len =
     do {
       (abspath, abs_len) \<leftarrow>
         (if abs_len < maxlen - 1
          then do {
                 assert_c (0 < abs_len \<and> abs_len < length abspath);
                 if abspath ! (abs_len - 1) \<noteq> slash
                 then Some (abspath[abs_len := slash], Suc abs_len) else Some (abspath, abs_len)
               }
          else Some (abspath, abs_len));
       (abspath, abs_len) \<leftarrow> append_bytes maxlen component abspath abs_len;
       assert_c (abs_len < length abspath);
       Some (abspath[abs_len := 0], abs_len)
     }"

definition apply_component :: "nat \<Rightarrow> bytes \<Rightarrow> nat \<Rightarrow> bytes \<Rightarrow> nat \<Rightarrow> (bytes \<times> nat) option" where
  "apply_component maxlen component namelen abspath abs_len =
     do {
       is_dot \<leftarrow> (if namelen = 1 then map_option (\<lambda>r. r = 0) (strncmp component (chars ''.'' @ [0]) namelen)
                  else Some False);
       is_dotdot \<leftarrow> (if namelen = 2 then map_option (\<lambda>r. r = 0) (strncmp component (chars ''..'' @ [0]) namelen)
                     else Some False);
       if is_dot then Some (abspath, abs_len)
       else if is_dotdot then remove_last abspath abs_len
       else add_component maxlen (take namelen component) abspath abs_len
     }"

function relative_loop :: "bytes \<Rightarrow> nat \<Rightarrow> nat \<Rightarrow> nat \<Rightarrow> nat \<Rightarrow> bytes \<Rightarrow> nat \<Rightarrow> (bytes \<times> nat) option" where
  "relative_loop rel rel_len maxlen pos start abspath abs_len =
     (if pos \<le> rel_len then
        (if rel ! pos = slash \<or> pos = rel_len then
           (if start < pos then
              do {
                x \<leftarrow> apply_component maxlen (drop start rel) (pos - start) abspath abs_len;
                relative_loop rel rel_len maxlen (Suc pos) (Suc pos) (fst x) (snd x)
              }
            else relative_loop rel rel_len maxlen (Suc pos) (Suc pos) abspath abs_len)
         else relative_loop rel rel_len maxlen (Suc pos) start abspath abs_len)
      else Some (abspath, abs_len))"
  by pat_completeness auto
termination
  by (relation "measure (\<lambda>(rel, rel_len, maxlen, pos, start, abspath, abs_len). Suc rel_len - pos)") auto

declare relative_loop.simps [simp del]

definition relative_to_absolute :: "bytes \<Rightarrow> bytes \<Rightarrow> bytes \<Rightarrow> nat \<Rightarrow> bytes option" where
  "relative_to_absolute abspath base rel maxlen =
     do {
       assert_c (rel \<noteq> []);
       (abspath, _) \<leftarrow> (if hd rel = slash then snprintf abspath maxlen (chars ''/'' @ [0]) []
                    else snprintf abspath maxlen (chars ''%s'' @ [0]) [Str base]);
       rel_len \<leftarrow> strlen rel;
       abs_len \<leftarrow> strlen abspath;
       (abspath, _) \<leftarrow> relative_loop rel rel_len maxlen 0 0 abspath abs_len;
       Some abspath
     }"

end
