(* ===== verification/Filesystem_Props.thy ===== *)
theory Filesystem_Props
  imports Filesystem
begin

text \<open>
  Reference definitions for paths and the proofs that the index loops of \<^verbatim>\<open>filesystem.c\<close>
  implement them: a path is the list of the pieces between its slashes, looking up a path is a walk over
  the pieces, and \<open>relative_to_absolute\<close> normalises \<open>.\<close> and \<open>..\<close> on lists of names.
\<close>

subsection \<open>Pieces of a path\<close>

fun pieces :: "bytes \<Rightarrow> bytes list" where
  "pieces [] = [[]]"
| "pieces (c # s) = (if c = slash then [] # pieces s else (c # hd (pieces s)) # tl (pieces s))"

lemma pieces_not_Nil [simp]: "pieces s \<noteq> []"
  by (cases s) auto

lemma pieces_last: "slash \<notin> set p \<Longrightarrow> pieces p = [p]"
  by (induction p) auto

lemma pieces_slash: "slash \<notin> set p \<Longrightarrow> pieces (p @ slash # s) = p # pieces s"
  by (induction p) auto

text \<open>The state of a scanning loop: the piece that starts at \<open>start\<close> has no slash before \<open>pos\<close>.\<close>

definition scanning :: "bytes \<Rightarrow> nat \<Rightarrow> nat \<Rightarrow> bool" where
  "scanning s start pos \<longleftrightarrow> start \<le> pos \<and> pos \<le> length s \<and> slash \<notin> set (take (pos - start) (drop start s))"

lemma scanning_step:
  assumes "scanning s start pos" "pos < length s" "s ! pos \<noteq> slash"
  shows "scanning s start (Suc pos)"
proof -
  have "take (Suc pos - start) (drop start s) = take (pos - start) (drop start s) @ [s ! pos]"
    using assms take_Suc_conv_app_nth [of "pos - start" "drop start s"] by (simp add: scanning_def Suc_diff_le diff_less_mono)
  with assms show ?thesis by (auto simp: scanning_def)
qed

lemma scanning_restart: "pos < length s \<Longrightarrow> scanning s (Suc pos) (Suc pos)"
  by (simp add: scanning_def)

lemma scanning_pieces:
  assumes "scanning s start pos"
  shows "pos < length s \<Longrightarrow> s ! pos = slash \<Longrightarrow>
      pieces (drop start s) = take (pos - start) (drop start s) # pieces (drop (Suc pos) s)"
    and "pos = length s \<Longrightarrow> pieces (drop start s) = [drop start s]"
proof -
  show "pieces (drop start s) = take (pos - start) (drop start s) # pieces (drop (Suc pos) s)"
    if "pos < length s" "s ! pos = slash"
  proof -
    have "drop start s = take (pos - start) (drop start s) @ drop pos s"
      using assms append_take_drop_id [of "pos - start" "drop start s"] by (simp add: scanning_def)
    also have "drop pos s = slash # drop (Suc pos) s" using that by (simp add: Cons_nth_drop_Suc [symmetric])
    finally show ?thesis using assms pieces_slash [of "take (pos - start) (drop start s)"]
      by (metis scanning_def)
  qed
  show "pieces (drop start s) = [drop start s]" if "pos = length s"
    using assms that by (intro pieces_last) (simp add: scanning_def)
qed

lemma cstr_nth: "i < length (cstr s) \<Longrightarrow> cstr s ! i = s ! i"
  by (simp add: cstr_def takeWhile_nth)

lemma cstr_drop: "n \<le> length (cstr s) \<Longrightarrow> cstr (drop n s) = drop n (cstr s)"
  by (induction s arbitrary: n) (auto simp: drop_Cons' split: if_splits)

lemma terminated_drop: "terminated s \<Longrightarrow> n \<le> length (cstr s) \<Longrightarrow> terminated (drop n s)"
  by (induction s arbitrary: n) (auto simp: drop_Cons' split: if_splits)

lemma terminated_end: "terminated s \<Longrightarrow> s ! length (cstr s) = 0"
  by (induction s) auto

subsection \<open>Looking up a path\<close>

fun find_name :: "bytes \<Rightarrow> bytes \<Rightarrow> nat list \<Rightarrow> nat option option" where
  "find_name img p [] = Some None"
| "find_name img p (e # es) =
     (if \<not> terminated (de_name img e) then None
      else if cstr (de_name img e) = p then Some (Some e) else find_name img p es)"

definition dir_entries :: "nat \<Rightarrow> nat \<Rightarrow> nat list" where
  "dir_entries d n = map (dir_entry d) [0..<n]"

definition find_entry :: "bytes \<Rightarrow> nat \<Rightarrow> bytes \<Rightarrow> nat option option" where
  "find_entry img d p = do { n \<leftarrow> dir_count img d; find_name img p (dir_entries d n) }"

fun walk :: "bytes \<Rightarrow> nat \<Rightarrow> nat option \<Rightarrow> bytes list \<Rightarrow> (int \<times> nat option) option" where
  "walk img d entry [] = Some (0, entry)"
| "walk img d entry (p # ps) =
     (if p = [] then walk img d entry ps
      else do {
        r \<leftarrow> find_entry img d p;
        case r of
          None \<Rightarrow> Some (- ENOENT, None)
        | Some e \<Rightarrow>
            do {
              t \<leftarrow> de_type img e;
              if t = TYPE_DIR then do { d' \<leftarrow> de_location img e; walk img d' (Some e) ps }
              else if ps \<noteq> [] then Some (- ENOENT, Some e)
              else Some (0, Some e)
            }
      })"

lemma lookup_loop_find:
  assumes t: "terminated name" and len: "len \<le> length (cstr name)"
  shows "lookup_loop img d name len n i = find_name img (take len (cstr name)) (map (dir_entry d) [i..<n])"
proof (induction "n - i" arbitrary: i)
  case 0
  then show ?case by (simp add: lookup_loop.simps [of _ _ _ _ n i])
next
  case (Suc k)
  let ?nm = "de_name img (dir_entry d i)"
  have i: "i < n" "[i..<n] = i # [Suc i..<n]" using Suc(2) by (simp_all add: upt_conv_Cons)
  have ih: "lookup_loop img d name len n (Suc i) =
      find_name img (take len (cstr name)) (map (dir_entry d) [Suc i..<n])"
    using Suc by (intro Suc(1)) simp
  show ?case
  proof (cases "terminated ?nm")
    case False
    then show ?thesis using i by (simp add: lookup_loop.simps [of _ _ _ _ n i] strlen_cstr)
  next
    case True
    obtain r where r: "strncmp ?nm name len = Some r" using strncmp_some [OF True t] by blast
    have "r = 0 \<longleftrightarrow> cstr ?nm = take len (cstr name)" if "length (cstr ?nm) = len"
      using strncmp_0_iff [of len ?nm name] that len r by simp
    moreover have "length (cstr ?nm) = len" if "cstr ?nm = take len (cstr name)" using that len by simp
    ultimately show ?thesis
      using True i ih r by (auto simp: lookup_loop.simps [of _ _ _ _ n i] strlen_cstr)
  qed
qed

lemma lookup_find:
  assumes "terminated name" "len \<le> length (cstr name)"
  shows "lookup img d name len = find_entry img d (take len (cstr name))"
  by (simp add: lookup_def find_entry_def dir_entries_def lookup_loop_find [OF assms])

lemma get_directory_entry_loop_end:
  "len < pos \<Longrightarrow> get_directory_entry_loop img path len pos start d entry = Some (0, entry)"
  by (simp add: get_directory_entry_loop.simps [of _ _ len pos])

lemma get_directory_entry_loop_walk:
  assumes t: "terminated path" and sc: "scanning (cstr path) start pos"
  shows "get_directory_entry_loop img path (length (cstr path)) pos start d entry =
    walk img d entry (pieces (drop start (cstr path)))"
  using sc
proof (induction "length (cstr path) - pos" arbitrary: pos start d entry rule: less_induct)
  case less
  let ?s = "cstr path" and ?len = "length (cstr path)"
  let ?name = "take (pos - start) (drop start ?s)"
  have le: "start \<le> pos" "pos \<le> ?len" using less.prems by (auto simp: scanning_def)
  have name: "lookup img d (drop start path) (pos - start) = find_entry img d ?name" for d
    using le lookup_find [of "drop start path" "pos - start" img d] terminated_drop [OF t, of start]
    by (simp add: cstr_drop)
  have empty: "?name = [] \<longleftrightarrow> \<not> start < pos" using le by auto
  show ?case
  proof (cases "pos = ?len")
    case True
    have one: "pieces (drop start ?s) = [?name]" using scanning_pieces(2) [OF less.prems True] True by simp
    show ?thesis
      unfolding one using True empty name
      by (subst get_directory_entry_loop.simps)
        (simp add: get_directory_entry_loop_end split: option.splits cong: if_cong)
  next
    case False
    then have lt: "pos < ?len" using le by simp
    then have nth: "path ! pos = ?s ! pos" by (simp add: cstr_nth)
    show ?thesis
    proof (cases "?s ! pos = slash")
      case True
      note two = scanning_pieces(1) [OF less.prems lt True]
      have ih: "get_directory_entry_loop img path ?len (Suc pos) (Suc pos) d entry =
          walk img d entry (pieces (drop (Suc pos) ?s))" for d entry
        by (rule less.hyps [OF _ scanning_restart [OF lt]]) (use lt in simp)
      show ?thesis
        unfolding two using True lt nth empty name ih
        by (simp add: get_directory_entry_loop.simps [of img path _ pos] split: option.splits cong: if_cong)
    next
      case False
      have "get_directory_entry_loop img path ?len (Suc pos) start d entry = walk img d entry (pieces (drop start ?s))"
        by (rule less.hyps [OF _ scanning_step [OF less.prems lt False]]) (use lt in simp)
      then show ?thesis using lt nth False
        by (simp add: get_directory_entry_loop.simps [of img path _ pos])
    qed
  qed
qed

text \<open>
  C38: \<open>get_directory_entry\<close> is the walk from the root directory over the pieces of the path: empty pieces
  are skipped, every other piece is the first entry of the current directory with exactly this name, a
  directory is entered, and a missing name or a file with anything behind it gives \<open>-ENOENT\<close>.
\<close>

theorem get_directory_entry_correct:
  assumes "terminated path"
  shows "get_directory_entry filesystem path =
    do { root \<leftarrow> de_location filesystem 0; walk filesystem root (Some 0) (pieces (cstr path)) }"
  using get_directory_entry_loop_walk [OF assms, of 0 0] assms
  by (simp add: get_directory_entry_def strlen_cstr scanning_def)

theorem get_directory_entry_correct_witness:
  "get_directory_entry (replicate 300 0) (chars ''/a'' @ [0]) = Some (- ENOENT, None)"
proof -
  have t: "terminated (chars ''/a'' @ [0])" by (simp add: terminated_def)
  have "de_location (replicate 300 0) 0 = Some 0" "dir_count (replicate 300 0) 0 = Some 0"
    by (simp_all add: de_location_def dir_count_def img_word_def)
  moreover have "pieces (cstr (chars ''/a'' @ [0])) = [[], chars ''a'']" by (simp add: chars_def slash_def)
  ultimately show ?thesis
    using get_directory_entry_correct [OF t, of "replicate 300 0"]
    by (simp add: find_entry_def dir_entries_def chars_def)
qed

subsection \<open>Relative paths\<close>

definition name_ok :: "bytes \<Rightarrow> bool" where
  "name_ok c \<longleftrightarrow> c \<noteq> [] \<and> slash \<notin> set c \<and> 0 \<notin> set c"

definition path_text :: "bytes list \<Rightarrow> bytes" where
  "path_text cs = (if cs = [] then [slash] else concat (map (\<lambda>c. slash # c) cs))"

definition norm_step :: "bytes list \<Rightarrow> bytes \<Rightarrow> bytes list" where
  "norm_step cs p =
     (if p = [] \<or> p = chars ''.'' then cs else if p = chars ''..'' then butlast cs else cs @ [p])"

text \<open>The buffer holds the path with the names \<open>cs\<close>.\<close>

definition holds :: "bytes list \<Rightarrow> bytes \<Rightarrow> nat \<Rightarrow> bool" where
  "holds cs b n \<longleftrightarrow>
     (\<forall>c\<in>set cs. name_ok c) \<and> n = length (path_text cs) \<and> n < length b \<and> take n b = path_text cs \<and> b ! n = 0"

lemma slash_not_0 [simp]: "slash \<noteq> 0"
  by (simp add: slash_def)

lemma path_text_snoc: "path_text (cs @ [c]) = concat (map (\<lambda>c. slash # c) cs) @ slash # c"
  by (simp add: path_text_def)

lemma path_text_pos [simp]: "path_text cs \<noteq> []"
  by (cases cs) (auto simp: path_text_def)

lemma path_text_no_0: "\<forall>c\<in>set cs. name_ok c \<Longrightarrow> 0 \<notin> set (path_text cs)"
  by (auto simp: path_text_def name_ok_def slash_def)

lemma take_update_hi: "n \<le> i \<Longrightarrow> take n (xs[i := x]) = take n xs"
  by (simp add: take_update_swap list_update_beyond)

lemma nth_of_take: "take n b = xs \<Longrightarrow> i < length xs \<Longrightarrow> b ! i = xs ! i"
  by auto

lemma take_of_take: "take n b = xs @ ys \<Longrightarrow> take (length xs) b = xs"
  by (metis append_eq_conv_conj append_take_drop_id append.assoc)

lemma holds_cstr:
  assumes "holds cs b n"
  shows "terminated b" "cstr b = path_text cs"
proof -
  from assms have h: "n < length b" "take n b = path_text cs" "b ! n = 0" "0 \<notin> set (path_text cs)"
    by (auto simp: holds_def path_text_no_0)
  then have "b = path_text cs @ 0 # drop (Suc n) b" by (metis id_take_nth_drop)
  then show "terminated b" "cstr b = path_text cs"
    using cstr_append_0 [OF h(4)] by (metis terminated_def in_set_conv_decomp, metis)
qed

lemma strip_component_spec:
  assumes "take (length P + 1 + length c) b = P @ slash # c" "length P + 1 + length c \<le> length b" "slash \<notin> set c"
  shows "\<exists>b'. strip_component b (length P + 1 + length c) = Some (b', length P + 1) \<and> length b' = length b \<and>
    take (length P + 1) b' = P @ [slash] \<and> (c = [] \<longrightarrow> b' = b) \<and> (c \<noteq> [] \<longrightarrow> b' ! (length P + 1) = 0)"
  using assms
proof (induction c arbitrary: b rule: rev_induct)
  case Nil
  then have "length P < length b" by simp
  have "b ! length P = slash" using nth_of_take [OF Nil(1), of "length P"] by simp
  with Nil \<open>length P < length b\<close> show ?case by simp
next
  case (snoc x d)
  let ?n = "length P + 1 + length d"
  have lt: "?n < length b" using snoc.prems(2) by simp
  have x: "b ! ?n = x" using nth_of_take [OF snoc.prems(1), of ?n] by (simp add: nth_append)
  have "take ?n b = P @ slash # d"
    using take_of_take [of _ b "P @ slash # d" "[x]"] snoc.prems(1) by simp
  then have t: "take ?n (b[?n := 0]) = P @ slash # d" by simp
  have "\<exists>b'. strip_component (b[?n := 0]) ?n = Some (b', length P + 1) \<and> length b' = length (b[?n := 0]) \<and>
      take (length P + 1) b' = P @ [slash] \<and> (d = [] \<longrightarrow> b' = b[?n := 0]) \<and> (d \<noteq> [] \<longrightarrow> b' ! (length P + 1) = 0)"
    using snoc.IH [OF t] snoc.prems(3) lt by simp
  then obtain b' where b': "strip_component (b[?n := 0]) ?n = Some (b', length P + 1)" "length b' = length b"
    "take (length P + 1) b' = P @ [slash]" "d = [] \<longrightarrow> b' = b[?n := 0]" "d \<noteq> [] \<longrightarrow> b' ! (length P + 1) = 0"
    by auto
  have "strip_component b (Suc ?n) = strip_component (b[?n := 0]) ?n"
    using lt x snoc.prems(3) by auto
  moreover have "b' ! (length P + 1) = 0" using b'(4,5) lt by (cases "d = []") auto
  ultimately show ?case using b' by (intro exI [of _ b']) simp
qed

lemma remove_last_holds:
  assumes h: "holds cs b n"
  shows "\<exists>b' n'. remove_last b n = Some (b', n') \<and> holds (butlast cs) b' n' \<and> length b' = length b \<and> n' \<le> n"
proof (cases cs rule: rev_cases)
  case Nil
  then have "n = 1" using h by (simp add: holds_def path_text_def)
  then have "remove_last b n = Some (b, n)" by (simp add: remove_last_def numeral_eq_Suc)
  with h Nil show ?thesis by simp
next
  case (snoc ds c)
  let ?P = "concat (map (\<lambda>c. slash # c) ds)"
  from h snoc have hh: "n = length ?P + 1 + length c" "take n b = ?P @ slash # c" "n < length b"
    "\<forall>c\<in>set ds. name_ok c" "c \<noteq> []" "slash \<notin> set c"
    by (auto simp: holds_def path_text_snoc name_ok_def)
  from strip_component_spec [of ?P c b] hh obtain b' where
    b': "strip_component b n = Some (b', length ?P + 1)" "length b' = length b"
      "take (length ?P + 1) b' = ?P @ [slash]" "b' ! (length ?P + 1) = 0" by auto
  show ?thesis
  proof (cases "ds = []")
    case True
    then have "remove_last b n = Some (b', 1)" using b'(1) by (simp add: remove_last_def)
    moreover have "holds [] b' 1" using b' True hh by (simp add: holds_def path_text_def)
    ultimately show ?thesis using snoc True b'(2) hh(1) by auto
  next
    case False
    then have pos: "0 < length ?P" by (cases ds) auto
    then have r: "remove_last b n = Some (b'[length ?P := 0], length ?P)" using b'(1) by (simp add: remove_last_def)
    have "take (length ?P) b' = ?P" by (rule take_of_take [OF b'(3)])
    then have "holds ds (b'[length ?P := 0]) (length ?P)"
      using b'(2) hh False by (simp add: holds_def path_text_def take_update_hi)
    with r snoc b'(2) hh(1) show ?thesis by auto
  qed
qed

lemma append_bytes_spec:
  assumes "n + length cs \<le> mx - 1" "mx - 1 < length b"
  shows "\<exists>b'. append_bytes mx cs b n = Some (b', n + length cs) \<and> length b' = length b \<and>
    take (n + length cs) b' = take n b @ cs"
  using assms
proof (induction cs arbitrary: b n)
  case (Cons c cs)
  have lt: "n < length b" "n < mx - 1" using Cons.prems by simp_all
  from Cons.IH [of "Suc n" "b[n := c]"] Cons.prems obtain b' where
    "append_bytes mx cs (b[n := c]) (Suc n) = Some (b', Suc n + length cs)" "length b' = length b"
    "take (Suc n + length cs) b' = take (Suc n) (b[n := c]) @ cs" by auto
  moreover have "take (Suc n) (b[n := c]) = take n b @ [c]" using lt by (simp add: take_Suc_conv_app_nth)
  ultimately show ?case using lt by auto
qed simp

lemma last_path_text:
  assumes "\<forall>c\<in>set cs. name_ok c"
  shows "last (path_text cs) = slash \<longleftrightarrow> cs = []"
proof (cases cs rule: rev_cases)
  case (snoc ds c)
  with assms have "c \<noteq> []" "slash \<notin> set c" by (auto simp: name_ok_def)
  then have "last c \<noteq> slash" by (metis last_in_set)
  with snoc \<open>c \<noteq> []\<close> show ?thesis by (simp add: path_text_snoc)
qed (simp add: path_text_def)

lemma add_component_holds:
  assumes h: "holds cs b n" and p: "name_ok p" and mx: "n + 1 + length p \<le> mx - 1" "mx - 1 < length b"
  shows "\<exists>b' n'. add_component mx p b n = Some (b', n') \<and> holds (cs @ [p]) b' n' \<and> length b' = length b \<and>
    n' \<le> n + 1 + length p"
proof -
  from h have hh: "\<forall>c\<in>set cs. name_ok c" "n = length (path_text cs)" "n < length b" "take n b = path_text cs"
    by (auto simp: holds_def)
  have n0: "0 < n" using hh(2) by simp
  have lst: "b ! (n - 1) = last (path_text cs)"
    using nth_of_take [OF hh(4), of "n - 1"] hh(2) n0 by (simp add: last_conv_nth)
  define b1 where "b1 = (if cs = [] then b else b[n := slash])"
  define n1 where "n1 = (if cs = [] then n else Suc n)"
  have s1: "take n1 b1 @ p = path_text (cs @ [p])" "length b1 = length b" "n1 \<le> n + 1"
  proof -
    show "length b1 = length b" "n1 \<le> n + 1" by (simp_all add: b1_def n1_def)
    have "take (Suc n) (b[n := slash]) = take n b @ [slash]" using hh(3) by (simp add: take_Suc_conv_app_nth)
    then show "take n1 b1 @ p = path_text (cs @ [p])"
      using hh(4) by (auto simp: b1_def n1_def path_text_def)
  qed
  have first: "(if n < mx - 1 then do { assert_c (0 < n \<and> n < length b);
        if b ! (n - 1) \<noteq> slash then Some (b[n := slash], Suc n) else Some (b, n) } else Some (b, n)) = Some (b1, n1)"
    using mx n0 hh(3) lst last_path_text [OF hh(1)] by (simp add: b1_def n1_def)
  from append_bytes_spec [of n1 p mx b1] mx s1 obtain b2 where
    b2: "append_bytes mx p b1 n1 = Some (b2, n1 + length p)" "length b2 = length b"
      "take (n1 + length p) b2 = path_text (cs @ [p])" by auto
  have lt: "n1 + length p < length b2" using mx s1 b2(2) by simp
  have "length (take (n1 + length p) b2) = length (path_text (cs @ [p]))" using b2(3) by simp
  then have len: "length (path_text (cs @ [p])) = n1 + length p" using lt by simp
  have "add_component mx p b n = Some (b2[n1 + length p := 0], n1 + length p)"
    unfolding add_component_def first using b2(1) lt by simp
  moreover have "holds (cs @ [p]) (b2[n1 + length p := 0]) (n1 + length p)"
    using hh(1) p lt b2(3) len by (auto simp: holds_def)
  ultimately show ?thesis using b2(2) s1(3) by auto
qed

definition comp_step :: "nat \<Rightarrow> bytes \<Rightarrow> bytes \<Rightarrow> nat \<Rightarrow> (bytes \<times> nat) option" where
  "comp_step mx p b n =
     (if p = chars ''.'' then Some (b, n) else if p = chars ''..'' then remove_last b n else add_component mx p b n)"

fun comp_steps :: "nat \<Rightarrow> bytes list \<Rightarrow> bytes \<Rightarrow> nat \<Rightarrow> (bytes \<times> nat) option" where
  "comp_steps mx [] b n = Some (b, n)"
| "comp_steps mx (p # ps) b n =
     (if p = [] then comp_steps mx ps b n
      else do { x \<leftarrow> comp_step mx p b n; comp_steps mx ps (fst x) (snd x) })"

lemma apply_component_step:
  assumes t: "terminated s" and n: "n \<le> length (cstr s)"
  shows "apply_component mx s n b k = comp_step mx (take n (cstr s)) b k"
proof -
  have dots: "strncmp s (chars ''.'' @ [0]) n = Some 0 \<longleftrightarrow> take n (cstr s) = chars ''.''" if "n = 1"
    using strncmp_0_iff [of n s "chars ''.'' @ [0]"] n that by (simp add: chars_def)
  have dotdots: "strncmp s (chars ''..'' @ [0]) n = Some 0 \<longleftrightarrow> take n (cstr s) = chars ''..''" if "n = 2"
    using strncmp_0_iff [of n s "chars ''..'' @ [0]"] n that by (simp add: chars_def)
  obtain r1 r2 where r: "strncmp s (chars ''.'' @ [0]) n = Some r1" "strncmp s (chars ''..'' @ [0]) n = Some r2"
    using strncmp_some [OF t, of "chars ''.'' @ [0]" n] strncmp_some [OF t, of "chars ''..'' @ [0]" n]
    by (auto simp: terminated_def)
  have len: "length (take n (cstr s)) = n" using n by simp
  have "s = cstr s @ dropWhile (\<lambda>c. c \<noteq> 0) s" by (simp add: cstr_def)
  then have take: "take n s = take n (cstr s)"
    using n by (metis append_Nil2 diff_is_0_eq' take0 take_append)
  have one: "n = 1" if "take n (cstr s) = chars ''.''" using arg_cong [OF that, of length] len by (simp add: chars_def)
  have two: "n = 2" if "take n (cstr s) = chars ''..''" using arg_cong [OF that, of length] len by (simp add: chars_def)
  consider "n = 1" | "n = 2" | "n \<noteq> 1" "n \<noteq> 2" by blast
  then show ?thesis
  proof cases
    case 1
    then show ?thesis using dots two r(1) take by (auto simp: apply_component_def comp_step_def)
  next
    case 2
    then show ?thesis using dotdots one r(2) take by (auto simp: apply_component_def comp_step_def)
  next
    case 3
    then show ?thesis using one two take by (auto simp: apply_component_def comp_step_def)
  qed
qed

lemma relative_loop_end: "len < pos \<Longrightarrow> relative_loop rel len mx pos start b n = Some (b, n)"
  by (simp add: relative_loop.simps [of _ len _ pos])

lemma relative_loop_steps:
  assumes t: "terminated rel" and sc: "scanning (cstr rel) start pos"
  shows "relative_loop rel (length (cstr rel)) mx pos start b n = comp_steps mx (pieces (drop start (cstr rel))) b n"
  using sc
proof (induction "length (cstr rel) - pos" arbitrary: pos start b n rule: less_induct)
  case less
  let ?s = "cstr rel" and ?len = "length (cstr rel)"
  let ?name = "take (pos - start) (drop start ?s)"
  have le: "start \<le> pos" "pos \<le> ?len" using less.prems by (auto simp: scanning_def)
  have name: "apply_component mx (drop start rel) (pos - start) b n = comp_step mx ?name b n" for b n
    using le apply_component_step [of "drop start rel" "pos - start" mx b n] terminated_drop [OF t, of start]
    by (simp add: cstr_drop)
  have empty: "?name = [] \<longleftrightarrow> \<not> start < pos" using le by auto
  show ?case
  proof (cases "pos = ?len")
    case True
    have one: "pieces (drop start ?s) = [?name]" using scanning_pieces(2) [OF less.prems True] True by simp
    show ?thesis
      unfolding one using True empty name
      by (subst relative_loop.simps) (simp add: relative_loop_end)
  next
    case False
    then have lt: "pos < ?len" using le by simp
    then have nth: "rel ! pos = ?s ! pos" by (simp add: cstr_nth)
    show ?thesis
    proof (cases "?s ! pos = slash")
      case True
      note two = scanning_pieces(1) [OF less.prems lt True]
      have ih: "relative_loop rel ?len mx (Suc pos) (Suc pos) b n = comp_steps mx (pieces (drop (Suc pos) ?s)) b n" for b n
        by (rule less.hyps [OF _ scanning_restart [OF lt]]) (use lt in simp)
      show ?thesis
        unfolding two using True lt nth empty name ih by (subst relative_loop.simps) simp
    next
      case False
      have "relative_loop rel ?len mx (Suc pos) start b n = comp_steps mx (pieces (drop start ?s)) b n"
        by (rule less.hyps [OF _ scanning_step [OF less.prems lt False]]) (use lt in simp)
      then show ?thesis using lt nth False by (subst relative_loop.simps) simp
    qed
  qed
qed

lemma comp_step_holds:
  assumes h: "holds cs b n" and p: "name_ok p" and mx: "n + 1 + length p \<le> mx - 1" "mx - 1 < length b"
  shows "\<exists>b' n'. comp_step mx p b n = Some (b', n') \<and> holds (norm_step cs p) b' n' \<and> length b' = length b \<and>
    n' \<le> n + 1 + length p"
proof -
  have "p \<noteq> []" using p by (simp add: name_ok_def)
  consider "p = chars ''.''" | "p = chars ''..''" "p \<noteq> chars ''.''" | "p \<noteq> chars ''.''" "p \<noteq> chars ''..''" by blast
  then show ?thesis
  proof cases
    case 1
    with h show ?thesis by (auto simp: comp_step_def norm_step_def)
  next
    case 2
    from remove_last_holds [OF h] obtain b' n' where
      "remove_last b n = Some (b', n')" "holds (butlast cs) b' n'" "length b' = length b" "n' \<le> n" by blast
    with 2 \<open>p \<noteq> []\<close> show ?thesis by (simp add: comp_step_def norm_step_def)
  next
    case 3
    with add_component_holds [OF assms] \<open>p \<noteq> []\<close> show ?thesis by (auto simp: comp_step_def norm_step_def)
  qed
qed

definition pieces_length :: "bytes list \<Rightarrow> nat" where
  "pieces_length ps = sum_list (map (\<lambda>p. length p + 1) ps)"

lemma pieces_length_eq: "pieces_length (pieces s) = length s + 1"
proof (induction s)
  case (Cons c s)
  then show ?case by (cases "pieces s") (auto simp: pieces_length_def)
qed (simp add: pieces_length_def)

lemma pieces_names: "p \<in> set (pieces s) \<Longrightarrow> 0 \<notin> set s \<Longrightarrow> p = [] \<or> name_ok p"
proof -
  have "slash \<notin> set p \<and> set p \<subseteq> set s" if "p \<in> set (pieces s)" for p
    using that
  proof (induction s arbitrary: p)
    case (Cons c s)
    show ?case
    proof (cases "c = slash")
      case False
      obtain q qs where q: "pieces s = q # qs" by (cases "pieces s") auto
      then have "slash \<notin> set r \<and> set r \<subseteq> set s" if "r = q \<or> r \<in> set qs" for r using Cons.IH [of r] that by auto
      with Cons.prems False q show ?thesis by fastforce
    qed (use Cons in auto)
  qed simp
  then show "p \<in> set (pieces s) \<Longrightarrow> 0 \<notin> set s \<Longrightarrow> p = [] \<or> name_ok p" by (auto simp: name_ok_def)
qed

lemma comp_steps_holds:
  assumes "holds cs b n" "\<forall>p\<in>set ps. p = [] \<or> name_ok p" "n + pieces_length ps \<le> mx - 1" "mx - 1 < length b"
  shows "\<exists>b' n'. comp_steps mx ps b n = Some (b', n') \<and> holds (foldl norm_step cs ps) b' n' \<and> length b' = length b"
  using assms
proof (induction ps arbitrary: cs b n)
  case (Cons p ps)
  show ?case
  proof (cases "p = []")
    case True
    with Cons show ?thesis by (simp add: norm_step_def pieces_length_def)
  next
    case False
    then have p: "name_ok p" using Cons.prems(2) by simp
    have mx: "n + 1 + length p + pieces_length ps \<le> mx - 1" using Cons.prems(3) by (simp add: pieces_length_def)
    from comp_step_holds [OF Cons.prems(1) p _ Cons.prems(4)] mx obtain b1 n1 where
      1: "comp_step mx p b n = Some (b1, n1)" "holds (norm_step cs p) b1 n1" "length b1 = length b" "n1 \<le> n + 1 + length p"
      by auto
    have "n1 + pieces_length ps \<le> mx - 1" using 1(4) mx by simp
    from Cons.IH [OF 1(2) _ this] Cons.prems(2,4) 1(3) obtain b' n' where
      "comp_steps mx ps b1 n1 = Some (b', n')" "holds (foldl norm_step (norm_step cs p) ps) b' n'" "length b' = length b"
      by auto
    with 1(1) False show ?thesis by simp
  qed
qed simp

lemma relative_to_absolute_normal:
  assumes cs: "\<forall>c\<in>set cs. name_ok c" and base: "cstr base = path_text cs" "terminated base" and rel: "terminated rel"
    and mx: "length (path_text cs) + 1 + length (cstr rel) < maxlen" "maxlen \<le> length abspath" "maxlen < 2 ^ 31"
  shows "\<exists>b. relative_to_absolute abspath base rel maxlen = Some b \<and> terminated b \<and> length b = length abspath \<and>
    cstr b = path_text (foldl norm_step (if hd rel = slash then [] else cs) (pieces (cstr rel)))"
proof -
  define st where "st = (if hd rel = slash then [] else cs)"
  have st: "\<forall>c\<in>set st. name_ok c" "length (path_text st) \<le> length (path_text cs)"
    using cs by (auto simp: st_def path_text_def name_ok_def Suc_le_eq split: if_splits)
  have ft: "format_text (chars ''/'' @ [0]) [] = Some [slash]" "format_text (chars ''%s'' @ [0]) [Str base] = Some (cstr base)"
    using base(2) by (simp_all add: chars_def slash_def field_text_def padded_def spaces_def is_digit_def Let_def)
  have ftxt: "format_text (if hd rel = slash then chars ''/'' @ [0] else chars ''%s'' @ [0])
      (if hd rel = slash then [] else [Str base]) = Some (path_text st)"
    using ft base(1) by (simp add: st_def path_text_def [of "[]"])
  let ?b = "path_text st @ [0] @ drop (length (path_text st) + 1) abspath"
  have lt: "length (path_text st) < maxlen - 1" using st(2) mx(1) by linarith
  then have s1: "(if hd rel = slash then snprintf abspath maxlen (chars ''/'' @ [0]) []
      else snprintf abspath maxlen (chars ''%s'' @ [0]) [Str base]) = Some (?b, length (path_text st))"
    using vsnprintf_text [OF mx(2) ftxt] mx(3) by (auto simp: snprintf_def split: if_splits)
  have len: "length ?b = length abspath" using lt mx(2) by simp
  have h: "holds st ?b (length (path_text st))"
    using st(1) lt mx(2) by (simp add: holds_def nth_append)
  have "length (path_text st) + pieces_length (pieces (cstr rel)) \<le> maxlen - 1"
    using st(2) mx(1) by (simp add: pieces_length_eq)
  moreover have "\<forall>p\<in>set (pieces (cstr rel)). p = [] \<or> name_ok p" using pieces_names [OF _ cstr_no_0] by blast
  moreover have "maxlen - 1 < length ?b" unfolding len using mx(1,2) by linarith
  ultimately have "\<exists>b n. comp_steps maxlen (pieces (cstr rel)) ?b (length (path_text st)) = Some (b, n) \<and>
      holds (foldl norm_step st (pieces (cstr rel))) b n \<and> length b = length ?b"
    using comp_steps_holds [OF h] by blast
  then obtain b n where
    r: "comp_steps maxlen (pieces (cstr rel)) ?b (length (path_text st)) = Some (b, n)"
      "holds (foldl norm_step st (pieces (cstr rel))) b n" "length b = length abspath" unfolding len by blast
  have "rel \<noteq> []" using rel by auto
  then have "relative_to_absolute abspath base rel maxlen = Some b"
    using s1 r(1) relative_loop_steps [OF rel, of 0 0] rel holds_cstr [OF h]
    by (simp add: relative_to_absolute_def strlen_cstr scanning_def)
  with r holds_cstr [OF r(2)] show ?thesis by (auto simp: st_def)
qed

text \<open>
  C39: \<open>relative_to_absolute\<close> normalises paths. Given a base directory in normal form (an absolute path of
  proper names) and a buffer, of a size that is an \<open>int\<close>, in which base and relative path fit together, the buffer afterwards holds the
  normal form of the relative path read from the base, or from the root when it starts with a slash: empty
  pieces and \<open>.\<close> are dropped, \<open>..\<close> removes the last name, and at the root does nothing.
\<close>

theorem relative_to_absolute_correct:
  assumes cs: "\<forall>c\<in>set cs. name_ok c" and base: "cstr base = path_text cs" "terminated base" and rel: "terminated rel"
    and mx: "length (path_text cs) + 1 + length (cstr rel) < maxlen" "maxlen \<le> length abspath" "maxlen < 2 ^ 31"
  shows "\<exists>b. relative_to_absolute abspath base rel maxlen = Some b \<and> terminated b \<and> length b = length abspath \<and>
    cstr b = path_text (foldl norm_step (if hd rel = slash then [] else cs) (pieces (cstr rel)))"
  by (rule relative_to_absolute_normal [OF assms])

theorem relative_to_absolute_correct_witness:
  "\<exists>b. relative_to_absolute (replicate 1024 0) (chars ''/home/peter'' @ [0]) (chars ''../cruz'' @ [0]) 1024 = Some b \<and>
     cstr b = chars ''/home/cruz''"
proof -
  let ?cs = "[chars ''home'', chars ''peter'']"
  have cs: "\<forall>c\<in>set ?cs. name_ok c" by (simp add: name_ok_def chars_def slash_def)
  have base: "cstr (chars ''/home/peter'' @ [0]) = path_text ?cs" "terminated (chars ''/home/peter'' @ [0])"
    "terminated (chars ''../cruz'' @ [0])"
    by (simp_all add: path_text_def chars_def slash_def)
  have p: "pieces (cstr (chars ''../cruz'' @ [0])) = [chars ''..'', chars ''cruz'']" by (simp add: chars_def slash_def)
  have n: "path_text (foldl norm_step (if hd (chars ''../cruz'' @ [0]) = slash then [] else ?cs) [chars ''..'', chars ''cruz'']) =
      chars ''/home/cruz''"
    by (simp add: norm_step_def path_text_def chars_def slash_def)
  have "length (path_text ?cs) + 1 + length (cstr (chars ''../cruz'' @ [0])) < 1024"
    by (simp add: path_text_def chars_def)
  from relative_to_absolute_correct [OF cs base this, of "replicate 1024 0"] p n show ?thesis
    by (simp only: length_replicate) auto
qed

end
