(* ===== verification/Screen.thy ===== *)
theory Screen
  imports Prelude
begin

text \<open>
  The text screen: \<open>scroll\<close> and \<open>write_to_screen\<close> of \<^verbatim>\<open>source/main.c\<close>, \<open>move_cursor\<close> and \<open>addstr\<close> of
  \<^verbatim>\<open>source/interrupts.c\<close>. Video memory is the list of its 2000 cells, a write outside is \<open>None\<close>; what
  goes to the output ports is kept as a trace.
\<close>

definition SCREEN_WIDTH :: nat where [simp]: "SCREEN_WIDTH = 80"
definition SCREEN_HEIGHT :: nat where [simp]: "SCREEN_HEIGHT = 25"

record screenchar =
  sc_c :: u8
  sc_fg :: u8
  sc_bg :: u8

record screen =
  scr_cells :: "screenchar list"
  scr_xpos :: nat
  scr_ypos :: nat
  scr_ports :: "(u32 \<times> u32) list"

definition outb :: "u32 \<Rightarrow> u32 \<Rightarrow> screen \<Rightarrow> screen" where
  "outb port d s = s\<lparr>scr_ports := scr_ports s @ [(port, d)]\<rparr>"

definition move_cursor :: "nat \<Rightarrow> nat \<Rightarrow> screen \<Rightarrow> screen" where
  "move_cursor x y s =
     (let val = of_nat (y * 80 + x) :: u32
      in outb 0x3D5 val (outb 0x3D4 15 (outb 0x3D5 (drop_bit 8 val) (outb 0x3D4 14 s))))"

text \<open>\<open>screen[i].c = c\<close>\<close>

definition put_cell :: "nat \<Rightarrow> u8 \<Rightarrow> screenchar list \<Rightarrow> screenchar list option" where
  "put_cell i c cs = (if i < length cs then Some (cs[i := (cs ! i)\<lparr>sc_c := c\<rparr>]) else None)"

text \<open>The two nested copying loops visit the cells in order; \<open>n\<close> of them are left from \<open>i\<close> on.\<close>

fun scroll_copy :: "nat \<Rightarrow> nat \<Rightarrow> screenchar list \<Rightarrow> screenchar list option" where
  "scroll_copy i 0 cs = Some cs"
| "scroll_copy i (Suc n) cs =
     (if i + SCREEN_WIDTH < length cs
      then scroll_copy (Suc i) n (cs[i := cs ! (i + SCREEN_WIDTH)]) else None)"

fun blank_cells :: "nat \<Rightarrow> nat \<Rightarrow> screenchar list \<Rightarrow> screenchar list option" where
  "blank_cells i 0 cs = Some cs"
| "blank_cells i (Suc n) cs =
     do { cs \<leftarrow> put_cell i (of_char CHR '' '') cs; blank_cells (Suc i) n cs }"

definition scroll :: "screen \<Rightarrow> screen option" where
  "scroll s =
     do {
       cs \<leftarrow> scroll_copy 0 ((SCREEN_HEIGHT - 1) * SCREEN_WIDTH) (scr_cells s);
       cs \<leftarrow> blank_cells ((SCREEN_HEIGHT - 1) * SCREEN_WIDTH) SCREEN_WIDTH cs;
       Some (s\<lparr>scr_cells := cs, scr_ypos := scr_ypos s - 1\<rparr>)
     }"

definition write_char :: "u8 \<Rightarrow> screen \<Rightarrow> screen option" where
  "write_char c s =
     do {
       s \<leftarrow> (if c = 10 then Some (s\<lparr>scr_xpos := 0, scr_ypos := scr_ypos s + 1\<rparr>)
             else if c = 9 then Some (s\<lparr>scr_xpos := scr_xpos s + (8 - scr_xpos s mod 8)\<rparr>)
             else do {
                    cs \<leftarrow> put_cell (scr_ypos s * SCREEN_WIDTH + scr_xpos s) c (scr_cells s);
                    Some (s\<lparr>scr_cells := cs, scr_xpos := scr_xpos s + 1\<rparr>)
                  });
       let s = (if SCREEN_WIDTH \<le> scr_xpos s then s\<lparr>scr_xpos := 0, scr_ypos := scr_ypos s + 1\<rparr> else s);
       if SCREEN_HEIGHT \<le> scr_ypos s then scroll s else Some s
     }"

fun write_chars :: "bytes \<Rightarrow> nat \<Rightarrow> screen \<Rightarrow> screen option" where
  "write_chars d 0 s = Some s"
| "write_chars [] (Suc n) s = None"
| "write_chars (c # d) (Suc n) s = do { s \<leftarrow> write_char c s; write_chars d n s }"

definition write_to_screen :: "bytes \<Rightarrow> nat \<Rightarrow> screen \<Rightarrow> screen option" where
  "write_to_screen d count s =
     do { s \<leftarrow> write_chars d count s; Some (move_cursor (scr_xpos s) (scr_ypos s) s) }"

text \<open>\<open>addstr\<close>, the output of \<open>fatal\<close> and \<open>__assert\<close>.\<close>

fun addstr :: "nat \<Rightarrow> bytes \<Rightarrow> screenchar list \<Rightarrow> (nat \<times> screenchar list) option" where
  "addstr x [] cs = None"
| "addstr x (c # d) cs =
     (if c \<noteq> 0
      then (if x < length cs
            then addstr (Suc x) d (cs[x := \<lparr>sc_c = c, sc_fg = 15, sc_bg = 0\<rparr>]) else None)
      else Some (x, cs))"

subsection \<open>Scrolling\<close>

definition screen_inv :: "screen \<Rightarrow> bool" where
  "screen_inv s \<longleftrightarrow> length (scr_cells s) = 2000 \<and> scr_xpos s < 80 \<and> scr_ypos s < 25"

lemma scroll_copy_spec:
  assumes "i + n + 80 \<le> length cs"
  shows "\<exists>cs'. scroll_copy i n cs = Some cs' \<and> length cs' = length cs \<and>
    (\<forall>j<length cs. cs' ! j = (if i \<le> j \<and> j < i + n then cs ! (j + 80) else cs ! j))"
  using assms
proof (induction n arbitrary: i cs)
  case (Suc n)
  let ?cs = "cs[i := cs ! (i + 80)]"
  from Suc.IH [of "Suc i" ?cs] Suc.prems obtain cs' where
    r: "scroll_copy (Suc i) n ?cs = Some cs'" "length cs' = length cs"
      "\<forall>j<length cs. cs' ! j = (if Suc i \<le> j \<and> j < Suc i + n then ?cs ! (j + 80) else ?cs ! j)" by auto
  moreover have "cs' ! j = (if i \<le> j \<and> j < i + Suc n then cs ! (j + 80) else cs ! j)" if "j < length cs" for j
    using r(3) that by (cases "j = i") (auto simp: nth_list_update)
  ultimately show ?case using Suc.prems by auto
qed auto

lemma blank_cells_spec:
  assumes "i + n \<le> length cs"
  shows "\<exists>cs'. blank_cells i n cs = Some cs' \<and> length cs' = length cs \<and>
    (\<forall>j<length cs. cs' ! j = (if i \<le> j \<and> j < i + n then (cs ! j)\<lparr>sc_c := of_char CHR '' ''\<rparr> else cs ! j))"
  using assms
proof (induction n arbitrary: i cs)
  case (Suc n)
  let ?cs = "cs[i := (cs ! i)\<lparr>sc_c := of_char CHR '' ''\<rparr>]"
  from Suc.IH [of "Suc i" ?cs] Suc.prems obtain cs' where
    r: "blank_cells (Suc i) n ?cs = Some cs'" "length cs' = length cs"
      "\<forall>j<length cs. cs' ! j = (if Suc i \<le> j \<and> j < Suc i + n then (?cs ! j)\<lparr>sc_c := of_char CHR '' ''\<rparr> else ?cs ! j)"
    by auto
  moreover have "cs' ! j = (if i \<le> j \<and> j < i + Suc n then (cs ! j)\<lparr>sc_c := of_char CHR '' ''\<rparr> else cs ! j)"
    if "j < length cs" for j
    using r(3) that by (cases "j = i") (auto simp: nth_list_update)
  ultimately show ?case using Suc.prems by (auto simp: put_cell_def)
qed auto

lemma scroll_spec:
  assumes l: "length (scr_cells s) = 2000"
  shows "\<exists>s'. scroll s = Some s' \<and> length (scr_cells s') = 2000 \<and> scr_xpos s' = scr_xpos s \<and>
    scr_ypos s' = scr_ypos s - 1 \<and> scr_ports s' = scr_ports s \<and>
    (\<forall>i<1920. scr_cells s' ! i = scr_cells s ! (i + 80)) \<and>
    (\<forall>i. 1920 \<le> i \<and> i < 2000 \<longrightarrow> scr_cells s' ! i = (scr_cells s ! i)\<lparr>sc_c := of_char CHR '' ''\<rparr>)"
proof -
  from scroll_copy_spec [of 0 1920 "scr_cells s"] l obtain c1 where
    c1: "scroll_copy 0 1920 (scr_cells s) = Some c1" "length c1 = 2000"
      "\<forall>j<2000. c1 ! j = (if j < 1920 then scr_cells s ! (j + 80) else scr_cells s ! j)" by auto
  from blank_cells_spec [of 1920 80 c1] c1(2) obtain c2 where
    c2: "blank_cells 1920 80 c1 = Some c2" "length c2 = 2000"
      "\<forall>j<2000. c2 ! j = (if 1920 \<le> j then (c1 ! j)\<lparr>sc_c := of_char CHR '' ''\<rparr> else c1 ! j)" by auto
  have "scroll s = Some (s\<lparr>scr_cells := c2, scr_ypos := scr_ypos s - 1\<rparr>)"
    using c1(1) c2(1) by (simp add: scroll_def)
  with c1(3) c2(2,3) show ?thesis by auto
qed

subsection \<open>Writing\<close>

text \<open>
  What one byte does to the screen, as a terminal would have it: where the cursor goes, and whether the
  lines move up.
\<close>

definition char_moves :: "u8 \<Rightarrow> screen \<Rightarrow> nat \<times> nat" where
  "char_moves c s =
     (let (x, y) = (if c = 10 then (0, scr_ypos s + 1)
                    else if c = 9 then (8 * (scr_xpos s div 8) + 8, scr_ypos s)
                    else (scr_xpos s + 1, scr_ypos s))
      in if 80 \<le> x then (0, y + 1) else (x, y))"

lemma write_char_spec:
  assumes inv: "screen_inv s"
  shows "\<exists>s'. write_char c s = Some s' \<and> screen_inv s' \<and> scr_ports s' = scr_ports s \<and>
    scr_xpos s' = fst (char_moves c s) \<and> scr_ypos s' = min 24 (snd (char_moves c s)) \<and>
    (let cs = (if c = 10 \<or> c = 9 then scr_cells s
        else (scr_cells s)[scr_ypos s * 80 + scr_xpos s := (scr_cells s ! (scr_ypos s * 80 + scr_xpos s))\<lparr>sc_c := c\<rparr>])
     in if snd (char_moves c s) < 25 then scr_cells s' = cs
        else (\<forall>i<1920. scr_cells s' ! i = cs ! (i + 80)) \<and>
          (\<forall>i. 1920 \<le> i \<and> i < 2000 \<longrightarrow> sc_c (scr_cells s' ! i) = of_char CHR '' ''))"
proof -
  from inv have i: "length (scr_cells s) = 2000" "scr_xpos s < 80" "scr_ypos s < 25" by (auto simp: screen_inv_def)
  define cs where "cs = (if c = 10 \<or> c = 9 then scr_cells s
    else (scr_cells s)[scr_ypos s * 80 + scr_xpos s := (scr_cells s ! (scr_ypos s * 80 + scr_xpos s))\<lparr>sc_c := c\<rparr>])"
  define s1 where "s1 = s\<lparr>scr_cells := cs, scr_xpos := fst (char_moves c s), scr_ypos := snd (char_moves c s)\<rparr>"
  have "scr_ypos s * 80 + scr_xpos s < 2000" using i by simp
  moreover have "scr_xpos s + (8 - scr_xpos s mod 8) = 8 * (scr_xpos s div 8) + 8"
    using mult_div_mod_eq [of 8 "scr_xpos s"] mod_less_divisor [of 8 "scr_xpos s"] by linarith
  ultimately have w: "write_char c s = (if 25 \<le> scr_ypos s1 then scroll s1 else Some s1)"
    using i by (simp add: write_char_def s1_def cs_def char_moves_def put_cell_def Let_def)
  have b: "fst (char_moves c s) < 80" "snd (char_moves c s) \<le> 25" "length (scr_cells s1) = 2000"
    using i by (auto simp: char_moves_def s1_def cs_def Let_def)
  show ?thesis
  proof (cases "snd (char_moves c s) < 25")
    case True
    then show ?thesis using w b by (simp add: s1_def screen_inv_def cs_def [symmetric] Let_def)
  next
    case False
    then have y: "snd (char_moves c s) = 25" using b(2) by simp
    from scroll_spec [OF b(3)] obtain s' where
      r: "scroll s1 = Some s'" "length (scr_cells s') = 2000" "scr_xpos s' = scr_xpos s1" "scr_ypos s' = scr_ypos s1 - 1"
        "scr_ports s' = scr_ports s1" "\<forall>i<1920. scr_cells s' ! i = scr_cells s1 ! (i + 80)"
        "\<forall>i. 1920 \<le> i \<and> i < 2000 \<longrightarrow> scr_cells s' ! i = (scr_cells s1 ! i)\<lparr>sc_c := of_char CHR '' ''\<rparr>" by blast
    then show ?thesis using w y b by (simp add: s1_def screen_inv_def cs_def [symmetric] Let_def)
  qed
qed

lemma write_chars_spec:
  "screen_inv s \<Longrightarrow> n \<le> length d \<Longrightarrow> \<exists>s'. write_chars d n s = Some s' \<and> screen_inv s' \<and> scr_ports s' = scr_ports s"
proof (induction d n s rule: write_chars.induct)
  case (3 c d n s)
  from write_char_spec [OF 3(2), of c] obtain s1 where
    s1: "write_char c s = Some s1" "screen_inv s1" "scr_ports s1 = scr_ports s" by blast
  with 3(1) [OF s1(1)] 3(3) show ?case by simp
qed auto

text \<open>
  one byte on the screen. A newline goes to the start of the next line, a tab to the next multiple of
  eight, any other byte is put at the cursor, which moves on and wraps at the end of a line; behind the
  last line all lines move up by one and the last one is blank. Video memory is never written outside its
  2000 cells, and the cursor stays on the screen.
\<close>

theorem write_char_correct:
  assumes "screen_inv s"
  shows "\<exists>s'. write_char c s = Some s' \<and> screen_inv s' \<and>
    scr_xpos s' = fst (char_moves c s) \<and> scr_ypos s' = min 24 (snd (char_moves c s)) \<and>
    (let cs = (if c = 10 \<or> c = 9 then scr_cells s
        else (scr_cells s)[scr_ypos s * 80 + scr_xpos s := (scr_cells s ! (scr_ypos s * 80 + scr_xpos s))\<lparr>sc_c := c\<rparr>])
     in if snd (char_moves c s) < 25 then scr_cells s' = cs
        else (\<forall>i<1920. scr_cells s' ! i = cs ! (i + 80)) \<and>
          (\<forall>i. 1920 \<le> i \<and> i < 2000 \<longrightarrow> sc_c (scr_cells s' ! i) = of_char CHR '' ''))"
  using write_char_spec [OF assms, of c] by blast

definition blank_screen :: screen where
  "blank_screen = \<lparr>scr_cells = replicate 2000 \<lparr>sc_c = 32, sc_fg = 7, sc_bg = 0\<rparr>, scr_xpos = 79, scr_ypos = 24, scr_ports = []\<rparr>"

theorem write_char_correct_witness:
  "\<exists>s'. write_char 65 blank_screen = Some s' \<and> scr_xpos s' = 0 \<and> scr_ypos s' = 24 \<and>
     sc_c (scr_cells s' ! (23 * 80 + 79)) = 65"
proof -
  have i: "screen_inv blank_screen" by (simp add: screen_inv_def blank_screen_def)
  have m: "char_moves 65 blank_screen = (0, 25)" by (simp add: char_moves_def blank_screen_def)
  from write_char_correct [OF i, of 65] m obtain s' where
    r: "write_char 65 blank_screen = Some s'" "scr_xpos s' = 0" "scr_ypos s' = 24"
      "\<forall>i<1920. scr_cells s' ! i = ((scr_cells blank_screen)[scr_ypos blank_screen * 80 + scr_xpos blank_screen :=
         (scr_cells blank_screen ! (scr_ypos blank_screen * 80 + scr_xpos blank_screen))\<lparr>sc_c := 65\<rparr>]) ! (i + 80)"
    by (auto simp: Let_def)
  from r(4) [rule_format, of 1919] have "sc_c (scr_cells s' ! (23 * 80 + 79)) = 65" by (simp add: blank_screen_def)
  with r show ?thesis by blast
qed

text \<open>
  \<open>write_to_screen\<close> on a buffer that holds \<open>count\<close> bytes always returns, keeps the screen well formed,
  and programs the hardware cursor with the position after the last byte.
\<close>

theorem write_to_screen_correct:
  assumes "screen_inv s" and "count \<le> length d"
  shows "\<exists>s'. write_to_screen d count s = Some s' \<and> screen_inv s' \<and>
    (let val = of_nat (scr_ypos s' * 80 + scr_xpos s') in
     scr_ports s' = scr_ports s @ [(0x3D4, 14), (0x3D5, drop_bit 8 val), (0x3D4, 15), (0x3D5, val)])"
proof -
  from write_chars_spec [OF assms] obtain s1 where
    "write_chars d count s = Some s1" "screen_inv s1" "scr_ports s1 = scr_ports s" by blast
  then show ?thesis by (simp add: write_to_screen_def move_cursor_def outb_def Let_def screen_inv_def)
qed

theorem write_to_screen_correct_witness:
  "\<exists>s'. write_to_screen (chars ''ok'') 2 blank_screen = Some s' \<and> screen_inv s'"
proof -
  have "screen_inv blank_screen" "2 \<le> length (chars ''ok'')" by (simp_all add: screen_inv_def blank_screen_def chars_def)
  from write_to_screen_correct [OF this] show ?thesis by blast
qed

end
