(* ===== verification/Kernel_State.thy ===== *)
theory Kernel_State
  imports Buddy_Props Page_Props Filesystem_Props Screen
begin

text \<open>
  The state of the kernel: the structures of \<^verbatim>\<open>source/kernel.h\<close> as records, the global variables as the
  fields of one record, and how the kernel reaches user memory.

  Objects on the kernel heap (file handles, pipes, pipe data, mailboxes) are maps from the addresses that
  \<open>kmalloc\<close> returned; using an object after \<open>kfree\<close> is \<open>None\<close>. Function pointers are the names of the
  functions they can point to. A process is its index in \<open>processes\<close>.
\<close>

subsection \<open>Constants\<close>

definition EBADF :: int where [simp]: "EBADF = 2"
definition EINVAL :: int where [simp]: "EINVAL = 3"
definition ESRCH :: int where [simp]: "ESRCH = 4"
definition EMFILE :: int where [simp]: "EMFILE = 7"
definition EISDIR :: int where [simp]: "EISDIR = 8"
definition ENOTDIR :: int where [simp]: "ENOTDIR = 9"
definition ENOSYS :: int where [simp]: "ENOSYS = 10"
definition ENOMEM :: int where [simp]: "ENOMEM = 11"
definition EFAULT :: int where [simp]: "EFAULT = 12"
definition EAGAIN :: int where [simp]: "EAGAIN = 13"
definition ECHILD :: int where [simp]: "ECHILD = 14"
definition ESUSPEND :: int where [simp]: "ESUSPEND = 1000"

definition PROCESS_STACK_BASE :: u32 where [simp]: "PROCESS_STACK_BASE = 0x40000000"
definition PROCESS_STACK_SIZE :: u32 where [simp]: "PROCESS_STACK_SIZE = 65536"
definition PROCESS_TEXT_BASE :: u32 where [simp]: "PROCESS_TEXT_BASE = 0x10000000"
definition MAX_MESSAGE_SIZE :: u32 where [simp]: "MAX_MESSAGE_SIZE = 1024"

subsection \<open>Structures\<close>

record regs =
  r_fstate :: "u32 list"
  r_gs :: u32
  r_fs :: u32
  r_es :: u32
  r_ds :: u32
  r_edi :: u32
  r_esi :: u32
  r_ebp :: u32
  r_esp :: u32
  r_ebx :: u32
  r_edx :: u32
  r_ecx :: u32
  r_eax :: u32
  r_int_no :: u32
  r_err_code :: u32
  r_eip :: u32
  r_cs :: u32
  r_eflags :: u32
  r_useresp :: u32
  r_ss :: u32

record pipe_buffer =
  pb_reading :: bool
  pb_writing :: bool
  pb_alloc :: u32
  pb_len :: u32
  pb_readpid :: int
  pb_data :: u32

datatype write_fun = Screen_write | Pipe_writer_write | Pipe_reader_write | File_write
datatype read_fun = Screen_read | Pipe_writer_read | Pipe_reader_read | File_read
datatype destroy_fun = Screen_destroy | Pipe_writer_destroy | Pipe_reader_destroy | File_destroy

datatype fh_type = FH_NONE | FH_SCREEN | FH_PIPE_WRITER | FH_PIPE_READER | FH_FILE | FH_DIR

record filehandle =
  fh_kind :: fh_type
  fh_refcount :: int
  fh_write :: write_fun
  fh_read :: read_fun
  fh_destroy :: destroy_fun
  fh_p :: u32
  fh_entry :: nat
  fh_pos :: u32
  fh_entryno :: u32

record message =
  msg_from :: int
  msg_tag :: u32
  msg_size :: u32
  msg_data :: bytes

record process =
  pr_pid :: int
  pr_exists :: bool
  pr_saved_regs :: regs
  pr_ready :: bool
  pr_prev :: "nat option"
  pr_next :: "nat option"
  pr_pdir :: u32
  pr_in_syscall :: u32
  pr_last_errno :: int
  pr_filedesc :: "u32 option list"
  pr_cwd :: bytes
  pr_stack_start :: u32
  pr_stack_end :: u32
  pr_data_start :: u32
  pr_data_end :: u32
  pr_text_start :: u32
  pr_text_end :: u32
  pr_parent_pid :: int
  pr_exit_status :: int
  pr_exited :: bool
  pr_waiting_on :: int
  pr_mailbox :: "u32 option"
  pr_mailbox_size :: nat
  pr_mailbox_alloc :: nat
  pr_receive_blocked :: bool

record processlist =
  pl_first :: "nat option"
  pl_last :: "nat option"

text \<open>
  Addresses that the linker fixes: the symbols \<open>code\<close> and \<open>data\<close> around the code of the kernel, the
  stack and the code of the idle loop, and \<open>launch_shell\<close>.
\<close>

record layout =
  ly_code :: u32
  ly_data :: u32
  ly_idle_stack :: u32
  ly_idle :: u32
  ly_launch_shell :: u32

text \<open>
  \<open>k_paging\<close> is the page directory that is active, \<open>None\<close> while paging is disabled. \<open>k_stack\<close> is what an
  uninitialised local buffer on the kernel stack holds, anything.
\<close>

record kernel =
  k_mm :: mm
  k_heap :: memarea
  k_handles :: "u32 \<rightharpoonup> filehandle"
  k_pipes :: "u32 \<rightharpoonup> pipe_buffer"
  k_arrays :: "u32 \<rightharpoonup> bytes"
  k_mailboxes :: "u32 \<rightharpoonup> message list"
  k_procs :: "process list"
  k_current :: "nat option"
  k_ready :: processlist
  k_suspended :: processlist
  k_paging :: "u32 option"
  k_screen :: screen
  k_filesystem :: bytes
  k_input_pipe :: "u32 option"
  k_shift_pressed :: bool
  k_timer_ticks :: u32
  k_fpustate :: "u32 list"
  k_stack :: bytes
  k_layout :: layout

definition zero_regs :: regs where
  "zero_regs =
     \<lparr>r_fstate = replicate 27 0, r_gs = 0, r_fs = 0, r_es = 0, r_ds = 0, r_edi = 0, r_esi = 0, r_ebp = 0,
      r_esp = 0, r_ebx = 0, r_edx = 0, r_ecx = 0, r_eax = 0, r_int_no = 0, r_err_code = 0, r_eip = 0,
      r_cs = 0, r_eflags = 0, r_useresp = 0, r_ss = 0\<rparr>"

text \<open>A process structure after \<open>memset(proc,0,sizeof(process))\<close>.\<close>

definition zero_process :: process where
  "zero_process =
     \<lparr>pr_pid = 0, pr_exists = False, pr_saved_regs = zero_regs, pr_ready = False, pr_prev = None, pr_next = None,
      pr_pdir = 0, pr_in_syscall = 0, pr_last_errno = 0, pr_filedesc = replicate MAX_FDS None,
      pr_cwd = replicate PATH_MAX 0, pr_stack_start = 0, pr_stack_end = 0, pr_data_start = 0, pr_data_end = 0,
      pr_text_start = 0, pr_text_end = 0, pr_parent_pid = 0, pr_exit_status = 0, pr_exited = False,
      pr_waiting_on = 0, pr_mailbox = None, pr_mailbox_size = 0, pr_mailbox_alloc = 0, pr_receive_blocked = False\<rparr>"

subsection \<open>Access to processes\<close>

definition get_proc :: "nat \<Rightarrow> kernel \<Rightarrow> process option" where
  "get_proc i k = (if i < length (k_procs k) then Some (k_procs k ! i) else None)"

definition upd_proc :: "nat \<Rightarrow> (process \<Rightarrow> process) \<Rightarrow> kernel \<Rightarrow> kernel" where
  "upd_proc i f k = k\<lparr>k_procs := (k_procs k)[i := f (k_procs k ! i)]\<rparr>"

definition pid_index :: "int \<Rightarrow> nat" where
  "pid_index pid = nat pid"

definition current_process :: "kernel \<Rightarrow> (nat \<times> process) option" where
  "current_process k = do { i \<leftarrow> k_current k; p \<leftarrow> get_proc i k; Some (i, p) }"

lemma upd_proc_fields [simp]:
  "k_mm (upd_proc i f k) = k_mm k" "k_heap (upd_proc i f k) = k_heap k" "k_handles (upd_proc i f k) = k_handles k"
  "k_pipes (upd_proc i f k) = k_pipes k" "k_arrays (upd_proc i f k) = k_arrays k"
  "k_mailboxes (upd_proc i f k) = k_mailboxes k" "k_current (upd_proc i f k) = k_current k"
  "k_ready (upd_proc i f k) = k_ready k" "k_suspended (upd_proc i f k) = k_suspended k"
  "k_paging (upd_proc i f k) = k_paging k" "k_screen (upd_proc i f k) = k_screen k"
  "k_filesystem (upd_proc i f k) = k_filesystem k" "k_input_pipe (upd_proc i f k) = k_input_pipe k"
  "k_shift_pressed (upd_proc i f k) = k_shift_pressed k" "k_timer_ticks (upd_proc i f k) = k_timer_ticks k"
  "k_fpustate (upd_proc i f k) = k_fpustate k" "k_stack (upd_proc i f k) = k_stack k"
  "k_layout (upd_proc i f k) = k_layout k"
  "length (k_procs (upd_proc i f k)) = length (k_procs k)"
  by (simp_all add: upd_proc_def)

lemma nth_upd_proc:
  "j < length (k_procs k) \<Longrightarrow>
    k_procs (upd_proc i f k) ! j = (if j = i then f (k_procs k ! i) else k_procs k ! j)"
  by (auto simp: upd_proc_def nth_list_update)

subsection \<open>Memory as the kernel addresses it\<close>

text \<open>
  With paging disabled an address is physical; otherwise it goes through the active page directory, and
  an address that is not mapped is a page fault inside the kernel, which halts. The physical memory below
  \<open>PAGE_START\<close> holds the structures of the kernel that are the fields of the record above. A store there
  through a pointer of a process that has not been checked (\<open>waitpid\<close> does not check where it stores the exit status) would
  overwrite them, and the real kernel would go on with corrupted structures. The model does not follow it there: the outcome is \<open>None\<close>, and no theorem
  says anything about a machine after such a store. For a pointer that \<open>valid_pointer\<close> has accepted this case does not arise
  (\<open>user_memory_correct\<close>).
\<close>

definition translate :: "u32 \<Rightarrow> kernel \<Rightarrow> u32 option" where
  "translate a k =
     (case k_paging k of
        None \<Rightarrow> Some a
      | Some pdir \<Rightarrow>
          do {
            r \<leftarrow> lookup_page pdir (a - a mod PAGE_SIZE) (k_mm k);
            p \<leftarrow> r;
            Some (p + a mod PAGE_SIZE)
          })"

definition vload :: "u32 \<Rightarrow> kernel \<Rightarrow> u8 option" where
  "vload a k = map_option (mm_mem (k_mm k)) (translate a k)"

definition vstore :: "u32 \<Rightarrow> u8 \<Rightarrow> kernel \<Rightarrow> kernel option" where
  "vstore a v k =
     do {
       p \<leftarrow> translate a k;
       assert_c (PAGE_START \<le> p);
       Some (k\<lparr>k_mm := (k_mm k)\<lparr>mm_mem := (mm_mem (k_mm k))(p := v)\<rparr>\<rparr>)
     }"

fun vread :: "u32 \<Rightarrow> nat \<Rightarrow> kernel \<Rightarrow> bytes option" where
  "vread a 0 k = Some []"
| "vread a (Suc n) k = do { c \<leftarrow> vload a k; cs \<leftarrow> vread (a + 1) n k; Some (c # cs) }"

fun vwrite :: "u32 \<Rightarrow> bytes \<Rightarrow> kernel \<Rightarrow> kernel option" where
  "vwrite a [] k = Some k"
| "vwrite a (c # cs) k = do { k \<leftarrow> vstore a c k; vwrite (a + 1) cs k }"

definition word_bytes :: "u32 \<Rightarrow> bytes" where
  "word_bytes v = [ucast v, ucast (drop_bit 8 v), ucast (drop_bit 16 v), ucast (drop_bit 24 v)]"

lemma length_word_bytes [simp]: "length (word_bytes v) = 4"
  by (simp add: word_bytes_def)

text \<open>A word is read back where its bytes are.\<close>

lemma img_word_bytes: "img_word (word_bytes v) 0 = Some v"
  using join_bytes [of v] by (simp add: img_word_def word_bytes_def numeral_2_eq_2 numeral_3_eq_3)

lemma img_word_slice:
  "img_word d i = (if i + 4 \<le> length d then img_word (take 4 (drop i d)) 0 else None)"
  by (simp add: img_word_def)

lemma img_word_put: "i + 4 \<le> length d \<Longrightarrow> take 4 (drop i d) = word_bytes v \<Longrightarrow> img_word d i = Some v"
  by (subst img_word_slice) (simp add: img_word_bytes)

definition vload32 :: "u32 \<Rightarrow> kernel \<Rightarrow> u32 option" where
  "vload32 a k = do { bs \<leftarrow> vread a 4 k; img_word bs 0 }"

definition vstore32 :: "u32 \<Rightarrow> u32 \<Rightarrow> kernel \<Rightarrow> kernel option" where
  "vstore32 a v k = vwrite a (word_bytes v) k"

text \<open>The string at an address, with its terminating 0.\<close>

partial_function (option) vstring :: "u32 \<Rightarrow> kernel \<Rightarrow> bytes option" where
  "vstring a k =
     do {
       c \<leftarrow> vload a k;
       if c = 0 then Some [0] else do { cs \<leftarrow> vstring (a + 1) k; Some (c # cs) }
     }"

definition enable_paging :: "u32 \<Rightarrow> kernel \<Rightarrow> kernel" where
  "enable_paging pdir k = k\<lparr>k_paging := Some pdir\<rparr>"

definition disable_paging :: "kernel \<Rightarrow> kernel" where
  "disable_paging k = k\<lparr>k_paging := None\<rparr>"

text \<open>A \<open>size_t\<close> returned as \<open>ssize_t\<close> or \<open>int\<close>.\<close>

definition as_int :: "nat \<Rightarrow> int" where
  "as_int n = sint (of_nat n :: u32)"

lemma as_int_small [simp]: "n < 2147483648 \<Longrightarrow> as_int n = int n"
  unfolding as_int_def by (simp add: signed_of_nat signed_take_bit_int_eq_self)

subsection \<open>Heap and page operations on the whole state\<close>

definition k_malloc :: "u32 \<Rightarrow> kernel \<Rightarrow> (u32 \<times> kernel) option" where
  "k_malloc n k = map_option (\<lambda>(p, h). (p, k\<lparr>k_heap := h\<rparr>)) (kmalloc n (k_heap k))"

definition k_free :: "u32 \<Rightarrow> kernel \<Rightarrow> kernel option" where
  "k_free p k = map_option (\<lambda>h. k\<lparr>k_heap := h\<rparr>) (kfree p (k_heap k))"

definition on_mm :: "(mm \<Rightarrow> mm option) \<Rightarrow> kernel \<Rightarrow> kernel option" where
  "on_mm f k = map_option (\<lambda>s. k\<lparr>k_mm := s\<rparr>) (f (k_mm k))"

definition k_alloc_page :: "kernel \<Rightarrow> (u32 \<times> kernel) option" where
  "k_alloc_page k = map_option (\<lambda>(p, s). (p, k\<lparr>k_mm := s\<rparr>)) (alloc_page (k_mm k))"

definition on_screen :: "(screen \<Rightarrow> screen option) \<Rightarrow> kernel \<Rightarrow> kernel option" where
  "on_screen f k = map_option (\<lambda>s. k\<lparr>k_screen := s\<rparr>) (f (k_screen k))"

end
