(* ===== verification/Process_List.thy ===== *)
theory Process_List
  imports Kernel_State
begin

text \<open>
  The doubly-linked lists of processes, \<open>list_add\<close> and \<open>list_remove\<close> of \<^verbatim>\<open>source/kernel.h\<close>, with
  \<open>suspend_process\<close>, \<open>resume_process\<close>, \<open>get_free_pid\<close> and \<open>init_regs\<close> of \<^verbatim>\<open>source/process.c\<close>. The
  pointers in the structures are abstracted to lists of process indices; the list operations refine
  consing and removal.
\<close>

datatype which = Ready | Suspended

definition get_list :: "which \<Rightarrow> kernel \<Rightarrow> processlist" where
  "get_list w k = (case w of Ready \<Rightarrow> k_ready k | Suspended \<Rightarrow> k_suspended k)"

definition set_list :: "which \<Rightarrow> processlist \<Rightarrow> kernel \<Rightarrow> kernel" where
  "set_list w l k = (case w of Ready \<Rightarrow> k\<lparr>k_ready := l\<rparr> | Suspended \<Rightarrow> k\<lparr>k_suspended := l\<rparr>)"

definition list_add :: "which \<Rightarrow> nat \<Rightarrow> kernel \<Rightarrow> kernel" where
  "list_add ll obj k =
     (case pl_first (get_list ll k) of
        Some f \<Rightarrow>
          (let k = upd_proc obj (\<lambda>p. p\<lparr>pr_next := Some f\<rparr>) k;
               k = upd_proc f (\<lambda>p. p\<lparr>pr_prev := Some obj\<rparr>) k
           in set_list ll ((get_list ll k)\<lparr>pl_first := Some obj\<rparr>) k)
      | None \<Rightarrow> set_list ll \<lparr>pl_first = Some obj, pl_last = Some obj\<rparr> k)"

definition list_remove :: "which \<Rightarrow> nat \<Rightarrow> kernel \<Rightarrow> kernel" where
  "list_remove ll obj k =
     (let o_next = pr_next (k_procs k ! obj);
          o_prev = pr_prev (k_procs k ! obj);
          k = (if pl_first (get_list ll k) = Some obj
               then set_list ll ((get_list ll k)\<lparr>pl_first := o_next\<rparr>) k else k);
          k = (if pl_last (get_list ll k) = Some obj
               then set_list ll ((get_list ll k)\<lparr>pl_last := o_prev\<rparr>) k else k);
          k = (case o_next of Some n \<Rightarrow> upd_proc n (\<lambda>p. p\<lparr>pr_prev := o_prev\<rparr>) k | None \<Rightarrow> k);
          k = (case o_prev of Some n \<Rightarrow> upd_proc n (\<lambda>p. p\<lparr>pr_next := o_next\<rparr>) k | None \<Rightarrow> k)
      in upd_proc obj (\<lambda>p. p\<lparr>pr_next := None, pr_prev := None\<rparr>) k)"

definition suspend_process :: "nat \<Rightarrow> kernel \<Rightarrow> kernel option" where
  "suspend_process i k =
     do {
       p \<leftarrow> get_proc i k;
       assert_c (pr_exists p);
       assert_c (pr_ready p);
       let k = upd_proc i (\<lambda>p. p\<lparr>pr_ready := False\<rparr>) k;
       Some (list_add Suspended i (list_remove Ready i k))
     }"

definition resume_process :: "nat \<Rightarrow> kernel \<Rightarrow> kernel option" where
  "resume_process i k =
     do {
       p \<leftarrow> get_proc i k;
       assert_c (pr_exists p);
       assert_c (\<not> pr_ready p);
       let k = upd_proc i (\<lambda>p. p\<lparr>pr_ready := True\<rparr>) k;
       Some (list_add Ready i (list_remove Suspended i k))
     }"

function free_pid_loop :: "kernel \<Rightarrow> nat \<Rightarrow> nat" where
  "free_pid_loop k pid =
     (if pid < MAX_PROCESSES \<and> pr_exists (k_procs k ! pid) then free_pid_loop k (Suc pid) else pid)"
  by pat_completeness auto
termination
  by (relation "measure (\<lambda>(k, pid). MAX_PROCESSES - pid)") auto

declare free_pid_loop.simps [simp del]

definition get_free_pid :: "kernel \<Rightarrow> int" where
  "get_free_pid k = (let pid = free_pid_loop k 1 in if MAX_PROCESSES \<le> pid then - 1 else int pid)"

definition USER_DATA_SEGMENT :: u32 where [simp]: "USER_DATA_SEGMENT = 0x20"
definition USER_CODE_SEGMENT :: u32 where [simp]: "USER_CODE_SEGMENT = 0x18"
definition RING_3 :: u32 where [simp]: "RING_3 = 3"

definition init_regs :: "u32 \<Rightarrow> u32 \<Rightarrow> regs" where
  "init_regs stack_max start_addr =
     zero_regs\<lparr>r_gs := USER_DATA_SEGMENT OR RING_3, r_fs := USER_DATA_SEGMENT OR RING_3,
       r_es := USER_DATA_SEGMENT OR RING_3, r_ds := USER_DATA_SEGMENT OR RING_3,
       r_ss := USER_DATA_SEGMENT OR RING_3, r_cs := USER_CODE_SEGMENT OR RING_3, r_eflags := 0x202,
       r_eip := start_addr, r_useresp := stack_max\<rparr>"

subsection \<open>Lists behind the pointers\<close>

fun links :: "(nat \<Rightarrow> nat option) \<Rightarrow> (nat \<Rightarrow> nat option) \<Rightarrow> nat option \<Rightarrow> nat list \<Rightarrow> nat option \<Rightarrow> bool" where
  "links pv nx p [] e \<longleftrightarrow> True"
| "links pv nx p (x # xs) e \<longleftrightarrow>
     pv x = p \<and> nx x = (if xs = [] then e else Some (hd xs)) \<and> links pv nx (Some x) xs e"

lemma links_append:
  "links pv nx p (as @ bs) e \<longleftrightarrow>
     links pv nx p as (if bs = [] then e else Some (hd bs)) \<and>
     links pv nx (if as = [] then p else Some (last as)) bs e"
  by (induction as arbitrary: p) auto

lemma links_cong:
  "(\<And>x. x \<in> set xs \<Longrightarrow> pv' x = pv x \<and> nx' x = nx x) \<Longrightarrow> links pv' nx' p xs e = links pv nx p xs e"
  by (induction xs arbitrary: p) auto

lemma links_set_next:
  assumes "links pv nx p (as @ [a]) e" "a \<notin> set as" "\<And>x. x \<in> set as \<Longrightarrow> pv' x = pv x \<and> nx' x = nx x"
    "pv' a = pv a" "nx' a = e'"
  shows "links pv' nx' p (as @ [a]) e'"
  using assms links_cong [of as pv' pv nx' nx] by (auto simp: links_append)

lemma links_set_prev:
  assumes "links pv nx p (b # bs) e" "b \<notin> set bs" "\<And>x. x \<in> set bs \<Longrightarrow> pv' x = pv x \<and> nx' x = nx x"
    "pv' b = p'" "nx' b = nx b"
  shows "links pv' nx' p' (b # bs) e"
  using assms links_cong [of bs pv' pv nx' nx] by auto

definition dlist :: "process list \<Rightarrow> processlist \<Rightarrow> nat list \<Rightarrow> bool" where
  "dlist ps l xs \<longleftrightarrow>
     distinct xs \<and> (\<forall>x\<in>set xs. x < length ps) \<and>
     pl_first l = (if xs = [] then None else Some (hd xs)) \<and>
     pl_last l = (if xs = [] then None else Some (last xs)) \<and>
     links (\<lambda>i. pr_prev (ps ! i)) (\<lambda>i. pr_next (ps ! i)) None xs None"

definition unlinked :: "process list \<Rightarrow> nat \<Rightarrow> bool" where
  "unlinked ps i \<longleftrightarrow> pr_prev (ps ! i) = None \<and> pr_next (ps ! i) = None"

lemma dlist_cong:
  assumes "length ps' = length ps" "\<And>x. x \<in> set xs \<Longrightarrow> pr_prev (ps' ! x) = pr_prev (ps ! x) \<and> pr_next (ps' ! x) = pr_next (ps ! x)"
  shows "dlist ps' l xs = dlist ps l xs"
  unfolding dlist_def using assms links_cong [of xs "\<lambda>i. pr_prev (ps' ! i)" "\<lambda>i. pr_prev (ps ! i)" "\<lambda>i. pr_next (ps' ! i)" "\<lambda>i. pr_next (ps ! i)"]
  by auto

lemma list_add_frame [simp]:
  "k_current (list_add w i k) = k_current k" "length (k_procs (list_add w i k)) = length (k_procs k)"
  "w \<noteq> w' \<Longrightarrow> get_list w' (list_add w i k) = get_list w' k"
  by (auto simp: list_add_def Let_def set_list_def get_list_def split: option.splits which.splits)

lemma list_add_procs:
  assumes "j < length (k_procs k)" "i < length (k_procs k)"
  shows "k_procs (list_add w i k) ! j =
    (case pl_first (get_list w k) of
       None \<Rightarrow> k_procs k ! j
     | Some f \<Rightarrow> let p = (if j = i then (k_procs k ! j)\<lparr>pr_next := Some f\<rparr> else k_procs k ! j)
                 in if j = f then p\<lparr>pr_prev := Some i\<rparr> else p)"
  using assms by (auto simp: list_add_def Let_def set_list_def nth_upd_proc upd_proc_def nth_list_update split: option.splits which.splits)

lemma list_add_dlist:
  assumes d: "dlist (k_procs k) (get_list w k) xs" and i: "i < length (k_procs k)" "i \<notin> set xs" "unlinked (k_procs k) i"
  shows "dlist (k_procs (list_add w i k)) (get_list w (list_add w i k)) (i # xs)"
proof (cases xs)
  case Nil
  then have f: "pl_first (get_list w k) = None" using d by (simp add: dlist_def)
  then have "get_list w (list_add w i k) = \<lparr>pl_first = Some i, pl_last = Some i\<rparr>" "k_procs (list_add w i k) = k_procs k"
    by (auto simp: list_add_def get_list_def set_list_def split: which.splits)
  with Nil i show ?thesis by (simp add: dlist_def unlinked_def)
next
  case (Cons f fs)
  then have f: "pl_first (get_list w k) = Some f" "f < length (k_procs k)" "f \<noteq> i" using d i by (auto simp: dlist_def)
  have l: "get_list w (list_add w i k) = (get_list w k)\<lparr>pl_first := Some i\<rparr>"
    using f by (auto simp: list_add_def Let_def get_list_def set_list_def split: which.splits)
  let ?ps = "k_procs k" and ?ps' = "k_procs (list_add w i k)"
  have p: "?ps' ! j = (let p = (if j = i then (?ps ! j)\<lparr>pr_next := Some f\<rparr> else ?ps ! j)
      in if j = f then p\<lparr>pr_prev := Some i\<rparr> else p)" if "j < length ?ps" for j
    using list_add_procs [OF that i(1), of w] f(1) by simp
  have "links (\<lambda>j. pr_prev (?ps' ! j)) (\<lambda>j. pr_next (?ps' ! j)) (Some i) (f # fs) None"
  proof (rule links_set_prev [of "\<lambda>j. pr_prev (?ps ! j)" "\<lambda>j. pr_next (?ps ! j)" None])
    show "links (\<lambda>j. pr_prev (?ps ! j)) (\<lambda>j. pr_next (?ps ! j)) None (f # fs) None"
      using d Cons by (simp add: dlist_def)
    show "pr_prev (?ps' ! x) = pr_prev (?ps ! x) \<and> pr_next (?ps' ! x) = pr_next (?ps ! x)" if "x \<in> set fs" for x
      using p [of x] that d Cons i(2) by (auto simp: dlist_def Let_def)
  qed (use p [of f] f d Cons in \<open>auto simp: dlist_def Let_def\<close>)
  then show ?thesis
    using d Cons i p [of i] f l by (auto simp: dlist_def unlinked_def Let_def)
qed

lemma list_remove_frame [simp]:
  "k_current (list_remove w i k) = k_current k" "length (k_procs (list_remove w i k)) = length (k_procs k)"
  "w \<noteq> w' \<Longrightarrow> get_list w' (list_remove w i k) = get_list w' k"
  by (auto simp: list_remove_def Let_def set_list_def get_list_def split: option.splits which.splits)

lemma set_list_procs [simp]: "k_procs (set_list w l k) = k_procs k"
  by (cases w) (simp_all add: set_list_def)

lemma list_remove_procs_eq:
  "k_procs (list_remove w i k) =
    (let ps = k_procs k; nx = pr_next (ps ! i); pv = pr_prev (ps ! i);
         ps = (case nx of Some n \<Rightarrow> ps[n := (ps ! n)\<lparr>pr_prev := pv\<rparr>] | None \<Rightarrow> ps);
         ps = (case pv of Some n \<Rightarrow> ps[n := (ps ! n)\<lparr>pr_next := nx\<rparr>] | None \<Rightarrow> ps)
     in ps[i := (ps ! i)\<lparr>pr_next := None, pr_prev := None\<rparr>])"
  by (cases "pr_next (k_procs k ! i)"; cases "pr_prev (k_procs k ! i)")
    (simp_all add: list_remove_def Let_def upd_proc_def)

lemma list_remove_procs:
  assumes "j < length (k_procs k)" "i < length (k_procs k)"
    and "pr_next (k_procs k ! i) \<noteq> Some i" "pr_prev (k_procs k ! i) \<noteq> Some i"
  shows "k_procs (list_remove w i k) ! j =
    (if j = i then (k_procs k ! j)\<lparr>pr_next := None, pr_prev := None\<rparr>
     else let p = (if pr_next (k_procs k ! i) = Some j then (k_procs k ! j)\<lparr>pr_prev := pr_prev (k_procs k ! i)\<rparr> else k_procs k ! j)
          in if pr_prev (k_procs k ! i) = Some j then p\<lparr>pr_next := pr_next (k_procs k ! i)\<rparr> else p)"
  using assms unfolding list_remove_procs_eq
  by (cases "pr_next (k_procs k ! i)"; cases "pr_prev (k_procs k ! i)") (auto simp: Let_def nth_list_update)

lemma get_set_list [simp]: "get_list w (set_list w l k) = l"
  by (cases w) (simp_all add: get_list_def set_list_def)

lemma get_list_upd_proc [simp]: "get_list w (upd_proc i f k) = get_list w k"
  by (cases w) (simp_all add: get_list_def)

lemma list_remove_lists:
  "pl_first (get_list w (list_remove w i k)) =
    (if pl_first (get_list w k) = Some i then pr_next (k_procs k ! i) else pl_first (get_list w k))"
  "pl_last (get_list w (list_remove w i k)) =
    (if pl_last (get_list w k) = Some i then pr_prev (k_procs k ! i) else pl_last (get_list w k))"
  by (cases "pr_next (k_procs k ! i)"; cases "pr_prev (k_procs k ! i)"; simp add: list_remove_def Let_def)+

lemma list_remove_dlist:
  assumes d: "dlist (k_procs k) (get_list w k) xs" and i: "i \<in> set xs"
  shows "dlist (k_procs (list_remove w i k)) (get_list w (list_remove w i k)) (remove1 i xs)"
    and "unlinked (k_procs (list_remove w i k)) i"
proof -
  let ?ps = "k_procs k" and ?ps' = "k_procs (list_remove w i k)"
  let ?pv = "\<lambda>j. pr_prev (?ps ! j)" and ?nx = "\<lambda>j. pr_next (?ps ! j)"
  let ?pv' = "\<lambda>j. pr_prev (?ps' ! j)" and ?nx' = "\<lambda>j. pr_next (?ps' ! j)"
  obtain as bs where xs: "xs = as @ i # bs" "i \<notin> set as" using i by (metis split_list_first)
  have r: "remove1 i xs = as @ bs" using xs by (simp add: remove1_append)
  have D: "distinct (as @ i # bs)" "\<forall>x\<in>set (as @ i # bs). x < length ?ps" using d xs by (auto simp: dlist_def)
  have L: "links ?pv ?nx None as (Some i)" "?pv i = (if as = [] then None else Some (last as))"
    "?nx i = (if bs = [] then None else Some (hd bs))" "links ?pv ?nx (Some i) bs None"
    using d xs by (auto simp: dlist_def links_append)
  have self: "?nx i \<noteq> Some i" "?pv i \<noteq> Some i" using L(2,3) D(1) by auto
  have il: "i < length ?ps" using D(2) by simp
  note P = list_remove_procs [OF _ il self, of _ w]
  show "unlinked ?ps' i" using P [OF il] by (simp add: unlinked_def)
  have la: "links ?pv' ?nx' None as (?nx i)"
  proof (cases as rule: rev_cases)
    case (snoc as' a)
    show ?thesis unfolding snoc
    proof (rule links_set_next [OF L(1) [unfolded snoc]])
      show "?pv' x = ?pv x \<and> ?nx' x = ?nx x" if "x \<in> set as'" for x
        using P [of x] that D snoc L(2,3) by (auto simp: Let_def)
    qed (use P [of a] D snoc L(2,3) in \<open>auto simp: Let_def\<close>)
  qed simp
  have las: "last as \<notin> set bs" if "as \<noteq> []" using last_in_set [OF that] D(1) by auto
  have lb: "links ?pv' ?nx' (?pv i) bs None"
  proof (cases bs)
    case (Cons b bs')
    show ?thesis unfolding Cons
    proof (rule links_set_prev [OF L(4) [unfolded Cons]])
      show "?pv' x = ?pv x \<and> ?nx' x = ?nx x" if "x \<in> set bs'" for x
        using P [of x] that D Cons L(2,3) las by (auto simp: Let_def)
    qed (use P [of b] D Cons L(2,3) las in \<open>auto simp: Let_def\<close>)
  qed simp
  have "links ?pv' ?nx' None (as @ bs) None" using la lb L(2,3) by (auto simp: links_append)
  moreover have "pl_first (get_list w (list_remove w i k)) = (if as @ bs = [] then None else Some (hd (as @ bs)))"
    "pl_last (get_list w (list_remove w i k)) = (if as @ bs = [] then None else Some (last (as @ bs)))"
  proof -
    have f: "pl_first (get_list w k) = Some (hd (as @ [i]))" "pl_last (get_list w k) = Some (last (i # bs))"
      using d xs by (auto simp: dlist_def hd_append)
    show "pl_first (get_list w (list_remove w i k)) = (if as @ bs = [] then None else Some (hd (as @ bs)))"
      unfolding list_remove_lists f using L(3) xs(2) by (cases as) auto
    have "last bs \<noteq> i" if "bs \<noteq> []" using last_in_set [OF that] D(1) by auto
    then show "pl_last (get_list w (list_remove w i k)) = (if as @ bs = [] then None else Some (last (as @ bs)))"
      unfolding list_remove_lists f using L(2) by (cases "bs = []") auto
  qed
  ultimately show "dlist ?ps' (get_list w (list_remove w i k)) (remove1 i xs)"
    unfolding r using D by (auto simp: dlist_def)
qed

text \<open>What the list operations leave alone: everything but the links of processes in the list.\<close>

definition same_body :: "process \<Rightarrow> process \<Rightarrow> bool" where
  "same_body p q \<longleftrightarrow> q = p\<lparr>pr_prev := pr_prev q, pr_next := pr_next q\<rparr>"

lemma same_body_refl [simp]: "same_body p p"
  by (simp add: same_body_def)

lemma same_body_trans: "same_body p q \<Longrightarrow> same_body q r \<Longrightarrow> same_body p r"
  unfolding same_body_def by (metis (no_types, lifting) process.surjective process.update_convs(5) process.update_convs(6))

lemma same_bodyD:
  assumes "same_body p q"
  shows "pr_ready q = pr_ready p" "pr_exists q = pr_exists p" "pr_exited q = pr_exited p" "pr_pid q = pr_pid p"
proof -
  have q: "q = p\<lparr>pr_prev := pr_prev q, pr_next := pr_next q\<rparr>" using assms by (simp add: same_body_def)
  show "pr_ready q = pr_ready p" "pr_exists q = pr_exists p" "pr_exited q = pr_exited p" "pr_pid q = pr_pid p"
    by (subst q, simp)+
qed

lemma dlist_self:
  assumes d: "dlist (k_procs k) l xs" and i: "i \<in> set xs"
  shows "i < length (k_procs k)" "pr_next (k_procs k ! i) \<noteq> Some i" "pr_prev (k_procs k ! i) \<noteq> Some i"
    "pr_next (k_procs k ! i) = Some n \<Longrightarrow> n \<in> set xs" "pr_prev (k_procs k ! i) = Some n \<Longrightarrow> n \<in> set xs"
proof -
  obtain as bs where xs: "xs = as @ i # bs" using i by (meson split_list)
  have L: "pr_prev (k_procs k ! i) = (if as = [] then None else Some (last as))"
    "pr_next (k_procs k ! i) = (if bs = [] then None else Some (hd bs))"
    using d xs by (auto simp: dlist_def links_append)
  have D: "distinct (as @ i # bs)" "i < length (k_procs k)" using d xs by (auto simp: dlist_def)
  show "i < length (k_procs k)" by (rule D(2))
  show "pr_next (k_procs k ! i) \<noteq> Some i" "pr_prev (k_procs k ! i) \<noteq> Some i"
    using L D by (auto split: if_splits)
  show "pr_next (k_procs k ! i) = Some n \<Longrightarrow> n \<in> set xs" "pr_prev (k_procs k ! i) = Some n \<Longrightarrow> n \<in> set xs"
    using L xs by (auto split: if_splits)
qed

lemma list_remove_body:
  assumes d: "dlist (k_procs k) (get_list w k) xs" and i: "i \<in> set xs" and j: "j < length (k_procs k)"
  shows "same_body (k_procs k ! j) (k_procs (list_remove w i k) ! j)"
    and "j \<notin> set xs \<Longrightarrow> k_procs (list_remove w i k) ! j = k_procs k ! j"
proof -
  note S = dlist_self [OF d i]
  note P = list_remove_procs [OF j S(1-3), of w]
  show "same_body (k_procs k ! j) (k_procs (list_remove w i k) ! j)"
    unfolding P by (auto simp: same_body_def Let_def)
  show "j \<notin> set xs \<Longrightarrow> k_procs (list_remove w i k) ! j = k_procs k ! j"
    unfolding P using i S(4) [of j] S(5) [of j] by (auto simp: Let_def)
qed

lemma list_add_body:
  assumes d: "dlist (k_procs k) (get_list w k) xs" and i: "i < length (k_procs k)" and j: "j < length (k_procs k)"
  shows "same_body (k_procs k ! j) (k_procs (list_add w i k) ! j)"
    and "j \<notin> set xs \<Longrightarrow> j \<noteq> i \<Longrightarrow> k_procs (list_add w i k) ! j = k_procs k ! j"
proof -
  note P = list_add_procs [OF j i, of w]
  show "same_body (k_procs k ! j) (k_procs (list_add w i k) ! j)"
    unfolding P by (auto simp: same_body_def Let_def split: option.splits)
  show "k_procs (list_add w i k) ! j = k_procs k ! j" if "j \<notin> set xs" "j \<noteq> i"
    unfolding P using d that by (auto simp: dlist_def Let_def split: option.splits if_splits)
qed

lemma dlist_untouched:
  assumes "dlist ps l xs" "length ps' = length ps" "\<And>x. x \<in> set xs \<Longrightarrow> ps' ! x = ps ! x"
  shows "dlist ps' l xs"
  using assms dlist_cong [of ps' ps xs l] by auto

text \<open>Moving a process from one list to the front of another one.\<close>

lemma list_move:
  assumes w: "w \<noteq> w'" and d: "dlist (k_procs k) (get_list w k) xs" "dlist (k_procs k) (get_list w' k) ys"
    and i: "i \<in> set xs" and dj: "set xs \<inter> set ys = {}" and k': "k' = list_add w' i (list_remove w i k)"
  shows "dlist (k_procs k') (get_list w k') (remove1 i xs)" "dlist (k_procs k') (get_list w' k') (i # ys)"
    and "j < length (k_procs k) \<Longrightarrow> same_body (k_procs k ! j) (k_procs k' ! j)"
    and "j < length (k_procs k) \<Longrightarrow> j \<notin> set xs \<union> set ys \<Longrightarrow> k_procs k' ! j = k_procs k ! j"
proof -
  let ?k1 = "list_remove w i k"
  note R = list_remove_dlist [OF d(1) i]
  have il: "i < length (k_procs k)" using dlist_self [OF d(1) i] by simp
  have ys: "dlist (k_procs ?k1) (get_list w' ?k1) ys"
    unfolding list_remove_frame(3) [OF w]
    by (rule dlist_untouched [OF d(2)]) (use list_remove_body(2) [OF d(1) i] d(2) dj in \<open>auto simp: dlist_def\<close>)
  show "dlist (k_procs k') (get_list w' k') (i # ys)"
    unfolding k' by (rule list_add_dlist [OF ys]) (use il i dj R(2) in auto)
  have "dlist (k_procs k') (get_list w ?k1) (remove1 i xs)"
    unfolding k'
  proof (rule dlist_untouched [OF R(1)])
    fix x assume x: "x \<in> set (remove1 i xs)"
    then have "x \<in> set xs" "x \<noteq> i" "x < length (k_procs ?k1)" using d(1) by (auto simp: dlist_def)
    then show "k_procs (list_add w' i ?k1) ! x = k_procs ?k1 ! x"
      using list_add_body(2) [OF ys, of i x] il dj by auto
  qed simp
  then show "dlist (k_procs k') (get_list w k') (remove1 i xs)" using w by (simp add: k' list_add_frame(3))
  show "same_body (k_procs k ! j) (k_procs k' ! j)" if "j < length (k_procs k)"
    unfolding k' using list_remove_body(1) [OF d(1) i that] list_add_body(1) [OF ys, of i j] il that
    by (auto intro: same_body_trans)
  show "k_procs k' ! j = k_procs k ! j" if "j < length (k_procs k)" "j \<notin> set xs \<union> set ys"
    unfolding k' using list_remove_body(2) [OF d(1) i that(1)] list_add_body(2) [OF ys, of i j] il that i by auto
qed

subsection \<open>The scheduler's view of the process table\<close>

text \<open>
  \<open>rs\<close> and \<open>ss\<close> are the ready and the suspended processes in the order of their lists: the two lists are
  disjoint, hold exactly the live processes with the right \<open>ready\<close> flag, and all other processes are linked
  nowhere. The current process, if there is one, is in one of the lists.
\<close>

definition live_proc :: "process \<Rightarrow> bool" where
  "live_proc p \<longleftrightarrow> pr_exists p \<and> \<not> pr_exited p"

definition sched :: "kernel \<Rightarrow> nat list \<Rightarrow> nat list \<Rightarrow> bool" where
  "sched k rs ss \<longleftrightarrow>
     length (k_procs k) = MAX_PROCESSES \<and>
     dlist (k_procs k) (k_ready k) rs \<and> dlist (k_procs k) (k_suspended k) ss \<and> set rs \<inter> set ss = {} \<and>
     (\<forall>i<MAX_PROCESSES. (i \<in> set rs \<longleftrightarrow> live_proc (k_procs k ! i) \<and> pr_ready (k_procs k ! i)) \<and>
        (i \<in> set ss \<longleftrightarrow> live_proc (k_procs k ! i) \<and> \<not> pr_ready (k_procs k ! i)) \<and>
        (i \<notin> set rs \<union> set ss \<longrightarrow> unlinked (k_procs k) i) \<and>
        (pr_exists (k_procs k ! i) \<longrightarrow> pr_pid (k_procs k ! i) = int i)) \<and>
     (\<forall>c. k_current k = Some c \<longrightarrow> c \<in> set rs \<union> set ss)"

text \<open>Operations that leave the links, the flags and the lists alone keep the schedule.\<close>

definition same_links :: "process \<Rightarrow> process \<Rightarrow> bool" where
  "same_links p q \<longleftrightarrow> pr_prev q = pr_prev p \<and> pr_next q = pr_next p \<and> pr_ready q = pr_ready p \<and>
     pr_exists q = pr_exists p \<and> pr_exited q = pr_exited p \<and> pr_pid q = pr_pid p"

lemma same_links_refl [simp]: "same_links p p"
  by (simp add: same_links_def)

lemma sched_frame:
  assumes s: "sched k rs ss" and l: "length (k_procs k') = length (k_procs k)"
    and p: "\<And>i. i < MAX_PROCESSES \<Longrightarrow> same_links (k_procs k ! i) (k_procs k' ! i)"
    and q: "k_ready k' = k_ready k" "k_suspended k' = k_suspended k" "\<And>c. k_current k' = Some c \<Longrightarrow> c \<in> set rs \<union> set ss"
  shows "sched k' rs ss"
proof -
  have len: "length (k_procs k) = MAX_PROCESSES" using s by (simp add: sched_def)
  have d: "dlist (k_procs k') lst xs = dlist (k_procs k) lst xs" if "\<forall>x\<in>set xs. x < MAX_PROCESSES" for lst xs
    by (rule dlist_cong [OF l]) (use that p in \<open>auto simp: same_links_def\<close>)
  have b: "\<forall>x\<in>set rs. x < MAX_PROCESSES" "\<forall>x\<in>set ss. x < MAX_PROCESSES" using s by (auto simp: sched_def dlist_def)
  have e: "live_proc (k_procs k' ! i) = live_proc (k_procs k ! i)" "pr_ready (k_procs k' ! i) = pr_ready (k_procs k ! i)"
    "unlinked (k_procs k') i = unlinked (k_procs k) i" "pr_exists (k_procs k' ! i) = pr_exists (k_procs k ! i)"
    "pr_pid (k_procs k' ! i) = pr_pid (k_procs k ! i)" if "i < MAX_PROCESSES" for i
    using p [OF that] by (auto simp: same_links_def live_proc_def unlinked_def)
  show ?thesis
    unfolding sched_def q(1,2) l d [OF b(1)] d [OF b(2)] using s q(3) e unfolding sched_def by auto
qed

lemma sched_update:
  assumes "sched k rs ss" "\<And>p. same_links p (f p)"
  shows "sched (upd_proc i f k) rs ss"
proof (rule sched_frame [OF assms(1)])
  show "same_links (k_procs k ! j) (k_procs (upd_proc i f k) ! j)" if "j < MAX_PROCESSES" for j
    using that assms by (cases "j = i") (auto simp: nth_upd_proc sched_def)
qed (use assms(1) in \<open>auto simp: sched_def\<close>)

lemma sched_length: "sched k rs ss \<Longrightarrow> length (k_procs k) = MAX_PROCESSES"
  by (simp add: sched_def)

lemma sched_lt: "sched k rs ss \<Longrightarrow> x \<in> set rs \<union> set ss \<Longrightarrow> x < MAX_PROCESSES"
  by (auto simp: sched_def dlist_def)

lemma sched_proc:
  assumes "sched k rs ss" "x \<in> set rs \<union> set ss"
  shows "get_proc x k = Some (k_procs k ! x)" "pr_exists (k_procs k ! x)" "\<not> pr_exited (k_procs k ! x)"
    "pr_ready (k_procs k ! x) \<longleftrightarrow> x \<in> set rs" "pr_pid (k_procs k ! x) = int x"
  using assms sched_lt [OF assms] by (auto simp: sched_def get_proc_def live_proc_def)

text \<open>The rest of the kernel state is not touched by the list operations.\<close>

definition only_sched :: "kernel \<Rightarrow> kernel \<Rightarrow> bool" where
  "only_sched k k' \<longleftrightarrow> k' = k\<lparr>k_procs := k_procs k', k_ready := k_ready k', k_suspended := k_suspended k'\<rparr>"

lemma only_schedD:
  assumes "only_sched k k'"
  shows "k_mm k' = k_mm k" "k_heap k' = k_heap k" "k_handles k' = k_handles k" "k_pipes k' = k_pipes k"
    "k_arrays k' = k_arrays k" "k_mailboxes k' = k_mailboxes k" "k_current k' = k_current k" "k_paging k' = k_paging k"
    "k_screen k' = k_screen k" "k_filesystem k' = k_filesystem k" "k_input_pipe k' = k_input_pipe k"
proof -
  have q: "k' = k\<lparr>k_procs := k_procs k', k_ready := k_ready k', k_suspended := k_suspended k'\<rparr>"
    using assms by (simp add: only_sched_def)
  show "k_mm k' = k_mm k" "k_heap k' = k_heap k" "k_handles k' = k_handles k" "k_pipes k' = k_pipes k"
    "k_arrays k' = k_arrays k" "k_mailboxes k' = k_mailboxes k" "k_current k' = k_current k" "k_paging k' = k_paging k"
    "k_screen k' = k_screen k" "k_filesystem k' = k_filesystem k" "k_input_pipe k' = k_input_pipe k"
    by (subst q, simp)+
qed

text \<open>Of the process structures only the links and the flag \<open>ready\<close> may change.\<close>

definition same_procs :: "kernel \<Rightarrow> kernel \<Rightarrow> bool" where
  "same_procs k k' \<longleftrightarrow>
     length (k_procs k') = length (k_procs k) \<and>
     (\<forall>j<length (k_procs k). \<exists>pv nx r. k_procs k' ! j = (k_procs k ! j)\<lparr>pr_prev := pv, pr_next := nx, pr_ready := r\<rparr>)"

lemma only_sched_refl [simp]: "only_sched k k"
  by (simp add: only_sched_def)

lemma only_sched_trans: "only_sched a b \<Longrightarrow> only_sched b c \<Longrightarrow> only_sched a c"
  by (cases a; cases b; cases c) (simp add: only_sched_def)

lemma only_sched_upd [simp]: "only_sched k (upd_proc i f k)"
  by (simp add: only_sched_def upd_proc_def)

lemma only_sched_set_list [simp]: "only_sched k (set_list w l k)"
  by (cases w) (simp_all add: only_sched_def set_list_def)

lemma only_sched_list_add: "only_sched k (list_add w i k)"
  by (cases "pl_first (get_list w k)")
    (simp_all add: list_add_def Let_def
      only_sched_trans [OF only_sched_trans [OF only_sched_upd only_sched_upd] only_sched_set_list])

lemma only_sched_list_remove: "only_sched k (list_remove w i k)"
proof -
  have "only_sched k (case x of None \<Rightarrow> k1 | Some n \<Rightarrow> upd_proc n (f n) k1)" if "only_sched k k1" for x k1 f
    using that by (cases x) (auto intro: only_sched_trans)
  moreover have "only_sched k (if b then set_list w l k1 else k1)" if "only_sched k k1" for b l k1
    using that by (auto intro: only_sched_trans)
  moreover have "only_sched k (upd_proc i f k1)" if "only_sched k k1" for f k1
    using that by (auto intro: only_sched_trans)
  ultimately show ?thesis unfolding list_remove_def Let_def by simp
qed

text \<open>Both transitions of a process, in one lemma.\<close>

lemma transition_sched:
  assumes s: "sched k rs ss" and r: "r \<longleftrightarrow> w' = Ready"
    and w: "(w = Ready \<and> w' = Suspended \<and> i \<in> set rs) \<or> (w = Suspended \<and> w' = Ready \<and> i \<in> set ss)"
    and k': "k' = list_add w' i (list_remove w i (upd_proc i (\<lambda>p. p\<lparr>pr_ready := r\<rparr>) k))"
  shows "if w = Ready then sched k' (remove1 i rs) (i # ss) else sched k' (i # rs) (remove1 i ss)"
    and "only_sched k k'" "same_procs k k'" "j < length (k_procs k) \<Longrightarrow> j \<noteq> i \<Longrightarrow> same_body (k_procs k ! j) (k_procs k' ! j)"
proof -
  let ?k1 = "upd_proc i (\<lambda>p. p\<lparr>pr_ready := r\<rparr>) k"
  have len: "length (k_procs k) = MAX_PROCESSES" and dj: "set rs \<inter> set ss = {}" using s by (auto simp: sched_def)
  have bound: "j < MAX_PROCESSES" if "j \<in> set rs \<union> set ss" for j using s that by (auto simp: sched_def dlist_def)
  have d1: "dlist (k_procs ?k1) lst xs" if "dlist (k_procs k) lst xs" for lst xs
    using that dlist_cong [of "k_procs ?k1" "k_procs k" xs lst] by (auto simp: dlist_def nth_upd_proc)
  have D: "dlist (k_procs ?k1) (get_list Ready ?k1) rs" "dlist (k_procs ?k1) (get_list Suspended ?k1) ss"
    using s d1 by (auto simp: sched_def get_list_def)
  have il: "i < MAX_PROCESSES" using w bound by auto
  show oc: "only_sched k k'"
    unfolding k' by (intro only_sched_trans [OF only_sched_trans [OF only_sched_upd only_sched_list_remove] only_sched_list_add])
  define xs where "xs = (if w = Ready then rs else ss)"
  define ys where "ys = (if w = Ready then ss else rs)"
  have xy: "w \<noteq> w'" "dlist (k_procs ?k1) (get_list w ?k1) xs" "dlist (k_procs ?k1) (get_list w' ?k1) ys" "i \<in> set xs"
    "set xs \<inter> set ys = {}" using w D dj by (auto simp: xs_def ys_def)
  note M = list_move [OF xy k']
  have dx: "distinct xs" using xy(2) by (simp add: dlist_def)
  have B: "pr_ready (k_procs k' ! j) = (if j = i then r else pr_ready (k_procs k ! j))"
    "live_proc (k_procs k' ! j) = live_proc (k_procs k ! j)" "pr_exists (k_procs k' ! j) = pr_exists (k_procs k ! j)"
    "pr_pid (k_procs k' ! j) = pr_pid (k_procs k ! j)" if "j < MAX_PROCESSES" for j
    using same_bodyD [OF M(3) [of j]] that len by (auto simp: nth_upd_proc live_proc_def)
  have "\<exists>pv nx rd. k_procs k' ! j = (k_procs k ! j)\<lparr>pr_prev := pv, pr_next := nx, pr_ready := rd\<rparr>"
    if "j < length (k_procs k)" for j
  proof -
    let ?q = "k_procs k' ! j"
    have "same_body (k_procs ?k1 ! j) ?q" using M(3) [of j] that by simp
    then have "?q = (k_procs ?k1 ! j)\<lparr>pr_prev := pr_prev ?q, pr_next := pr_next ?q\<rparr>" by (simp add: same_body_def)
    then have "?q = (k_procs k ! j)\<lparr>pr_prev := pr_prev ?q, pr_next := pr_next ?q, pr_ready := pr_ready ?q\<rparr>"
      using that by (cases "k_procs k ! j"; cases ?q) (simp add: nth_upd_proc split: if_splits)
    then show ?thesis by blast
  qed
  then show "same_procs k k'" by (simp add: same_procs_def k')
  show "j < length (k_procs k) \<Longrightarrow> j \<noteq> i \<Longrightarrow> same_body (k_procs k ! j) (k_procs k' ! j)"
    using M(3) [of j] by (simp add: nth_upd_proc)
  have U: "unlinked (k_procs k') j" if "j < MAX_PROCESSES" "j \<notin> set rs \<union> set ss" for j
  proof -
    have "k_procs k' ! j = k_procs ?k1 ! j" using M(4) [of j] that len by (auto simp: xs_def ys_def)
    moreover have "unlinked (k_procs k) j" using s that by (auto simp: sched_def)
    ultimately show ?thesis using that w len by (auto simp: unlinked_def nth_upd_proc)
  qed
  have L: "i \<in> set xs \<Longrightarrow> set (remove1 i xs) = set xs - {i}" using dx by simp
  have cur: "k_current k' = k_current k" and l': "length (k_procs k') = MAX_PROCESSES"
    using only_schedD(7) [OF oc] len by (auto simp: k')
  show "if w = Ready then sched k' (remove1 i rs) (i # ss) else sched k' (i # rs) (remove1 i ss)"
  proof (cases "w = Ready")
    case True
    then have "r = False" "xs = rs" "ys = ss" "w' = Suspended" using w r by (auto simp: xs_def ys_def)
    with True s M(1,2) B U L xy(4,5) cur l' show ?thesis
      unfolding sched_def get_list_def by auto
  next
    case False
    then have "r = True" "xs = ss" "ys = rs" "w' = Ready" "w = Suspended" using w r by (auto simp: xs_def ys_def)
    with s M(1,2) B U L xy(4,5) cur l' show ?thesis
      unfolding sched_def get_list_def by auto
  qed
qed

lemma suspend_sched:
  assumes s: "sched k rs ss" and i: "i \<in> set rs"
  obtains k' where "suspend_process i k = Some k'" "sched k' (remove1 i rs) (i # ss)" "only_sched k k'" "same_procs k k'"
proof -
  have "i < MAX_PROCESSES" using s i by (auto simp: sched_def dlist_def)
  then have p: "get_proc i k = Some (k_procs k ! i)" "pr_exists (k_procs k ! i)" "pr_ready (k_procs k ! i)"
    using s i by (auto simp: sched_def get_proc_def live_proc_def)
  define k' where "k' = list_add Suspended i (list_remove Ready i (upd_proc i (\<lambda>p. p\<lparr>pr_ready := False\<rparr>) k))"
  note T = transition_sched [OF s, of False Suspended Ready i k']
  from T i show thesis
    by (intro that [of k']) (auto simp: suspend_process_def p k'_def Let_def)
qed

text \<open>The other processes keep everything but their links.\<close>

lemma suspend_others:
  assumes s: "sched k rs ss" and i: "i \<in> set rs" and k': "suspend_process i k = Some k'" and j: "j < MAX_PROCESSES" "j \<noteq> i"
  shows "same_body (k_procs k ! j) (k_procs k' ! j)"
proof -
  have "k' = list_add Suspended i (list_remove Ready i (upd_proc i (\<lambda>p. p\<lparr>pr_ready := False\<rparr>) k))"
    using k' by (auto simp: suspend_process_def bind_eq_Some_conv split: if_splits)
  from transition_sched(4) [OF s _ _ this, of j] i j show ?thesis by (simp add: sched_length [OF s])
qed

lemma resume_sched:
  assumes s: "sched k rs ss" and i: "i \<in> set ss"
  obtains k' where "resume_process i k = Some k'" "sched k' (i # rs) (remove1 i ss)" "only_sched k k'" "same_procs k k'"
proof -
  have "i < MAX_PROCESSES" using s i by (auto simp: sched_def dlist_def)
  then have p: "get_proc i k = Some (k_procs k ! i)" "pr_exists (k_procs k ! i)" "\<not> pr_ready (k_procs k ! i)"
    using s i by (auto simp: sched_def get_proc_def live_proc_def)
  define k' where "k' = list_add Ready i (list_remove Suspended i (upd_proc i (\<lambda>p. p\<lparr>pr_ready := True\<rparr>) k))"
  note T = transition_sched [OF s, of True Ready Suspended i k']
  from T i show thesis
    by (intro that [of k']) (auto simp: resume_process_def p k'_def Let_def)
qed

text \<open>A small machine for the witnesses: process 1 is ready and runs, process 2 is suspended.\<close>

definition proc_of :: "nat \<Rightarrow> bool \<Rightarrow> process" where
  "proc_of i r = zero_process\<lparr>pr_pid := int i, pr_exists := True, pr_ready := r, pr_parent_pid := - 1, pr_waiting_on := - 1\<rparr>"

definition two_procs :: kernel where
  "two_procs =
     \<lparr>k_mm = mm_init (\<lambda>_. 0) 16777216, k_heap = small_area, k_handles = Map.empty, k_pipes = Map.empty,
      k_arrays = Map.empty, k_mailboxes = Map.empty,
      k_procs = (replicate MAX_PROCESSES zero_process)[1 := proc_of 1 True, 2 := proc_of 2 False],
      k_current = Some 1, k_ready = \<lparr>pl_first = Some 1, pl_last = Some 1\<rparr>,
      k_suspended = \<lparr>pl_first = Some 2, pl_last = Some 2\<rparr>, k_paging = None, k_screen = blank_screen,
      k_filesystem = [], k_input_pipe = None, k_shift_pressed = False, k_timer_ticks = 0,
      k_fpustate = replicate 27 0, k_stack = replicate 4096 0,
      k_layout = \<lparr>ly_code = 0x100000, ly_data = 0x110000, ly_idle_stack = 0x112000, ly_idle = 0x100100,
        ly_launch_shell = 0x100200\<rparr>\<rparr>"

lemma two_procs_sched: "sched two_procs [1] [2]"
proof -
  have n: "k_procs two_procs ! i = (if i = 1 then proc_of 1 True else if i = 2 then proc_of 2 False else zero_process)"
    if "i < 32" for i
    using that by (auto simp: two_procs_def nth_list_update)
  have f: "length (k_procs two_procs) = 32" "k_ready two_procs = \<lparr>pl_first = Some 1, pl_last = Some 1\<rparr>"
    "k_suspended two_procs = \<lparr>pl_first = Some 2, pl_last = Some 2\<rparr>" "k_current two_procs = Some 1"
    by (simp_all add: two_procs_def)
  show ?thesis
    unfolding sched_def dlist_def MAX_PROCESSES_def f using n
    by (auto simp: proc_of_def zero_process_def live_proc_def unlinked_def f)
qed

text \<open>
  C5: \<open>suspend_process\<close> on a ready process returns; the process leaves the ready list, whose order is
  otherwise kept, and goes to the front of the suspended list. All links of both lists and the flags of
  all processes fit again, and nothing else in the kernel changes.
\<close>

theorem suspend_process_correct:
  assumes "sched k rs ss" and "i \<in> set rs"
  shows "\<exists>k'. suspend_process i k = Some k' \<and> sched k' (remove1 i rs) (i # ss) \<and> only_sched k k' \<and> same_procs k k'"
  using suspend_sched [OF assms] by blast

theorem suspend_process_correct_witness:
  "\<exists>k'. suspend_process 1 two_procs = Some k' \<and> sched k' [] [1, 2]"
  using suspend_process_correct [OF two_procs_sched, of 1] by auto

text \<open>A process that has exited is in no list, but the assertions of \<open>resume_process\<close> accept it.\<close>

lemma resume_zombie:
  assumes s: "sched k rs ss" and i: "i < MAX_PROCESSES" "pr_exists (k_procs k ! i)" "pr_exited (k_procs k ! i)" "\<not> pr_ready (k_procs k ! i)"
  obtains k' where "resume_process i k = Some k'" "dlist (k_procs k') (k_ready k') (i # rs)" "dlist (k_procs k') (k_suspended k') ss"
proof -
  let ?k1 = "upd_proc i (\<lambda>p. p\<lparr>pr_ready := True\<rparr>) k"
  have l: "length (k_procs k) = MAX_PROCESSES" by (rule sched_length [OF s])
  have ds: "dlist (k_procs k) (k_ready k) rs" "dlist (k_procs k) (k_suspended k) ss" "set rs \<inter> set ss = {}" using s unfolding sched_def by blast+
  have "i \<in> set rs \<longleftrightarrow> live_proc (k_procs k ! i) \<and> pr_ready (k_procs k ! i)" "i \<in> set ss \<longleftrightarrow> live_proc (k_procs k ! i) \<and> \<not> pr_ready (k_procs k ! i)"
    "i \<notin> set rs \<union> set ss \<longrightarrow> unlinked (k_procs k) i" using s i(1) unfolding sched_def by blast+
  then have n: "i \<notin> set rs" "i \<notin> set ss" "unlinked (k_procs k) i" using i(3) by (simp_all add: live_proc_def)
  have f: "pl_first (k_suspended k) \<noteq> Some i" "pl_last (k_suspended k) \<noteq> Some i" using ds(2) n(2) unfolding dlist_def by (auto split: if_splits)
  have r: "list_remove Suspended i ?k1 = upd_proc i (\<lambda>p. p\<lparr>pr_next := None, pr_prev := None\<rparr>) ?k1"
    using f n(3) i(1) l by (simp add: list_remove_def get_list_def nth_upd_proc unlinked_def Let_def)
  let ?k2 = "list_remove Suspended i ?k1" and ?k' = "list_add Ready i (list_remove Suspended i ?k1)"
  have p2: "pr_prev (k_procs ?k2 ! j) = pr_prev (k_procs k ! j)" "pr_next (k_procs ?k2 ! j) = pr_next (k_procs k ! j)" if "j < length (k_procs k)" for j
    unfolding r using that n(3) by (auto simp: nth_upd_proc unlinked_def)
  have d: "dlist (k_procs ?k2) lst xs = dlist (k_procs k) lst xs" if "\<forall>x\<in>set xs. x < length (k_procs k)" for lst xs
    by (rule dlist_cong) (use that p2 in auto)
  have b: "\<forall>x\<in>set rs. x < length (k_procs k)" "\<forall>x\<in>set ss. x < length (k_procs k)" using ds(1,2) by (simp_all add: dlist_def)
  have L: "get_list Ready ?k2 = k_ready k" "get_list Suspended ?k2 = k_suspended k" unfolding r by (simp_all add: get_list_def)
  have d2: "dlist (k_procs ?k2) (get_list Ready ?k2) rs" "dlist (k_procs ?k2) (get_list Suspended ?k2) ss"
    unfolding L d [OF b(1)] d [OF b(2)] by (fact ds)+
  have u: "unlinked (k_procs ?k2) i" "i < length (k_procs ?k2)" using p2 [of i] i(1) l n(3) by (simp_all add: unlinked_def)
  have g: "dlist (k_procs ?k') (get_list Ready ?k') (i # rs)" by (rule list_add_dlist [OF d2(1) u(2) n(1) u(1)])
  have "k_procs ?k' ! j = k_procs ?k2 ! j" if "j \<in> set ss" for j
    using list_add_body(2) [OF d2(1) u(2), of j] that b(2) n(2) ds(3) l by auto
  then have "dlist (k_procs ?k') (get_list Suspended ?k2) ss = dlist (k_procs ?k2) (get_list Suspended ?k2) ss" by (intro dlist_cong) simp_all
  then have h: "dlist (k_procs ?k') (get_list Suspended ?k') ss" using d2(2) by simp
  show thesis by (rule that [of ?k']) (use i l g h in \<open>simp_all add: resume_process_def get_proc_def get_list_def Let_def\<close>)
qed

text \<open>
  C6: \<open>resume_process\<close> on a suspended process returns, and moves it to the front of the ready list, with every other process
  and the rest of the state as they were. On a ready process and on a free entry of the table its assertions fail. A process that
  has exited and was not ready then passes the assertions, although it is in neither list: it is put on the ready list again.
\<close>

theorem resume_process_correct:
  assumes "sched k rs ss" and "i < MAX_PROCESSES"
  shows "if i \<in> set ss then \<exists>k'. resume_process i k = Some k' \<and> sched k' (i # rs) (remove1 i ss) \<and> only_sched k k' \<and> same_procs k k'
    else if pr_exists (k_procs k ! i) \<and> pr_exited (k_procs k ! i) \<and> \<not> pr_ready (k_procs k ! i)
    then \<exists>k'. resume_process i k = Some k' \<and> dlist (k_procs k') (k_ready k') (i # rs) \<and> dlist (k_procs k') (k_suspended k') ss
    else resume_process i k = None"
proof (cases "i \<in> set ss")
  case True
  from resume_sched [OF assms(1) True] show ?thesis using True by auto
next
  case False
  then have "resume_process i k = None" if "\<not> (pr_exists (k_procs k ! i) \<and> pr_exited (k_procs k ! i) \<and> \<not> pr_ready (k_procs k ! i))"
    using that assms by (auto simp: resume_process_def get_proc_def sched_def live_proc_def)
  moreover have "\<exists>k'. resume_process i k = Some k' \<and> dlist (k_procs k') (k_ready k') (i # rs) \<and> dlist (k_procs k') (k_suspended k') ss"
    if "pr_exists (k_procs k ! i)" "pr_exited (k_procs k ! i)" "\<not> pr_ready (k_procs k ! i)"
    using resume_zombie [OF assms that] by blast
  ultimately show ?thesis using False by auto
qed

theorem resume_process_correct_witness:
  "\<exists>k'. resume_process 2 two_procs = Some k' \<and> sched k' [2, 1] []"
  using resume_process_correct [OF two_procs_sched, of 2] by auto

end
