(* ===== verification/Pipe.thy ===== *)
theory Pipe
  imports Process_List
begin

text \<open>
  Pipes, \<^verbatim>\<open>source/pipe.c\<close>, and the generic part of file handles, \<^verbatim>\<open>source/filedesc.c\<close>: the
  definitions. A pipe is its address, its data array is the list of its \<open>alloc\<close> bytes under the address of
  the array. The contents of fresh heap memory are written as 0; they are never read before they are written.
  The bytes that a call copies from user memory are passed as a list.
\<close>

subsection \<open>Heap objects\<close>

definition upd_pipe :: "u32 \<Rightarrow> (pipe_buffer \<Rightarrow> pipe_buffer) \<Rightarrow> kernel \<Rightarrow> kernel option" where
  "upd_pipe b f k = map_option (\<lambda>p. k\<lparr>k_pipes := (k_pipes k)(b \<mapsto> f p)\<rparr>) (k_pipes k b)"

definition upd_handle :: "u32 \<Rightarrow> (filehandle \<Rightarrow> filehandle) \<Rightarrow> kernel \<Rightarrow> kernel option" where
  "upd_handle fh f k = map_option (\<lambda>h. k\<lparr>k_handles := (k_handles k)(fh \<mapsto> f h)\<rparr>) (k_handles k fh)"

definition free_pipe :: "u32 \<Rightarrow> kernel \<Rightarrow> kernel option" where
  "free_pipe b k = k_free b (k\<lparr>k_pipes := (k_pipes k)(b := None)\<rparr>)"

definition free_array :: "u32 \<Rightarrow> kernel \<Rightarrow> kernel option" where
  "free_array a k = k_free a (k\<lparr>k_arrays := (k_arrays k)(a := None)\<rparr>)"

definition free_handle :: "u32 \<Rightarrow> kernel \<Rightarrow> kernel option" where
  "free_handle fh k = k_free fh (k\<lparr>k_handles := (k_handles k)(fh := None)\<rparr>)"

definition new_array :: "u32 \<Rightarrow> kernel \<Rightarrow> (u32 \<times> kernel) option" where
  "new_array n k =
     do {
       (a, k) \<leftarrow> k_malloc n k;
       Some (a, k\<lparr>k_arrays := (k_arrays k)(a \<mapsto> replicate (unat n) 0)\<rparr>)
     }"

text \<open>\<open>sizeof(filehandle)\<close> is 36, \<open>sizeof(pipe_buffer)\<close> is 24.\<close>

definition new_handle :: "filehandle \<Rightarrow> kernel \<Rightarrow> (u32 \<times> kernel) option" where
  "new_handle h k =
     do {
       (fh, k) \<leftarrow> k_malloc 36 k;
       Some (fh, k\<lparr>k_handles := (k_handles k)(fh \<mapsto> h)\<rparr>)
     }"

subsection \<open>Pipes\<close>

definition new_pipe :: "kernel \<Rightarrow> (u32 \<times> kernel) option" where
  "new_pipe k =
     do {
       (b, k) \<leftarrow> k_malloc 24 k;
       (d, k) \<leftarrow> new_array (of_nat BUFSIZE) k;
       Some (b, k\<lparr>k_pipes := (k_pipes k)(b \<mapsto>
         \<lparr>pb_reading = True, pb_writing = True, pb_alloc = of_nat BUFSIZE, pb_len = 0, pb_readpid = - 1, pb_data = d\<rparr>)\<rparr>)
     }"

definition wake_up_reader :: "u32 \<Rightarrow> kernel \<Rightarrow> kernel option" where
  "wake_up_reader b k =
     do {
       p \<leftarrow> k_pipes k b;
       if 0 \<le> pb_readpid p
       then do {
              k \<leftarrow> resume_process (pid_index (pb_readpid p)) k;
              upd_pipe b (\<lambda>p. p\<lparr>pb_readpid := - 1\<rparr>) k
            }
       else Some k
     }"

text \<open>\<open>while (b->len+count > b->alloc) b->alloc *= 2\<close>, which runs forever once \<open>alloc\<close> wraps to 0.\<close>

partial_function (option) grow_alloc :: "u32 \<Rightarrow> u32 \<Rightarrow> u32 option" where
  "grow_alloc need alloc = (if alloc < need then grow_alloc need (alloc * 2) else Some alloc)"

text \<open>\<open>memmove(&data[at],buf,count)\<close> inside one array; behind its end is another heap block.\<close>

definition array_put :: "bytes \<Rightarrow> nat \<Rightarrow> bytes \<Rightarrow> bytes option" where
  "array_put arr at buf =
     (if at + length buf \<le> length arr then Some (take at arr @ buf @ drop (at + length buf) arr) else None)"

definition resize_pipe :: "u32 \<Rightarrow> u32 \<Rightarrow> kernel \<Rightarrow> kernel option" where
  "resize_pipe b need k =
     do {
       p \<leftarrow> k_pipes k b;
       if pb_alloc p < need
       then do {
              alloc \<leftarrow> grow_alloc need (pb_alloc p);
              k \<leftarrow> upd_pipe b (\<lambda>p. p\<lparr>pb_alloc := alloc\<rparr>) k;
              (newdata, k) \<leftarrow> new_array alloc k;
              old \<leftarrow> k_arrays k (pb_data p);
              new \<leftarrow> k_arrays k newdata;
              assert_c (unat (pb_len p) \<le> length old);
              new \<leftarrow> array_put new 0 (take (unat (pb_len p)) old);
              k \<leftarrow> free_array (pb_data p) (k\<lparr>k_arrays := (k_arrays k)(newdata \<mapsto> new)\<rparr>);
              upd_pipe b (\<lambda>p. p\<lparr>pb_data := newdata\<rparr>) k
            }
       else Some k
     }"

definition write_to_pipe :: "u32 \<Rightarrow> bytes \<Rightarrow> kernel \<Rightarrow> kernel option" where
  "write_to_pipe b buf k =
     do {
       p \<leftarrow> k_pipes k b;
       let count = (of_nat (length buf) :: u32);
       k \<leftarrow> resize_pipe b (pb_len p + count) k;
       p \<leftarrow> k_pipes k b;
       arr \<leftarrow> k_arrays k (pb_data p);
       arr \<leftarrow> array_put arr (unat (pb_len p)) buf;
       k \<leftarrow> upd_pipe b (\<lambda>p. p\<lparr>pb_len := pb_len p + count\<rparr>) (k\<lparr>k_arrays := (k_arrays k)(pb_data p \<mapsto> arr)\<rparr>);
       wake_up_reader b k
     }"

definition check_buffer_free :: "u32 \<Rightarrow> kernel \<Rightarrow> kernel option" where
  "check_buffer_free b k =
     do {
       p \<leftarrow> k_pipes k b;
       if \<not> pb_reading p \<and> \<not> pb_writing p
       then do {
              assert_c (pb_readpid p = - 1);
              k \<leftarrow> free_array (pb_data p) k;
              free_pipe b k
            }
       else Some k
     }"

subsection \<open>The writing end\<close>

definition pipe_writer_write :: "u32 \<Rightarrow> bytes \<Rightarrow> kernel \<Rightarrow> (int \<times> kernel) option" where
  "pipe_writer_write fh buf k =
     do {
       h \<leftarrow> k_handles k fh;
       k \<leftarrow> write_to_pipe (fh_p h) buf k;
       Some (as_int (length buf), k)
     }"

definition pipe_writer_read :: "kernel \<Rightarrow> (int \<times> kernel) option" where
  "pipe_writer_read k = Some (- EINVAL, k)"

definition pipe_writer_destroy :: "u32 \<Rightarrow> kernel \<Rightarrow> kernel option" where
  "pipe_writer_destroy fh k =
     do {
       h \<leftarrow> k_handles k fh;
       p \<leftarrow> k_pipes k (fh_p h);
       assert_c (pb_writing p);
       k \<leftarrow> upd_pipe (fh_p h) (\<lambda>p. p\<lparr>pb_writing := False\<rparr>) k;
       k \<leftarrow> wake_up_reader (fh_p h) k;
       k \<leftarrow> check_buffer_free (fh_p h) k;
       free_handle fh k
     }"

definition new_pipe_writer :: "u32 \<Rightarrow> kernel \<Rightarrow> (u32 \<times> kernel) option" where
  "new_pipe_writer p k =
     new_handle \<lparr>fh_kind = FH_PIPE_WRITER, fh_refcount = 1, fh_write = Pipe_writer_write, fh_read = Pipe_writer_read,
       fh_destroy = Pipe_writer_destroy, fh_p = p, fh_entry = 0, fh_pos = 0, fh_entryno = 0\<rparr> k"

subsection \<open>The reading end\<close>

definition pipe_reader_write :: "kernel \<Rightarrow> (int \<times> kernel) option" where
  "pipe_reader_write k = Some (- EINVAL, k)"

text \<open>
  The first branch of \<open>pipe_reader_read\<close> without the copy to the user: at most \<open>count\<close> bytes from the front,
  the rest moved down by a \<open>memmove\<close> inside the array.
\<close>

definition pipe_take :: "u32 \<Rightarrow> u32 \<Rightarrow> kernel \<Rightarrow> (bytes \<times> kernel) option" where
  "pipe_take b count k =
     do {
       p \<leftarrow> k_pipes k b;
       arr \<leftarrow> k_arrays k (pb_data p);
       let copy = (if count < pb_len p then count else pb_len p);
       assert_c (unat (pb_len p) \<le> length arr);
       let out = take (unat copy) arr;
       arr' \<leftarrow> (if copy < pb_len p
                then array_put arr 0 (take (unat (pb_len p - copy)) (drop (unat copy) arr)) else Some arr);
       k \<leftarrow> upd_pipe b (\<lambda>p. p\<lparr>pb_len := pb_len p - copy\<rparr>) (k\<lparr>k_arrays := (k_arrays k)(pb_data p \<mapsto> arr')\<rparr>);
       Some (out, k)
     }"

definition pipe_reader_read :: "u32 \<Rightarrow> u32 \<Rightarrow> u32 \<Rightarrow> kernel \<Rightarrow> (int \<times> kernel) option" where
  "pipe_reader_read fh buf count k =
     do {
       h \<leftarrow> k_handles k fh;
       p \<leftarrow> k_pipes k (fh_p h);
       if pb_readpid p \<noteq> - 1 then Some (- EBADF, k)
       else if 0 < pb_len p
       then do {
              (out, k') \<leftarrow> pipe_take (fh_p h) count k;
              k' \<leftarrow> vwrite buf out k';
              Some (int (length out), k')
            }
       else if \<not> pb_writing p then Some (0, k)
       else do {
              (i, proc) \<leftarrow> current_process k;
              k \<leftarrow> upd_pipe (fh_p h) (\<lambda>p. p\<lparr>pb_readpid := pr_pid proc\<rparr>) k;
              k \<leftarrow> suspend_process i k;
              Some (- ESUSPEND, k)
            }
     }"

definition pipe_reader_destroy :: "u32 \<Rightarrow> kernel \<Rightarrow> kernel option" where
  "pipe_reader_destroy fh k =
     do {
       h \<leftarrow> k_handles k fh;
       p \<leftarrow> k_pipes k (fh_p h);
       assert_c (pb_reading p);
       k \<leftarrow> upd_pipe (fh_p h) (\<lambda>p. p\<lparr>pb_reading := False\<rparr>) k;
       k \<leftarrow> check_buffer_free (fh_p h) k;
       free_handle fh k
     }"

definition new_pipe_reader :: "u32 \<Rightarrow> kernel \<Rightarrow> (u32 \<times> kernel) option" where
  "new_pipe_reader p k =
     new_handle \<lparr>fh_kind = FH_PIPE_READER, fh_refcount = 1, fh_write = Pipe_reader_write, fh_read = Pipe_reader_read,
       fh_destroy = Pipe_reader_destroy, fh_p = p, fh_entry = 0, fh_pos = 0, fh_entryno = 0\<rparr> k"

subsection \<open>Screen handles\<close>

definition screen_write :: "bytes \<Rightarrow> kernel \<Rightarrow> (int \<times> kernel) option" where
  "screen_write buf k =
     do {
       k \<leftarrow> on_screen (write_to_screen buf (length buf)) k;
       Some (as_int (length buf), k)
     }"

definition screen_read :: "kernel \<Rightarrow> (int \<times> kernel) option" where
  "screen_read k = Some (- EINVAL, k)"

definition screen_destroy :: "u32 \<Rightarrow> kernel \<Rightarrow> kernel option" where
  "screen_destroy fh k = free_handle fh k"

definition new_screen_handle :: "kernel \<Rightarrow> (u32 \<times> kernel) option" where
  "new_screen_handle k =
     new_handle \<lparr>fh_kind = FH_SCREEN, fh_refcount = 1, fh_write = Screen_write, fh_read = Screen_read,
       fh_destroy = Screen_destroy, fh_p = 0, fh_entry = 0, fh_pos = 0, fh_entryno = 0\<rparr> k"

subsection \<open>References to handles\<close>

text \<open>\<open>file_destroy\<close> of \<^verbatim>\<open>fscalls.c\<close> frees the handle, like the one for the screen.\<close>

definition file_destroy :: "u32 \<Rightarrow> kernel \<Rightarrow> kernel option" where
  "file_destroy fh k = free_handle fh k"

definition destroy_handle :: "u32 \<Rightarrow> kernel \<Rightarrow> kernel option" where
  "destroy_handle fh k =
     do {
       h \<leftarrow> k_handles k fh;
       case fh_destroy h of
         Screen_destroy \<Rightarrow> screen_destroy fh k
       | Pipe_writer_destroy \<Rightarrow> pipe_writer_destroy fh k
       | Pipe_reader_destroy \<Rightarrow> pipe_reader_destroy fh k
       | File_destroy \<Rightarrow> file_destroy fh k
     }"

definition close_filehandle :: "u32 \<Rightarrow> kernel \<Rightarrow> kernel option" where
  "close_filehandle fh k =
     do {
       h \<leftarrow> k_handles k fh;
       assert_c (1 \<le> fh_refcount h);
       k \<leftarrow> upd_handle fh (\<lambda>h. h\<lparr>fh_refcount := fh_refcount h - 1\<rparr>) k;
       if fh_refcount h - 1 = 0 then destroy_handle fh k else Some k
     }"

definition set_fd :: "nat \<Rightarrow> nat \<Rightarrow> u32 option \<Rightarrow> kernel \<Rightarrow> kernel" where
  "set_fd i fd v k = upd_proc i (\<lambda>p. p\<lparr>pr_filedesc := (pr_filedesc p)[fd := v]\<rparr>) k"

text \<open>The common test of a descriptor: its handle, or \<open>None\<close> where the calls return \<open>-EBADF\<close>.\<close>

definition fd_handle :: "process \<Rightarrow> int \<Rightarrow> u32 option" where
  "fd_handle p fd = (if 0 > fd \<or> int MAX_FDS \<le> fd then None else pr_filedesc p ! nat fd)"

definition syscall_close :: "int \<Rightarrow> kernel \<Rightarrow> (int \<times> kernel) option" where
  "syscall_close fd k =
     do {
       (i, p) \<leftarrow> current_process k;
       case fd_handle p fd of
         None \<Rightarrow> Some (- EBADF, k)
       | Some fh \<Rightarrow> do { k \<leftarrow> close_filehandle fh k; Some (0, set_fd i (nat fd) None k) }
     }"

definition syscall_dup2 :: "int \<Rightarrow> int \<Rightarrow> kernel \<Rightarrow> (int \<times> kernel) option" where
  "syscall_dup2 oldfd newfd k =
     do {
       (i, p) \<leftarrow> current_process k;
       if 0 > oldfd \<or> int MAX_FDS \<le> oldfd then Some (- EBADF, k)
       else if 0 > newfd \<or> int MAX_FDS \<le> newfd then Some (- EBADF, k)
       else case pr_filedesc p ! nat oldfd of
              None \<Rightarrow> Some (- EBADF, k)
            | Some fh \<Rightarrow>
                if oldfd = newfd then Some (newfd, k)
                else do {
                  k \<leftarrow> (case pr_filedesc p ! nat newfd of Some old \<Rightarrow> close_filehandle old k | None \<Rightarrow> Some k);
                  let k = set_fd i (nat newfd) (Some fh) k;
                  k \<leftarrow> upd_handle fh (\<lambda>h. h\<lparr>fh_refcount := fh_refcount h + 1\<rparr>) k;
                  Some (newfd, k)
                }
     }"

end
