(* ===== verification/Process.thy ===== *)
theory Process
  imports Pipe
begin

text \<open>
  The life of a process, \<^verbatim>\<open>source/process.c\<close>: \<open>start_process\<close>, \<open>kill_process\<close> and the choice of the next
  process in \<open>context_switch\<close>: the definitions.
\<close>

definition MB :: u32 where [simp]: "MB = 1048576"
definition STDIN_FILENO :: nat where [simp]: "STDIN_FILENO = 0"
definition STDOUT_FILENO :: nat where [simp]: "STDOUT_FILENO = 1"
definition STDERR_FILENO :: nat where [simp]: "STDERR_FILENO = 2"
definition SYSCALL_WAITPID :: u32 where [simp]: "SYSCALL_WAITPID = 14"
definition IDLE_STACK_SIZE :: u32 where [simp]: "IDLE_STACK_SIZE = 4096"

subsection \<open>Starting a process\<close>

text \<open>The page directory of a new process: the kernel's memory and a stack.\<close>

definition start_mappings :: "u32 \<Rightarrow> process \<Rightarrow> kernel \<Rightarrow> kernel option" where
  "start_mappings pdir proc k =
     do {
       k \<leftarrow> on_mm (identity_map pdir (0 * MB) (6 * MB) PAGE_SUPERVISOR PAGE_READ_ONLY) k;
       k \<leftarrow> on_mm (identity_map pdir (ly_code (k_layout k)) (ly_data (k_layout k)) PAGE_USER PAGE_READ_ONLY) k;
       on_mm (map_new_pages pdir (pr_stack_start proc) ((pr_stack_end proc - pr_stack_start proc) div PAGE_SIZE)) k
     }"

text \<open>The standard file handles of a new process.\<close>

definition start_handles :: "nat \<Rightarrow> kernel \<Rightarrow> kernel option" where
  "start_handles i k =
     do {
       (b, k) \<leftarrow> new_pipe k;
       (fh, k) \<leftarrow> new_pipe_reader b k;
       let k = set_fd i STDIN_FILENO (Some fh) k;
       (fh, k) \<leftarrow> new_screen_handle k;
       let k = set_fd i STDOUT_FILENO (Some fh) k;
       (fh, k) \<leftarrow> new_screen_handle k;
       Some (set_fd i STDERR_FILENO (Some fh) k)
     }"

definition start_process :: "u32 \<Rightarrow> kernel \<Rightarrow> (int \<times> kernel) option" where
  "start_process start_address k =
     (let pid = get_free_pid k in
      if 0 > pid then Some (- 1, k)
      else
        do {
          let i = pid_index pid;
          let k = upd_proc i (\<lambda>_. zero_process\<lparr>pr_pid := pid, pr_exists := True,
                    pr_stack_start := PROCESS_STACK_BASE - PROCESS_STACK_SIZE,
                    pr_stack_end := PROCESS_STACK_BASE\<rparr>) k;
          (pdir, k) \<leftarrow> k_alloc_page k;
          let k = upd_proc i (\<lambda>p. p\<lparr>pr_pdir := pdir\<rparr>) k;
          k \<leftarrow> start_mappings pdir (k_procs k ! i) k;
          let k = upd_proc i (\<lambda>p. p\<lparr>pr_data_start := PROCESS_DATA_BASE, pr_data_end := PROCESS_DATA_BASE,
                    pr_text_start := PROCESS_TEXT_BASE, pr_text_end := PROCESS_TEXT_BASE,
                    pr_parent_pid := - 1, pr_waiting_on := - 1, pr_exit_status := 255\<rparr>) k;
          k \<leftarrow> start_handles i k;
          (cwd, _) \<leftarrow> snprintf (pr_cwd (k_procs k ! i)) PATH_MAX (chars ''/'' @ [0]) [];
          let k = upd_proc i (\<lambda>p. p\<lparr>pr_cwd := cwd\<rparr>) k;
          let k = upd_proc i (\<lambda>p. p\<lparr>pr_saved_regs := init_regs (pr_stack_end p) start_address, pr_ready := True\<rparr>) k;
          Some (pid, list_add Ready i k)
        })"

subsection \<open>Killing a process\<close>

fun close_fds :: "u32 option list \<Rightarrow> kernel \<Rightarrow> kernel option" where
  "close_fds [] k = Some k"
| "close_fds (None # fds) k = close_fds fds k"
| "close_fds (Some fh # fds) k = do { k \<leftarrow> close_filehandle fh k; close_fds fds k }"

text \<open>\<open>for (addr = start; addr < end; addr += PAGE_SIZE) unmap_and_free_page(pdir,addr)\<close>\<close>

partial_function (option) unmap_range :: "u32 \<Rightarrow> u32 \<Rightarrow> u32 \<Rightarrow> mm \<Rightarrow> mm option" where
  "unmap_range pdir addr limit s =
     (if addr < limit
      then do { s \<leftarrow> unmap_and_free_page pdir addr s; unmap_range pdir (addr + PAGE_SIZE) limit s }
      else Some s)"

definition free_memory :: "process \<Rightarrow> mm \<Rightarrow> mm option" where
  "free_memory proc s =
     do {
       s \<leftarrow> unmap_range (pr_pdir proc) (pr_stack_start proc) (pr_stack_end proc) s;
       s \<leftarrow> unmap_range (pr_pdir proc) (pr_data_start proc) (pr_data_end proc) s;
       s \<leftarrow> unmap_range (pr_pdir proc) (pr_text_start proc) (pr_text_end proc) s;
       free_page_dir (pr_pdir proc) s
     }"

definition free_mailbox :: "process \<Rightarrow> kernel \<Rightarrow> kernel option" where
  "free_mailbox proc k =
     (case pr_mailbox proc of
        Some m \<Rightarrow> k_free m (k\<lparr>k_mailboxes := (k_mailboxes k)(m := None)\<rparr>)
      | None \<Rightarrow> Some k)"

definition orphan_children :: "int \<Rightarrow> kernel \<Rightarrow> kernel" where
  "orphan_children pid k =
     k\<lparr>k_procs := map (\<lambda>p. if pr_parent_pid p = pid then p\<lparr>pr_parent_pid := - 1\<rparr> else p) (k_procs k)\<rparr>"

definition wake_parent :: "nat \<Rightarrow> kernel \<Rightarrow> kernel option" where
  "wake_parent i k =
     (let proc = k_procs k ! i in
      if pr_parent_pid proc = - 1 then Some (upd_proc i (\<lambda>p. p\<lparr>pr_exists := False\<rparr>) k)
      else
        do {
          let j = pid_index (pr_parent_pid proc);
          parent \<leftarrow> get_proc j k;
          if pr_in_syscall parent = SYSCALL_WAITPID \<and> pr_pid proc = pr_waiting_on parent
          then resume_process j (upd_proc j (\<lambda>p. p\<lparr>pr_waiting_on := - 1\<rparr>) k)
          else Some k
        })"

text \<open>
  The switch back to the page directory of the current process reads \<open>current_process->pdir\<close>; it is
  reached only with a current process.
\<close>

definition restore_paging :: "bool \<Rightarrow> kernel \<Rightarrow> kernel option" where
  "restore_paging current k =
     (if current then Some k
      else do { (_, p) \<leftarrow> current_process k; Some (enable_paging (pr_pdir p) k) })"

definition kill_process :: "nat \<Rightarrow> kernel \<Rightarrow> kernel option" where
  "kill_process i k =
     do {
       proc \<leftarrow> get_proc i k;
       let current = (k_current k = Some i);
       let k = disable_paging k;
       let k = (if current then k\<lparr>k_current := None\<rparr> else k);
       let k = list_remove (if pr_ready proc then Ready else Suspended) i k;
       k \<leftarrow> close_fds (pr_filedesc (k_procs k ! i)) k;
       k \<leftarrow> on_mm (free_memory (k_procs k ! i)) k;
       k \<leftarrow> free_mailbox (k_procs k ! i) k;
       let k = orphan_children (pr_pid (k_procs k ! i)) k;
       k \<leftarrow> wake_parent i k;
       let k = upd_proc i (\<lambda>p. p\<lparr>pr_exited := True\<rparr>) k;
       restore_paging current k
     }"

subsection \<open>Scheduling\<close>

text \<open>
  \<open>context_switch\<close> up to the test of \<open>in_syscall\<close>, its result the test. Without a current process the code
  reads the flag \<open>ready\<close> through a null pointer: the low memory it reads is mapped, and whatever
  is there, there is still no current process afterwards.
\<close>

definition choose_next :: "kernel \<Rightarrow> nat option" where
  "choose_next k =
     (case current_process k of
        Some (i, p) \<Rightarrow>
          if pr_ready p
          then (case pr_next p of Some j \<Rightarrow> Some j | None \<Rightarrow> pl_first (k_ready k))
          else pl_first (k_ready k)
      | None \<Rightarrow> pl_first (k_ready k))"

definition switch_process :: "regs \<Rightarrow> kernel \<Rightarrow> (bool \<times> regs \<times> kernel) option" where
  "switch_process r k =
     (let k = (case k_current k of Some i \<Rightarrow> upd_proc i (\<lambda>p. p\<lparr>pr_saved_regs := r\<rparr>) k | None \<Rightarrow> k);
          k = k\<lparr>k_current := choose_next k\<rparr>
      in case k_current k of
           Some j \<Rightarrow>
             do {
               p \<leftarrow> get_proc j k;
               Some (pr_in_syscall p \<noteq> 0, pr_saved_regs p, enable_paging (pr_pdir p) k)
             }
         | None \<Rightarrow>
             Some (False, init_regs (ly_idle_stack (k_layout k) + IDLE_STACK_SIZE) (ly_idle (k_layout k)), k))"

end
