(* ===== verification/Syscall.thy ===== *)
theory Syscall
  imports Process
begin

text \<open>
  System calls, \<^verbatim>\<open>source/syscall.c\<close>, and the system call of \<^verbatim>\<open>source/pipe.c\<close>: the checks on pointers
  that a process passes in, and the handlers. The dispatcher is in theory Dispatch. A handler
  returns its result, a negated error number, or \<open>-ESUSPEND\<close>.
\<close>

subsection \<open>Pointers of a process\<close>

definition within :: "u32 \<Rightarrow> u32 \<Rightarrow> u32 \<Rightarrow> u32 \<Rightarrow> bool" where
  "within start_address end_address seg_start seg_end \<longleftrightarrow> seg_start \<le> start_address \<and> end_address \<le> seg_end"

definition valid_pointer :: "process \<Rightarrow> u32 \<Rightarrow> u32 \<Rightarrow> bool" where
  "valid_pointer proc start_address sz =
     (let end_address = start_address + sz in
      if sz = 0 then True
      else if end_address < start_address then False
      else if within start_address end_address (pr_stack_start proc) (pr_stack_end proc) then True
      else if within start_address end_address (pr_data_start proc) (pr_data_end proc) then True
      else if within start_address end_address (pr_text_start proc) (pr_text_end proc) then True
      else False)"

partial_function (option) valid_string_loop :: "process \<Rightarrow> u32 \<Rightarrow> u32 \<Rightarrow> kernel \<Rightarrow> bool option" where
  "valid_string_loop proc str len k =
     (if valid_pointer proc str (len + 1)
      then do {
             c \<leftarrow> vload (str + len) k;
             if c = 0 then Some True else valid_string_loop proc str (len + 1) k
           }
      else Some False)"

definition valid_string :: "process \<Rightarrow> u32 \<Rightarrow> kernel \<Rightarrow> bool option" where
  "valid_string proc str k = valid_string_loop proc str 0 k"

subsection \<open>Processes\<close>

definition syscall_getpid :: "kernel \<Rightarrow> (int \<times> kernel) option" where
  "syscall_getpid k = do { (_, p) \<leftarrow> current_process k; Some (pr_pid p, k) }"

definition syscall_exit :: "int \<Rightarrow> kernel \<Rightarrow> (int \<times> kernel) option" where
  "syscall_exit status k =
     do {
       let k = disable_paging k;
       (i, _) \<leftarrow> current_process k;
       let k = upd_proc i (\<lambda>p. p\<lparr>pr_exit_status := status\<rparr>) k;
       k \<leftarrow> kill_process i k;
       Some (- ESUSPEND, k)
     }"

definition syscall_geterrno :: "kernel \<Rightarrow> (int \<times> kernel) option" where
  "syscall_geterrno k = do { (_, p) \<leftarrow> current_process k; Some (pr_last_errno p, k) }"

text \<open>A pid that names an existing process, the test that \<open>kill\<close> and \<open>send\<close> make.\<close>

definition pid_exists :: "int \<Rightarrow> kernel \<Rightarrow> bool" where
  "pid_exists pid k \<longleftrightarrow> \<not> (0 > pid \<or> int MAX_PROCESSES \<le> pid \<or> \<not> pr_exists (k_procs k ! pid_index pid))"

definition syscall_kill :: "int \<Rightarrow> kernel \<Rightarrow> (int \<times> kernel) option" where
  "syscall_kill pid k =
     (if \<not> pid_exists pid k then Some (- ESRCH, k)
      else do {
        (_, p) \<leftarrow> current_process k;
        k \<leftarrow> kill_process (pid_index pid) k;
        Some (if pid = pr_pid p then - ESUSPEND else 0, k)
      })"

definition syscall_brk :: "u32 \<Rightarrow> kernel \<Rightarrow> (int \<times> kernel) option" where
  "syscall_brk end_data_segment k =
     do {
       (i, p) \<leftarrow> current_process k;
       let oldend = pr_data_end p;
       let newend = end_data_segment;
       if newend \<le> oldend then Some (0, k)
       else do {
         let newend = (if newend mod PAGE_SIZE \<noteq> 0 then (newend div PAGE_SIZE + 1) * PAGE_SIZE else newend);
         let k = disable_paging k;
         k \<leftarrow> on_mm (map_new_pages (pr_pdir p) oldend ((newend - oldend) div PAGE_SIZE)) k;
         let k = enable_paging (pr_pdir p) k;
         Some (0, upd_proc i (\<lambda>p. p\<lparr>pr_data_end := newend\<rparr>) k)
       }
     }"

subsection \<open>Files: read and write through the handle's functions\<close>

definition file_write :: "kernel \<Rightarrow> (int \<times> kernel) option" where
  "file_write k = Some (- EBADF, k)"

definition file_read :: "u32 \<Rightarrow> u32 \<Rightarrow> u32 \<Rightarrow> kernel \<Rightarrow> (int \<times> kernel) option" where
  "file_read fh buf count k =
     do {
       h \<leftarrow> k_handles k fh;
       if fh_kind h = FH_DIR then Some (- EISDIR, k)
       else do {
         sz \<leftarrow> de_size (k_filesystem k) (fh_entry h);
         loc \<leftarrow> de_location (k_filesystem k) (fh_entry h);
         if sz \<le> fh_pos h then Some (0, k)
         else do {
           let count = (if sz < fh_pos h + count then sz - fh_pos h else count);
           let from = loc + unat (fh_pos h);
           assert_c (from + unat count \<le> length (k_filesystem k));
           k \<leftarrow> vwrite buf (take (unat count) (drop from (k_filesystem k))) k;
           k \<leftarrow> upd_handle fh (\<lambda>h. h\<lparr>fh_pos := fh_pos h + count\<rparr>) k;
           Some (as_int (unat count), k)
         }
       }
     }"

definition handle_write :: "u32 \<Rightarrow> u32 \<Rightarrow> u32 \<Rightarrow> kernel \<Rightarrow> (int \<times> kernel) option" where
  "handle_write fh buf count k =
     do {
       h \<leftarrow> k_handles k fh;
       case fh_write h of
         Screen_write \<Rightarrow> do { bs \<leftarrow> vread buf (unat count) k; screen_write bs k }
       | Pipe_writer_write \<Rightarrow> do { bs \<leftarrow> vread buf (unat count) k; pipe_writer_write fh bs k }
       | Pipe_reader_write \<Rightarrow> pipe_reader_write k
       | File_write \<Rightarrow> file_write k
     }"

definition handle_read :: "u32 \<Rightarrow> u32 \<Rightarrow> u32 \<Rightarrow> kernel \<Rightarrow> (int \<times> kernel) option" where
  "handle_read fh buf count k =
     do {
       h \<leftarrow> k_handles k fh;
       case fh_read h of
         Screen_read \<Rightarrow> screen_read k
       | Pipe_writer_read \<Rightarrow> pipe_writer_read k
       | Pipe_reader_read \<Rightarrow> pipe_reader_read fh buf count k
       | File_read \<Rightarrow> file_read fh buf count k
     }"

definition syscall_write :: "int \<Rightarrow> u32 \<Rightarrow> u32 \<Rightarrow> kernel \<Rightarrow> (int \<times> kernel) option" where
  "syscall_write fd buf count k =
     do {
       (i, p) \<leftarrow> current_process k;
       if \<not> valid_pointer p buf count then Some (- EFAULT, k)
       else case fd_handle p fd of
              None \<Rightarrow> Some (- EBADF, k)
            | Some fh \<Rightarrow> handle_write fh buf count k
     }"

definition syscall_read :: "int \<Rightarrow> u32 \<Rightarrow> u32 \<Rightarrow> kernel \<Rightarrow> (int \<times> kernel) option" where
  "syscall_read fd buf count k =
     do {
       (i, p) \<leftarrow> current_process k;
       if \<not> valid_pointer p buf count then Some (- EFAULT, k)
       else case fd_handle p fd of
              None \<Rightarrow> Some (- EBADF, k)
            | Some fh \<Rightarrow> handle_read fh buf count k
     }"

subsection \<open>Pipes\<close>

text \<open>
  The search of \<open>syscall_pipe\<close> for two free descriptors; -1 is \<open>None\<close>. The loop goes on until the second one is found.
\<close>

fun find_fds :: "nat \<Rightarrow> u32 option list \<Rightarrow> nat option \<Rightarrow> nat option \<times> nat option" where
  "find_fds i [] readfd = (readfd, None)"
| "find_fds i (fd # fds) readfd =
     (if fd = None
      then (case readfd of None \<Rightarrow> find_fds (Suc i) fds (Some i) | Some _ \<Rightarrow> (readfd, Some i))
      else find_fds (Suc i) fds readfd)"

definition syscall_pipe :: "u32 \<Rightarrow> kernel \<Rightarrow> (int \<times> kernel) option" where
  "syscall_pipe filedes k =
     do {
       (i, p) \<leftarrow> current_process k;
       if \<not> valid_pointer p filedes (2 * 4) then Some (- EFAULT, k)
       else case find_fds 0 (pr_filedesc p) None of
              (Some readfd, Some writefd) \<Rightarrow>
                do {
                  (b, k) \<leftarrow> new_pipe k;
                  (fh, k) \<leftarrow> new_pipe_reader b k;
                  let k = set_fd i readfd (Some fh) k;
                  (fh, k) \<leftarrow> new_pipe_writer b k;
                  let k = set_fd i writefd (Some fh) k;
                  k \<leftarrow> vstore32 filedes (of_nat readfd) k;
                  k \<leftarrow> vstore32 (filedes + 4) (of_nat writefd) k;
                  Some (0, k)
                }
            | _ \<Rightarrow> Some (- EMFILE, k)
     }"

subsection \<open>Messages\<close>

text \<open>
  A mailbox is an array of 8 messages of 1036 bytes (12 bytes in front of \<open>data\<close>). \<open>fresh_mailbox\<close> is what
  \<open>kmalloc\<close> left in memory; the words in front of the data are written before they are read.
\<close>

definition message_bytes :: u32 where [simp]: "message_bytes = 1036"

definition fresh_message :: "byte_mem \<Rightarrow> u32 \<Rightarrow> message" where
  "fresh_message mem a =
     \<lparr>msg_from = 0, msg_tag = 0, msg_size = 0, msg_data = map (\<lambda>j. mem (a + 12 + of_nat j)) [0..<1024]\<rparr>"

definition fresh_mailbox :: "byte_mem \<Rightarrow> u32 \<Rightarrow> nat \<Rightarrow> message list" where
  "fresh_mailbox mem a n = map (\<lambda>i. fresh_message mem (a + of_nat i * message_bytes)) [0..<n]"

definition message_image :: "message \<Rightarrow> bytes" where
  "message_image m =
     word_bytes (of_int (msg_from m)) @ word_bytes (msg_tag m) @ word_bytes (msg_size m) @ msg_data m"

text \<open>Make room for one more message: the new state, or \<open>None\<close> when all slots are taken.\<close>

definition mailbox_room :: "nat \<Rightarrow> kernel \<Rightarrow> kernel option option" where
  "mailbox_room j k =
     (let dest = k_procs k ! j in
      case pr_mailbox dest of
        None \<Rightarrow>
          do {
            (m, k) \<leftarrow> k_malloc (8 * message_bytes) k;
            let k = k\<lparr>k_mailboxes := (k_mailboxes k)(m \<mapsto> fresh_mailbox (mm_mem (k_mm k)) m 8)\<rparr>;
            Some (Some (upd_proc j (\<lambda>p. p\<lparr>pr_mailbox_alloc := 8, pr_mailbox_size := 1, pr_mailbox := Some m\<rparr>) k))
          }
      | Some m \<Rightarrow>
          if pr_mailbox_size dest < pr_mailbox_alloc dest
          then Some (Some (upd_proc j (\<lambda>p. p\<lparr>pr_mailbox_size := pr_mailbox_size p + 1\<rparr>) k))
          else Some None)"

text \<open>
  The message is stored behind the last one. The array is looked up in the live objects of the heap: a process that has exited keeps the pointer
  to its mailbox, which \<open>kill_process\<close> has freed, and a message sent to it is written by the code into memory that may belong to something else by then. This
  is \<open>None\<close> here, as every use of a freed object, and nothing is claimed about a machine after it.
\<close>

definition put_message :: "nat \<Rightarrow> message \<Rightarrow> kernel \<Rightarrow> kernel option" where
  "put_message j msg k =
     do {
       let dest = k_procs k ! j;
       m \<leftarrow> pr_mailbox dest;
       arr \<leftarrow> k_mailboxes k m;
       let n = pr_mailbox_size dest - 1;
       assert_c (n < length arr);
       let d = msg_data msg @ drop (length (msg_data msg)) (msg_data (arr ! n));
       Some (k\<lparr>k_mailboxes := (k_mailboxes k)(m \<mapsto> arr[n := msg\<lparr>msg_data := d\<rparr>])\<rparr>)
     }"

definition wake_receiver :: "nat \<Rightarrow> kernel \<Rightarrow> kernel option" where
  "wake_receiver j k =
     (if pr_receive_blocked (k_procs k ! j)
      then do { k \<leftarrow> resume_process j k; Some (upd_proc j (\<lambda>p. p\<lparr>pr_receive_blocked := False\<rparr>) k) }
      else Some k)"

text \<open>\<open>size\<close> is unsigned, so the test \<open>0 > size\<close> never holds.\<close>

definition syscall_send :: "int \<Rightarrow> u32 \<Rightarrow> u32 \<Rightarrow> u32 \<Rightarrow> kernel \<Rightarrow> (int \<times> kernel) option" where
  "syscall_send to tag data sz k =
     do {
       (i, p) \<leftarrow> current_process k;
       if \<not> valid_pointer p data sz then Some (- EFAULT, k)
       else if \<not> pid_exists to k then Some (- ESRCH, k)
       else if MAX_MESSAGE_SIZE < sz then Some (- EINVAL, k)
       else do {
         let j = pid_index to;
         room \<leftarrow> mailbox_room j k;
         case room of
           None \<Rightarrow> Some (- ENOMEM, k)
         | Some k \<Rightarrow>
             do {
               bs \<leftarrow> vread data (unat sz) k;
               k \<leftarrow> put_message j \<lparr>msg_from = pr_pid p, msg_tag = tag, msg_size = sz, msg_data = bs\<rparr> k;
               k \<leftarrow> wake_receiver j k;
               Some (0, k)
             }
       }
     }"

definition take_message :: "nat \<Rightarrow> process \<Rightarrow> kernel \<Rightarrow> (message \<times> kernel) option" where
  "take_message i p k =
     do {
       m \<leftarrow> pr_mailbox p;
       arr \<leftarrow> k_mailboxes k m;
       let n = pr_mailbox_size p;
       assert_c (n \<le> length arr);
       let k' = k\<lparr>k_mailboxes := (k_mailboxes k)(m \<mapsto> take (n - 1) (drop 1 arr) @ drop (n - 1) arr)\<rparr>;
       Some (arr ! 0, upd_proc i (\<lambda>p. p\<lparr>pr_mailbox_size := n - 1\<rparr>) k')
     }"

definition syscall_receive :: "u32 \<Rightarrow> u32 \<Rightarrow> kernel \<Rightarrow> (int \<times> kernel) option" where
  "syscall_receive msg block k =
     do {
       (i, p) \<leftarrow> current_process k;
       if \<not> valid_pointer p msg message_bytes then Some (- EFAULT, k)
       else if 0 < pr_mailbox_size p
       then do {
              (m, k) \<leftarrow> take_message i p k;
              k \<leftarrow> vwrite msg (message_image m) k;
              Some (0, k)
            }
       else if block \<noteq> 0
       then do {
              let k = upd_proc i (\<lambda>p. p\<lparr>pr_receive_blocked := True\<rparr>) k;
              k \<leftarrow> suspend_process i k;
              Some (- ESUSPEND, k)
            }
       else Some (- EAGAIN, k)
     }"

end
