(* ===== verification/Fscalls.thy ===== *)
theory Fscalls
  imports Syscall
begin

text \<open>
  The system calls on the filesystem, \<^verbatim>\<open>source/fscalls.c\<close>: the definitions. The read and write functions of
  files are in theory Syscall, \<open>file_destroy\<close> in theory Pipe. A directory entry is its
  offset in the image. \<open>k_stack\<close> is the uninitialised buffer that receives the absolute path.
\<close>

definition kernel_path :: "process \<Rightarrow> bytes \<Rightarrow> kernel \<Rightarrow> bytes option" where
  "kernel_path p path k = relative_to_absolute (k_stack k) (pr_cwd p) path PATH_MAX"

text \<open>\<open>struct stat\<close>: mode, uid, gid, size and mtime, 20 bytes.\<close>

definition syscall_stat :: "u32 \<Rightarrow> u32 \<Rightarrow> kernel \<Rightarrow> (int \<times> kernel) option" where
  "syscall_stat path buf k =
     do {
       (i, p) \<leftarrow> current_process k;
       ok \<leftarrow> valid_string p path k;
       if \<not> ok then Some (- EFAULT, k)
       else if \<not> valid_pointer p buf 20 then Some (- EFAULT, k)
       else do {
         s \<leftarrow> vstring path k;
         abspath \<leftarrow> kernel_path p s k;
         (r, entry) \<leftarrow> get_directory_entry (k_filesystem k) abspath;
         if r \<noteq> 0 then Some (r, k)
         else do {
           e \<leftarrow> entry;
           mode \<leftarrow> de_mode (k_filesystem k) e;
           sz \<leftarrow> de_size (k_filesystem k) e;
           mtime \<leftarrow> de_mtime (k_filesystem k) e;
           k \<leftarrow> vstore32 buf mode k;
           k \<leftarrow> vstore32 (buf + 4) 0 k;
           k \<leftarrow> vstore32 (buf + 8) 0 k;
           k \<leftarrow> vstore32 (buf + 12) sz k;
           k \<leftarrow> vstore32 (buf + 16) mtime k;
           Some (0, k)
         }
       }
     }"

text \<open>\<open>fh_p\<close>, which \<open>new_file\<close> leaves alone, is never used for files; it is written as 0.\<close>

definition new_file :: "fh_type \<Rightarrow> kernel \<Rightarrow> (u32 \<times> kernel) option" where
  "new_file kind k =
     new_handle \<lparr>fh_kind = kind, fh_refcount = 1, fh_write = File_write, fh_read = File_read,
       fh_destroy = File_destroy, fh_p = 0, fh_entry = 0, fh_pos = 0, fh_entryno = 0\<rparr> k"

fun find_fd :: "nat \<Rightarrow> u32 option list \<Rightarrow> nat option" where
  "find_fd i [] = None"
| "find_fd i (fd # fds) = (if fd = None then Some i else find_fd (Suc i) fds)"

definition open_entry :: "nat \<Rightarrow> nat \<Rightarrow> int \<Rightarrow> nat \<Rightarrow> kernel \<Rightarrow> (int \<times> kernel) option" where
  "open_entry i fd flags e k =
     do {
       t \<leftarrow> de_type (k_filesystem k) e;
       if flags = OPEN_DIRECTORY \<and> t \<noteq> TYPE_DIR then Some (- ENOTDIR, k)
       else if flags \<noteq> OPEN_DIRECTORY \<and> t = TYPE_DIR then Some (- EISDIR, k)
       else do {
         (fh, k) \<leftarrow> (if t = TYPE_DIR then new_file FH_DIR k else new_file FH_FILE k);
         k \<leftarrow> upd_handle fh (\<lambda>h. h\<lparr>fh_entry := e, fh_pos := 0, fh_entryno := 0\<rparr>) k;
         Some (int fd, set_fd i fd (Some fh) k)
       }
     }"

definition syscall_open :: "u32 \<Rightarrow> int \<Rightarrow> kernel \<Rightarrow> (int \<times> kernel) option" where
  "syscall_open pathname flags k =
     do {
       (i, p) \<leftarrow> current_process k;
       ok \<leftarrow> valid_string p pathname k;
       if \<not> ok then Some (- EFAULT, k)
       else case find_fd 0 (pr_filedesc p) of
              None \<Rightarrow> Some (- EMFILE, k)
            | Some fd \<Rightarrow>
                do {
                  s \<leftarrow> vstring pathname k;
                  abspath \<leftarrow> kernel_path p s k;
                  (r, entry) \<leftarrow> get_directory_entry (k_filesystem k) abspath;
                  if r \<noteq> 0 then Some (r, k)
                  else do { e \<leftarrow> entry; open_entry i fd flags e k }
                }
     }"

text \<open>\<open>snprintf\<close> with a buffer in the memory of the process.\<close>

definition user_snprintf :: "u32 \<Rightarrow> nat \<Rightarrow> bytes \<Rightarrow> va list \<Rightarrow> kernel \<Rightarrow> kernel option" where
  "user_snprintf str sz format args k =
     do {
       buf \<leftarrow> vread str sz k;
       (buf, _) \<leftarrow> snprintf buf sz format args;
       vwrite str buf k
     }"

text \<open>
  \<open>sizeof(struct dirent)\<close> is 1032: a word and \<open>NAME_MAX+1\<close> bytes, padded. The name of the entry is the format
  of the \<open>snprintf\<close>; a conversion in it reads an argument that was not passed.
\<close>

definition syscall_getdent :: "int \<Rightarrow> u32 \<Rightarrow> kernel \<Rightarrow> (int \<times> kernel) option" where
  "syscall_getdent fd entry k =
     do {
       (i, p) \<leftarrow> current_process k;
       if \<not> valid_pointer p entry 1032 then Some (- EFAULT, k)
       else case fd_handle p fd of
              None \<Rightarrow> Some (- EBADF, k)
            | Some fh \<Rightarrow>
                do {
                  h \<leftarrow> k_handles k fh;
                  if fh_kind h = FH_DIR
                  then do {
                    dir \<leftarrow> de_location (k_filesystem k) (fh_entry h);
                    count \<leftarrow> dir_count (k_filesystem k) dir;
                    if count \<le> unat (fh_entryno h) then Some (0, k)
                    else do {
                      k \<leftarrow> vstore32 entry 0 k;
                      k \<leftarrow> user_snprintf (entry + 4) (NAME_MAX + 1)
                            (de_name (k_filesystem k) (dir_entry dir (unat (fh_entryno h)))) [] k;
                      k \<leftarrow> upd_handle fh (\<lambda>h. h\<lparr>fh_entryno := fh_entryno h + 1\<rparr>) k;
                      Some (1, k)
                    }
                  }
                  else Some (- ENOTDIR, k)
                }
     }"

definition syscall_chdir :: "u32 \<Rightarrow> kernel \<Rightarrow> (int \<times> kernel) option" where
  "syscall_chdir path k =
     do {
       (i, p) \<leftarrow> current_process k;
       ok \<leftarrow> valid_string p path k;
       if \<not> ok then Some (- EFAULT, k)
       else do {
         s \<leftarrow> vstring path k;
         newcwd \<leftarrow> kernel_path p s k;
         (r, entry) \<leftarrow> get_directory_entry (k_filesystem k) newcwd;
         if r \<noteq> 0 then Some (r, k)
         else do {
           e \<leftarrow> entry;
           t \<leftarrow> de_type (k_filesystem k) e;
           if t \<noteq> TYPE_DIR then Some (- ENOTDIR, k)
           else Some (0, upd_proc i (\<lambda>p. p\<lparr>pr_cwd := take PATH_MAX newcwd\<rparr>) k)
         }
       }
     }"

text \<open>The returned pointer as the \<open>int\<close> that the dispatcher makes of it.\<close>

definition syscall_getcwd :: "u32 \<Rightarrow> u32 \<Rightarrow> kernel \<Rightarrow> (int \<times> kernel) option" where
  "syscall_getcwd buf sz k =
     do {
       (i, p) \<leftarrow> current_process k;
       if \<not> valid_pointer p buf sz then Some (0, k)
       else do {
         k \<leftarrow> user_snprintf buf (unat sz) (chars ''%s'' @ [0]) [Str (pr_cwd p)] k;
         Some (sint buf, k)
       }
     }"

end
