(* ===== verification/Unixproc.thy ===== *)
theory Unixproc
  imports Fscalls
begin

text \<open>
  \<open>fork\<close>, \<open>execve\<close> and \<open>waitpid\<close>, \<^verbatim>\<open>source/unixproc.c\<close>: the definitions.
\<close>

subsection \<open>fork\<close>

partial_function (option) map_and_copy_loop :: "u32 \<Rightarrow> u32 \<Rightarrow> u32 \<Rightarrow> u32 \<Rightarrow> mm \<Rightarrow> mm option" where
  "map_and_copy_loop src_dir dest_dir addr limit s =
     (if addr < limit
      then do {
             (page, s) \<leftarrow> alloc_page s;
             s \<leftarrow> map_page dest_dir addr page PAGE_USER PAGE_READ_WRITE s;
             sl \<leftarrow> lookup_page src_dir addr s;
             src_phys \<leftarrow> sl;
             let s = s\<lparr>mm_mem := memmove page src_phys PAGE_SIZE (mm_mem s)\<rparr>;
             map_and_copy_loop src_dir dest_dir (addr + PAGE_SIZE) limit s
           }
      else Some s)"

definition map_and_copy :: "u32 \<Rightarrow> u32 \<Rightarrow> u32 \<Rightarrow> u32 \<Rightarrow> mm \<Rightarrow> mm option" where
  "map_and_copy src_dir dest_dir start limit s =
     do {
       assert_c (start mod PAGE_SIZE = 0);
       assert_c (limit mod PAGE_SIZE = 0);
       map_and_copy_loop src_dir dest_dir start limit s
     }"

text \<open>The loop over 0 to 6MB in \<open>syscall_fork\<close> is that of \<open>identity_map\<close>.\<close>

definition fork_memory :: "process \<Rightarrow> u32 \<Rightarrow> mm \<Rightarrow> mm option" where
  "fork_memory parent pdir s =
     do {
       s \<leftarrow> identity_map pdir (0 * MB) (6 * MB) PAGE_USER PAGE_READ_ONLY s;
       s \<leftarrow> map_and_copy (pr_pdir parent) pdir (pr_text_start parent) (pr_text_end parent) s;
       s \<leftarrow> map_and_copy (pr_pdir parent) pdir (pr_data_start parent) (pr_data_end parent) s;
       map_and_copy (pr_pdir parent) pdir (pr_stack_start parent) (pr_stack_end parent) s
     }"

fun share_fds :: "nat \<Rightarrow> nat \<Rightarrow> u32 option list \<Rightarrow> kernel \<Rightarrow> kernel option" where
  "share_fds c i [] k = Some k"
| "share_fds c i (None # fds) k = share_fds c (Suc i) fds k"
| "share_fds c i (Some fh # fds) k =
     do {
       k \<leftarrow> upd_handle fh (\<lambda>h. h\<lparr>fh_refcount := fh_refcount h + 1\<rparr>) (set_fd c i (Some fh) k);
       share_fds c (Suc i) fds k
     }"

definition syscall_fork :: "regs \<Rightarrow> kernel \<Rightarrow> (int \<times> kernel) option" where
  "syscall_fork r k =
     (let child_pid = get_free_pid k in
      if 0 > child_pid then Some (- EAGAIN, k)
      else
        do {
          (_, parent) \<leftarrow> current_process k;
          let c = pid_index child_pid;
          let k = upd_proc c (\<lambda>_. zero_process\<lparr>pr_pid := child_pid, pr_parent_pid := pr_pid parent, pr_exists := True\<rparr>) k;
          let k = disable_paging k;
          (pdir, k) \<leftarrow> k_alloc_page k;
          let k = upd_proc c (\<lambda>p. p\<lparr>pr_pdir := pdir,
                    pr_text_start := pr_text_start parent, pr_text_end := pr_text_end parent,
                    pr_data_start := pr_data_start parent, pr_data_end := pr_data_end parent,
                    pr_stack_start := pr_stack_start parent, pr_stack_end := pr_stack_end parent\<rparr>) k;
          k \<leftarrow> on_mm (fork_memory parent pdir) k;
          let k = enable_paging (pr_pdir parent) k;
          k \<leftarrow> share_fds c 0 (pr_filedesc parent) k;
          let k = upd_proc c (\<lambda>p. p\<lparr>pr_saved_regs := r\<lparr>r_eax := 0\<rparr>, pr_cwd := pr_cwd parent, pr_ready := True\<rparr>) k;
          Some (child_pid, list_add Ready c k)
        })"

subsection \<open>execve\<close>

text \<open>The checks on \<open>argv\<close>, and the strings: with their terminators, in order.\<close>

partial_function (option) check_argv :: "process \<Rightarrow> u32 \<Rightarrow> u32 \<Rightarrow> kernel \<Rightarrow> bool option" where
  "check_argv p argv argno k =
     (if \<not> valid_pointer p argv ((argno + 1) * 4) then Some False
      else do {
        a \<leftarrow> vload32 (argv + argno * 4) k;
        if a = 0 then Some True
        else do {
          ok \<leftarrow> valid_string p a k;
          if \<not> ok then Some False else check_argv p argv (argno + 1) k
        }
      })"

partial_function (option) collect_args :: "u32 \<Rightarrow> u32 \<Rightarrow> kernel \<Rightarrow> bytes list option" where
  "collect_args argv argc k =
     do {
       a \<leftarrow> vload32 (argv + argc * 4) k;
       if a = 0 then Some []
       else do {
         s \<leftarrow> vstring a k;
         rest \<leftarrow> collect_args argv (argc + 1) k;
         Some (s # rest)
       }
     }"

text \<open>
  The loop that fills \<open>argdata\<close> backwards: \<open>pos\<close> goes down by the length of each string, the words of
  \<open>newargv\<close> go up from offset 8. \<open>base\<close> is \<open>PROCESS_STACK_BASE-argdata_size\<close>.
\<close>

fun fill_args :: "u32 \<Rightarrow> nat \<Rightarrow> nat \<Rightarrow> bytes list \<Rightarrow> bytes \<Rightarrow> bytes option" where
  "fill_args base argno pos [] argdata = Some argdata"
| "fill_args base argno pos (s # ss) argdata =
     do {
       let pos = pos - length s;
       argdata \<leftarrow> array_put argdata pos s;
       argdata \<leftarrow> array_put argdata (8 + 4 * argno) (word_bytes (base + of_nat pos));
       fill_args base (Suc argno) pos ss argdata
     }"

definition argdata_size :: "bytes list \<Rightarrow> nat" where
  "argdata_size args = sum_list (map length args) + length args * 4 + 2 * 4"

definition build_argdata :: "bytes list \<Rightarrow> bytes option" where
  "build_argdata args =
     do {
       let n = argdata_size args;
       let base = PROCESS_STACK_BASE - of_nat n;
       argdata \<leftarrow> fill_args base 0 n args (replicate n 0);
       argdata \<leftarrow> array_put argdata 0 (word_bytes (of_nat (length args)));
       array_put argdata 4 (word_bytes (base + 8))
     }"

text \<open>
  \<open>memmove\<close> from the image of the filesystem into physical memory, as bytes. The part of the image that is copied
  has to exist.
\<close>

fun put_bytes :: "u32 \<Rightarrow> bytes \<Rightarrow> byte_mem \<Rightarrow> byte_mem" where
  "put_bytes a [] m = m"
| "put_bytes a (c # cs) m = put_bytes (a + 1) cs (m(a := c))"

partial_function (option) load_text :: "bytes \<Rightarrow> nat \<Rightarrow> u32 \<Rightarrow> u32 \<Rightarrow> u32 \<Rightarrow> u32 \<Rightarrow> mm \<Rightarrow> (u32 \<times> mm) option" where
  "load_text img loc sz pdir text_start pos s =
     (if pos < sz
      then do {
             (page, s) \<leftarrow> alloc_page s;
             let n = (if PAGE_SIZE \<le> sz - pos then PAGE_SIZE else sz - pos);
             assert_c (loc + unat pos + unat n \<le> length img);
             let s = s\<lparr>mm_mem := put_bytes page (take (unat n) (drop (loc + unat pos) img)) (mm_mem s)\<rparr>;
             s \<leftarrow> map_page pdir (text_start + pos) page PAGE_USER PAGE_READ_WRITE s;
             load_text img loc sz pdir text_start (pos + PAGE_SIZE) s
           }
      else Some (pos, s))"

definition replace_image :: "process \<Rightarrow> nat \<Rightarrow> bytes \<Rightarrow> mm \<Rightarrow> (u32 \<times> mm) option" where
  "replace_image p e img s =
     do {
       s \<leftarrow> unmap_range (pr_pdir p) (pr_text_start p) (pr_text_end p) s;
       s \<leftarrow> unmap_range (pr_pdir p) (pr_data_start p) (pr_data_end p) s;
       loc \<leftarrow> de_location img e;
       sz \<leftarrow> de_size img e;
       load_text img loc sz (pr_pdir p) PROCESS_TEXT_BASE 0 s
     }"

definition exec_image :: "nat \<Rightarrow> process \<Rightarrow> nat \<Rightarrow> bytes list \<Rightarrow> kernel \<Rightarrow> (regs \<times> kernel) option" where
  "exec_image i p e args k =
     do {
       (tmp, k) \<leftarrow> k_malloc (of_nat (argdata_size args)) k;
       argdata \<leftarrow> build_argdata args;
       let k = disable_paging k;
       (pos, s) \<leftarrow> replace_image p e (k_filesystem k) (k_mm k);
       let k = upd_proc i (\<lambda>p. p\<lparr>pr_text_start := PROCESS_TEXT_BASE, pr_text_end := PROCESS_TEXT_BASE + pos,
                 pr_data_start := PROCESS_DATA_BASE, pr_data_end := PROCESS_DATA_BASE\<rparr>) (k\<lparr>k_mm := s\<rparr>);
       let k = enable_paging (pr_pdir p) k;
       let sp = PROCESS_STACK_BASE - of_nat (argdata_size args);
       k \<leftarrow> vwrite sp argdata k;
       k \<leftarrow> k_free tmp k;
       Some (init_regs sp PROCESS_TEXT_BASE, k)
     }"

text \<open>The third component is the new value of \<open>*r\<close>.\<close>

definition syscall_execve :: "u32 \<Rightarrow> u32 \<Rightarrow> regs \<Rightarrow> kernel \<Rightarrow> (int \<times> regs \<times> kernel) option" where
  "syscall_execve filename argv r k =
     do {
       (i, p) \<leftarrow> current_process k;
       ok \<leftarrow> valid_string p filename k;
       if \<not> ok then Some (- EFAULT, r, k)
       else do {
         ok \<leftarrow> (if argv \<noteq> 0 then check_argv p argv 0 k else Some True);
         if \<not> ok then Some (- EFAULT, r, k)
         else do {
           s \<leftarrow> vstring filename k;
           (res, entry) \<leftarrow> get_directory_entry (k_filesystem k) s;
           if 0 > res then Some (res, r, k)
           else do {
             e \<leftarrow> entry;
             t \<leftarrow> de_type (k_filesystem k) e;
             if t = TYPE_DIR then Some (- EISDIR, r, k)
             else do {
               args \<leftarrow> (if argv \<noteq> 0 then collect_args argv 0 k else Some []);
               (r, k) \<leftarrow> exec_image i p e args k;
               Some (0, r, k)
             }
           }
         }
       }
     }"

subsection \<open>waitpid\<close>

definition syscall_waitpid :: "int \<Rightarrow> u32 \<Rightarrow> kernel \<Rightarrow> (int \<times> kernel) option" where
  "syscall_waitpid pid status k =
     (if 0 > pid \<or> int MAX_PROCESSES \<le> pid then Some (- ECHILD, k)
      else do {
        (i, p) \<leftarrow> current_process k;
        let k = upd_proc i (\<lambda>p. p\<lparr>pr_waiting_on := - 1\<rparr>) k;
        let c = pid_index pid;
        child \<leftarrow> get_proc c k;
        if \<not> pr_exists child \<or> pr_parent_pid child \<noteq> pr_pid p then Some (- ECHILD, k)
        else if pr_exited child
        then do {
               k \<leftarrow> (if status \<noteq> 0 then vstore32 status (of_int (pr_exit_status child)) k else Some k);
               Some (pid, upd_proc c (\<lambda>p. p\<lparr>pr_exists := False\<rparr>) k)
             }
        else do {
               let k = upd_proc i (\<lambda>p. p\<lparr>pr_waiting_on := pid\<rparr>) k;
               k \<leftarrow> suspend_process i k;
               Some (- ESUSPEND, k)
             }
      })"

end
