(* ===== verification/Dispatch.thy ===== *)
theory Dispatch
  imports Unixproc
begin

text \<open>
  The dispatcher \<open>syscall\<close> of \<^verbatim>\<open>source/syscall.c\<close> and \<open>context_switch\<close> of \<^verbatim>\<open>source/process.c\<close>, which call each other:
  a process that is switched to inside a system call makes the call again, and a call that suspends its
  process switches to another one. \<open>syscall_step\<close> is the body of \<open>syscall\<close> up to its call of \<open>context_switch\<close>,
  \<open>switch_process\<close> the body of \<open>context_switch\<close> up to its call of \<open>syscall\<close>; the flag says whether that call follows. The recursion may go
  on forever, hence \<open>partial_function\<close>.
\<close>

definition SYSCALL_GETPID :: u32 where [simp]: "SYSCALL_GETPID = 1"
definition SYSCALL_EXIT :: u32 where [simp]: "SYSCALL_EXIT = 2"
definition SYSCALL_WRITE :: u32 where [simp]: "SYSCALL_WRITE = 3"
definition SYSCALL_READ :: u32 where [simp]: "SYSCALL_READ = 4"
definition SYSCALL_GETERRNO :: u32 where [simp]: "SYSCALL_GETERRNO = 5"
definition SYSCALL_BRK :: u32 where [simp]: "SYSCALL_BRK = 6"
definition SYSCALL_SEND :: u32 where [simp]: "SYSCALL_SEND = 7"
definition SYSCALL_RECEIVE :: u32 where [simp]: "SYSCALL_RECEIVE = 8"
definition SYSCALL_CLOSE :: u32 where [simp]: "SYSCALL_CLOSE = 9"
definition SYSCALL_PIPE :: u32 where [simp]: "SYSCALL_PIPE = 10"
definition SYSCALL_DUP2 :: u32 where [simp]: "SYSCALL_DUP2 = 11"
definition SYSCALL_FORK :: u32 where [simp]: "SYSCALL_FORK = 12"
definition SYSCALL_EXECVE :: u32 where [simp]: "SYSCALL_EXECVE = 13"
definition SYSCALL_STAT :: u32 where [simp]: "SYSCALL_STAT = 15"
definition SYSCALL_OPEN :: u32 where [simp]: "SYSCALL_OPEN = 16"
definition SYSCALL_GETDENT :: u32 where [simp]: "SYSCALL_GETDENT = 17"
definition SYSCALL_CHDIR :: u32 where [simp]: "SYSCALL_CHDIR = 18"
definition SYSCALL_GETCWD :: u32 where [simp]: "SYSCALL_GETCWD = 19"
definition SYSCALL_KILL :: u32 where [simp]: "SYSCALL_KILL = 20"

text \<open>Messages of the kernel, on the screen. The kernel is not in user mode.\<close>

definition k_printf :: "string \<Rightarrow> va list \<Rightarrow> kernel \<Rightarrow> kernel option" where
  "k_printf format args k =
     on_screen (\<lambda>s. map_option snd (kprintf False write_to_screen (k_stack k) (chars format @ [0]) args s)) k"

text \<open>The arguments are on the stack of the process, above the return address.\<close>

definition arg :: "regs \<Rightarrow> u32 \<Rightarrow> kernel \<Rightarrow> u32 option" where
  "arg r n k = vload32 (r_useresp r + 4 + 4 * n) k"

definition int_arg :: "regs \<Rightarrow> u32 \<Rightarrow> kernel \<Rightarrow> int option" where
  "int_arg r n k = map_option sint (arg r n k)"

text \<open>The calls that leave the registers alone, and \<open>None\<close> for a number that is not theirs.\<close>

definition call_handler :: "u32 \<Rightarrow> (regs \<Rightarrow> kernel \<Rightarrow> (int \<times> kernel) option) option" where
  "call_handler call_no =
     (if call_no = SYSCALL_GETPID then Some (\<lambda>r k. syscall_getpid k)
      else if call_no = SYSCALL_EXIT then Some (\<lambda>r k. do { a \<leftarrow> int_arg r 0 k; syscall_exit a k })
      else if call_no = SYSCALL_WRITE then
        Some (\<lambda>r k. do { a \<leftarrow> int_arg r 0 k; b \<leftarrow> arg r 1 k; c \<leftarrow> arg r 2 k; syscall_write a b c k })
      else if call_no = SYSCALL_READ then
        Some (\<lambda>r k. do { a \<leftarrow> int_arg r 0 k; b \<leftarrow> arg r 1 k; c \<leftarrow> arg r 2 k; syscall_read a b c k })
      else if call_no = SYSCALL_GETERRNO then Some (\<lambda>r k. syscall_geterrno k)
      else if call_no = SYSCALL_BRK then Some (\<lambda>r k. do { a \<leftarrow> arg r 0 k; syscall_brk a k })
      else if call_no = SYSCALL_SEND then
        Some (\<lambda>r k. do { a \<leftarrow> int_arg r 0 k; b \<leftarrow> arg r 1 k; c \<leftarrow> arg r 2 k; d \<leftarrow> arg r 3 k; syscall_send a b c d k })
      else if call_no = SYSCALL_RECEIVE then
        Some (\<lambda>r k. do { a \<leftarrow> arg r 0 k; b \<leftarrow> arg r 1 k; syscall_receive a b k })
      else if call_no = SYSCALL_CLOSE then Some (\<lambda>r k. do { a \<leftarrow> int_arg r 0 k; syscall_close a k })
      else if call_no = SYSCALL_PIPE then Some (\<lambda>r k. do { a \<leftarrow> arg r 0 k; syscall_pipe a k })
      else if call_no = SYSCALL_DUP2 then
        Some (\<lambda>r k. do { a \<leftarrow> int_arg r 0 k; b \<leftarrow> int_arg r 1 k; syscall_dup2 a b k })
      else if call_no = SYSCALL_FORK then Some (\<lambda>r k. syscall_fork r k)
      else if call_no = SYSCALL_WAITPID then
        Some (\<lambda>r k. do { a \<leftarrow> int_arg r 0 k; b \<leftarrow> arg r 1 k; syscall_waitpid a b k })
      else if call_no = SYSCALL_STAT then Some (\<lambda>r k. do { a \<leftarrow> arg r 0 k; b \<leftarrow> arg r 1 k; syscall_stat a b k })
      else if call_no = SYSCALL_OPEN then Some (\<lambda>r k. do { a \<leftarrow> arg r 0 k; b \<leftarrow> int_arg r 1 k; syscall_open a b k })
      else if call_no = SYSCALL_GETDENT then
        Some (\<lambda>r k. do { a \<leftarrow> int_arg r 0 k; b \<leftarrow> arg r 1 k; syscall_getdent a b k })
      else if call_no = SYSCALL_CHDIR then Some (\<lambda>r k. do { a \<leftarrow> arg r 0 k; syscall_chdir a k })
      else if call_no = SYSCALL_GETCWD then
        Some (\<lambda>r k. do { a \<leftarrow> arg r 0 k; b \<leftarrow> arg r 1 k; syscall_getcwd a b k })
      else if call_no = SYSCALL_KILL then Some (\<lambda>r k. do { a \<leftarrow> int_arg r 0 k; syscall_kill a k })
      else None)"

definition dispatch :: "u32 \<Rightarrow> regs \<Rightarrow> kernel \<Rightarrow> (int \<times> regs \<times> kernel) option" where
  "dispatch call_no r k =
     (if call_no = SYSCALL_EXECVE
      then do { a \<leftarrow> arg r 0 k; b \<leftarrow> arg r 1 k; _ \<leftarrow> arg r 2 k; syscall_execve a b r k }
      else case call_handler call_no of
             Some f \<Rightarrow> do { (res, k) \<leftarrow> f r k; Some (res, r, k) }
           | None \<Rightarrow>
               do {
                 k \<leftarrow> k_printf (''Warning: Call to unimplemented system call %d'' @ [CHR 0x0A]) [Word call_no] k;
                 Some (- ENOSYS, r, k)
               })"

text \<open>The errno of the process, and the result that the process sees.\<close>

definition record_errno :: "u32 \<Rightarrow> int \<Rightarrow> kernel \<Rightarrow> int \<times> kernel" where
  "record_errno call_no res k =
     (case k_current k of
        Some j \<Rightarrow>
          if call_no \<noteq> SYSCALL_GETERRNO \<and> res \<noteq> - ESUSPEND
          then (if res < 0 then (- 1, upd_proc j (\<lambda>p. p\<lparr>pr_last_errno := - res\<rparr>) k)
                else (res, upd_proc j (\<lambda>p. p\<lparr>pr_last_errno := 0\<rparr>) k))
          else (res, k)
      | None \<Rightarrow> (res, k))"

definition syscall_step :: "regs \<Rightarrow> kernel \<Rightarrow> (bool \<times> regs \<times> kernel) option" where
  "syscall_step r k =
     do {
       let call_no = r_eax r;
       (old_current, _) \<leftarrow> current_process k;
       let k = upd_proc old_current (\<lambda>p. p\<lparr>pr_in_syscall := call_no\<rparr>) k;
       (res, r, k) \<leftarrow> dispatch call_no r k;
       let (res, k) = record_errno call_no res k;
       if res = - ESUSPEND then Some (True, r, k)
       else do {
         let k = upd_proc old_current (\<lambda>p. p\<lparr>pr_in_syscall := 0\<rparr>) k;
         Some (k_current k \<noteq> Some old_current, r\<lparr>r_eax := of_int res\<rparr>, k)
       }
     }"

partial_function (option) context_switch :: "regs \<Rightarrow> kernel \<Rightarrow> (regs \<times> kernel) option" where
  "context_switch r k =
     do {
       (in_syscall, r, k) \<leftarrow> switch_process r k;
       if in_syscall
       then do {
              (switch, r, k) \<leftarrow> syscall_step r k;
              if switch then context_switch r k else Some (r, k)
            }
       else Some (r, k)
     }"

definition syscall :: "regs \<Rightarrow> kernel \<Rightarrow> (regs \<times> kernel) option" where
  "syscall r k =
     do {
       (switch, r, k) \<leftarrow> syscall_step r k;
       if switch then context_switch r k else Some (r, k)
     }"

end
