(* ===== verification/Interrupts.thy ===== *)
theory Interrupts
  imports Dispatch
begin

text \<open>
  Interrupts and boot: \<^verbatim>\<open>source/interrupts.c\<close>, \<^verbatim>\<open>source/segmentation.c\<close> and the handlers and \<open>kernel_main\<close> of
  \<^verbatim>\<open>source/main.c\<close>. What the hardware delivers (the scancode at port 0x60, the register \<open>cr2\<close>) is an
  argument. The tables are lists of records, loading them into the processor
  (\<open>idt_load\<close>, \<open>set_gdt\<close>, \<open>set_tss\<close>) is outside.
\<close>

subsection \<open>The descriptor tables\<close>

record idt_entry =
  base_lo :: u16
  sel :: u16
  always0 :: u8
  flags :: u8
  base_hi :: u16

definition idt_set_gate :: "u8 \<Rightarrow> u32 \<Rightarrow> u16 \<Rightarrow> u8 \<Rightarrow> idt_entry list \<Rightarrow> idt_entry list" where
  "idt_set_gate num base sl fl idt =
     idt[unat num := \<lparr>base_lo = ucast (base AND 0xFFFF), sel = sl, always0 = 0, flags = fl,
       base_hi = ucast (drop_bit 16 base AND 0xFFFF)\<rparr>]"

definition TICKS_PER_SECOND :: u32 where [simp]: "TICKS_PER_SECOND = 50"

fun set_gates :: "nat \<Rightarrow> u32 list \<Rightarrow> idt_entry list \<Rightarrow> idt_entry list" where
  "set_gates i [] idt = idt"
| "set_gates i (h # hs) idt =
     set_gates (Suc i) hs (idt_set_gate (of_nat i) h 0x08 (if i < 48 then 0x8E else 0xEE) idt)"

text \<open>The commands to the interrupt controllers and the timer.\<close>

definition pic_setup :: "(u32 \<times> u32) list" where
  "pic_setup =
     [(0x20, 0x11), (0xA0, 0x11), (0x21, 0x20), (0xA1, 0x28), (0x21, 0x04), (0xA1, 0x02), (0x21, 0x01),
      (0xA1, 0x01), (0x21, 0), (0xA1, 0)]"

definition timer_setup :: "(u32 \<times> u32) list" where
  "timer_setup =
     (let d = 1193180 div TICKS_PER_SECOND in [(0x43, 0x36), (0x40, d AND 0xFF), (0x40, drop_bit 8 d)])"

fun outbs :: "(u32 \<times> u32) list \<Rightarrow> screen \<Rightarrow> screen" where
  "outbs [] s = s"
| "outbs ((p, d) # cs) s = outbs cs (outb p d s)"

definition zero_gate :: idt_entry where
  "zero_gate = \<lparr>base_lo = 0, sel = 0, always0 = 0, flags = 0, base_hi = 0\<rparr>"

text \<open>\<open>interrupt_handlers\<close> are the 49 entry points of \<^verbatim>\<open>start.s\<close>.\<close>

definition setup_interrupts :: "u32 list \<Rightarrow> screen \<Rightarrow> idt_entry list \<times> screen" where
  "setup_interrupts interrupt_handlers s =
     (let s = outbs pic_setup s;
          idt = set_gates 0 (take 49 interrupt_handlers) (replicate 256 zero_gate)
      in (idt, outbs timer_setup s))"

record gdt_entry =
  limit_low :: u16
  base_low :: u16
  base_middle :: u8
  seg_type :: u8
  desc_type :: u8
  dpl :: u8
  gdt_present :: u8
  limit_high :: u8
  avl :: u8
  op64 :: u8
  opsize :: u8
  granularity :: u8
  base_high :: u8

definition GRANULARITY_4KB :: u8 where [simp]: "GRANULARITY_4KB = 1"
definition OPSIZE_32BIT :: u8 where [simp]: "OPSIZE_32BIT = 1"
definition DESC_SYSTEM :: u8 where [simp]: "DESC_SYSTEM = 0"
definition DESC_CODEDATA :: u8 where [simp]: "DESC_CODEDATA = 1"
definition SEG_READ_WRITE :: u8 where [simp]: "SEG_READ_WRITE = 2"
definition SEG_EXECUTE_READ :: u8 where [simp]: "SEG_EXECUTE_READ = 10"
definition SEG_TSS :: u8 where [simp]: "SEG_TSS = 9"

text \<open>The bit fields take the low bits of what is assigned to them.\<close>

definition gdt_gate :: "nat \<Rightarrow> u32 \<Rightarrow> u32 \<Rightarrow> u8 \<Rightarrow> u8 \<Rightarrow> u8 \<Rightarrow> gdt_entry" where
  "gdt_gate num base limit dp dt st =
     (let g = \<lparr>limit_low = ucast (limit AND 0xFFFF), base_low = ucast (base AND 0xFFFF),
                base_middle = ucast (drop_bit 16 base AND 0xFF), seg_type = st AND 15, desc_type = dt AND 1,
                dpl = dp AND 3, gdt_present = 1, limit_high = ucast (drop_bit 16 limit AND 0x0F), avl = 0, op64 = 0,
                opsize = OPSIZE_32BIT, granularity = GRANULARITY_4KB, base_high = ucast (drop_bit 24 base AND 0xFF)\<rparr>
      in if num = 0 then g\<lparr>gdt_present := 0, granularity := 0, opsize := 0\<rparr> else g)"

definition gdt_set_gate :: "nat \<Rightarrow> u32 \<Rightarrow> u32 \<Rightarrow> u8 \<Rightarrow> u8 \<Rightarrow> u8 \<Rightarrow> gdt_entry list \<Rightarrow> gdt_entry list" where
  "gdt_set_gate num base limit dp dt st gdt = gdt[num := gdt_gate num base limit dp dt st]"

definition NUM_SEGMENTS :: nat where [simp]: "NUM_SEGMENTS = 6"

definition zero_segment :: gdt_entry where
  "zero_segment =
     \<lparr>limit_low = 0, base_low = 0, base_middle = 0, seg_type = 0, desc_type = 0, dpl = 0, gdt_present = 0, limit_high = 0,
      avl = 0, op64 = 0, opsize = 0, granularity = 0, base_high = 0\<rparr>"

record tss =
  tss_esp0 :: u32
  tss_ss0 :: u16
  tss_cs :: u16
  tss_ss :: u16
  tss_ds :: u16
  tss_es :: u16
  tss_fs :: u16
  tss_gs :: u16

text \<open>
  \<open>&tss\<close> and \<open>&ih_stack\<close> are arguments. \<open>sizeof(tss)\<close> is 104. The fields of \<open>tss\<close> that are not in the record stay 0.
\<close>

definition setup_segmentation :: "u32 \<Rightarrow> u32 \<Rightarrow> gdt_entry list \<Rightarrow> gdt_entry list \<times> tss" where
  "setup_segmentation tss_addr ih_stack gdt =
     (let gdt = gdt_set_gate 0 0 0 0 0 0 gdt;
          gdt = gdt_set_gate 1 0 0xFFFFFFFF 0 DESC_CODEDATA SEG_EXECUTE_READ gdt;
          gdt = gdt_set_gate 2 0 0xFFFFFFFF 0 DESC_CODEDATA SEG_READ_WRITE gdt;
          gdt = gdt_set_gate 3 0 0xFFFFFFFF 3 DESC_CODEDATA SEG_EXECUTE_READ gdt;
          gdt = gdt_set_gate 4 0 0xFFFFFFFF 3 DESC_CODEDATA SEG_READ_WRITE gdt;
          gdt = gdt_set_gate 5 tss_addr (tss_addr + 104 - 1) 3 DESC_SYSTEM SEG_TSS gdt;
          gdt = gdt[5 := (gdt ! 5)\<lparr>granularity := 0, opsize := 0\<rparr>]
      in (gdt, \<lparr>tss_esp0 = ih_stack, tss_ss0 = 0x10, tss_cs = 0x08 OR 3, tss_ss = 0x10 OR 3, tss_ds = 0x10 OR 3,
                tss_es = 0x10 OR 3, tss_fs = 0x10 OR 3, tss_gs = 0x10 OR 3\<rparr>))"

subsection \<open>The keyboard and the timer\<close>

definition kbd_pad :: bytes where
  "kbd_pad = replicate 70 0"

definition kbdmap :: bytes where
  "kbdmap =
     [0, 27] @ chars ''1234567890-='' @ [8, 9] @ chars ''qwertyuiop[]'' @ [10, 0] @
     chars ''asdfghjkl;'' @ [39, 96, 0, 92] @ chars ''zxcvbnm,./'' @ [0] @ chars ''*'' @ [0] @ chars '' '' @ kbd_pad"

definition kbdmap_shift :: bytes where
  "kbdmap_shift =
     [0, 27] @ chars ''!@#$%^&*()_+'' @ [8, 9] @ chars ''QWERTYUIOP{}'' @ [10, 0] @
     chars ''ASDFGHJKL:'' @ [34, 126, 0, 124] @ chars ''ZXCVBNM<>?'' @ [0] @ chars ''*'' @ [0] @ chars '' '' @ kbd_pad"

definition KEY_SHIFT :: u8 where [simp]: "KEY_SHIFT = 42"

definition timer_handler :: "regs \<Rightarrow> kernel \<Rightarrow> (regs \<times> kernel) option" where
  "timer_handler r k = context_switch r (k\<lparr>k_timer_ticks := k_timer_ticks k + 1\<rparr>)"

text \<open>What a key event does before the context switch.\<close>

definition key_event :: "u8 \<Rightarrow> kernel \<Rightarrow> kernel option" where
  "key_event scancode k =
     (let key = scancode AND 0x7F in
      if scancode AND 0x80 \<noteq> 0
      then Some (if key = KEY_SHIFT then k\<lparr>k_shift_pressed := False\<rparr> else k)
      else if key = KEY_SHIFT then Some (k\<lparr>k_shift_pressed := True\<rparr>)
      else (let c = (if k_shift_pressed k then kbdmap_shift ! unat key else kbdmap ! unat key)
            in case k_input_pipe k of Some b \<Rightarrow> write_to_pipe b [c] k | None \<Rightarrow> Some k))"

definition keyboard_handler :: "regs \<Rightarrow> u8 \<Rightarrow> kernel \<Rightarrow> (regs \<times> kernel) option" where
  "keyboard_handler r scancode k = do { k \<leftarrow> key_event scancode k; context_switch r k }"

subsection \<open>Exceptions\<close>

definition exception_messages :: "string list" where
  "exception_messages =
     [''Division By Zero'', ''Debug'', ''Non Maskable Interrupt'', ''Breakpoint'', ''Into Detected Overflow'',
      ''Out of Bounds'', ''Invalid Opcode'', ''No Coprocessor'', ''Double Fault'', ''Coprocessor Segment Overrun'',
      ''Bad TSS'', ''Segment Not Present'', ''Stack Fault'', ''General Protection Fault'', ''Page Fault'',
      ''Unknown Interrupt'', ''Coprocessor Fault'', ''Alignment Check'', ''Machine Check''] @
     replicate 13 ''Reserved''"

text \<open>\<open>fatal\<close> and \<open>__assert\<close> in the kernel never return: these are the cells they leave on the screen.\<close>

definition fatal :: "bytes \<Rightarrow> screenchar list \<Rightarrow> screenchar list option" where
  "fatal str cs =
     do {
       (x, cs) \<leftarrow> addstr 0 (chars ''Fatal error: '' @ [0]) cs;
       (_, cs) \<leftarrow> addstr x str cs;
       Some cs
     }"

definition assert_screen :: "bytes \<Rightarrow> bytes \<Rightarrow> screenchar list \<Rightarrow> screenchar list option" where
  "assert_screen str func cs =
     do {
       (x, cs) \<leftarrow> addstr 0 (chars ''Assertion failure in '' @ [0]) cs;
       (x, cs) \<leftarrow> addstr x func cs;
       (x, cs) \<leftarrow> addstr x (chars '': '' @ [0]) cs;
       (_, cs) \<leftarrow> addstr x str cs;
       Some cs
     }"

definition print_regs :: "u32 \<Rightarrow> regs \<Rightarrow> kernel \<Rightarrow> kernel option" where
  "print_regs cr2 r k =
     do {
       k \<leftarrow> k_printf (''edi %10p        gs      %10p'' @ [CHR 0x0A]) [Word (r_edi r), Word (r_gs r)] k;
       k \<leftarrow> k_printf (''esi %10p        fs      %10p'' @ [CHR 0x0A]) [Word (r_esi r), Word (r_fs r)] k;
       k \<leftarrow> k_printf (''ebp %10p        es      %10p'' @ [CHR 0x0A]) [Word (r_ebp r), Word (r_es r)] k;
       k \<leftarrow> k_printf (''esp %10p        ds      %10p'' @ [CHR 0x0A]) [Word (r_esp r), Word (r_ds r)] k;
       k \<leftarrow> k_printf (''ebx %10p        eip     %10p'' @ [CHR 0x0A]) [Word (r_ebx r), Word (r_eip r)] k;
       k \<leftarrow> k_printf (''edx %10p        cs      %10p'' @ [CHR 0x0A]) [Word (r_edx r), Word (r_cs r)] k;
       k \<leftarrow> k_printf (''ecx %10p        eflags  %10p'' @ [CHR 0x0A]) [Word (r_ecx r), Word (r_eflags r)] k;
       k \<leftarrow> k_printf (''eax %10p        useresp %10p'' @ [CHR 0x0A]) [Word (r_eax r), Word (r_useresp r)] k;
       k \<leftarrow> k_printf (''                      ss      %10p'' @ [CHR 0x0A]) [Word (r_ss r)] k;
       k_printf (''cr2 = %p'' @ [CHR 0x0A]) [Word cr2] k
     }"

text \<open>The page fault of a process outside a system call: it is killed.\<close>

definition kill_faulting :: "u32 \<Rightarrow> nat \<Rightarrow> process \<Rightarrow> regs \<Rightarrow> kernel \<Rightarrow> (regs \<times> kernel) option" where
  "kill_faulting cr2 i p r k =
     do {
       k \<leftarrow> k_printf (''Process %d: page fault exception at address %p'' @ [CHR 0x0A])
              [Word (of_int (pr_pid p)), Word cr2] k;
       k \<leftarrow> kill_process i k;
       context_switch r k
     }"

definition INTERRUPT_TIMER :: u32 where [simp]: "INTERRUPT_TIMER = 32"
definition INTERRUPT_KEYBOARD :: u32 where [simp]: "INTERRUPT_KEYBOARD = 33"
definition INTERRUPT_SYSCALL :: u32 where [simp]: "INTERRUPT_SYSCALL = 48"
definition MAX_EXCEPTION :: u32 where [simp]: "MAX_EXCEPTION = 31"

text \<open>
  The processor halts (\<open>None\<close>) for every other exception, after printing the registers and its name.
\<close>

definition handle_interrupt :: "u8 \<Rightarrow> u32 \<Rightarrow> regs \<Rightarrow> kernel \<Rightarrow> (regs \<times> kernel) option" where
  "handle_interrupt scancode cr2 r k =
     (if r_int_no r = INTERRUPT_TIMER then timer_handler r k
      else if r_int_no r = INTERRUPT_KEYBOARD then keyboard_handler r scancode k
      else if r_int_no r = INTERRUPT_SYSCALL then syscall r k
      else case (if r_int_no r = 14 then current_process k else None) of
             Some (i, p) \<Rightarrow>
               if pr_in_syscall p = 0 then kill_faulting cr2 i p r k
               else None
           | None \<Rightarrow> if r_int_no r \<le> MAX_EXCEPTION then None else Some (r, k))"

definition end_of_interrupt :: "u32 \<Rightarrow> screen \<Rightarrow> screen" where
  "end_of_interrupt int_no s =
     (if 32 \<le> int_no \<and> int_no < 48
      then outb 0x20 0x20 (if 40 \<le> int_no then outb 0xA0 0x20 s else s) else s)"

definition interrupt_handler :: "u8 \<Rightarrow> u32 \<Rightarrow> regs \<Rightarrow> kernel \<Rightarrow> (regs \<times> kernel) option" where
  "interrupt_handler scancode cr2 r k =
     do {
       let int_no = r_int_no r;
       let r = r\<lparr>r_fstate := k_fpustate k\<rparr>;
       (r, k) \<leftarrow> handle_interrupt scancode cr2 r k;
       let k = k\<lparr>k_screen := end_of_interrupt int_no (k_screen k)\<rparr>;
       Some (r, k\<lparr>k_fpustate := r_fstate r\<rparr>)
     }"

subsection \<open>Boot\<close>

text \<open>
  The state before \<open>kernel_main\<close>: global variables are 0 (\<open>page_end\<close> is \<open>PAGE_START\<close>). \<open>mem\<close>, the screen and the module that the boot
  loader passes (its end address and bytes) are arguments. Setting up the tables is above, its port output is
  in the screen that is passed on.
\<close>

definition boot_state :: "byte_mem \<Rightarrow> nat \<Rightarrow> screen \<Rightarrow> bytes \<Rightarrow> layout \<Rightarrow> memarea \<Rightarrow> kernel" where
  "boot_state mem ram scr stack ly heap =
     \<lparr>k_mm = mm_init mem ram, k_heap = heap, k_handles = Map.empty, k_pipes = Map.empty, k_arrays = Map.empty,
      k_mailboxes = Map.empty, k_procs = replicate MAX_PROCESSES zero_process, k_current = None,
      k_ready = \<lparr>pl_first = None, pl_last = None\<rparr>, k_suspended = \<lparr>pl_first = None, pl_last = None\<rparr>,
      k_paging = None, k_screen = scr, k_filesystem = [], k_input_pipe = None, k_shift_pressed = False,
      k_timer_ticks = 0, k_fpustate = replicate 27 0, k_stack = stack, k_layout = ly\<rparr>"

definition clear_screen :: "screen \<Rightarrow> screen option" where
  "clear_screen s =
     do {
       cs \<leftarrow> blank_cells 0 (SCREEN_HEIGHT * SCREEN_WIDTH) (scr_cells s);
       Some (move_cursor (scr_xpos s) (scr_ypos s) (s\<lparr>scr_cells := cs\<rparr>))
     }"

text \<open>
  \<open>kernel_main\<close> never returns. Its last steps are \<open>enter_user_mode\<close> (assembly: the processor goes to ring 3 with interrupts enabled) and
  \<open>while (1)\<close>, in which it stays until an interrupt takes the processor away for good. \<open>User_loop gdt tss idt k\<close> is this loop,
  with the descriptor tables that are loaded and the state of the kernel: that is the outcome of \<open>kernel_main\<close>, and \<open>None\<close> that it has halted before.
  \<open>multiboot\<close>: the modules, each its end address and its bytes.
\<close>

datatype boot = User_loop "gdt_entry list" tss "idt_entry list" kernel

definition kernel_main :: "u32 \<Rightarrow> u32 \<Rightarrow> u32 list \<Rightarrow> (u32 \<times> bytes) list \<Rightarrow> kernel \<Rightarrow> boot option" where
  "kernel_main tss_addr ih_stack interrupt_handlers mods k =
     do {
       let (gdt, tss) = setup_segmentation tss_addr ih_stack (replicate NUM_SEGMENTS zero_segment);
       let (idt, scr) = setup_interrupts interrupt_handlers (k_screen k);
       let k = k\<lparr>k_screen := scr,
                k_heap := kmalloc_init (ma_links (k_heap k)) (ma_blocks (k_heap k))\<rparr>;
       k \<leftarrow> on_screen clear_screen k;
       k \<leftarrow> k_printf (''Welcome to AdelaideOS'' @ [CHR 0x0A]) [] k;
       assert_c (length mods = 1);
       assert_c (fst (hd mods) < 2 * MB);
       let k = k\<lparr>k_filesystem := snd (hd mods)\<rparr>;
       (pid, k) \<leftarrow> start_process (ly_launch_shell (k_layout k)) k;
       assert_c (0 \<le> pid);
       fh \<leftarrow> pr_filedesc (k_procs k ! pid_index pid) ! STDIN_FILENO;
       h \<leftarrow> k_handles k fh;
       Some (User_loop gdt tss idt (k\<lparr>k_input_pipe := Some (fh_p h)\<rparr>))
     }"

end
