(* ===== verification/Interrupt_Props.thy ===== *)
theory Interrupt_Props
  imports Interrupts
begin

text \<open>
  The descriptor tables as the processor reads them: the fields of an entry give back the address that was
  put in, and who may use which entry.
\<close>

subsection \<open>Decoding a gate and a segment\<close>

definition gate_base :: "idt_entry \<Rightarrow> u32" where
  "gate_base g = push_bit 16 (ucast (base_hi g)) OR ucast (base_lo g)"

definition gate_dpl :: "idt_entry \<Rightarrow> u8" where
  "gate_dpl g = drop_bit 5 (flags g) AND 3"

definition gate_present :: "idt_entry \<Rightarrow> bool" where
  "gate_present g \<longleftrightarrow> bit (flags g) 7"

definition segment_base :: "gdt_entry \<Rightarrow> u32" where
  "segment_base g = push_bit 24 (ucast (base_high g)) OR push_bit 16 (ucast (base_middle g)) OR ucast (base_low g)"

text \<open>The last address of the segment relative to its base.\<close>

definition segment_limit :: "gdt_entry \<Rightarrow> u32" where
  "segment_limit g =
     (let l = push_bit 16 (ucast (limit_high g)) OR ucast (limit_low g)
      in if granularity g = 0 then l else push_bit 12 l OR 0xFFF)"

lemma mask_16: "(0xFFFF :: u32) = mask 16" and mask_8: "(0xFF :: u32) = mask 8" and mask_4: "(0x0F :: u32) = mask 4"
  by (simp_all add: mask_eq_exp_minus_1)

lemma halves: "push_bit 16 (ucast (ucast (drop_bit 16 b AND 0xFFFF) :: u16)) OR ucast (ucast (b AND 0xFFFF) :: u16) = (b :: u32)"
  unfolding mask_16
proof (rule bit_word_eqI)
  fix n assume n: "n < LENGTH(32)"
  show "bit (push_bit 16 (ucast (ucast (drop_bit 16 b AND mask 16) :: u16)) OR ucast (ucast (b AND mask 16) :: u16) :: u32) n = bit b n"
    using n by (cases "n < 16") (auto simp: bit_simps)
qed

lemma thirds:
  "push_bit 24 (ucast (ucast (drop_bit 24 b AND 0xFF) :: u8)) OR push_bit 16 (ucast (ucast (drop_bit 16 b AND 0xFF) :: u8)) OR
    ucast (ucast (b AND 0xFFFF) :: u16) = (b :: u32)"
  unfolding mask_16 mask_8
proof (rule bit_word_eqI)
  fix n assume n: "n < LENGTH(32)"
  consider "n < 16" | "16 \<le> n" "n < 24" | "24 \<le> n" by linarith
  then show "bit (push_bit 24 (ucast (ucast (drop_bit 24 b AND mask 8) :: u8)) OR
      push_bit 16 (ucast (ucast (drop_bit 16 b AND mask 8) :: u8)) OR ucast (ucast (b AND mask 16) :: u16) :: u32) n = bit b n"
    using n by cases (auto simp: bit_simps)
qed

subsection \<open>The interrupt descriptor table\<close>

lemma set_gates_length [simp]: "length (set_gates i hs idt) = length idt"
  by (induction i hs idt rule: set_gates.induct) (auto simp: idt_set_gate_def)

lemma set_gates_nth:
  assumes "length idt = 256" "i + length hs \<le> 256" "n < 256"
  shows "set_gates i hs idt ! n =
    (if i \<le> n \<and> n < i + length hs
     then \<lparr>base_lo = ucast (hs ! (n - i) AND 0xFFFF), sel = 0x08, always0 = 0, flags = (if n < 48 then 0x8E else 0xEE),
       base_hi = ucast (drop_bit 16 (hs ! (n - i)) AND 0xFFFF)\<rparr>
     else idt ! n)"
  using assms
proof (induction hs arbitrary: i idt)
  case (Cons h hs)
  have u: "unat (of_nat i :: u8) = i" using Cons.prems(2) by (simp add: unat_of_nat take_bit_eq_mod)
  have "length (idt_set_gate (of_nat i) h 8 (if i < 48 then 0x8E else 0xEE) idt) = 256" using Cons.prems by (simp add: idt_set_gate_def)
  from Cons.IH [OF this] Cons.prems u show ?case
    by (cases "n = i") (auto simp: idt_set_gate_def nth_Cons' Suc_diff_Suc not_less)
qed auto

text \<open>
  C32: the interrupt table. The processor finds in entry \<open>n\<close>, for each of the 49 interrupts, exactly the address of handler
  \<open>n\<close>, in the code segment of the kernel; only the system call, interrupt 48, can be raised by processes in ring 3.
  All other entries are not present.
\<close>

theorem setup_interrupts_correct:
  assumes "length interrupt_handlers = 49" and "setup_interrupts interrupt_handlers s = (idt, s')" and "n < 256"
  shows "length idt = 256 \<and>
    (if n < 49 then gate_base (idt ! n) = interrupt_handlers ! n \<and> sel (idt ! n) = 0x08 \<and> gate_present (idt ! n) \<and>
       gate_dpl (idt ! n) = (if n = 48 then 3 else 0)
     else \<not> gate_present (idt ! n))"
proof -
  have idt: "idt = set_gates 0 interrupt_handlers (replicate 256 zero_gate)"
    using assms(1,2) by (auto simp: setup_interrupts_def Let_def)
  note N = set_gates_nth [of "replicate 256 zero_gate" 0 interrupt_handlers n]
  show ?thesis
  proof (cases "n < 49")
    case True
    then have "flags (idt ! n) = (if n < 48 then 0x8E else 0xEE)" "gate_base (idt ! n) = interrupt_handlers ! n" "sel (idt ! n) = 0x08"
      using N assms idt halves by (simp_all add: gate_base_def)
    with True idt show ?thesis by (auto simp: gate_present_def gate_dpl_def bit_numeral_rec)
  next
    case False
    with N assms idt show ?thesis by (simp add: gate_present_def zero_gate_def)
  qed
qed

theorem setup_interrupts_correct_witness:
  "\<exists>idt s'. setup_interrupts (map (\<lambda>i. 0x100000 + of_nat (16 * i)) [0..<49]) blank_screen = (idt, s') \<and>
     gate_base (idt ! 48) = 0x100300 \<and> gate_dpl (idt ! 48) = 3"
proof -
  let ?h = "map (\<lambda>i. 0x100000 + of_nat (16 * i)) [0..<49] :: u32 list"
  obtain idt s' where s: "setup_interrupts ?h blank_screen = (idt, s')" by fastforce
  with setup_interrupts_correct [OF _ s, of 48] show ?thesis by simp
qed

subsection \<open>The segments\<close>

lemma gdt_gate_base: "segment_base (gdt_gate n base limit dp dt st) = base"
  using thirds by (simp add: gdt_gate_def segment_base_def Let_def)

lemma take_bits:
  "push_bit 16 (ucast (ucast (drop_bit 16 l AND 0x0F) :: u8)) OR ucast (ucast (l AND 0xFFFF) :: u16) = (take_bit 20 l :: u32)"
  unfolding mask_16 mask_4
proof (rule bit_word_eqI)
  fix n assume n: "n < LENGTH(32)"
  consider "n < 16" | "16 \<le> n" "n < 20" | "20 \<le> n" by linarith
  then show "bit (push_bit 16 (ucast (ucast (drop_bit 16 l AND mask 4) :: u8)) OR ucast (ucast (l AND mask 16) :: u16) :: u32) n =
      bit (take_bit 20 l) n"
    using n by cases (auto simp: bit_simps)
qed

lemma gdt_gate_limit:
  "n \<noteq> 0 \<Longrightarrow> segment_limit (gdt_gate n base limit dp dt st) = push_bit 12 (take_bit 20 limit) OR 0xFFF"
  "segment_limit ((gdt_gate n base limit dp dt st)\<lparr>granularity := 0, opsize := os\<rparr>) = take_bit 20 limit"
  using take_bits by (simp_all add: gdt_gate_def segment_limit_def Let_def)

lemma gdt_gate_fields:
  "dpl (gdt_gate n base limit dp dt st) = dp AND 3" "seg_type (gdt_gate n base limit dp dt st) = st AND 15"
  "gdt_present (gdt_gate n base limit dp dt st) = (if n = 0 then 0 else 1)"
  by (simp_all add: gdt_gate_def Let_def)

text \<open>
  the segments. Entries 1 to 4 are present and cover the whole address space; 1 and 2 are the code and data
  segment of ring 0, 3 and 4 those of ring 3, with the selectors that \<open>init_regs\<close> gives to a process. Entry 5 starts at the
  task state segment; as its limit it has the low 20 bits of the address of the last byte of the task state
  segment, and not the offset 103 of that byte.
\<close>

theorem setup_segmentation_correct:
  assumes "length gdt0 = 6" and "setup_segmentation tss_addr ih_stack gdt0 = (gdt, t)"
  shows "(\<forall>n\<in>{1, 2, 3, 4}. segment_base (gdt ! n) = 0 \<and> segment_limit (gdt ! n) = 0xFFFFFFFF \<and> gdt_present (gdt ! n) = 1 \<and>
      dpl (gdt ! n) = (if n \<le> 2 then 0 else 3) \<and> seg_type (gdt ! n) = (if odd n then SEG_EXECUTE_READ else SEG_READ_WRITE)) \<and>
    gdt_present (gdt ! 0) = 0 \<and> segment_base (gdt ! 5) = tss_addr \<and> segment_limit (gdt ! 5) = take_bit 20 (tss_addr + 103) \<and>
    tss_esp0 t = ih_stack \<and> tss_ss0 t = 0x10"
proof -
  have g: "gdt = [gdt_gate 0 0 0 0 0 0, gdt_gate 1 0 0xFFFFFFFF 0 DESC_CODEDATA SEG_EXECUTE_READ,
    gdt_gate 2 0 0xFFFFFFFF 0 DESC_CODEDATA SEG_READ_WRITE, gdt_gate 3 0 0xFFFFFFFF 3 DESC_CODEDATA SEG_EXECUTE_READ,
    gdt_gate 4 0 0xFFFFFFFF 3 DESC_CODEDATA SEG_READ_WRITE,
    (gdt_gate 5 tss_addr (tss_addr + 103) 3 DESC_SYSTEM SEG_TSS)\<lparr>granularity := 0, opsize := 0\<rparr>]"
    using assms by (auto simp: setup_segmentation_def gdt_set_gate_def Let_def length_Suc_conv numeral_eq_Suc add.commute)
  have t: "tss_esp0 t = ih_stack" "tss_ss0 t = 0x10" using assms(2) by (auto simp: setup_segmentation_def Let_def)
  have full: "push_bit 12 (take_bit 20 0xFFFFFFFF) OR 0xFFF = (0xFFFFFFFF :: u32)"
    by (simp add: push_bit_eq_mult take_bit_eq_mod)
  have b: "segment_base (g\<lparr>granularity := x, opsize := y\<rparr>) = segment_base g" for g x y by (simp add: segment_base_def)
  have n: "gdt ! 0 = gdt_gate 0 0 0 0 0 0" "gdt ! 1 = gdt_gate 1 0 0xFFFFFFFF 0 DESC_CODEDATA SEG_EXECUTE_READ"
    "gdt ! 2 = gdt_gate 2 0 0xFFFFFFFF 0 DESC_CODEDATA SEG_READ_WRITE"
    "gdt ! 3 = gdt_gate 3 0 0xFFFFFFFF 3 DESC_CODEDATA SEG_EXECUTE_READ"
    "gdt ! 4 = gdt_gate 4 0 0xFFFFFFFF 3 DESC_CODEDATA SEG_READ_WRITE"
    "gdt ! 5 = (gdt_gate 5 tss_addr (tss_addr + 103) 3 DESC_SYSTEM SEG_TSS)\<lparr>granularity := 0, opsize := 0\<rparr>"
    unfolding g by simp_all
  have "gdt_present (gdt ! 0) = 0" "segment_base (gdt ! 5) = tss_addr" "segment_limit (gdt ! 5) = take_bit 20 (tss_addr + 103)"
    by (simp_all only: n b gdt_gate_base gdt_gate_limit gdt_gate_fields if_True simp_thms)
  moreover have "segment_base (gdt ! n) = 0 \<and> segment_limit (gdt ! n) = 0xFFFFFFFF \<and> gdt_present (gdt ! n) = 1"
    if "n \<in> {1, 2, 3, 4}" for n
    using that full by (elim insertE emptyE) (simp_all only: n gdt_gate_base gdt_gate_limit gdt_gate_fields, simp_all)
  moreover have "dpl (gdt ! n) = (if n \<le> 2 then 0 else 3) \<and> seg_type (gdt ! n) = (if odd n then SEG_EXECUTE_READ else SEG_READ_WRITE)"
    if "n \<in> {1, 2, 3, 4}" for n
    using that by (elim insertE emptyE) (simp_all only: n gdt_gate_fields, simp_all)
  ultimately show ?thesis using t by blast
qed

theorem setup_segmentation_correct_witness:
  "\<exists>gdt t. setup_segmentation 0x112340 0x120000 (replicate 6 (gdt_gate 0 0 0 0 0 0)) = (gdt, t) \<and>
     segment_limit (gdt ! 3) = 0xFFFFFFFF \<and> dpl (gdt ! 3) = 3 \<and> segment_limit (gdt ! 5) = 0x123A7"
proof -
  obtain gdt t where s: "setup_segmentation 0x112340 0x120000 (replicate 6 (gdt_gate 0 0 0 0 0 0)) = (gdt, t)" by fastforce
  from setup_segmentation_correct [OF _ s] have "segment_limit (gdt ! 3) = 0xFFFFFFFF \<and> dpl (gdt ! 3) = 3 \<and>
    segment_limit (gdt ! 5) = take_bit 20 (0x112340 + 103)" by simp
  with s show ?thesis by (simp add: take_bit_eq_mod)
qed

end
