(* ===== verification/Fifo_Spec.thy ===== *)
theory Fifo_Spec
  imports Prelude
begin

text \<open>
  The contract of a first-in first-out channel between processes, the one of pipes
  (\<^verbatim>\<open>source/pipe.c\<close>, whose items are bytes) and of mailboxes (\<open>send\<close> and \<open>receive\<close> of
  \<^verbatim>\<open>source/syscall.c\<close>, whose items are messages). \<open>content\<close> is what is in the channel; one request to \<open>put\<close> carries
  a list of items, one to \<open>get\<close> asks for at most \<open>amount\<close> many. Both may fail to return.
\<close>

locale fifo =
  fixes invar :: "'s \<Rightarrow> bool"
    and content :: "'s \<Rightarrow> 'a list"
    and items :: "'i \<Rightarrow> 'a list"
    and amount :: "'n \<Rightarrow> nat"
    and put :: "'i \<Rightarrow> 's \<Rightarrow> 's option"
    and get :: "'n \<Rightarrow> 's \<Rightarrow> ('a list \<times> 's) option"
  assumes put_appends: "invar s \<Longrightarrow> put x s = Some s' \<Longrightarrow> invar s' \<and> content s' = content s @ items x"
    and get_takes: "invar s \<Longrightarrow> get n s = Some (ys, s') \<Longrightarrow>
      invar s' \<and> ys = take (amount n) (content s) \<and> content s' = drop (amount n) (content s)"
begin

text \<open>
  Any interleaving of writers and readers, with other steps in between that leave the channel alone:
  what goes in and what comes out.
\<close>

inductive traffic :: "'s \<Rightarrow> 'a list \<Rightarrow> 'a list \<Rightarrow> 's \<Rightarrow> bool" where
  silent: "traffic s [] [] s"
| writer: "traffic s ins outs t \<Longrightarrow> put x t = Some u \<Longrightarrow> traffic s (ins @ items x) outs u"
| reader: "traffic s ins outs t \<Longrightarrow> get n t = Some (ys, u) \<Longrightarrow> traffic s ins (outs @ ys) u"
| elsewhere: "traffic s ins outs t \<Longrightarrow> invar u \<Longrightarrow> content u = content t \<Longrightarrow> traffic s ins outs u"

lemma traffic_stream:
  "traffic s ins outs t \<Longrightarrow> invar s \<Longrightarrow> invar t \<and> content s @ ins = outs @ content t"
proof (induction rule: traffic.induct)
  case (writer s ins outs t x u)
  then show ?case using put_appends [of t x u] by (metis append.assoc)
next
  case (reader s ins outs t n ys u)
  then show ?case using get_takes [of t n ys u] by (metis append.assoc append_take_drop_id)
qed auto

text \<open>Starting from an empty channel, the reader has seen a prefix of what was written.\<close>

lemma traffic_prefix:
  assumes "traffic s ins outs t" "invar s" "content s = []"
  shows "ins = outs @ content t"
  using traffic_stream [OF assms(1,2)] assms(3) by simp

end

end
