(* ===== verification/Kernel_Heap.thy ===== *)
theory Kernel_Heap
  imports Pipe Fifo_Spec
begin

text \<open>
  The objects on the kernel heap: every file handle, pipe, pipe array and mailbox lies at the start of a
  live block of its own. From the laws of the allocator it follows that a new object
  never replaces one in use, and that freeing an object returns.
\<close>

definition heap_has :: "memarea \<Rightarrow> u32 \<Rightarrow> bool" where
  "heap_has h a \<longleftrightarrow> (\<exists>n. (unat a, n) \<in> heap_live h)"

lemma kmalloc_has:
  assumes inv: "buddy_inv h" and m: "kmalloc n h = Some (a, h')"
  shows "buddy_inv h'" "\<not> heap_has h a" "heap_has h' x \<longleftrightarrow> x = a \<or> heap_has h x"
proof -
  from m have "kmalloc_nat n h = Some (unat a, h')" by (simp add: kmalloc_nat_def)
  from kheap.alloc_grants [OF inv this] obtain k where
    k: "0 < k" "buddy_inv h'" "heap_live h' = insert (unat a, k) (heap_live h)" "\<forall>r\<in>heap_live h. apart (unat a, k) r"
    by blast
  show "buddy_inv h'" by fact
  show "heap_has h' x \<longleftrightarrow> x = a \<or> heap_has h x" using k(3) by (auto simp: heap_has_def word_unat_eq_iff)
  show "\<not> heap_has h a"
  proof
    assume "heap_has h a"
    then obtain l where l: "(unat a, l) \<in> heap_live h" by (auto simp: heap_has_def)
    with k have "apart (unat a, k) (unat a, l)" by blast
    moreover have "0 < l" using l by (auto simp: heap_live_def)
    ultimately show False using apart_distinct_start [of "unat a" k l] k(1) by simp
  qed
qed

lemma heap_live_unique: "(p, k) \<in> heap_live h \<Longrightarrow> (p, l) \<in> heap_live h \<Longrightarrow> k = l"
  by (auto simp: heap_live_def used_blocks_iff)

lemma kfree_has:
  assumes inv: "buddy_inv h" and a: "heap_has h a"
  obtains h' where "kfree a h = Some h'" "buddy_inv h'" "\<And>x. heap_has h' x \<longleftrightarrow> x \<noteq> a \<and> heap_has h x"
proof -
  from a obtain n where n: "(unat a, n) \<in> heap_live h" by (auto simp: heap_has_def)
  from kheap.release_returns [OF inv n] obtain h' where
    h': "kfree_nat (unat a) h = Some h'" "buddy_inv h'" "heap_live h' = heap_live h - {(unat a, n)}" by blast
  have "heap_has h' x \<longleftrightarrow> x \<noteq> a \<and> heap_has h x" for x
  proof (cases "x = a")
    case True
    have "n' = n" if "(unat a, n') \<in> heap_live h" for n' by (rule heap_live_unique [OF that n])
    with True h'(3) show ?thesis by (auto simp: heap_has_def)
  next
    case False
    then show ?thesis using h'(3) by (auto simp: heap_has_def word_unat_eq_iff)
  qed
  with h' show thesis by (intro that) (auto simp: kfree_nat_def)
qed

subsection \<open>The objects\<close>

definition heap_objs :: "kernel \<Rightarrow> u32 set" where
  "heap_objs k = dom (k_handles k) \<union> dom (k_pipes k) \<union> dom (k_arrays k) \<union> dom (k_mailboxes k)"

definition heap_ok :: "kernel \<Rightarrow> bool" where
  "heap_ok k \<longleftrightarrow>
     buddy_inv (k_heap k) \<and> (\<forall>a\<in>heap_objs k. heap_has (k_heap k) a) \<and>
     dom (k_handles k) \<inter> dom (k_pipes k) = {} \<and> dom (k_handles k) \<inter> dom (k_arrays k) = {} \<and>
     dom (k_handles k) \<inter> dom (k_mailboxes k) = {} \<and> dom (k_pipes k) \<inter> dom (k_arrays k) = {} \<and>
     dom (k_pipes k) \<inter> dom (k_mailboxes k) = {} \<and> dom (k_arrays k) \<inter> dom (k_mailboxes k) = {}"

text \<open>The part of the state that \<open>heap_ok\<close> depends on.\<close>

lemma heap_ok_cong:
  assumes "k_heap k' = k_heap k" "dom (k_handles k') = dom (k_handles k)" "dom (k_pipes k') = dom (k_pipes k)"
    "dom (k_arrays k') = dom (k_arrays k)" "dom (k_mailboxes k') = dom (k_mailboxes k)"
  shows "heap_ok k' = heap_ok k"
  using assms by (simp add: heap_ok_def heap_objs_def)

lemma k_malloc_fresh:
  assumes "heap_ok k" and "k_malloc n k = Some (a, k')"
  obtains h where "kmalloc n (k_heap k) = Some (a, h)" "k' = k\<lparr>k_heap := h\<rparr>" "heap_ok k'" "heap_has h a"
    "a \<notin> heap_objs k" "\<not> heap_has (k_heap k) a" "\<And>x. heap_has h x \<longleftrightarrow> x = a \<or> heap_has (k_heap k) x"
proof -
  from assms(2) obtain h where h: "kmalloc n (k_heap k) = Some (a, h)" "k' = k\<lparr>k_heap := h\<rparr>"
    by (auto simp: k_malloc_def)
  have inv: "buddy_inv (k_heap k)" using assms(1) by (simp add: heap_ok_def)
  note H = kmalloc_has [OF inv h(1)]
  show thesis
  proof
    show "kmalloc n (k_heap k) = Some (a, h)" by fact
    show "k' = k\<lparr>k_heap := h\<rparr>" by fact
    show "heap_ok k'" using assms(1) H h(2) by (auto simp: heap_ok_def heap_objs_def)
    show "heap_has h a" using H(3) by simp
    show "a \<notin> heap_objs k" using assms(1) H(2) by (auto simp: heap_ok_def)
    show "\<not> heap_has (k_heap k) a" "heap_has h x \<longleftrightarrow> x = a \<or> heap_has (k_heap k) x" for x by (rule H)+
  qed
qed

text \<open>A typed object at a block that was just allocated.\<close>

lemma heap_ok_add:
  assumes "heap_ok k" "heap_has (k_heap k) a" "a \<notin> heap_objs k"
  shows "heap_ok (k\<lparr>k_handles := (k_handles k)(a \<mapsto> x)\<rparr>)" "heap_ok (k\<lparr>k_pipes := (k_pipes k)(a \<mapsto> y)\<rparr>)"
    "heap_ok (k\<lparr>k_arrays := (k_arrays k)(a \<mapsto> z)\<rparr>)" "heap_ok (k\<lparr>k_mailboxes := (k_mailboxes k)(a \<mapsto> u)\<rparr>)"
  using assms by (auto simp: heap_ok_def heap_objs_def)

text \<open>Freeing an object whose entry has been removed.\<close>

lemma k_free_returns:
  assumes "heap_ok k" "heap_has (k_heap k) a" "a \<notin> heap_objs k"
  obtains h where "k_free a k = Some (k\<lparr>k_heap := h\<rparr>)" "heap_ok (k\<lparr>k_heap := h\<rparr>)"
    "\<And>x. heap_has h x \<longleftrightarrow> x \<noteq> a \<and> heap_has (k_heap k) x"
proof -
  have "buddy_inv (k_heap k)" using assms(1) by (simp add: heap_ok_def)
  from kfree_has [OF this assms(2)] obtain h where
    h: "kfree a (k_heap k) = Some h" "buddy_inv h" "\<And>x. heap_has h x \<longleftrightarrow> x \<noteq> a \<and> heap_has (k_heap k) x" by blast
  have "heap_ok (k\<lparr>k_heap := h\<rparr>)" using assms(1,3) h(2,3) by (auto simp: heap_ok_def heap_objs_def)
  with h show thesis by (intro that [of h]) (simp_all add: k_free_def)
qed

lemma heap_ok_drop:
  assumes "heap_ok k"
  shows "heap_ok (k\<lparr>k_handles := (k_handles k)(a := None)\<rparr>)" "heap_ok (k\<lparr>k_pipes := (k_pipes k)(a := None)\<rparr>)"
    "heap_ok (k\<lparr>k_arrays := (k_arrays k)(a := None)\<rparr>)" "heap_ok (k\<lparr>k_mailboxes := (k_mailboxes k)(a := None)\<rparr>)"
  using assms by (auto simp: heap_ok_def heap_objs_def)

lemma free_array_returns:
  assumes ok: "heap_ok k" and a: "a \<in> dom (k_arrays k)"
  obtains h where "free_array a k = Some (k\<lparr>k_arrays := (k_arrays k)(a := None), k_heap := h\<rparr>)"
    "heap_ok (k\<lparr>k_arrays := (k_arrays k)(a := None), k_heap := h\<rparr>)"
    "\<And>x. heap_has h x \<longleftrightarrow> x \<noteq> a \<and> heap_has (k_heap k) x"
proof -
  let ?k = "k\<lparr>k_arrays := (k_arrays k)(a := None)\<rparr>"
  have "heap_has (k_heap ?k) a" "a \<notin> heap_objs ?k" using ok a by (auto simp: heap_ok_def heap_objs_def)
  from k_free_returns [OF heap_ok_drop(3) [OF ok] this] that show thesis by (auto simp: free_array_def)
qed

lemma free_pipe_returns:
  assumes ok: "heap_ok k" and a: "a \<in> dom (k_pipes k)"
  obtains h where "free_pipe a k = Some (k\<lparr>k_pipes := (k_pipes k)(a := None), k_heap := h\<rparr>)"
    "heap_ok (k\<lparr>k_pipes := (k_pipes k)(a := None), k_heap := h\<rparr>)"
    "\<And>x. heap_has h x \<longleftrightarrow> x \<noteq> a \<and> heap_has (k_heap k) x"
proof -
  let ?k = "k\<lparr>k_pipes := (k_pipes k)(a := None)\<rparr>"
  have "heap_has (k_heap ?k) a" "a \<notin> heap_objs ?k" using ok a by (auto simp: heap_ok_def heap_objs_def)
  from k_free_returns [OF heap_ok_drop(2) [OF ok] this] that show thesis by (auto simp: free_pipe_def)
qed

lemma free_handle_returns:
  assumes ok: "heap_ok k" and a: "a \<in> dom (k_handles k)"
  obtains h where "free_handle a k = Some (k\<lparr>k_handles := (k_handles k)(a := None), k_heap := h\<rparr>)"
    "heap_ok (k\<lparr>k_handles := (k_handles k)(a := None), k_heap := h\<rparr>)"
    "\<And>x. heap_has h x \<longleftrightarrow> x \<noteq> a \<and> heap_has (k_heap k) x"
proof -
  let ?k = "k\<lparr>k_handles := (k_handles k)(a := None)\<rparr>"
  have "heap_has (k_heap ?k) a" "a \<notin> heap_objs ?k" using ok a by (auto simp: heap_ok_def heap_objs_def)
  from k_free_returns [OF heap_ok_drop(1) [OF ok] this] that show thesis by (auto simp: free_handle_def)
qed

end
