(* ===== verification/Pipe_Props.thy ===== *)
theory Pipe_Props
  imports Kernel_Heap
begin

text \<open>
  Pipes are first-in first-out channels (the locale \<open>fifo\<close>): the invariant of the pipes, what writing
  and reading do on every branch, and the order of the bytes under any interleaving.
\<close>

subsection \<open>Reading back what was put into a buffer\<close>

lemma array_put_returns:
  assumes "at + length buf \<le> length arr"
  obtains arr' where "array_put arr at buf = Some arr'" "length arr' = length arr" "take (length buf) (drop at arr') = buf"
    "\<And>i n. i + n \<le> at \<or> at + length buf \<le> i \<Longrightarrow> take n (drop i arr') = take n (drop i arr)"
proof (rule that)
  let ?a = "take at arr @ buf @ drop (at + length buf) arr"
  show "array_put arr at buf = Some ?a" using assms by (simp add: array_put_def)
  show l: "length ?a = length arr" using assms by simp
  show "take (length buf) (drop at ?a) = buf" using assms by simp
  show "take n (drop i ?a) = take n (drop i arr)" if "i + n \<le> at \<or> at + length buf \<le> i" for i n
    using that
  proof
    assume i: "i + n \<le> at"
    then have "take n (drop i ?a) = take n (take (at - i) (drop i arr))" using assms by (simp add: drop_take)
    with i show ?thesis by (simp add: min_def)
  next
    assume "at + length buf \<le> i"
    then show ?thesis using assms by (simp add: min_def)
  qed
qed

subsection \<open>The invariant\<close>

definition pipe_wf :: "kernel \<Rightarrow> pipe_buffer \<Rightarrow> bool" where
  "pipe_wf k p \<longleftrightarrow>
     (\<exists>arr. k_arrays k (pb_data p) = Some arr \<and> length arr = unat (pb_alloc p)) \<and>
     pb_len p \<le> pb_alloc p \<and> 0 < pb_alloc p"

definition pipes_ok :: "kernel \<Rightarrow> bool" where
  "pipes_ok k \<longleftrightarrow>
     heap_ok k \<and> (\<forall>b p. k_pipes k b = Some p \<longrightarrow> pipe_wf k p) \<and>
     (\<forall>b b' p p'. k_pipes k b = Some p \<longrightarrow> k_pipes k b' = Some p' \<longrightarrow> pb_data p = pb_data p' \<longrightarrow> b = b')"

definition pipe_content :: "u32 \<Rightarrow> kernel \<Rightarrow> bytes" where
  "pipe_content b k =
     (case k_pipes k b of
        Some p \<Rightarrow> (case k_arrays k (pb_data p) of Some arr \<Rightarrow> take (unat (pb_len p)) arr | None \<Rightarrow> [])
      | None \<Rightarrow> [])"

lemma pipes_okD:
  assumes "pipes_ok k" "k_pipes k b = Some p"
  obtains arr where "heap_ok k" "k_arrays k (pb_data p) = Some arr" "length arr = unat (pb_alloc p)"
    "unat (pb_len p) \<le> length arr" "0 < pb_alloc p" "pipe_content b k = take (unat (pb_len p)) arr"
proof -
  from assms have "heap_ok k" "pipe_wf k p" by (auto simp: pipes_ok_def)
  with assms(2) show thesis
    by (auto simp: pipe_wf_def word_le_nat_alt pipe_content_def intro!: that)
qed

lemma pipes_ok_apart:
  assumes "pipes_ok k" "k_pipes k b = Some p" "k_pipes k c = Some q" "b \<noteq> c"
  shows "pb_data p \<noteq> pb_data q"
  using assms by (auto simp: pipes_ok_def)

lemma pipes_frame:
  assumes "k_heap k' = k_heap k" "k_handles k' = k_handles k" "k_pipes k' = k_pipes k" "k_arrays k' = k_arrays k"
    "k_mailboxes k' = k_mailboxes k"
  shows "pipes_ok k' = pipes_ok k" "pipe_content b k' = pipe_content b k"
  unfolding pipes_ok_def pipe_wf_def pipe_content_def assms using assms heap_ok_cong [of k' k] by simp_all

lemma pipes_only_sched:
  assumes "only_sched k k'"
  shows "pipes_ok k' = pipes_ok k" "pipe_content b k' = pipe_content b k"
  by (rule pipes_frame [OF only_schedD(2-6) [OF assms]])+

text \<open>An update of one pipe and its array in place.\<close>

definition put_pipe :: "u32 \<Rightarrow> pipe_buffer \<Rightarrow> bytes \<Rightarrow> kernel \<Rightarrow> kernel" where
  "put_pipe b p arr k =
     k\<lparr>k_arrays := (k_arrays k)(pb_data p \<mapsto> arr), k_pipes := (k_pipes k)(b \<mapsto> p)\<rparr>"

lemma put_pipe_ok:
  assumes ok: "pipes_ok k" and p: "k_pipes k b = Some p0" "pb_data p = pb_data p0" "length arr = unat (pb_alloc p)"
    "pb_len p \<le> pb_alloc p" "0 < pb_alloc p"
  shows "pipes_ok (put_pipe b p arr k)" "pipe_content b (put_pipe b p arr k) = take (unat (pb_len p)) arr"
    "c \<noteq> b \<Longrightarrow> pipe_content c (put_pipe b p arr k) = pipe_content c k"
proof -
  from pipes_okD [OF ok p(1)] obtain arr0 where
    h: "heap_ok k" "k_arrays k (pb_data p0) = Some arr0" by metis
  have "heap_ok (put_pipe b p arr k) = heap_ok k"
    by (rule heap_ok_cong) (use p h(2) in \<open>auto simp: put_pipe_def\<close>)
  moreover have "pipe_wf (put_pipe b p arr k) q" if "k_pipes (put_pipe b p arr k) c = Some q" for c q
  proof (cases "c = b")
    case True
    with that p show ?thesis by (auto simp: put_pipe_def pipe_wf_def)
  next
    case False
    with that have q: "k_pipes k c = Some q" by (simp add: put_pipe_def)
    with False pipes_ok_apart [OF ok p(1) q] p(2) ok show ?thesis by (auto simp: pipes_ok_def pipe_wf_def put_pipe_def)
  qed
  ultimately show "pipes_ok (put_pipe b p arr k)"
    using ok h(1) p(1,2) unfolding pipes_ok_def put_pipe_def by (auto split: if_splits)
  show "pipe_content b (put_pipe b p arr k) = take (unat (pb_len p)) arr"
    by (simp add: pipe_content_def put_pipe_def)
  show "pipe_content c (put_pipe b p arr k) = pipe_content c k" if "c \<noteq> b"
    using that pipes_ok_apart [OF ok p(1), of c] p(2)
    by (auto simp: pipe_content_def put_pipe_def split: option.splits)
qed

subsection \<open>Growing the array\<close>

lemma grow_alloc_le: "grow_alloc need alloc = Some n \<Longrightarrow> need \<le> n"
  by (erule grow_alloc.raw_induct [of "\<lambda>need alloc n. need \<le> n", rotated]) (auto split: if_splits)

lemma grow_alloc_total:
  assumes "0 < alloc" "unat alloc \<le> 2 * bound" "unat need \<le> bound" "bound \<le> 2147483648"
  obtains n where "grow_alloc need alloc = Some n" "unat n \<le> 2 * bound"
proof -
  have "\<exists>n. grow_alloc need alloc = Some n \<and> unat n \<le> 2 * bound"
    using assms
  proof (induction "4294967296 - unat alloc" arbitrary: alloc rule: less_induct)
    case less
    show ?case
    proof (cases "alloc < need")
      case True
      then have lt: "unat alloc < bound" using less.prems by (simp add: word_less_nat_alt)
      have d: "unat (alloc * 2) = 2 * unat alloc"
        using lt less.prems(4) unat_add_u32 [of alloc alloc] by (simp add: mult_2_right)
      have z: "0 < unat alloc" using less.prems(1) by (simp add: word_less_nat_alt)
      have "0 < alloc * 2" using d z by (simp add: word_less_nat_alt)
      from less.hyps [OF _ this] d z lt less.prems(3,4) True show ?thesis
        by (simp add: grow_alloc.simps [of need alloc])
    next
      case False
      then show ?thesis using less.prems by (simp add: grow_alloc.simps [of need alloc])
    qed
  qed
  with that show thesis by blast
qed

text \<open>
  The resizing step of \<open>write_to_pipe\<close>. \<open>k'\<close> differs from \<open>k\<close> in the heap, the array of this pipe and its
  fields \<open>alloc\<close> and \<open>data\<close>; the bytes in the pipe are the same.
\<close>

definition resized :: "u32 \<Rightarrow> pipe_buffer \<Rightarrow> kernel \<Rightarrow> pipe_buffer \<Rightarrow> kernel \<Rightarrow> bool" where
  "resized b p k p' k' \<longleftrightarrow>
     pipes_ok k' \<and> k_pipes k' b = Some p' \<and> (\<exists>a d. p' = p\<lparr>pb_alloc := a, pb_data := d\<rparr>) \<and>
     (\<forall>c. pipe_content c k' = pipe_content c k) \<and> dom (k_pipes k') = dom (k_pipes k) \<and>
     (\<forall>c. c \<noteq> b \<longrightarrow> k_pipes k' c = k_pipes k c) \<and>
     k' = k\<lparr>k_heap := k_heap k', k_pipes := k_pipes k', k_arrays := k_arrays k'\<rparr>"

lemma resize_grow:
  assumes ok: "pipes_ok k" and p: "k_pipes k b = Some p" and lt: "pb_alloc p < need"
    and g: "grow_alloc need (pb_alloc p) = Some n" and m: "k_malloc n k = Some (a, k1)"
  obtains k' p' where "resize_pipe b need k = Some k'" "resized b p k p' k'" "pb_alloc p' = n"
proof -
  from pipes_okD [OF ok p] obtain arr where
    arr: "heap_ok k" "k_arrays k (pb_data p) = Some arr" "length arr = unat (pb_alloc p)"
      "unat (pb_len p) \<le> length arr" "0 < pb_alloc p" by metis
  from k_malloc_fresh [OF arr(1) m] obtain h where
    h: "k1 = k\<lparr>k_heap := h\<rparr>" "heap_ok k1" "heap_has h a" "a \<notin> heap_objs k"
    and km: "kmalloc n (k_heap k) = Some (a, h)" by blast
  have nn: "unat (pb_alloc p) < unat n" using lt grow_alloc_le [OF g] by (simp add: word_less_nat_alt word_le_nat_alt)
  have ad: "a \<noteq> pb_data p" using h(4) arr(2) by (auto simp: heap_objs_def)
  let ?p1 = "p\<lparr>pb_alloc := n\<rparr>"
  let ?new = "take (unat (pb_len p)) arr @ replicate (unat n - unat (pb_len p)) 0"
  let ?k2 = "k1\<lparr>k_pipes := (k_pipes k)(b \<mapsto> ?p1), k_arrays := (k_arrays k)(a \<mapsto> ?new)\<rparr>"
  have "heap_ok (k1\<lparr>k_arrays := (k_arrays k1)(a \<mapsto> ?new)\<rparr>)"
    by (rule heap_ok_add(3) [OF h(2)]) (use h in \<open>auto simp: heap_objs_def\<close>)
  then have ok2: "heap_ok ?k2" using p h(1) by (subst heap_ok_cong) auto
  from free_array_returns [OF ok2, of "pb_data p"] arr(2) obtain h' where
    f: "free_array (pb_data p) ?k2 = Some (?k2\<lparr>k_arrays := (k_arrays ?k2)(pb_data p := None), k_heap := h'\<rparr>)"
      "heap_ok (?k2\<lparr>k_arrays := (k_arrays ?k2)(pb_data p := None), k_heap := h'\<rparr>)" by auto
  let ?k3 = "?k2\<lparr>k_arrays := (k_arrays ?k2)(pb_data p := None), k_heap := h'\<rparr>"
  let ?p' = "p\<lparr>pb_alloc := n, pb_data := a\<rparr>"
  let ?k' = "?k3\<lparr>k_pipes := (k_pipes k)(b \<mapsto> ?p')\<rparr>"
  have put: "array_put (replicate (unat n) 0) 0 (take (unat (pb_len p)) arr) = Some ?new"
    using arr nn by (simp add: array_put_def min_absorb2)
  have m': "k_malloc n (k\<lparr>k_pipes := (k_pipes k)(b \<mapsto> ?p1)\<rparr>) = Some (a, k1\<lparr>k_pipes := (k_pipes k)(b \<mapsto> ?p1)\<rparr>)"
    using km h(1) by (simp add: k_malloc_def)
  have "resize_pipe b need k = Some ?k'"
    using lt p g m' arr(2,4) put f(1) ad h(1) by (simp add: resize_pipe_def upd_pipe_def new_array_def fun_upd_twist)
  moreover have "resized b p k ?p' ?k'"
  proof -
    have hok: "heap_ok ?k'" using f(2) p by (subst heap_ok_cong [of ?k' ?k3]) auto
    have other: "k_pipes k c = Some q \<Longrightarrow> c \<noteq> b \<Longrightarrow> pb_data q \<noteq> pb_data p \<and> pb_data q \<noteq> a" for c q
      using pipes_ok_apart [OF ok p, of c q] pipes_okD [OF ok, of c q] h(4) by (auto simp: heap_objs_def)
    have wf: "pipe_wf ?k' q" if "k_pipes ?k' c = Some q" for c q
    proof (cases "c = b")
      case True
      with that nn arr ad show ?thesis by (auto simp: pipe_wf_def word_less_nat_alt word_le_nat_alt)
    next
      case False
      with that have q: "k_pipes k c = Some q" by simp
      with other [OF q False] ok show ?thesis by (auto simp: pipes_ok_def pipe_wf_def)
    qed
    have "pipe_content c ?k' = pipe_content c k" for c
      using p ad arr(2,4) other by (cases "c = b") (auto simp: pipe_content_def split: option.splits)
    moreover have "pipes_ok ?k'"
      unfolding pipes_ok_def using hok wf ok other by (auto simp: pipes_ok_def split: if_splits)
    ultimately show ?thesis using h(1) p by (auto simp: resized_def)
  qed
  ultimately show thesis by (intro that [of ?k' ?p']) auto
qed

definition heap_room :: "u32 \<Rightarrow> pipe_buffer \<Rightarrow> kernel \<Rightarrow> bool" where
  "heap_room need p k \<longleftrightarrow>
     need \<le> pb_alloc p \<or> (\<exists>n. grow_alloc need (pb_alloc p) = Some n \<and> kmalloc n (k_heap k) \<noteq> None)"

lemma resized_refl: "pipes_ok k \<Longrightarrow> k_pipes k b = Some p \<Longrightarrow> resized b p k p k"
  by (cases k; cases p) (auto simp: resized_def)

lemma resize_returns:
  assumes ok: "pipes_ok k" and p: "k_pipes k b = Some p" and room: "heap_room need p k"
  obtains k' p' where "resize_pipe b need k = Some k'" "resized b p k p' k'" "need \<le> pb_alloc p'"
proof (cases "need \<le> pb_alloc p")
  case True
  then have "\<not> pb_alloc p < need" by simp
  with p have "resize_pipe b need k = Some k" by (simp only: resize_pipe_def bind.simps if_False)
  with True resized_refl [OF ok p] show thesis by (intro that)
next
  case False
  with room obtain n a h where n: "grow_alloc need (pb_alloc p) = Some n" "kmalloc n (k_heap k) = Some (a, h)"
    by (auto simp: heap_room_def)
  then have "k_malloc n k = Some (a, k\<lparr>k_heap := h\<rparr>)" by (simp add: k_malloc_def)
  from resize_grow [OF ok p _ n(1) this] False grow_alloc_le [OF n(1)] show thesis by (metis that not_le)
qed

lemma resize_room:
  assumes "resize_pipe b need k = Some k'" "k_pipes k b = Some p"
  shows "heap_room need p k"
  using assms unfolding heap_room_def resize_pipe_def upd_pipe_def new_array_def k_malloc_def not_less [symmetric]
  by (auto simp: bind_eq_Some_conv split: if_splits)

text \<open>Writing, up to the wake-up of the reader.\<close>

lemma write_core:
  assumes r: "resize_pipe b (pb_len p + of_nat (length buf)) k = Some k1" "resized b p k p1 k1"
    and p: "k_pipes k b = Some p" and fits: "unat (pb_len p) + length buf \<le> unat (pb_alloc p1)"
  obtains k2 p2 where "write_to_pipe b buf k = wake_up_reader b k2" "pipes_ok k2"
    "pipe_content b k2 = pipe_content b k @ buf" "\<And>c. c \<noteq> b \<Longrightarrow> pipe_content c k2 = pipe_content c k"
    "k_pipes k2 b = Some p2" "pb_readpid p2 = pb_readpid p" "pb_reading p2 = pb_reading p" "pb_writing p2 = pb_writing p"
    "\<And>c. c \<noteq> b \<Longrightarrow> k_pipes k2 c = k_pipes k c"
    "k2 = k\<lparr>k_heap := k_heap k2, k_pipes := k_pipes k2, k_arrays := k_arrays k2\<rparr>" "pb_alloc p2 = pb_alloc p1"
proof -
  from r(2) obtain a d where q: "pipes_ok k1" "k_pipes k1 b = Some p1" "p1 = p\<lparr>pb_alloc := a, pb_data := d\<rparr>"
    "\<And>c. pipe_content c k1 = pipe_content c k" "\<And>c. c \<noteq> b \<Longrightarrow> k_pipes k1 c = k_pipes k c"
    "k1 = k\<lparr>k_heap := k_heap k1, k_pipes := k_pipes k1, k_arrays := k_arrays k1\<rparr>"
    unfolding resized_def by blast
  from pipes_okD [OF q(1,2)] obtain arr where
    arr: "k_arrays k1 (pb_data p1) = Some arr" "length arr = unat (pb_alloc p1)" "unat (pb_len p1) \<le> length arr"
      "0 < pb_alloc p1" "pipe_content b k1 = take (unat (pb_len p1)) arr" by metis
  have l: "pb_len p1 = pb_len p" using q(3) by simp
  have "unat (pb_len p) + length buf < 4294967296" using fits unat_lt_u32 [of "pb_alloc p1"] by linarith
  then have ln: "unat (pb_len p + of_nat (length buf)) = unat (pb_len p) + length buf" by (rule unat_add_of_nat_u32)
  let ?arr = "take (unat (pb_len p)) arr @ buf @ drop (unat (pb_len p) + length buf) arr"
  let ?p2 = "p1\<lparr>pb_len := pb_len p + of_nat (length buf)\<rparr>"
  let ?k2 = "put_pipe b ?p2 ?arr k1"
  have w: "write_to_pipe b buf k = wake_up_reader b ?k2"
    using p r(1) q(2) arr(1,2) fits l
    by (simp add: write_to_pipe_def array_put_def upd_pipe_def put_pipe_def)
  note P = put_pipe_ok [OF q(1,2), of ?p2 ?arr]
  show thesis
  proof (rule that [OF w, of ?p2])
    show "pipes_ok ?k2" by (rule P) (use arr fits ln in \<open>auto simp: word_le_nat_alt\<close>)
    have "pipe_content b ?k2 = take (unat (pb_len ?p2)) ?arr"
      by (rule P) (use arr fits ln in \<open>auto simp: word_le_nat_alt\<close>)
    then show "pipe_content b ?k2 = pipe_content b k @ buf" using ln arr(2,3,5) l q(4) by simp
    show "pipe_content c ?k2 = pipe_content c k" if "c \<noteq> b" for c
      using P(3) [OF _ _ _ _ that] arr fits ln q(4) by (auto simp: word_le_nat_alt)
    show "k_pipes ?k2 c = k_pipes k c" if "c \<noteq> b" for c using that q(5) by (simp add: put_pipe_def)
    show "?k2 = k\<lparr>k_heap := k_heap ?k2, k_pipes := k_pipes ?k2, k_arrays := k_arrays ?k2\<rparr>"
      using q(6) by (cases k; cases k1) (simp add: put_pipe_def)
  qed (use q(3) in \<open>auto simp: put_pipe_def\<close>)
qed

lemma write_no_room:
  assumes "resize_pipe b (pb_len p + of_nat (length buf)) k = Some k1" "resized b p k p1 k1"
    "k_pipes k b = Some p" "\<not> unat (pb_len p) + length buf \<le> unat (pb_alloc p1)"
  shows "write_to_pipe b buf k = None"
proof -
  from assms(2) have q: "pipes_ok k1" "k_pipes k1 b = Some p1" "pb_len p1 = pb_len p"
    by (auto simp: resized_def)
  from pipes_okD [OF q(1,2)] obtain arr where
    "k_arrays k1 (pb_data p1) = Some arr" "length arr = unat (pb_alloc p1)" by metis
  with q assms show ?thesis by (simp add: write_to_pipe_def array_put_def)
qed

subsection \<open>Waking up the reader\<close>

lemma pipe_flags:
  assumes ok: "pipes_ok k" and p: "k_pipes k b = Some p" "pb_data q = pb_data p" "pb_len q = pb_len p" "pb_alloc q = pb_alloc p"
  shows "pipes_ok (k\<lparr>k_pipes := (k_pipes k)(b \<mapsto> q)\<rparr>)" "pipe_content c (k\<lparr>k_pipes := (k_pipes k)(b \<mapsto> q)\<rparr>) = pipe_content c k"
proof -
  from pipes_okD [OF ok p(1)] obtain arr where
    arr: "k_arrays k (pb_data p) = Some arr" "length arr = unat (pb_alloc p)" "unat (pb_len p) \<le> length arr"
      "0 < pb_alloc p" "pipe_content b k = take (unat (pb_len p)) arr" by metis
  have e: "k\<lparr>k_pipes := (k_pipes k)(b \<mapsto> q)\<rparr> = put_pipe b q arr k"
    using p(2) arr(1) by (simp add: put_pipe_def fun_upd_idem)
  note P = put_pipe_ok [OF ok p(1,2)]
  show "pipes_ok (k\<lparr>k_pipes := (k_pipes k)(b \<mapsto> q)\<rparr>)"
    unfolding e by (rule P(1)) (use p arr in \<open>auto simp: word_le_nat_alt\<close>)
  show "pipe_content c (k\<lparr>k_pipes := (k_pipes k)(b \<mapsto> q)\<rparr>) = pipe_content c k"
    unfolding e using P(2,3) [of arr] p arr by (cases "c = b") (auto simp: word_le_nat_alt)
qed

lemma resume_only_sched: "resume_process i k = Some k' \<Longrightarrow> only_sched k k'"
  unfolding resume_process_def
  by (auto simp: bind_eq_Some_conv split: if_splits
      intro!: only_sched_trans [OF only_sched_trans [OF only_sched_upd only_sched_list_remove] only_sched_list_add])

lemma suspend_only_sched: "suspend_process i k = Some k' \<Longrightarrow> only_sched k k'"
  unfolding suspend_process_def
  by (auto simp: bind_eq_Some_conv split: if_splits
      intro!: only_sched_trans [OF only_sched_trans [OF only_sched_upd only_sched_list_remove] only_sched_list_add])

lemma wake_up_reader_pipes:
  assumes ok: "pipes_ok k" and w: "wake_up_reader b k = Some k'"
  shows "pipes_ok k'" "pipe_content c k' = pipe_content c k" "dom (k_pipes k') = dom (k_pipes k)"
    "k_handles k' = k_handles k"
proof -
  from w obtain p where p: "k_pipes k b = Some p" by (auto simp: wake_up_reader_def bind_eq_Some_conv)
  have "pipes_ok k' \<and> pipe_content c k' = pipe_content c k \<and> dom (k_pipes k') = dom (k_pipes k) \<and> k_handles k' = k_handles k"
  proof (cases "0 \<le> pb_readpid p")
    case True
    with w p obtain k1 where k1: "resume_process (pid_index (pb_readpid p)) k = Some k1"
      "upd_pipe b (\<lambda>p. p\<lparr>pb_readpid := - 1\<rparr>) k1 = Some k'" by (auto simp: wake_up_reader_def bind_eq_Some_conv)
    note o = resume_only_sched [OF k1(1)]
    have p1: "k_pipes k1 b = Some p" using only_schedD(4) [OF o] p by simp
    then have k': "k' = k1\<lparr>k_pipes := (k_pipes k1)(b \<mapsto> p\<lparr>pb_readpid := - 1\<rparr>)\<rparr>" using k1(2) by (simp add: upd_pipe_def)
    show ?thesis
      unfolding k' using pipe_flags [OF _ p1, of "p\<lparr>pb_readpid := - 1\<rparr>"] pipes_only_sched [OF o] ok p1 only_schedD [OF o] by auto
  next
    case False
    with w p have "k' = k" by (simp add: wake_up_reader_def)
    with ok show ?thesis by simp
  qed
  then show "pipes_ok k'" "pipe_content c k' = pipe_content c k" "dom (k_pipes k') = dom (k_pipes k)"
    "k_handles k' = k_handles k" by auto
qed

text \<open>A waiting reader is a suspended process.\<close>

definition reader_ok :: "pipe_buffer \<Rightarrow> nat list \<Rightarrow> bool" where
  "reader_ok p ss \<longleftrightarrow> pb_readpid p = - 1 \<or> (0 \<le> pb_readpid p \<and> pid_index (pb_readpid p) \<in> set ss)"

lemma wake_up_reader_returns:
  assumes s: "sched k rs ss" and p: "k_pipes k b = Some p" and r: "reader_ok p ss"
  obtains k' where "wake_up_reader b k = Some k'" "k_pipes k' b = Some (p\<lparr>pb_readpid := - 1\<rparr>)"
    "if pb_readpid p = - 1 then sched k' rs ss
     else sched k' (pid_index (pb_readpid p) # rs) (remove1 (pid_index (pb_readpid p)) ss)"
    "same_procs k k'" "\<exists>ps r s. k' = k\<lparr>k_procs := ps, k_ready := r, k_suspended := s, k_pipes := (k_pipes k)(b \<mapsto> p\<lparr>pb_readpid := - 1\<rparr>)\<rparr>"
proof (cases "pb_readpid p = - 1")
  case True
  have "\<exists>pv nx r. q = q\<lparr>pr_prev := pv, pr_next := nx, pr_ready := r\<rparr>" for q :: process by (cases q) simp
  then have sp: "same_procs k k" by (simp add: same_procs_def)
  have e: "p\<lparr>pb_readpid := - 1\<rparr> = p" using True by (cases p) simp
  then have "(k_pipes k)(b \<mapsto> p\<lparr>pb_readpid := - 1\<rparr>) = k_pipes k" using p by (simp add: fun_upd_idem)
  then have "k = k\<lparr>k_procs := k_procs k, k_ready := k_ready k, k_suspended := k_suspended k, k_pipes := (k_pipes k)(b \<mapsto> p\<lparr>pb_readpid := - 1\<rparr>)\<rparr>"
    by simp
  then have "\<exists>ps r s. k = k\<lparr>k_procs := ps, k_ready := r, k_suspended := s, k_pipes := (k_pipes k)(b \<mapsto> p\<lparr>pb_readpid := - 1\<rparr>)\<rparr>" by blast
  with True p s sp e show thesis by (intro that [of k]) (auto simp: wake_up_reader_def)
next
  case False
  with r have i: "0 \<le> pb_readpid p" "pid_index (pb_readpid p) \<in> set ss" by (auto simp: reader_ok_def)
  from resume_sched [OF s i(2)] obtain k1 where
    k1: "resume_process (pid_index (pb_readpid p)) k = Some k1"
      "sched k1 (pid_index (pb_readpid p) # rs) (remove1 (pid_index (pb_readpid p)) ss)" "only_sched k k1" "same_procs k k1" by blast
  have "k1 = k\<lparr>k_procs := k_procs k1, k_ready := k_ready k1, k_suspended := k_suspended k1\<rparr>" using k1(3) by (simp add: only_sched_def)
  then obtain ps r' s' where ps: "k1 = k\<lparr>k_procs := ps, k_ready := r', k_suspended := s'\<rparr>" by blast
  let ?k' = "k1\<lparr>k_pipes := (k_pipes k1)(b \<mapsto> p\<lparr>pb_readpid := - 1\<rparr>)\<rparr>"
  have "wake_up_reader b k = Some ?k'"
    using i(1) p k1(1) only_schedD(4) [OF k1(3)] by (simp add: wake_up_reader_def upd_pipe_def)
  moreover have "sched ?k' (pid_index (pb_readpid p) # rs) (remove1 (pid_index (pb_readpid p)) ss)"
    by (rule sched_frame [OF k1(2)]) (use k1(2) in \<open>auto simp: sched_def\<close>)
  moreover have "same_procs k ?k'" using k1(4) by (simp add: same_procs_def)
  moreover have "?k' = k\<lparr>k_procs := ps, k_ready := r', k_suspended := s', k_pipes := (k_pipes k)(b \<mapsto> p\<lparr>pb_readpid := - 1\<rparr>)\<rparr>"
    unfolding ps by simp
  then have "\<exists>ps r s. ?k' = k\<lparr>k_procs := ps, k_ready := r, k_suspended := s, k_pipes := (k_pipes k)(b \<mapsto> p\<lparr>pb_readpid := - 1\<rparr>)\<rparr>" by blast
  ultimately show thesis using False by (intro that [of ?k']) auto
qed

end
