(* ===== verification/Pipe_Chan.thy ===== *)
theory Pipe_Chan
  imports Pipe_Props
begin

text \<open>
  Reading and creating pipes, the interpretation of \<open>fifo\<close> on pipes, and the properties of pipes.
\<close>

subsection \<open>Reading\<close>

lemma pipe_take_spec:
  assumes ok: "pipes_ok k" and p: "k_pipes k b = Some p"
  obtains k' where "pipe_take b count k = Some (take (unat count) (pipe_content b k), k')" "pipes_ok k'"
    "pipe_content b k' = drop (unat count) (pipe_content b k)" "\<And>c. c \<noteq> b \<Longrightarrow> pipe_content c k' = pipe_content c k"
    "dom (k_pipes k') = dom (k_pipes k)" "k' = k\<lparr>k_pipes := k_pipes k', k_arrays := k_arrays k'\<rparr>"
proof -
  from pipes_okD [OF ok p] obtain arr where
    arr: "k_arrays k (pb_data p) = Some arr" "length arr = unat (pb_alloc p)" "unat (pb_len p) \<le> length arr"
      "0 < pb_alloc p" "pipe_content b k = take (unat (pb_len p)) arr" by metis
  define copy where "copy = (if count < pb_len p then count else pb_len p)"
  have cl: "copy \<le> pb_len p" by (simp add: copy_def less_imp_le)
  then have cn: "unat copy \<le> unat (pb_len p)" by (simp add: word_le_nat_alt)
  have mn: "unat copy = min (unat count) (unat (pb_len p))" by (auto simp: copy_def word_less_nat_alt)
  have sub: "unat (pb_len p - copy) = unat (pb_len p) - unat copy" using cl by (rule unat_sub)
  let ?rest = "take (unat (pb_len p - copy)) (drop (unat copy) arr)"
  let ?arr = "if copy < pb_len p then ?rest @ drop (length ?rest) arr else arr"
  let ?p = "p\<lparr>pb_len := pb_len p - copy\<rparr>"
  have rl: "min (length arr - unat copy) (unat (pb_len p - copy)) \<le> length arr" by linarith
  have "pipe_take b count k = Some (take (unat copy) arr, put_pipe b ?p ?arr k)"
    using p arr(1,3) rl by (simp add: pipe_take_def array_put_def upd_pipe_def put_pipe_def flip: copy_def)
  moreover have "take (unat copy) arr = take (unat count) (pipe_content b k)" by (simp add: arr(5) mn)
  moreover have la: "length ?arr = unat (pb_alloc p)" using arr(2,3) cn sub by simp
  have lp: "pb_len ?p \<le> pb_alloc ?p" using sub cn arr(2,3) by (simp add: word_le_nat_alt)
  note P = put_pipe_ok [OF ok p, of ?p ?arr]
  moreover have "pipe_content b (put_pipe b ?p ?arr k) = drop (unat count) (pipe_content b k)"
  proof -
    have "pipe_content b (put_pipe b ?p ?arr k) = take (unat (pb_len p) - unat copy) ?arr"
      by (subst P(2)) (use la lp arr(4) sub in auto)
    also have "\<dots> = drop (unat copy) (take (unat (pb_len p)) arr)"
      using arr(3) cn sub by (auto simp: drop_take word_less_nat_alt)
    finally show ?thesis by (auto simp: arr(5) mn min_def)
  qed
  ultimately show thesis
    by (intro that [of "put_pipe b ?p ?arr k"]) (use la lp arr(4) p in \<open>auto simp: put_pipe_def\<close>)
qed

lemma write_to_pipe_appends:
  assumes ok: "pipes_ok k" and w: "write_to_pipe b buf k = Some k'"
  shows "pipes_ok k' \<and> b \<in> dom (k_pipes k') \<and> pipe_content b k' = pipe_content b k @ buf \<and>
    (\<forall>c. c \<noteq> b \<longrightarrow> pipe_content c k' = pipe_content c k)"
proof -
  from w obtain p k1 where p: "k_pipes k b = Some p" and k1: "resize_pipe b (pb_len p + of_nat (length buf)) k = Some k1"
    by (auto simp: write_to_pipe_def Let_def bind_eq_Some_conv)
  from resize_returns [OF ok p resize_room [OF k1 p]] k1 obtain p1 where r: "resized b p k p1 k1" by auto
  have fits: "unat (pb_len p) + length buf \<le> unat (pb_alloc p1)" using write_no_room [OF k1 r p] w by fastforce
  from write_core [OF k1 r p fits] obtain k2 p2 where
    k2: "write_to_pipe b buf k = wake_up_reader b k2" "pipes_ok k2" "pipe_content b k2 = pipe_content b k @ buf"
      "\<And>c. c \<noteq> b \<Longrightarrow> pipe_content c k2 = pipe_content c k" "k_pipes k2 b = Some p2" by metis
  with wake_up_reader_pipes [OF k2(2), of b k'] w show ?thesis by auto
qed

interpretation pipe_chan: fifo "\<lambda>k. pipes_ok k \<and> b \<in> dom (k_pipes k)" "pipe_content b" "\<lambda>x. x" unat
    "write_to_pipe b" "pipe_take b" for b :: u32
proof (unfold_locales, goal_cases)
  case (1 s x s')
  then show ?case using write_to_pipe_appends by blast
next
  case (2 s n ys s')
  then obtain p where "k_pipes s b = Some p" by auto
  with 2 show ?case using pipe_take_spec [of s b p n] by (metis option.inject prod.inject)
qed

subsection \<open>New pipes and handles\<close>

definition fresh_pipe :: "u32 \<Rightarrow> pipe_buffer" where
  "fresh_pipe d =
     \<lparr>pb_reading = True, pb_writing = True, pb_alloc = of_nat BUFSIZE, pb_len = 0, pb_readpid = - 1, pb_data = d\<rparr>"

lemma new_pipe_ok:
  assumes ok: "pipes_ok k" and n: "new_pipe k = Some (b, k')"
  obtains d where "pipes_ok k'" "b \<notin> heap_objs k" "d \<notin> heap_objs k" "k_pipes k' = (k_pipes k)(b \<mapsto> fresh_pipe d)"
    "pipe_content b k' = []" "\<And>c. c \<noteq> b \<Longrightarrow> pipe_content c k' = pipe_content c k"
    "k' = k\<lparr>k_heap := k_heap k', k_pipes := k_pipes k', k_arrays := k_arrays k'\<rparr>"
proof -
  from n obtain k1 d k2 where k1: "k_malloc 24 k = Some (b, k1)" and k2: "k_malloc 1024 k1 = Some (d, k2)"
    and k': "k' = k2\<lparr>k_arrays := (k_arrays k2)(d \<mapsto> replicate 1024 0), k_pipes := (k_pipes k2)(b \<mapsto> fresh_pipe d)\<rparr>"
    by (auto simp: new_pipe_def new_array_def fresh_pipe_def bind_eq_Some_conv)
  have hok: "heap_ok k" using ok by (simp add: pipes_ok_def)
  from k_malloc_fresh [OF hok k1] obtain h1 where
    h1: "k1 = k\<lparr>k_heap := h1\<rparr>" "heap_ok k1" "heap_has h1 b" "b \<notin> heap_objs k" by metis
  from k_malloc_fresh [OF h1(2) k2] obtain h2 where
    h2: "k2 = k1\<lparr>k_heap := h2\<rparr>" "heap_ok k2" "heap_has h2 d" "d \<notin> heap_objs k1" "\<not> heap_has h1 d" "heap_has h2 b"
    using h1 by (metis (no_types, lifting) kernel.select_convs(2) kernel.surjective kernel.update_convs(2))
  have objs: "heap_objs k2 = heap_objs k" "heap_objs k1 = heap_objs k" using h1 h2 by (simp_all add: heap_objs_def)
  have bd: "b \<noteq> d" using h1(3) h2(5) by auto
  let ?k3 = "k2\<lparr>k_arrays := (k_arrays k2)(d \<mapsto> replicate 1024 0)\<rparr>"
  have a3: "heap_ok ?k3" by (rule heap_ok_add(3) [OF h2(2)]) (use h2 objs in auto)
  have "b \<notin> heap_objs ?k3" using h1(4) objs bd h1(1) h2(1) by (auto simp: heap_objs_def)
  then have "heap_ok (?k3\<lparr>k_pipes := (k_pipes ?k3)(b \<mapsto> fresh_pipe d)\<rparr>)"
    by (intro heap_ok_add(2) [OF a3]) (use h2 in auto)
  then have hk': "heap_ok k'" by (simp add: k')
  have f: "k_pipes k' = (k_pipes k)(b \<mapsto> fresh_pipe d)" "k_arrays k' = (k_arrays k)(d \<mapsto> replicate 1024 0)"
    using h1(1) h2(1) by (simp_all add: k')
  have "k_arrays k d = None" using h2(4) objs by (auto simp: heap_objs_def)
  then have nd: "pb_data q \<noteq> d" if "pipe_wf k q" for q using that by (auto simp: pipe_wf_def)
  have other: "pb_data q \<noteq> d \<and> pipe_wf k q" if "k_pipes k c = Some q" for c q
    using ok that nd by (auto simp: pipes_ok_def)
  have nb: "k_pipes k b = None" using h1(4) by (auto simp: heap_objs_def)
  show thesis
  proof (rule that [of d])
    show "pipes_ok k'" unfolding pipes_ok_def f using hk' ok other
      by (fastforce simp: pipes_ok_def pipe_wf_def f fresh_pipe_def split: if_splits)
    show "b \<notin> heap_objs k" "d \<notin> heap_objs k" using h1(4) h2(4) objs by auto
    show "pipe_content b k' = []" by (simp add: pipe_content_def f fresh_pipe_def)
    show "pipe_content c k' = pipe_content c k" if "c \<noteq> b" for c
      using that other by (auto simp: pipe_content_def f split: option.splits)
    show "k' = k\<lparr>k_heap := k_heap k', k_pipes := k_pipes k', k_arrays := k_arrays k'\<rparr>"
      using h1(1) h2(1) by (simp add: k')
  qed (use f in auto)
qed

lemma new_handle_ok:
  assumes ok: "pipes_ok k" and n: "new_handle fh k = Some (a, k')"
  obtains "pipes_ok k'" "a \<notin> heap_objs k" "k_handles k' = (k_handles k)(a \<mapsto> fh)"
    "\<And>c. pipe_content c k' = pipe_content c k" "k' = k\<lparr>k_heap := k_heap k', k_handles := k_handles k'\<rparr>"
proof -
  from n obtain k1 where k1: "k_malloc 36 k = Some (a, k1)" and k': "k' = k1\<lparr>k_handles := (k_handles k1)(a \<mapsto> fh)\<rparr>"
    by (auto simp: new_handle_def bind_eq_Some_conv)
  have hok: "heap_ok k" using ok by (simp add: pipes_ok_def)
  from k_malloc_fresh [OF hok k1] obtain h where
    h: "k1 = k\<lparr>k_heap := h\<rparr>" "heap_ok k1" "heap_has h a" "a \<notin> heap_objs k" by metis
  have "heap_ok k'" unfolding k' by (rule heap_ok_add(1) [OF h(2)]) (use h in \<open>auto simp: heap_objs_def\<close>)
  moreover have f: "k_pipes k' = k_pipes k" "k_arrays k' = k_arrays k" using h(1) by (simp_all add: k')
  ultimately have "pipes_ok k'" using ok by (simp add: pipes_ok_def pipe_wf_def)
  moreover have "pipe_content c k' = pipe_content c k" for c unfolding pipe_content_def f ..
  ultimately show thesis using h by (intro that) (auto simp: k')
qed

subsection \<open>A machine with a pipe, for the witnesses\<close>

text \<open>64 KB of heap at address 65536.\<close>

definition pipe_area :: memarea where
  "pipe_area = buddy_init 16 65536 (\<lambda>_. 0) (replicate 256 \<lparr>bi_sizem = 0, bi_used = False\<rparr>)"

definition pipe_machine :: kernel where
  "pipe_machine = two_procs\<lparr>k_heap := pipe_area\<rparr>"

lemma pipe_machine_ok: "pipes_ok pipe_machine" "sched pipe_machine [1] [2]" "k_current pipe_machine = Some 1"
proof -
  have "buddy_inv pipe_area"
    using buddy_init_inv(1) [of 16 "replicate 256 \<lparr>bi_sizem = 0, bi_used = False\<rparr>" 65536 "\<lambda>_. 0"] by (simp add: pipe_area_def)
  then show "pipes_ok pipe_machine"
    by (simp add: pipes_ok_def heap_ok_def heap_objs_def pipe_machine_def two_procs_def)
  show "sched pipe_machine [1] [2]"
    by (rule sched_frame [OF two_procs_sched]) (auto simp: pipe_machine_def two_procs_def)
  show "k_current pipe_machine = Some 1" by (simp add: pipe_machine_def two_procs_def)
qed

text \<open>Evaluation of \<open>kmalloc\<close> on a concrete area.\<close>

lemmas alloc_eval =
  kmalloc_def buddy_alloc_def find_cm.simps split_down.simps split_block_def take_block_def is_used_def
  get_sizem_def set_sizem_def set_used_def get_blk_def put_blk_def bix_def remove_from_freelist_def
  remove_loop.simps cell_read_def cell_write_def add_to_freelist_def EMPTY_def

lemma bind_weak_cong: "x = y \<Longrightarrow> Option.bind x f = Option.bind y f"
  by simp

lemma mforsize_eval:
  "mforsize ma 24 = Some (if ma_lower ma \<le> 5 then 5 else ma_lower ma)"
  "mforsize ma 36 = Some (if ma_lower ma \<le> 6 then 6 else ma_lower ma)"
  "mforsize ma 1024 = Some (if ma_lower ma \<le> 11 then 11 else ma_lower ma)"
  "mforsize ma 8288 = Some (if ma_lower ma \<le> 14 then 14 else ma_lower ma)"
  by (simp_all add: mforsize_def mforsize_loop.simps)

text \<open>The heap has room for a mailbox and a pipe with its two handles.\<close>

lemma pipe_area_room:
  "\<not> Option.is_none (do { (_, h) \<leftarrow> kmalloc 24 pipe_area; (_, h) \<leftarrow> kmalloc 1024 h; (_, h) \<leftarrow> kmalloc 36 h;
     (_, h) \<leftarrow> kmalloc 36 h; kmalloc 8288 h })"
  unfolding pipe_area_def buddy_init_def Let_def
  by (simp add: alloc_eval mforsize_eval cong: bind_weak_cong)

end
