(* ===== verification/Pipe_Claims.thy ===== *)
theory Pipe_Claims
  imports Pipe_Chan
begin

text \<open>
  What writing to and reading from a pipe do, on every branch, and the order of the bytes.
\<close>

subsection \<open>The machine of the witnesses\<close>

definition reader_handle :: "u32 \<Rightarrow> filehandle" where
  "reader_handle p =
     \<lparr>fh_kind = FH_PIPE_READER, fh_refcount = 1, fh_write = Pipe_reader_write, fh_read = Pipe_reader_read,
       fh_destroy = Pipe_reader_destroy, fh_p = p, fh_entry = 0, fh_pos = 0, fh_entryno = 0\<rparr>"

definition writer_handle :: "u32 \<Rightarrow> filehandle" where
  "writer_handle p =
     \<lparr>fh_kind = FH_PIPE_WRITER, fh_refcount = 1, fh_write = Pipe_writer_write, fh_read = Pipe_writer_read,
       fh_destroy = Pipe_writer_destroy, fh_p = p, fh_entry = 0, fh_pos = 0, fh_entryno = 0\<rparr>"

lemma pipe_machine_pipe:
  obtains b d rd wr k where "pipes_ok k" "k_pipes k = [b \<mapsto> fresh_pipe d]" "pipe_content b k = []"
    "k_handles k = [rd \<mapsto> reader_handle b, wr \<mapsto> writer_handle b]" "rd \<noteq> wr"
    "sched k [1] [2]" "k_current k = Some 1" "k_procs k = k_procs two_procs" "kmalloc 8288 (k_heap k) \<noteq> None"
    "k_mailboxes k = Map.empty" "k_mm k = k_mm two_procs" "k_paging k = None"
proof -
  from pipe_area_room obtain b h1 d h2 rd h3 wr h4 where
    m: "kmalloc 24 pipe_area = Some (b, h1)" "kmalloc 1024 h1 = Some (d, h2)" "kmalloc 36 h2 = Some (rd, h3)"
      "kmalloc 36 h3 = Some (wr, h4)" "kmalloc 8288 h4 \<noteq> None"
    by (auto simp: Option.is_none_def bind_eq_Some_conv)
  let ?k1 = "pipe_machine\<lparr>k_heap := h2, k_arrays := [d \<mapsto> replicate 1024 0], k_pipes := [b \<mapsto> fresh_pipe d]\<rparr>"
  let ?k2 = "?k1\<lparr>k_heap := h3, k_handles := [rd \<mapsto> reader_handle b]\<rparr>"
  let ?k3 = "?k2\<lparr>k_heap := h4, k_handles := [rd \<mapsto> reader_handle b, wr \<mapsto> writer_handle b]\<rparr>"
  have e: "k_heap pipe_machine = pipe_area" "k_arrays pipe_machine = Map.empty" "k_pipes pipe_machine = Map.empty"
    "k_handles pipe_machine = Map.empty" by (simp_all add: pipe_machine_def two_procs_def)
  have "new_pipe pipe_machine = Some (b, ?k1)"
    using m by (simp add: new_pipe_def new_array_def k_malloc_def e fresh_pipe_def)
  from new_pipe_ok [OF pipe_machine_ok(1) this] have p1: "pipes_ok ?k1" "pipe_content b ?k1 = []" by metis+
  have "new_handle (reader_handle b) ?k1 = Some (rd, ?k2)" using m by (simp add: new_handle_def k_malloc_def e)
  from new_handle_ok [OF p1(1) this] have p2: "pipes_ok ?k2" "pipe_content b ?k2 = []" using p1(2) by metis+
  have "new_handle (writer_handle b) ?k2 = Some (wr, ?k3)" using m by (simp add: new_handle_def k_malloc_def e)
  from new_handle_ok [OF p2(1) this] have p3: "pipes_ok ?k3" "pipe_content b ?k3 = []" "wr \<notin> heap_objs ?k2"
    using p2(2) by metis+
  show thesis
  proof (rule that [of ?k3 b d rd wr])
    show "rd \<noteq> wr" using p3(3) by (auto simp: heap_objs_def)
    show "sched ?k3 [1] [2]" by (rule sched_frame [OF pipe_machine_ok(2)]) (auto simp: pipe_machine_ok(3))
  qed (use m(5) p3 in \<open>auto simp: pipe_machine_def two_procs_def\<close>)
qed

subsection \<open>Writing\<close>

text \<open>
  C7: \<open>write_to_pipe\<close> returns if the data fits into the array of the pipe, or if the kernel heap can give an
  array of up to twice the size of the data (up to \<open>2^31\<close> bytes in the pipe). The bytes are then behind those already in the
  pipe, every other pipe is as before, the invariant of the pipes is kept, and a process that was
  blocked on the pipe is at the front of the ready list and no longer registered as its reader.
\<close>

theorem write_to_pipe_correct:
  assumes ok: "pipes_ok k" and p: "k_pipes k b = Some p" and s: "sched k rs ss" and rd: "reader_ok p ss"
    and room: "unat (pb_len p) + length buf \<le> unat (pb_alloc p) \<or>
      unat (pb_len p) + length buf \<le> 2147483648 \<and>
      (\<forall>n. unat n \<le> 2 * (unat (pb_len p) + length buf) \<longrightarrow> kmalloc n (k_heap k) \<noteq> None)"
  shows "\<exists>k' p'. write_to_pipe b buf k = Some k' \<and> pipes_ok k' \<and> pipe_content b k' = pipe_content b k @ buf \<and>
    (\<forall>c. c \<noteq> b \<longrightarrow> pipe_content c k' = pipe_content c k) \<and> k_pipes k' b = Some p' \<and> pb_readpid p' = - 1 \<and>
    (if pb_readpid p = - 1 then sched k' rs ss
     else sched k' (pid_index (pb_readpid p) # rs) (remove1 (pid_index (pb_readpid p)) ss))"
proof -
  let ?need = "pb_len p + of_nat (length buf)"
  have lt: "unat (pb_len p) + length buf < 4294967296" using room unat_lt_u32 [of "pb_alloc p"] by linarith
  then have nd: "unat ?need = unat (pb_len p) + length buf" by (rule unat_add_of_nat_u32)
  have "heap_room ?need p k"
  proof (cases "?need \<le> pb_alloc p")
    case False
    then have big: "unat (pb_alloc p) < unat (pb_len p) + length buf" by (simp add: word_le_nat_alt nd)
    with room have rm: "unat (pb_len p) + length buf \<le> 2147483648"
      "\<And>n. unat n \<le> 2 * (unat (pb_len p) + length buf) \<Longrightarrow> kmalloc n (k_heap k) \<noteq> None" by auto
    from pipes_okD [OF ok p] have "0 < pb_alloc p" by metis
    from grow_alloc_total [OF this, of "unat ?need" ?need] rm big nd obtain n where
      "grow_alloc ?need (pb_alloc p) = Some n" "unat n \<le> 2 * (unat (pb_len p) + length buf)" by auto
    with rm(2) show ?thesis unfolding heap_room_def by blast
  qed (simp add: heap_room_def)
  from resize_returns [OF ok p this] obtain k1 p1 where
    r: "resize_pipe b ?need k = Some k1" "resized b p k p1 k1" "?need \<le> pb_alloc p1" by blast
  have fits: "unat (pb_len p) + length buf \<le> unat (pb_alloc p1)" using r(3) nd by (simp add: word_le_nat_alt)
  from write_core [OF r(1,2) p fits] obtain k2 p2 where
    k2: "write_to_pipe b buf k = wake_up_reader b k2" "pipes_ok k2" "pipe_content b k2 = pipe_content b k @ buf"
      "\<And>c. c \<noteq> b \<Longrightarrow> pipe_content c k2 = pipe_content c k" "k_pipes k2 b = Some p2" "pb_readpid p2 = pb_readpid p"
      "k2 = k\<lparr>k_heap := k_heap k2, k_pipes := k_pipes k2, k_arrays := k_arrays k2\<rparr>" by metis
  define h ps as where "h = k_heap k2" and "ps = k_pipes k2" and "as = k_arrays k2"
  then have "k2 = k\<lparr>k_heap := h, k_pipes := ps, k_arrays := as\<rparr>" using k2(7) by simp
  then have s2: "sched k2 rs ss" by (intro sched_frame [OF s]) (use s in \<open>auto simp: sched_def\<close>)
  have "reader_ok p2 ss" using rd k2(6) by (simp add: reader_ok_def)
  from wake_up_reader_returns [OF s2 k2(5) this] obtain k' where
    k': "wake_up_reader b k2 = Some k'" "k_pipes k' b = Some (p2\<lparr>pb_readpid := - 1\<rparr>)"
      "if pb_readpid p2 = - 1 then sched k' rs ss
       else sched k' (pid_index (pb_readpid p2) # rs) (remove1 (pid_index (pb_readpid p2)) ss)" by blast
  note W = wake_up_reader_pipes [OF k2(2) k'(1)]
  show ?thesis
    by (intro exI [of _ k'] exI [of _ "p2\<lparr>pb_readpid := - 1\<rparr>"])
      (use k2(1,3,4) k'(1,2) k'(3) [unfolded k2(6)] W in simp)
qed

theorem write_to_pipe_correct_witness:
  "\<exists>k b k'. pipes_ok k \<and> write_to_pipe b [104, 105] k = Some k' \<and> pipe_content b k' = [104, 105]"
proof -
  obtain b d rd wr k where k: "pipes_ok k" "k_pipes k = [b \<mapsto> fresh_pipe d]" "pipe_content b k = []" "sched k [1] [2]"
    by (rule pipe_machine_pipe)
  have p: "k_pipes k b = Some (fresh_pipe d)" using k(2) by simp
  from write_to_pipe_correct [OF k(1) p k(4), of "[104, 105]"] k(1,3) show ?thesis
    by (auto simp: fresh_pipe_def reader_ok_def)
qed

subsection \<open>Reading\<close>

text \<open>
  C8: the read function of a pipe, on each of its branches. While another process is blocked on the pipe,
  the call fails with \<open>-EBADF\<close>. With data in the pipe it takes the first \<open>count\<close> bytes (or all there are), copies
  exactly these to the buffer of the caller and returns their number; the rest stays in order. Once the writing
  end is closed, an empty pipe reads as end of file. Otherwise the caller is registered as the reader and moves from the
  ready list to the suspended list, and no pipe changes its contents.
\<close>

theorem pipe_reader_read_correct:
  assumes ok: "pipes_ok k" and h: "k_handles k fh = Some h" and p: "k_pipes k (fh_p h) = Some p"
    and s: "sched k rs ss" and c: "k_current k = Some i" and i: "i \<in> set rs"
  shows "if pb_readpid p \<noteq> - 1 then pipe_reader_read fh buf count k = Some (- EBADF, k)
    else if pipe_content (fh_p h) k \<noteq> []
    then \<exists>k1. pipes_ok k1 \<and> pipe_content (fh_p h) k1 = drop (unat count) (pipe_content (fh_p h) k) \<and>
      (\<forall>c. c \<noteq> fh_p h \<longrightarrow> pipe_content c k1 = pipe_content c k) \<and>
      pipe_reader_read fh buf count k =
        map_option (\<lambda>k'. (int (length (take (unat count) (pipe_content (fh_p h) k))), k'))
          (vwrite buf (take (unat count) (pipe_content (fh_p h) k)) k1)
    else if \<not> pb_writing p then pipe_reader_read fh buf count k = Some (0, k)
    else \<exists>k'. pipe_reader_read fh buf count k = Some (- ESUSPEND, k') \<and> sched k' (remove1 i rs) (i # ss) \<and>
      k_pipes k' (fh_p h) = Some (p\<lparr>pb_readpid := int i\<rparr>) \<and> pipes_ok k' \<and>
      (\<forall>c. pipe_content c k' = pipe_content c k)"
proof -
  from pipes_okD [OF ok p] obtain arr where
    arr: "unat (pb_len p) \<le> length arr" "pipe_content (fh_p h) k = take (unat (pb_len p)) arr" by metis
  have ne: "pipe_content (fh_p h) k \<noteq> [] \<longleftrightarrow> 0 < pb_len p"
    using arr by (auto simp: word_less_nat_alt)
  note unf = pipe_reader_read_def h p
  consider (busy) "pb_readpid p \<noteq> - 1" | (data) "pb_readpid p = - 1" "0 < pb_len p"
    | (eof) "pb_readpid p = - 1" "\<not> 0 < pb_len p" "\<not> pb_writing p"
    | (block) "pb_readpid p = - 1" "\<not> 0 < pb_len p" "pb_writing p" by blast
  then show ?thesis
  proof cases
    case data
    from pipe_take_spec [OF ok p, of count] obtain k1 where
      t: "pipe_take (fh_p h) count k = Some (take (unat count) (pipe_content (fh_p h) k), k1)" "pipes_ok k1"
        "pipe_content (fh_p h) k1 = drop (unat count) (pipe_content (fh_p h) k)"
        "\<And>c. c \<noteq> fh_p h \<Longrightarrow> pipe_content c k1 = pipe_content c k" by metis
    have "pipe_reader_read fh buf count k =
      map_option (\<lambda>k'. (int (length (take (unat count) (pipe_content (fh_p h) k))), k'))
        (vwrite buf (take (unat count) (pipe_content (fh_p h) k)) k1)"
      using data t(1) by (simp add: unf map_conv_bind_option comp_def)
    with data t(2-4) show ?thesis unfolding ne by (simp only: simp_thms if_True if_False) blast
  next
    case block
    have pid: "pr_pid (k_procs k ! i) = int i" "i < length (k_procs k)"
      using s i by (auto simp: sched_def dlist_def live_proc_def)
    let ?p = "p\<lparr>pb_readpid := int i\<rparr>"
    let ?k1 = "k\<lparr>k_pipes := (k_pipes k)(fh_p h \<mapsto> ?p)\<rparr>"
    have s1: "sched ?k1 rs ss" by (rule sched_frame [OF s]) (use s in \<open>auto simp: sched_def\<close>)
    from suspend_sched [OF s1 i] obtain k' where
      k': "suspend_process i ?k1 = Some k'" "sched k' (remove1 i rs) (i # ss)" "only_sched ?k1 k'" by blast
    have "pipe_reader_read fh buf count k = Some (- ESUSPEND, k')"
      using block k'(1) c pid by (simp add: unf current_process_def get_proc_def upd_pipe_def)
    moreover have "pipes_ok ?k1" "pipe_content c ?k1 = pipe_content c k" for c
      by (rule pipe_flags [OF ok p]; simp)+
    ultimately show ?thesis
      unfolding ne using block k'(2) pipes_only_sched [OF k'(3)] only_schedD(4) [OF k'(3)] by simp
  qed (simp_all add: ne unf)
qed

theorem pipe_reader_read_correct_witness:
  "\<exists>k fh k' p. pipes_ok k \<and> pipe_reader_read fh 0 5 k = Some (- ESUSPEND, k') \<and> sched k' [] [1, 2]"
proof -
  obtain b d rd wr k where k: "pipes_ok k" "k_pipes k = [b \<mapsto> fresh_pipe d]" "pipe_content b k = []" "sched k [1] [2]"
    "k_handles k = [rd \<mapsto> reader_handle b, wr \<mapsto> writer_handle b]" "rd \<noteq> wr" "k_current k = Some 1"
    by (rule pipe_machine_pipe)
  have h: "k_handles k rd = Some (reader_handle b)" using k(5,6) by simp
  have p: "k_pipes k (fh_p (reader_handle b)) = Some (fresh_pipe d)" using k(2) by (simp add: reader_handle_def)
  from pipe_reader_read_correct [OF k(1) h p k(4,7), of 0 5] k(1,3) show ?thesis
    by (auto simp: fresh_pipe_def reader_handle_def)
qed

subsection \<open>The order of the bytes\<close>

text \<open>
  C9: a pipe delivers the bytes in the order in which they were written: over any interleaving of writes, reads and
  other activity of the kernel that leaves the pipe alone, starting with an empty pipe, what the
  readers got followed by what is still in the pipe is exactly what the writers wrote. Nothing is lost,
  duplicated or reordered.
\<close>

theorem pipe_stream:
  assumes "pipe_chan.traffic b k written got k'" and "pipes_ok k" "b \<in> dom (k_pipes k)" "pipe_content b k = []"
  shows "written = got @ pipe_content b k' \<and> pipes_ok k'"
  using pipe_chan.traffic_prefix [OF assms(1)] pipe_chan.traffic_stream [OF assms(1)] assms(2-4) by simp

theorem pipe_stream_witness:
  "\<exists>k b k'. pipe_chan.traffic b k [104, 105] [104] k' \<and> [104, 105] = [104] @ pipe_content b k' \<and> pipes_ok k'"
proof -
  obtain b d rd wr k where k: "pipes_ok k" "k_pipes k = [b \<mapsto> fresh_pipe d]" "pipe_content b k = []" "sched k [1] [2]"
    by (rule pipe_machine_pipe)
  have p: "k_pipes k b = Some (fresh_pipe d)" using k(2) by simp
  have fits: "unat (pb_len (fresh_pipe d)) + length [104, 105::u8] \<le> unat (pb_alloc (fresh_pipe d))"
    by (simp add: fresh_pipe_def)
  have "heap_room (pb_len (fresh_pipe d) + of_nat (length [104, 105::u8])) (fresh_pipe d) k"
    by (simp add: heap_room_def fresh_pipe_def)
  from resize_returns [OF k(1) p this] obtain k1 p1 where
    r: "resize_pipe b (pb_len (fresh_pipe d) + of_nat (length [104, 105::u8])) k = Some k1" "resized b (fresh_pipe d) k p1 k1"
      "pb_len (fresh_pipe d) + of_nat (length [104, 105::u8]) \<le> pb_alloc p1" by blast
  have "unat (pb_len (fresh_pipe d)) + length [104, 105::u8] \<le> unat (pb_alloc p1)"
    using r(3) by (simp add: fresh_pipe_def word_le_nat_alt)
  from write_core [OF r(1,2) p this] obtain k2 p2 where
    "write_to_pipe b [104, 105] k = wake_up_reader b k2" "pipes_ok k2" "pipe_content b k2 = pipe_content b k @ [104, 105]"
      "k_pipes k2 b = Some p2" "pb_readpid p2 = pb_readpid (fresh_pipe d)" by metis
  then have k2: "write_to_pipe b [104, 105] k = wake_up_reader b k2" "pipes_ok k2" "pipe_content b k2 = [104, 105]"
      "k_pipes k2 b = Some p2" "pb_readpid p2 = - 1" using k(3) by (simp_all add: fresh_pipe_def)
  then have w: "write_to_pipe b [104, 105] k = Some k2" by (simp add: wake_up_reader_def)
  from pipe_take_spec [OF k2(2,4), of 1] obtain k3 where "pipe_take b 1 k2 = Some (take (unat (1::u32)) (pipe_content b k2), k3)"
    by metis
  then have t: "pipe_take b 1 k2 = Some ([104], k3)" using k2(3) by simp
  have "pipe_chan.traffic b k ([] @ [104, 105]) ([] @ [104]) k3"
    by (rule pipe_chan.traffic.reader [OF pipe_chan.traffic.writer [OF pipe_chan.traffic.silent w] t])
  with pipe_stream [of b k "[104, 105]" "[104]" k3] k(1,3) p show ?thesis by auto
qed

end
