(* ===== verification/Sched_Props.thy ===== *)
theory Sched_Props
  imports Interrupts
begin

text \<open>
  The scheduler: \<open>context_switch\<close> picks the ready processes in turn (round robin), saves and restores their
  registers and page directories, and idles when nothing is ready.
\<close>

subsection \<open>The order of the ready list\<close>

definition first_of :: "nat list \<Rightarrow> nat option" where
  "first_of rs = (if rs = [] then None else Some (hd rs))"

text \<open>The process behind \<open>i\<close> in the ready list, or the first one.\<close>

definition next_ready :: "nat list \<Rightarrow> nat option \<Rightarrow> nat option" where
  "next_ready rs c =
     (case c of
        Some i \<Rightarrow> (case dropWhile (\<lambda>x. x \<noteq> i) rs of x # y # zs \<Rightarrow> Some y | _ \<Rightarrow> first_of rs)
      | None \<Rightarrow> first_of rs)"

lemma dropWhile_nth:
  assumes "distinct rs" "n < length rs"
  shows "dropWhile (\<lambda>x. x \<noteq> rs ! n) rs = drop n rs"
proof -
  have "dropWhile (\<lambda>x. x \<noteq> rs ! n) (take n rs @ rs ! n # drop (Suc n) rs) = rs ! n # drop (Suc n) rs"
    using assms by (subst dropWhile_append2) (auto simp: in_set_conv_nth nth_eq_iff_index_eq)
  with assms(2) show ?thesis by (simp add: id_take_nth_drop [symmetric] Cons_nth_drop_Suc)
qed

lemma next_ready_nth:
  assumes "distinct rs" "n < length rs"
  shows "next_ready rs (Some (rs ! n)) = Some (rs ! (Suc n mod length rs))"
proof (cases "Suc n < length rs")
  case True
  then have "drop n rs = rs ! n # rs ! Suc n # drop (Suc (Suc n)) rs"
    using assms(2) by (simp add: Cons_nth_drop_Suc)
  with True assms show ?thesis by (simp add: next_ready_def dropWhile_nth)
next
  case False
  with assms(2) have n: "Suc n = length rs" by simp
  then have "drop n rs = [rs ! n]" using assms(2) Cons_nth_drop_Suc [of n rs] by simp
  then have "next_ready rs (Some (rs ! n)) = first_of rs" by (simp add: next_ready_def dropWhile_nth assms)
  moreover have "first_of rs = Some (rs ! 0)" using assms(2) by (cases rs) (auto simp: first_of_def)
  ultimately show ?thesis using n by simp
qed

lemma next_ready_other: "i \<notin> set rs \<Longrightarrow> next_ready rs (Some i) = first_of rs"
proof -
  assume "i \<notin> set rs"
  then have "dropWhile (\<lambda>x. x \<noteq> i) rs = []" by auto
  then show ?thesis unfolding next_ready_def by (simp only: option.simps list.simps)
qed

lemma next_ready_in: "rs \<noteq> [] \<Longrightarrow> distinct rs \<Longrightarrow> \<exists>j\<in>set rs. next_ready rs c = Some j"
proof -
  assume a: "rs \<noteq> []" "distinct rs"
  show ?thesis
  proof (cases "\<exists>i\<in>set rs. c = Some i")
    case True
    then obtain n where "n < length rs" "c = Some (rs ! n)" by (auto simp: in_set_conv_nth)
    with a next_ready_nth [of rs n] show ?thesis by auto
  next
    case False
    then have "next_ready rs c = first_of rs" by (cases c) (auto simp: next_ready_other, simp add: next_ready_def)
    with a show ?thesis by (auto simp: first_of_def)
  qed
qed

subsection \<open>The choice of \<open>context_switch\<close>\<close>

lemma links_next:
  "links pv nx p xs e \<Longrightarrow> n < length xs \<Longrightarrow> nx (xs ! n) = (if Suc n < length xs then Some (xs ! Suc n) else e)"
proof (induction xs arbitrary: n p)
  case (Cons x xs)
  then show ?case by (cases n; cases xs) auto
qed simp

lemma dlist_next:
  assumes "dlist ps l xs" "n < length xs"
  shows "pr_next (ps ! (xs ! n)) = (if Suc n < length xs then Some (xs ! Suc n) else None)"
  using assms links_next [of "\<lambda>i. pr_prev (ps ! i)" "\<lambda>i. pr_next (ps ! i)" None xs None n] by (simp add: dlist_def)

lemma sched_first: "sched k rs ss \<Longrightarrow> pl_first (k_ready k) = first_of rs"
  by (simp add: sched_def dlist_def first_of_def)

lemma choose_next_sched:
  assumes s: "sched k rs ss"
  shows "choose_next k = next_ready rs (k_current k)"
proof (cases "k_current k")
  case None
  then show ?thesis using sched_first [OF s] by (simp add: choose_next_def current_process_def next_ready_def)
next
  case (Some i)
  then have i: "i \<in> set rs \<union> set ss" using s by (auto simp: sched_def)
  then have lt: "i < length (k_procs k)" using s by (auto simp: sched_def dlist_def)
  have c: "current_process k = Some (i, k_procs k ! i)" using Some lt by (simp add: current_process_def get_proc_def)
  have len: "i < MAX_PROCESSES" using s lt by (simp add: sched_def)
  show ?thesis
  proof (cases "i \<in> set rs")
    case True
    then obtain n where n: "n < length rs" "i = rs ! n" by (auto simp: in_set_conv_nth)
    have d: "dlist (k_procs k) (k_ready k) rs" "distinct rs" using s by (auto simp: sched_def dlist_def)
    have "pr_ready (k_procs k ! i)" using s True len by (auto simp: sched_def)
    moreover have "pr_next (k_procs k ! i) = (if Suc n < length rs then Some (rs ! Suc n) else None)"
      unfolding n(2) by (rule dlist_next [OF d(1) n(1)])
    moreover have "\<not> Suc n < length rs \<Longrightarrow> first_of rs = Some (rs ! (Suc n mod length rs))"
      using n(1) by (cases rs) (auto simp: first_of_def less_Suc_eq)
    ultimately show ?thesis
      using c sched_first [OF s] next_ready_nth [OF d(2) n(1)] Some n(2) by (auto simp: choose_next_def)
  next
    case False
    then have "\<not> pr_ready (k_procs k ! i)" using s i len by (auto simp: sched_def)
    then show ?thesis using c sched_first [OF s] Some next_ready_other [OF False] by (simp add: choose_next_def)
  qed
qed

subsection \<open>Switching\<close>

definition save_regs :: "regs \<Rightarrow> kernel \<Rightarrow> kernel" where
  "save_regs r k =
     (case k_current k of Some i \<Rightarrow> upd_proc i (\<lambda>p. p\<lparr>pr_saved_regs := r\<rparr>) k | None \<Rightarrow> k)"

lemma save_regs_sched: "sched k rs ss \<Longrightarrow> sched (save_regs r k) rs ss"
  by (cases "k_current k") (auto simp: save_regs_def same_links_def intro: sched_update)

lemma save_regs_fields [simp]: "k_current (save_regs r k) = k_current k" "k_layout (save_regs r k) = k_layout k"
  "length (k_procs (save_regs r k)) = length (k_procs k)"
  by (auto simp: save_regs_def split: option.splits)

lemma save_regs_nth:
  "j < length (k_procs k) \<Longrightarrow>
    k_procs (save_regs r k) ! j = (if k_current k = Some j then (k_procs k ! j)\<lparr>pr_saved_regs := r\<rparr> else k_procs k ! j)"
  by (auto simp: save_regs_def nth_upd_proc split: option.splits)

lemma switch_process_eq:
  assumes s: "sched k rs ss"
  shows "switch_process r k =
    (case next_ready rs (k_current k) of
       Some j \<Rightarrow> Some (pr_in_syscall (k_procs k ! j) \<noteq> 0,
                       if k_current k = Some j then r else pr_saved_regs (k_procs k ! j),
                       (save_regs r k)\<lparr>k_current := Some j, k_paging := Some (pr_pdir (k_procs k ! j))\<rparr>)
     | None \<Rightarrow> Some (False, init_regs (ly_idle_stack (k_layout k) + IDLE_STACK_SIZE) (ly_idle (k_layout k)),
                       (save_regs r k)\<lparr>k_current := None\<rparr>))"
proof -
  have c: "choose_next (save_regs r k) = next_ready rs (k_current k)"
    using choose_next_sched [OF save_regs_sched [OF s, of r]] by simp
  have d: "distinct rs" using s by (simp add: sched_def dlist_def)
  show ?thesis
  proof (cases "next_ready rs (k_current k)")
    case None
    then show ?thesis unfolding switch_process_def save_regs_def [symmetric] Let_def using c by simp
  next
    case (Some j)
    have "rs \<noteq> []"
    proof
      assume "rs = []"
      then show False using Some by (cases "k_current k") (auto simp: next_ready_def first_of_def)
    qed
    with Some next_ready_in [OF _ d, of "k_current k"] have "j \<in> set rs" by auto
    then have "j < length (k_procs k)" using s by (auto simp: sched_def dlist_def)
    then show ?thesis
      unfolding switch_process_def save_regs_def [symmetric] Let_def
      using c Some by (auto simp: get_proc_def save_regs_nth enable_paging_def)
  qed
qed

text \<open>Nobody is inside a system call: the switch does not run one.\<close>

definition no_calls :: "kernel \<Rightarrow> nat list \<Rightarrow> bool" where
  "no_calls k rs \<longleftrightarrow> (\<forall>j\<in>set rs. pr_in_syscall (k_procs k ! j) = 0)"

lemma save_regs_only: "save_regs r k = k\<lparr>k_procs := k_procs (save_regs r k)\<rparr>"
  by (cases "k_current k") (simp_all add: save_regs_def upd_proc_def)

lemma context_switch_to:
  assumes s: "sched k rs ss" and j: "next_ready rs (k_current k) = Some j" "j \<in> set rs"
    and k': "k' = (save_regs r k)\<lparr>k_current := Some j, k_paging := Some (pr_pdir (k_procs k ! j))\<rparr>"
  shows "context_switch r k = (if pr_in_syscall (k_procs k ! j) = 0 then Some (if k_current k = Some j then r else pr_saved_regs (k_procs k ! j), k')
      else syscall (if k_current k = Some j then r else pr_saved_regs (k_procs k ! j)) k')"
    and "k' = k\<lparr>k_procs := k_procs k', k_current := Some j, k_paging := Some (pr_pdir (k_procs k ! j))\<rparr>"
    and "sched k' rs ss" "i < MAX_PROCESSES \<Longrightarrow> k_procs k' ! i =
      (if k_current k = Some i then (k_procs k ! i)\<lparr>pr_saved_regs := r\<rparr> else k_procs k ! i)"
proof -
  have "switch_process r k = Some (pr_in_syscall (k_procs k ! j) \<noteq> 0, if k_current k = Some j then r else pr_saved_regs (k_procs k ! j), k')"
    unfolding switch_process_eq [OF s] j(1) k' by simp
  then show "context_switch r k = (if pr_in_syscall (k_procs k ! j) = 0 then Some (if k_current k = Some j then r else pr_saved_regs (k_procs k ! j), k')
      else syscall (if k_current k = Some j then r else pr_saved_regs (k_procs k ! j)) k')"
    by (subst context_switch.simps) (cases "pr_in_syscall (k_procs k ! j) = 0"; simp only: bind.simps prod.case if_False if_True simp_thms syscall_def)
  have len: "length (k_procs k) = MAX_PROCESSES" using s by (simp add: sched_def)
  show "i < MAX_PROCESSES \<Longrightarrow> k_procs k' ! i =
      (if k_current k = Some i then (k_procs k ! i)\<lparr>pr_saved_regs := r\<rparr> else k_procs k ! i)"
    using save_regs_nth [of i k r] len by (simp add: k')
  show "sched k' rs ss"
    by (rule sched_frame [OF save_regs_sched [OF s, of r]]) (use j(2) in \<open>auto simp: k'\<close>)
  show "k' = k\<lparr>k_procs := k_procs k', k_current := Some j, k_paging := Some (pr_pdir (k_procs k ! j))\<rparr>"
    unfolding k' by (subst save_regs_only) simp
qed

lemma context_switch_plain:
  assumes s: "sched k rs ss" and n: "no_calls k rs" and j: "next_ready rs (k_current k) = Some j" "j \<in> set rs"
    and k': "k' = (save_regs r k)\<lparr>k_current := Some j, k_paging := Some (pr_pdir (k_procs k ! j))\<rparr>"
  shows "context_switch r k = Some (if k_current k = Some j then r else pr_saved_regs (k_procs k ! j), k')"
    and "sched k' rs ss" "no_calls k' rs" "i < MAX_PROCESSES \<Longrightarrow> k_procs k' ! i =
      (if k_current k = Some i then (k_procs k ! i)\<lparr>pr_saved_regs := r\<rparr> else k_procs k ! i)"
proof -
  note T = context_switch_to [OF s j k']
  have "pr_in_syscall (k_procs k ! j) = 0" using n j(2) by (simp add: no_calls_def)
  then show "context_switch r k = Some (if k_current k = Some j then r else pr_saved_regs (k_procs k ! j), k')" using T(1) by simp
  show "sched k' rs ss" by (rule T(3))
  show f: "i < MAX_PROCESSES \<Longrightarrow> k_procs k' ! i =
      (if k_current k = Some i then (k_procs k ! i)\<lparr>pr_saved_regs := r\<rparr> else k_procs k ! i)" for i by (rule T(4))
  have "\<forall>x\<in>set rs. x < MAX_PROCESSES" using sched_lt [OF s] by blast
  with n f show "no_calls k' rs" unfolding no_calls_def by simp
qed



subsection \<open>Round robin\<close>

text \<open>A sequence of timer interrupts. The list holds the registers of the running process at each of them, anything.\<close>

fun run_ticks :: "regs list \<Rightarrow> kernel \<Rightarrow> kernel option" where
  "run_ticks [] k = Some k"
| "run_ticks (r # rest) k = do { (_, k) \<leftarrow> timer_handler r k; run_ticks rest k }"

lemma run_ticks_rotate:
  assumes "sched k rs ss" "no_calls k rs" "i < length rs" "k_current k = Some (rs ! i)"
  shows "\<exists>k'. run_ticks rl k = Some k' \<and> sched k' rs ss \<and> k_current k' = Some (rs ! ((i + length rl) mod length rs))"
  using assms
proof (induction rl arbitrary: k i)
  case (Cons r rl)
  let ?k = "k\<lparr>k_timer_ticks := k_timer_ticks k + 1\<rparr>"
  let ?i = "Suc i mod length rs"
  have s: "sched ?k rs ss" by (rule sched_frame [OF Cons.prems(1)]) (use Cons.prems(1) in \<open>auto simp: sched_def\<close>)
  have n: "no_calls ?k rs" using Cons.prems(2) by (simp add: no_calls_def)
  have i: "?i < length rs" using Cons.prems(3) by (intro mod_less_divisor) linarith
  have "distinct rs" using s by (simp add: sched_def dlist_def)
  from next_ready_nth [OF this Cons.prems(3)] Cons.prems(4)
  have nx: "next_ready rs (k_current ?k) = Some (rs ! ?i)" by simp
  have "rs ! ?i \<in> set rs" using i by simp
  note P = context_switch_plain [OF s n nx this refl, where r = r]
  have "(?i + length rl) mod length rs = (i + length (r # rl)) mod length rs" by (simp add: mod_add_left_eq)
  with Cons.IH [OF P(2,3) i] P(1) show ?case by (simp add: timer_handler_def)
qed auto

text \<open>
  C15: round-robin fairness. As long as the ready list stays as it is and no process makes system calls, every process in the ready list
  is the running one after at most as many timer interrupts as there are ready processes, whatever the processes do with their
  registers in between.
\<close>

theorem round_robin_fair:
  assumes s: "sched k rs ss" and n: "\<forall>j\<in>set rs. pr_in_syscall (k_procs k ! j) = 0"
    and c: "k_current k = Some i" "i \<in> set rs" and j: "j \<in> set rs"
  shows "\<exists>m\<le>length rs. 0 < m \<and> (\<forall>rl. length rl = m \<longrightarrow> (\<exists>k'. run_ticks rl k = Some k' \<and> k_current k' = Some j \<and> sched k' rs ss))"
proof -
  let ?n = "length rs"
  from c(2) j obtain a b where a: "a < ?n" "i = rs ! a" and b: "b < ?n" "j = rs ! b" by (auto simp: in_set_conv_nth)
  let ?m = "if a < b then b - a else b + ?n - a"
  have m: "(a + ?m) mod ?n = b" using a(1) b(1) by (auto simp: mod_if)
  have nc: "no_calls k rs" using n by (simp add: no_calls_def)
  have "\<exists>k'. run_ticks rl k = Some k' \<and> k_current k' = Some j \<and> sched k' rs ss" if "length rl = ?m" for rl
    using run_ticks_rotate [OF s nc a(1), of rl] c(1) a(2) b(2) m that by auto
  moreover have "0 < ?m" "?m \<le> ?n" using a(1) b(1) by auto
  ultimately show ?thesis by blast
qed

theorem round_robin_fair_witness:
  "\<exists>m\<le>1. 0 < m \<and> (\<forall>rl. length rl = m \<longrightarrow> (\<exists>k'. run_ticks rl two_procs = Some k' \<and> k_current k' = Some 1 \<and> sched k' [1] [2]))"
proof -
  have "\<forall>j\<in>set [1]. pr_in_syscall (k_procs two_procs ! j) = 0" "k_current two_procs = Some 1"
    by (simp_all add: two_procs_def proc_of_def zero_process_def)
  from round_robin_fair [OF two_procs_sched this, of 1] show ?thesis by simp
qed

end
