(* ===== verification/Syscall_Props.thy ===== *)
theory Syscall_Props
  imports Sched_Props
begin

text \<open>
  The checks on the pointers of a process and the convention for results and \<open>errno\<close>.
\<close>

subsection \<open>Pointers\<close>

definition segments :: "process \<Rightarrow> (u32 \<times> u32) list" where
  "segments p =
     [(pr_stack_start p, pr_stack_end p), (pr_data_start p, pr_data_end p), (pr_text_start p, pr_text_end p)]"

lemma no_wrap:
  "\<not> a + sz < a \<longleftrightarrow> unat (a::u32) + unat sz < 4294967296"
proof (cases "unat a + unat sz < 4294967296")
  case True
  then show ?thesis using unat_add_u32 [of a sz] by (simp add: word_less_nat_alt)
next
  case False
  have lt: "unat a < 4294967296" "unat sz < 4294967296" by (rule unat_lt_u32)+
  have "unat (a + sz) = (unat a + unat sz) mod 4294967296" by (simp add: unat_word_ariths)
  also have "\<dots> = (unat a + unat sz - 4294967296) mod 4294967296" using False by (intro le_mod_geq) linarith
  also have "\<dots> = unat a + unat sz - 4294967296" using lt by (intro mod_less) linarith
  finally have "unat (a + sz) = unat a + unat sz - 4294967296" .
  with False lt(2) have "unat (a + sz) < unat a" by linarith
  with False show ?thesis by (simp add: word_less_nat_alt)
qed

lemma valid_pointer_iff:
  "valid_pointer p a sz \<longleftrightarrow>
     sz = 0 \<or> (\<exists>(s, e)\<in>set (segments p). unat s \<le> unat a \<and> unat a + unat sz \<le> unat e)"
proof (cases "a + sz < a")
  case True
  then have "\<not> unat a + unat sz < 4294967296" using no_wrap by blast
  then have "\<not> unat a + unat sz \<le> unat e" for e :: u32 using unat_lt_u32 [of e] by linarith
  with True show ?thesis by (auto simp: valid_pointer_def Let_def)
next
  case False
  then have "unat (a + sz) = unat a + unat sz" using no_wrap unat_add_u32 by blast
  with False show ?thesis
    by (auto simp: valid_pointer_def Let_def within_def segments_def word_le_nat_alt)
qed

text \<open>
  C19: \<open>valid_pointer\<close> accepts exactly the empty ranges and the ranges of addresses that lie completely inside one
  of the three segments of the process, as numbers: a range that wraps around the end of the address space
  is never accepted.
\<close>

theorem valid_pointer_correct:
  "valid_pointer p a sz \<longleftrightarrow>
     {unat a ..< unat a + unat sz} = {} \<or>
     (\<exists>(s, e)\<in>set (segments p). {unat a ..< unat a + unat sz} \<subseteq> {unat s ..< unat e})"
proof -
  have "{unat a ..< unat a + unat sz} \<subseteq> {unat s ..< unat e} \<longleftrightarrow> unat s \<le> unat a \<and> unat a + unat sz \<le> unat e"
    if "sz \<noteq> 0" for s e :: u32
    using that by (auto simp: atLeastLessThan_subset_iff unat_eq_zero [symmetric] simp del: unat_eq_zero)
  then show ?thesis unfolding valid_pointer_iff by (cases "sz = 0") (auto simp: unat_eq_zero)
qed

lemma valid_pointer_shorter:
  "valid_pointer p a sz \<Longrightarrow> unat sz' \<le> unat sz \<Longrightarrow> valid_pointer p a sz'"
  unfolding valid_pointer_iff by (auto simp: unat_eq_zero [symmetric] simp del: unat_eq_zero) force+

subsection \<open>Strings\<close>

text \<open>The byte at offset \<open>n\<close> of a valid range of more than \<open>n\<close> bytes can be read, and the segments end below the last page.\<close>

definition readable :: "process \<Rightarrow> kernel \<Rightarrow> bool" where
  "readable p k \<longleftrightarrow>
     (\<forall>a sz. valid_pointer p a sz \<longrightarrow> sz \<noteq> 0 \<longrightarrow> vload (a + sz - 1) k \<noteq> None) \<and>
     (\<forall>(s, e)\<in>set (segments p). e \<le> 0xFFFFF000)"

lemma valid_pointer_bound:
  assumes "readable p k" "valid_pointer p a sz"
  shows "unat sz \<le> 4294963200"
proof (cases "sz = 0")
  case False
  with assms(2) obtain s e where "(s, e) \<in> set (segments p)" "unat a + unat sz \<le> unat e"
    by (auto simp: valid_pointer_iff)
  moreover from this assms(1) have "e \<le> 0xFFFFF000" by (auto simp: readable_def)
  ultimately show ?thesis by (simp add: word_le_nat_alt)
qed simp

definition string_at :: "process \<Rightarrow> u32 \<Rightarrow> u32 \<Rightarrow> kernel \<Rightarrow> bool" where
  "string_at p str len k \<longleftrightarrow>
     (\<exists>s. vstring (str + len) k = Some s \<and> unat len + length s < 4294967296 \<and> valid_pointer p str (len + of_nat (length s)))"

lemma string_at_end:
  assumes "\<not> valid_pointer p str (len + 1)"
  shows "\<not> string_at p str len k"
proof
  assume "string_at p str len k"
  then obtain s where s: "vstring (str + len) k = Some s" "unat len + length s < 4294967296"
    "valid_pointer p str (len + of_nat (length s))" by (auto simp: string_at_def)
  have "s \<noteq> []" using s(1) by (subst (asm) vstring.simps) (auto simp: bind_eq_Some_conv split: if_splits)
  then have "Suc 0 \<le> length s" by (cases s) auto
  then have "unat (len + 1) \<le> unat (len + of_nat (length s))"
    using s(2) unat_add_of_nat_u32 [of len "length s"] unat_add_of_nat_u32 [of len 1] by simp
  from valid_pointer_shorter [OF s(3) this] assms show False by simp
qed

lemma string_at_step:
  assumes "vload (str + len) k = Some c" "c \<noteq> 0" "unat len < 4294967295"
  shows "string_at p str len k \<longleftrightarrow> string_at p str (len + 1) k"
proof -
  have l: "unat (len + 1) = Suc (unat len)" using assms(3) unat_add_of_nat_u32 [of len 1] by simp
  have "vstring (str + len) k = map_option ((#) c) (vstring (str + (len + 1)) k)"
    using assms by (subst vstring.simps) (auto simp: map_conv_bind_option comp_def add.assoc)
  then show ?thesis unfolding string_at_def using l by (auto simp: add.assoc)
qed

lemma valid_string_loop_correct:
  assumes r: "readable p k" and l: "unat len \<le> 4294963200"
  shows "valid_string_loop p str len k = Some (string_at p str len k)"
  using l
proof (induction "4294967296 - unat len" arbitrary: len rule: less_induct)
  case less
  have l: "unat (len + 1) = Suc (unat len)" using less.prems unat_add_of_nat_u32 [of len 1] by simp
  show ?case
  proof (cases "valid_pointer p str (len + 1)")
    case False
    then show ?thesis using string_at_end by (subst valid_string_loop.simps) simp
  next
    case True
    have nz: "len + 1 \<noteq> 0" using l by (metis unat_0 nat.simps(3))
    with r True have "vload (str + (len + 1) - 1) k \<noteq> None" unfolding readable_def by blast
    then obtain c where c: "vload (str + len) k = Some c" by (auto simp: algebra_simps)
    show ?thesis
    proof (cases "c = 0")
      case True
      have "vstring (str + len) k = Some [0]" using c True by (subst vstring.simps) simp
      then have "string_at p str len k" using \<open>valid_pointer p str (len + 1)\<close> less.prems by (auto simp: string_at_def)
      with True c \<open>valid_pointer p str (len + 1)\<close> show ?thesis by (subst valid_string_loop.simps) simp
    next
      case False
      have "unat (len + 1) \<le> 4294963200" by (rule valid_pointer_bound [OF r True])
      from less.hyps [OF _ this] l less.prems have "valid_string_loop p str (len + 1) k = Some (string_at p str (len + 1) k)"
        by linarith
      with False c True string_at_step [OF c False] less.prems show ?thesis by (subst valid_string_loop.simps) simp
    qed
  qed
qed

text \<open>
  C20: \<open>valid_string\<close> terminates on every pointer, provided the segments of the process are mapped and end below the last page of the
  address space. It accepts exactly the addresses of strings that lie, with their
  terminating zero, completely inside one segment; so the kernel can read such a string to its end without leaving the memory of the process.
\<close>

theorem valid_string_correct:
  assumes "readable p k"
  shows "\<exists>b. valid_string p str k = Some b \<and>
    (b \<longleftrightarrow> (\<exists>s. vstring str k = Some s \<and> length s < 4294967296 \<and> valid_pointer p str (of_nat (length s))))"
  using valid_string_loop_correct [OF assms, of 0 str] by (simp add: valid_string_def string_at_def)

theorem valid_string_correct_witness:
  "\<exists>p. readable p two_procs \<and> valid_string p PROCESS_TEXT_BASE two_procs = Some True"
proof -
  define p where "p = zero_process\<lparr>pr_text_start := PROCESS_TEXT_BASE, pr_text_end := PROCESS_TEXT_BASE + PAGE_SIZE\<rparr>"
  have v: "vload a two_procs = Some 0" for a
    by (simp add: vload_def translate_def two_procs_def mm_init_def)
  have r: "readable p two_procs" unfolding readable_def v by (simp add: segments_def p_def zero_process_def)
  have "vstring PROCESS_TEXT_BASE two_procs = Some [0]" by (subst vstring.simps) (simp add: v)
  moreover have "valid_pointer p PROCESS_TEXT_BASE (of_nat (length [0::u8]))"
    by (simp add: valid_pointer_def Let_def within_def p_def zero_process_def)
  ultimately have "\<exists>s. vstring PROCESS_TEXT_BASE two_procs = Some s \<and> length s < 4294967296 \<and>
      valid_pointer p PROCESS_TEXT_BASE (of_nat (length s))" by (intro exI [of _ "[0]"]) simp
  moreover obtain b where "valid_string p PROCESS_TEXT_BASE two_procs = Some b"
    "b \<longleftrightarrow> (\<exists>s. vstring PROCESS_TEXT_BASE two_procs = Some s \<and> length s < 4294967296 \<and>
      valid_pointer p PROCESS_TEXT_BASE (of_nat (length s)))"
    using valid_string_correct [OF r, of PROCESS_TEXT_BASE] by blast
  ultimately have "valid_string p PROCESS_TEXT_BASE two_procs = Some True" by (simp only:)
  with r show ?thesis by (intro exI conjI)
qed

subsection \<open>Results and errno\<close>

text \<open>
  C21: the convention for results. When the handler of a system call other than \<open>geterrno\<close> has returned \<open>res\<close> and the process
  is still the current one, the call is over and the process sees \<open>res\<close>, or -1 for an error; \<open>geterrno\<close> then gives
  the number of the error, or 0 after a call that succeeded.
\<close>

theorem errno_convention:
  assumes c: "current_process k = Some (i, p)" and n: "r_eax r \<noteq> SYSCALL_GETERRNO"
    and d: "dispatch (r_eax r) r (upd_proc i (\<lambda>p. p\<lparr>pr_in_syscall := r_eax r\<rparr>) k) = Some (res, r', k1)"
    and k1: "k_current k1 = Some i" "i < length (k_procs k1)" and res: "res \<noteq> - ESUSPEND"
  shows "\<exists>k2. syscall r k = Some (r'\<lparr>r_eax := of_int (if res < 0 then - 1 else res)\<rparr>, k2) \<and>
    pr_in_syscall (k_procs k2 ! i) = 0 \<and> k_current k2 = Some i \<and>
    syscall_geterrno k2 = Some (if res < 0 then - res else 0, k2)"
proof -
  let ?e = "if res < 0 then - res else 0"
  let ?k2 = "upd_proc i (\<lambda>p. p\<lparr>pr_in_syscall := 0\<rparr>) (upd_proc i (\<lambda>p. p\<lparr>pr_last_errno := ?e\<rparr>) k1)"
  have "record_errno (r_eax r) res k1 =
    (if res < 0 then - 1 else res, upd_proc i (\<lambda>p. p\<lparr>pr_last_errno := ?e\<rparr>) k1)"
    using k1(1) n res by (simp add: record_errno_def)
  with c d k1(1) res have "syscall_step r k = Some (False, r'\<lparr>r_eax := of_int (if res < 0 then - 1 else res)\<rparr>, ?k2)"
    by (simp add: syscall_step_def)
  then have "syscall r k = Some (r'\<lparr>r_eax := of_int (if res < 0 then - 1 else res)\<rparr>, ?k2)"
    by (simp add: syscall_def)
  moreover have "k_procs ?k2 ! i = (k_procs k1 ! i)\<lparr>pr_last_errno := ?e, pr_in_syscall := 0\<rparr>"
    using k1(2) by (simp add: nth_upd_proc)
  ultimately show ?thesis
    using k1 by (intro exI [of _ ?k2]) (simp add: syscall_geterrno_def current_process_def get_proc_def)
qed

theorem errno_convention_witness:
  "\<exists>k2. syscall ((init_regs 0 0)\<lparr>r_eax := SYSCALL_GETPID\<rparr>) two_procs = Some ((init_regs 0 0)\<lparr>r_eax := 1\<rparr>, k2) \<and>
     syscall_geterrno k2 = Some (0, k2)"
proof -
  let ?r = "(init_regs 0 0)\<lparr>r_eax := SYSCALL_GETPID\<rparr>"
  let ?k1 = "upd_proc 1 (\<lambda>p. p\<lparr>pr_in_syscall := r_eax ?r\<rparr>) two_procs"
  have f: "k_current two_procs = Some 1" "length (k_procs two_procs) = 32" "pr_pid (k_procs two_procs ! 1) = 1"
    by (simp_all add: two_procs_def proc_of_def)
  then have "dispatch (r_eax ?r) ?r ?k1 = Some (1, ?r, ?k1)"
    by (simp add: dispatch_def call_handler_def syscall_getpid_def current_process_def get_proc_def nth_upd_proc)
  with errno_convention [of two_procs 1 "k_procs two_procs ! 1" ?r 1 ?r ?k1] f show ?thesis
    by (auto simp: current_process_def get_proc_def)
qed

end
