(* ===== verification/Mail_Props.thy ===== *)
theory Mail_Props
  imports Pipe_Claims Syscall_Props
begin

text \<open>
  Messages between processes: mailboxes are bounded first-in first-out channels (the locale \<open>fifo\<close>), and
  \<open>send\<close> and \<open>receive\<close> on every branch.
\<close>

subsection \<open>The invariant\<close>

text \<open>What a receiver can rely on of a message: sender, tag and as many bytes as were sent.\<close>

definition view :: "message \<Rightarrow> int \<times> u32 \<times> bytes" where
  "view m = (msg_from m, msg_tag m, take (unat (msg_size m)) (msg_data m))"

definition mail_wf :: "kernel \<Rightarrow> process \<Rightarrow> bool" where
  "mail_wf k p \<longleftrightarrow>
     (case pr_mailbox p of
        None \<Rightarrow> pr_mailbox_size p = 0
      | Some m \<Rightarrow> \<exists>arr. k_mailboxes k m = Some arr \<and> length arr = 8 \<and> pr_mailbox_alloc p = 8 \<and>
          pr_mailbox_size p \<le> 8 \<and> (\<forall>x\<in>set arr. length (msg_data x) = 1024))"

definition lives :: "nat \<Rightarrow> kernel \<Rightarrow> bool" where
  "lives i k \<longleftrightarrow> i < length (k_procs k) \<and> live_proc (k_procs k ! i)"

definition mail_ok :: "kernel \<Rightarrow> bool" where
  "mail_ok k \<longleftrightarrow>
     heap_ok k \<and> (\<forall>i. lives i k \<longrightarrow> mail_wf k (k_procs k ! i)) \<and>
     (\<forall>i j m. lives i k \<longrightarrow> lives j k \<longrightarrow> pr_mailbox (k_procs k ! i) = Some m \<longrightarrow>
        pr_mailbox (k_procs k ! j) = Some m \<longrightarrow> i = j)"

definition mail :: "nat \<Rightarrow> kernel \<Rightarrow> (int \<times> u32 \<times> bytes) list" where
  "mail i k =
     (case pr_mailbox (k_procs k ! i) of
        None \<Rightarrow> []
      | Some m \<Rightarrow>
          (case k_mailboxes k m of
             Some arr \<Rightarrow> map view (take (pr_mailbox_size (k_procs k ! i)) arr)
           | None \<Rightarrow> []))"

lemma mail_frame:
  assumes "k_heap k' = k_heap k" "k_handles k' = k_handles k" "k_pipes k' = k_pipes k" "k_arrays k' = k_arrays k"
    "k_mailboxes k' = k_mailboxes k" "length (k_procs k') = length (k_procs k)"
    "\<And>i. i < length (k_procs k) \<Longrightarrow> live_proc (k_procs k' ! i) = live_proc (k_procs k ! i) \<and>
       pr_mailbox (k_procs k' ! i) = pr_mailbox (k_procs k ! i) \<and>
       pr_mailbox_size (k_procs k' ! i) = pr_mailbox_size (k_procs k ! i) \<and>
       pr_mailbox_alloc (k_procs k' ! i) = pr_mailbox_alloc (k_procs k ! i)"
  shows "mail_ok k' = mail_ok k" "i < length (k_procs k) \<Longrightarrow> mail i k' = mail i k"
proof -
  have l: "lives i k' = lives i k" for i using assms(6,7) by (auto simp: lives_def)
  have w: "mail_wf k' (k_procs k' ! i) = mail_wf k (k_procs k ! i)" if "i < length (k_procs k)" for i
    unfolding mail_wf_def assms(5) using assms(7) [OF that] by (simp split: option.splits)
  have h: "heap_ok k' = heap_ok k" using assms by (intro heap_ok_cong) auto
  show "mail_ok k' = mail_ok k"
    unfolding mail_ok_def l h using w assms(7) by (fastforce simp: lives_def)
  show "mail i k' = mail i k" if "i < length (k_procs k)"
    unfolding mail_def assms(5) using assms(7) [OF that] by (simp split: option.splits)
qed

lemma mail_heap [simp]:
  "mail_wf (k\<lparr>k_heap := h\<rparr>) p = mail_wf k p" "lives i (k\<lparr>k_heap := h\<rparr>) = lives i k" "mail i (k\<lparr>k_heap := h\<rparr>) = mail i k"
  by (simp_all add: mail_wf_def lives_def mail_def split: option.splits)

text \<open>The mailbox of one process replaced.\<close>

definition set_mail :: "nat \<Rightarrow> u32 \<Rightarrow> nat \<Rightarrow> message list \<Rightarrow> kernel \<Rightarrow> kernel" where
  "set_mail j m n arr k =
     upd_proc j (\<lambda>p. p\<lparr>pr_mailbox_alloc := 8, pr_mailbox_size := n, pr_mailbox := Some m\<rparr>)
       (k\<lparr>k_mailboxes := (k_mailboxes k)(m \<mapsto> arr)\<rparr>)"

lemma set_mail_nth:
  "i < length (k_procs k) \<Longrightarrow> k_procs (set_mail j m n arr k) ! i =
    (if i = j then (k_procs k ! j)\<lparr>pr_mailbox_alloc := 8, pr_mailbox_size := n, pr_mailbox := Some m\<rparr> else k_procs k ! i)"
  unfolding set_mail_def by (subst nth_upd_proc) auto

lemma set_mail_ok:
  assumes ok: "mail_ok k" and j: "lives j k" and h: "heap_ok (k\<lparr>k_mailboxes := (k_mailboxes k)(m \<mapsto> arr)\<rparr>)"
    and own: "\<forall>i. lives i k \<longrightarrow> i \<noteq> j \<longrightarrow> pr_mailbox (k_procs k ! i) \<noteq> Some m"
    and arr: "length arr = 8" "n \<le> 8" "\<forall>x\<in>set arr. length (msg_data x) = 1024"
  shows "mail_ok (set_mail j m n arr k)" "mail j (set_mail j m n arr k) = map view (take n arr)"
    "lives i (set_mail j m n arr k) = lives i k"
    "lives i k \<Longrightarrow> i \<noteq> j \<Longrightarrow> mail i (set_mail j m n arr k) = mail i k"
proof -
  let ?k = "set_mail j m n arr k"
  have f: "k_mailboxes ?k = (k_mailboxes k)(m \<mapsto> arr)" "length (k_procs ?k) = length (k_procs k)"
    by (simp_all add: set_mail_def)
  have jl: "j < length (k_procs k)" using j by (simp add: lives_def)
  show l: "lives i ?k = lives i k" for i
    using f(2) set_mail_nth [of i k j m n arr] by (cases "i = j") (auto simp: lives_def live_proc_def)
  have "heap_ok ?k = heap_ok (k\<lparr>k_mailboxes := (k_mailboxes k)(m \<mapsto> arr)\<rparr>)"
    by (rule heap_ok_cong) (auto simp: set_mail_def)
  moreover have "mail_wf ?k (k_procs ?k ! i)" if "lives i k" for i
  proof (cases "i = j")
    case True
    then show ?thesis using set_mail_nth [OF jl] arr f by (simp add: mail_wf_def)
  next
    case False
    have "mail_wf k (k_procs k ! i)" using ok that by (simp add: mail_ok_def)
    then show ?thesis
      using False own that set_mail_nth [of i k j m n arr] f(1)
      by (auto simp: mail_wf_def lives_def split: option.splits)
  qed
  ultimately show "mail_ok ?k"
    using ok h own set_mail_nth [of _ k j m n arr] unfolding mail_ok_def l
    by (auto simp: lives_def split: if_splits)
  show "mail j ?k = map view (take n arr)" using set_mail_nth [OF jl] f(1) by (simp add: mail_def)
  show "mail i ?k = mail i k" if "lives i k" "i \<noteq> j"
    using that own set_mail_nth [of i k j m n arr] f(1)
    by (auto simp: mail_def lives_def split: option.splits)
qed

subsection \<open>Putting and taking a message\<close>

definition mk_message :: "int \<Rightarrow> u32 \<Rightarrow> bytes \<Rightarrow> message" where
  "mk_message from tag bs = \<lparr>msg_from = from, msg_tag = tag, msg_size = of_nat (length bs), msg_data = bs\<rparr>"

text \<open>\<open>send\<close> between its checks and the wake-up of the receiver.\<close>

definition put_mail :: "nat \<Rightarrow> int \<times> u32 \<times> bytes \<Rightarrow> kernel \<Rightarrow> kernel option" where
  "put_mail j x k =
     (case x of (from, tag, bs) \<Rightarrow>
        do {
          assert_c (length bs \<le> 1024);
          room \<leftarrow> mailbox_room j k;
          k \<leftarrow> room;
          put_message j (mk_message from tag bs) k
        })"

definition mail_room :: "nat \<Rightarrow> kernel \<Rightarrow> bool" where
  "mail_room j k \<longleftrightarrow>
     (if pr_mailbox (k_procs k ! j) = None then kmalloc 8288 (k_heap k) \<noteq> None else length (mail j k) < 8)"

lemma view_mk_message:
  "length bs \<le> 1024 \<Longrightarrow> view ((mk_message from tag bs)\<lparr>msg_data := bs @ rest\<rparr>) = (from, tag, bs)"
  by (simp add: view_def mk_message_def unat_of_nat_u32)

lemma mail_wfD:
  assumes "mail_ok k" "lives j k" "pr_mailbox (k_procs k ! j) = Some m"
  obtains arr where "k_mailboxes k m = Some arr" "length arr = 8" "pr_mailbox_alloc (k_procs k ! j) = 8"
    "pr_mailbox_size (k_procs k ! j) \<le> 8" "\<forall>x\<in>set arr. length (msg_data x) = 1024"
    "mail j k = map view (take (pr_mailbox_size (k_procs k ! j)) arr)"
proof -
  have "mail_wf k (k_procs k ! j)" using assms(1,2) by (simp add: mail_ok_def)
  with assms(3) show thesis by (auto simp: mail_wf_def mail_def intro!: that)
qed

lemma mail_empty: "mail_ok k \<Longrightarrow> lives j k \<Longrightarrow> pr_mailbox (k_procs k ! j) = None \<Longrightarrow> mail j k = []"
  by (simp add: mail_def)

text \<open>Storing a message in slot \<open>n\<close> behind the ones there.\<close>

lemma slot_ok:
  assumes "length arr = 8" "n < 8" "\<forall>x\<in>set arr. length (msg_data x) = 1024" "length bs \<le> 1024"
    and a: "arr' = arr[n := (mk_message from tag bs)\<lparr>msg_data := bs @ drop (length bs) (msg_data (arr ! n))\<rparr>]"
  shows "length arr' = 8" "\<forall>x\<in>set arr'. length (msg_data x) = 1024"
    "map view (take (Suc n) arr') = map view (take n arr) @ [(from, tag, bs)]"
proof -
  have l: "length (msg_data (arr ! n)) = 1024" using assms(1-3) by simp
  show "length arr' = 8" using assms(1) by (simp add: a)
  show "\<forall>x\<in>set arr'. length (msg_data x) = 1024"
    using assms(3,4) l unfolding a by (auto dest!: subsetD [OF set_update_subset_insert])
  show "map view (take (Suc n) arr') = map view (take n arr) @ [(from, tag, bs)]"
    using assms(1,2,4) by (simp add: a take_Suc_conv_app_nth view_mk_message)
qed

lemma put_mail_returns:
  assumes ok: "mail_ok k" and j: "lives j k" and room: "mail_room j k" and bs: "length bs \<le> 1024"
  obtains k' where "put_mail j (from, tag, bs) k = Some k'" "mail_ok k'" "mail j k' = mail j k @ [(from, tag, bs)]"
    "\<And>i. lives i k \<Longrightarrow> i \<noteq> j \<Longrightarrow> mail i k' = mail i k" "\<And>i. lives i k' = lives i k"
    "\<exists>h m n arr. k' = set_mail j m n arr (k\<lparr>k_heap := h\<rparr>)"
proof (cases "pr_mailbox (k_procs k ! j)")
  case None
  with room obtain m h where m: "kmalloc 8288 (k_heap k) = Some (m, h)" by (auto simp: mail_room_def)
  then have km: "k_malloc (8 * message_bytes) k = Some (m, k\<lparr>k_heap := h\<rparr>)" by (simp add: k_malloc_def)
  have hok: "heap_ok k" using ok by (simp add: mail_ok_def)
  let ?k1 = "k\<lparr>k_heap := h\<rparr>"
  from k_malloc_fresh [OF hok km] have f: "heap_ok ?k1" "heap_has h m" "m \<notin> heap_objs k"
    by (metis kernel.select_convs(2) kernel.surjective kernel.update_convs(2))+
  define arr where "arr = fresh_mailbox (mm_mem (k_mm k)) m 8"
  have arr: "length arr = 8" "\<forall>x\<in>set arr. length (msg_data x) = 1024"
    by (auto simp: arr_def fresh_mailbox_def fresh_message_def)
  let ?arr = "arr[0 := (mk_message from tag bs)\<lparr>msg_data := bs @ drop (length bs) (msg_data (arr ! 0))\<rparr>]"
  have z: "(0::nat) < 8" "(1::nat) \<le> 8" by simp_all
  note S = slot_ok [OF arr(1) z(1) arr(2) bs refl, of "from" tag]
  have ok1: "mail_ok ?k1" using ok f(1) by (simp add: mail_ok_def)
  have h1: "heap_ok (?k1\<lparr>k_mailboxes := (k_mailboxes ?k1)(m \<mapsto> ?arr)\<rparr>)"
    by (rule heap_ok_add(4) [OF f(1)]) (use f(2,3) in \<open>auto simp: heap_objs_def\<close>)
  have "pr_mailbox (k_procs ?k1 ! i) \<noteq> Some m" if "lives i ?k1" for i
    using mail_wfD [OF ok1 that(1), of m] f(3) by (auto simp: heap_objs_def) blast
  then have own: "\<forall>i. lives i ?k1 \<longrightarrow> i \<noteq> j \<longrightarrow> pr_mailbox (k_procs ?k1 ! i) \<noteq> Some m" by blast
  have j1: "lives j ?k1" using j by (simp add: lives_def)
  note M = set_mail_ok [OF ok1 j1 h1 own S(1) z(2) S(2)]
  have jl: "j < length (k_procs k)" using j by (simp add: lives_def)
  have "put_mail j (from, tag, bs) k = Some (set_mail j m 1 ?arr ?k1)"
    using None km bs jl arr(1) unfolding arr_def [symmetric]
    by (simp add: put_mail_def mailbox_room_def put_message_def nth_upd_proc mk_message_def set_mail_def upd_proc_def
        Let_def flip: arr_def length_greater_0_conv)
  then show thesis
  proof (rule that)
    show "mail_ok (set_mail j m 1 ?arr ?k1)" by (rule M(1))
    show "mail j (set_mail j m 1 ?arr ?k1) = mail j k @ [(from, tag, bs)]"
      using M(2) S(3) mail_empty [OF ok j None] by simp
    show "mail i (set_mail j m 1 ?arr ?k1) = mail i k" if "lives i k" "i \<noteq> j" for i
      using M(4) [of i] that by simp
    show "lives i (set_mail j m 1 ?arr ?k1) = lives i k" for i using M(3) [of i] by simp
  qed blast
next
  case (Some m)
  from mail_wfD [OF ok j Some] obtain arr where
    arr: "k_mailboxes k m = Some arr" "length arr = 8" "pr_mailbox_alloc (k_procs k ! j) = 8"
      "\<forall>x\<in>set arr. length (msg_data x) = 1024" "mail j k = map view (take (pr_mailbox_size (k_procs k ! j)) arr)" by metis
  let ?n = "pr_mailbox_size (k_procs k ! j)"
  have n: "?n < 8" using room Some arr(2,5) by (simp add: mail_room_def)
  let ?arr = "arr[?n := (mk_message from tag bs)\<lparr>msg_data := bs @ drop (length bs) (msg_data (arr ! ?n))\<rparr>]"
  note S = slot_ok [OF arr(2) n arr(4) bs refl, of "from" tag]
  have h1: "heap_ok (k\<lparr>k_mailboxes := (k_mailboxes k)(m \<mapsto> ?arr)\<rparr>)"
    using ok arr(1) by (subst heap_ok_cong [of _ k]) (auto simp: mail_ok_def)
  have own: "\<forall>i. lives i k \<longrightarrow> i \<noteq> j \<longrightarrow> pr_mailbox (k_procs k ! i) \<noteq> Some m"
    using ok j Some unfolding mail_ok_def by blast
  have z: "Suc ?n \<le> 8" using n by simp
  note M = set_mail_ok [OF ok j h1 own S(1) z S(2)]
  have jl: "j < length (k_procs k)" using j by (simp add: lives_def)
  have "put_mail j (from, tag, bs) k = Some (set_mail j m (Suc ?n) ?arr k)"
    using Some bs jl arr(1-3) n
    by (cases "k_procs k ! j")
      (simp add: put_mail_def mailbox_room_def put_message_def nth_upd_proc mk_message_def set_mail_def upd_proc_def Let_def)
  then show thesis
  proof (rule that)
    show "mail_ok (set_mail j m (Suc ?n) ?arr k)" by (rule M(1))
    show "mail j (set_mail j m (Suc ?n) ?arr k) = mail j k @ [(from, tag, bs)]" using M(2) by (simp only: S(3) arr(5))
    show "mail i (set_mail j m (Suc ?n) ?arr k) = mail i k" if "lives i k" "i \<noteq> j" for i by (rule M(4) [OF that])
    show "lives i (set_mail j m (Suc ?n) ?arr k) = lives i k" for i by (rule M(3))
    have "set_mail j m (Suc ?n) ?arr k = set_mail j m (Suc ?n) ?arr (k\<lparr>k_heap := k_heap k\<rparr>)" by simp
    then show "\<exists>h m' n' arr'. set_mail j m (Suc ?n) ?arr k = set_mail j m' n' arr' (k\<lparr>k_heap := h\<rparr>)" by blast
  qed
qed

definition take_mail :: "nat \<Rightarrow> kernel \<Rightarrow> ((int \<times> u32 \<times> bytes) list \<times> kernel) option" where
  "take_mail j k =
     do {
       assert_c (0 < pr_mailbox_size (k_procs k ! j));
       (m, k) \<leftarrow> take_message j (k_procs k ! j) k;
       Some ([view m], k)
     }"

lemma mail_nonempty:
  assumes "mail_ok k" "lives j k"
  shows "0 < pr_mailbox_size (k_procs k ! j) \<longleftrightarrow> mail j k \<noteq> []"
proof (cases "pr_mailbox (k_procs k ! j)")
  case None
  have "mail_wf k (k_procs k ! j)" using assms by (simp add: mail_ok_def)
  with None show ?thesis by (simp add: mail_wf_def mail_def)
next
  case (Some m)
  from mail_wfD [OF assms Some] obtain arr where "length arr = 8"
    "mail j k = map view (take (pr_mailbox_size (k_procs k ! j)) arr)" by metis
  then show ?thesis by auto
qed

lemma take_message_spec:
  assumes ok: "mail_ok k" and j: "lives j k" and ne: "mail j k \<noteq> []"
  obtains m k' where "take_message j (k_procs k ! j) k = Some (m, k')" "view m = hd (mail j k)"
    "length (msg_data m) = 1024" "mail_ok k'" "mail j k' = tl (mail j k)"
    "\<And>i. lives i k \<Longrightarrow> i \<noteq> j \<Longrightarrow> mail i k' = mail i k" "\<And>i. lives i k' = lives i k"
proof -
  let ?n = "pr_mailbox_size (k_procs k ! j)"
  have n: "0 < ?n" using mail_nonempty [OF ok j] ne by simp
  from ne obtain m where m: "pr_mailbox (k_procs k ! j) = Some m" by (auto simp: mail_def split: option.splits)
  from mail_wfD [OF ok j m] obtain arr where
    arr: "k_mailboxes k m = Some arr" "length arr = 8" "pr_mailbox_alloc (k_procs k ! j) = 8" "?n \<le> 8"
      "\<forall>x\<in>set arr. length (msg_data x) = 1024" "mail j k = map view (take ?n arr)" by metis
  from arr(2) obtain a as where a: "arr = a # as" by (cases arr) auto
  let ?arr = "take (?n - 1) (drop 1 arr) @ drop (?n - 1) arr"
  have h1: "heap_ok (k\<lparr>k_mailboxes := (k_mailboxes k)(m \<mapsto> ?arr)\<rparr>)"
    using ok arr(1) by (subst heap_ok_cong [of _ k]) (auto simp: mail_ok_def)
  have own: "\<forall>i. lives i k \<longrightarrow> i \<noteq> j \<longrightarrow> pr_mailbox (k_procs k ! i) \<noteq> Some m"
    using ok j m unfolding mail_ok_def by blast
  have l: "length ?arr = 8" "?n - 1 \<le> 8" "\<forall>x\<in>set ?arr. length (msg_data x) = 1024"
    using arr(2,4,5) n by (auto dest!: in_set_takeD in_set_dropD)
  note M = set_mail_ok [OF ok j h1 own l]
  have "take_message j (k_procs k ! j) k = Some (arr ! 0, set_mail j m (?n - 1) ?arr k)"
    using m arr(1-4) by (cases "k_procs k ! j") (simp add: take_message_def set_mail_def upd_proc_def)
  then show thesis
  proof (rule that)
    show "view (arr ! 0) = hd (mail j k)" using n a by (simp add: arr(6) take_Cons')
    show "length (msg_data (arr ! 0)) = 1024" using arr(5) a by simp
    show "mail_ok (set_mail j m (?n - 1) ?arr k)" by (rule M(1))
    have "take (?n - 1) ?arr = tl (take ?n arr)" using n a arr(2,4) by (simp add: take_Cons')
    then show "mail j (set_mail j m (?n - 1) ?arr k) = tl (mail j k)" unfolding M(2) arr(6) by (simp add: map_tl)
    show "mail i (set_mail j m (?n - 1) ?arr k) = mail i k" if "lives i k" "i \<noteq> j" for i by (rule M(4) [OF that])
    show "lives i (set_mail j m (?n - 1) ?arr k) = lives i k" for i by (rule M(3))
  qed
qed

lemma put_mail_room:
  assumes ok: "mail_ok k" and j: "lives j k" and p: "put_mail j (from, tag, bs) k = Some k'"
  shows "mail_room j k" "length bs \<le> 1024"
proof -
  show "length bs \<le> 1024" using p by (auto simp: put_mail_def split: if_splits)
  from p obtain k1 where r: "mailbox_room j k = Some (Some k1)"
    by (auto simp: put_mail_def bind_eq_Some_conv split: if_splits)
  show "mail_room j k"
  proof (cases "pr_mailbox (k_procs k ! j)")
    case None
    with r show ?thesis by (auto simp: mailbox_room_def mail_room_def k_malloc_def Let_def bind_eq_Some_conv)
  next
    case (Some m)
    from mail_wfD [OF ok j Some] obtain arr where "length arr = 8" "pr_mailbox_alloc (k_procs k ! j) = 8"
      "mail j k = map view (take (pr_mailbox_size (k_procs k ! j)) arr)" by metis
    with r Some show ?thesis by (auto simp: mailbox_room_def mail_room_def Let_def split: if_splits)
  qed
qed

interpretation mail_chan: fifo "\<lambda>k. mail_ok k \<and> lives j k" "mail j" "\<lambda>x. [x]" "\<lambda>_::unit. 1"
    "put_mail j" "\<lambda>_. take_mail j" for j :: nat
proof (unfold_locales, goal_cases)
  case (1 s x s')
  obtain f t b where x: "x = (f, t, b)" by (cases x) auto
  from put_mail_room [of s j f t b s'] 1 x have r: "mail_room j s" "length b \<le> 1024" by auto
  from put_mail_returns [OF _ _ r, of f t] 1 x show ?case by (metis option.inject)
next
  case (2 s n ys s')
  then have "mail j s \<noteq> []" using mail_nonempty [of s j] by (auto simp: take_mail_def split: if_splits)
  from take_message_spec [OF _ _ this] 2 obtain m k' where
    t: "take_message j (k_procs s ! j) s = Some (m, k')" "view m = hd (mail j s)" "mail_ok k'" "mail j k' = tl (mail j s)"
      "lives j k'" by metis
  with 2 have "ys = [hd (mail j s)]" "s' = k'" by (auto simp: take_mail_def split: if_splits)
  with t \<open>mail j s \<noteq> []\<close> show ?case by (cases "mail j s") auto
qed

end
