(* ===== verification/Mail_Claims.thy ===== *)
theory Mail_Claims
  imports Mail_Props
begin

text \<open>
  What \<open>send\<close> and \<open>receive\<close> do, on every branch, and the order of the messages.
\<close>

subsection \<open>Reading user memory between two steps of a handler\<close>

lemma vread_length: "vread a n k = Some bs \<Longrightarrow> length bs = n"
  by (induction a n k arbitrary: bs rule: vread.induct) (auto simp: bind_eq_Some_conv)

lemma vread_cong:
  assumes "k_mm k' = k_mm k" "k_paging k' = k_paging k"
  shows "vread a n k' = vread a n k"
proof (induction n arbitrary: a)
  case (Suc n)
  have "vload a k' = vload a k" using assms by (simp add: vload_def translate_def split: option.splits)
  with Suc show ?case by simp
qed simp

lemma mailbox_room_frame:
  "mailbox_room j k = Some (Some k') \<Longrightarrow> k_mm k' = k_mm k \<and> k_paging k' = k_paging k"
  by (auto simp: mailbox_room_def k_malloc_def Let_def bind_eq_Some_conv split: option.splits if_splits)

lemma mailbox_room_full:
  assumes "mail_ok k" "lives j k" "length (mail j k) = 8"
  shows "mailbox_room j k = Some None"
proof -
  from assms(3) obtain m where m: "pr_mailbox (k_procs k ! j) = Some m"
    by (cases "pr_mailbox (k_procs k ! j)") (auto simp: mail_def)
  from mail_wfD [OF assms(1,2) m] obtain arr where "pr_mailbox_alloc (k_procs k ! j) = 8"
    "mail j k = map view (take (pr_mailbox_size (k_procs k ! j)) arr)" by metis
  with m assms(3) show ?thesis by (simp add: mailbox_room_def min_def split: if_splits)
qed

lemma mail_le:
  assumes "mail_ok k" "lives j k"
  shows "length (mail j k) \<le> 8"
proof (cases "pr_mailbox (k_procs k ! j)")
  case (Some m)
  from mail_wfD [OF assms Some] obtain arr where "length arr = 8"
    "mail j k = map view (take (pr_mailbox_size (k_procs k ! j)) arr)" by metis
  then show ?thesis by simp
qed (simp add: mail_def)

text \<open>The scheduling operations leave the mailboxes alone.\<close>

lemma mail_sched:
  assumes "only_sched k k'" "same_procs k k'"
  shows "mail_ok k' = mail_ok k" "lives i k' = lives i k" "lives i k \<Longrightarrow> mail i k' = mail i k"
    "lives i k \<Longrightarrow> pr_receive_blocked (k_procs k' ! i) = pr_receive_blocked (k_procs k ! i)"
proof -
  note D = only_schedD [OF assms(1)]
  have p: "\<exists>pv nx r. k_procs k' ! j = (k_procs k ! j)\<lparr>pr_prev := pv, pr_next := nx, pr_ready := r\<rparr>" if "j < length (k_procs k)" for j
    using assms(2) that by (simp add: same_procs_def)
  have f: "live_proc (k_procs k' ! j) = live_proc (k_procs k ! j) \<and> pr_mailbox (k_procs k' ! j) = pr_mailbox (k_procs k ! j) \<and>
    pr_mailbox_size (k_procs k' ! j) = pr_mailbox_size (k_procs k ! j) \<and>
    pr_mailbox_alloc (k_procs k' ! j) = pr_mailbox_alloc (k_procs k ! j)" if "j < length (k_procs k)" for j
    using p [OF that] by (auto simp: live_proc_def)
  have l: "length (k_procs k') = length (k_procs k)" using assms(2) by (simp add: same_procs_def)
  note F = mail_frame [OF D(2-6) l f]
  show "mail_ok k' = mail_ok k" by (rule F(1))
  show "lives i k' = lives i k" using l f by (auto simp: lives_def)
  show "mail i k' = mail i k" if "lives i k" using F(2) that by (simp add: lives_def)
  show "pr_receive_blocked (k_procs k' ! i) = pr_receive_blocked (k_procs k ! i)" if "lives i k"
    using p [of i] that by (auto simp: lives_def)
qed

lemma mail_flag:
  shows "mail_ok (upd_proc j (\<lambda>p. p\<lparr>pr_receive_blocked := b\<rparr>) k) = mail_ok k"
    "lives i (upd_proc j (\<lambda>p. p\<lparr>pr_receive_blocked := b\<rparr>) k) = lives i k"
    "lives i k \<Longrightarrow> mail i (upd_proc j (\<lambda>p. p\<lparr>pr_receive_blocked := b\<rparr>) k) = mail i k"
proof -
  let ?k = "upd_proc j (\<lambda>p. p\<lparr>pr_receive_blocked := b\<rparr>) k"
  have f: "live_proc (k_procs ?k ! i) = live_proc (k_procs k ! i) \<and> pr_mailbox (k_procs ?k ! i) = pr_mailbox (k_procs k ! i) \<and>
    pr_mailbox_size (k_procs ?k ! i) = pr_mailbox_size (k_procs k ! i) \<and>
    pr_mailbox_alloc (k_procs ?k ! i) = pr_mailbox_alloc (k_procs k ! i)" if "i < length (k_procs k)" for i
    using that by (simp add: nth_upd_proc live_proc_def)
  note F = mail_frame [OF upd_proc_fields(2-6) upd_proc_fields(19) f]
  show "mail_ok ?k = mail_ok k" by (rule F(1))
  show "lives i ?k = lives i k" using f [of i] by (auto simp: lives_def)
  show "mail i ?k = mail i k" if "lives i k" using F(2) that by (simp add: lives_def)
qed

lemma wake_receiver_returns:
  assumes ok: "mail_ok k" and s: "sched k rs ss" and j: "lives j k"
    and b: "pr_receive_blocked (k_procs k ! j) \<Longrightarrow> j \<in> set ss"
  obtains k' where "wake_receiver j k = Some k'" "mail_ok k'" "\<And>i. lives i k \<Longrightarrow> mail i k' = mail i k"
    "\<not> pr_receive_blocked (k_procs k' ! j)"
    "if pr_receive_blocked (k_procs k ! j) then sched k' (j # rs) (remove1 j ss) else sched k' rs ss"
proof (cases "pr_receive_blocked (k_procs k ! j)")
  case True
  from resume_sched [OF s b [OF True]] obtain k1 where
    k1: "resume_process j k = Some k1" "sched k1 (j # rs) (remove1 j ss)" "only_sched k k1" "same_procs k k1" by blast
  note M = mail_sched [OF k1(3,4)]
  show thesis
  proof (rule that)
    show "wake_receiver j k = Some (upd_proc j (\<lambda>p. p\<lparr>pr_receive_blocked := False\<rparr>) k1)"
      using True k1(1) by (simp add: wake_receiver_def)
    show "mail_ok (upd_proc j (\<lambda>p. p\<lparr>pr_receive_blocked := False\<rparr>) k1)" using M(1) ok by (simp add: mail_flag)
    show "mail i (upd_proc j (\<lambda>p. p\<lparr>pr_receive_blocked := False\<rparr>) k1) = mail i k" if "lives i k" for i
      using M(2,3) that by (simp add: mail_flag)
    show "\<not> pr_receive_blocked (k_procs (upd_proc j (\<lambda>p. p\<lparr>pr_receive_blocked := False\<rparr>) k1) ! j)"
      using M(2) [of j] j by (simp add: nth_upd_proc lives_def)
    have "sched (upd_proc j (\<lambda>p. p\<lparr>pr_receive_blocked := False\<rparr>) k1) (j # rs) (remove1 j ss)"
      by (rule sched_update [OF k1(2)]) (simp add: same_links_def)
    with True show "if pr_receive_blocked (k_procs k ! j)
      then sched (upd_proc j (\<lambda>p. p\<lparr>pr_receive_blocked := False\<rparr>) k1) (j # rs) (remove1 j ss)
      else sched (upd_proc j (\<lambda>p. p\<lparr>pr_receive_blocked := False\<rparr>) k1) rs ss" by simp
  qed
qed (use that [of k] ok s in \<open>simp add: wake_receiver_def\<close>)

lemma set_mail_sched: "sched k rs ss \<Longrightarrow> sched (set_mail j m n arr (k\<lparr>k_heap := h\<rparr>)) rs ss"
  unfolding set_mail_def
  by (rule sched_update, rule sched_frame) (auto simp: same_links_def, auto simp: sched_def)

lemma pid_exists_index: "pid_exists to k \<Longrightarrow> pid_index to < MAX_PROCESSES"
  by (auto simp: pid_exists_def pid_index_def)

subsection \<open>Sending\<close>

text \<open>
  C16: \<open>send\<close>, on each of its branches. A message whose data is not within a segment of the sender is
  refused with \<open>-EFAULT\<close>, one to a process that does not exist with \<open>-ESRCH\<close>, one of more than 1024 bytes with
  \<open>-EINVAL\<close> and one to a mailbox with 8 messages with \<open>-ENOMEM\<close>; nothing changes then. Otherwise the call returns
  0, the message with the pid of the sender is the last in the mailbox of the receiver, all other mailboxes are as before, and a
  receiver that was blocked in \<open>receive\<close> is at the front of the ready list and no longer blocked. The memory
  of the sender is readable where the pointer is valid, the receiver has not exited, it is suspended if it is
  blocked, and the kernel heap has room for a mailbox if it has none.
\<close>

theorem syscall_send_correct:
  assumes ok: "mail_ok k" and s: "sched k rs ss" and c: "k_current k = Some i" and j: "j = pid_index to"
    and rd: "valid_pointer (k_procs k ! i) data sz \<Longrightarrow> vread data (unat sz) k = Some bs"
    and dest: "pid_exists to k \<Longrightarrow> lives j k \<and> (pr_receive_blocked (k_procs k ! j) \<longrightarrow> j \<in> set ss) \<and>
      (pr_mailbox (k_procs k ! j) = None \<longrightarrow> kmalloc 8288 (k_heap k) \<noteq> None)"
  shows "if \<not> valid_pointer (k_procs k ! i) data sz then syscall_send to tag data sz k = Some (- EFAULT, k)
    else if \<not> pid_exists to k then syscall_send to tag data sz k = Some (- ESRCH, k)
    else if 1024 < sz then syscall_send to tag data sz k = Some (- EINVAL, k)
    else if length (mail j k) = 8 then syscall_send to tag data sz k = Some (- ENOMEM, k)
    else \<exists>k'. syscall_send to tag data sz k = Some (0, k') \<and> mail_ok k' \<and> mail j k' = mail j k @ [(int i, tag, bs)] \<and>
      (\<forall>x. lives x k \<and> x \<noteq> j \<longrightarrow> mail x k' = mail x k) \<and> \<not> pr_receive_blocked (k_procs k' ! j) \<and>
      (if pr_receive_blocked (k_procs k ! j) then sched k' (j # rs) (remove1 j ss) else sched k' rs ss)"
proof -
  have i: "i \<in> set rs \<union> set ss" using s c by (auto simp: sched_def)
  note P = sched_proc [OF s i]
  have cur: "current_process k = Some (i, k_procs k ! i)" using c P(1) by (simp add: current_process_def)
  consider (bad) "\<not> valid_pointer (k_procs k ! i) data sz \<or> \<not> pid_exists to k \<or> 1024 < sz"
    | (full) "valid_pointer (k_procs k ! i) data sz" "pid_exists to k" "sz \<le> 1024" "length (mail j k) = 8"
    | (room) "valid_pointer (k_procs k ! i) data sz" "pid_exists to k" "sz \<le> 1024" "length (mail j k) \<noteq> 8" by force
  then show ?thesis
  proof cases
    case full
    with dest have "mailbox_room j k = Some None" by (intro mailbox_room_full [OF ok]) auto
    with full cur show ?thesis by (simp add: syscall_send_def j)
  next
    case room
    have bs: "vread data (unat sz) k = Some bs" using rd room(1) .
    have len: "length bs = unat sz" "length bs \<le> 1024"
      using vread_length [OF bs] room(3) by (simp_all add: word_le_nat_alt)
    have J: "lives j k" "pr_receive_blocked (k_procs k ! j) \<Longrightarrow> j \<in> set ss"
      "pr_mailbox (k_procs k ! j) = None \<Longrightarrow> kmalloc 8288 (k_heap k) \<noteq> None" using dest room(2) by auto
    have "mail_room j k" using J(3) room(4) mail_le [OF ok J(1)] by (auto simp: mail_room_def)
    from put_mail_returns [OF ok J(1) this len(2), of "int i" tag] obtain k1 h m n arr where
      k1: "put_mail j (int i, tag, bs) k = Some k1" "mail_ok k1" "mail j k1 = mail j k @ [(int i, tag, bs)]"
        "\<And>x. lives x k \<Longrightarrow> x \<noteq> j \<Longrightarrow> mail x k1 = mail x k" "\<And>x. lives x k1 = lives x k"
        "k1 = set_mail j m n arr (k\<lparr>k_heap := h\<rparr>)" by metis
    from k1(1) obtain k0 where k0: "mailbox_room j k = Some (Some k0)" "put_message j (mk_message (int i) tag bs) k0 = Some k1"
      by (auto simp: put_mail_def bind_eq_Some_conv split: if_splits)
    have rb: "pr_receive_blocked (k_procs k1 ! j) = pr_receive_blocked (k_procs k ! j)"
      unfolding k1(6) using J(1) by (simp add: set_mail_nth lives_def)
    have s1: "sched k1 rs ss" unfolding k1(6) by (rule set_mail_sched [OF s])
    from wake_receiver_returns [OF k1(2) s1] J(1,2) k1(5) rb obtain k' where
      k': "wake_receiver j k1 = Some k'" "mail_ok k'" "\<And>x. lives x k1 \<Longrightarrow> mail x k' = mail x k1" "\<not> pr_receive_blocked (k_procs k' ! j)"
        "if pr_receive_blocked (k_procs k1 ! j) then sched k' (j # rs) (remove1 j ss) else sched k' rs ss" by metis
    have "mk_message (int i) tag bs = \<lparr>msg_from = int i, msg_tag = tag, msg_size = sz, msg_data = bs\<rparr>"
      using len(1) by (simp add: mk_message_def)
    moreover have "vread data (unat sz) k0 = Some bs" using mailbox_room_frame [OF k0(1)] bs vread_cong [of k0 k] by simp
    ultimately have "syscall_send to tag data sz k = Some (0, k')"
      using cur room(1-3) k0 k'(1) P(5) by (simp add: syscall_send_def j not_less)
    moreover have "\<not> 1024 < sz" using room(3) by (simp add: not_less)
    ultimately show ?thesis using room k'(2-5) k1(3-5) J(1) rb by auto
  qed (use cur in \<open>auto simp: syscall_send_def\<close>)
qed

text \<open>The machine of the pipe witnesses, with two processes without mailboxes.\<close>

lemma mail_machine:
  obtains k where "mail_ok k" "sched k [1] [2]" "k_current k = Some 1" "lives 1 k" "lives 2 k" "kmalloc 8288 (k_heap k) \<noteq> None"
    "k_procs k = k_procs two_procs" "mail 1 k = []" "mail 2 k = []"
proof -
  obtain b d rd wr k where k: "pipes_ok k" "sched k [1] [2]" "k_current k = Some 1" "k_procs k = k_procs two_procs"
    "kmalloc 8288 (k_heap k) \<noteq> None"
    by (rule pipe_machine_pipe)
  have nb: "pr_mailbox (k_procs k ! i) = None" "pr_mailbox_size (k_procs k ! i) = 0" if "i < length (k_procs k)" for i
    using that unfolding k(4)
    by (auto simp: two_procs_def nth_list_update proc_of_def zero_process_def)
  have ok: "mail_ok k" using k(1) nb by (auto simp: mail_ok_def pipes_ok_def mail_wf_def lives_def)
  have l: "lives 1 k" "lives 2 k"
    using sched_proc [OF k(2), of 1] sched_proc [OF k(2), of 2] by (auto simp: lives_def live_proc_def get_proc_def split: if_splits)
  then have m: "mail 1 k = []" "mail 2 k = []" using nb by (auto simp: mail_def lives_def)
  show thesis by (rule that [OF ok k(2,3) l k(5,4) m])
qed

theorem syscall_send_correct_witness:
  "\<exists>k k'. mail_ok k \<and> mail 2 k = [] \<and> syscall_send 2 7 0 0 k = Some (0, k') \<and> mail 2 k' = [(1, 7, [])] \<and> mail 1 k' = []"
proof -
  obtain k where k: "mail_ok k" "sched k [1] [2]" "k_current k = Some 1" "lives 1 k" "lives 2 k" "kmalloc 8288 (k_heap k) \<noteq> None"
    "k_procs k = k_procs two_procs" "mail 1 k = []" "mail 2 k = []" by (rule mail_machine)
  have p: "valid_pointer (k_procs k ! 1) 0 0" "pid_exists 2 k" "pid_index 2 = 2"
    using k(5) by (auto simp: valid_pointer_def pid_exists_def pid_index_def lives_def live_proc_def)
  have b: "\<not> pr_receive_blocked (k_procs k ! 2)" unfolding k(7) by (simp add: two_procs_def proc_of_def zero_process_def)
  from syscall_send_correct [OF k(1-3) refl, where to = 2 and tag = 7 and data = 0 and sz = 0 and bs = "[]"]
    p k b show ?thesis by (auto simp: numeral_2_eq_2)
qed

subsection \<open>Receiving\<close>

text \<open>
  C17: \<open>receive\<close>, on each of its branches. A buffer that is not within a segment of the caller gives \<open>-EFAULT\<close>. With
  a message in the mailbox of the caller, the first one is taken out (the others keep their order, and other mailboxes
  do not change), its structure of 1036 bytes is written to the buffer, and the call returns 0. With an
  empty mailbox the call returns \<open>-EAGAIN\<close> without a change, or, if it may block, suspends the caller and
  marks it as blocked in \<open>receive\<close>.
\<close>

theorem syscall_receive_correct:
  assumes ok: "mail_ok k" and s: "sched k rs ss" and c: "k_current k = Some i" and i: "i \<in> set rs"
  shows "if \<not> valid_pointer (k_procs k ! i) msg 1036 then syscall_receive msg block k = Some (- EFAULT, k)
    else if mail i k \<noteq> []
    then \<exists>m k1. view m = hd (mail i k) \<and> length (message_image m) = 1036 \<and> mail_ok k1 \<and> mail i k1 = tl (mail i k) \<and>
      (\<forall>x. lives x k \<and> x \<noteq> i \<longrightarrow> mail x k1 = mail x k) \<and>
      syscall_receive msg block k = map_option (\<lambda>k'. (0, k')) (vwrite msg (message_image m) k1)
    else if block = 0 then syscall_receive msg block k = Some (- EAGAIN, k)
    else \<exists>k'. syscall_receive msg block k = Some (- ESUSPEND, k') \<and> sched k' (remove1 i rs) (i # ss) \<and>
      pr_receive_blocked (k_procs k' ! i) \<and> mail_ok k' \<and> (\<forall>x. lives x k \<longrightarrow> mail x k' = mail x k)"
proof -
  have i': "i \<in> set rs \<union> set ss" using i by simp
  note P = sched_proc [OF s i']
  have cur: "current_process k = Some (i, k_procs k ! i)" using c P(1) by (simp add: current_process_def)
  have lv: "lives i k" using P(1-3) by (auto simp: lives_def live_proc_def get_proc_def split: if_splits)
  note ne = mail_nonempty [OF ok lv]
  note unf = syscall_receive_def cur
  consider (bad) "\<not> valid_pointer (k_procs k ! i) msg 1036" | (data) "valid_pointer (k_procs k ! i) msg 1036" "mail i k \<noteq> []"
    | (again) "valid_pointer (k_procs k ! i) msg 1036" "mail i k = []" "block = 0"
    | (block) "valid_pointer (k_procs k ! i) msg 1036" "mail i k = []" "block \<noteq> 0" by blast
  then show ?thesis
  proof cases
    case data
    from take_message_spec [OF ok lv data(2)] obtain m k1 where
      t: "take_message i (k_procs k ! i) k = Some (m, k1)" "view m = hd (mail i k)" "length (msg_data m) = 1024" "mail_ok k1"
        "mail i k1 = tl (mail i k)" "\<And>x. lives x k \<Longrightarrow> x \<noteq> i \<Longrightarrow> mail x k1 = mail x k" by metis
    have "syscall_receive msg block k = map_option (\<lambda>k'. (0, k')) (vwrite msg (message_image m) k1)"
      using data t(1) ne by (simp add: unf map_conv_bind_option comp_def)
    moreover have "length (message_image m) = 1036" using t(3) by (simp add: message_image_def word_bytes_def)
    ultimately show ?thesis using data t(2,4-6) by (simp only: simp_thms if_True if_False) blast
  next
    case again
    with ne show ?thesis by (simp add: unf)
  next
    case block
    let ?k1 = "upd_proc i (\<lambda>p. p\<lparr>pr_receive_blocked := True\<rparr>) k"
    have s1: "sched ?k1 rs ss" by (rule sched_update [OF s]) (simp add: same_links_def)
    from suspend_sched [OF s1 i] obtain k' where
      k': "suspend_process i ?k1 = Some k'" "sched k' (remove1 i rs) (i # ss)" "only_sched ?k1 k'" "same_procs ?k1 k'" by blast
    note M = mail_sched [OF k'(3,4)]
    have "syscall_receive msg block k = Some (- ESUSPEND, k')" using block ne k'(1) by (simp add: unf)
    moreover have "pr_receive_blocked (k_procs k' ! i)"
      using M(4) [of i] lv by (simp add: nth_upd_proc lives_def live_proc_def)
    ultimately show ?thesis using block k'(2) M ok by (simp add: mail_flag)
  qed (simp add: unf)
qed

theorem syscall_receive_correct_witness:
  "\<exists>k k'. mail_ok k \<and> valid_pointer (k_procs k ! 1) 0x3FFF0000 1036 \<and> syscall_receive 0x3FFF0000 1 k = Some (- ESUSPEND, k') \<and>
    sched k' [] [1, 2] \<and> pr_receive_blocked (k_procs k' ! 1)"
proof -
  obtain k0 where k0: "mail_ok k0" "sched k0 [1] [2]" "k_current k0 = Some 1" "lives 1 k0" "mail 1 k0 = []"
    by (rule mail_machine)
  let ?f = "\<lambda>p. p\<lparr>pr_stack_start := 0x3FFF0000, pr_stack_end := 0x40000000\<rparr>"
  let ?k = "upd_proc 1 ?f k0"
  have f: "live_proc (k_procs ?k ! i) = live_proc (k_procs k0 ! i) \<and> pr_mailbox (k_procs ?k ! i) = pr_mailbox (k_procs k0 ! i) \<and>
    pr_mailbox_size (k_procs ?k ! i) = pr_mailbox_size (k_procs k0 ! i) \<and>
    pr_mailbox_alloc (k_procs ?k ! i) = pr_mailbox_alloc (k_procs k0 ! i)" if "i < length (k_procs k0)" for i
    using that by (simp add: nth_upd_proc live_proc_def)
  note F = mail_frame [OF upd_proc_fields(2-6) upd_proc_fields(19) f]
  have k: "mail_ok ?k" "mail 1 ?k = []" using F k0 by (auto simp: lives_def)
  have s: "sched ?k [1] [2]" by (rule sched_update [OF k0(2)]) (simp add: same_links_def)
  have v: "valid_pointer (k_procs ?k ! 1) 0x3FFF0000 1036"
    using k0(4) by (simp add: nth_upd_proc lives_def valid_pointer_def within_def)
  from syscall_receive_correct [OF k(1) s, of 1 "0x3FFF0000" 1] k0(3) k v show ?thesis by auto
qed

subsection \<open>The order of the messages\<close>

text \<open>
  C18: messages arrive in the order in which they were sent, whole and once: over any interleaving of messages put into the
  mailbox of a process by \<open>send\<close>, messages taken out by its \<open>receive\<close> and other activity that leaves the mailbox
  alone, starting with an empty mailbox, what was received followed by what is still there is what was sent.
\<close>

theorem mail_stream:
  assumes "mail_chan.traffic j k sent got k'" and "mail_ok k" "lives j k" "mail j k = []"
  shows "sent = got @ mail j k' \<and> mail_ok k' \<and> length sent \<le> length got + 8"
proof -
  have m: "sent = got @ mail j k'" "mail_ok k'" "lives j k'"
    using mail_chan.traffic_prefix [OF assms(1)] mail_chan.traffic_stream [OF assms(1)] assms(2-4) by simp_all
  with mail_le [OF m(2,3)] show ?thesis by simp
qed

theorem mail_stream_witness:
  "\<exists>k k'. mail_chan.traffic 2 k [(1, 7, [104, 105])] [] k' \<and> [(1, 7, [104, 105])] = [] @ mail 2 k' \<and> mail_ok k'"
proof -
  obtain k where k: "mail_ok k" "lives 2 k" "kmalloc 8288 (k_heap k) \<noteq> None" "mail 2 k = []" "k_procs k = k_procs two_procs"
    by (rule mail_machine)
  have "mail_room 2 k" using k(3,4) by (simp add: mail_room_def)
  then obtain k' where k': "put_mail 2 (1, 7, [104, 105]) k = Some k'"
    by (rule put_mail_returns [OF k(1,2), of "[104, 105]" 1 7]) auto
  have "mail_chan.traffic 2 k ([] @ [(1, 7, [104, 105])]) [] k'"
    by (rule mail_chan.traffic.writer [OF mail_chan.traffic.silent k'])
  with mail_stream [of 2 k "[(1, 7, [104, 105])]" "[]" k'] k show ?thesis by auto
qed

end
