(* ===== verification/Exec_Props.thy ===== *)
theory Exec_Props
  imports Unixproc Pipe_Props
begin

text \<open>
  The arguments of a program: what \<open>execve\<close> builds at the end of the stack segment is what \<open>main\<close> reads back through
  \<open>argc\<close> and \<open>argv\<close>.
\<close>

subsection \<open>The layout of the arguments\<close>

text \<open>Argument \<open>i\<close> is \<open>s\<close>: the pointer at its place in \<open>argv\<close> leads to the bytes of \<open>s\<close>.\<close>

definition holds_arg :: "u32 \<Rightarrow> bytes \<Rightarrow> nat \<Rightarrow> bytes \<Rightarrow> bool" where
  "holds_arg base d i s \<longleftrightarrow>
     8 + 4 * i + 4 \<le> length d \<and>
     (\<exists>p\<ge>8. p + length s \<le> length d \<and> take 4 (drop (8 + 4 * i) d) = word_bytes (base + of_nat p) \<and> take (length s) (drop p d) = s)"

lemma fill_args_returns:
  assumes "pos \<le> length d" "8 + 4 * (argno + length args) + sum_list (map length args) \<le> pos"
  shows "\<exists>d'. fill_args base argno pos args d = Some d' \<and> length d' = length d \<and>
    (\<forall>i<length args. holds_arg base d' (argno + i) (args ! i)) \<and>
    (\<forall>i n. i + n \<le> 8 + 4 * argno \<or> pos \<le> i \<longrightarrow> take n (drop i d') = take n (drop i d))"
  using assms
proof (induction args arbitrary: argno pos d)
  case (Cons s ss)
  let ?p = "pos - length s"
  have b: "?p + length s \<le> length d" using Cons.prems by simp
  obtain d1 where d1: "array_put d ?p s = Some d1" "length d1 = length d" "take (length s) (drop ?p d1) = s"
    "\<And>i n. i + n \<le> ?p \<or> ?p + length s \<le> i \<Longrightarrow> take n (drop i d1) = take n (drop i d)"
    by (rule array_put_returns [OF b]) blast
  let ?w = "word_bytes (base + of_nat ?p)"
  have b2: "8 + 4 * argno + length ?w \<le> length d1" using Cons.prems d1(2) by simp
  obtain d2 where d2: "array_put d1 (8 + 4 * argno) ?w = Some d2" "length d2 = length d1"
    "take (length ?w) (drop (8 + 4 * argno) d2) = ?w"
    "\<And>i n. i + n \<le> 8 + 4 * argno \<or> 8 + 4 * argno + length ?w \<le> i \<Longrightarrow> take n (drop i d2) = take n (drop i d1)"
    by (rule array_put_returns [OF b2]) blast
  have "?p \<le> length d2" "8 + 4 * (Suc argno + length ss) + sum_list (map length ss) \<le> ?p"
    using Cons.prems d1(2) d2(2) by simp_all
  from Cons.IH [OF this] obtain d' where
    d': "fill_args base (Suc argno) ?p ss d2 = Some d'" "length d' = length d2"
      "\<forall>i<length ss. holds_arg base d' (Suc argno + i) (ss ! i)"
      "\<And>i n. i + n \<le> 8 + 4 * Suc argno \<or> ?p \<le> i \<Longrightarrow> take n (drop i d') = take n (drop i d2)" by blast
  have "take 4 (drop (8 + 4 * argno) d') = ?w" using d'(4) [of "8 + 4 * argno" 4] d2(3) by simp
  moreover have "take (length s) (drop ?p d') = s"
    using d'(4) [of ?p "length s"] d2(4) [of ?p "length s"] d1(3) Cons.prems by simp
  ultimately have "holds_arg base d' argno s"
    unfolding holds_arg_def using b b2 d1(2) d2(2) d'(2) Cons.prems(2) by (intro conjI exI [of _ ?p]) simp_all
  then have "\<forall>i<length (s # ss). holds_arg base d' (argno + i) ((s # ss) ! i)"
    using d'(3) by (auto simp: less_Suc_eq_0_disj)
  moreover have "take n (drop i d') = take n (drop i d)" if "i + n \<le> 8 + 4 * argno \<or> pos \<le> i" for i n
  proof -
    have "i + n \<le> 8 + 4 * Suc argno \<or> ?p \<le> i" "i + n \<le> 8 + 4 * argno \<or> 8 + 4 * argno + length ?w \<le> i"
      "i + n \<le> ?p \<or> ?p + length s \<le> i" using that Cons.prems by auto
    then show ?thesis using d'(4) d2(4) d1(4) by simp
  qed
  ultimately show ?case using d1(1,2) d2(1,2) d'(1,2) by (simp add: Let_def)
qed simp

text \<open>How \<open>main\<close> finds its arguments in the \<open>d\<close> bytes from the stack pointer: \<open>argc\<close>, \<open>argv\<close> and the strings it points to.\<close>

definition main_arg :: "u32 \<Rightarrow> bytes \<Rightarrow> u32 \<Rightarrow> nat \<Rightarrow> bytes option" where
  "main_arg sp d argv i =
     do {
       a \<leftarrow> img_word d (unat (argv - sp) + 4 * i);
       let s = drop (unat (a - sp)) d;
       if terminated s then Some (cstr s) else None
     }"

definition main_args :: "u32 \<Rightarrow> bytes \<Rightarrow> bytes list option" where
  "main_args sp d =
     do {
       argc \<leftarrow> img_word d 0;
       argv \<leftarrow> img_word d 4;
       those (map (main_arg sp d argv) [0..<unat argc])
     }"

lemma those_map_Some: "(\<And>x. x \<in> set xs \<Longrightarrow> f x = Some (g x)) \<Longrightarrow> those (map f xs) = Some (map g xs)"
  by (induction xs) auto

lemma cstr_prefix: "s = cstr s @ [0] \<Longrightarrow> take (length s) d = s \<Longrightarrow> terminated d \<and> cstr d = cstr s"
proof -
  assume s: "s = cstr s @ [0]" and t: "take (length s) d = s"
  have "d = s @ drop (length s) d" using t append_take_drop_id [of "length s" d] by simp
  also have "\<dots> = (cstr s @ [0]) @ drop (length s) d" using s by (rule arg_cong)
  finally have d: "d = cstr s @ 0 # drop (length s) d" by simp
  then have "0 \<in> set d" by (metis in_set_conv_decomp)
  moreover have "cstr d = cstr s" by (subst d) (rule cstr_append_0 [OF cstr_no_0])
  ultimately show ?thesis by (simp add: terminated_def)
qed

lemma main_arg_holds:
  assumes h: "holds_arg sp d i s" and s: "s = cstr s @ [0]" and l: "length d < 4294967296"
  shows "main_arg sp d (sp + 8) i = Some (cstr s)"
proof -
  from h obtain p where p: "p + length s \<le> length d" "take 4 (drop (8 + 4 * i) d) = word_bytes (sp + of_nat p)"
    "take (length s) (drop p d) = s" "8 + 4 * i + 4 \<le> length d" by (auto simp: holds_arg_def)
  have "img_word d (8 + 4 * i) = Some (sp + of_nat p)" using img_word_put p(2,4) by blast
  moreover have "unat (of_nat p :: u32) = p" using p(1) l by (intro unat_of_nat_u32) simp
  ultimately show ?thesis using cstr_prefix [OF s p(3)] by (simp add: main_arg_def)
qed

text \<open>
  C22: arguments of programs round-trip. For strings that fit into the stack segment together with their
  pointers, \<open>execve\<close> builds a block of exactly the computed size, and \<open>main\<close>, which starts with the stack
  pointer at the block, finds as its \<open>argc\<close> and \<open>argv\<close> the same strings in the same order.
\<close>

theorem build_argdata_roundtrip:
  assumes "\<forall>s\<in>set args. s = cstr s @ [0]" and "argdata_size args \<le> unat PROCESS_STACK_SIZE"
  shows "\<exists>d. build_argdata args = Some d \<and> length d = argdata_size args \<and>
    main_args (PROCESS_STACK_BASE - of_nat (argdata_size args)) d = Some (map cstr args)"
proof -
  let ?n = "argdata_size args" let ?base = "PROCESS_STACK_BASE - of_nat ?n :: u32"
  have n: "?n \<le> length (replicate ?n (0::u8))" "8 + 4 * (0 + length args) + sum_list (map length args) \<le> ?n"
    by (simp_all add: argdata_size_def)
  from fill_args_returns [OF n, of ?base] obtain d1 where
    d1: "fill_args ?base 0 ?n args (replicate ?n 0) = Some d1" "length d1 = ?n" "\<forall>i<length args. holds_arg ?base d1 i (args ! i)"
    by auto
  let ?c = "word_bytes (of_nat (length args))" and ?v = "word_bytes (?base + 8)"
  have b: "0 + length ?c \<le> length d1" "8 \<le> ?n" using d1(2) by (simp_all add: argdata_size_def)
  obtain d2 where d2: "array_put d1 0 ?c = Some d2" "length d2 = length d1" "take (length ?c) (drop 0 d2) = ?c"
    "\<And>i n. i + n \<le> 0 \<or> 0 + length ?c \<le> i \<Longrightarrow> take n (drop i d2) = take n (drop i d1)"
    by (rule array_put_returns [OF b(1)]) blast
  have b2: "4 + length ?v \<le> length d2" using b d1(2) d2(2) by simp
  obtain d where d: "array_put d2 4 ?v = Some d" "length d = length d2" "take (length ?v) (drop 4 d) = ?v"
    "\<And>i n. i + n \<le> 4 \<or> 4 + length ?v \<le> i \<Longrightarrow> take n (drop i d) = take n (drop i d2)"
    by (rule array_put_returns [OF b2]) blast
  have same: "take m (drop i d) = take m (drop i d1)" if "8 \<le> i" for i m
    using that d(4) [of i m] d2(4) [of i m] by simp
  have len: "length d = ?n" using d(2) d2(2) d1(2) by simp
  have "take 4 (drop 0 d) = ?c" using d(4) [of 0 4] d2(3) by simp
  then have argc: "img_word d 0 = Some (of_nat (length args))" using b(2) len by (intro img_word_put) simp_all
  have argv: "img_word d 4 = Some (?base + 8)" using d(3) b(2) len by (intro img_word_put) simp_all
  have "holds_arg ?base d i (args ! i)" if i: "i < length args" for i
  proof -
    from d1(3) i have "holds_arg ?base d1 i (args ! i)" by blast
    then show ?thesis unfolding holds_arg_def using len d1(2) by (auto simp: same)
  qed
  then have "main_arg ?base d (?base + 8) i = Some (cstr (args ! i))" if "i < length args" for i
    using that assms len by (intro main_arg_holds) auto
  then have "those (map (main_arg ?base d (?base + 8)) [0..<length args]) = Some (map (\<lambda>i. cstr (args ! i)) [0..<length args])"
    by (intro those_map_Some) simp
  also have "map (\<lambda>i. cstr (args ! i)) [0..<length args] = map cstr args" by (rule nth_equalityI) simp_all
  finally have "main_args ?base d = Some (map cstr args)"
    using argc argv assms(2) by (simp add: main_args_def unat_of_nat_u32 argdata_size_def)
  moreover have "build_argdata args = Some d" using d1(1) d2(1) d(1) by (simp add: build_argdata_def Let_def)
  ultimately show ?thesis using len by blast
qed

theorem build_argdata_roundtrip_witness:
  "\<exists>d. build_argdata [chars ''ls'' @ [0], chars ''/bin'' @ [0]] = Some d \<and> length d = 24 \<and>
     main_args (PROCESS_STACK_BASE - 24) d = Some [chars ''ls'', chars ''/bin'']"
  using build_argdata_roundtrip [of "[chars ''ls'' @ [0], chars ''/bin'' @ [0]]"]
  by (simp add: argdata_size_def chars_def)

end
