(* ===== verification/Fork_Props.thy ===== *)
theory Fork_Props
  imports Unixproc Syscall_Props
begin

text \<open>
  The memory of a forked process: \<open>map_and_copy\<close> and the address space that \<open>fork\<close> builds.
\<close>

subsection \<open>Copying one page\<close>

lemma memmove_page:
  assumes p: "page_aligned p" "page_aligned src" "p \<noteq> src" and q: "page_aligned q" and i: "i < 4096"
  shows "memmove_loop p src 4096 m (q + of_nat i) = (if q = p then m (src + of_nat i) else m (q + of_nat i))"
proof -
  have b: "unat x + 4096 \<le> 2 ^ 32" if "page_aligned x" for x using page_aligned_bound [OF that] by simp
  have apart: "unat x + 4096 \<le> unat y \<or> unat y + 4096 \<le> unat x" if "page_aligned x" "page_aligned y" "x \<noteq> y" for x y
    using that dvd_less_add_le [of 4096 "unat x" "unat y"] dvd_less_add_le [of 4096 "unat y" "unat x"]
    by (auto simp: page_aligned_def word_unat_eq_iff neq_iff)
  show ?thesis
  proof (cases "q = p")
    case True
    have "forward_safe p src 4096"
      using b [OF p(1)] b [OF p(2)] apart [OF p] by (auto simp: forward_safe_def)
    from memmove_copies [OF this i] True show ?thesis by simp
  next
    case False
    have "p + of_nat k \<noteq> q + of_nat i" if "k < 4096" for k
    proof
      assume "p + of_nat k = q + of_nat i"
      then have "unat p + k = unat q + i"
        using unat_offset [OF b [OF p(1)] that] unat_offset [OF b [OF q] i] by simp
      with apart [OF p(1) q] False that i show False by auto
    qed
    with memmove_loop_other [of 4096 p "q + of_nat i"] False show ?thesis by simp
  qed
qed

lemma copy_page_words:
  assumes p: "page_aligned p" "page_aligned src" "p \<noteq> src" and q: "page_aligned q" and j: "j < 1024"
    and s': "s' = s\<lparr>mm_mem := memmove p src PAGE_SIZE (mm_mem s)\<rparr>"
  shows "mm_load (slot q j) s' = (if q = p then mm_load (slot src j) s else mm_load (slot q j) s)"
proof -
  have off: "slot x j + of_nat r = x + of_nat (4 * unat j + r)" for x r
    by (simp add: slot_def)
  have lt: "4 * unat j + r < 4096" if "r < 4" for r using j that by (simp add: word_less_nat_alt)
  have "memmove_loop p src 4096 (mm_mem s) (slot q j + of_nat r) =
      (if q = p then mm_mem s (slot src j + of_nat r) else mm_mem s (slot q j + of_nat r))" if "r < 4" for r
    unfolding off by (rule memmove_page [OF p q lt [OF that]])
  from this [of 0] this [of 1] this [of 2] this [of 3] show ?thesis
    by (simp add: s' mm_load_def load32_def memmove_def)
qed

text \<open>Writing into a page that is handed out, in any way.\<close>

lemma pages_inv_write:
  assumes inv: "pages_inv s" and p: "p \<in> live_pages s" and s': "s' = s\<lparr>mm_mem := m\<rparr>"
    and other: "\<And>q j. page_aligned q \<Longrightarrow> j < 1024 \<Longrightarrow> q \<noteq> p \<Longrightarrow> mm_load (slot q j) s' = mm_load (slot q j) s"
  shows "pages_inv s'" "live_pages s' = live_pages s"
proof -
  from inv obtain xs where r: "pages_rep s xs" by (auto simp: pages_inv_def)
  then have pl: "plinks s (page_free s) xs" and sub: "set xs \<subseteq> managed s" by (auto simp: pages_rep_def)
  have "mm_load x s' = mm_load x s" if "x \<in> set xs" for x
    using other [of x 0] that sub p live_pages_rep [OF pl] by (auto dest: managedD)
  then have pl': "plinks s' (page_free s') xs" using pl plinks_cong [of xs s' s] by (simp add: s')
  have m: "managed s' = managed s" by (simp add: s' managed_def)
  show l: "live_pages s' = live_pages s" using live_pages_rep [OF pl] live_pages_rep [OF pl'] m by simp
  have "pages_rep s' xs" using r pl' m l by (simp add: pages_rep_def) (simp add: s')
  then show "pages_inv s'" by (auto simp: pages_inv_def)
qed

subsection \<open>Two address spaces\<close>

definition page_of :: "mm \<Rightarrow> u32 \<Rightarrow> u32 \<Rightarrow> u32" where
  "page_of s dir a = (case pte s dir a of Some e \<Rightarrow> e AND PAGE_ADDRESS_MASK | None \<Rightarrow> 0)"

text \<open>The pages at the addresses \<open>A\<close> of one directory can be copied into another one.\<close>

definition source_ok :: "mm \<Rightarrow> u32 \<Rightarrow> u32 \<Rightarrow> u32 set \<Rightarrow> bool" where
  "source_ok s src dest A \<longleftrightarrow>
     pages_inv s \<and> dir_ok s src \<and> dir_ok s dest \<and> frames s src \<inter> frames s dest = {} \<and>
     (\<forall>a\<in>A. page_aligned a \<and> pte s src a \<noteq> None \<and> page_of s src a \<in> live_pages s - frames s dest)"

lemma source_ok_ext:
  assumes s: "source_ok s src dest A" and e: "dir_ext s dest s'"
  shows "source_ok s' src dest A" "pte s' src l = pte s src l" "page_of s' src l = page_of s src l"
    "a \<in> A \<Longrightarrow> j < 1024 \<Longrightarrow> mm_load (slot (page_of s src a) j) s' = mm_load (slot (page_of s src a) j) s"
proof -
  have S: "dir_ok s src" "frames s dest \<inter> frames s src = {}" using s by (auto simp: source_ok_def)
  note O = dir_ext_other [OF e S]
  show p: "pte s' src l = pte s src l" for l by (rule O(2))
  then show po: "page_of s' src l = page_of s src l" for l by (simp add: page_of_def)
  show "mm_load (slot (page_of s src a) j) s' = mm_load (slot (page_of s src a) j) s" if "a \<in> A" "j < 1024"
    using dir_ext_keeps(3) [OF e _ _ that(2)] s that(1) by (simp add: source_ok_def)
  have "page_of s src a \<in> live_pages s' - frames s' dest" if "a \<in> A" for a
    using dir_ext_keeps(1,2) [OF e, of "page_of s src a"] s that by (simp add: source_ok_def)
  then show "source_ok s' src dest A"
    using s e O(1,3) unfolding source_ok_def dir_ext_def by (auto simp: p po)
qed

text \<open>
  The pages at \<open>A\<close> have been copied: at each address the new directory has a page of its own, which was not in use before and
  whose words are those of the page of the source.
\<close>

definition copied :: "mm \<Rightarrow> u32 \<Rightarrow> u32 \<Rightarrow> u32 set \<Rightarrow> mm \<Rightarrow> bool" where
  "copied s src dest A s' \<longleftrightarrow>
     dir_ext s dest s' \<and>
     (\<exists>f. inj_on f A \<and>
        (\<forall>a\<in>A. pte s' dest a = Some (f a OR 7) \<and> f a \<in> live_pages s' - live_pages s - frames s' dest \<and>
           (\<forall>j<1024. mm_load (slot (f a) j) s' = mm_load (slot (page_of s src a) j) s))) \<and>
     (\<forall>k. page_aligned k \<longrightarrow> k \<notin> A \<longrightarrow> pte s' dest k = pte s dest k)"

lemma copied_empty: "source_ok s src dest A \<Longrightarrow> copied s src dest {} s"
  by (auto simp: copied_def source_ok_def intro: dir_ext_refl)

lemma copied_union:
  assumes s: "source_ok s src dest (A \<union> B)" and a: "copied s src dest A s1" and b: "copied s1 src dest B s2"
    and dj: "A \<inter> B = {}"
  shows "copied s src dest (A \<union> B) s2"
proof -
  have e: "dir_ext s dest s1" "dir_ext s1 dest s2" using a b by (auto simp: copied_def)
  obtain f where f: "inj_on f A" "\<And>a. a \<in> A \<Longrightarrow> pte s1 dest a = Some (f a OR 7)"
    "\<And>a. a \<in> A \<Longrightarrow> f a \<in> live_pages s1 - live_pages s - frames s1 dest"
    "\<And>a j. a \<in> A \<Longrightarrow> j < 1024 \<Longrightarrow> mm_load (slot (f a) j) s1 = mm_load (slot (page_of s src a) j) s"
    using a unfolding copied_def by blast
  obtain g where g: "inj_on g B" "\<And>a. a \<in> B \<Longrightarrow> pte s2 dest a = Some (g a OR 7)"
    "\<And>a. a \<in> B \<Longrightarrow> g a \<in> live_pages s2 - live_pages s1 - frames s2 dest"
    "\<And>a j. a \<in> B \<Longrightarrow> j < 1024 \<Longrightarrow> mm_load (slot (g a) j) s2 = mm_load (slot (page_of s1 src a) j) s1"
    using b unfolding copied_def by blast
  note X = source_ok_ext [OF s e(1)]
  have al: "page_aligned a" if "a \<in> A \<union> B" for a using s that by (simp add: source_ok_def)
  have keep: "pte s2 dest k = pte s1 dest k" if "page_aligned k" "k \<notin> B" for k using b that by (simp add: copied_def)
  define h where "h a = (if a \<in> A then f a else g a)" for a
  have sub: "live_pages s \<subseteq> live_pages s1" using e(1) by (simp add: dir_ext_def)
  have A: "pte s2 dest a = Some (h a OR 7) \<and> h a \<in> live_pages s2 - live_pages s - frames s2 dest \<and>
      (\<forall>j<1024. mm_load (slot (h a) j) s2 = mm_load (slot (page_of s src a) j) s)" if "a \<in> A \<union> B" for a
  proof (cases "a \<in> A")
    case True
    then have "f a \<in> live_pages s1" "f a \<notin> frames s1 dest" "f a \<notin> live_pages s" "a \<notin> B" using f(3) dj by auto
    with dir_ext_keeps [OF e(2), of "f a"] True f(2,4) keep [OF al [OF that]] show ?thesis by (auto simp: h_def)
  next
    case False
    then have B: "a \<in> B" using that by simp
    have "mm_load (slot (page_of s1 src a) j) s1 = mm_load (slot (page_of s src a) j) s" if "j < 1024" for j
      using X(3,4) [of a] B that by simp
    with B False g(2-4) [OF B] sub show ?thesis by (auto simp: h_def)
  qed
  have "inj_on h (A \<union> B)"
    unfolding inj_on_Un
  proof (intro conjI)
    show "inj_on h A" using f(1) by (simp add: h_def inj_on_def)
    have "h a = g a" if "a \<in> B" for a using that dj by (auto simp: h_def)
    then show "inj_on h B" using g(1) by (simp add: inj_on_def)
    show "h ` (A - B) \<inter> h ` (B - A) = {}"
    proof (intro equals0I, elim IntE imageE)
      fix x a b assume *: "x = h a" "x = h b" "a \<in> A - B" "b \<in> B - A"
      then have "f a = g b" by (simp add: h_def)
      moreover have "f a \<in> live_pages s1" using f(3) [of a] * by auto
      moreover have "g b \<notin> live_pages s1" using g(3) [of b] * by auto
      ultimately show False by simp
    qed
  qed
  moreover have "pte s2 dest k = pte s dest k" if "page_aligned k" "k \<notin> A \<union> B" for k
    using keep [of k] a that by (simp add: copied_def)
  ultimately show ?thesis using A dir_ext_trans [OF e] unfolding copied_def by blast
qed

text \<open>One iteration of the loop of \<open>map_and_copy\<close>.\<close>

lemma copy_one:
  assumes s: "source_ok s src dest {l}" and mem: "card (live_pages s) + 2 \<le> ram_pages s"
  obtains p s1 s2 q where "alloc_page s = Some (p, s1)" "map_page dest l p PAGE_USER PAGE_READ_WRITE s1 = Some s2"
    "lookup_page src l s2 = Some (Some q)" "copied s src dest {l} (s2\<lparr>mm_mem := memmove p q PAGE_SIZE (mm_mem s2)\<rparr>)"
    "card (live_pages (s2\<lparr>mm_mem := memmove p q PAGE_SIZE (mm_mem s2)\<rparr>)) \<le> card (live_pages s) + 2"
proof -
  have S: "pages_inv s" "dir_ok s dest" "page_aligned l" "pte s src l \<noteq> None" "page_of s src l \<in> live_pages s - frames s dest"
    using s by (auto simp: source_ok_def)
  obtain p s1 where a: "alloc_page s = Some (p, s1)"
    using alloc_page_room [OF S(1)] room_if [OF S(1)] mem by auto
  have g: "granted s p s1" by (rule alloc_page_granted [OF S(1) a])
  then have s1: "pages_inv s1" "page_aligned p" "card (live_pages s1) = Suc (card (live_pages s))" "mm_ram s1 = mm_ram s"
    by (auto simp: granted_def)
  have "room s1" using room_if [OF s1(1)] s1(3,4) mem by (simp add: ram_pages_def)
  then obtain s2 where m: "map_page dest l p PAGE_USER PAGE_READ_WRITE s1 = Some s2"
    using map_page_returns [OF s1(1) _ S(3) s1(2)] by blast
  note N = new_page_step [OF S(1-3) a m]
  let ?q = "page_of s src l" and ?s = "s2\<lparr>mm_mem := memmove p (page_of s src l) PAGE_SIZE (mm_mem s2)\<rparr>"
  note X = source_ok_ext [OF s N(1)]
  have q: "page_aligned ?q" "p \<noteq> ?q" using S(5) N(3) by (auto dest: live_aligned)
  note W = copy_page_words [OF s1(2) q(1,2) _ _ refl, of _ _ s2]
  have s2: "pages_inv s2" "dir_ok s2 dest" using N(1) by (auto simp: dir_ext_def)
  have other: "mm_load (slot x j) ?s = mm_load (slot x j) s2" if "page_aligned x" "j < 1024" "x \<noteq> p" for x j
    using W [of x j] that by simp
  note I = pages_inv_write [OF s2(1) N(2) refl other]
  have ag: "agree_on (frames s2 dest) s2 ?s"
    unfolding agree_on_def using other N(4) dir_okD(1) [OF s2(2)] by (blast dest: live_aligned)
  note D = agree_dir [OF ag]
  have "agree_on (live_pages s - frames s dest) s2 ?s"
    unfolding agree_on_def using other N(3) by (blast dest: live_aligned)
  then have ext: "dir_ext s dest ?s"
    using N(1) I D(2) agree_dir_ok [OF s2(2) ag] agree_on_trans by (auto simp: dir_ext_def)
  have "mm_load (slot p j) ?s = mm_load (slot ?q j) s" if "j < 1024" for j
    using W [OF s1(2) that] X(4) [of l j] that by simp
  then have "copied s src dest {l} ?s"
    unfolding copied_def using ext N(2-4,6) S(3) I(2) D(2,3)
    by (intro conjI exI [of _ "\<lambda>_. p"]) auto
  moreover have "lookup_page src l s2 = Some (Some ?q)"
    using S(4) X(2) by (auto simp: lookup_page_pte [OF S(3)] page_of_def)
  ultimately show thesis using that a m I(2) N(7) by simp
qed

definition pages_in :: "u32 \<Rightarrow> u32 \<Rightarrow> u32 set" where
  "pages_in start limit = {a. page_aligned a \<and> start \<le> a \<and> a < limit}"

lemma pages_in_empty [simp]: "pages_in a a = {}"
  by (auto simp: pages_in_def)

lemma pages_in_step:
  assumes "page_aligned l" "l < limit" "limit \<le> 0xFFFFF000"
  shows "pages_in l limit = {l} \<union> pages_in (l + PAGE_SIZE) limit" "l \<notin> pages_in (l + PAGE_SIZE) limit"
    "unat (l + PAGE_SIZE) = unat l + 4096" "page_aligned (l + PAGE_SIZE)"
proof -
  have lt: "unat l < 4294963200" using assms(2,3) by (simp add: word_less_nat_alt word_le_nat_alt)
  show u: "unat (l + PAGE_SIZE) = unat l + 4096" "page_aligned (l + PAGE_SIZE)"
    using page_aligned_next [OF assms(1)] lt by simp_all
  have "l \<le> k \<longleftrightarrow> k = l \<or> l + PAGE_SIZE \<le> k" if "page_aligned k" for k
    using dvd_less_add_le [of 4096 "unat l" "unat k"] that assms(1) u(1)
    by (cases "unat l < unat k") (auto simp: page_aligned_def word_le_nat_alt word_unat_eq_iff)
  then show "pages_in l limit = {l} \<union> pages_in (l + PAGE_SIZE) limit" using assms(1,2) by (auto simp: pages_in_def)
  show "l \<notin> pages_in (l + PAGE_SIZE) limit" using u(1) by (simp add: pages_in_def word_le_nat_alt)
qed

lemma source_ok_sub: "source_ok s src dest A \<Longrightarrow> B \<subseteq> A \<Longrightarrow> source_ok s src dest B"
  by (auto simp: source_ok_def)

lemma map_and_copy_loop_copies:
  assumes "source_ok s src dest (pages_in l limit)" "page_aligned l" "limit \<le> 0xFFFFF000"
    "unat limit \<le> unat l + 4096 * n" "card (live_pages s) + 2 * n \<le> ram_pages s"
  shows "\<exists>s'. map_and_copy_loop src dest l limit s = Some s' \<and> copied s src dest (pages_in l limit) s' \<and>
    card (live_pages s') \<le> card (live_pages s) + 2 * n"
  using assms
proof (induction n arbitrary: l s)
  case 0
  then have nl: "\<not> l < limit" by (simp add: word_less_nat_alt)
  then have "pages_in l limit = {}" by (auto simp: pages_in_def)
  with nl copied_empty [OF 0(1)] show ?case by (subst map_and_copy_loop.simps) simp
next
  case (Suc n)
  show ?case
  proof (cases "l < limit")
    case False
    then have "pages_in l limit = {}" by (auto simp: pages_in_def)
    with False copied_empty [OF Suc.prems(1)] show ?thesis by (subst map_and_copy_loop.simps) simp
  next
    case True
    note P = pages_in_step [OF Suc.prems(2) True Suc.prems(3)]
    have "source_ok s src dest {l}" using Suc.prems(1) P(1) by (auto intro: source_ok_sub)
    then obtain p s1 s2 q where
      one: "alloc_page s = Some (p, s1)" "map_page dest l p PAGE_USER PAGE_READ_WRITE s1 = Some s2"
        "lookup_page src l s2 = Some (Some q)" "copied s src dest {l} (s2\<lparr>mm_mem := memmove p q PAGE_SIZE (mm_mem s2)\<rparr>)"
        "card (live_pages (s2\<lparr>mm_mem := memmove p q PAGE_SIZE (mm_mem s2)\<rparr>)) \<le> card (live_pages s) + 2"
      using Suc.prems(5) by (elim copy_one) auto
    let ?s = "s2\<lparr>mm_mem := memmove p q PAGE_SIZE (mm_mem s2)\<rparr>"
    have e: "dir_ext s dest ?s" using one(4) by (simp add: copied_def)
    have "source_ok ?s src dest (pages_in (l + PAGE_SIZE) limit)"
      using source_ok_ext(1) [OF Suc.prems(1) e] P(1) by (auto intro: source_ok_sub)
    moreover have "ram_pages ?s = ram_pages s" using e by (simp add: dir_ext_def ram_pages_def)
    ultimately have "\<exists>s'. map_and_copy_loop src dest (l + PAGE_SIZE) limit ?s = Some s' \<and>
        copied ?s src dest (pages_in (l + PAGE_SIZE) limit) s' \<and> card (live_pages s') \<le> card (live_pages ?s) + 2 * n"
      using Suc.prems(3-5) P(3,4) one(5) by (intro Suc.IH) auto
    then obtain s' where s': "map_and_copy_loop src dest (l + PAGE_SIZE) limit ?s = Some s'"
      "copied ?s src dest (pages_in (l + PAGE_SIZE) limit) s'" "card (live_pages s') \<le> card (live_pages ?s) + 2 * n" by blast
    have "copied s src dest (pages_in l limit) s'"
      unfolding P(1) by (rule copied_union [OF _ one(4) s'(2)]) (use Suc.prems(1) P(1,2) in auto)
    moreover have "map_and_copy_loop src dest l limit s = Some s'"
      using True one(1-3) s'(1) by (subst map_and_copy_loop.simps) simp
    ultimately show ?thesis using s'(3) one(5) by auto
  qed
qed

lemma map_and_copy_copies:
  assumes s: "source_ok s src dest (pages_in st en)" and al: "page_aligned st" "page_aligned en" and en: "en \<le> 0xFFFFF000"
    and mem: "card (live_pages s) + 2 * ((unat en - unat st) div 4096) \<le> ram_pages s"
  shows "\<exists>s'. map_and_copy src dest st en s = Some s' \<and> copied s src dest (pages_in st en) s' \<and>
    card (live_pages s') \<le> card (live_pages s) + 2 * ((unat en - unat st) div 4096)"
proof -
  have "4096 dvd unat en - unat st" using al by (simp add: page_aligned_def)
  then have "unat en \<le> unat st + 4096 * ((unat en - unat st) div 4096)" by simp
  from map_and_copy_loop_copies [OF s al(1) en this mem] show ?thesis
    using al by (simp add: map_and_copy_def page_aligned_mod)
qed

subsection \<open>A new process in the ready list\<close>

lemma sched_new:
  assumes s: "sched k rs ss" and c: "c < MAX_PROCESSES" "\<not> pr_exists (k_procs k ! c)"
    and k1: "k_procs k1 = (k_procs k)[c := P]" "k_ready k1 = k_ready k" "k_suspended k1 = k_suspended k" "k_current k1 = k_current k"
    and P: "live_proc P" "pr_ready P" "pr_pid P = int c" "pr_prev P = None" "pr_next P = None"
  shows "sched (list_add Ready c k1) (c # rs) ss" "only_sched k1 (list_add Ready c k1)"
    "j < MAX_PROCESSES \<Longrightarrow> same_body (k_procs k1 ! j) (k_procs (list_add Ready c k1) ! j)"
proof -
  let ?k = "list_add Ready c k1"
  have len: "length (k_procs k) = MAX_PROCESSES" "length (k_procs k1) = MAX_PROCESSES"
    using sched_length [OF s] k1(1) by simp_all
  have d: "dlist (k_procs k) (k_ready k) rs" "dlist (k_procs k) (k_suspended k) ss" using s by (auto simp: sched_def)
  have nc: "c \<notin> set rs \<union> set ss" using sched_proc(2) [OF s] c(2) by blast
  have n1: "k_procs k1 ! j = (if j = c then P else k_procs k ! j)" if "j < MAX_PROCESSES" for j
    using that len(1) by (simp add: k1(1) nth_list_update)
  have lt: "x < MAX_PROCESSES" if "x \<in> set rs \<union> set ss" for x by (rule sched_lt [OF s that])
  have ne: "x \<noteq> c" if "x \<in> set rs \<union> set ss" for x using that nc by auto
  have d1: "dlist (k_procs k1) (get_list Ready k1) rs" "dlist (k_procs k1) (k_suspended k1) ss"
    unfolding get_list_def which.case k1(2,3)
    by (rule dlist_untouched [OF d(1)], use len n1 lt ne in auto, rule dlist_untouched [OF d(2)], use len n1 lt ne in auto)
  have ul: "unlinked (k_procs k1) c" using n1 [OF c(1)] P by (simp add: unlinked_def)
  have D: "dlist (k_procs ?k) (k_ready ?k) (c # rs)"
    using list_add_dlist [OF d1(1) _ _ ul] nc c(1) len(2) by (simp add: get_list_def)
  have cl: "c < length (k_procs k1)" using c(1) len(2) by simp
  note B = list_add_body [OF d1(1) cl]
  have S: "dlist (k_procs ?k) (k_suspended ?k) ss"
  proof -
    have sd: "set rs \<inter> set ss = {}" using s by (simp add: sched_def)
    have "k_suspended ?k = k_suspended k1" using list_add_frame(3) [of Ready Suspended c k1] by (simp add: get_list_def)
    moreover have "k_procs ?k ! x = k_procs k1 ! x" if "x \<in> set ss" for x
      using B(2) [of x] that lt [of x] ne [of x] len(2) sd by auto
    ultimately show ?thesis by (simp add: dlist_untouched [OF d1(2)])
  qed
  show sb: "same_body (k_procs k1 ! j) (k_procs ?k ! j)" if "j < MAX_PROCESSES" for j
    using B(1) [of j] that len(2) by simp
  have f: "live_proc (k_procs ?k ! j) = live_proc (k_procs k1 ! j)" "pr_ready (k_procs ?k ! j) = pr_ready (k_procs k1 ! j)"
    "pr_exists (k_procs ?k ! j) = pr_exists (k_procs k1 ! j)" "pr_pid (k_procs ?k ! j) = pr_pid (k_procs k1 ! j)"
    if "j < MAX_PROCESSES" for j
    using same_bodyD [OF sb [OF that]] by (simp_all add: live_proc_def)
  have u: "unlinked (k_procs ?k) j" if "j < MAX_PROCESSES" "j \<notin> set (c # rs) \<union> set ss" for j
  proof -
    have "k_procs ?k ! j = k_procs k ! j" using B(2) [of j] n1 [OF that(1)] that len(2) by auto
    then show ?thesis using s that by (auto simp: sched_def unlinked_def)
  qed
  have old: "j \<in> set rs \<longleftrightarrow> live_proc (k_procs k ! j) \<and> pr_ready (k_procs k ! j)"
    "j \<in> set ss \<longleftrightarrow> live_proc (k_procs k ! j) \<and> \<not> pr_ready (k_procs k ! j)"
    "pr_exists (k_procs k ! j) \<Longrightarrow> pr_pid (k_procs k ! j) = int j" if "j < MAX_PROCESSES" for j
    using s that by (auto simp: sched_def)
  have cur: "x \<in> set rs \<union> set ss" if "k_current k = Some x" for x using s that by (auto simp: sched_def)
  have each: "(j \<in> set (c # rs) \<longleftrightarrow> live_proc (k_procs ?k ! j) \<and> pr_ready (k_procs ?k ! j)) \<and>
     (j \<in> set ss \<longleftrightarrow> live_proc (k_procs ?k ! j) \<and> \<not> pr_ready (k_procs ?k ! j)) \<and>
     (j \<notin> set (c # rs) \<union> set ss \<longrightarrow> unlinked (k_procs ?k) j) \<and>
     (pr_exists (k_procs ?k ! j) \<longrightarrow> pr_pid (k_procs ?k ! j) = int j)" if "j < MAX_PROCESSES" for j
    unfolding f [OF that] n1 [OF that] using old [OF that] u [OF that] nc P by auto
  have dj: "set (c # rs) \<inter> set ss = {}" using s nc by (auto simp: sched_def)
  show "sched ?k (c # rs) ss"
    unfolding sched_def
  proof (intro conjI allI impI)
    show "length (k_procs ?k) = MAX_PROCESSES" using len(2) by simp
    show "x \<in> set (c # rs) \<union> set ss" if "k_current ?k = Some x" for x using that cur [of x] k1(4) by auto
  qed (use D S dj each in blast)+
  show "only_sched k1 ?k" by (rule only_sched_list_add)
qed

subsection \<open>Sharing the descriptors\<close>

lemma share_fds_returns:
  assumes "\<forall>fh. Some fh \<in> set fds \<longrightarrow> k_handles k fh \<noteq> None" "c < length (k_procs k)"
    and "drop i (pr_filedesc (k_procs k ! c)) = replicate (length fds) None"
  shows "share_fds c i fds k = Some (upd_proc c (\<lambda>p. p\<lparr>pr_filedesc := take i (pr_filedesc p) @ fds\<rparr>)
    (k\<lparr>k_handles := (\<lambda>fh. map_option (\<lambda>h. h\<lparr>fh_refcount := fh_refcount h + int (count_list fds (Some fh))\<rparr>) (k_handles k fh))\<rparr>))"
  using assms
proof (induction c i fds k rule: share_fds.induct)
  case (1 c i k)
  have "map_option (\<lambda>h. h) = (id :: filehandle option \<Rightarrow> _)" by (rule ext) (case_tac x; simp)
  then have e: "(\<lambda>fh. map_option (\<lambda>h. h) (k_handles k fh)) = k_handles k" by (simp add: fun_eq_iff)
  have "take i (pr_filedesc (k_procs k ! c)) = pr_filedesc (k_procs k ! c)" using 1(3) by simp
  with 1(2) e show ?case by (simp add: upd_proc_def)
next
  case (2 c i fds k)
  let ?f = "pr_filedesc (k_procs k ! c)"
  have d: "drop i ?f = None # replicate (length fds) None" using 2(4) by simp
  then have il: "i < length ?f" by (metis drop_all list.distinct(1) not_less)
  have "drop (Suc i) ?f = replicate (length fds) None" "?f ! i = None"
    using d Cons_nth_drop_Suc [OF il] by simp_all
  moreover have "take (Suc i) ?f = take i ?f @ [None]" using il calculation(2) by (simp add: take_Suc_conv_app_nth)
  ultimately show ?case using 2(1) [of] 2(2,3) by (simp add: upd_proc_def)
next
  case (3 c i fh fds k)
  let ?f = "pr_filedesc (k_procs k ! c)"
  have d: "drop i ?f = None # replicate (length fds) None" using 3(4) by simp
  then have il: "i < length ?f" by (metis drop_all list.distinct(1) not_less)
  have dr: "drop (Suc i) ?f = replicate (length fds) None" using d Cons_nth_drop_Suc [OF il] by simp
  from 3(2) obtain h where h: "k_handles k fh = Some h" by auto
  let ?k = "(set_fd c i (Some fh) k)\<lparr>k_handles := (k_handles k)(fh \<mapsto> h\<lparr>fh_refcount := fh_refcount h + 1\<rparr>)\<rparr>"
  have u: "upd_handle fh (\<lambda>h. h\<lparr>fh_refcount := fh_refcount h + 1\<rparr>) (set_fd c i (Some fh) k) = Some ?k"
    using h by (simp add: upd_handle_def set_fd_def)
  have tk: "take (Suc i) (?f[i := Some fh]) = take i ?f @ [Some fh]" using il by (simp add: take_Suc_conv_app_nth)
  have pf: "pr_filedesc (k_procs ?k ! c) = ?f[i := Some fh]" using 3(3) by (simp add: set_fd_def nth_upd_proc)
  have "share_fds c (Suc i) fds ?k = Some (upd_proc c (\<lambda>p. p\<lparr>pr_filedesc := take (Suc i) (pr_filedesc p) @ fds\<rparr>)
    (?k\<lparr>k_handles := (\<lambda>fh. map_option (\<lambda>h. h\<lparr>fh_refcount := fh_refcount h + int (count_list fds (Some fh))\<rparr>) (k_handles ?k fh))\<rparr>))"
  proof (rule 3(1))
    show "upd_handle fh (\<lambda>h. h\<lparr>fh_refcount := fh_refcount h + 1\<rparr>) (set_fd c i (Some fh) k) = Some ?k" by (rule u)
  qed (use 3(2,3) dr pf in \<open>auto simp: set_fd_def\<close>)
  moreover have "(\<lambda>x. map_option (\<lambda>h. h\<lparr>fh_refcount := fh_refcount h + int (count_list fds (Some x))\<rparr>) (k_handles ?k x)) =
    (\<lambda>x. map_option (\<lambda>h. h\<lparr>fh_refcount := fh_refcount h + int (count_list (Some fh # fds) (Some x))\<rparr>) (k_handles k x))"
    using h by (auto simp: fun_eq_iff)
  ultimately show ?case
    using u tk 3(3) by (simp add: set_fd_def upd_proc_def)
qed

subsection \<open>The memory of the child\<close>

text \<open>
  The address space of a process: text, data and stack, in this order, above the 6MB that are mapped for the
  kernel; \<open>space_size\<close> counts its pages.
\<close>

definition space_ok :: "process \<Rightarrow> bool" where
  "space_ok p \<longleftrightarrow>
     page_aligned (pr_text_start p) \<and> page_aligned (pr_text_end p) \<and> page_aligned (pr_data_start p) \<and>
     page_aligned (pr_data_end p) \<and> page_aligned (pr_stack_start p) \<and> page_aligned (pr_stack_end p) \<and>
     6 * MB \<le> pr_text_start p \<and> pr_text_start p \<le> pr_text_end p \<and> pr_text_end p \<le> pr_data_start p \<and>
     pr_data_start p \<le> pr_data_end p \<and> pr_data_end p \<le> pr_stack_start p \<and> pr_stack_start p \<le> pr_stack_end p \<and>
     pr_stack_end p \<le> 0xFFFFF000"

definition space_pages :: "process \<Rightarrow> u32 set" where
  "space_pages p =
     pages_in (pr_text_start p) (pr_text_end p) \<union> pages_in (pr_data_start p) (pr_data_end p) \<union>
     pages_in (pr_stack_start p) (pr_stack_end p)"

definition space_size :: "process \<Rightarrow> nat" where
  "space_size p =
     (unat (pr_text_end p) - unat (pr_text_start p)) div 4096 + (unat (pr_data_end p) - unat (pr_data_start p)) div 4096 +
     (unat (pr_stack_end p) - unat (pr_stack_start p)) div 4096"

lemma pages_in_disjoint: "b \<le> c \<Longrightarrow> pages_in a b \<inter> pages_in c d = {}"
  by (auto simp: pages_in_def)

lemma space_pages_high: "space_ok p \<Longrightarrow> a \<in> space_pages p \<Longrightarrow> page_aligned a \<and> 6 * MB \<le> a"
  unfolding space_ok_def space_pages_def pages_in_def by (auto intro: order.trans)

lemma fork_memory_copies:
  assumes p: "space_ok p" and s: "source_ok s (pr_pdir p) pdir (space_pages p)"
    and mem: "card (live_pages s) + 1536 + 2 * space_size p \<le> ram_pages s"
  shows "\<exists>s0 s'. fork_memory p pdir s = Some s' \<and> dir_ext s pdir s0 \<and> copied s0 (pr_pdir p) pdir (space_pages p) s' \<and>
    (\<forall>k. page_aligned k \<longrightarrow> pte s0 pdir k = (if k < 6 * MB then Some (k OR PAGE_PRESENT OR PAGE_USER OR PAGE_READ_ONLY) else pte s pdir k))"
proof -
  let ?P = "pr_pdir p"
  let ?T = "pages_in (pr_text_start p) (pr_text_end p)" and ?D = "pages_in (pr_data_start p) (pr_data_end p)"
    and ?S = "pages_in (pr_stack_start p) (pr_stack_end p)"
  let ?t = "(unat (pr_text_end p) - unat (pr_text_start p)) div 4096" and ?d = "(unat (pr_data_end p) - unat (pr_data_start p)) div 4096"
    and ?s = "(unat (pr_stack_end p) - unat (pr_stack_start p)) div 4096"
  note P = p [unfolded space_ok_def]
  have I: "pages_inv s" "dir_ok s pdir" using s by (auto simp: source_ok_def)
  have n: "(6 * MB :: u32) \<le> 0xFFFFF000" "unat (6 * MB :: u32) \<le> unat (0 * MB :: u32) + 4096 * 1536"
    "card (live_pages s) + 1536 \<le> ram_pages s" "page_aligned (0 * MB)" using mem by (simp_all add: MB_def)
  from identity_map_spec [OF I n(4,1,2,3), of PAGE_USER PAGE_READ_ONLY] obtain s0 where
    s0: "identity_map pdir (0 * MB) (6 * MB) PAGE_USER PAGE_READ_ONLY s = Some s0" "dir_ext s pdir s0"
      "card (live_pages s0) \<le> card (live_pages s) + 1536"
      "\<And>k. page_aligned k \<Longrightarrow> pte s0 pdir k = (if 0 * MB \<le> k \<and> k < 6 * MB then Some (k OR PAGE_PRESENT OR PAGE_USER OR PAGE_READ_ONLY)
        else pte s pdir k)" by blast
  have ram: "ram_pages y = ram_pages x" if "dir_ext x pdir y" for x y using that by (simp add: dir_ext_def ram_pages_def)
  have so0: "source_ok s0 ?P pdir (space_pages p)" by (rule source_ok_ext(1) [OF s s0(2)])
  have le: "pr_text_end p \<le> 0xFFFFF000" "pr_data_end p \<le> 0xFFFFF000" using P by (meson order.trans)+
  have "\<exists>s'. map_and_copy ?P pdir (pr_text_start p) (pr_text_end p) s0 = Some s' \<and> copied s0 ?P pdir ?T s' \<and>
      card (live_pages s') \<le> card (live_pages s0) + 2 * ?t"
    using P le(1) s0(3) mem ram [OF s0(2)]
    by (intro map_and_copy_copies source_ok_sub [OF so0]) (auto simp: space_pages_def space_size_def)
  then obtain s1 where s1: "map_and_copy ?P pdir (pr_text_start p) (pr_text_end p) s0 = Some s1" "copied s0 ?P pdir ?T s1"
      "card (live_pages s1) \<le> card (live_pages s0) + 2 * ?t" by blast
  have e1: "dir_ext s0 pdir s1" using s1(2) by (simp add: copied_def)
  have so1: "source_ok s1 ?P pdir (space_pages p)" by (rule source_ok_ext(1) [OF so0 e1])
  have "\<exists>s'. map_and_copy ?P pdir (pr_data_start p) (pr_data_end p) s1 = Some s' \<and> copied s1 ?P pdir ?D s' \<and>
      card (live_pages s') \<le> card (live_pages s1) + 2 * ?d"
    using P le(2) s0(3) s1(3) mem ram [OF s0(2)] ram [OF e1]
    by (intro map_and_copy_copies source_ok_sub [OF so1]) (auto simp: space_pages_def space_size_def)
  then obtain s2 where s2: "map_and_copy ?P pdir (pr_data_start p) (pr_data_end p) s1 = Some s2" "copied s1 ?P pdir ?D s2"
      "card (live_pages s2) \<le> card (live_pages s1) + 2 * ?d" by blast
  have e2: "dir_ext s1 pdir s2" using s2(2) by (simp add: copied_def)
  have so2: "source_ok s2 ?P pdir (space_pages p)" by (rule source_ok_ext(1) [OF so1 e2])
  have "\<exists>s'. map_and_copy ?P pdir (pr_stack_start p) (pr_stack_end p) s2 = Some s' \<and> copied s2 ?P pdir ?S s' \<and>
      card (live_pages s') \<le> card (live_pages s2) + 2 * ?s"
    using P s0(3) s1(3) s2(3) mem ram [OF s0(2)] ram [OF e1] ram [OF e2]
    by (intro map_and_copy_copies source_ok_sub [OF so2]) (auto simp: space_pages_def space_size_def)
  then obtain s3 where s3: "map_and_copy ?P pdir (pr_stack_start p) (pr_stack_end p) s2 = Some s3" "copied s2 ?P pdir ?S s3" by blast
  have "?T \<inter> ?D = {}" by (rule pages_in_disjoint) (use P in blast)
  then have TD: "copied s0 ?P pdir (?T \<union> ?D) s2"
    by (rule copied_union [OF source_ok_sub [OF so0] s1(2) s2(2), rotated]) (simp add: space_pages_def)
  have "pr_text_end p \<le> pr_stack_start p" using P by (meson order.trans)
  then have "(?T \<union> ?D) \<inter> ?S = {}" using pages_in_disjoint P by (metis Int_Un_distrib2 Un_absorb)
  then have "copied s0 ?P pdir (space_pages p) s3"
    unfolding space_pages_def by (rule copied_union [OF source_ok_sub [OF so0] TD s3(2), rotated]) (simp add: space_pages_def)
  moreover have "fork_memory p pdir s = Some s3" using s0(1) s1(1) s2(1) s3(1) by (simp add: fork_memory_def)
  moreover have "pte s0 pdir k = (if k < 6 * MB then Some (k OR PAGE_PRESENT OR PAGE_USER OR PAGE_READ_ONLY) else pte s pdir k)"
    if "page_aligned k" for k using s0(4) [OF that] by (simp add: MB_def)
  ultimately show ?thesis using s0(2) by blast
qed

subsection \<open>fork\<close>

text \<open>Process \<open>q\<close> in \<open>s'\<close> has a copy of its own of the memory that \<open>p\<close> has in \<open>s\<close>; all that was in use in \<open>s\<close> is unchanged.\<close>

definition memory_copied :: "mm \<Rightarrow> process \<Rightarrow> mm \<Rightarrow> process \<Rightarrow> bool" where
  "memory_copied s p s' q \<longleftrightarrow>
     (\<exists>f. inj_on f (space_pages p) \<and>
        (\<forall>a\<in>space_pages p. lookup_page (pr_pdir q) a s' = Some (Some (f a)) \<and> f a \<notin> live_pages s \<and>
           (\<forall>j<1024. mm_load (slot (f a) j) s' = mm_load (slot (page_of s (pr_pdir p) a) j) s))) \<and>
     (\<forall>a. page_aligned a \<longrightarrow> lookup_page (pr_pdir p) a s' = lookup_page (pr_pdir p) a s) \<and> agree_on (live_pages s) s s'"

text \<open>The memory of a process is mapped and handed out.\<close>

definition owns_memory :: "mm \<Rightarrow> process \<Rightarrow> bool" where
  "owns_memory s p \<longleftrightarrow>
     space_ok p \<and> pages_inv s \<and> dir_ok s (pr_pdir p) \<and>
     (\<forall>a\<in>space_pages p. pte s (pr_pdir p) a \<noteq> None \<and> page_of s (pr_pdir p) a \<in> live_pages s)"

lemma fork_memory_returns:
  assumes o: "owns_memory s p" and a: "alloc_page s = Some (pdir, s1)"
    and mem: "card (live_pages s) + 1537 + 2 * space_size p \<le> ram_pages s"
  obtains s' where "fork_memory p pdir s1 = Some s'" "\<And>q :: process. pr_pdir q = pdir \<Longrightarrow> memory_copied s p s' q"
proof -
  let ?P = "pr_pdir p"
  have O: "space_ok p" "pages_inv s" "dir_ok s ?P" using o by (auto simp: owns_memory_def)
  have g: "granted s pdir s1" by (rule alloc_page_granted [OF O(2) a])
  note N = new_dir [OF g] and G = granted_ext [OF g O(3)]
  have live: "live_pages s1 = insert pdir (live_pages s)" "pdir \<notin> live_pages s" using g by (auto simp: granted_def)
  have po: "page_of s1 ?P x = page_of s ?P x" for x by (simp add: page_of_def G(3))
  have "frames s1 ?P \<inter> frames s1 pdir = {}" using G(2) N(2) live(2) dir_okD(1) [OF O(3)] by auto
  then have src: "source_ok s1 ?P pdir (space_pages p)"
    unfolding source_ok_def using G(1) N(1,2) live o space_pages_high [OF O(1)]
    by (auto simp: dir_ext_def owns_memory_def G(3) po)
  have "card (live_pages s1) = Suc (card (live_pages s))" "ram_pages s1 = ram_pages s"
    using live g by (simp_all add: granted_def ram_pages_def)
  then have "card (live_pages s1) + 1536 + 2 * space_size p \<le> ram_pages s1" using mem by simp
  from fork_memory_copies [OF O(1) src this] obtain s0 s' where
    f: "fork_memory p pdir s1 = Some s'" "dir_ext s1 pdir s0" "copied s0 ?P pdir (space_pages p) s'" by blast
  note X0 = source_ok_ext [OF src f(2)]
  have e: "dir_ext s0 pdir s'" using f(3) by (simp add: copied_def)
  note X1 = source_ok_ext [OF X0(1) e]
  have sub: "live_pages s \<subseteq> live_pages s0" using f(2) live by (auto simp: dir_ext_def)
  obtain h where h: "inj_on h (space_pages p)" "\<And>x. x \<in> space_pages p \<Longrightarrow> pte s' pdir x = Some (h x OR 7)"
    "\<And>x. x \<in> space_pages p \<Longrightarrow> h x \<in> live_pages s' - live_pages s0 - frames s' pdir"
    "\<And>x j. x \<in> space_pages p \<Longrightarrow> j < 1024 \<Longrightarrow> mm_load (slot (h x) j) s' = mm_load (slot (page_of s0 ?P x) j) s0"
    using f(3) unfolding copied_def by blast
  have ag1: "agree_on (live_pages s) s s1" using g live(2) unfolding granted_def agree_on_def by (metis live_aligned)
  have e': "dir_ext s1 pdir s'" by (rule dir_ext_trans [OF f(2) e])
  have ag: "agree_on (live_pages s) s s'"
    using agree_on_trans [OF ag1] agree_on_mono [of "live_pages s1 - frames s1 pdir" s1 s' "live_pages s"] e' live N(2)
    by (auto simp: dir_ext_def)
  show thesis
  proof (rule that [OF f(1)])
    fix q :: process assume q: "pr_pdir q = pdir"
    have "lookup_page pdir x s' = Some (Some (h x)) \<and> h x \<notin> live_pages s \<and>
        (\<forall>j<1024. mm_load (slot (h x) j) s' = mm_load (slot (page_of s ?P x) j) s)" if x: "x \<in> space_pages p" for x
    proof -
      have al: "page_aligned x" "page_aligned (h x)" using space_pages_high [OF O(1) x] h(3) [OF x] by (auto dest: live_aligned)
      have "(h x OR 7) AND PAGE_ADDRESS_MASK = h x" using entry_address [OF al(2) flags_ok_consts(1,3)] by simp
      then have "lookup_page pdir x s' = Some (Some (h x))" by (simp add: lookup_page_pte [OF al(1)] h(2) [OF x])
      moreover have "mm_load (slot (page_of s0 ?P x) j) s0 = mm_load (slot (page_of s ?P x) j) s" if "j < 1024" for j
        using X0(3,4) [of x] po ag1 o x that by (simp add: agree_on_def owns_memory_def)
      ultimately show ?thesis using h(3,4) [OF x] sub by auto
    qed
    moreover have "lookup_page ?P x s' = lookup_page ?P x s" if "page_aligned x" for x
      by (simp add: lookup_page_pte [OF that] X1(2) X0(2) G(3))
    ultimately show "memory_copied s p s' q" using h(1) ag q unfolding memory_copied_def by blast
  qed
qed

lemma get_free_pid_cases:
  obtains "get_free_pid k = - 1" "\<forall>c. 1 \<le> c \<and> c < MAX_PROCESSES \<longrightarrow> pr_exists (k_procs k ! c)"
  | c where "get_free_pid k = int c" "1 \<le> c" "c < MAX_PROCESSES" "\<not> pr_exists (k_procs k ! c)"
    "\<forall>d. 1 \<le> d \<and> d < c \<longrightarrow> pr_exists (k_procs k ! d)"
proof -
  have L: "n \<le> free_pid_loop k n \<and> (\<forall>c. n \<le> c \<and> c < free_pid_loop k n \<longrightarrow> pr_exists (k_procs k ! c)) \<and>
    (free_pid_loop k n < MAX_PROCESSES \<longrightarrow> \<not> pr_exists (k_procs k ! free_pid_loop k n))" for n
  proof (induction k n rule: free_pid_loop.induct)
    case (1 k n)
    show ?case
    proof (cases "n < MAX_PROCESSES \<and> pr_exists (k_procs k ! n)")
      case True
      then have e: "free_pid_loop k n = free_pid_loop k (Suc n)" by (simp add: free_pid_loop.simps [of k n])
      have "pr_exists (k_procs k ! c)" if "n \<le> c" "c < free_pid_loop k (Suc n)" for c
        using 1 [OF True] that True by (cases "c = n") auto
      with 1 [OF True] show ?thesis unfolding e by auto
    next
      case False
      then have e: "free_pid_loop k n = n" by (subst free_pid_loop.simps) auto
      with False show ?thesis unfolding e by auto
    qed
  qed
  let ?n = "free_pid_loop k 1"
  show thesis
  proof (cases "MAX_PROCESSES \<le> ?n")
    case True
    have "get_free_pid k = - 1" using True by (simp add: get_free_pid_def Let_def)
    moreover have "\<forall>c. 1 \<le> c \<and> c < MAX_PROCESSES \<longrightarrow> pr_exists (k_procs k ! c)" using L [of 1] True by auto
    ultimately show ?thesis by (rule that(1))
  next
    case False
    then show ?thesis using L [of 1] by (intro that(2) [of ?n]) (simp_all add: get_free_pid_def Let_def)
  qed
qed

text \<open>The process structure of the child, and the handles with the references of the child counted.\<close>

definition child_of :: "nat \<Rightarrow> process \<Rightarrow> u32 \<Rightarrow> regs \<Rightarrow> process" where
  "child_of c p pdir r =
     zero_process\<lparr>pr_pid := int c, pr_parent_pid := pr_pid p, pr_exists := True, pr_pdir := pdir,
       pr_text_start := pr_text_start p, pr_text_end := pr_text_end p, pr_data_start := pr_data_start p,
       pr_data_end := pr_data_end p, pr_stack_start := pr_stack_start p, pr_stack_end := pr_stack_end p,
       pr_filedesc := pr_filedesc p, pr_saved_regs := r\<lparr>r_eax := 0\<rparr>, pr_cwd := pr_cwd p, pr_ready := True\<rparr>"

definition more_refs :: "u32 option list \<Rightarrow> (u32 \<rightharpoonup> filehandle) \<Rightarrow> u32 \<rightharpoonup> filehandle" where
  "more_refs fds H fh = map_option (\<lambda>h. h\<lparr>fh_refcount := fh_refcount h + int (count_list fds (Some fh))\<rparr>) (H fh)"

lemma fork_computes:
  assumes cp: "current_process k = Some (i, p)" and c: "get_free_pid k = int c" "c < length (k_procs k)"
    and a: "alloc_page (k_mm k) = Some (pdir, s1)" and f: "fork_memory p pdir s1 = Some s'"
    and fds: "length (pr_filedesc p) = MAX_FDS" "\<forall>fh. Some fh \<in> set (pr_filedesc p) \<longrightarrow> k_handles k fh \<noteq> None"
  shows "syscall_fork r k = Some (int c, list_add Ready c (k\<lparr>k_mm := s', k_paging := Some (pr_pdir p),
    k_handles := more_refs (pr_filedesc p) (k_handles k), k_procs := (k_procs k)[c := child_of c p pdir r]\<rparr>))"
proof -
  define q where "q = zero_process\<lparr>pr_pid := int c, pr_parent_pid := pr_pid p, pr_exists := True, pr_pdir := pdir,
    pr_text_start := pr_text_start p, pr_text_end := pr_text_end p, pr_data_start := pr_data_start p,
    pr_data_end := pr_data_end p, pr_stack_start := pr_stack_start p, pr_stack_end := pr_stack_end p\<rparr>"
  define k1 where "k1 = k\<lparr>k_procs := (k_procs k)[c := q], k_mm := s', k_paging := Some (pr_pdir p)\<rparr>"
  define k2 where "k2 = k1\<lparr>k_procs := (k_procs k)[c := q\<lparr>pr_filedesc := pr_filedesc p\<rparr>], k_handles := more_refs (pr_filedesc p) (k_handles k)\<rparr>"
  have "share_fds c 0 (pr_filedesc p) k1 = Some k2"
    using share_fds_returns [of "pr_filedesc p" k1 c 0] fds c(2)
    by (simp add: k1_def k2_def more_refs_def [abs_def] q_def zero_process_def upd_proc_def)
  with cp c a f show ?thesis
    by (simp add: syscall_fork_def pid_index_def k_alloc_page_def on_mm_def upd_proc_def disable_paging_def
        enable_paging_def k1_def k2_def q_def child_of_def Let_def)
qed

text \<open>
  C10: \<open>fork\<close>. When all process ids from 1 to 31 are taken it returns \<open>-EAGAIN\<close> and changes nothing. Otherwise, with enough memory, it
  returns the lowest process id from 1 on that was free (0 is never used). The child is at the front of the ready list; it has the parent's
  registers except that \<open>fork\<close> returns 0 in it, the same working directory and segments, and a physical copy of its own of
  every page of the parent, while no page that was in use before and no mapping of the parent changes. It has the same
  descriptors, and the reference count of every file handle has gone up by the number of descriptors that refer to it.
\<close>

theorem syscall_fork_correct:
  assumes s: "sched k rs ss" and cur: "k_current k = Some i" and p: "p = k_procs k ! i"
    and o: "owns_memory (k_mm k) p"
    and mem: "card (live_pages (k_mm k)) + 1537 + 2 * space_size p \<le> ram_pages (k_mm k)"
    and fds: "length (pr_filedesc p) = MAX_FDS" "\<forall>fh. Some fh \<in> set (pr_filedesc p) \<longrightarrow> k_handles k fh \<noteq> None"
  shows "(\<forall>c. 1 \<le> c \<and> c < MAX_PROCESSES \<longrightarrow> pr_exists (k_procs k ! c)) \<and> syscall_fork r k = Some (- EAGAIN, k) \<or>
    (\<exists>c k' child. 1 \<le> c \<and> c < MAX_PROCESSES \<and> \<not> pr_exists (k_procs k ! c) \<and> (\<forall>d. 1 \<le> d \<and> d < c \<longrightarrow> pr_exists (k_procs k ! d)) \<and>
       syscall_fork r k = Some (int c, k') \<and>
       sched k' (c # rs) ss \<and> k_current k' = Some i \<and> k_paging k' = Some (pr_pdir p) \<and>
       child = k_procs k' ! c \<and> pr_parent_pid child = int i \<and> pr_saved_regs child = r\<lparr>r_eax := 0\<rparr> \<and>
       pr_cwd child = pr_cwd p \<and> segments child = segments p \<and> memory_copied (k_mm k) p (k_mm k') child \<and>
       pr_filedesc child = pr_filedesc p \<and>
       (\<forall>fh. k_handles k' fh =
          map_option (\<lambda>h. h\<lparr>fh_refcount := fh_refcount h + int (count_list (pr_filedesc p) (Some fh))\<rparr>) (k_handles k fh)))"
proof -
  have i: "i \<in> set rs \<union> set ss" using s cur by (auto simp: sched_def)
  note I = sched_proc [OF s i] sched_lt [OF s i]
  have cp: "current_process k = Some (i, p)" using cur I(1) p by (simp add: current_process_def)
  have len: "length (k_procs k) = MAX_PROCESSES" by (rule sched_length [OF s])
  have pid: "pr_pid p = int i" using I(5) p by simp
  show ?thesis
  proof (cases rule: get_free_pid_cases [of k])
    case 1
    then have "syscall_fork r k = Some (- EAGAIN, k)" by (simp add: syscall_fork_def)
    with 1 show ?thesis by blast
  next
    case (2 c)
    have inv: "pages_inv (k_mm k)" using o by (simp add: owns_memory_def)
    obtain pdir s1 where a: "alloc_page (k_mm k) = Some (pdir, s1)"
      using alloc_page_room [OF inv] room_if [OF inv] mem by auto
    obtain s' where f: "fork_memory p pdir s1 = Some s'" "\<And>q. pr_pdir q = pdir \<Longrightarrow> memory_copied (k_mm k) p s' q"
      by (rule fork_memory_returns [OF o a mem]) blast
    have cl: "c < length (k_procs k)" using 2(3) len by simp
    have ci: "c \<noteq> i" using 2(4) I(2) by auto
    let ?P = "child_of c p pdir r"
    let ?k3 = "k\<lparr>k_mm := s', k_paging := Some (pr_pdir p), k_handles := more_refs (pr_filedesc p) (k_handles k), k_procs := (k_procs k)[c := ?P]\<rparr>"
    let ?k = "list_add Ready c ?k3"
    have fork: "syscall_fork r k = Some (int c, ?k)" by (rule fork_computes [OF cp 2(1) cl a f(1) fds])
    have P: "live_proc ?P" "pr_ready ?P" "pr_pid ?P = int c" "pr_prev ?P = None" "pr_next ?P = None"
      by (simp_all add: child_of_def zero_process_def live_proc_def)
    note N = sched_new [OF s 2(3,4) _ _ _ _ P, of ?k3, simplified]
    have "same_body ?P (k_procs ?k ! c)" using N(3) [of c] 2(3) cl by simp
    then obtain x y where ch: "k_procs ?k ! c = ?P\<lparr>pr_prev := x, pr_next := y\<rparr>" unfolding same_body_def by blast
    have C: "pr_parent_pid (k_procs ?k ! c) = int i" "pr_saved_regs (k_procs ?k ! c) = r\<lparr>r_eax := 0\<rparr>" "pr_cwd (k_procs ?k ! c) = pr_cwd p"
      "segments (k_procs ?k ! c) = segments p" "pr_filedesc (k_procs ?k ! c) = pr_filedesc p" "pr_pdir (k_procs ?k ! c) = pdir"
      unfolding ch using pid by (simp_all add: child_of_def segments_def)
    have K: "k_current ?k = Some i" "k_paging ?k = Some (pr_pdir p)" "k_handles ?k = more_refs (pr_filedesc p) (k_handles k)" "k_mm ?k = s'"
      using only_schedD [OF N(2)] cur by simp_all
    show ?thesis
      using fork N(1) C K 2(2-5) f(2) [OF C(6)]
      by (intro disjI2 exI [of _ c] exI [of _ ?k] exI [of _ "k_procs ?k ! c"]) (simp add: more_refs_def)
  qed
qed

text \<open>A machine for the witness: process 1 has one page of stack.\<close>

lemma one_page: "pages_in 0x3FFFF000 0x40000000 = {0x3FFFF000}"
  using pages_in_step(1) [of "0x3FFFF000" "0x40000000"] by (simp add: page_aligned_mod)

lemma one_page_process:
  obtains s pdir where "pages_inv s" "dir_ok s pdir" "card (live_pages s) \<le> 3" "ram_pages s = 2560"
    "pte s pdir 0x3FFFF000 \<noteq> None" "page_of s pdir 0x3FFFF000 \<in> live_pages s" "page_of s pdir 0x3FFFF000 \<notin> frames s pdir"
proof -
  obtain pdir s where s: "pages_inv s" "dir_ok s pdir" "room s" "live_pages s = {pdir}" "ram_pages s = 2560"
    by (rule small_machine)
  obtain p s1 where a: "alloc_page s = Some (p, s1)" using s(1,3) by (rule alloc_page_room)
  have g: "granted s p s1" by (rule alloc_page_granted [OF s(1) a])
  then have s1: "pages_inv s1" "page_aligned p" "card (live_pages s1) = 2" "mm_ram s1 = mm_ram s"
    using s(4) by (auto simp: granted_def)
  have "room s1" using room_if [OF s1(1)] s1(3,4) s(5) by (simp add: ram_pages_def)
  have al: "page_aligned 0x3FFFF000" by (simp add: page_aligned_mod)
  obtain s2 where m: "map_page pdir 0x3FFFF000 p PAGE_USER PAGE_READ_WRITE s1 = Some s2"
    using s1(1) \<open>room s1\<close> al s1(2) by (rule map_page_returns)
  note N = new_page_step [OF s(1,2) al a m]
  have "(p OR 7) AND PAGE_ADDRESS_MASK = p" using entry_address [OF s1(2) flags_ok_consts(1,3)] by simp
  then have "page_of s2 pdir 0x3FFFF000 = p" using N(6) [OF al] by (simp add: page_of_def)
  then show thesis
    using N(1,2,4,7) N(6) [OF al] s(4,5) by (intro that [of s2 pdir]) (auto simp: dir_ext_def ram_pages_def)
qed

theorem syscall_fork_correct_witness:
  "\<exists>k k' p child. sched k [1] [2] \<and> owns_memory (k_mm k) p \<and> space_pages p = {0x3FFFF000} \<and>
     syscall_fork (init_regs 0x40000000 0x10000000) k = Some (3, k') \<and> sched k' [3, 1] [2] \<and>
     child = k_procs k' ! 3 \<and> r_eax (pr_saved_regs child) = 0 \<and> memory_copied (k_mm k) p (k_mm k') child"
proof -
  obtain s pdir where s: "pages_inv s" "dir_ok s pdir" "card (live_pages s) \<le> 3" "ram_pages s = 2560"
    "pte s pdir 0x3FFFF000 \<noteq> None" "page_of s pdir 0x3FFFF000 \<in> live_pages s" by (rule one_page_process)
  define upd where "upd q = q\<lparr>pr_pdir := pdir, pr_text_start := 0x10000000, pr_text_end := 0x10000000, pr_data_start := 0x20000000,
    pr_data_end := 0x20000000, pr_stack_start := 0x3FFFF000, pr_stack_end := 0x40000000\<rparr>" for q :: process
  define k where "k = (upd_proc 1 upd two_procs)\<lparr>k_mm := s\<rparr>"
  have s1: "sched (upd_proc 1 upd two_procs) [1] [2]"
    by (rule sched_update [OF two_procs_sched]) (simp add: upd_def same_links_def)
  have sk: "sched k [1] [2]" unfolding k_def by (rule sched_frame [OF s1]) (auto simp: two_procs_def)
  define p where "p = k_procs k ! 1"
  have pe: "p = upd (proc_of 1 True)" by (simp add: p_def k_def upd_proc_def two_procs_def)
  have cur: "k_current k = Some 1" by (simp add: k_def two_procs_def)
  have sp: "space_pages p = {0x3FFFF000}" using one_page by (simp add: space_pages_def pe upd_def)
  have "space_ok p" by (simp add: space_ok_def pe upd_def page_aligned_mod)
  then have o: "owns_memory (k_mm k) p" using s sp by (simp add: owns_memory_def k_def pe upd_def)
  have sz: "space_size p = 1" by (simp add: space_size_def pe upd_def)
  have fd: "pr_filedesc p = replicate 16 None" by (simp add: pe upd_def proc_of_def zero_process_def)
  have ex: "\<not> pr_exists (k_procs k ! 3)" "pr_exists (k_procs k ! 1)" "pr_exists (k_procs k ! 2)"
    by (simp_all add: k_def upd_proc_def two_procs_def proc_of_def upd_def zero_process_def)
  have "free_pid_loop k 3 = 3" by (subst free_pid_loop.simps) (simp add: ex)
  then have "free_pid_loop k 2 = 3" by (subst free_pid_loop.simps) (simp add: ex)
  then have "free_pid_loop k 1 = 3" by (subst free_pid_loop.simps) (use ex in \<open>simp flip: numeral_2_eq_2\<close>)
  then have fp: "get_free_pid k = 3" by (simp add: get_free_pid_def)
  have e: "3 = int c" if "syscall_fork r k = Some (int c, k')" for c r k'
  proof -
    from that have "int c = get_free_pid k" unfolding syscall_fork_def Let_def fp by (auto simp only: if_False bind_eq_Some_conv option.inject prod.inject split: if_splits)
    with fp show ?thesis by simp
  qed
  have mem: "card (live_pages (k_mm k)) + 1537 + 2 * space_size p \<le> ram_pages (k_mm k)" using s(3,4) sz by (simp add: k_def)
  have "\<exists>c k' child. c < MAX_PROCESSES \<and> syscall_fork (init_regs 0x40000000 0x10000000) k = Some (int c, k') \<and> sched k' [c, 1] [2] \<and>
    child = k_procs k' ! c \<and> pr_saved_regs child = (init_regs 0x40000000 0x10000000)\<lparr>r_eax := 0\<rparr> \<and>
    memory_copied (k_mm k) p (k_mm k') child"
    using syscall_fork_correct [OF sk cur p_def o mem, of "init_regs 0x40000000 0x10000000"] fd ex(1) by auto
  then obtain c k' where ck: "syscall_fork (init_regs 0x40000000 0x10000000) k = Some (int c, k')" "sched k' [c, 1] [2]"
    "pr_saved_regs (k_procs k' ! c) = (init_regs 0x40000000 0x10000000)\<lparr>r_eax := 0\<rparr>" "memory_copied (k_mm k) p (k_mm k') (k_procs k' ! c)"
    by blast
  then have "c = 3" using e by fastforce
  with ck sk o sp show ?thesis
    by - (rule exI [of _ k], rule exI [of _ k'], rule exI [of _ p], rule exI [of _ "k_procs k' ! 3"], simp)
qed

end
