(* ===== verification/Filedesc_Props.thy ===== *)
theory Filedesc_Props
  imports Pipe_Claims
begin

text \<open>
  Descriptors, file handles and the ends of pipes: the reference count of every handle is the number of
  descriptors that refer to it, no descriptor dangles, and a pipe lives as long as one of its
  ends. \<open>close\<close> and \<open>dup2\<close> keep this and never fail an assertion.
\<close>

subsection \<open>The invariant\<close>

definition refs :: "u32 \<Rightarrow> kernel \<Rightarrow> nat" where
  "refs fh k =
     (\<Sum>i<MAX_PROCESSES. if live_proc (k_procs k ! i) then count_list (pr_filedesc (k_procs k ! i)) (Some fh) else 0)"

definition is_reader :: "filehandle \<Rightarrow> u32 \<Rightarrow> bool" where
  "is_reader h b \<longleftrightarrow> fh_destroy h = Pipe_reader_destroy \<and> fh_p h = b"

definition is_writer :: "filehandle \<Rightarrow> u32 \<Rightarrow> bool" where
  "is_writer h b \<longleftrightarrow> fh_destroy h = Pipe_writer_destroy \<and> fh_p h = b"

text \<open>The handles against the pipes: an end that is open is marked as such, and each end has one handle.\<close>

definition ends_ok :: "kernel \<Rightarrow> bool" where
  "ends_ok k \<longleftrightarrow>
     (\<forall>fh h b. k_handles k fh = Some h \<longrightarrow>
        (is_reader h b \<longrightarrow> (\<exists>p. k_pipes k b = Some p \<and> pb_reading p)) \<and>
        (is_writer h b \<longrightarrow> (\<exists>p. k_pipes k b = Some p \<and> pb_writing p))) \<and>
     (\<forall>fh fh' h h' b. k_handles k fh = Some h \<longrightarrow> k_handles k fh' = Some h' \<longrightarrow>
        is_reader h b \<and> is_reader h' b \<or> is_writer h b \<and> is_writer h' b \<longrightarrow> fh = fh')"

text \<open>A process blocked on a pipe is suspended, has the reading end open and is blocked on no other pipe.\<close>

definition readers_ok :: "kernel \<Rightarrow> nat list \<Rightarrow> bool" where
  "readers_ok k ss \<longleftrightarrow>
     (\<forall>b p. k_pipes k b = Some p \<longrightarrow> pb_readpid p \<noteq> - 1 \<longrightarrow>
        0 \<le> pb_readpid p \<and> pid_index (pb_readpid p) \<in> set ss \<and>
        (\<exists>fh h. k_handles k fh = Some h \<and> is_reader h b \<and>
           Some fh \<in> set (pr_filedesc (k_procs k ! pid_index (pb_readpid p))))) \<and>
     (\<forall>b b' p p'. k_pipes k b = Some p \<longrightarrow> k_pipes k b' = Some p' \<longrightarrow> pb_readpid p = pb_readpid p' \<longrightarrow> pb_readpid p \<noteq> - 1 \<longrightarrow> b = b')"

definition fds_ok :: "kernel \<Rightarrow> nat list \<Rightarrow> bool" where
  "fds_ok k ss \<longleftrightarrow>
     pipes_ok k \<and> ends_ok k \<and> readers_ok k ss \<and>
     (\<forall>i<MAX_PROCESSES. live_proc (k_procs k ! i) \<longrightarrow> length (pr_filedesc (k_procs k ! i)) = MAX_FDS) \<and>
     (\<forall>fh h. k_handles k fh = Some h \<longrightarrow> 0 < refs fh k \<and> fh_refcount h = int (refs fh k)) \<and>
     (\<forall>fh. k_handles k fh = None \<longrightarrow> refs fh k = 0)"

subsection \<open>Counting references\<close>

lemma count_list_update:
  "n < length xs \<Longrightarrow> count_list (xs[n := v]) x + (if xs ! n = x then 1 else 0) = count_list xs x + (if v = x then 1 else 0)"
proof (induction xs arbitrary: n)
  case (Cons y ys)
  show ?case
  proof (cases n)
    case (Suc m)
    with Cons.IH [of m] Cons.prems show ?thesis by (simp split: if_splits)
  qed auto
qed simp

lemma refs_cong:
  assumes "\<And>i. i < MAX_PROCESSES \<Longrightarrow> live_proc (k_procs k' ! i) = live_proc (k_procs k ! i) \<and>
    pr_filedesc (k_procs k' ! i) = pr_filedesc (k_procs k ! i)"
  shows "refs fh k' = refs fh k"
  unfolding refs_def using assms by (intro sum.cong) auto

lemma refs_set_fd:
  assumes l: "length (k_procs k) = MAX_PROCESSES" and i: "i < MAX_PROCESSES" "live_proc (k_procs k ! i)"
    and n: "n < length (pr_filedesc (k_procs k ! i))"
  shows "refs fh (set_fd i n v k) + (if pr_filedesc (k_procs k ! i) ! n = Some fh then 1 else 0) =
    refs fh k + (if v = Some fh then 1 else 0)"
proof -
  let ?f = "\<lambda>k j. if live_proc (k_procs k ! j) then count_list (pr_filedesc (k_procs k ! j)) (Some fh) else 0"
  let ?k = "set_fd i n v k"
  have o: "k_procs ?k ! j = k_procs k ! j" if "j \<noteq> i" for j using that by (simp add: set_fd_def upd_proc_def)
  have s: "k_procs ?k ! i = (k_procs k ! i)\<lparr>pr_filedesc := (pr_filedesc (k_procs k ! i))[n := v]\<rparr>"
    using l i(1) by (simp add: set_fd_def upd_proc_def)
  have split: "refs fh k' = ?f k' i + (\<Sum>j\<in>{..<MAX_PROCESSES} - {i}. ?f k' j)" for k'
    unfolding refs_def using i(1) by (subst sum.remove [of _ i]) auto
  have "(\<Sum>j\<in>{..<MAX_PROCESSES} - {i}. ?f ?k j) = (\<Sum>j\<in>{..<MAX_PROCESSES} - {i}. ?f k j)"
    by (rule sum.cong) (auto simp: o)
  moreover have "?f ?k i + (if pr_filedesc (k_procs k ! i) ! n = Some fh then 1 else 0) = ?f k i + (if v = Some fh then 1 else 0)"
    using count_list_update [OF n, of v "Some fh"] i(2) by (simp add: s live_proc_def)
  ultimately show ?thesis unfolding split by simp
qed

lemma refs_pos:
  assumes "i < MAX_PROCESSES" "live_proc (k_procs k ! i)" "Some fh \<in> set (pr_filedesc (k_procs k ! i))"
  shows "0 < refs fh k"
proof -
  have "0 < count_list (pr_filedesc (k_procs k ! i)) (Some fh)" using assms(3) by (metis count_list_0_iff gr0I)
  then have "0 < (if live_proc (k_procs k ! i) then count_list (pr_filedesc (k_procs k ! i)) (Some fh) else 0)" using assms(2) by simp
  also have "\<dots> \<le> refs fh k" unfolding refs_def by (rule member_le_sum) (use assms(1) in auto)
  finally show ?thesis .
qed

text \<open>Two descriptors of different processes are two references.\<close>

lemma refs_two:
  assumes "i < MAX_PROCESSES" "live_proc (k_procs k ! i)" "Some fh \<in> set (pr_filedesc (k_procs k ! i))"
    and "j < MAX_PROCESSES" "live_proc (k_procs k ! j)" "Some fh \<in> set (pr_filedesc (k_procs k ! j))" and ij: "i \<noteq> j"
  shows "2 \<le> refs fh k"
proof -
  let ?f = "\<lambda>i. if live_proc (k_procs k ! i) then count_list (pr_filedesc (k_procs k ! i)) (Some fh) else 0"
  have c: "0 < ?f x" if "x = i \<or> x = j" for x using that assms by (auto simp: neq0_conv [symmetric] count_list_0_iff simp del: neq0_conv)
  have "2 \<le> sum ?f {i, j}" using ij c [of i] c [of j] by auto
  also have "\<dots> \<le> sum ?f {..<MAX_PROCESSES}" by (rule sum_mono2) (use assms(1,4) in auto)
  finally show ?thesis by (simp add: refs_def)
qed

subsection \<open>Destroying a handle\<close>

lemma pipe_drop_ok:
  assumes ok: "pipes_ok k" and p: "k_pipes k b = Some p"
  obtains k' where "do { k \<leftarrow> free_array (pb_data p) k; free_pipe b k } = Some k'" "pipes_ok k'"
    "\<exists>h as. k' = k\<lparr>k_heap := h, k_arrays := as, k_pipes := (k_pipes k)(b := None)\<rparr>"
proof -
  from pipes_okD [OF ok p] obtain arr where a: "heap_ok k" "k_arrays k (pb_data p) = Some arr" by metis
  then have "pb_data p \<in> dom (k_arrays k)" by auto
  from free_array_returns [OF a(1) this] obtain h where
    h: "free_array (pb_data p) k = Some (k\<lparr>k_arrays := (k_arrays k)(pb_data p := None), k_heap := h\<rparr>)"
      "heap_ok (k\<lparr>k_arrays := (k_arrays k)(pb_data p := None), k_heap := h\<rparr>)" by metis
  let ?k = "k\<lparr>k_arrays := (k_arrays k)(pb_data p := None), k_heap := h\<rparr>"
  have "b \<in> dom (k_pipes ?k)" using p by auto
  from free_pipe_returns [OF h(2) this] obtain h' where
    h': "free_pipe b ?k = Some (?k\<lparr>k_pipes := (k_pipes ?k)(b := None), k_heap := h'\<rparr>)"
      "heap_ok (?k\<lparr>k_pipes := (k_pipes ?k)(b := None), k_heap := h'\<rparr>)" by metis
  let ?k' = "?k\<lparr>k_pipes := (k_pipes ?k)(b := None), k_heap := h'\<rparr>"
  have "pipe_wf ?k' q" if "k_pipes k c = Some q" "c \<noteq> b" for c q
    using ok that pipes_ok_apart [OF ok p that(1)] by (auto simp: pipes_ok_def pipe_wf_def)
  then have "pipes_ok ?k'" using ok h'(2) unfolding pipes_ok_def by (auto split: if_splits)
  moreover have "\<exists>h as. ?k' = k\<lparr>k_heap := h, k_arrays := as, k_pipes := (k_pipes k)(b := None)\<rparr>"
    by (intro exI [of _ h'] exI [of _ "(k_arrays k)(pb_data p := None)"]) simp
  ultimately show thesis using h(1) h'(1) by (intro that [of ?k']) simp_all
qed

lemma check_buffer_free_returns:
  assumes ok: "pipes_ok k" and p: "k_pipes k b = Some p" and r: "\<not> pb_reading p \<Longrightarrow> \<not> pb_writing p \<Longrightarrow> pb_readpid p = - 1"
  obtains k' where "check_buffer_free b k = Some k'" "pipes_ok k'"
    "\<exists>h as. k' = k\<lparr>k_heap := h, k_arrays := as,
       k_pipes := (if pb_reading p \<or> pb_writing p then k_pipes k else (k_pipes k)(b := None))\<rparr>"
proof (cases "pb_reading p \<or> pb_writing p")
  case True
  have "\<exists>h as. k = k\<lparr>k_heap := h, k_arrays := as, k_pipes := k_pipes k\<rparr>" by (rule exI [of _ "k_heap k"], rule exI [of _ "k_arrays k"]) simp
  with True p ok show thesis by (intro that [of k]) (auto simp: check_buffer_free_def)
next
  case False
  obtain k' where "do { k \<leftarrow> free_array (pb_data p) k; free_pipe b k } = Some k'" "pipes_ok k'"
    "\<exists>h as. k' = k\<lparr>k_heap := h, k_arrays := as, k_pipes := (k_pipes k)(b := None)\<rparr>"
    by (rule pipe_drop_ok [OF ok p])
  with False p r show thesis by (intro that [of k']) (auto simp: check_buffer_free_def)
qed

lemma free_handle_pipes:
  assumes ok: "pipes_ok k" and fh: "k_handles k fh = Some h"
  obtains hp where "free_handle fh k = Some (k\<lparr>k_handles := (k_handles k)(fh := None), k_heap := hp\<rparr>)"
    "pipes_ok (k\<lparr>k_handles := (k_handles k)(fh := None), k_heap := hp\<rparr>)"
proof -
  have "heap_ok k" "fh \<in> dom (k_handles k)" using ok fh by (auto simp: pipes_ok_def)
  from free_handle_returns [OF this] obtain hp where
    "free_handle fh k = Some (k\<lparr>k_handles := (k_handles k)(fh := None), k_heap := hp\<rparr>)"
    "heap_ok (k\<lparr>k_handles := (k_handles k)(fh := None), k_heap := hp\<rparr>)" by metis
  with ok show thesis by (intro that) (auto simp: pipes_ok_def pipe_wf_def)
qed

text \<open>A pipe after one of its ends has been closed.\<close>

definition closed_end :: "filehandle \<Rightarrow> u32 \<Rightarrow> pipe_buffer \<Rightarrow> pipe_buffer" where
  "closed_end h b p =
     p\<lparr>pb_reading := (pb_reading p \<and> \<not> is_reader h b), pb_writing := (pb_writing p \<and> \<not> is_writer h b),
       pb_readpid := (if is_writer h b then - 1 else pb_readpid p)\<rparr>"

definition gone :: "filehandle \<Rightarrow> u32 \<Rightarrow> pipe_buffer \<Rightarrow> bool" where
  "gone h b p \<longleftrightarrow>
     (is_reader h b \<or> is_writer h b) \<and> \<not> pb_reading (closed_end h b p) \<and> \<not> pb_writing (closed_end h b p)"

definition destroyed :: "u32 \<Rightarrow> filehandle \<Rightarrow> kernel \<Rightarrow> nat list \<Rightarrow> kernel \<Rightarrow> nat list \<Rightarrow> bool" where
  "destroyed fh h k ss k' ss' \<longleftrightarrow>
     pipes_ok k' \<and> k_handles k' = (k_handles k)(fh := None) \<and> k_current k' = k_current k \<and>
     (\<forall>i<MAX_PROCESSES. live_proc (k_procs k' ! i) = live_proc (k_procs k ! i) \<and>
        pr_filedesc (k_procs k' ! i) = pr_filedesc (k_procs k ! i)) \<and>
     (\<forall>b. k_pipes k' b =
        (case k_pipes k b of None \<Rightarrow> None | Some p \<Rightarrow> if gone h b p then None else Some (closed_end h b p))) \<and>
     (ss' = ss \<or> (\<exists>b p. is_writer h b \<and> k_pipes k b = Some p \<and> pb_readpid p \<noteq> - 1 \<and>
        ss' = remove1 (pid_index (pb_readpid p)) ss))"

lemma not_end: "\<not> is_reader h b \<Longrightarrow> \<not> is_writer h b \<Longrightarrow> closed_end h b p = p \<and> \<not> gone h b p"
  by (cases p) (simp add: closed_end_def gone_def)

text \<open>The common tail of \<open>pipe_reader_destroy\<close> and \<open>pipe_writer_destroy\<close>.\<close>

lemma drop_end_returns:
  assumes ok: "pipes_ok k1" and p: "k_pipes k1 b = Some p" and r: "\<not> pb_reading p \<Longrightarrow> \<not> pb_writing p \<Longrightarrow> pb_readpid p = - 1"
    and fh: "k_handles k1 fh = Some h"
  obtains k' where "do { k \<leftarrow> check_buffer_free b k1; free_handle fh k } = Some k'" "pipes_ok k'"
    "\<exists>hp as. k' = k1\<lparr>k_heap := hp, k_arrays := as, k_handles := (k_handles k1)(fh := None),
       k_pipes := (if pb_reading p \<or> pb_writing p then k_pipes k1 else (k_pipes k1)(b := None))\<rparr>"
proof -
  obtain k2 hp as where k2: "check_buffer_free b k1 = Some k2" "pipes_ok k2"
    "k2 = k1\<lparr>k_heap := hp, k_arrays := as, k_pipes := (if pb_reading p \<or> pb_writing p then k_pipes k1 else (k_pipes k1)(b := None))\<rparr>"
    by (rule check_buffer_free_returns [OF ok p r]) blast+
  have "k_handles k2 fh = Some h" using k2(3) fh by simp
  then obtain hp' where f: "free_handle fh k2 = Some (k2\<lparr>k_handles := (k_handles k2)(fh := None), k_heap := hp'\<rparr>)"
    "pipes_ok (k2\<lparr>k_handles := (k_handles k2)(fh := None), k_heap := hp'\<rparr>)"
    by (rule free_handle_pipes [OF k2(2)])
  let ?k = "k2\<lparr>k_handles := (k_handles k2)(fh := None), k_heap := hp'\<rparr>"
  have "\<exists>hp as. ?k = k1\<lparr>k_heap := hp, k_arrays := as, k_handles := (k_handles k1)(fh := None),
       k_pipes := (if pb_reading p \<or> pb_writing p then k_pipes k1 else (k_pipes k1)(b := None))\<rparr>"
    by (rule exI [of _ hp'], rule exI [of _ as]) (simp add: k2(3))
  then show thesis using k2(1) f by (intro that [of ?k]) simp_all
qed

lemma destroy_plain:
  assumes ok: "pipes_ok k" and s: "sched k rs ss" and h: "k_handles k fh = Some h"
    and n: "\<And>b. \<not> is_reader h b \<and> \<not> is_writer h b" "destroy_handle fh k = free_handle fh k"
  shows "\<exists>k'. destroy_handle fh k = Some k' \<and> sched k' rs ss \<and> destroyed fh h k ss k' ss"
proof -
  obtain hp where f: "free_handle fh k = Some (k\<lparr>k_handles := (k_handles k)(fh := None), k_heap := hp\<rparr>)"
    "pipes_ok (k\<lparr>k_handles := (k_handles k)(fh := None), k_heap := hp\<rparr>)" by (rule free_handle_pipes [OF ok h])
  have "sched (k\<lparr>k_handles := (k_handles k)(fh := None), k_heap := hp\<rparr>) rs ss"
    by (rule sched_frame [OF s]) (use s in \<open>auto simp: sched_def\<close>)
  moreover have "destroyed fh h k ss (k\<lparr>k_handles := (k_handles k)(fh := None), k_heap := hp\<rparr>) ss"
    using f(2) n(1) not_end by (auto simp: destroyed_def split: option.splits)
  ultimately show ?thesis using f n(2) by auto
qed

lemma destroy_reader:
  assumes ok: "pipes_ok k" and s: "sched k rs ss" and h: "k_handles k fh = Some h" "fh_destroy h = Pipe_reader_destroy"
    and p: "k_pipes k (fh_p h) = Some p" "pb_reading p" "pb_readpid p = - 1"
  shows "\<exists>k'. destroy_handle fh k = Some k' \<and> sched k' rs ss \<and> destroyed fh h k ss k' ss"
proof -
  let ?b = "fh_p h" and ?p = "p\<lparr>pb_reading := False\<rparr>"
  let ?k1 = "k\<lparr>k_pipes := (k_pipes k)(?b \<mapsto> ?p)\<rparr>"
  have ok1: "pipes_ok ?k1" by (rule pipe_flags [OF ok p(1)]) simp_all
  obtain k' hp as where k': "do { k \<leftarrow> check_buffer_free ?b ?k1; free_handle fh k } = Some k'" "pipes_ok k'"
    "k' = ?k1\<lparr>k_heap := hp, k_arrays := as, k_handles := (k_handles ?k1)(fh := None),
       k_pipes := (if pb_reading ?p \<or> pb_writing ?p then k_pipes ?k1 else (k_pipes ?k1)(?b := None))\<rparr>"
    by (rule drop_end_returns [OF ok1, of ?b ?p fh h]) (use p(3) h(1) in auto)
  have e: "is_reader h b \<longleftrightarrow> b = ?b" "\<not> is_writer h b" for b using h(2) by (auto simp: is_reader_def is_writer_def)
  have d: "destroy_handle fh k = Some k'"
    using h p k'(1) by (simp add: destroy_handle_def pipe_reader_destroy_def upd_pipe_def)
  have pp: "k_pipes k' b = (case k_pipes k b of None \<Rightarrow> None | Some q \<Rightarrow> if gone h b q then None else Some (closed_end h b q))" for b
  proof (cases "b = ?b")
    case True
    have "closed_end h b p = ?p" using True by (cases p) (simp add: closed_end_def e)
    then show ?thesis using True p(1) e by (simp add: k'(3) gone_def)
  next
    case False
    then show ?thesis using not_end [of h b] e [of b] by (auto simp: k'(3) split: option.splits)
  qed
  have "sched k' rs ss" unfolding k'(3) by (rule sched_frame [OF s]) (use s in \<open>auto simp: sched_def\<close>)
  moreover have "destroyed fh h k ss k' ss" unfolding destroyed_def using k'(2) pp by (auto simp: k'(3))
  ultimately show ?thesis using d by blast
qed

lemma same_procs_fds:
  assumes "same_procs k k'" "i < length (k_procs k)"
  shows "live_proc (k_procs k' ! i) = live_proc (k_procs k ! i) \<and> pr_filedesc (k_procs k' ! i) = pr_filedesc (k_procs k ! i)"
  using assms by (auto simp: same_procs_def live_proc_def dest!: spec [of _ i])

lemma destroy_writer:
  assumes ok: "pipes_ok k" and s: "sched k rs ss" and h: "k_handles k fh = Some h" "fh_destroy h = Pipe_writer_destroy"
    and p: "k_pipes k (fh_p h) = Some p" "pb_writing p" "reader_ok p ss"
  shows "\<exists>k' rs' ss'. destroy_handle fh k = Some k' \<and> sched k' rs' ss' \<and> destroyed fh h k ss k' ss' \<and> set rs \<subseteq> set rs'"
proof -
  let ?b = "fh_p h" and ?p = "p\<lparr>pb_writing := False\<rparr>" and ?q = "p\<lparr>pb_writing := False, pb_readpid := - 1\<rparr>"
  let ?k1 = "k\<lparr>k_pipes := (k_pipes k)(?b \<mapsto> ?p)\<rparr>"
  have ok1: "pipes_ok ?k1" by (rule pipe_flags [OF ok p(1)]) simp_all
  have s1: "sched ?k1 rs ss" by (rule sched_frame [OF s]) (use s in \<open>auto simp: sched_def\<close>)
  have p1: "k_pipes ?k1 ?b = Some ?p" "reader_ok ?p ss" using p(3) by (simp_all add: reader_ok_def)
  from wake_up_reader_returns [OF s1 p1] obtain k2 ps r' s' where
    k2: "wake_up_reader ?b ?k1 = Some k2" "if pb_readpid ?p = - 1 then sched k2 rs ss
       else sched k2 (pid_index (pb_readpid ?p) # rs) (remove1 (pid_index (pb_readpid ?p)) ss)" "same_procs ?k1 k2"
      "k2 = ?k1\<lparr>k_procs := ps, k_ready := r', k_suspended := s', k_pipes := (k_pipes ?k1)(?b \<mapsto> ?p\<lparr>pb_readpid := - 1\<rparr>)\<rparr>" by metis
  define ss' where "ss' = (if pb_readpid p = - 1 then ss else remove1 (pid_index (pb_readpid p)) ss)"
  define rs' where "rs' = (if pb_readpid p = - 1 then rs else pid_index (pb_readpid p) # rs)"
  have s2: "sched k2 rs' ss'" using k2(2) by (simp add: ss'_def rs'_def split: if_splits)
  have q: "?p\<lparr>pb_readpid := - 1\<rparr> = ?q" by simp
  have p2: "k_pipes k2 = (k_pipes k)(?b \<mapsto> ?q)" "k_handles k2 = k_handles k" "k_current k2 = k_current k" using k2(4) q by simp_all
  have b2: "k_pipes k2 ?b = Some ?q" and h2: "k_handles k2 fh = Some h" using p2 h(1) by simp_all
  have ok2: "pipes_ok k2" by (rule wake_up_reader_pipes(1) [OF ok1 k2(1)])
  obtain k' hp as where k': "do { k \<leftarrow> check_buffer_free ?b k2; free_handle fh k } = Some k'" "pipes_ok k'"
    "k' = k2\<lparr>k_heap := hp, k_arrays := as, k_handles := (k_handles k2)(fh := None),
       k_pipes := (if pb_reading ?q \<or> pb_writing ?q then k_pipes k2 else (k_pipes k2)(?b := None))\<rparr>"
    by (rule drop_end_returns [OF ok2 b2 _ h2]) auto
  have e: "is_writer h b \<longleftrightarrow> b = ?b" "\<not> is_reader h b" for b using h(2) by (auto simp: is_reader_def is_writer_def)
  have d: "destroy_handle fh k = Some k'"
    using h p k'(1) k2(1) by (simp add: destroy_handle_def pipe_writer_destroy_def upd_pipe_def)
  have pp: "k_pipes k' b = (case k_pipes k b of None \<Rightarrow> None | Some q \<Rightarrow> if gone h b q then None else Some (closed_end h b q))" for b
  proof (cases "b = ?b")
    case True
    have "closed_end h b p = ?q" using True by (cases p) (simp add: closed_end_def e)
    then show ?thesis using True p(1) p2(1) e by (simp add: k'(3) gone_def)
  next
    case False
    then show ?thesis using not_end [of h b] e [of b] p2(1) by (auto simp: k'(3) split: option.splits)
  qed
  have s': "sched k' rs' ss'" unfolding k'(3) by (rule sched_frame [OF s2]) (use s2 in \<open>auto simp: sched_def\<close>)
  have "k_procs k' = k_procs k2" by (simp add: k'(3))
  then have fds: "live_proc (k_procs k' ! i) = live_proc (k_procs k ! i) \<and> pr_filedesc (k_procs k' ! i) = pr_filedesc (k_procs k ! i)"
    if "i < MAX_PROCESSES" for i
    using same_procs_fds [OF k2(3), of i] that sched_length [OF s] by simp
  have "ss' = ss \<or> (\<exists>b p. is_writer h b \<and> k_pipes k b = Some p \<and> pb_readpid p \<noteq> - 1 \<and> ss' = remove1 (pid_index (pb_readpid p)) ss)"
    using p(1) e(1) by (auto simp: ss'_def)
  then have "destroyed fh h k ss k' ss'" unfolding destroyed_def using k'(2) pp fds p2(2,3) by (simp add: k'(3))
  moreover have "set rs \<subseteq> set rs'" by (auto simp: rs'_def)
  ultimately show ?thesis using d s' by blast
qed

lemma destroy_returns:
  assumes ok: "pipes_ok k" and s: "sched k rs ss" and h: "k_handles k fh = Some h"
    and r: "\<And>b. is_reader h b \<Longrightarrow> \<exists>p. k_pipes k b = Some p \<and> pb_reading p \<and> pb_readpid p = - 1"
    and w: "\<And>b. is_writer h b \<Longrightarrow> \<exists>p. k_pipes k b = Some p \<and> pb_writing p \<and> reader_ok p ss"
  shows "\<exists>k' rs' ss'. destroy_handle fh k = Some k' \<and> sched k' rs' ss' \<and> destroyed fh h k ss k' ss' \<and> set rs \<subseteq> set rs'"
proof (cases "fh_destroy h")
  case Screen_destroy
  then have "\<not> is_reader h b \<and> \<not> is_writer h b" "destroy_handle fh k = free_handle fh k" for b
    using h by (simp_all add: is_reader_def is_writer_def destroy_handle_def screen_destroy_def)
  from destroy_plain [OF ok s h this] show ?thesis by blast
next
  case File_destroy
  then have "\<not> is_reader h b \<and> \<not> is_writer h b" "destroy_handle fh k = free_handle fh k" for b
    using h by (simp_all add: is_reader_def is_writer_def destroy_handle_def file_destroy_def)
  from destroy_plain [OF ok s h this] show ?thesis by blast
next
  case Pipe_reader_destroy
  with r [of "fh_p h"] obtain p where "k_pipes k (fh_p h) = Some p" "pb_reading p" "pb_readpid p = - 1" by (auto simp: is_reader_def)
  from destroy_reader [OF ok s h Pipe_reader_destroy this] show ?thesis by blast
next
  case Pipe_writer_destroy
  with w [of "fh_p h"] destroy_writer [OF ok s h Pipe_writer_destroy] show ?thesis by (auto simp: is_writer_def)
qed

subsection \<open>Closing a descriptor\<close>

lemma fds_okD:
  assumes "fds_ok k ss"
  shows "pipes_ok k" "ends_ok k" "readers_ok k ss"
    "i < MAX_PROCESSES \<Longrightarrow> live_proc (k_procs k ! i) \<Longrightarrow> length (pr_filedesc (k_procs k ! i)) = MAX_FDS"
    "k_handles k fh = Some h \<Longrightarrow> 0 < refs fh k \<and> fh_refcount h = int (refs fh k)" "k_handles k fh = None \<Longrightarrow> refs fh k = 0"
  using assms by (auto simp: fds_ok_def)

lemma readers_okD:
  assumes "readers_ok k ss" "k_pipes k b = Some p" "pb_readpid p \<noteq> - 1"
  obtains fh h where "0 \<le> pb_readpid p" "pid_index (pb_readpid p) \<in> set ss" "k_handles k fh = Some h" "is_reader h b"
    "Some fh \<in> set (pr_filedesc (k_procs k ! pid_index (pb_readpid p)))"
    "\<And>c q. k_pipes k c = Some q \<Longrightarrow> pb_readpid q = pb_readpid p \<Longrightarrow> c = b"
proof -
  have u: "c = b" if "k_pipes k c = Some q" "pb_readpid q = pb_readpid p" for c q
    using assms that unfolding readers_ok_def by metis
  show thesis using assms unfolding readers_ok_def by (blast intro: that u)
qed

lemma readers_ok_reader: "readers_ok k ss \<Longrightarrow> k_pipes k b = Some p \<Longrightarrow> reader_ok p ss"
  unfolding readers_ok_def reader_ok_def by blast

text \<open>The state of the handles and pipes after the last reference to \<open>fh\<close> is gone.\<close>

lemma destroyed_ends:
  assumes e: "ends_ok k" and h: "k_handles k fh = Some h" "is_reader h' = is_reader h" "is_writer h' = is_writer h"
    and d: "destroyed fh h' (k\<lparr>k_handles := (k_handles k)(fh \<mapsto> h')\<rparr>) ss k' ss'"
  shows "ends_ok k'"
proof -
  have H: "k_handles k' = (k_handles k)(fh := None)" using d by (simp add: destroyed_def)
  have P: "k_pipes k' b = (case k_pipes k b of None \<Rightarrow> None | Some p \<Rightarrow> if gone h' b p then None else Some (closed_end h' b p))" for b
    using d by (simp add: destroyed_def)
  have u: "\<not> is_reader h b" if "k_handles k g = Some hg" "g \<noteq> fh" "is_reader hg b" for g hg b
    using e h(1) that unfolding ends_ok_def by blast
  have v: "\<not> is_writer h b" if "k_handles k g = Some hg" "g \<noteq> fh" "is_writer hg b" for g hg b
    using e h(1) that unfolding ends_ok_def by blast
  have r: "\<exists>p. k_pipes k' b = Some p \<and> pb_reading p" if g: "k_handles k g = Some hg" "g \<noteq> fh" "is_reader hg b" for g hg b
  proof -
    obtain p where p: "k_pipes k b = Some p" "pb_reading p" using e g unfolding ends_ok_def by blast
    then have "pb_reading (closed_end h' b p)" "\<not> gone h' b p" using u [OF g] h(2) by (auto simp: closed_end_def gone_def)
    with p P show ?thesis by simp
  qed
  have w: "\<exists>p. k_pipes k' b = Some p \<and> pb_writing p" if g: "k_handles k g = Some hg" "g \<noteq> fh" "is_writer hg b" for g hg b
  proof -
    obtain p where p: "k_pipes k b = Some p" "pb_writing p" using e g unfolding ends_ok_def by blast
    then have "pb_writing (closed_end h' b p)" "\<not> gone h' b p" using v [OF g] h(3) by (auto simp: closed_end_def gone_def)
    with p P show ?thesis by simp
  qed
  show ?thesis
    unfolding ends_ok_def
  proof (intro conjI allI impI)
    fix g g' hg hg' b assume "k_handles k' g = Some hg" "k_handles k' g' = Some hg'"
      "is_reader hg b \<and> is_reader hg' b \<or> is_writer hg b \<and> is_writer hg' b"
    then show "g = g'" using e unfolding H ends_ok_def by (metis fun_upd_apply option.distinct(1))
  qed (use r w H in \<open>auto split: if_splits\<close>)
qed

lemma destroyed_readers:
  assumes f: "readers_ok k ss" and h: "k_handles k fh = Some h" "is_reader h' = is_reader h" "is_writer h' = is_writer h"
    and d: "destroyed fh h' (k\<lparr>k_handles := (k_handles k)(fh \<mapsto> h')\<rparr>) ss k' ss'"
    and last: "\<And>b p. k_pipes k b = Some p \<Longrightarrow> pb_readpid p \<noteq> - 1 \<Longrightarrow> Some fh \<notin> set (pr_filedesc (k_procs k ! pid_index (pb_readpid p)))"
    and lt: "\<forall>x\<in>set ss. x < MAX_PROCESSES"
  shows "readers_ok k' ss'"
proof -
  have P: "k_pipes k' b = (case k_pipes k b of None \<Rightarrow> None | Some p \<Rightarrow> if gone h' b p then None else Some (closed_end h' b p))" for b
    using d by (simp add: destroyed_def)
  have old: "\<exists>p. k_pipes k b = Some p \<and> \<not> is_writer h b \<and> pb_readpid q = pb_readpid p" if "k_pipes k' b = Some q" "pb_readpid q \<noteq> - 1" for b q
    using that P [of b] h(3) by (auto simp: closed_end_def split: option.splits if_splits)
  show ?thesis
    unfolding readers_ok_def
  proof (intro conjI allI impI)
    fix b q assume q: "k_pipes k' b = Some q" "pb_readpid q \<noteq> - 1"
    from old [OF q] obtain p where p: "k_pipes k b = Some p" "\<not> is_writer h b" "pb_readpid q = pb_readpid p" by blast
    then have ne: "pb_readpid p \<noteq> - 1" using q(2) by simp
    from readers_okD [OF f p(1) ne] obtain g hg where
      g: "0 \<le> pb_readpid p" "pid_index (pb_readpid p) \<in> set ss" "k_handles k g = Some hg" "is_reader hg b"
        "Some g \<in> set (pr_filedesc (k_procs k ! pid_index (pb_readpid p)))"
        "\<And>c q. k_pipes k c = Some q \<Longrightarrow> pb_readpid q = pb_readpid p \<Longrightarrow> c = b" by metis
    show "0 \<le> pb_readpid q" using g(1) p(3) by simp
    have "g \<noteq> fh" using g(5) last [OF p(1) ne] by auto
    then have "k_handles k' g = Some hg" using d g(3) by (simp add: destroyed_def)
    moreover have "pr_filedesc (k_procs k' ! pid_index (pb_readpid p)) = pr_filedesc (k_procs k ! pid_index (pb_readpid p))"
      using d g(2) lt by (simp add: destroyed_def)
    ultimately show "\<exists>fh h. k_handles k' fh = Some h \<and> is_reader h b \<and>
        Some fh \<in> set (pr_filedesc (k_procs k' ! pid_index (pb_readpid q)))"
      using g(4,5) p(3) by auto
    show "pid_index (pb_readpid q) \<in> set ss'"
    proof (cases "ss' = ss")
      case False
      then obtain c r where c: "is_writer h c" "k_pipes k c = Some r" "pb_readpid r \<noteq> - 1" "ss' = remove1 (pid_index (pb_readpid r)) ss"
        using d h(3) by (auto simp: destroyed_def)
      from readers_okD [OF f c(2,3)] have "0 \<le> pb_readpid r" by metis
      moreover have "pb_readpid r \<noteq> pb_readpid p" using g(6) [OF c(2)] c(1) p(2) by auto
      ultimately have "pid_index (pb_readpid p) \<noteq> pid_index (pb_readpid r)" using g(1) by (auto simp: pid_index_def)
      then show ?thesis using g(2) p(3) c(4) by simp
    qed (use g(2) p(3) in simp)
  next
    fix b b' q q' assume q: "k_pipes k' b = Some q" "k_pipes k' b' = Some q'" "pb_readpid q = pb_readpid q'" "pb_readpid q \<noteq> - 1"
    then have "pb_readpid q' \<noteq> - 1" by simp
    from old [OF q(1,4)] old [OF q(2) this] q(3,4) f show "b = b'" unfolding readers_ok_def by metis
  qed
qed

lemma ends_same [simp]:
  "is_reader (h\<lparr>fh_refcount := c\<rparr>) = is_reader h" "is_writer (h\<lparr>fh_refcount := c\<rparr>) = is_writer h"
  by (simp_all add: fun_eq_iff is_reader_def is_writer_def)

lemma refcount_frame:
  assumes h: "k_handles k fh = Some h" and k': "k' = k\<lparr>k_handles := (k_handles k)(fh \<mapsto> h\<lparr>fh_refcount := c\<rparr>)\<rparr>"
  shows "pipes_ok k \<Longrightarrow> pipes_ok k'" "ends_ok k \<Longrightarrow> ends_ok k'" "readers_ok k ss \<Longrightarrow> readers_ok k' ss"
proof -
  have d: "dom (k_handles k') = dom (k_handles k)" using h by (auto simp: k')
  then have "heap_ok k' = heap_ok k" by (intro heap_ok_cong) (simp_all add: k')
  then show "pipes_ok k \<Longrightarrow> pipes_ok k'" by (simp add: pipes_ok_def pipe_wf_def k')
  have m: "\<exists>h0. k_handles k g = Some h0 \<and> is_reader hg = is_reader h0 \<and> is_writer hg = is_writer h0" if "k_handles k' g = Some hg" for g hg
    using that h by (auto simp: k' split: if_splits)
  have n: "\<exists>h0. k_handles k' g = Some h0 \<and> is_reader hg = is_reader h0" if "k_handles k g = Some hg" for g hg
    using that h by (auto simp: k')
  have p: "k_pipes k' = k_pipes k" "k_procs k' = k_procs k" by (simp_all add: k')
  show "ends_ok k'" if e: "ends_ok k"
    unfolding ends_ok_def p
  proof (intro conjI allI impI)
    fix g g' hg hg' b assume *: "k_handles k' g = Some hg" "k_handles k' g' = Some hg'"
      "is_reader hg b \<and> is_reader hg' b \<or> is_writer hg b \<and> is_writer hg' b"
    from m [OF *(1)] m [OF *(2)] *(3) e show "g = g'" unfolding ends_ok_def by metis
  next
    fix g hg b assume *: "k_handles k' g = Some hg" "is_reader hg b"
    from m [OF *(1)] *(2) e show "\<exists>p. k_pipes k b = Some p \<and> pb_reading p" unfolding ends_ok_def by metis
  next
    fix g hg b assume *: "k_handles k' g = Some hg" "is_writer hg b"
    from m [OF *(1)] *(2) e show "\<exists>p. k_pipes k b = Some p \<and> pb_writing p" unfolding ends_ok_def by metis
  qed
  show "readers_ok k ss \<Longrightarrow> readers_ok k' ss"
    unfolding readers_ok_def p using n by metis
qed

lemma set_fd_frame:
  assumes "length (k_procs k) = MAX_PROCESSES"
  shows "pipes_ok (set_fd i n v k) = pipes_ok k" "ends_ok (set_fd i n v k) = ends_ok k"
    "readers_ok k ss \<Longrightarrow> i \<notin> set ss \<Longrightarrow> readers_ok (set_fd i n v k) ss" "k_handles (set_fd i n v k) = k_handles k"
    "k_current (set_fd i n v k) = k_current k" "sched k rs ss \<Longrightarrow> sched (set_fd i n v k) rs ss"
    "i < MAX_PROCESSES \<Longrightarrow> k_procs (set_fd i n v k) ! i = (k_procs k ! i)\<lparr>pr_filedesc := (pr_filedesc (k_procs k ! i))[n := v]\<rparr>"
    "j \<noteq> i \<Longrightarrow> k_procs (set_fd i n v k) ! j = k_procs k ! j"
proof -
  let ?k = "set_fd i n v k"
  show "pipes_ok ?k = pipes_ok k" unfolding set_fd_def by (rule pipes_frame) simp_all
  show "ends_ok ?k = ends_ok k" by (simp add: ends_ok_def set_fd_def)
  show o: "k_procs ?k ! j = k_procs k ! j" if "j \<noteq> i" for j using that by (simp add: set_fd_def upd_proc_def)
  show "readers_ok ?k ss" if r: "readers_ok k ss" "i \<notin> set ss"
  proof -
    have "pr_filedesc (k_procs ?k ! x) = pr_filedesc (k_procs k ! x)" if "x \<in> set ss" for x
      using o [of x] that r(2) by (cases "x = i") simp_all
    moreover have "k_pipes ?k = k_pipes k" "k_handles ?k = k_handles k" by (simp_all add: set_fd_def)
    ultimately show ?thesis using r(1) unfolding readers_ok_def by metis
  qed
  show "sched ?k rs ss" if "sched k rs ss"
    unfolding set_fd_def by (rule sched_update [OF that]) (simp add: same_links_def)
  show "i < MAX_PROCESSES \<Longrightarrow> k_procs ?k ! i = (k_procs k ! i)\<lparr>pr_filedesc := (pr_filedesc (k_procs k ! i))[n := v]\<rparr>"
    using assms by (simp add: set_fd_def upd_proc_def)
qed (simp_all add: set_fd_def)

text \<open>Processes that are not blocked on a pipe are not concerned when one is closed.\<close>

definition unblocked :: "nat \<Rightarrow> kernel \<Rightarrow> bool" where
  "unblocked x k \<longleftrightarrow> (\<forall>b p. k_pipes k b = Some p \<longrightarrow> pb_readpid p \<noteq> int x)"

lemma destroyed_unblocked:
  assumes d: "destroyed fh h k ss k' ss'" and r: "readers_ok k ss" and x: "unblocked x k"
  shows "unblocked x k'" "x \<in> set ss \<Longrightarrow> x \<in> set ss'"
proof -
  show "unblocked x k'"
    using d x unfolding unblocked_def destroyed_def closed_end_def by (auto split: option.splits if_splits)
  have "x \<noteq> pid_index (pb_readpid p)" if "k_pipes k b = Some p" "pb_readpid p \<noteq> - 1" for b p
  proof -
    have "pb_readpid p \<noteq> int x" using x that(1) by (simp add: unblocked_def)
    with readers_ok_reader [OF r that(1)] that(2) show ?thesis by (auto simp: reader_ok_def pid_index_def)
  qed
  then show "x \<in> set ss \<Longrightarrow> x \<in> set ss'" using d unfolding destroyed_def by auto
qed

text \<open>The two ways in which a descriptor gives up its reference.\<close>

lemma close_reference:
  assumes F: "pipes_ok k" "ends_ok k" "readers_ok k ss" and s: "sched k rs ss" and h: "k_handles k fh = Some h"
    and rc: "fh_refcount h = int n" "0 < n"
    and last: "\<And>b p. n = 1 \<Longrightarrow> k_pipes k b = Some p \<Longrightarrow> pb_readpid p \<noteq> - 1 \<Longrightarrow>
      Some fh \<notin> set (pr_filedesc (k_procs k ! pid_index (pb_readpid p)))"
  obtains k1 rs' ss' where "close_filehandle fh k = Some k1" "sched k1 rs' ss'" "set rs \<subseteq> set rs'" "k_current k1 = k_current k"
    "pipes_ok k1" "ends_ok k1" "readers_ok k1 ss'"
    "\<And>j. j < MAX_PROCESSES \<Longrightarrow> live_proc (k_procs k1 ! j) = live_proc (k_procs k ! j) \<and> pr_filedesc (k_procs k1 ! j) = pr_filedesc (k_procs k ! j)"
    "\<And>g. g \<noteq> fh \<Longrightarrow> k_handles k1 g = k_handles k g"
    "if n = 1 then k_handles k1 fh = None else \<exists>h. k_handles k1 fh = Some h \<and> fh_refcount h = int n - 1"
    "\<And>x. unblocked x k \<Longrightarrow> unblocked x k1 \<and> (x \<in> set ss \<longrightarrow> x \<in> set ss')"
proof -
  let ?h = "h\<lparr>fh_refcount := int n - 1\<rparr>" let ?k0 = "k\<lparr>k_handles := (k_handles k)(fh \<mapsto> ?h)\<rparr>"
  note R = refcount_frame [OF h refl, where c = "int n - 1"]
  have s0: "sched ?k0 rs ss" by (rule sched_frame [OF s]) (use s in \<open>auto simp: sched_def\<close>)
  have c: "close_filehandle fh k = (if n = 1 then destroy_handle fh ?k0 else Some ?k0)"
    using h rc by (simp add: close_filehandle_def upd_handle_def)
  show thesis
  proof (cases "n = 1")
    case False
    then show thesis using c s0 R F by (intro that [of ?k0 rs ss]) (simp_all add: unblocked_def)
  next
    case True
    note last = last [OF True]
    have rd: "\<exists>p. k_pipes ?k0 b = Some p \<and> pb_reading p \<and> pb_readpid p = - 1" if "is_reader ?h b" for b
    proof -
      have rb: "is_reader h b" using that by simp
      then obtain p where p: "k_pipes k b = Some p" "pb_reading p" using F(2) h unfolding ends_ok_def by blast
      have "pb_readpid p = - 1"
      proof (rule ccontr)
        assume ne: "pb_readpid p \<noteq> - 1"
        from readers_okD [OF F(3) p(1) ne] obtain g hg where
          g: "k_handles k g = Some hg" "is_reader hg b" "Some g \<in> set (pr_filedesc (k_procs k ! pid_index (pb_readpid p)))" by metis
        then have "g = fh" using F(2) h rb unfolding ends_ok_def by blast
        with g(3) last [OF p(1) ne] show False by simp
      qed
      with p show ?thesis by simp
    qed
    have wr: "\<exists>p. k_pipes ?k0 b = Some p \<and> pb_writing p \<and> reader_ok p ss" if "is_writer ?h b" for b
    proof -
      have "is_writer h b" using that by simp
      then obtain p where p: "k_pipes k b = Some p" "pb_writing p" using F(2) h unfolding ends_ok_def by blast
      with readers_ok_reader [OF F(3) p(1)] show ?thesis by simp
    qed
    have h0: "k_handles ?k0 fh = Some ?h" by simp
    from destroy_returns [OF R(1) [OF F(1)] s0 h0 rd wr] obtain k1 rs' ss' where
      d: "destroy_handle fh ?k0 = Some k1" "sched k1 rs' ss'" "destroyed fh ?h ?k0 ss k1 ss'" "set rs \<subseteq> set rs'" by blast
    have lt: "\<forall>x\<in>set ss. x < MAX_PROCESSES" using sched_lt [OF s] by blast
    show thesis
      using True c d destroyed_ends [OF F(2) h _ _ d(3)] destroyed_readers [OF F(3) h _ _ d(3) last lt]
        destroyed_unblocked [OF d(3) R(3) [OF F(3)]]
      by (intro that [of k1 rs' ss']) (simp_all add: destroyed_def unblocked_def)
  qed
qed

text \<open>A descriptor of a ready process is not the last reference of a process that is blocked.\<close>

lemma close_filehandle_returns:
  assumes f: "fds_ok k ss" and s: "sched k rs ss" and i: "i \<in> set rs" and fh: "Some fh \<in> set (pr_filedesc (k_procs k ! i))"
  obtains k1 rs' ss' where "close_filehandle fh k = Some k1" "sched k1 rs' ss'" "set rs \<subseteq> set rs'" "k_current k1 = k_current k"
    "pipes_ok k1" "ends_ok k1" "readers_ok k1 ss'"
    "\<And>j. j < MAX_PROCESSES \<Longrightarrow> live_proc (k_procs k1 ! j) = live_proc (k_procs k ! j) \<and> pr_filedesc (k_procs k1 ! j) = pr_filedesc (k_procs k ! j)"
    "\<And>g. g \<noteq> fh \<Longrightarrow> k_handles k1 g = k_handles k g"
    "if refs fh k = 1 then k_handles k1 fh = None else \<exists>h. k_handles k1 fh = Some h \<and> fh_refcount h = int (refs fh k) - 1"
proof -
  note F = fds_okD [OF f]
  have i': "i \<in> set rs \<union> set ss" using i by simp
  note I = sched_lt [OF s i'] sched_proc(2,3) [OF s i']
  have live: "live_proc (k_procs k ! i)" using I(2,3) by (simp add: live_proc_def)
  have pos: "0 < refs fh k" by (rule refs_pos [OF I(1) live fh])
  then obtain h where h: "k_handles k fh = Some h" using F(6) [of fh] by (cases "k_handles k fh") auto
  have rc: "fh_refcount h = int (refs fh k)" using F(5) [OF h] by simp
  have dj: "set rs \<inter> set ss = {}" using s by (simp add: sched_def)
  have l: "Some fh \<notin> set (pr_filedesc (k_procs k ! pid_index (pb_readpid p)))"
    if one: "refs fh k = 1" and p: "k_pipes k b = Some p" "pb_readpid p \<noteq> - 1" for b p
  proof
    let ?x = "pid_index (pb_readpid p)"
    assume m: "Some fh \<in> set (pr_filedesc (k_procs k ! ?x))"
    from readers_okD [OF F(3) p] have x: "?x \<in> set ss" by metis
    then have x': "?x \<in> set rs \<union> set ss" by simp
    have "live_proc (k_procs k ! ?x)" using sched_proc(2,3) [OF s x'] by (simp add: live_proc_def)
    from refs_two [OF I(1) live fh sched_lt [OF s x'] this m] x dj i one show False by auto
  qed
  show thesis by (rule close_reference [OF F(1-3) s h rc pos l]) (assumption+ | rule that)+
qed

lemma close_fd_ok:
  assumes f: "fds_ok k ss" and s: "sched k rs ss" and i: "i \<in> set rs" and n: "n < MAX_FDS"
    and fh: "pr_filedesc (k_procs k ! i) ! n = Some fh"
  obtains k1 rs' ss' where "close_filehandle fh k = Some k1" "sched (set_fd i n None k1) rs' ss'" "set rs \<subseteq> set rs'"
    "k_current k1 = k_current k" "length (k_procs k1) = MAX_PROCESSES" "fds_ok (set_fd i n None k1) ss'"
    "\<forall>j<MAX_PROCESSES. live_proc (k_procs k1 ! j) = live_proc (k_procs k ! j) \<and> pr_filedesc (k_procs k1 ! j) = pr_filedesc (k_procs k ! j)"
    "\<forall>g. g \<noteq> fh \<longrightarrow> k_handles k1 g = k_handles k g" "k_handles k1 fh = None \<longleftrightarrow> refs fh k = 1"
proof -
  note F = fds_okD [OF f]
  have i': "i \<in> set rs \<union> set ss" using i by simp
  note I = sched_lt [OF s i'] sched_proc(2,3) [OF s i']
  have live: "live_proc (k_procs k ! i)" using I(2,3) by (simp add: live_proc_def)
  have len: "length (pr_filedesc (k_procs k ! i)) = MAX_FDS" by (rule F(4) [OF I(1) live])
  have m: "Some fh \<in> set (pr_filedesc (k_procs k ! i))" using n len fh by (metis nth_mem)
  obtain k1 rs' ss' where k1: "close_filehandle fh k = Some k1" "sched k1 rs' ss'" "set rs \<subseteq> set rs'" "k_current k1 = k_current k"
    "pipes_ok k1" "ends_ok k1" "readers_ok k1 ss'"
    "\<And>j. j < MAX_PROCESSES \<Longrightarrow> live_proc (k_procs k1 ! j) = live_proc (k_procs k ! j) \<and> pr_filedesc (k_procs k1 ! j) = pr_filedesc (k_procs k ! j)"
    "\<And>g. g \<noteq> fh \<Longrightarrow> k_handles k1 g = k_handles k g"
    "if refs fh k = 1 then k_handles k1 fh = None else \<exists>h. k_handles k1 fh = Some h \<and> fh_refcount h = int (refs fh k) - 1"
    by (rule close_filehandle_returns [OF f s i m]) blast
  let ?k = "set_fd i n None k1"
  have l1: "length (k_procs k1) = MAX_PROCESSES" by (rule sched_length [OF k1(2)])
  note S = set_fd_frame [OF l1, where i = i and n = n and v = None]
  have "set rs' \<inter> set ss' = {}" using k1(2) by (simp add: sched_def)
  then have ni: "i \<notin> set ss'" using i k1(3) by auto
  have rf: "refs g k1 = refs g k" for g by (rule refs_cong) (use k1(8) in simp)
  have r: "refs g ?k + (if g = fh then 1 else 0) = refs g k" for g
    using refs_set_fd [OF l1 I(1), of n g None] k1(8) [OF I(1)] live len n fh rf by (simp split: if_splits)
  have r1: "refs fh ?k = refs fh k - 1" "refs g ?k = refs g k" if "g \<noteq> fh" for g using r [of fh] r [of g] that by auto
  have fl: "length (pr_filedesc (k_procs ?k ! j)) = MAX_FDS" if j: "j < MAX_PROCESSES" "live_proc (k_procs ?k ! j)" for j
  proof (cases "j = i")
    case True
    then show ?thesis using len k1(8) [OF I(1)] S(7) [OF I(1)] by simp
  next
    case False
    with j S(8) [of j] k1(8) [OF j(1)] F(4) [OF j(1)] show ?thesis by simp
  qed
  have pos: "0 < refs fh k" by (rule refs_pos [OF I(1) live m])
  have g1: "0 < refs g ?k \<and> fh_refcount h = int (refs g ?k)" if "k_handles k1 g = Some h" for g h
  proof (cases "g = fh")
    case True
    with that k1(10) have "refs fh k \<noteq> 1" "fh_refcount h = int (refs fh k) - 1" by (auto split: if_splits)
    with True r [of fh] pos show ?thesis by auto
  next
    case False
    with that k1(9) r [of g] F(5) [of g h] show ?thesis by simp
  qed
  have g0: "refs g ?k = 0" if "k_handles k1 g = None" for g
  proof (cases "g = fh")
    case True
    with that k1(10) have "refs fh k = 1" by (auto split: if_splits)
    with True r [of fh] show ?thesis by simp
  next
    case False
    with that k1(9) r [of g] F(6) [of g] show ?thesis by simp
  qed
  have "fds_ok ?k ss'"
    unfolding fds_ok_def S(1,2,4) using k1(5,6) S(3) [OF k1(7) ni] fl g1 g0 by blast
  moreover have "k_handles k1 fh = None \<longleftrightarrow> refs fh k = 1" using k1(10) by (auto split: if_splits)
  ultimately show thesis using k1 S(6) [OF k1(2)] l1 by (intro that [of k1 rs' ss']) blast+
qed

text \<open>
  C12: \<open>close\<close> keeps the books. On a descriptor that is not open it returns \<open>-EBADF\<close> and changes nothing. Otherwise it
  always returns 0 and no assertion fails: this descriptor and no other is free afterwards, the file handle is
  gone exactly when this was the last descriptor of any process that referred to it, all other handles are untouched, and
  the reference counts, the open ends of pipes and the blocked readers fit again.
\<close>

theorem syscall_close_correct:
  assumes f: "fds_ok k ss" and s: "sched k rs ss" and c: "k_current k = Some i" and i: "i \<in> set rs"
  shows "case fd_handle (k_procs k ! i) fd of
     None \<Rightarrow> syscall_close fd k = Some (- EBADF, k)
   | Some fh \<Rightarrow> \<exists>k' rs' ss'. syscall_close fd k = Some (0, k') \<and> fds_ok k' ss' \<and> sched k' rs' ss' \<and> set rs \<subseteq> set rs' \<and>
       (\<forall>j<MAX_PROCESSES. live_proc (k_procs k' ! j) = live_proc (k_procs k ! j) \<and> pr_filedesc (k_procs k' ! j) =
          (if j = i then (pr_filedesc (k_procs k ! j))[nat fd := None] else pr_filedesc (k_procs k ! j))) \<and>
       (k_handles k' fh = None \<longleftrightarrow> refs fh k = 1) \<and> (\<forall>g. g \<noteq> fh \<longrightarrow> k_handles k' g = k_handles k g)"
proof -
  have i': "i \<in> set rs \<union> set ss" using i by simp
  note I = sched_lt [OF s i'] sched_proc(1) [OF s i']
  have cp: "current_process k = Some (i, k_procs k ! i)" using c I(2) by (simp add: current_process_def)
  show ?thesis
  proof (cases "fd_handle (k_procs k ! i) fd")
    case None
    then show ?thesis using cp by (simp add: syscall_close_def)
  next
    case (Some fh)
    then have n: "nat fd < MAX_FDS" "pr_filedesc (k_procs k ! i) ! nat fd = Some fh" by (auto simp: fd_handle_def split: if_splits)
    obtain k1 rs' ss' where k1: "close_filehandle fh k = Some k1" "sched (set_fd i (nat fd) None k1) rs' ss'" "set rs \<subseteq> set rs'"
      "k_current k1 = k_current k" "length (k_procs k1) = MAX_PROCESSES" "fds_ok (set_fd i (nat fd) None k1) ss'"
      "\<forall>j<MAX_PROCESSES. live_proc (k_procs k1 ! j) = live_proc (k_procs k ! j) \<and> pr_filedesc (k_procs k1 ! j) = pr_filedesc (k_procs k ! j)"
      "\<forall>g. g \<noteq> fh \<longrightarrow> k_handles k1 g = k_handles k g" "k_handles k1 fh = None \<longleftrightarrow> refs fh k = 1"
      by (rule close_fd_ok [OF f s i n])
    note S = set_fd_frame [OF k1(5), where i = i and n = "nat fd" and v = None]
    have p: "live_proc (k_procs (set_fd i (nat fd) None k1) ! j) = live_proc (k_procs k ! j) \<and>
      pr_filedesc (k_procs (set_fd i (nat fd) None k1) ! j) =
        (if j = i then (pr_filedesc (k_procs k ! j))[nat fd := None] else pr_filedesc (k_procs k ! j))" if "j < MAX_PROCESSES" for j
      using k1(7) [rule_format, OF that] S(7) [OF I(1)] S(8) [of j] by (cases "j = i") (simp_all add: live_proc_def)
    have "syscall_close fd k = Some (0, set_fd i (nat fd) None k1)" using cp Some k1(1) by (simp add: syscall_close_def)
    then show ?thesis
      unfolding Some option.case using k1(2,3,6,8,9) p S(4)
      by (intro exI [of _ "set_fd i (nat fd) None k1"] exI [of _ rs'] exI [of _ ss']) simp
  qed
qed

subsection \<open>Duplicating a descriptor\<close>

text \<open>A free descriptor gets a reference to a handle that is open.\<close>

lemma adopt_fd_ok:
  assumes f: "fds_ok k ss" and s: "sched k rs ss" and i: "i \<in> set rs" and n: "n < MAX_FDS"
    and free: "pr_filedesc (k_procs k ! i) ! n = None" and h: "k_handles k fh = Some h"
  shows "fds_ok ((set_fd i n (Some fh) k)\<lparr>k_handles := (k_handles k)(fh \<mapsto> h\<lparr>fh_refcount := fh_refcount h + 1\<rparr>)\<rparr>) ss"
proof -
  note F = fds_okD [OF f]
  have i': "i \<in> set rs \<union> set ss" using i by simp
  note I = sched_lt [OF s i'] sched_proc(2,3) [OF s i']
  have live: "live_proc (k_procs k ! i)" using I(2,3) by (simp add: live_proc_def)
  have len: "length (pr_filedesc (k_procs k ! i)) = MAX_FDS" by (rule F(4) [OF I(1) live])
  have l: "length (k_procs k) = MAX_PROCESSES" by (rule sched_length [OF s])
  have ni: "i \<notin> set ss" using s i by (auto simp: sched_def)
  let ?k1 = "set_fd i n (Some fh) k"
  let ?k = "?k1\<lparr>k_handles := (k_handles k)(fh \<mapsto> h\<lparr>fh_refcount := fh_refcount h + 1\<rparr>)\<rparr>"
  note S = set_fd_frame [OF l, where i = i and n = n and v = "Some fh"]
  have h1: "k_handles ?k1 fh = Some h" and kk: "?k = ?k1\<lparr>k_handles := (k_handles ?k1)(fh \<mapsto> h\<lparr>fh_refcount := fh_refcount h + 1\<rparr>)\<rparr>"
    using h S(4) by simp_all
  note R = refcount_frame [OF h1 kk]
  have "refs g ?k = refs g ?k1" for g by (rule refs_cong) simp
  then have r: "refs g ?k = refs g k + (if g = fh then 1 else 0)" for g
    using refs_set_fd [OF l I(1) live, of n g "Some fh"] len n free by (simp split: if_splits)
  have fl: "length (pr_filedesc (k_procs ?k ! j)) = MAX_FDS" if j: "j < MAX_PROCESSES" "live_proc (k_procs ?k ! j)" for j
    using j S(7) [OF I(1)] S(8) [of j] F(4) [of j] len by (cases "j = i") (simp_all add: live_proc_def)
  have g1: "0 < refs g ?k \<and> fh_refcount hg = int (refs g ?k)" if "k_handles ?k g = Some hg" for g hg
    using that r [of g] F(5) [OF h] F(5) [of g hg] by (auto split: if_splits)
  have g0: "refs g ?k = 0" if "k_handles ?k g = None" for g
    using that r [of g] F(6) [of g] h by (auto split: if_splits)
  show ?thesis
    unfolding fds_ok_def using R(1,2) R(3) [OF S(3) [OF F(3) ni]] S(1,2) F(1,2) fl g1 g0 by blast
qed

text \<open>Whatever a descriptor refers to is closed.\<close>

lemma close_slot_ok:
  assumes f: "fds_ok k ss" and s: "sched k rs ss" and i: "i \<in> set rs" and n: "n < MAX_FDS"
  obtains k1 rs' ss' where "(case pr_filedesc (k_procs k ! i) ! n of Some old \<Rightarrow> close_filehandle old k | None \<Rightarrow> Some k) = Some k1"
    "sched (set_fd i n None k1) rs' ss'" "set rs \<subseteq> set rs'" "fds_ok (set_fd i n None k1) ss'" "length (k_procs k1) = MAX_PROCESSES"
    "\<And>j. j < MAX_PROCESSES \<Longrightarrow> pr_filedesc (k_procs k1 ! j) = pr_filedesc (k_procs k ! j)"
proof (cases "pr_filedesc (k_procs k ! i) ! n")
  case None
  have "set_fd i n None k = k"
    using None by (simp add: set_fd_def upd_proc_def) (metis list_update_id kernel.surjective kernel.update_convs(7) process.surjective process.update_convs(10))
  then show thesis using None f s sched_length [OF s] by (intro that [of k rs ss]) simp_all
next
  case (Some old)
  show thesis by (rule close_fd_ok [OF f s i n Some]) (rule that, unfold Some option.case, blast+)
qed

text \<open>A descriptor that replaces another one.\<close>

lemma dup_slot_ok:
  assumes f: "fds_ok k ss" and s: "sched k rs ss" and i: "i \<in> set rs" and n: "n < MAX_FDS" "m < MAX_FDS" "n \<noteq> m"
    and fh: "pr_filedesc (k_procs k ! i) ! m = Some fh"
  obtains k1 h rs' ss' where "(case pr_filedesc (k_procs k ! i) ! n of Some old \<Rightarrow> close_filehandle old k | None \<Rightarrow> Some k) = Some k1"
    "k_handles k1 fh = Some h" "length (k_procs k1) = MAX_PROCESSES" "\<And>j. j < MAX_PROCESSES \<Longrightarrow> pr_filedesc (k_procs k1 ! j) = pr_filedesc (k_procs k ! j)"
    "sched ((set_fd i n (Some fh) k1)\<lparr>k_handles := (k_handles k1)(fh \<mapsto> h\<lparr>fh_refcount := fh_refcount h + 1\<rparr>)\<rparr>) rs' ss'"
    "fds_ok ((set_fd i n (Some fh) k1)\<lparr>k_handles := (k_handles k1)(fh \<mapsto> h\<lparr>fh_refcount := fh_refcount h + 1\<rparr>)\<rparr>) ss'"
proof -
  have i': "i \<in> set rs \<union> set ss" using i by simp
  note I = sched_lt [OF s i'] sched_proc(2,3) [OF s i']
  have len: "length (pr_filedesc (k_procs k ! i)) = MAX_FDS" by (rule fds_okD(4) [OF f I(1)]) (use I(2,3) in \<open>simp add: live_proc_def\<close>)
  obtain k1 rs' ss' where k1: "(case pr_filedesc (k_procs k ! i) ! n of Some old \<Rightarrow> close_filehandle old k | None \<Rightarrow> Some k) = Some k1"
    "sched (set_fd i n None k1) rs' ss'" "set rs \<subseteq> set rs'" "fds_ok (set_fd i n None k1) ss'" "length (k_procs k1) = MAX_PROCESSES"
    "\<And>j. j < MAX_PROCESSES \<Longrightarrow> pr_filedesc (k_procs k1 ! j) = pr_filedesc (k_procs k ! j)" by (rule close_slot_ok [OF f s i n(1)]) (rule that)
  let ?k2 = "set_fd i n None k1"
  note S = set_fd_frame [OF k1(5), where i = i and n = n and v = None]
  have i2: "i \<in> set rs'" "i \<in> set rs' \<union> set ss'" using i k1(3) by auto
  have fd2: "pr_filedesc (k_procs ?k2 ! i) = (pr_filedesc (k_procs k ! i))[n := None]" using S(7) [OF I(1)] k1(6) I(1) by simp
  have m: "Some fh \<in> set (pr_filedesc (k_procs ?k2 ! i))" using fd2 fh n len nth_mem [of m "pr_filedesc (k_procs ?k2 ! i)"] by simp
  have "live_proc (k_procs ?k2 ! i)" using sched_proc(2,3) [OF k1(2) i2(2)] by (simp add: live_proc_def)
  from refs_pos [OF I(1) this m] fds_okD(6) [OF k1(4), of fh] obtain h where h: "k_handles ?k2 fh = Some h" by fastforce
  have tw: "set_fd i n (Some fh) ?k2 = set_fd i n (Some fh) k1" using k1(5) I(1) by (simp add: set_fd_def upd_proc_def)
  have fr: "pr_filedesc (k_procs ?k2 ! i) ! n = None" using fd2 n(1) len by simp
  have "sched (set_fd i n (Some fh) ?k2) rs' ss'"
    unfolding set_fd_def [of _ _ "Some fh"] by (rule sched_update [OF k1(2)]) (simp add: same_links_def)
  then have s1: "sched (set_fd i n (Some fh) k1) rs' ss'" by (simp only: tw)
  let ?k' = "(set_fd i n (Some fh) k1)\<lparr>k_handles := (k_handles k1)(fh \<mapsto> h\<lparr>fh_refcount := fh_refcount h + 1\<rparr>)\<rparr>"
  have "sched ?k' rs' ss'" by (rule sched_frame [OF s1]) (use s1 in \<open>auto simp: sched_def\<close>)
  moreover have "fds_ok ?k' ss'" using adopt_fd_ok [OF k1(4,2) i2(1) n(1) fr h] S(4) by (simp add: tw)
  ultimately show thesis using k1(1,5,6) h S(4) by (intro that [of k1 h rs' ss']) simp_all
qed

text \<open>
  C13: \<open>dup2\<close> on descriptors in range, the first one open: it returns the new descriptor, which then refers to the same file handle; what
  the new descriptor referred to before is closed. All counts fit again, and no assertion fails, even when both descriptors
  already referred to the same handle. If the old descriptor is not open or one of them is out of range, the
  result is \<open>-EBADF\<close>; if they are the same, nothing happens.
\<close>

theorem syscall_dup2_correct:
  assumes f: "fds_ok k ss" and s: "sched k rs ss" and c: "k_current k = Some i" and i: "i \<in> set rs"
  shows "case fd_handle (k_procs k ! i) oldfd of
     None \<Rightarrow> syscall_dup2 oldfd newfd k = Some (- EBADF, k)
   | Some fh \<Rightarrow>
       if newfd < 0 \<or> int MAX_FDS \<le> newfd then syscall_dup2 oldfd newfd k = Some (- EBADF, k)
       else if oldfd = newfd then syscall_dup2 oldfd newfd k = Some (newfd, k)
       else \<exists>k' rs' ss'. syscall_dup2 oldfd newfd k = Some (newfd, k') \<and> fds_ok k' ss' \<and> sched k' rs' ss' \<and>
         pr_filedesc (k_procs k' ! i) = (pr_filedesc (k_procs k ! i))[nat newfd := Some fh] \<and>
         (\<forall>j<MAX_PROCESSES. j \<noteq> i \<longrightarrow> pr_filedesc (k_procs k' ! j) = pr_filedesc (k_procs k ! j))"
proof -
  note F = fds_okD [OF f]
  have i': "i \<in> set rs \<union> set ss" using i by simp
  note I = sched_lt [OF s i'] sched_proc(1-3) [OF s i']
  have cp: "current_process k = Some (i, k_procs k ! i)" using c I(2) by (simp add: current_process_def)
  show ?thesis
  proof (cases "fd_handle (k_procs k ! i) oldfd")
    case None
    then show ?thesis using cp by (auto simp: syscall_dup2_def fd_handle_def split: if_splits)
  next
    case (Some fh)
    then have o: "0 \<le> oldfd" "nat oldfd < MAX_FDS" "\<not> int MAX_FDS \<le> oldfd" "pr_filedesc (k_procs k ! i) ! nat oldfd = Some fh"
      by (auto simp: fd_handle_def split: if_splits)
    show ?thesis
    proof (cases "newfd < 0 \<or> int MAX_FDS \<le> newfd \<or> oldfd = newfd")
      case True
      then show ?thesis using Some o cp by (auto simp: syscall_dup2_def)
    next
      case False
      then have n: "nat newfd < MAX_FDS" "nat newfd \<noteq> nat oldfd" "\<not> newfd < 0" "\<not> int MAX_FDS \<le> newfd" "oldfd \<noteq> newfd" using o(1) by auto
      obtain k1 h rs' ss' where k1: "(case pr_filedesc (k_procs k ! i) ! nat newfd of Some old \<Rightarrow> close_filehandle old k | None \<Rightarrow> Some k) = Some k1"
        "k_handles k1 fh = Some h" "length (k_procs k1) = MAX_PROCESSES" "\<And>j. j < MAX_PROCESSES \<Longrightarrow> pr_filedesc (k_procs k1 ! j) = pr_filedesc (k_procs k ! j)"
        "sched ((set_fd i (nat newfd) (Some fh) k1)\<lparr>k_handles := (k_handles k1)(fh \<mapsto> h\<lparr>fh_refcount := fh_refcount h + 1\<rparr>)\<rparr>) rs' ss'"
        "fds_ok ((set_fd i (nat newfd) (Some fh) k1)\<lparr>k_handles := (k_handles k1)(fh \<mapsto> h\<lparr>fh_refcount := fh_refcount h + 1\<rparr>)\<rparr>) ss'"
        by (rule dup_slot_ok [OF f s i n(1) o(2) n(2) o(4)]) (rule that)
      let ?k' = "(set_fd i (nat newfd) (Some fh) k1)\<lparr>k_handles := (k_handles k1)(fh \<mapsto> h\<lparr>fh_refcount := fh_refcount h + 1\<rparr>)\<rparr>"
      note S = set_fd_frame [OF k1(3), where i = i and n = "nat newfd" and v = "Some fh"]
      have d: "syscall_dup2 oldfd newfd k = Some (newfd, ?k')" using cp o n k1(1,2) S(4) by (simp add: syscall_dup2_def upd_handle_def)
      have fi: "pr_filedesc (k_procs ?k' ! i) = (pr_filedesc (k_procs k ! i))[nat newfd := Some fh]" using S(7) [OF I(1)] k1(4) I(1) by simp
      have fj: "pr_filedesc (k_procs ?k' ! j) = pr_filedesc (k_procs k ! j)" if "j < MAX_PROCESSES" "j \<noteq> i" for j
        using S(8) [OF that(2)] k1(4) that(1) by simp
      have nn: "\<not> (newfd < 0 \<or> int MAX_FDS \<le> newfd)" using n(3,4) by simp
      show ?thesis unfolding Some option.case if_not_P [OF n(5)] if_not_P [OF nn] using d k1(5,6) fi fj by blast
    qed
  qed
qed

subsection \<open>Witnesses\<close>

text \<open>Process 1 has the two ends of a pipe as descriptors 0 and 1.\<close>

lemma pipe_fds:
  obtains k rd wr where "fds_ok k [2]" "sched k [1] [2]" "k_current k = Some 1" "rd \<noteq> wr" "refs rd k = 1" "refs wr k = 1"
    "fd_handle (k_procs k ! 1) 0 = Some rd" "fd_handle (k_procs k ! 1) 1 = Some wr"
proof -
  obtain b d rd wr k where k: "pipes_ok k" "k_pipes k = [b \<mapsto> fresh_pipe d]"
    "k_handles k = [rd \<mapsto> reader_handle b, wr \<mapsto> writer_handle b]" "rd \<noteq> wr"
    "sched k [1] [2]" "k_current k = Some 1" "k_procs k = k_procs two_procs" by (rule pipe_machine_pipe)
  have l: "length (k_procs k) = MAX_PROCESSES" by (rule sched_length [OF k(5)])
  have fd0: "pr_filedesc (k_procs k ! j) = replicate 16 None" if "j < MAX_PROCESSES" for j
    using that unfolding k(7) by (auto simp: two_procs_def nth_list_update proc_of_def zero_process_def)
  have lv: "live_proc (k_procs k ! 1)" using sched_proc(2,3) [OF k(5), of 1] by (simp add: live_proc_def)
  have one: "(1::nat) < MAX_PROCESSES" by simp
  let ?k1 = "set_fd 1 0 (Some rd) k" let ?k = "set_fd 1 1 (Some wr) ?k1"
  note S = set_fd_frame [OF l, where i = 1 and n = 0 and v = "Some rd"]
  have l1: "length (k_procs ?k1) = MAX_PROCESSES" using l by (simp add: set_fd_def)
  note T = set_fd_frame [OF l1, where i = 1 and n = 1 and v = "Some wr"]
  have f1: "pr_filedesc (k_procs ?k1 ! 1) = (replicate 16 None)[0 := Some rd]" using S(7) [OF one] fd0 [OF one] by simp
  have f2: "pr_filedesc (k_procs ?k ! 1) = (replicate 16 None)[0 := Some rd, 1 := Some wr]" using T(7) [OF one] f1 by simp
  have lv1: "live_proc (k_procs ?k1 ! 1)" using S(7) [OF one] lv by (simp add: live_proc_def)
  have r0: "refs g k = 0" for g unfolding refs_def by (rule sum.neutral) (auto simp: fd0)
  have r: "refs g ?k = (if g = rd \<or> g = wr then 1 else 0)" for g
    using refs_set_fd [OF l one lv, of 0 g "Some rd"] refs_set_fd [OF l1 one lv1, of 1 g "Some wr"] fd0 [OF one] f1 r0 [of g] k(4)
    by (auto split: if_splits)
  have hs: "k_handles ?k = [rd \<mapsto> reader_handle b, wr \<mapsto> writer_handle b]" "k_pipes ?k = [b \<mapsto> fresh_pipe d]"
    using S(4) T(4) k(2,3) by (simp_all add: set_fd_def)
  have len: "length (pr_filedesc (k_procs ?k ! j)) = MAX_FDS" if "j < MAX_PROCESSES" for j
    using that f2 S(8) [of j] T(8) [of j] fd0 [OF that] by (cases "j = 1") simp_all
  have "ends_ok ?k" unfolding ends_ok_def hs
    by (auto simp: is_reader_def is_writer_def reader_handle_def writer_handle_def fresh_pipe_def split: if_splits)
  moreover have "readers_ok ?k [2]" unfolding readers_ok_def hs by (auto simp: fresh_pipe_def split: if_splits)
  moreover have "pipes_ok ?k" using S(1) T(1) k(1) by simp
  ultimately have "fds_ok ?k [2]"
    unfolding fds_ok_def hs r using len by (auto simp: reader_handle_def writer_handle_def split: if_splits)
  moreover have "fd_handle (k_procs ?k ! 1) 0 = Some rd" "fd_handle (k_procs ?k ! 1) 1 = Some wr" unfolding fd_handle_def f2 by simp_all
  ultimately show thesis
    using r k(4,6) S(5,6) T(5,6) k(5) by (intro that [of ?k rd wr]) simp_all
qed

theorem syscall_close_correct_witness:
  "\<exists>k k' fh ss'. fds_ok k [2] \<and> fd_handle (k_procs k ! 1) 1 = Some fh \<and> syscall_close 1 k = Some (0, k') \<and> fds_ok k' ss' \<and>
     k_handles k' fh = None"
proof -
  obtain k rd wr where k: "fds_ok k [2]" "sched k [1] [2]" "k_current k = Some 1" "refs wr k = 1" "fd_handle (k_procs k ! 1) 1 = Some wr"
    by (rule pipe_fds)
  have "1 \<in> set [1::nat]" by simp
  from syscall_close_correct [OF k(1-3) this, of 1] k(4,5) have "\<exists>k' ss'. syscall_close 1 k = Some (0, k') \<and> fds_ok k' ss' \<and> k_handles k' wr = None"
    by auto
  with k(1,5) show ?thesis by blast
qed

theorem syscall_dup2_correct_witness:
  "\<exists>k k' fh ss'. fds_ok k [2] \<and> fd_handle (k_procs k ! 1) 1 = Some fh \<and> syscall_dup2 1 0 k = Some (0, k') \<and> fds_ok k' ss' \<and>
     fd_handle (k_procs k' ! 1) 0 = Some fh"
proof -
  obtain k rd wr where k: "fds_ok k [2]" "sched k [1] [2]" "k_current k = Some 1" "fd_handle (k_procs k ! 1) 1 = Some wr"
    by (rule pipe_fds)
  have "1 \<in> set [1::nat]" by simp
  from syscall_dup2_correct [OF k(1-3) this, of 1 0] k(4) obtain k' ss' where
    k': "syscall_dup2 1 0 k = Some (0, k')" "fds_ok k' ss'" "pr_filedesc (k_procs k' ! 1) = (pr_filedesc (k_procs k ! 1))[0 := Some wr]" by auto
  have "length (pr_filedesc (k_procs k ! 1)) = MAX_FDS"
    using fds_okD(4) [OF k(1), of 1] sched_proc(2,3) [OF k(2), of 1] by (simp add: live_proc_def)
  then have "fd_handle (k_procs k' ! 1) 0 = Some wr" using k'(3) by (simp add: fd_handle_def)
  with k k' show ?thesis by blast
qed

end
