(* ===== verification/User_Mem.thy ===== *)
theory User_Mem
  imports Fork_Props
begin

text \<open>
  The memory of a process as the kernel accesses it while it serves a system call: what \<open>valid_pointer\<close> accepts can be
  written and read through the page tables, and writing it changes nothing else.
\<close>

subsection \<open>Addresses\<close>

definition page_base :: "u32 \<Rightarrow> u32" where
  "page_base a = a - a mod PAGE_SIZE"

lemma unat_page_base: "unat (page_base a) = unat a - unat a mod 4096"
proof -
  have "unat (a mod PAGE_SIZE) \<le> unat a" by (simp add: unat_mod)
  then show ?thesis by (simp add: page_base_def unat_sub word_le_nat_alt unat_mod)
qed

lemma page_base_aligned [simp]: "page_aligned (page_base a)"
  unfolding page_aligned_def unat_page_base by (rule dvd_minus_mod)

lemma page_base_split: "page_base a + a mod PAGE_SIZE = a"
  by (simp add: page_base_def)

lemma page_offset_eq:
  assumes p: "page_aligned p" "page_aligned q" and i: "i < 4096" "j < 4096"
  shows "p + of_nat i = q + of_nat j \<longleftrightarrow> p = q \<and> i = j"
proof
  have b: "unat x + 4096 \<le> 2 ^ 32" if "page_aligned x" for x using page_aligned_bound [OF that] by simp
  assume "p + of_nat i = q + of_nat j"
  then have e: "unat p + i = unat q + j" using unat_offset [OF b [OF p(1)] i(1)] unat_offset [OF b [OF p(2)] i(2)] by simp
  obtain x y where xy: "unat p = 4096 * x" "unat q = 4096 * y" using p by (auto simp: page_aligned_def dvd_def)
  with e i have "x = y" by (cases x y rule: linorder_cases) linarith+
  with e xy show "p = q \<and> i = j" by (simp add: word_unat_eq_iff)
qed simp

text \<open>The addresses in the segments of a process.\<close>

definition user_addrs :: "process \<Rightarrow> u32 set" where
  "user_addrs p = {a. page_base a \<in> space_pages p}"

lemma segment_page:
  assumes "page_aligned s" "unat s \<le> unat a" "unat a < unat e"
  shows "page_base a \<in> pages_in s e"
proof -
  have "unat s \<le> unat a - unat a mod 4096"
  proof -
    obtain x where x: "unat s = 4096 * x" using assms(1) by (auto simp: page_aligned_def dvd_def)
    have "x \<le> unat a div 4096" using x assms(2) by (simp add: less_eq_div_iff_mult_less_eq mult.commute)
    then have "4096 * x \<le> 4096 * (unat a div 4096)" by simp
    then show ?thesis using x minus_mod_eq_mult_div [of "unat a" 4096] by simp
  qed
  moreover have "unat a - unat a mod 4096 < unat e" using assms(3) by linarith
  ultimately show ?thesis by (simp add: pages_in_def word_le_nat_alt word_less_nat_alt unat_page_base)
qed

lemma valid_pointer_addrs:
  assumes p: "space_ok p" and v: "valid_pointer p a sz" and i: "i < unat sz"
  shows "a + of_nat i \<in> user_addrs p" "unat (a + of_nat i) = unat a + i"
proof -
  have "sz \<noteq> 0" using i by auto
  with v obtain s e where se: "(s, e) \<in> set (segments p)" "unat s \<le> unat a" "unat a + unat sz \<le> unat e"
    by (auto simp: valid_pointer_iff)
  show u: "unat (a + of_nat i) = unat a + i"
    using unat_add_of_nat_u32 [of a i] se(3) i unat_lt_u32 [of e] by linarith
  have "page_aligned s" using se(1) p by (auto simp: segments_def space_ok_def)
  then have "page_base (a + of_nat i) \<in> pages_in s e"
    by (rule segment_page) (use u se(2,3) i in linarith)+
  with se(1) show "a + of_nat i \<in> user_addrs p" by (auto simp: user_addrs_def space_pages_def segments_def)
qed

subsection \<open>Private memory\<close>

text \<open>The pages of the process are its own: no two addresses share one, and none is part of its page directory.\<close>

definition private_memory :: "mm \<Rightarrow> process \<Rightarrow> bool" where
  "private_memory s p \<longleftrightarrow>
     owns_memory s p \<and> inj_on (page_of s (pr_pdir p)) (space_pages p) \<and>
     page_of s (pr_pdir p) ` space_pages p \<inter> frames s (pr_pdir p) = {}"

definition phys :: "mm \<Rightarrow> process \<Rightarrow> u32 \<Rightarrow> u32" where
  "phys s p a = page_of s (pr_pdir p) (page_base a) + of_nat (unat a mod 4096)"

lemma translate_phys:
  assumes "owns_memory (k_mm k) p" "k_paging k = Some (pr_pdir p)" "a \<in> user_addrs p"
  shows "translate a k = Some (phys (k_mm k) p a)"
proof -
  have "unat (a mod 4096) = unat a mod 4096" by (simp add: unat_mod)
  then have "of_nat (unat a mod 4096) = a mod 4096" by (metis of_nat_unat ucast_id)
  moreover have "page_base a \<in> space_pages p" using assms(3) by (simp add: user_addrs_def)
  with assms(1) have "lookup_page (pr_pdir p) (page_base a) (k_mm k) = Some (Some (page_of (k_mm k) (pr_pdir p) (page_base a)))"
    by (auto simp: lookup_page_pte page_of_def owns_memory_def)
  ultimately show ?thesis using assms(2) by (simp add: translate_def phys_def flip: page_base_def [simplified])
qed

text \<open>What writing a byte of a page that is handed out leaves alone.\<close>

definition poke :: "u32 \<Rightarrow> u8 \<Rightarrow> mm \<Rightarrow> mm" where
  "poke a v s = s\<lparr>mm_mem := (mm_mem s)(a := v)\<rparr>"

lemma poke_other:
  assumes "page_aligned p" "i < 4096" "page_aligned q" "q \<noteq> p" "j < 1024"
  shows "mm_load (slot q j) (poke (p + of_nat i) v s) = mm_load (slot q j) s"
proof -
  have off: "slot q j + of_nat r = q + of_nat (4 * unat j + r)" for r by (simp add: slot_def)
  have lt: "4 * unat j + r < 4096" if "r < 4" for r using assms(5) that by (simp add: word_less_nat_alt)
  have "slot q j + of_nat r \<noteq> p + of_nat i" if "r < 4" for r
    unfolding off using page_offset_eq [OF assms(3,1) lt [OF that] assms(2)] assms(4) by simp
  from this [of 0] this [of 1] this [of 2] this [of 3] show ?thesis
    by (simp add: mm_load_def load32_def poke_def)
qed

definition user_pages :: "mm \<Rightarrow> process \<Rightarrow> u32 set" where
  "user_pages s p = page_of s (pr_pdir p) ` space_pages p"

lemma poke_private:
  assumes m: "private_memory s p" and a: "a \<in> user_addrs p" and s': "s' = poke (phys s p a) v s"
  shows "private_memory s' p" "phys s' p = phys s p" "live_pages s' = live_pages s" "user_pages s' p = user_pages s p"
    "agree_on (live_pages s - user_pages s p) s s'"
proof -
  let ?d = "pr_pdir p" and ?P = "page_of s (pr_pdir p) (page_base a)"
  have O: "space_ok p" "pages_inv s" "dir_ok s ?d" "?P \<in> live_pages s" "page_base a \<in> space_pages p"
    using m a by (auto simp: private_memory_def owns_memory_def user_addrs_def)
  have other: "mm_load (slot q j) s' = mm_load (slot q j) s" if "page_aligned q" "j < 1024" "q \<noteq> ?P" for q j
    unfolding s' phys_def using live_aligned [OF O(4)] that by (intro poke_other) auto
  note I = pages_inv_write [OF O(2,4) s' [unfolded poke_def] other]
  show l: "live_pages s' = live_pages s" by (rule I(2))
  have "?P \<notin> frames s ?d" using m O(5) by (auto simp: private_memory_def)
  then have ag: "agree_on (frames s ?d) s s'"
    unfolding agree_on_def using other dir_okD(1) [OF O(3)] by (metis live_aligned subsetD)
  note D = agree_dir [OF ag]
  have po: "page_of s' ?d = page_of s ?d" by (simp add: page_of_def D(3) fun_eq_iff)
  show "phys s' p = phys s p" by (simp add: phys_def po fun_eq_iff)
  show "user_pages s' p = user_pages s p" by (simp add: user_pages_def po)
  show "agree_on (live_pages s - user_pages s p) s s'"
    unfolding agree_on_def using other O(5) by (auto simp: user_pages_def dest: live_aligned)
  show "private_memory s' p"
    using m I agree_dir_ok [OF O(3) ag] l unfolding private_memory_def owns_memory_def by (simp add: D po)
qed

lemma phys_inj:
  assumes m: "private_memory s p" and "a \<in> user_addrs p" "b \<in> user_addrs p"
  shows "phys s p a = phys s p b \<longleftrightarrow> a = b"
proof
  let ?f = "page_of s (pr_pdir p)"
  assume "phys s p a = phys s p b"
  moreover have "page_aligned (?f (page_base a))" "page_aligned (?f (page_base b))"
    using assms by (auto simp: private_memory_def owns_memory_def user_addrs_def intro: live_aligned)
  ultimately have "?f (page_base a) = ?f (page_base b)" "unat a mod 4096 = unat b mod 4096"
    unfolding phys_def by (simp_all add: page_offset_eq)
  moreover have "page_base a = page_base b"
    using calculation(1) m assms(2,3) by (auto simp: private_memory_def user_addrs_def dest: inj_onD)
  ultimately have "unat a - unat a mod 4096 = unat b - unat b mod 4096" "unat a mod 4096 = unat b mod 4096"
    using unat_page_base [of a] unat_page_base [of b] by simp_all
  then have "unat a = unat b" by (metis le_add_diff_inverse mod_less_eq_dividend)
  then show "a = b" by (simp add: word_unat_eq_iff)
qed simp

text \<open>The kernel runs under the page directory of the process.\<close>

definition serves :: "process \<Rightarrow> kernel \<Rightarrow> bool" where
  "serves p k \<longleftrightarrow> private_memory (k_mm k) p \<and> k_paging k = Some (pr_pdir p)"

lemma serves_owns: "serves p k \<Longrightarrow> owns_memory (k_mm k) p \<and> k_paging k = Some (pr_pdir p)"
  by (simp add: serves_def private_memory_def)

lemma vload_serves: "serves p k \<Longrightarrow> a \<in> user_addrs p \<Longrightarrow> vload a k = Some (mm_mem (k_mm k) (phys (k_mm k) p a))"
  using translate_phys [of k p a] serves_owns [of p k] by (simp add: vload_def)

lemma phys_high:
  assumes "private_memory s p" "a \<in> user_addrs p"
  shows "PAGE_START \<le> phys s p a"
proof -
  let ?P = "page_of s (pr_pdir p) (page_base a)"
  have "?P \<in> managed s" using assms by (auto simp: private_memory_def owns_memory_def user_addrs_def intro: live_managed)
  note P = managedD(1,3) [OF this]
  have "unat ?P + 4096 \<le> 2 ^ 32" using page_aligned_bound [OF P(1)] by simp
  then have "unat (phys s p a) = unat ?P + unat a mod 4096" unfolding phys_def by (rule unat_offset) simp
  with P(2) show ?thesis by (simp add: word_le_nat_alt)
qed

text \<open>The memory of the kernel after a write: \<open>only_user\<close> says what cannot have changed.\<close>

definition only_user :: "process \<Rightarrow> kernel \<Rightarrow> kernel \<Rightarrow> bool" where
  "only_user p k k' \<longleftrightarrow>
     (\<exists>m. k' = k\<lparr>k_mm := (k_mm k)\<lparr>mm_mem := m\<rparr>\<rparr>) \<and> live_pages (k_mm k') = live_pages (k_mm k) \<and>
     user_pages (k_mm k') p = user_pages (k_mm k) p \<and>
     agree_on (live_pages (k_mm k) - user_pages (k_mm k) p) (k_mm k) (k_mm k')"

lemma only_user_refl: "only_user p k k"
  by (auto simp: only_user_def agree_on_def intro!: exI [of _ "mm_mem (k_mm k)"])

lemma only_user_trans: "only_user p k k1 \<Longrightarrow> only_user p k1 k2 \<Longrightarrow> only_user p k k2"
  unfolding only_user_def by (auto intro: agree_on_trans)

lemma vstore_serves:
  assumes s: "serves p k" and a: "a \<in> user_addrs p"
  shows "\<exists>k'. vstore a v k = Some k' \<and> serves p k' \<and> only_user p k k' \<and>
    (\<forall>b\<in>user_addrs p. vload b k' = (if b = a then Some v else vload b k))"
proof -
  let ?s = "poke (phys (k_mm k) p a) v (k_mm k)"
  let ?k = "k\<lparr>k_mm := ?s\<rparr>"
  have m: "private_memory (k_mm k) p" using s by (simp add: serves_def)
  note P = poke_private [OF m a refl, of v]
  have "vstore a v k = Some ?k"
    using translate_phys [of k p a] serves_owns [OF s] a phys_high [OF m a] by (simp add: vstore_def poke_def)
  moreover have sk: "serves p ?k" using P(1) s by (simp add: serves_def)
  moreover have "only_user p k ?k" using P(3-5) by (auto simp: only_user_def poke_def)
  moreover have "vload b ?k = (if b = a then Some v else vload b k)" if "b \<in> user_addrs p" for b
    using vload_serves [OF sk that] vload_serves [OF s that] phys_inj [OF m that a] P(2) by (simp add: poke_def)
  ultimately show ?thesis by blast
qed

subsection \<open>Ranges of memory\<close>

lemma vwrite_serves:
  assumes "serves p k" "\<forall>i<length bs. a + of_nat i \<in> user_addrs p" "unat a + length bs \<le> 4294967296"
  shows "\<exists>k'. vwrite a bs k = Some k' \<and> serves p k' \<and> only_user p k k' \<and>
    (\<forall>i<length bs. vload (a + of_nat i) k' = Some (bs ! i)) \<and>
    (\<forall>b\<in>user_addrs p. (\<forall>i<length bs. b \<noteq> a + of_nat i) \<longrightarrow> vload b k' = vload b k)"
  using assms
proof (induction bs arbitrary: a k)
  case Nil
  then show ?case by (auto intro: only_user_refl)
next
  case (Cons c bs)
  have a: "a \<in> user_addrs p" using Cons.prems(2) by force
  from vstore_serves [OF Cons.prems(1) a, of c] obtain k1 where
    k1: "vstore a c k = Some k1" "serves p k1" "only_user p k k1"
      "\<And>b. b \<in> user_addrs p \<Longrightarrow> vload b k1 = (if b = a then Some c else vload b k)" by blast
  have sh: "a + 1 + of_nat i = a + of_nat (Suc i)" for i by simp
  show ?case
  proof (cases "bs = []")
    case True
    with k1 show ?thesis by (auto simp: a)
  next
    case False
    then have u: "unat (a + 1) = unat a + 1" using Cons.prems(3) unat_add_of_nat_u32 [of a 1] by (cases bs) simp_all
    have "\<forall>i<length bs. a + 1 + of_nat i \<in> user_addrs p"
      unfolding sh using Cons.prems(2) by (metis Suc_less_eq length_Cons)
    from Cons.IH [OF k1(2) this] u Cons.prems(3) obtain k' where
      k': "vwrite (a + 1) bs k1 = Some k'" "serves p k'" "only_user p k1 k'"
        "\<And>i. i < length bs \<Longrightarrow> vload (a + 1 + of_nat i) k' = Some (bs ! i)"
        "\<And>b. b \<in> user_addrs p \<Longrightarrow> (\<And>i. i < length bs \<Longrightarrow> b \<noteq> a + 1 + of_nat i) \<Longrightarrow> vload b k' = vload b k1" by auto
    have "a \<noteq> a + 1 + of_nat i" if "i < length bs" for i
    proof
      assume "a = a + 1 + of_nat i"
      then have "a = a + of_nat (Suc i)" unfolding sh .
      moreover have "unat a + Suc i < 4294967296" using Cons.prems(3) that by simp
      ultimately show False using unat_add_of_nat_u32 [of a "Suc i"] by simp
    qed
    then have "vload a k' = Some c" using k'(5) [OF a] k1(4) [OF a] by simp
    then have "\<forall>i<length (c # bs). vload (a + of_nat i) k' = Some ((c # bs) ! i)"
      using k'(4) by (auto simp: less_Suc_eq_0_disj add.assoc [symmetric])
    moreover have "vload b k' = vload b k" if "b \<in> user_addrs p" "\<forall>i<length (c # bs). b \<noteq> a + of_nat i" for b
    proof -
      have "b \<noteq> a" using that(2) by force
      moreover have "b \<noteq> a + 1 + of_nat i" if "i < length bs" for i
        unfolding sh using \<open>\<forall>i<length (c # bs). b \<noteq> a + of_nat i\<close> that by (metis Suc_less_eq length_Cons)
      ultimately show ?thesis using k'(5) k1(4) that(1) by simp
    qed
    moreover have "vwrite a (c # bs) k = Some k'" using k1(1) k'(1) by simp
    ultimately show ?thesis using k'(2) only_user_trans [OF k1(3) k'(3)] by blast
  qed
qed

lemma vread_bytes:
  "\<forall>i<length bs. vload (a + of_nat i) k = Some (bs ! i) \<Longrightarrow> vread a (length bs) k = Some bs"
proof (induction bs arbitrary: a)
  case (Cons c bs)
  have "\<forall>i<length bs. vload (a + 1 + of_nat i) k = Some (bs ! i)"
    using Cons.prems by (metis Suc_less_eq length_Cons nth_Cons_Suc of_nat_Suc add.assoc)
  with Cons.IH have "vread (a + 1) (length bs) k = Some bs" by blast
  moreover have "vload a k = Some c" using Cons.prems by force
  ultimately show ?case by simp
qed simp

text \<open>The two facts with which a handler writes to and reads from the memory of its caller.\<close>

lemma user_write:
  assumes s: "serves p k" and v: "valid_pointer p a sz" and l: "length bs \<le> unat sz"
  shows "\<exists>k'. vwrite a bs k = Some k' \<and> serves p k' \<and> only_user p k k' \<and> vread a (length bs) k' = Some bs \<and>
    (\<forall>b\<in>user_addrs p. \<not> (unat a \<le> unat b \<and> unat b < unat a + length bs) \<longrightarrow> vload b k' = vload b k)"
proof -
  have sp: "space_ok p" using serves_owns [OF s] by (simp add: owns_memory_def)
  note A = valid_pointer_addrs [OF sp v]
  have "\<forall>i<length bs. a + of_nat i \<in> user_addrs p" using A(1) l by auto
  moreover have "unat a + length bs \<le> 4294967296"
  proof (cases "bs = []")
    case True
    with less_imp_le [OF unat_lt_u32 [of a]] show ?thesis by (simp only: list.size add_0_right)
  next
    case False
    then have n: "length bs - 1 < unat sz" "0 < length bs" using l by (simp_all add: Suc_le_lessD)
    show ?thesis using A(2) [OF n(1)] unat_lt_u32 [of "a + of_nat (length bs - 1)"] n(2) by linarith
  qed
  ultimately obtain k' where k': "vwrite a bs k = Some k'" "serves p k'" "only_user p k k'"
    "\<forall>i<length bs. vload (a + of_nat i) k' = Some (bs ! i)"
    "\<And>b. b \<in> user_addrs p \<Longrightarrow> (\<And>i. i < length bs \<Longrightarrow> b \<noteq> a + of_nat i) \<Longrightarrow> vload b k' = vload b k"
    using vwrite_serves [OF s] by metis
  have "vload b k' = vload b k" if "b \<in> user_addrs p" "\<not> (unat a \<le> unat b \<and> unat b < unat a + length bs)" for b
  proof (rule k'(5) [OF that(1)])
    fix i assume "i < length bs"
    then have "unat (a + of_nat i) = unat a + i" using A(2) [of i] l by linarith
    with that(2) \<open>i < length bs\<close> show "b \<noteq> a + of_nat i" by auto
  qed
  with k'(1-3) vread_bytes [OF k'(4)] show ?thesis by blast
qed

text \<open>
  C36: a system call can use the memory that \<open>valid_pointer\<close> lets through. While the kernel runs under the page directory of a
  process whose pages are mapped and its own, writing up to \<open>sz\<close> bytes to an accepted range neither faults nor touches the
  memory of the kernel; the bytes are read back from there, the rest of the memory of the process is unchanged, and so are all pages
  that do not belong to the process, page directories and page tables included.
\<close>

theorem user_memory_correct:
  assumes "serves p k" "valid_pointer p a sz" "length bs \<le> unat sz"
  shows "\<exists>k'. vwrite a bs k = Some k' \<and> serves p k' \<and> only_user p k k' \<and> vread a (length bs) k' = Some bs \<and>
    (\<forall>b\<in>user_addrs p. \<not> (unat a \<le> unat b \<and> unat b < unat a + length bs) \<longrightarrow> vload b k' = vload b k)"
  using assms by (rule user_write)

text \<open>A process in the root directory with one page of stack and the given descriptors.\<close>

definition with_stack :: "u32 \<Rightarrow> u32 option list \<Rightarrow> process \<Rightarrow> process" where
  "with_stack pdir fds p =
     p\<lparr>pr_pdir := pdir, pr_text_start := 0x10000000, pr_text_end := 0x10000000, pr_data_start := 0x20000000,
       pr_data_end := 0x20000000, pr_stack_start := 0x3FFFF000, pr_stack_end := 0x40000000, pr_filedesc := fds, pr_cwd := [slash, 0]\<rparr>"

definition stack_proc :: "u32 \<Rightarrow> u32 option list \<Rightarrow> process" where
  "stack_proc pdir fds = with_stack pdir fds (proc_of 1 True)"

lemma user_machine:
  obtains k pdir where "serves (stack_proc pdir fds) k" "current_process k = Some (1, stack_proc pdir fds)" "sched k [1] [2]"
    "k_heap k = k_heap two_procs" "k_pipes k = Map.empty" "k_arrays k = Map.empty" "k_mailboxes k = Map.empty"
    "k_handles k = Map.empty" "k_stack k = replicate 4096 0" "k_procs k = (k_procs two_procs)[1 := stack_proc pdir fds]"
    "card (live_pages (k_mm k)) \<le> 3" "ram_pages (k_mm k) = 2560"
proof -
  obtain s pdir where s: "pages_inv s" "dir_ok s pdir" "card (live_pages s) \<le> 3" "ram_pages s = 2560" "pte s pdir 0x3FFFF000 \<noteq> None"
    "page_of s pdir 0x3FFFF000 \<in> live_pages s" "page_of s pdir 0x3FFFF000 \<notin> frames s pdir" by (rule one_page_process)
  let ?p = "stack_proc pdir fds"
  define k where "k = (upd_proc 1 (with_stack pdir fds) two_procs)\<lparr>k_mm := s, k_paging := Some pdir\<rparr>"
  have "sched (upd_proc 1 (with_stack pdir fds) two_procs) [1] [2]"
    by (rule sched_update [OF two_procs_sched]) (simp add: same_links_def with_stack_def)
  then have sk: "sched k [1] [2]" unfolding k_def by (rule sched_frame) (auto simp: two_procs_def)
  have "space_pages ?p = {0x3FFFF000}" using one_page by (simp add: space_pages_def stack_proc_def with_stack_def)
  moreover have "space_ok ?p" by (simp add: space_ok_def stack_proc_def with_stack_def page_aligned_mod)
  moreover have "pr_pdir ?p = pdir" by (simp add: stack_proc_def with_stack_def)
  ultimately have "serves ?p k" using s by (simp add: serves_def private_memory_def owns_memory_def k_def)
  moreover have "current_process k = Some (1, ?p)"
    by (simp add: k_def current_process_def get_proc_def upd_proc_def two_procs_def stack_proc_def)
  moreover have "k_procs k = (k_procs two_procs)[1 := ?p]" by (simp add: k_def upd_proc_def stack_proc_def two_procs_def)
  ultimately show thesis using sk s(3,4) by (intro that [of pdir k]) (simp_all add: k_def two_procs_def)
qed

theorem user_memory_correct_witness:
  "\<exists>p k k'. serves p k \<and> valid_pointer p 0x3FFFFFFE 2 \<and> vwrite 0x3FFFFFFE [7, 8] k = Some k' \<and> vread 0x3FFFFFFE 2 k' = Some [7, 8] \<and>
     vload 0x3FFFFFFD k' = vload 0x3FFFFFFD k"
proof -
  obtain k pdir where k: "serves (stack_proc pdir []) k" by (rule user_machine)
  let ?p = "stack_proc pdir []"
  have v: "valid_pointer ?p 0x3FFFFFFE 2" by (simp add: valid_pointer_def within_def stack_proc_def with_stack_def)
  have "page_base 0x3FFFFFFD = 0x3FFFF000" by (simp add: page_base_def)
  then have "0x3FFFFFFD \<in> user_addrs ?p"
    using one_page by (simp add: user_addrs_def space_pages_def stack_proc_def with_stack_def)
  moreover have l: "length [7, 8::u8] \<le> unat (2::u32)" "length [7, 8::u8] = 2" by simp_all
  from user_memory_correct [OF k v l(1), unfolded l(2)] obtain k' where
    k': "vwrite 0x3FFFFFFE [7, 8] k = Some k'" "vread 0x3FFFFFFE 2 k' = Some [7, 8]"
      "\<forall>b\<in>user_addrs ?p. \<not> (unat (0x3FFFFFFE::u32) \<le> unat b \<and> unat b < unat (0x3FFFFFFE::u32) + 2) \<longrightarrow> vload b k' = vload b k"
    by blast
  moreover have "\<not> unat (0x3FFFFFFE::u32) \<le> unat (0x3FFFFFFD::u32)" by simp
  ultimately have "vload 0x3FFFFFFD k' = vload 0x3FFFFFFD k" by blast
  with k v k'(1,2) show ?thesis by blast
qed

end
