(* ===== verification/Source_Spec.thy ===== *)
theory Source_Spec
  imports Prelude
begin

text \<open>
  The contract of something that is read in pieces, such as an open file (\<open>file_read\<close> of
  \<^verbatim>\<open>source/fscalls.c\<close>): a request for at most \<open>amount\<close> items is answered with the next ones, fewer only at the end.
\<close>

locale source =
  fixes invar :: "'s \<Rightarrow> bool"
    and rest :: "'s \<Rightarrow> 'a list"
    and good :: "'n \<Rightarrow> bool"
    and amount :: "'n \<Rightarrow> nat"
    and get :: "'n \<Rightarrow> 's \<Rightarrow> ('a list \<times> 's) option"
  assumes get_next: "invar s \<Longrightarrow> good n \<Longrightarrow>
    \<exists>s'. get n s = Some (take (amount n) (rest s), s') \<and> invar s' \<and> rest s' = drop (amount n) (rest s)"
begin

text \<open>The answers to several requests, one after the other.\<close>

fun gets :: "'n list \<Rightarrow> 's \<Rightarrow> ('a list \<times> 's) option" where
  "gets [] s = Some ([], s)"
| "gets (n # ns) s = do { (x, s) \<leftarrow> get n s; (y, s) \<leftarrow> gets ns s; Some (x @ y, s) }"

lemma gets_next:
  "invar s \<Longrightarrow> \<forall>n\<in>set ns. good n \<Longrightarrow>
    \<exists>s'. gets ns s = Some (take (sum_list (map amount ns)) (rest s), s') \<and> invar s' \<and>
      rest s' = drop (sum_list (map amount ns)) (rest s)"
proof (induction ns arbitrary: s)
  case (Cons n ns)
  obtain s1 where s1: "get n s = Some (take (amount n) (rest s), s1)" "invar s1" "rest s1 = drop (amount n) (rest s)"
    using get_next [of s n] Cons.prems by auto
  with Cons.IH [OF s1(2)] Cons.prems(2) show ?case by (auto simp: take_add add.commute)
qed simp

lemma gets_all:
  assumes "invar s" "\<forall>n\<in>set ns. good n" "length (rest s) \<le> sum_list (map amount ns)"
  shows "\<exists>s'. gets ns s = Some (rest s, s') \<and> invar s' \<and> rest s' = []"
  using gets_next [OF assms(1,2)] assms(3) by simp

end

end
