(* ===== verification/File_Props.thy ===== *)
theory File_Props
  imports User_Mem Source_Spec Filesystem_Props
begin

text \<open>
  Reading from files: an open file is a source (locale \<open>source\<close>) of the bytes of its entry in the image, delivered into the
  memory of the process that asks for them.
\<close>

text \<open>The contents of the file whose entry is at \<open>e\<close>.\<close>

definition file_contents :: "bytes \<Rightarrow> nat \<Rightarrow> bytes" where
  "file_contents img e =
     (case (de_size img e, de_location img e) of (Some sz, Some l) \<Rightarrow> take (unat sz) (drop l img) | _ \<Rightarrow> [])"

definition file_in :: "bytes \<Rightarrow> nat \<Rightarrow> bool" where
  "file_in img e \<longleftrightarrow>
     (case (de_size img e, de_location img e) of
        (Some sz, Some l) \<Rightarrow> l + unat sz \<le> length img \<and> unat sz < 2147483648 | _ \<Rightarrow> False)"

text \<open>The current process \<open>p\<close> has the file handle \<open>fh\<close> of a file under the descriptor \<open>fd\<close>.\<close>

definition reading :: "process \<Rightarrow> int \<Rightarrow> u32 \<Rightarrow> kernel \<Rightarrow> bool" where
  "reading p fd fh k \<longleftrightarrow>
     serves p k \<and> (\<exists>i. current_process k = Some (i, p)) \<and> fd_handle p fd = Some fh \<and>
     (\<exists>h. k_handles k fh = Some h \<and> fh_read h = File_read \<and> fh_kind h = FH_FILE \<and> file_in (k_filesystem k) (fh_entry h) \<and>
        unat (fh_pos h) \<le> length (file_contents (k_filesystem k) (fh_entry h)))"

definition unread :: "u32 \<Rightarrow> kernel \<Rightarrow> bytes" where
  "unread fh k =
     (case k_handles k fh of None \<Rightarrow> []
      | Some h \<Rightarrow> drop (unat (fh_pos h)) (file_contents (k_filesystem k) (fh_entry h)))"

lemma file_inE:
  assumes "file_in img e"
  obtains sz l where "de_size img e = Some sz" "de_location img e = Some l" "l + unat sz \<le> length img" "unat sz < 2147483648"
    "file_contents img e = take (unat sz) (drop l img)" "length (file_contents img e) = unat sz"
  using assms by (auto simp: file_in_def file_contents_def split: option.splits prod.splits)

text \<open>One call of \<open>read\<close>, and the bytes that are in the buffer afterwards.\<close>

definition read_call :: "int \<Rightarrow> u32 \<times> u32 \<Rightarrow> kernel \<Rightarrow> (bytes \<times> kernel) option" where
  "read_call fd r k =
     do { (n, k) \<leftarrow> syscall_read fd (fst r) (snd r) k; assert_c (0 \<le> n); bs \<leftarrow> vread (fst r) (nat n) k; Some (bs, k) }"

definition read_ok :: "process \<Rightarrow> u32 \<times> u32 \<Rightarrow> bool" where
  "read_ok p r \<longleftrightarrow> valid_pointer p (fst r) (snd r) \<and> unat (snd r) < 2147483648"

lemma serves_handles [simp]: "serves p (k\<lparr>k_handles := h\<rparr>) = serves p k" "vread a n (k\<lparr>k_handles := h\<rparr>) = vread a n k"
proof -
  show "serves p (k\<lparr>k_handles := h\<rparr>) = serves p k" by (simp add: serves_def)
  show "vread a n (k\<lparr>k_handles := h\<rparr>) = vread a n k"
    by (induction n arbitrary: a) (simp_all add: vload_def translate_def cong: option.case_cong)
qed

lemma read_call_next:
  assumes r: "reading p fd fh k" and ok: "read_ok p (buf, count)"
  shows "\<exists>k'. read_call fd (buf, count) k = Some (take (unat count) (unread fh k), k') \<and> reading p fd fh k' \<and>
    unread fh k' = drop (unat count) (unread fh k)"
proof -
  from r obtain i h where R: "serves p k" "current_process k = Some (i, p)" "fd_handle p fd = Some fh" "k_handles k fh = Some h"
    "fh_read h = File_read" "fh_kind h = FH_FILE" and fi: "file_in (k_filesystem k) (fh_entry h)"
    and pos: "unat (fh_pos h) \<le> length (file_contents (k_filesystem k) (fh_entry h))" by (auto simp: reading_def)
  from fi obtain sz l where F: "de_size (k_filesystem k) (fh_entry h) = Some sz" "de_location (k_filesystem k) (fh_entry h) = Some l"
    "l + unat sz \<le> length (k_filesystem k)" "unat sz < 2147483648"
    "file_contents (k_filesystem k) (fh_entry h) = take (unat sz) (drop l (k_filesystem k))"
    "length (file_contents (k_filesystem k) (fh_entry h)) = unat sz" by (rule file_inE)
  have v: "valid_pointer p buf count" "unat count < 2147483648" using ok by (simp_all add: read_ok_def)
  have sc: "syscall_read fd buf count k = file_read fh buf count k" using R v(1) by (simp add: syscall_read_def handle_read_def)
  have un: "unread fh k = drop (unat (fh_pos h)) (file_contents (k_filesystem k) (fh_entry h))" using R(4) by (simp add: unread_def)
  show ?thesis
  proof (cases "sz \<le> fh_pos h")
    case True
    then have e: "unread fh k = []" using un F(6) by (simp add: word_le_nat_alt)
    have "file_read fh buf count k = Some (0, k)" using True R(4,6) F(1,2) by (simp add: file_read_def)
    then have "read_call fd (buf, count) k = Some ([], k)" by (simp add: read_call_def sc)
    with e r show ?thesis by simp
  next
    case False
    then have lt: "unat (fh_pos h) < unat sz" by (simp add: word_le_nat_alt)
    have sum: "unat (fh_pos h + count) = unat (fh_pos h) + unat count" using lt F(4) v(2) by (intro unat_add_u32) linarith
    define n where "n = (if sz < fh_pos h + count then sz - fh_pos h else count)"
    have "unat (sz - fh_pos h) = unat sz - unat (fh_pos h)" using lt by (simp add: unat_sub word_le_nat_alt)
    then have n: "unat n = min (unat count) (unat sz - unat (fh_pos h))"
      using sum by (auto simp: n_def word_less_nat_alt)
    let ?bs = "take (unat n) (drop (l + unat (fh_pos h)) (k_filesystem k))"
    have bs: "?bs = take (unat count) (unread fh k)" using n by (simp add: un F(5) drop_take min.commute add.commute)
    have inb: "l + unat (fh_pos h) + unat n \<le> length (k_filesystem k)" using n F(3) lt by linarith
    then have lb: "length ?bs = unat n" by simp
    have "length ?bs \<le> unat count" using lb n by simp
    from user_write [OF R(1) v(1) this] obtain k1 where
      k1: "vwrite buf ?bs k = Some k1" "serves p k1" "only_user p k k1" "vread buf (length ?bs) k1 = Some ?bs" by blast
    then obtain m where m: "k1 = k\<lparr>k_mm := (k_mm k)\<lparr>mm_mem := m\<rparr>\<rparr>" by (auto simp: only_user_def)
    let ?h = "h\<lparr>fh_pos := fh_pos h + n\<rparr>"
    let ?k = "k1\<lparr>k_handles := (k_handles k1)(fh \<mapsto> ?h)\<rparr>"
    have "file_read fh buf count k = Some (as_int (unat n), ?k)"
      using False R(4,6) F(1,2) k1(1) inb m unfolding n_def by (simp add: file_read_def upd_handle_def Let_def)
    moreover have "as_int (unat n) = int (unat n)" using n v(2) by simp
    ultimately have "read_call fd (buf, count) k = Some (take (unat count) (unread fh k), ?k)"
      using k1(4) lb by (simp add: read_call_def sc bs)
    moreover have un': "unat (fh_pos h + n) = unat (fh_pos h) + unat n" using n lt F(4) by (intro unat_add_u32) linarith
    have "current_process ?k = Some (i, p)" using R(2) m by (auto simp: current_process_def get_proc_def bind_eq_Some_conv split: if_splits)
    then have "reading p fd fh ?k"
      using R(3-6) k1(2) m fi pos n F(6) un' by (auto simp: reading_def)
    moreover have "unread fh ?k = drop (unat count) (unread fh k)"
    proof (cases "unat count \<le> unat sz - unat (fh_pos h)")
      case True
      then show ?thesis using un un' n m by (simp add: unread_def add.commute)
    next
      case False
      then show ?thesis using un un' n m lt F(6) by (simp add: unread_def)
    qed
    ultimately show ?thesis by blast
  qed
qed

interpretation open_file: source "reading p fd fh" "unread fh" "read_ok p" "\<lambda>r. unat (snd r)" "read_call fd"
  for p :: process and fd :: int and fh :: u32
  by unfold_locales (metis read_call_next prod.collapse)

end
