(* ===== verification/Fstool.thy ===== *)
theory Fstool
  imports Pipe
begin

text \<open>
  The tool that builds the image of the filesystem, \<^verbatim>\<open>source/fstool.c\<close>. It runs on the machine where the
  kernel is built; what it asks of that machine (directories, files, uninitialised memory) is a parameter, the record \<open>host\<close>.
  Leaving the program with an error is \<open>None\<close>.
\<close>

record hstat =
  st_isdir :: bool
  st_isreg :: bool
  st_size :: u32
  st_mode :: u32
  st_mtime :: u32

text \<open>
  \<open>h_readdir\<close> lists the names in a directory, \<open>h_read\<close> are the results of \<open>read\<close> on a file up to its end, \<open>h_junk\<close> is
  what a byte of uninitialised memory holds, and \<open>h_path_max\<close> is \<open>PATH_MAX\<close> there.
\<close>

record host =
  h_readdir :: "bytes \<Rightarrow> bytes list option"
  h_stat :: "bytes \<Rightarrow> hstat option"
  h_read :: "bytes \<Rightarrow> bytes list option"
  h_junk :: "nat \<Rightarrow> u8"
  h_path_max :: nat

subsection \<open>The output buffer\<close>

text \<open>\<open>o_data\<close> are the first \<open>size\<close> bytes of the buffer; the rest up to \<open>alloc\<close> is not initialised.\<close>

record output_buf =
  o_alloc :: u32
  o_size :: u32
  o_data :: bytes

definition OUTPUT_INIT :: output_buf where
  "OUTPUT_INIT = \<lparr>o_alloc = 1, o_size = 0, o_data = []\<rparr>"

text \<open>The loop that doubles \<open>alloc\<close> is the one of pipes.\<close>

definition output_append :: "bytes \<Rightarrow> output_buf \<Rightarrow> output_buf option" where
  "output_append data b =
     do {
       let need = o_size b + of_nat (length data);
       alloc \<leftarrow> grow_alloc need (o_alloc b);
       Some \<lparr>o_alloc = alloc, o_size = need, o_data = o_data b @ data\<rparr>
     }"

fun append_all :: "bytes list \<Rightarrow> output_buf \<Rightarrow> output_buf option" where
  "append_all [] out = Some out"
| "append_all (tmp # rest) out = do { out \<leftarrow> output_append tmp out; append_all rest out }"

definition process_file :: "host \<Rightarrow> bytes \<Rightarrow> output_buf \<Rightarrow> output_buf option" where
  "process_file host path out = do { reads \<leftarrow> h_read host path; append_all reads out }"

subsection \<open>Directories\<close>

definition ignore_file :: "bytes \<Rightarrow> bool" where
  "ignore_file name \<longleftrightarrow> name = chars ''.'' \<or> name = chars ''..'' \<or> name = chars ''.svn''"

text \<open>\<open>snprintf(fullpath,PATH_MAX,"%s/%s",path,name)\<close>\<close>

definition full_path :: "host \<Rightarrow> bytes \<Rightarrow> bytes \<Rightarrow> bytes" where
  "full_path host path name = take (h_path_max host - 1) (path @ slash # name)"

record directory_entry =
  e_size :: u32
  e_type :: u32
  e_location :: u32
  e_mode :: u32
  e_mtime :: u32
  e_name :: bytes

definition ent_bytes :: "directory_entry \<Rightarrow> bytes" where
  "ent_bytes e =
     word_bytes (e_size e) @ word_bytes (e_type e) @ word_bytes (e_location e) @ word_bytes (e_mode e) @
     word_bytes (e_mtime e) @ e_name e"

definition dir_bytes :: "directory_entry list \<Rightarrow> bytes" where
  "dir_bytes es = word_bytes (of_nat (length es)) @ concat (map ent_bytes es)"

text \<open>\<open>strncpy\<close> fills up to \<open>MAX_FILENAME_LEN\<close> bytes with zeros; the last byte of the array is not written. It is
  what the memory of the entry held before, one value per run here for all entries; it is never read when the name is shorter than
  \<open>MAX_FILENAME_LEN\<close> and thus terminated before it (\<open>name_fits\<close>).\<close>

definition name_field :: "host \<Rightarrow> bytes \<Rightarrow> bytes" where
  "name_field host name = take MAX_FILENAME_LEN (name @ replicate MAX_FILENAME_LEN 0) @ [h_junk host 275]"

definition new_entry :: "host \<Rightarrow> hstat \<Rightarrow> bytes \<Rightarrow> directory_entry" where
  "new_entry host st name =
     \<lparr>e_size = st_size st, e_type = (if st_isdir st then TYPE_DIR else TYPE_FILE), e_location = 0, e_mode = st_mode st,
      e_mtime = st_mtime st, e_name = name_field host name\<rparr>"

fun read_entries :: "host \<Rightarrow> bytes \<Rightarrow> bytes list \<Rightarrow> directory_entry list option" where
  "read_entries host path [] = Some []"
| "read_entries host path (name # names) =
     (if ignore_file name then read_entries host path names
      else do {
        st \<leftarrow> h_stat host (full_path host path name);
        es \<leftarrow> read_entries host path names;
        Some (if st_isdir st \<or> st_isreg st then new_entry host st name # es else es)
      })"

text \<open>
  The recursion goes as deep as the directories of the host do, which the first argument bounds. The name of an entry is read back
  from its array, so it has to be terminated there.
\<close>

function process_dir :: "nat \<Rightarrow> host \<Rightarrow> bytes \<Rightarrow> output_buf \<Rightarrow> output_buf option"
  and process_entries :: "nat \<Rightarrow> host \<Rightarrow> bytes \<Rightarrow> directory_entry list \<Rightarrow> output_buf \<Rightarrow> (directory_entry list \<times> output_buf) option" where
  "process_dir 0 host path out = None"
| "process_dir (Suc n) host path out =
     do {
       names \<leftarrow> h_readdir host path;
       es \<leftarrow> read_entries host path names;
       let diroffset = o_size out;
       out \<leftarrow> output_append (dir_bytes es) out;
       (es, out) \<leftarrow> process_entries n host path es out;
       data \<leftarrow> array_put (o_data out) (unat diroffset) (dir_bytes es);
       Some (out\<lparr>o_data := data\<rparr>)
     }"
| "process_entries n host path [] out = Some ([], out)"
| "process_entries n host path (e # es) out =
     do {
       assert_c (0 \<in> set (e_name e));
       let fullpath = full_path host path (takeWhile (\<lambda>c. c \<noteq> 0) (e_name e));
       let e = e\<lparr>e_location := o_size out\<rparr>;
       out \<leftarrow> (if e_type e = TYPE_DIR then process_dir n host fullpath out else process_file host fullpath out);
       (es, out) \<leftarrow> process_entries n host path es out;
       Some (e # es, out)
     }"
  by pat_completeness auto
termination
  by (relation "measures [\<lambda>x. case x of Inl (n, _) \<Rightarrow> 2 * n | Inr (n, _) \<Rightarrow> 2 * n + 1,
        \<lambda>x. case x of Inl _ \<Rightarrow> 0 | Inr (_, _, _, es, _) \<Rightarrow> length es]") auto

text \<open>
  \<open>fstool -build\<close>: the entry of the root is a local variable of which \<open>mode\<close>, \<open>mtime\<close> and the rest of the name are never
  set; \<open>root.size\<close> is set only after the entry has been copied to the output.
\<close>

definition root_bytes :: "host \<Rightarrow> bytes" where
  "root_bytes host =
     word_bytes 0 @ word_bytes TYPE_DIR @ word_bytes 276 @ map (h_junk host) [12..<20] @
     chars ''ROOT'' @ [0] @ map (h_junk host) [25..<276]"

definition build :: "nat \<Rightarrow> host \<Rightarrow> bytes \<Rightarrow> bytes option" where
  "build n host dir =
     do {
       out \<leftarrow> output_append (root_bytes host) OUTPUT_INIT;
       out \<leftarrow> process_dir n host dir out;
       Some (o_data out)
     }"

end
