(* ===== verification/Fstool_Props.thy ===== *)
theory Fstool_Props
  imports Fstool Pipe_Props Filesystem_Props
begin

text \<open>
  The image that \<open>fstool\<close> builds, seen by the kernel: every file and directory of the host is found by
  \<open>get_directory_entry\<close> under its path, with its contents.
\<close>

subsection \<open>Trees\<close>

datatype node = File bytes | Dir "(bytes \<times> node) list"

primrec tree_bytes :: "node \<Rightarrow> nat" where
  "tree_bytes (File c) = length c"
| "tree_bytes (Dir es) = 4 + sum_list (map (\<lambda>(_, n). 276 + n) (map (map_prod id tree_bytes) es))"

primrec depth :: "node \<Rightarrow> nat" where
  "depth (File c) = 0"
| "depth (Dir es) = Suc (foldr max (map snd (map (map_prod id depth) es)) 0)"

text \<open>The node that the pieces of a path lead to. Nothing is below a file, not even an empty piece.\<close>

fun subtree :: "node \<Rightarrow> bytes list \<Rightarrow> node option" where
  "subtree t [] = Some t"
| "subtree (File c) (p # ps) = None"
| "subtree (Dir es) (p # ps) =
     (if p = [] then subtree (Dir es) ps else case map_of es p of None \<Rightarrow> None | Some t \<Rightarrow> subtree t ps)"

lemma foldr_max_ge: "x \<in> set xs \<Longrightarrow> x \<le> foldr max xs (0::nat)"
  by (induction xs) auto

lemma depth_child: "(n, t) \<in> set es \<Longrightarrow> depth t < depth (Dir es)"
  by (force intro!: le_imp_less_Suc foldr_max_ge)

text \<open>A name that an entry can hold and that a path can contain.\<close>

definition name_fits :: "bytes \<Rightarrow> bool" where
  "name_fits n \<longleftrightarrow> n \<noteq> [] \<and> length n < MAX_FILENAME_LEN \<and> 0 \<notin> set n \<and> slash \<notin> set n \<and> \<not> ignore_file n"

text \<open>
  The host has the tree at \<open>path\<close>: what the documentation of \<open>opendir\<close>, \<open>readdir\<close>, \<open>stat\<close>, \<open>open\<close> and \<open>read\<close> says for a directory tree
  without special files, in which names fit and paths are not longer than \<open>PATH_MAX\<close>.
\<close>

inductive host_has :: "host \<Rightarrow> bytes \<Rightarrow> node \<Rightarrow> bool" for host where
  host_file: "h_stat host path = Some st \<Longrightarrow> \<not> st_isdir st \<Longrightarrow> st_isreg st \<Longrightarrow> st_size st = of_nat (length c) \<Longrightarrow>
    h_read host path = Some reads \<Longrightarrow> concat reads = c \<Longrightarrow> host_has host path (File c)"
| host_dir: "h_stat host path = Some st \<Longrightarrow> st_isdir st \<Longrightarrow> h_readdir host path = Some names \<Longrightarrow>
    filter (\<lambda>n. \<not> ignore_file n) names = map fst es \<Longrightarrow> distinct (map fst es) \<Longrightarrow>
    \<forall>x\<in>set es. name_fits (fst x) \<and> length path + length (fst x) + 2 \<le> h_path_max host \<and>
      host_has host (path @ slash # fst x) (snd x) \<Longrightarrow> host_has host path (Dir es)"

inductive_cases host_file_cases: "host_has host path (File c)"
inductive_cases host_dir_cases: "host_has host path (Dir es)"

subsection \<open>A tree in an image\<close>

text \<open>An entry for a node with a name, and the node in the bytes from \<open>lo\<close> to \<open>hi\<close> of an image.\<close>

definition ent_of :: "directory_entry \<Rightarrow> bytes \<Rightarrow> node \<Rightarrow> bool" where
  "ent_of e n t \<longleftrightarrow>
     length (e_name e) = 256 \<and> 0 \<notin> set n \<and> take (length n + 1) (e_name e) = n @ [0] \<and>
     e_type e = (case t of File _ \<Rightarrow> TYPE_FILE | Dir _ \<Rightarrow> TYPE_DIR) \<and> (\<forall>c. t = File c \<longrightarrow> e_size e = of_nat (length c))"

inductive body :: "bytes \<Rightarrow> nat \<Rightarrow> nat \<Rightarrow> node \<Rightarrow> bool" for img where
  body_file: "hi = lo + length c \<Longrightarrow> hi \<le> length img \<Longrightarrow> take (length c) (drop lo img) = c \<Longrightarrow> body img lo hi (File c)"
| body_dir: "lo + length (dir_bytes ents) \<le> hi \<Longrightarrow> hi \<le> length img \<Longrightarrow>
    take (length (dir_bytes ents)) (drop lo img) = dir_bytes ents \<Longrightarrow> length ents = length es \<Longrightarrow>
    \<forall>i<length es. ent_of (ents ! i) (fst (es ! i)) (snd (es ! i)) \<and>
      (\<exists>h. lo \<le> unat (e_location (ents ! i)) \<and> h \<le> hi \<and> body img (unat (e_location (ents ! i))) h (snd (es ! i))) \<Longrightarrow>
    body img lo hi (Dir es)"

inductive_cases body_file_cases: "body img lo hi (File c)"
inductive_cases body_dir_cases: "body img lo hi (Dir es)"

text \<open>Only these bytes matter.\<close>

definition agrees :: "nat \<Rightarrow> nat \<Rightarrow> bytes \<Rightarrow> bytes \<Rightarrow> bool" where
  "agrees lo hi img img' \<longleftrightarrow> hi \<le> length img' \<and> (\<forall>i n. lo \<le> i \<longrightarrow> i + n \<le> hi \<longrightarrow> take n (drop i img') = take n (drop i img))"

lemma agrees_sub: "agrees lo hi img img' \<Longrightarrow> lo \<le> lo' \<Longrightarrow> hi' \<le> hi \<Longrightarrow> agrees lo' hi' img img'"
  by (auto simp: agrees_def)

lemma body_agrees: "body img lo hi t \<Longrightarrow> agrees lo hi img img' \<Longrightarrow> body img' lo hi t"
proof (induction arbitrary: rule: body.induct)
  case (body_file hi lo c)
  then show ?case by (intro body.body_file) (auto simp: agrees_def)
next
  case (body_dir lo ents hi es)
  show ?case
  proof (rule body.body_dir)
    show "take (length (dir_bytes ents)) (drop lo img') = dir_bytes ents" using body_dir by (simp add: agrees_def)
    show "\<forall>i<length es. ent_of (ents ! i) (fst (es ! i)) (snd (es ! i)) \<and>
      (\<exists>h. lo \<le> unat (e_location (ents ! i)) \<and> h \<le> hi \<and> body img' (unat (e_location (ents ! i))) h (snd (es ! i)))"
    proof (intro allI impI)
      fix i assume "i < length es"
      with body_dir(5) obtain h where h: "ent_of (ents ! i) (fst (es ! i)) (snd (es ! i))" "lo \<le> unat (e_location (ents ! i))" "h \<le> hi"
        "agrees (unat (e_location (ents ! i))) h img img' \<Longrightarrow> body img' (unat (e_location (ents ! i))) h (snd (es ! i))" by blast
      from h(4) [OF agrees_sub [OF body_dir(6) h(2,3)]] h(1-3) show "ent_of (ents ! i) (fst (es ! i)) (snd (es ! i)) \<and>
        (\<exists>h. lo \<le> unat (e_location (ents ! i)) \<and> h \<le> hi \<and> body img' (unat (e_location (ents ! i))) h (snd (es ! i)))" by blast
    qed
  qed (use body_dir in \<open>auto simp: agrees_def\<close>)
qed

lemma agrees_append: "hi \<le> length img \<Longrightarrow> agrees lo hi img (img @ ext)"
  by (auto simp: agrees_def)

subsection \<open>Appending to the output\<close>

definition out_ok :: "output_buf \<Rightarrow> bool" where
  "out_ok b \<longleftrightarrow> unat (o_size b) = length (o_data b) \<and> 0 < o_alloc b"

lemma output_append_returns:
  assumes b: "out_ok b" and l: "length (o_data b) + length data \<le> 2147483647"
  obtains b' where "output_append data b = Some b'" "out_ok b'" "o_data b' = o_data b @ data"
proof -
  let ?need = "o_size b + of_nat (length data) :: u32"
  have n: "unat ?need = length (o_data b) + length data"
    using b l unat_add_of_nat_u32 [of "o_size b" "length data"] by (simp add: out_ok_def)
  have "unat (o_alloc b) \<le> 2 * 2147483648" using unat_lt_u32 [of "o_alloc b"] by linarith
  moreover have "unat ?need \<le> 2147483648" using n l by linarith
  moreover have "0 < o_alloc b" using b by (simp add: out_ok_def)
  ultimately obtain a where a: "grow_alloc ?need (o_alloc b) = Some a"
    using grow_alloc_total [of "o_alloc b" 2147483648 ?need] by blast
  have "0 < a"
  proof (cases "o_alloc b < ?need")
    case True
    then have "0 < ?need" by (rule order.strict_trans1 [OF word_zero_le])
    with grow_alloc_le [OF a] show ?thesis by (rule order.strict_trans2 [rotated])
  next
    case False
    then show ?thesis using a b by (simp add: grow_alloc.simps [of ?need] out_ok_def)
  qed
  then show thesis using a n unat_lt_u32 [of a]
    by (intro that [of "\<lparr>o_alloc = a, o_size = ?need, o_data = o_data b @ data\<rparr>"]) (auto simp: output_append_def out_ok_def Let_def)
qed

lemma append_all_returns:
  assumes "out_ok b" "length (o_data b) + length (concat cs) \<le> 2147483647"
  shows "\<exists>b'. append_all cs b = Some b' \<and> out_ok b' \<and> o_data b' = o_data b @ concat cs"
  using assms
proof (induction cs arbitrary: b)
  case (Cons c cs)
  from Cons.prems have "length (o_data b) + length c \<le> 2147483647" by simp
  then obtain b1 where b1: "output_append c b = Some b1" "out_ok b1" "o_data b1 = o_data b @ c"
    by (rule output_append_returns [OF Cons.prems(1)])
  from Cons.IH [OF b1(2)] Cons.prems(2) b1 show ?case by auto
qed simp

subsection \<open>The entries of a directory\<close>

lemma full_path_fits: "length path + length n + 2 \<le> h_path_max host \<Longrightarrow> full_path host path n = path @ slash # n"
  by (simp add: full_path_def)

lemma new_entry_of:
  assumes n: "name_fits n" and h: "host_has host path t" and s: "h_stat host path = Some st"
  shows "ent_of (new_entry host st n) n t" "st_isdir st \<or> st_isreg st"
proof -
  have l: "length n < 255" and z: "0 \<notin> set n" using n by (simp_all add: name_fits_def)
  from l have "min (Suc 0) (255 - length n) = Suc 0" by simp
  with l have "take (length n + 1) (name_field host n) = n @ [0]" "length (name_field host n) = 256"
    by (simp_all add: name_field_def)
  with h s z show "ent_of (new_entry host st n) n t" "st_isdir st \<or> st_isreg st"
    by (cases t; auto simp: ent_of_def new_entry_def elim: host_file_cases host_dir_cases)+
qed

lemma read_entries_host:
  assumes "filter (\<lambda>n. \<not> ignore_file n) names = map fst es"
    and "\<forall>x\<in>set es. name_fits (fst x) \<and> length path + length (fst x) + 2 \<le> h_path_max host \<and>
      host_has host (path @ slash # fst x) (snd x)"
  shows "\<exists>ents. read_entries host path names = Some ents \<and> list_all2 (\<lambda>e x. ent_of e (fst x) (snd x)) ents es"
  using assms
proof (induction names arbitrary: es)
  case (Cons n names)
  show ?case
  proof (cases "ignore_file n")
    case True
    with Cons show ?thesis by simp
  next
    case False
    with Cons.prems(1) obtain t es' where es: "es = (n, t) # es'" "filter (\<lambda>n. \<not> ignore_file n) names = map fst es'"
      by (cases es) auto
    with Cons.prems(2) have h: "name_fits n" "full_path host path n = path @ slash # n" "host_has host (path @ slash # n) t"
      using full_path_fits by auto
    from h(3) obtain st where st: "h_stat host (path @ slash # n) = Some st" by cases auto
    note N = new_entry_of [OF h(1,3) st]
    from Cons.IH [OF es(2)] Cons.prems(2) es(1) obtain ents where
      "read_entries host path names = Some ents" "list_all2 (\<lambda>e x. ent_of e (fst x) (snd x)) ents es'" by auto
    with False h(2) st N es(1) show ?thesis by auto
  qed
qed simp

subsection \<open>Writing a tree\<close>

lemma tree_bytes_Dir: "tree_bytes (Dir es) = 4 + 276 * length es + sum_list (map (tree_bytes \<circ> snd) es)"
  by (induction es) auto

lemma length_dir_bytes: "\<forall>e\<in>set es. length (e_name e) = 256 \<Longrightarrow> length (dir_bytes es) = 4 + 276 * length es"
  by (induction es) (auto simp: dir_bytes_def ent_bytes_def)

definition emitted :: "output_buf \<Rightarrow> node \<Rightarrow> output_buf \<Rightarrow> bool" where
  "emitted out t out' \<longleftrightarrow>
     out_ok out' \<and> take (length (o_data out)) (o_data out') = o_data out \<and>
     length (o_data out') = length (o_data out) + tree_bytes t \<and>
     body (o_data out') (length (o_data out)) (length (o_data out')) t"

text \<open>An entry whose node is in the image, not before \<open>lo\<close>.\<close>

definition placed :: "bytes \<Rightarrow> nat \<Rightarrow> directory_entry \<Rightarrow> bytes \<times> node \<Rightarrow> bool" where
  "placed img lo e x \<longleftrightarrow>
     ent_of e (fst x) (snd x) \<and>
     (\<exists>h. lo \<le> unat (e_location e) \<and> h \<le> length img \<and> body img (unat (e_location e)) h (snd x))"

lemma agrees_prefix: "take (length img) img' = img \<Longrightarrow> hi \<le> length img \<Longrightarrow> agrees lo hi img img'"
proof -
  assume t: "take (length img) img' = img" and hi: "hi \<le> length img"
  then have "img' = img @ drop (length img) img'" by (metis append_take_drop_id)
  with hi show ?thesis using agrees_append by metis
qed

lemma placed_later: "placed img lo e x \<Longrightarrow> take (length img) img' = img \<Longrightarrow> length img \<le> length img' \<Longrightarrow> placed img' lo e x"
  unfolding placed_def using body_agrees agrees_prefix by (meson order.trans)

lemma ent_of_location [simp]: "ent_of (e\<lparr>e_location := l\<rparr>) n t = ent_of e n t"
  by (simp add: ent_of_def)

lemma process_file_emits:
  assumes h: "host_has host path (File c)" and o: "out_ok out" "length (o_data out) + length c \<le> 2147483647"
  shows "\<exists>out'. process_file host path out = Some out' \<and> emitted out (File c) out'"
proof -
  from h obtain reads where r: "h_read host path = Some reads" "concat reads = c" by (auto elim: host_file_cases)
  have "length (o_data out) + length (concat reads) \<le> 2147483647" using o(2) r(2) by simp
  from append_all_returns [OF o(1) this] obtain out' where "append_all reads out = Some out'" "out_ok out'" "o_data out' = o_data out @ c"
    using r(2) by auto
  with r(1) show ?thesis
    by (intro exI [of _ out']) (auto simp: process_file_def emitted_def intro!: body.body_file)
qed

lemma ent_of_name:
  assumes "ent_of e n t" "name_fits n"
  shows "0 \<in> set (e_name e)" "takeWhile (\<lambda>c. c \<noteq> 0) (e_name e) = n" "length (e_name e) = 256"
proof -
  have t: "take (length n + 1) (e_name e) = n @ [0]" and "length (e_name e) = 256" using assms(1) by (auto simp: ent_of_def)
  then show "length (e_name e) = 256" by simp
  obtain r where e: "e_name e = n @ 0 # r" 
    using t append_take_drop_id [of "length n + 1" "e_name e"] by (metis append.assoc append_Cons append_Nil)
  then show "0 \<in> set (e_name e)" by simp
  show "takeWhile (\<lambda>c. c \<noteq> 0) (e_name e) = n"
    using assms(2) unfolding e name_fits_def by (subst takeWhile_append2) auto
qed

lemma process_entries_emits:
  assumes "list_all2 (\<lambda>e x. ent_of e (fst x) (snd x)) ents es"
    and "\<forall>x\<in>set es. name_fits (fst x) \<and> length path + length (fst x) + 2 \<le> h_path_max host \<and>
      host_has host (path @ slash # fst x) (snd x)"
    and "\<forall>x\<in>set es. \<forall>out. out_ok out \<and> length (o_data out) + tree_bytes (snd x) \<le> 2147483647 \<longrightarrow>
      (case snd x of Dir _ \<Rightarrow> \<exists>out'. process_dir n host (path @ slash # fst x) out = Some out' \<and> emitted out (snd x) out' | File _ \<Rightarrow> True)"
    and "out_ok out" "length (o_data out) + sum_list (map (tree_bytes \<circ> snd) es) \<le> 2147483647"
  shows "\<exists>ents' out'. process_entries n host path ents out = Some (ents', out') \<and> out_ok out' \<and>
    take (length (o_data out)) (o_data out') = o_data out \<and>
    length (o_data out') = length (o_data out) + sum_list (map (tree_bytes \<circ> snd) es) \<and>
    list_all2 (placed (o_data out') (length (o_data out))) ents' es"
  using assms
proof (induction ents es arbitrary: out rule: list_all2_induct)
  case Nil
  then show ?case by simp
next
  case (Cons e ents x es)
  obtain nm t where x: "x = (nm, t)" by (cases x)
  have E: "ent_of e nm t" "name_fits nm" "host_has host (path @ slash # nm) t" and fp: "full_path host path nm = path @ slash # nm"
    using Cons x full_path_fits by auto
  note N = ent_of_name [OF E(1,2)]
  have fit: "length (o_data out) + tree_bytes t \<le> 2147483647" using Cons.prems(4) x by simp
  have "\<exists>out1. (if e_type e = TYPE_DIR then process_dir n host (path @ slash # nm) out else process_file host (path @ slash # nm) out) = Some out1 \<and>
    emitted out t out1"
  proof (cases t)
    case (File c)
    then have "e_type e \<noteq> TYPE_DIR" using E(1) by (simp add: ent_of_def)
    with process_file_emits [OF E(3) [unfolded File] Cons.prems(3)] fit File show ?thesis by simp
  next
    case (Dir ds)
    then have "e_type e = TYPE_DIR" using E(1) by (simp add: ent_of_def)
    with Cons.prems(2,3) fit x Dir show ?thesis by auto
  qed
  then obtain out1 where o1: "(if e_type e = TYPE_DIR then process_dir n host (path @ slash # nm) out
      else process_file host (path @ slash # nm) out) = Some out1" "emitted out t out1" by blast
  have M: "out_ok out1" "take (length (o_data out)) (o_data out1) = o_data out"
    "length (o_data out1) = length (o_data out) + tree_bytes t" "body (o_data out1) (length (o_data out)) (length (o_data out1)) t"
    using o1(2) unfolding emitted_def by blast+
  have "\<exists>ents' out'. process_entries n host path ents out1 = Some (ents', out') \<and> out_ok out' \<and>
    take (length (o_data out1)) (o_data out') = o_data out1 \<and>
    length (o_data out') = length (o_data out1) + sum_list (map (tree_bytes \<circ> snd) es) \<and>
    list_all2 (placed (o_data out') (length (o_data out1))) ents' es"
    using Cons.prems M x by (intro Cons.IH) auto
  then obtain ents' out' where o2: "process_entries n host path ents out1 = Some (ents', out')" "out_ok out'"
    "take (length (o_data out1)) (o_data out') = o_data out1"
    "length (o_data out') = length (o_data out1) + sum_list (map (tree_bytes \<circ> snd) es)"
    "list_all2 (placed (o_data out') (length (o_data out1))) ents' es" by blast
  let ?e = "e\<lparr>e_location := o_size out\<rparr>"
  have loc: "unat (e_location ?e) = length (o_data out)" using Cons.prems(3) by (simp add: out_ok_def)
  have "body (o_data out') (length (o_data out)) (length (o_data out1)) t"
    by (rule body_agrees [OF M(4) agrees_prefix [OF o2(3)]]) simp
  then have "placed (o_data out') (length (o_data out)) ?e x"
    unfolding placed_def using E(1) x loc o2(4) by (auto intro!: exI [of _ "length (o_data out1)"])
  moreover have "list_all2 (placed (o_data out') (length (o_data out))) ents' es"
    using o2(5) M(3) by (auto simp: placed_def elim!: list_all2_mono intro: order.trans)
  moreover have "take (length (o_data out)) (o_data out') = o_data out"
    using o2(3) M(2,3) by (metis le_add1 min.absorb1 take_take)
  moreover have "process_entries n host path (e # ents) out = Some (?e # ents', out')"
    using N(1,2) o1(1) o2(1) fp by (simp add: Let_def)
  ultimately show ?case using o2(2,4) M(3) x by (simp add: comp_def)
qed

lemma process_dir_emits:
  assumes "host_has host path (Dir es)" "depth (Dir es) \<le> n" "out_ok out" "length (o_data out) + tree_bytes (Dir es) \<le> 2147483647"
  shows "\<exists>out'. process_dir n host path out = Some out' \<and> emitted out (Dir es) out'"
  using assms
proof (induction n arbitrary: path es out)
  case 0
  then show ?case by simp
next
  case (Suc n)
  from Suc.prems(1) obtain names where h: "h_readdir host path = Some names" "filter (\<lambda>n. \<not> ignore_file n) names = map fst es"
    "\<forall>x\<in>set es. name_fits (fst x) \<and> length path + length (fst x) + 2 \<le> h_path_max host \<and> host_has host (path @ slash # fst x) (snd x)"
    by (auto elim: host_dir_cases)
  from read_entries_host [OF h(2,3)] obtain ents where
    r: "read_entries host path names = Some ents" "list_all2 (\<lambda>e x. ent_of e (fst x) (snd x)) ents es" by blast
  have len: "length ents = length es" using r(2) by (rule list_all2_lengthD)
  have "\<forall>e\<in>set ents. length (e_name e) = 256" using r(2) by (auto simp: list_all2_conv_all_nth in_set_conv_nth ent_of_def)
  then have dl: "length (dir_bytes ents) = 4 + 276 * length es" using length_dir_bytes len by metis
  note tb = tree_bytes_Dir [of es]
  have "length (o_data out) + length (dir_bytes ents) \<le> 2147483647" using Suc.prems(4) dl tb by linarith
  then obtain out0 where o0: "output_append (dir_bytes ents) out = Some out0" "out_ok out0" "o_data out0 = o_data out @ dir_bytes ents"
    by (rule output_append_returns [OF Suc.prems(3)])
  have ih: "\<forall>x\<in>set es. \<forall>out. out_ok out \<and> length (o_data out) + tree_bytes (snd x) \<le> 2147483647 \<longrightarrow>
      (case snd x of Dir _ \<Rightarrow> \<exists>out'. process_dir n host (path @ slash # fst x) out = Some out' \<and> emitted out (snd x) out' | File _ \<Rightarrow> True)"
  proof (intro ballI allI impI)
    fix x out assume x: "x \<in> set es" and o: "out_ok out \<and> length (o_data out) + tree_bytes (snd x) \<le> 2147483647"
    have "depth (snd x) \<le> n" using depth_child [of "fst x" "snd x" es] x Suc.prems(2) by simp
    with h(3) x o show "case snd x of Dir _ \<Rightarrow> \<exists>out'. process_dir n host (path @ slash # fst x) out = Some out' \<and> emitted out (snd x) out'
        | File _ \<Rightarrow> True"
      by (cases "snd x") (auto intro!: Suc.IH)
  qed
  have "length (o_data out0) + sum_list (map (tree_bytes \<circ> snd) es) \<le> 2147483647" using Suc.prems(4) dl tb o0(3) by simp
  from process_entries_emits [OF r(2) h(3) ih o0(2) this] obtain ents' out1 where
    o1: "process_entries n host path ents out0 = Some (ents', out1)" "out_ok out1"
      "take (length (o_data out0)) (o_data out1) = o_data out0"
      "length (o_data out1) = length (o_data out0) + sum_list (map (tree_bytes \<circ> snd) es)"
      "list_all2 (placed (o_data out1) (length (o_data out0))) ents' es" by blast
  have len': "length ents' = length es" using o1(5) by (rule list_all2_lengthD)
  have "\<forall>e\<in>set ents'. length (e_name e) = 256"
    using o1(5) by (auto simp: list_all2_conv_all_nth in_set_conv_nth placed_def ent_of_def)
  then have dl': "length (dir_bytes ents') = 4 + 276 * length es" using length_dir_bytes len' by metis
  let ?lo = "length (o_data out)" let ?mid = "length (o_data out0)"
  have mid: "?mid = ?lo + length (dir_bytes ents')" using o0(3) dl dl' by simp
  have off: "unat (o_size out) = ?lo" using Suc.prems(3) by (simp add: out_ok_def)
  have "?lo + length (dir_bytes ents') \<le> length (o_data out1)" using o1(4) mid by simp
  then obtain data where d: "array_put (o_data out1) ?lo (dir_bytes ents') = Some data" "length data = length (o_data out1)"
    "take (length (dir_bytes ents')) (drop ?lo data) = dir_bytes ents'"
    "\<And>i n. i + n \<le> ?lo \<or> ?lo + length (dir_bytes ents') \<le> i \<Longrightarrow> take n (drop i data) = take n (drop i (o_data out1))"
    by (rule array_put_returns) blast
  let ?out = "out1\<lparr>o_data := data\<rparr>"
  have pre: "take ?lo data = o_data out"
  proof -
    have "take ?lo data = take ?lo (o_data out1)" using d(4) [of 0 ?lo] by simp
    also have "\<dots> = take ?lo (take ?mid (o_data out1))" unfolding take_take using mid by (simp add: min_def)
    also have "\<dots> = o_data out" unfolding o1(3) using o0(3) by simp
    finally show ?thesis .
  qed
  have ag: "agrees ?mid (length data) (o_data out1) data" using d(2,4) mid by (simp add: agrees_def)
  have child: "ent_of (ents' ! i) (fst (es ! i)) (snd (es ! i)) \<and>
      (\<exists>h. ?lo \<le> unat (e_location (ents' ! i)) \<and> h \<le> length data \<and> body data (unat (e_location (ents' ! i))) h (snd (es ! i)))"
    if i: "i < length es" for i
  proof -
    have "placed (o_data out1) ?mid (ents' ! i) (es ! i)" using o1(5) i by (simp add: list_all2_conv_all_nth)
    then obtain h where hh: "ent_of (ents' ! i) (fst (es ! i)) (snd (es ! i))" "?mid \<le> unat (e_location (ents' ! i))" "h \<le> length data"
      "body (o_data out1) (unat (e_location (ents' ! i))) h (snd (es ! i))" using d(2) by (auto simp: placed_def)
    have "body data (unat (e_location (ents' ! i))) h (snd (es ! i))" by (rule body_agrees [OF hh(4) agrees_sub [OF ag hh(2,3)]])
    with hh mid show ?thesis by auto
  qed
  have "body data ?lo (length data) (Dir es)"
    by (rule body.body_dir [where ents = ents']) (use d(2,3) o1(4) mid len' child in auto)
  moreover have "out_ok ?out" using o1(2) d(2) by (simp add: out_ok_def)
  ultimately have "emitted out (Dir es) ?out"
    unfolding emitted_def using pre d(2) o1(4) mid dl' tb by simp
  moreover have "process_dir (Suc n) host path out = Some ?out" using h(1) r(1) o0(1) o1(1) d(1) off by simp
  ultimately show ?case by blast
qed

subsection \<open>Reading the image\<close>

lemma concat_chunk:
  "\<forall>x\<in>set xs. length (f x) = n \<Longrightarrow> i < length xs \<Longrightarrow> take n (drop (n * i) (concat (map f xs))) = f (xs ! i)"
proof (induction xs arbitrary: i)
  case (Cons x xs)
  then show ?case by (cases i) auto
qed simp

lemma slice_of_slice: "j + k \<le> n \<Longrightarrow> take k (drop j (take n (drop a xs))) = take k (drop (a + j) xs)"
  by (simp add: drop_take add.commute)

lemma length_ent_bytes: "length (e_name e) = 256 \<Longrightarrow> length (ent_bytes e) = 276"
  by (simp add: ent_bytes_def)

lemma dir_bytes_entry:
  assumes "\<forall>e\<in>set ents. length (e_name e) = 256" "i < length ents"
  shows "take 276 (drop (4 + 276 * i) (dir_bytes ents)) = ent_bytes (ents ! i)"
  using concat_chunk [of ents ent_bytes 276 i] assms by (simp add: dir_bytes_def length_ent_bytes)

text \<open>An entry in the image.\<close>

lemma ent_bytes_read:
  assumes a: "take 276 (drop a img) = ent_bytes e" and e: "ent_of e n t"
  shows "de_size img a = Some (e_size e)" "de_type img a = Some (e_type e)" "de_location img a = Some (unat (e_location e))"
    "terminated (de_name img a)" "cstr (de_name img a) = n"
proof -
  have nm: "length (e_name e) = 256" "0 \<notin> set n" "take (length n + 1) (e_name e) = n @ [0]" using e by (auto simp: ent_of_def)
  have l: "length (ent_bytes e) = 276" by (rule length_ent_bytes [OF nm(1)])
  have len: "a + 276 \<le> length img" using arg_cong [OF a, of length] l by simp
  have sub: "take k (drop (a + j) img) = take k (drop j (ent_bytes e))" if "j + k \<le> 276" for j k
    using slice_of_slice [OF that, of a img] a by simp
  note fields = ent_bytes_def length_word_bytes
  have "img_word img (a + 0) = Some (e_size e)" by (rule img_word_put, use len in simp) (subst sub; simp add: fields)
  then show "de_size img a = Some (e_size e)" by (simp add: de_size_def)
  have "img_word img (a + 4) = Some (e_type e)" by (rule img_word_put, use len in simp) (subst sub; simp add: fields)
  then show "de_type img a = Some (e_type e)" by (simp add: de_type_def)
  have "img_word img (a + 8) = Some (e_location e)" by (rule img_word_put, use len in simp) (subst sub; simp add: fields)
  then show "de_location img a = Some (unat (e_location e))" by (simp add: de_location_def)
  have "length n + 1 \<le> 256" using arg_cong [OF nm(3), of length] nm(1) by simp
  then have "take (length n + 1) (drop (a + 20) img) = n @ [0]" using sub [of 20 "length n + 1"] nm(3) by (simp add: fields)
  then obtain r where "de_name img a = n @ 0 # r"
    unfolding de_name_def by (metis append.assoc append_Cons append_Nil append_take_drop_id)
  moreover have "takeWhile (\<lambda>c. c \<noteq> 0) (n @ 0 # r) = n" using nm(2) by (subst takeWhile_append2) auto
  ultimately show "terminated (de_name img a)" "cstr (de_name img a) = n" by (simp_all add: terminated_def cstr_def)
qed

text \<open>What the kernel reads of an entry for a node: a file with its contents, or a directory with the names in it.\<close>

fun entry_shows :: "bytes \<Rightarrow> nat \<Rightarrow> node \<Rightarrow> bool" where
  "entry_shows img e (File c) \<longleftrightarrow>
     de_type img e = Some TYPE_FILE \<and> de_size img e = Some (of_nat (length c)) \<and>
     (case de_location img e of None \<Rightarrow> False | Some l \<Rightarrow> l + length c \<le> length img \<and> take (length c) (drop l img) = c)"
| "entry_shows img e (Dir es) \<longleftrightarrow>
     de_type img e = Some TYPE_DIR \<and>
     (case de_location img e of None \<Rightarrow> False
      | Some l \<Rightarrow> dir_count img l = Some (length es) \<and>
          map (\<lambda>a. cstr (de_name img a)) (dir_entries l (length es)) = map fst es)"

text \<open>The directory at \<open>lo\<close>: the number of its entries and every entry with the node it leads to.\<close>

lemma body_dir_read:
  assumes b: "body img lo hi (Dir es)" and big: "length img < 4294967296"
  shows "dir_count img lo = Some (length es)"
    "i < length es \<Longrightarrow> terminated (de_name img (dir_entry lo i)) \<and> cstr (de_name img (dir_entry lo i)) = fst (es ! i) \<and>
      (\<exists>e h. ent_of e (fst (es ! i)) (snd (es ! i)) \<and> take 276 (drop (dir_entry lo i) img) = ent_bytes e \<and>
        body img (unat (e_location e)) h (snd (es ! i)))"
proof -
  from b obtain ents where B: "lo + length (dir_bytes ents) \<le> hi" "hi \<le> length img"
    "take (length (dir_bytes ents)) (drop lo img) = dir_bytes ents" "length ents = length es"
    and C: "\<forall>i<length es. ent_of (ents ! i) (fst (es ! i)) (snd (es ! i)) \<and>
      (\<exists>h. lo \<le> unat (e_location (ents ! i)) \<and> h \<le> hi \<and> body img (unat (e_location (ents ! i))) h (snd (es ! i)))"
    by (auto elim: body_dir_cases)
  have nl: "\<forall>e\<in>set ents. length (e_name e) = 256" using B(4) C by (auto simp: in_set_conv_nth ent_of_def)
  note dl = length_dir_bytes [OF nl]
  have sub: "take k (drop (lo + j) img) = take k (drop j (dir_bytes ents))" if "j + k \<le> length (dir_bytes ents)" for j k
    using slice_of_slice [OF that, of lo img] B(3) by simp
  have "take 4 (drop (lo + 0) img) = word_bytes (of_nat (length ents))"
    by (subst sub) (use dl in \<open>simp_all add: dir_bytes_def\<close>)
  then have w: "img_word img lo = Some (of_nat (length ents))" using B(1,2) dl by (intro img_word_put) simp_all
  have "length ents < 4294967296" using B(1,2) dl big by linarith
  then have "unat (of_nat (length ents) :: u32) = length ents" by (simp add: unat_of_nat)
  with w B(4) show "dir_count img lo = Some (length es)" by (simp add: dir_count_def)
  assume i: "i < length es"
  have "take 276 (drop (lo + (4 + 276 * i)) img) = ent_bytes (ents ! i)"
    by (subst sub) (use i B(4) dl dir_bytes_entry [OF nl, of i] in simp_all)
  then have a: "take 276 (drop (dir_entry lo i) img) = ent_bytes (ents ! i)" by (simp add: dir_entry_def add.assoc)
  with C i ent_bytes_read(4,5) [OF a] show "terminated (de_name img (dir_entry lo i)) \<and> cstr (de_name img (dir_entry lo i)) = fst (es ! i) \<and>
      (\<exists>e h. ent_of e (fst (es ! i)) (snd (es ! i)) \<and> take 276 (drop (dir_entry lo i) img) = ent_bytes e \<and>
        body img (unat (e_location e)) h (snd (es ! i)))" by blast
qed

lemma body_shows:
  assumes a: "take 276 (drop a img) = ent_bytes e" and e: "ent_of e n t" and b: "body img (unat (e_location e)) h t"
    and big: "length img < 4294967296"
  shows "entry_shows img a t"
proof (cases t)
  case (File c)
  with b have "unat (e_location e) + length c \<le> length img" "take (length c) (drop (unat (e_location e)) img) = c"
    by (auto elim: body_file_cases)
  with File ent_bytes_read [OF a e] e show ?thesis by (simp add: ent_of_def)
next
  case (Dir es)
  note R = body_dir_read [OF b [unfolded Dir] big]
  have "map (\<lambda>a. cstr (de_name img a)) (dir_entries (unat (e_location e)) (length es)) = map fst es"
    by (rule nth_equalityI) (use R(2) in \<open>simp_all add: dir_entries_def\<close>)
  with Dir R(1) ent_bytes_read(2,3) [OF a e] e show ?thesis by (simp add: ent_of_def)
qed

lemma find_name_map_of:
  assumes "\<forall>i\<in>set is. terminated (de_name img (f i)) \<and> cstr (de_name img (f i)) = fst (es ! i)"
  shows "(find_name img p (map f is) = Some None \<and> map_of (map (\<lambda>i. es ! i) is) p = None) \<or>
    (\<exists>i\<in>set is. find_name img p (map f is) = Some (Some (f i)) \<and> map_of (map (\<lambda>i. es ! i) is) p = Some (snd (es ! i)))"
  using assms
proof (induction "is")
  case (Cons i "is")
  then show ?case by (cases "es ! i") auto
qed simp

lemma find_entry_body:
  assumes b: "body img lo hi (Dir es)" and big: "length img < 4294967296"
  shows "case map_of es p of None \<Rightarrow> find_entry img lo p = Some None
    | Some t \<Rightarrow> \<exists>a e n h. find_entry img lo p = Some (Some a) \<and> ent_of e n t \<and> take 276 (drop a img) = ent_bytes e \<and>
        body img (unat (e_location e)) h t"
proof -
  note R = body_dir_read [OF b big]
  have "map_of (map (\<lambda>i. es ! i) [0..<length es]) p = map_of es p" by (simp add: map_nth)
  moreover have "find_entry img lo p = find_name img p (map (dir_entry lo) [0..<length es])"
    using R(1) by (simp add: find_entry_def dir_entries_def)
  moreover have "\<forall>i\<in>set [0..<length es]. terminated (de_name img (dir_entry lo i)) \<and> cstr (de_name img (dir_entry lo i)) = fst (es ! i)"
    using R(2) by simp
  ultimately consider "find_entry img lo p = Some None" "map_of es p = None"
    | i where "i < length es" "find_entry img lo p = Some (Some (dir_entry lo i))" "map_of es p = Some (snd (es ! i))"
    using find_name_map_of [of "[0..<length es]" img "dir_entry lo" es p] by auto
  then show ?thesis
  proof cases
    case 2
    with R(2) [OF 2(1)] show ?thesis by auto
  qed simp
qed

lemma walk_body:
  assumes "entry_shows img a t" "de_location img a = Some lo" "body img lo hi t" "length img < 4294967296" "\<exists>es. t = Dir es"
  shows "case subtree t ps of None \<Rightarrow> \<exists>x. walk img lo (Some a) ps = Some (- ENOENT, x)
    | Some t' \<Rightarrow> \<exists>e. walk img lo (Some a) ps = Some (0, Some e) \<and> entry_shows img e t'"
  using assms
proof (induction ps arbitrary: a lo hi t)
  case (Cons p ps)
  from Cons.prems(5) obtain es where t: "t = Dir es" by blast
  show ?case
  proof (cases "p = []")
    case True
    with t have "walk img lo (Some a) (p # ps) = walk img lo (Some a) ps" "subtree t (p # ps) = subtree t ps" by simp_all
    then show ?thesis using Cons.IH [OF Cons.prems] by (simp only:)
  next
    case False
    note F = find_entry_body [OF Cons.prems(3) [unfolded t] Cons.prems(4), of p]
    show ?thesis
    proof (cases "map_of es p")
      case None
      with F False t show ?thesis by simp
    next
      case (Some t')
      with F obtain a' e n h where f: "find_entry img lo p = Some (Some a')" and e: "ent_of e n t'"
        and b: "take 276 (drop a' img) = ent_bytes e" "body img (unat (e_location e)) h t'" by auto
      note S = body_shows [OF b(1) e b(2) Cons.prems(4)] and T = ent_bytes_read(2,3) [OF b(1) e]
      show ?thesis
      proof (cases t')
        case (File c)
        then show ?thesis using f e S T False Some t by (cases ps) (simp_all add: ent_of_def)
      next
        case (Dir ds)
        then have "walk img lo (Some a) (p # ps) = walk img (unat (e_location e)) (Some a') ps" "subtree t (p # ps) = subtree t' ps"
          using f e T False Some t by (simp_all add: ent_of_def)
        then show ?thesis using Cons.IH [OF S T(2) b(2) Cons.prems(4)] Dir by (simp only:) blast
      qed
    qed
  qed
qed simp

subsection \<open>The image and the kernel\<close>

lemma build_emits:
  assumes h: "host_has host dir (Dir es)" and n: "depth (Dir es) \<le> n" and sz: "276 + tree_bytes (Dir es) \<le> 2147483647"
  shows "\<exists>img. build n host dir = Some img \<and> length img = 276 + tree_bytes (Dir es) \<and> take 276 img = root_bytes host \<and>
    body img 276 (length img) (Dir es)"
proof -
  have l: "length (root_bytes host) = 276" by (simp add: root_bytes_def chars_def)
  have "out_ok OUTPUT_INIT" "length (o_data OUTPUT_INIT) + length (root_bytes host) \<le> 2147483647"
    using l by (simp_all add: out_ok_def OUTPUT_INIT_def)
  then obtain out0 where o0: "output_append (root_bytes host) OUTPUT_INIT = Some out0" "out_ok out0" "o_data out0 = root_bytes host"
    by (rule output_append_returns) (simp add: OUTPUT_INIT_def)
  have "length (o_data out0) + tree_bytes (Dir es) \<le> 2147483647" using sz l o0(3) by simp
  from process_dir_emits [OF h n o0(2) this] obtain out where o: "process_dir n host dir out0 = Some out" "emitted out0 (Dir es) out" by blast
  have "build n host dir = Some (o_data out)" using o0(1) o(1) by (simp add: build_def)
  moreover have "take 276 (o_data out) = root_bytes host" "length (o_data out) = 276 + tree_bytes (Dir es)"
    "body (o_data out) 276 (length (o_data out)) (Dir es)" using o(2) unfolding emitted_def o0(3) l by blast+
  ultimately show ?thesis by blast
qed

lemma root_entry:
  assumes "take 276 img = root_bytes host"
  shows "de_type img 0 = Some TYPE_DIR" "de_location img 0 = Some 276"
proof -
  have "length (root_bytes host) = 276" by (simp add: root_bytes_def chars_def)
  then have len: "276 \<le> length img" using arg_cong [OF assms, of length] by simp
  have sub: "take k (drop j img) = take k (drop j (root_bytes host))" if "j + k \<le> 276" for j k
    using slice_of_slice [OF that, of 0 img] assms by simp
  have "img_word img 4 = Some TYPE_DIR" by (rule img_word_put, use len in simp) (subst sub; simp add: root_bytes_def)
  then show "de_type img 0 = Some TYPE_DIR" by (simp add: de_type_def)
  have "img_word img 8 = Some 276" by (rule img_word_put, use len in simp) (subst sub; simp add: root_bytes_def)
  then show "de_location img 0 = Some 276" by (simp add: de_location_def)
qed

text \<open>A path leads to the same node in the image and in the tree.\<close>

definition image_finds :: "bytes \<Rightarrow> node \<Rightarrow> bool" where
  "image_finds img t \<longleftrightarrow>
     (\<forall>path. terminated path \<longrightarrow>
        (case subtree t (pieces (cstr path)) of
           None \<Rightarrow> \<exists>x. get_directory_entry img path = Some (- ENOENT, x)
         | Some t' \<Rightarrow> \<exists>e. get_directory_entry img path = Some (0, Some e) \<and> entry_shows img e t'))"

lemma build_finds:
  assumes h: "host_has host dir (Dir es)" and n: "depth (Dir es) \<le> n" and sz: "276 + tree_bytes (Dir es) \<le> 2147483647"
  obtains img where "build n host dir = Some img" "length img = 276 + tree_bytes (Dir es)" "image_finds img (Dir es)"
proof -
  from build_emits [OF assms] obtain img where i: "build n host dir = Some img" "length img = 276 + tree_bytes (Dir es)"
    "take 276 img = root_bytes host" "body img 276 (length img) (Dir es)" by blast
  have big: "length img < 4294967296" using i(2) sz by linarith
  note R = body_dir_read [OF i(4) big] and E = root_entry [OF i(3)]
  have "map (\<lambda>a. cstr (de_name img a)) (dir_entries 276 (length es)) = map fst es"
    by (rule nth_equalityI) (use R(2) in \<open>simp_all add: dir_entries_def\<close>)
  then have s: "entry_shows img 0 (Dir es)" using E R(1) by simp
  have g: "get_directory_entry img path = walk img 276 (Some 0) (pieces (cstr path))" if "terminated path" for path
    using get_directory_entry_loop_walk [OF that, of 0 0] that E(2) by (simp add: get_directory_entry_def strlen_cstr scanning_def)
  have "case subtree (Dir es) (pieces (cstr path)) of None \<Rightarrow> \<exists>x. get_directory_entry img path = Some (- ENOENT, x)
      | Some t \<Rightarrow> \<exists>e. get_directory_entry img path = Some (0, Some e) \<and> entry_shows img e t" if "terminated path" for path
    unfolding g [OF that] by (rule walk_body [OF s E(2) i(4) big]) blast
  then have "image_finds img (Dir es)" unfolding image_finds_def by blast
  with i(1,2) show thesis by (rule that)
qed

text \<open>
  C37: what \<open>fstool\<close> writes is what the kernel reads. For a directory tree on the host, if the recursion may go as deep as the
  tree and the tree fits into 2 GB, \<open>fstool -build\<close> succeeds, the image has exactly the length of the tree, and for every path
  \<open>get_directory_entry\<close> on the image gives an entry for the node that the path leads to in the tree, with the size and the contents
  of a file or the names in a directory, and \<open>-ENOENT\<close> when the path leads nowhere.
\<close>

theorem image_roundtrip:
  assumes h: "host_has host dir (Dir es)" and n: "depth (Dir es) \<le> n" and sz: "276 + tree_bytes (Dir es) \<le> 2147483647"
  shows "\<exists>img. build n host dir = Some img \<and> length img = 276 + tree_bytes (Dir es) \<and>
    (\<forall>path. terminated path \<longrightarrow>
      (case subtree (Dir es) (pieces (cstr path)) of
         None \<Rightarrow> \<exists>x. get_directory_entry img path = Some (- ENOENT, x)
       | Some t \<Rightarrow> \<exists>e. get_directory_entry img path = Some (0, Some e) \<and> entry_shows img e t))"
  by (rule build_finds [OF assms]) (auto simp only: image_finds_def)

text \<open>A host with a directory that holds a file and a directory with one file.\<close>

definition demo_host :: host where
  "demo_host =
     \<lparr>h_readdir = (\<lambda>p. if p = chars ''r'' then Some [chars ''.'', chars ''f'', chars ''..'', chars ''d'']
                    else if p = chars ''r/d'' then Some [chars ''..'', chars ''g'', chars ''.''] else None),
      h_stat = (\<lambda>p. if p = chars ''r'' \<or> p = chars ''r/d'' then Some \<lparr>st_isdir = True, st_isreg = False, st_size = 4096, st_mode = 0, st_mtime = 0\<rparr>
                 else if p = chars ''r/f'' then Some \<lparr>st_isdir = False, st_isreg = True, st_size = 3, st_mode = 0, st_mtime = 0\<rparr>
                 else if p = chars ''r/d/g'' then Some \<lparr>st_isdir = False, st_isreg = True, st_size = 0, st_mode = 0, st_mtime = 0\<rparr> else None),
      h_read = (\<lambda>p. if p = chars ''r/f'' then Some [[1, 2], [3]] else if p = chars ''r/d/g'' then Some [] else None),
      h_junk = (\<lambda>_. 7), h_path_max = 4096\<rparr>"

definition demo_tree :: "(bytes \<times> node) list" where
  "demo_tree = [(chars ''f'', File [1, 2, 3]), (chars ''d'', Dir [(chars ''g'', File [])])]"

lemma demo_host_has: "host_has demo_host (chars ''r'') (Dir demo_tree)"
proof -
  let ?d = "Dir [(chars ''g'', File [])]"
  note demo = demo_host_def chars_def slash_def name_fits_def ignore_file_def
  have "host_has demo_host (chars ''r/f'') (File [1, 2, 3])" by (rule host_file) (simp add: demo)+
  moreover have "host_has demo_host (chars ''r/d/g'') (File [])" by (rule host_file) (simp add: demo)+
  then have "host_has demo_host (chars ''r/d'') ?d" by - (rule host_dir, (simp add: demo)+)
  ultimately show ?thesis unfolding demo_tree_def by - (rule host_dir, (simp add: demo)+)
qed

lemma demo_tree_size: "depth (Dir demo_tree) \<le> 2" "276 + tree_bytes (Dir demo_tree) = 1115"
  by (simp_all add: demo_tree_def)

theorem image_roundtrip_witness:
  "\<exists>img e. build 2 demo_host (chars ''r'') = Some img \<and> length img = 1115 \<and>
     get_directory_entry img (chars ''//d/g'' @ [0]) = Some (0, Some e) \<and> entry_shows img e (File [])"
proof -
  have "subtree (Dir demo_tree) (pieces (cstr (chars ''//d/g'' @ [0]))) = Some (File [])" by (simp add: demo_tree_def chars_def slash_def)
  moreover have "terminated (chars ''//d/g'' @ [0])" by (simp add: terminated_def)
  ultimately show ?thesis using image_roundtrip [OF demo_host_has, of 2] demo_tree_size by fastforce
qed

end
