(* ===== verification/File_Claims.thy ===== *)
theory File_Claims
  imports File_Props Fstool_Props Pipe_Claims
begin

text \<open>
  Opening and reading files, from the tree on the machine where the image was built to the memory of a process.
\<close>

subsection \<open>Reading\<close>

text \<open>
  C35: an open file delivers its contents in order, however it is read. For any sequence of \<open>read\<close> calls on the descriptor of
  a file with buffers that \<open>valid_pointer\<close> accepts, every call succeeds, and the bytes that are in the buffers after the calls are
  together the next bytes of the file from its current position, none skipped or repeated, and as many as were asked for unless
  the file ends. The descriptor is then behind them.
\<close>

theorem file_read_stream:
  assumes "reading p fd fh k" "\<forall>r\<in>set rs. read_ok p r"
  shows "\<exists>k'. open_file.gets fd rs k = Some (take (\<Sum>r\<leftarrow>rs. unat (snd r)) (unread fh k), k') \<and>
    reading p fd fh k' \<and> unread fh k' = drop (\<Sum>r\<leftarrow>rs. unat (snd r)) (unread fh k)"
  by (rule open_file.gets_next [OF assms])

text \<open>An image of a file with three bytes, and the handle of the file.\<close>

definition tiny_image :: bytes where
  "tiny_image = word_bytes 3 @ word_bytes TYPE_FILE @ word_bytes 12 @ [1, 2, 3]"

definition tiny_handle :: filehandle where
  "tiny_handle =
     \<lparr>fh_kind = FH_FILE, fh_refcount = 1, fh_write = File_write, fh_read = File_read, fh_destroy = File_destroy,
      fh_p = 0, fh_entry = 0, fh_pos = 0, fh_entryno = 0\<rparr>"

theorem file_read_stream_witness:
  "\<exists>k k'. open_file.gets 0 [(0x3FFFF000, 2), (0x3FFFF800, 2)] k = Some ([1, 2, 3], k')"
proof -
  let ?fds = "Some 5 # replicate 15 None" and ?rs = "[(0x3FFFF000, 2), (0x3FFFF800, 2)] :: (u32 \<times> u32) list"
  obtain k0 pdir where k0: "serves (stack_proc pdir ?fds) k0" "current_process k0 = Some (1, stack_proc pdir ?fds)"
    by (rule user_machine)
  let ?p = "stack_proc pdir ?fds" and ?k = "k0\<lparr>k_filesystem := tiny_image, k_handles := [5 \<mapsto> tiny_handle]\<rparr>"
  have l: "length tiny_image = 15" by (simp add: tiny_image_def)
  have "de_size tiny_image 0 = Some 3" unfolding de_size_def
    by (rule img_word_put) (use l in \<open>simp_all add: tiny_image_def\<close>)
  moreover have "img_word tiny_image 8 = Some 12"
    by (rule img_word_put) (use l in \<open>simp_all add: tiny_image_def\<close>)
  then have "de_location tiny_image 0 = Some 12" by (simp add: de_location_def)
  ultimately have f: "file_in tiny_image 0" "file_contents tiny_image 0 = [1, 2, 3]"
    using l by (simp_all add: file_in_def file_contents_def) (simp add: tiny_image_def)
  have "serves ?p ?k" using k0(1) by (simp add: serves_def)
  moreover have "current_process ?k = Some (1, ?p)"
    using k0(2) by (auto simp: current_process_def get_proc_def bind_eq_Some_conv split: if_splits)
  moreover have "fd_handle ?p 0 = Some 5" by (simp add: fd_handle_def stack_proc_def with_stack_def)
  ultimately have r: "reading ?p 0 5 ?k" using f by (auto simp: reading_def tiny_handle_def)
  have u: "unread 5 ?k = [1, 2, 3]" using f(2) by (simp add: unread_def tiny_handle_def)
  have "\<forall>r\<in>set ?rs. read_ok ?p r" by (simp add: read_ok_def valid_pointer_def within_def stack_proc_def with_stack_def)
  from file_read_stream [OF r this] u show ?thesis by auto
qed

subsection \<open>Strings of the process\<close>

lemma serves_readable:
  assumes s: "serves p k"
  shows "readable p k"
  unfolding readable_def
proof (intro conjI allI impI ballI)
  have sp: "space_ok p" using serves_owns [OF s] by (simp add: owns_memory_def)
  fix a sz assume v: "valid_pointer p a sz" and "sz \<noteq> 0"
  then have i: "unat sz - 1 < unat sz" by (simp add: unat_gt_0)
  have "of_nat (unat sz - 1) = sz - 1" using \<open>sz \<noteq> 0\<close> by (simp add: of_nat_diff Suc_le_eq unat_gt_0)
  with valid_pointer_addrs(1) [OF sp v i] have "a + sz - 1 \<in> user_addrs p" by (simp add: add_diff_eq)
  then show "vload (a + sz - 1) k \<noteq> None" using vload_serves [OF s] by simp
next
  have "space_ok p" using serves_owns [OF s] by (simp add: owns_memory_def)
  then show "case x of (s, e) \<Rightarrow> e \<le> 0xFFFFF000" if "x \<in> set (segments p)" for x
    using that unfolding segments_def space_ok_def by (auto intro: order.trans)
qed

lemma vstring_read:
  "vread a (length (t @ [0])) k = Some (t @ [0]) \<Longrightarrow> 0 \<notin> set t \<Longrightarrow> vstring a k = Some (t @ [0])"
proof (induction t arbitrary: a)
  case Nil
  then show ?case by (subst vstring.simps) (auto simp: bind_eq_Some_conv)
next
  case (Cons c t)
  then have "vload a k = Some c" "vread (a + 1) (length (t @ [0])) k = Some (t @ [0])" "c \<noteq> 0" "0 \<notin> set t"
    by (auto simp: bind_eq_Some_conv)
  with Cons.IH show ?case by (subst vstring.simps) simp
qed

lemma valid_string_read:
  assumes s: "serves p k" and t: "vread a (length (t @ [0])) k = Some (t @ [0])" "0 \<notin> set t" "length t < 4294967295"
    and v: "valid_pointer p a (of_nat (length (t @ [0])))"
  shows "valid_string p a k = Some True"
  using valid_string_loop_correct [OF serves_readable [OF s], of 0 a] vstring_read [OF t(1,2)] t(3) v
  by (auto simp: valid_string_def string_at_def)

subsection \<open>Paths in normal form\<close>

lemma pieces_path_text:
  assumes "\<forall>c\<in>set cs. name_ok c"
  shows "pieces (path_text cs) = [] # (if cs = [] then [[]] else cs)"
proof -
  have "pieces (concat (map (\<lambda>c. slash # c) cs)) = [] # cs" if "\<forall>c\<in>set cs. name_ok c" for cs
    using that
  proof (induction cs)
    case (Cons c cs)
    then have c: "slash \<notin> set c" by (simp add: name_ok_def)
    show ?case
    proof (cases cs)
      case Nil
      with c show ?thesis by (simp add: pieces_last)
    next
      case (Cons d ds)
      with c Cons.IH Cons.prems show ?thesis by (simp add: pieces_slash)
    qed
  qed simp
  with assms show ?thesis by (simp add: path_text_def)
qed

lemma subtree_normal: "\<forall>c\<in>set cs. name_ok c \<Longrightarrow> subtree (Dir es) (pieces (path_text cs)) = subtree (Dir es) cs"
  by (simp add: pieces_path_text)

lemma norm_names:
  assumes "\<forall>c\<in>set cs. name_ok c" "\<forall>p\<in>set ps. p = [] \<or> name_ok p"
  shows "\<forall>c\<in>set (foldl norm_step cs ps). name_ok c"
  using assms
proof (induction ps arbitrary: cs)
  case (Cons p ps)
  then have "\<forall>c\<in>set (norm_step cs p). name_ok c" by (auto simp: norm_step_def dest: in_set_butlastD)
  with Cons show ?case by simp
qed simp

text \<open>The names that a path \<open>t\<close> means in the directory with the names \<open>cs\<close>.\<close>

definition resolved :: "bytes list \<Rightarrow> bytes \<Rightarrow> bytes list" where
  "resolved cs t = foldl norm_step (if hd (t @ [0]) = slash then [] else cs) (pieces t)"

lemma path_resolves:
  assumes cs: "\<forall>c\<in>set cs. name_ok c" "cstr cwd = path_text cs" "terminated cwd" and t: "0 \<notin> set t"
    and mx: "length (path_text cs) + 1 + length t < mx" "mx \<le> length buf" "mx < 2147483648"
  obtains b where "relative_to_absolute buf cwd (t @ [0]) mx = Some b" "terminated b" "cstr b = path_text (resolved cs t)"
    "\<forall>c\<in>set (resolved cs t). name_ok c"
proof -
  have T: "terminated (t @ [0])" "cstr (t @ [0]) = t" using t by (simp_all add: terminated_def cstr_append_0)
  have "length (path_text cs) + 1 + length (cstr (t @ [0])) < mx" using mx(1) T(2) by simp
  from relative_to_absolute_normal [OF cs T(1) this mx(2)] mx(3) obtain b where
    "relative_to_absolute buf cwd (t @ [0]) mx = Some b" "terminated b" "cstr b = path_text (resolved cs t)"
    unfolding resolved_def T(2) by auto
  moreover have "\<forall>c\<in>set (resolved cs t). name_ok c"
    unfolding resolved_def by (rule norm_names) (use cs(1) pieces_names [OF _ t] in auto)
  ultimately show thesis by (rule that)
qed

text \<open>What a path leads to in an image.\<close>

lemma image_resolves:
  assumes "image_finds img (Dir es)" "terminated b" "cstr b = path_text cs" "\<forall>c\<in>set cs. name_ok c"
  shows "case subtree (Dir es) cs of None \<Rightarrow> \<exists>x. get_directory_entry img b = Some (- ENOENT, x)
      | Some t \<Rightarrow> \<exists>e. get_directory_entry img b = Some (0, Some e) \<and> entry_shows img e t"
  using assms(1) [unfolded image_finds_def, rule_format, OF assms(2)] by (simp only: assms(3) subtree_normal [OF assms(4)])

lemma find_fd_free: "find_fd n fds = Some fd \<Longrightarrow> n \<le> fd \<and> fd < n + length fds \<and> fds ! (fd - n) = None"
  by (induction n fds rule: find_fd.induct) (auto split: if_splits simp: nth_Cons')

text \<open>The search stops at the lowest free descriptor.\<close>

lemma find_fd_lowest:
  "fd < length fds \<Longrightarrow> fds ! fd = None \<Longrightarrow> \<forall>j<fd. fds ! j \<noteq> None \<Longrightarrow> find_fd n fds = Some (n + fd)"
proof (induction n fds arbitrary: fd rule: find_fd.induct)
  case (2 n f fds)
  then show ?case by (cases fd) (auto simp: All_less_Suc2)
qed simp

lemma serves_fds [simp]: "serves (p\<lparr>pr_filedesc := x\<rparr>) k = serves p k" "read_ok (p\<lparr>pr_filedesc := x\<rparr>) = read_ok p"
proof -
  have s: "space_pages (p\<lparr>pr_filedesc := x\<rparr>) = space_pages p" "space_ok (p\<lparr>pr_filedesc := x\<rparr>) = space_ok p"
    by (simp_all add: space_pages_def space_ok_def)
  show "serves (p\<lparr>pr_filedesc := x\<rparr>) k = serves p k"
    by (simp add: serves_def private_memory_def owns_memory_def s)
  show "read_ok (p\<lparr>pr_filedesc := x\<rparr>) = read_ok p"
    by (simp add: fun_eq_iff read_ok_def valid_pointer_def within_def Let_def)
qed

text \<open>Opening a file: the handle that the process gets.\<close>

lemma open_entry_file:
  assumes s: "serves p k" "current_process k = Some (i, p)" and fd: "find_fd 0 (pr_filedesc p) = Some fd" "length (pr_filedesc p) = MAX_FDS"
    and e: "entry_shows (k_filesystem k) e (File c)" "length (k_filesystem k) < 2147483648" and m: "k_malloc 36 k \<noteq> None"
    and nd: "mode \<noteq> OPEN_DIRECTORY"
  shows "\<exists>fh k'. open_entry i fd mode e k = Some (int fd, k') \<and>
    reading (p\<lparr>pr_filedesc := (pr_filedesc p)[fd := Some fh]\<rparr>) (int fd) fh k' \<and> unread fh k' = c"
proof -
  from m obtain fh k1 where m: "k_malloc 36 k = Some (fh, k1)" by auto
  then obtain hp where k1: "k1 = k\<lparr>k_heap := hp\<rparr>" by (auto simp: k_malloc_def)
  let ?h = "\<lparr>fh_kind = FH_FILE, fh_refcount = 1, fh_write = File_write, fh_read = File_read,
       fh_destroy = File_destroy, fh_p = 0, fh_entry = e, fh_pos = 0, fh_entryno = 0\<rparr>"
  let ?k = "set_fd i fd (Some fh) (k1\<lparr>k_handles := (k_handles k1)(fh \<mapsto> ?h)\<rparr>)"
  from e(1) obtain l where E: "de_type (k_filesystem k) e = Some TYPE_FILE" "de_size (k_filesystem k) e = Some (of_nat (length c))"
    "de_location (k_filesystem k) e = Some l" "l + length c \<le> length (k_filesystem k)" "take (length c) (drop l (k_filesystem k)) = c"
    by (auto split: option.splits)
  have c: "unat (of_nat (length c) :: u32) = length c" using E(4) e(2) by (simp add: unat_of_nat)
  have fi: "file_in (k_filesystem k) e" "file_contents (k_filesystem k) e = c"
    using E c e(2) by (simp_all add: file_in_def file_contents_def)
  have "open_entry i fd mode e k = Some (int fd, ?k)"
    using E(1) nd m by (simp add: open_entry_def new_file_def new_handle_def upd_handle_def)
  moreover from s(2) have i: "i < length (k_procs k)" "k_procs k ! i = p" "k_current k = Some i"
    by (auto simp: current_process_def get_proc_def bind_eq_Some_conv split: if_splits)
  then have "current_process ?k = Some (i, p\<lparr>pr_filedesc := (pr_filedesc p)[fd := Some fh]\<rparr>)"
    by (simp add: current_process_def get_proc_def set_fd_def upd_proc_def k1)
  moreover have "fd < 16" using find_fd_free [OF fd(1)] fd(2) by simp
  then have "fd_handle (p\<lparr>pr_filedesc := (pr_filedesc p)[fd := Some fh]\<rparr>) (int fd) = Some fh"
    using fd(2) by (simp add: fd_handle_def)
  moreover have "serves p ?k" using s(1) by (simp add: serves_def set_fd_def k1)
  ultimately show ?thesis using fi
    by (intro exI [of _ fh] exI [of _ ?k]) (simp add: reading_def unread_def set_fd_def k1)
qed

text \<open>Opening a directory.\<close>

lemma open_entry_dir:
  assumes s: "current_process k = Some (i, p)" and fd: "fd < length (pr_filedesc p)"
    and e: "entry_shows (k_filesystem k) e (Dir ds)" and m: "k_malloc 36 k \<noteq> None"
  shows "\<exists>fh h k'. open_entry i fd OPEN_DIRECTORY e k = Some (int fd, k') \<and> pr_filedesc (k_procs k' ! i) = (pr_filedesc p)[fd := Some fh] \<and>
    k_handles k' fh = Some h \<and> fh_kind h = FH_DIR \<and> fh_entry h = e \<and> fh_entryno h = 0"
proof -
  from m obtain fh k1 where m: "k_malloc 36 k = Some (fh, k1)" by auto
  then obtain hp where k1: "k1 = k\<lparr>k_heap := hp\<rparr>" by (auto simp: k_malloc_def)
  let ?h = "\<lparr>fh_kind = FH_DIR, fh_refcount = 1, fh_write = File_write, fh_read = File_read,
       fh_destroy = File_destroy, fh_p = 0, fh_entry = e, fh_pos = 0, fh_entryno = 0\<rparr>"
  let ?k = "set_fd i fd (Some fh) (k1\<lparr>k_handles := (k_handles k1)(fh \<mapsto> ?h)\<rparr>)"
  have "de_type (k_filesystem k) e = Some TYPE_DIR" using e by (auto split: option.splits)
  then have "open_entry i fd OPEN_DIRECTORY e k = Some (int fd, ?k)"
    using m by (simp add: open_entry_def new_file_def new_handle_def upd_handle_def)
  moreover from s have i: "i < length (k_procs k)" "k_procs k ! i = p"
    by (auto simp: current_process_def get_proc_def bind_eq_Some_conv split: if_splits)
  ultimately show ?thesis
    by (intro exI [of _ fh] exI [of _ ?h] exI [of _ ?k]) (simp add: set_fd_def nth_upd_proc k1)
qed

text \<open>
  C34: the contents of the files survive the whole way from the machine where the image is built to a process that opens and
  reads them. With the image that \<open>fstool\<close> built from a directory tree in the kernel, \<open>open\<close> on a path string in the memory of
  the process, with a free descriptor and kernel memory for a handle, resolves the path against the working directory and returns
  \<open>-ENOENT\<close> if nothing is there in the tree. With the flag \<open>OPEN_DIRECTORY\<close> it returns \<open>-ENOTDIR\<close> for a file and opens a directory; with any other
  flags it returns \<open>-EISDIR\<close> for a directory and opens a file. What is opened gets the lowest free descriptor. For a file, any sequence of \<open>read\<close>
  calls on this descriptor that together ask for enough then delivers exactly the bytes of the file of the host.
\<close>

theorem open_read_roundtrip:
  assumes host: "host_has host dir (Dir es)" "depth (Dir es) \<le> n" "276 + tree_bytes (Dir es) \<le> 2147483647"
    and img: "build n host dir = Some (k_filesystem k)"
    and s: "serves p k" "current_process k = Some (i, p)"
    and path: "vread path (length (t @ [0])) k = Some (t @ [0])" "0 \<notin> set t" "valid_pointer p path (of_nat (length (t @ [0])))"
    and cwd: "\<forall>c\<in>set cs. name_ok c" "cstr (pr_cwd p) = path_text cs" "terminated (pr_cwd p)"
    and fits: "length (path_text cs) + 1 + length t < PATH_MAX" "PATH_MAX \<le> length (k_stack k)"
    and fds: "length (pr_filedesc p) = MAX_FDS" "fd < MAX_FDS" "pr_filedesc p ! fd = None" "\<forall>j<fd. pr_filedesc p ! j \<noteq> None"
    and mem: "k_malloc 36 k \<noteq> None"
  shows "case subtree (Dir es) (resolved cs t) of
      None \<Rightarrow> syscall_open path mode k = Some (- ENOENT, k)
    | Some (Dir ds) \<Rightarrow>
        (if mode = OPEN_DIRECTORY
         then \<exists>fh h k'. syscall_open path mode k = Some (int fd, k') \<and> pr_filedesc (k_procs k' ! i) = (pr_filedesc p)[fd := Some fh] \<and>
           k_handles k' fh = Some h \<and> fh_kind h = FH_DIR \<and> entry_shows (k_filesystem k) (fh_entry h) (Dir ds) \<and> fh_entryno h = 0
         else syscall_open path mode k = Some (- EISDIR, k))
    | Some (File c) \<Rightarrow>
        (if mode = OPEN_DIRECTORY then syscall_open path mode k = Some (- ENOTDIR, k)
         else \<exists>k'. syscall_open path mode k = Some (int fd, k') \<and>
           (\<forall>rs. (\<forall>r\<in>set rs. read_ok p r) \<and> length c \<le> (\<Sum>r\<leftarrow>rs. unat (snd r)) \<longrightarrow>
              (\<exists>k''. open_file.gets (int fd) rs k' = Some (c, k''))))"
proof -
  obtain img where "build n host dir = Some img" "length img = 276 + tree_bytes (Dir es)" "image_finds img (Dir es)"
    by (rule build_finds [OF host])
  with img host(3) have I: "length (k_filesystem k) < 2147483648" "image_finds (k_filesystem k) (Dir es)" by auto
  have fd: "find_fd 0 (pr_filedesc p) = Some fd" "fd < length (pr_filedesc p)" using find_fd_lowest [of fd "pr_filedesc p" 0] fds by simp_all
  obtain b where b: "kernel_path p (t @ [0]) k = Some b" "terminated b" "cstr b = path_text (resolved cs t)"
    "\<forall>c\<in>set (resolved cs t). name_ok c" by (rule path_resolves [OF cwd path(2) fits _, folded kernel_path_def]) simp_all
  have len: "length t < 4294967295" using fits(1) by simp
  have pre: "syscall_open path mode k = do { (r, entry) \<leftarrow> get_directory_entry (k_filesystem k) b;
      if r \<noteq> 0 then Some (r, k) else do { e \<leftarrow> entry; open_entry i fd mode e k } }"
    using s(2) valid_string_read [OF s(1) path(1,2) len path(3)] fd(1) vstring_read [OF path(1,2)] b(1)
    by (simp add: syscall_open_def)
  have F: "case subtree (Dir es) (resolved cs t) of None \<Rightarrow> \<exists>x. get_directory_entry (k_filesystem k) b = Some (- ENOENT, x)
      | Some t' \<Rightarrow> \<exists>e. get_directory_entry (k_filesystem k) b = Some (0, Some e) \<and> entry_shows (k_filesystem k) e t'"
    by (rule image_resolves [OF I(2) b(2,3,4)])
  show ?thesis
  proof (cases "subtree (Dir es) (resolved cs t)")
    case None
    with F pre show ?thesis by auto
  next
    case (Some t')
    with F obtain e where g: "get_directory_entry (k_filesystem k) b = Some (0, Some e)" and e: "entry_shows (k_filesystem k) e t'" by auto
    have o: "syscall_open path mode k = open_entry i fd mode e k" using pre g by simp
    show ?thesis
    proof (cases t')
      case (Dir ds)
      have "syscall_open path mode k = Some (- EISDIR, k)" if "mode \<noteq> OPEN_DIRECTORY" using o e that Dir by (simp add: open_entry_def)
      with open_entry_dir [OF s(2) fd(2) e [unfolded Dir] mem] o e Some Dir show ?thesis by (cases "mode = OPEN_DIRECTORY") fastforce+
    next
      case (File c)
      have "\<exists>k'. syscall_open path mode k = Some (int fd, k') \<and> (\<forall>rs. (\<forall>r\<in>set rs. read_ok p r) \<and> length c \<le> (\<Sum>r\<leftarrow>rs. unat (snd r)) \<longrightarrow>
          (\<exists>k''. open_file.gets (int fd) rs k' = Some (c, k'')))" if nd: "mode \<noteq> OPEN_DIRECTORY"
      proof -
        from open_entry_file [OF s fd(1) fds(1) e [unfolded File] I(1) mem nd] obtain fh k' where
          k': "open_entry i fd mode e k = Some (int fd, k')"
            "reading (p\<lparr>pr_filedesc := (pr_filedesc p)[fd := Some fh]\<rparr>) (int fd) fh k'" "unread fh k' = c" by blast
        have "\<exists>k''. open_file.gets (int fd) rs k' = Some (c, k'')"
          if "\<forall>r\<in>set rs. read_ok p r" "length c \<le> (\<Sum>r\<leftarrow>rs. unat (snd r))" for rs
          using open_file.gets_all [OF k'(2), of rs] that k'(3) by auto
        with k'(1) o show ?thesis by auto
      qed
      moreover have "syscall_open path mode k = Some (- ENOTDIR, k)" if "mode = OPEN_DIRECTORY"
        using o e that File by (auto simp: open_entry_def split: option.splits)
      ultimately show ?thesis using Some File by simp
    qed
  qed
qed

theorem open_read_roundtrip_witness:
  "\<exists>k k' k''. build 2 demo_host (chars ''r'') = Some (k_filesystem k) \<and> syscall_open 0x3FFFF000 0 k = Some (0, k') \<and>
     open_file.gets 0 [(0x3FFFF100, 2), (0x3FFFF100, 2)] k' = Some ([1, 2, 3], k'')"
proof -
  let ?fds = "replicate 16 None" and ?rs = "[(0x3FFFF100, 2), (0x3FFFF100, 2)] :: (u32 \<times> u32) list" and ?t = "chars ''d/../f''"
  have sz: "276 + tree_bytes (Dir demo_tree) \<le> 2147483647" using demo_tree_size(2) by linarith
  obtain img where img: "build 2 demo_host (chars ''r'') = Some img"
    by (rule build_finds [OF demo_host_has demo_tree_size(1) sz])
  obtain k0 pdir where k0: "serves (stack_proc pdir ?fds) k0" "current_process k0 = Some (1, stack_proc pdir ?fds)"
    "k_stack k0 = replicate 4096 0" by (rule user_machine)
  from pipe_area_room obtain hp where hp: "kmalloc 36 hp \<noteq> None" by (auto simp: Option.is_none_def bind_eq_Some_conv)
  let ?p = "stack_proc pdir ?fds" and ?k0 = "k0\<lparr>k_filesystem := img, k_heap := hp\<rparr>"
  note P = stack_proc_def with_stack_def
  have s0: "serves ?p ?k0" using k0(1) by (simp add: serves_def)
  have v: "valid_pointer ?p 0x3FFFF000 7" by (simp add: valid_pointer_def within_def P)
  have len: "length (?t @ [0]) = 7" by (simp add: chars_def)
  then have "length (?t @ [0]) \<le> unat (7::u32)" by simp
  from user_write [OF s0 v this] obtain k where
    k: "serves ?p k" "only_user ?p ?k0 k" "vread 0x3FFFF000 (length (?t @ [0])) k = Some (?t @ [0])" by blast
  then obtain m where m: "k = ?k0\<lparr>k_mm := (k_mm ?k0)\<lparr>mm_mem := m\<rparr>\<rparr>" by (auto simp: only_user_def)
  have cur: "current_process k = Some (1, ?p)"
    using k0(2) m by (auto simp: current_process_def get_proc_def bind_eq_Some_conv split: if_splits)
  have im: "build 2 demo_host (chars ''r'') = Some (k_filesystem k)" using img m by simp
  have t: "0 \<notin> set ?t" "valid_pointer ?p 0x3FFFF000 (of_nat (length (?t @ [0])))" using v len by (simp_all add: chars_def)
  have cwd: "\<forall>c\<in>set []. name_ok c" "cstr (pr_cwd ?p) = path_text []" "terminated (pr_cwd ?p)"
    by (simp_all add: P path_text_def slash_def terminated_def)
  have fits: "length (path_text []) + 1 + length ?t < PATH_MAX" "PATH_MAX \<le> length (k_stack k)"
    using k0(3) m by (simp_all add: path_text_def chars_def)
  have fd: "length (pr_filedesc ?p) = MAX_FDS" "0 < MAX_FDS" "pr_filedesc ?p ! 0 = None" "\<forall>j<0. pr_filedesc ?p ! j \<noteq> None" by (simp_all add: P)
  have mem: "k_malloc 36 k \<noteq> None" using hp m by (auto simp: k_malloc_def)
  have "resolved [] ?t = [chars ''f'']" by (simp add: resolved_def norm_step_def chars_def slash_def)
  then have sub: "subtree (Dir demo_tree) (resolved [] ?t) = Some (File [1, 2, 3])" by (simp add: demo_tree_def chars_def)
  have rs: "(\<forall>r\<in>set ?rs. read_ok ?p r) \<and> length [1, 2, 3 :: u8] \<le> (\<Sum>r\<leftarrow>?rs. unat (snd r))"
    by (simp add: read_ok_def valid_pointer_def within_def P)
  have nd: "(0 = OPEN_DIRECTORY) = False" by simp
  from open_read_roundtrip [OF demo_host_has demo_tree_size(1) sz im k(1) cur k(3) t cwd fits fd mem, of 0] obtain k' where
    k': "syscall_open 0x3FFFF000 0 k = Some (int 0, k')"
    "\<forall>rs. (\<forall>r\<in>set rs. read_ok ?p r) \<and> length [1, 2, 3 :: u8] \<le> (\<Sum>r\<leftarrow>rs. unat (snd r)) \<longrightarrow>
      (\<exists>k''. open_file.gets (int 0) rs k' = Some ([1, 2, 3], k''))"
    unfolding sub option.case node.case nd if_False by blast
  from k'(2) [rule_format, OF rs] obtain k'' where "open_file.gets (int 0) ?rs k' = Some ([1, 2, 3], k'')" by blast
  with im k'(1) show ?thesis by - (rule exI [of _ k], rule exI [of _ k'], rule exI [of _ k''], simp only: semiring_1_class.of_nat_0 simp_thms)
qed

end
