(* ===== verification/Userland.thy ===== *)
theory Userland
  imports Format
begin

text \<open>
  Programs that run in user mode: what they use of the system. The prototypes of the system calls are those of
  \<^verbatim>\<open>source/user.h\<close>; their stubs are assembly, and a program sees them as functions on the world \<open>'w\<close> outside of it. So
  they are a parameter of the programs, the record \<open>sys\<close>. A string that is passed to a call is the list of its bytes
  before the terminating 0.
\<close>

record user_stat =
  sb_mode :: u32
  sb_uid :: u32
  sb_gid :: u32
  sb_size :: u32
  sb_mtime :: u32

text \<open>
  \<open>sys_read\<close> returns the result and the bytes that are now at the start of the buffer. \<open>sys_execve\<close> returns whether the program
  has been replaced. \<open>sys_getcwd\<close> returns the string in the buffer, or \<open>None\<close> for \<open>NULL\<close>. \<open>sys_junk n\<close> are \<open>n\<close> bytes of uninitialised memory.
\<close>

record 'w sys =
  sys_getpid :: "'w \<Rightarrow> int"
  sys_errno :: "'w \<Rightarrow> int"
  sys_write :: "int \<Rightarrow> bytes \<Rightarrow> 'w \<Rightarrow> int \<times> 'w"
  sys_read :: "int \<Rightarrow> nat \<Rightarrow> 'w \<Rightarrow> int \<times> bytes \<times> 'w"
  sys_close :: "int \<Rightarrow> 'w \<Rightarrow> int \<times> 'w"
  sys_fork :: "'w \<Rightarrow> int \<times> 'w"
  sys_execve :: "bytes \<Rightarrow> bytes list \<Rightarrow> 'w \<Rightarrow> bool \<times> 'w"
  sys_waitpid :: "int \<Rightarrow> 'w \<Rightarrow> int \<times> 'w"
  sys_stat :: "bytes \<Rightarrow> 'w \<Rightarrow> int \<times> user_stat \<times> 'w"
  sys_open :: "bytes \<Rightarrow> int \<Rightarrow> 'w \<Rightarrow> int \<times> 'w"
  sys_getdent :: "int \<Rightarrow> dirent \<Rightarrow> 'w \<Rightarrow> int \<times> dirent \<times> 'w"
  sys_chdir :: "bytes \<Rightarrow> 'w \<Rightarrow> int \<times> 'w"
  sys_getcwd :: "nat \<Rightarrow> 'w \<Rightarrow> bytes option \<times> 'w"
  sys_malloc_dir :: "u32 \<Rightarrow> 'w \<Rightarrow> (DIR \<times> 'w) option"
  sys_free_dir :: "DIR \<Rightarrow> 'w \<Rightarrow> 'w option"
  sys_junk :: "nat \<Rightarrow> bytes"

text \<open>\<open>write\<close> with a buffer and a length, as \<open>printf\<close> calls it, and the printing functions with these calls.\<close>

definition write_buf :: "'w sys \<Rightarrow> int \<Rightarrow> bytes \<Rightarrow> nat \<Rightarrow> 'w \<Rightarrow> 'w option" where
  "write_buf s fd buf n w = do { assert_c (n \<le> length buf); Some (snd (sys_write s fd (take n buf) w)) }"

definition put :: "'w sys \<Rightarrow> bytes \<Rightarrow> va list \<Rightarrow> 'w \<Rightarrow> 'w option" where
  "put s format ap w = map_option snd (printf True (write_buf s) (sys_junk s 4096) format ap w)"

definition put_error :: "'w sys \<Rightarrow> bytes \<Rightarrow> 'w \<Rightarrow> 'w option" where
  "put_error s msg w =
     map_option snd (perror (printf True (write_buf s) (sys_junk s 4096)) (sys_errno s w) (Some msg) w)"

text \<open>What becomes of a program: it goes on, or the process now runs another program, or it has exited.\<close>

datatype ('a, 'w) outcome = Goes 'a 'w | Execed 'w | Exited int 'w

end
