(* ===== verification/Shell.thy ===== *)
theory Shell
  imports Userland
begin

text \<open>
  The shell, \<^verbatim>\<open>source/sh.c\<close>: the definitions. The buffer \<open>input\<close> is the list of its bytes and pointers into it are
  offsets; an access outside is \<open>None\<close>.
\<close>

definition MAX_ARGS :: nat where [simp]: "MAX_ARGS = 32"

definition newline :: u8 where [simp]: "newline = 10"
definition space :: u8 where [simp]: "space = 32"

subsection \<open>Command lines\<close>

text \<open>\<open>argv\<close> is the list of the offsets stored so far, so \<open>argc\<close> is its length.\<close>

function parse_loop :: "nat \<Rightarrow> nat \<Rightarrow> bytes \<Rightarrow> nat \<Rightarrow> nat \<Rightarrow> nat list \<Rightarrow> bytes \<times> nat list" where
  "parse_loop max_args len line pos start argv =
     (if pos \<le> len then
        (if line ! pos = newline \<or> line ! pos = space \<or> pos = len
         then parse_loop max_args len (line[pos := 0]) (Suc pos) (Suc pos)
                (if start < pos \<and> length argv + 1 < max_args then argv @ [start] else argv)
         else parse_loop max_args len line (Suc pos) start argv)
      else (line, argv))"
  by pat_completeness auto
termination
  by (relation "measure (\<lambda>(max_args, len, line, pos, start, argv). Suc len - pos)") auto

declare parse_loop.simps [simp del]

definition parse_command :: "bytes \<Rightarrow> nat \<Rightarrow> (bytes \<times> nat list) option" where
  "parse_command line max_args = do { len \<leftarrow> strlen line; Some (parse_loop max_args len line 0 0 []) }"

text \<open>The strings that the pointers in \<open>argv\<close> point to, each with its terminating 0.\<close>

definition arg_strings :: "bytes \<Rightarrow> nat list \<Rightarrow> bytes list" where
  "arg_strings line argv = map (\<lambda>a. cstr (drop a line) @ [0]) argv"

subsection \<open>Commands\<close>

definition run_program :: "'w sys \<Rightarrow> bytes \<Rightarrow> bytes list \<Rightarrow> 'w \<Rightarrow> (unit, 'w) outcome option" where
  "run_program s filename argv w =
     (let (pid, w) = sys_fork s w in
      if 0 > pid then do { w \<leftarrow> put_error s (chars ''fork'' @ [0]) w; Some (Goes () w) }
      else if pid = 0
      then (let (replaced, w) = sys_execve s filename (map cstr argv) w in
            if replaced then Some (Execed w)
            else do { w \<leftarrow> put_error s (chars ''execve'' @ [0]) w; Some (Exited 1 w) })
      else (let (r, w) = sys_waitpid s pid w in
            if 0 > r then do { w \<leftarrow> put_error s (chars ''waitpid'' @ [0]) w; Some (Goes () w) }
            else Some (Goes () w)))"

definition equals :: "bytes \<Rightarrow> string \<Rightarrow> bool option" where
  "equals a name = map_option (\<lambda>r. r = 0) (strcmp a (chars name @ [0]))"

definition change_dir :: "'w sys \<Rightarrow> bytes list \<Rightarrow> 'w \<Rightarrow> 'w option" where
  "change_dir s argv w =
     (if 2 > length argv then put s (chars ''Usage: cd <path>'' @ [10, 0]) [] w
      else (let (r, w) = sys_chdir s (cstr (argv ! 1)) w in if 0 > r then put_error s (argv ! 1) w else Some w))"

definition print_dir :: "'w sys \<Rightarrow> 'w \<Rightarrow> 'w option" where
  "print_dir s w =
     (case sys_getcwd s PATH_MAX w of
        (None, w) \<Rightarrow> put_error s (chars ''getcwd'' @ [0]) w
      | (Some path, w) \<Rightarrow> put s (chars ''%s'' @ [10, 0]) [Str (path @ [0])] w)"

definition external :: "'w sys \<Rightarrow> bytes list \<Rightarrow> 'w \<Rightarrow> (unit, 'w) outcome option" where
  "external s argv w =
     do {
       (cmdpath, _) \<leftarrow> snprintf (sys_junk s PATH_MAX) PATH_MAX (chars ''/bin/%s'' @ [0]) [Str (hd argv)];
       let (r, _, w) = sys_stat s (cstr cmdpath) w;
       if r = 0 then run_program s (cstr cmdpath) argv w
       else do { w \<leftarrow> put s (chars ''%s: command not found'' @ [10, 0]) [Str (hd argv)] w; Some (Goes () w) }
     }"

text \<open>The part of \<open>process_line\<close> after the arguments have been found. The result is the new value of \<open>*done\<close>.\<close>

definition run_command :: "'w sys \<Rightarrow> bytes list \<Rightarrow> bool \<Rightarrow> 'w \<Rightarrow> (bool, 'w) outcome option" where
  "run_command s argv finished w =
     (if argv = [] then Some (Goes finished w)
      else do {
        cd \<leftarrow> equals (hd argv) ''cd'';
        pwd \<leftarrow> equals (hd argv) ''pwd'';
        ex \<leftarrow> equals (hd argv) ''exit'';
        if cd then do { w \<leftarrow> change_dir s argv w; Some (Goes finished w) }
        else if pwd then do { w \<leftarrow> print_dir s w; Some (Goes finished w) }
        else if ex then Some (Goes True w)
        else do {
          r \<leftarrow> external s argv w;
          Some (case r of Goes _ w \<Rightarrow> Goes finished w | Execed w \<Rightarrow> Execed w | Exited n w \<Rightarrow> Exited n w)
        }
      })"

text \<open>\<open>line\<close> is the memory from the start of the line on; it is returned as the call leaves it.\<close>

definition process_line :: "'w sys \<Rightarrow> bytes \<Rightarrow> bool \<Rightarrow> 'w \<Rightarrow> (bytes \<times> bool, 'w) outcome option" where
  "process_line s line finished w =
     do {
       (line, argv) \<leftarrow> parse_command line MAX_ARGS;
       r \<leftarrow> run_command s (arg_strings line argv) finished w;
       Some (case r of Goes d w \<Rightarrow> Goes (line, d) w | Execed w \<Rightarrow> Execed w | Exited n w \<Rightarrow> Exited n w)
     }"

subsection \<open>The main loop\<close>

text \<open>The inner loop over the data from \<open>pos\<close> to \<open>stop\<close> (\<open>end\<close> in the code). It returns the buffer, \<open>linestart\<close> and \<open>done\<close>.\<close>

function scan_input :: "'w sys \<Rightarrow> nat \<Rightarrow> bytes \<Rightarrow> nat \<Rightarrow> nat \<Rightarrow> bool \<Rightarrow> 'w \<Rightarrow> (bytes \<times> nat \<times> bool, 'w) outcome option" where
  "scan_input s stop input pos linestart finished w =
     (if pos < stop then
        do {
          assert_c (pos < length input);
          if input ! pos = newline
          then do {
                 let input = input[pos := 0];
                 r \<leftarrow> process_line s (drop linestart input) finished w;
                 case r of
                   Execed w \<Rightarrow> Some (Execed w)
                 | Exited n w \<Rightarrow> Some (Exited n w)
                 | Goes (line, finished) w \<Rightarrow>
                     do {
                       w \<leftarrow> put s (chars ''$ '' @ [0]) [] w;
                       scan_input s stop (take linestart input @ line) (Suc pos) (Suc pos) finished w
                     }
               }
          else scan_input s stop input (Suc pos) linestart finished w
        }
      else Some (Goes (input, linestart, finished) w))"
  by pat_completeness auto
termination
  by (relation "measure (\<lambda>(s, stop, input, pos, linestart, finished, w). stop - pos)") auto

declare scan_input.simps [simp del]

text \<open>
  The outer loop: the first argument bounds the number of iterations. \<open>memmove\<close> copies from higher to lower addresses, the
  direction in which it is right for overlapping ranges.
\<close>

definition store_at :: "bytes \<Rightarrow> nat \<Rightarrow> bytes \<Rightarrow> bytes option" where
  "store_at input pos data =
     (if pos + length data \<le> length input then Some (take pos input @ data @ drop (pos + length data) input) else None)"

definition shift_input :: "'w sys \<Rightarrow> bytes \<Rightarrow> nat \<Rightarrow> nat \<Rightarrow> 'w \<Rightarrow> (bytes \<times> nat \<times> 'w) option" where
  "shift_input s input stop linestart w =
     do {
       let n = stop - linestart;
       let input = take n (drop linestart input) @ drop n input;
       if BUFSIZE \<le> n then do { w \<leftarrow> put s (chars ''Line too long; ignored'' @ [0]) [] w; Some (input, 0, w) }
       else Some (input, n, w)
     }"

fun shell_loop :: "nat \<Rightarrow> 'w sys \<Rightarrow> bytes \<Rightarrow> nat \<Rightarrow> bool \<Rightarrow> 'w \<Rightarrow> (unit, 'w) outcome option" where
  "shell_loop 0 s input pos finished w = None"
| "shell_loop (Suc n) s input pos finished w =
     (if finished then Some (Goes () w)
      else (let (r, data, w) = sys_read s 0 BUFSIZE w in
            if r \<le> 0
            then (if 0 > r then do { w \<leftarrow> put_error s (chars ''read'' @ [0]) w; Some (Goes () w) } else Some (Goes () w))
            else do {
              input \<leftarrow> store_at input pos data;
              let stop = pos + nat r;
              assert_c (stop < length input);
              let input = input[stop := 0];
              w \<leftarrow> write_buf s 1 (drop pos input) (nat r) w;
              res \<leftarrow> scan_input s stop input pos 0 finished w;
              case res of
                Execed w \<Rightarrow> Some (Execed w)
              | Exited m w \<Rightarrow> Some (Exited m w)
              | Goes (input, linestart, finished) w \<Rightarrow>
                  do { (input, pos, w) \<leftarrow> shift_input s input stop linestart w; shell_loop n s input pos finished w }
            }))"

definition shell_main :: "nat \<Rightarrow> 'w sys \<Rightarrow> 'w \<Rightarrow> (unit, 'w) outcome option" where
  "shell_main n s w =
     do {
       let input = sys_junk s (2 * BUFSIZE + 1);
       w \<leftarrow> put s (chars ''Shell started, pid = %d'' @ [10, 0]) [Word (of_int (sys_getpid s w))] w;
       w \<leftarrow> put s (chars ''$ '' @ [0]) [] w;
       shell_loop n s input 0 False w
     }"

end
