(* ===== verification/Shell_Props.thy ===== *)
theory Shell_Props
  imports Shell
begin

text \<open>
  The shell against reference definitions on lists: a command line is the list of its words, and the input is the list of its
  lines, whatever pieces \<open>read\<close> delivers it in.
\<close>

subsection \<open>Words\<close>

definition is_sep :: "u8 \<Rightarrow> bool" where
  "is_sep c \<longleftrightarrow> c = newline \<or> c = space"

fun fields :: "bytes \<Rightarrow> bytes list" where
  "fields [] = [[]]"
| "fields (c # s) = (if is_sep c then [] # fields s else (c # hd (fields s)) # tl (fields s))"

definition words :: "bytes \<Rightarrow> bytes list" where
  "words s = filter (\<lambda>w. w \<noteq> []) (fields s)"

lemma fields_last: "\<forall>c\<in>set w. \<not> is_sep c \<Longrightarrow> fields w = [w]"
  by (induction w) auto

lemma fields_sep: "\<forall>c\<in>set w. \<not> is_sep c \<Longrightarrow> is_sep c \<Longrightarrow> fields (w @ c # s) = w # fields s"
  by (induction w) auto

lemma words_Nil [simp]: "words [] = []"
  by (simp add: words_def)

text \<open>A pointer to a string that ends before \<open>n\<close>.\<close>

definition ends_before :: "bytes \<Rightarrow> nat \<Rightarrow> nat \<Rightarrow> bool" where
  "ends_before line n a \<longleftrightarrow> a \<le> n \<and> terminated (take (n - a) (drop a line))"

lemma cstr_append: "terminated s \<Longrightarrow> cstr (s @ t) = cstr s"
  by (induction s) auto

lemma ends_before_cstr:
  assumes "ends_before line n a" "take n line' = take n line"
  shows "cstr (drop a line') = cstr (drop a line)" "ends_before line' n a"
proof -
  have e: "take (n - a) (drop a line') = take (n - a) (drop a line)"
    using assms(2) by (metis drop_take)
  show "ends_before line' n a" using assms(1) e by (simp add: ends_before_def)
  have "cstr (drop a x) = cstr (take (n - a) (drop a x))" if "terminated (take (n - a) (drop a x))" for x
    using cstr_append [OF that, of "drop (n - a) (drop a x)"] by (metis append_take_drop_id)
  then show "cstr (drop a line') = cstr (drop a line)" using assms(1) e by (simp add: ends_before_def)
qed

lemma ends_before_later: "ends_before line n a \<Longrightarrow> n \<le> m \<Longrightarrow> ends_before line m a"
proof -
  assume e: "ends_before line n a" "n \<le> m"
  have "take (n - a) (drop a line) = take (n - a) (take (m - a) (drop a line))" using e(2) by (simp add: min_def diff_le_mono)
  then have "set (take (n - a) (drop a line)) \<subseteq> set (take (m - a) (drop a line))" by (metis set_take_subset)
  with e show ?thesis by (auto simp: ends_before_def terminated_def)
qed

definition arg_list :: "nat \<Rightarrow> bytes \<Rightarrow> bytes list" where
  "arg_list n s = map (\<lambda>w. w @ [0]) (take n (words s))"

lemma parse_loop_words:
  assumes "len < length line" "line ! len = 0" "start \<le> pos" "pos \<le> Suc len" "start = Suc len \<or> start \<le> len"
    "\<forall>c\<in>set (take (pos - start) (drop start line)). \<not> is_sep c" "0 \<notin> set (take (len - start) (drop start line))"
    "\<forall>a\<in>set argv. ends_before line start a" "parse_loop mx len line pos start argv = (line', argv')"
    "pos = Suc len \<longrightarrow> start = Suc len"
  shows "length line' = length line \<and> take start line' = take start line \<and> drop (Suc len) line' = drop (Suc len) line \<and>
    arg_strings line' argv' = arg_strings line argv @ arg_list (mx - 1 - length argv) (take (len - start) (drop start line))"
  using assms
proof (induction "Suc len - pos" arbitrary: line pos start argv rule: less_induct)
  case less
  note P = less.prems
  show ?case
  proof (cases "pos \<le> len")
    case False
    then have "pos = Suc len" "start = Suc len" using P(4,10) by auto
    with P(9) show ?thesis by (subst (asm) parse_loop.simps) (auto simp: arg_list_def)
  next
    case True
    let ?w = "take (pos - start) (drop start line)" and ?s = "take (len - start) (drop start line)"
    show ?thesis
    proof (cases "is_sep (line ! pos) \<or> pos = len")
      case False
      then have lt: "pos < len" using True by simp
      have "\<forall>c\<in>set (take (Suc pos - start) (drop start line)). \<not> is_sep c"
        using P(1,3,6) lt False by (auto simp: Suc_diff_le take_Suc_conv_app_nth)
      moreover have "parse_loop mx len line (Suc pos) start argv = (line', argv')"
        using P(9) True False by (subst (asm) parse_loop.simps) (auto simp: is_sep_def)
      ultimately show ?thesis using P lt by (intro less.hyps) auto
    next
      case sep: True
      let ?l = "line[pos := 0]"
      let ?argv = "if start < pos \<and> length argv + 1 < mx then argv @ [start] else argv"
      have pl: "pos < length line" using True P(1) by simp
      have step: "parse_loop mx len ?l (Suc pos) (Suc pos) ?argv = (line', argv')"
        using P(9) True sep by (subst (asm) parse_loop.simps) (auto simp: is_sep_def)
      have wl: "drop start ?l = ?w @ 0 # drop (Suc pos) line"
        using P(3) pl by (simp add: upd_conv_take_nth_drop drop_take)
      have w0: "0 \<notin> set ?w" using P(7) True by (meson set_take_subset_set_take diff_le_mono subsetD)
      then have cw: "cstr (drop start ?l) = ?w" unfolding wl cstr_def by (subst takeWhile_append2) auto
      have eb: "ends_before ?l (Suc pos) start"
        unfolding ends_before_def wl using P(3) pl by (simp add: terminated_def Suc_diff_le)
      have old: "cstr (drop a ?l) = cstr (drop a line) \<and> ends_before ?l (Suc pos) a" if "a \<in> set argv" for a
        using ends_before_cstr [of line start a ?l] P(3,8) that ends_before_later [of ?l start a "Suc pos"] by simp
      have "\<forall>a\<in>set ?argv. ends_before ?l (Suc pos) a" using eb old by auto
      moreover have nz: "take (len - Suc pos) (drop (Suc pos) ?l) = take (len - Suc pos) (drop (Suc pos) line)" by simp
      moreover have "set (take (len - Suc pos) (drop (Suc pos) line)) \<subseteq> set ?s"
      proof -
        have "take (len - Suc pos) (drop (Suc pos) line) = drop (Suc pos - start) ?s"
          using P(3) by (simp add: drop_take)
        then show ?thesis by (simp add: set_drop_subset)
      qed
      ultimately have IH: "length line' = length ?l \<and> take (Suc pos) line' = take (Suc pos) ?l \<and> drop (Suc len) line' = drop (Suc len) ?l \<and>
          arg_strings line' argv' = arg_strings ?l ?argv @ arg_list (mx - 1 - length ?argv) (take (len - Suc pos) (drop (Suc pos) ?l))"
        using P(1,2,7) True step by (intro less.hyps) (auto simp: nth_list_update)
      have f: "words ?s = (if ?w = [] then [] else [?w]) @ words (take (len - Suc pos) (drop (Suc pos) line))"
      proof (cases "pos = len")
        case True
        then show ?thesis using fields_last [OF P(6)] by (simp add: words_def)
      next
        case False
        then have lt: "pos < len" using True by simp
        have "?s = ?w @ line ! pos # take (len - Suc pos) (drop (Suc pos) line)"
        proof -
          have "?s = take (pos - start) ?s @ drop (pos - start) ?s" by (rule append_take_drop_id [symmetric])
          also have "take (pos - start) ?s = ?w" using lt P(3) by (simp add: min_def)
          also have "drop (pos - start) ?s = take (len - pos) (drop pos line)" using P(3) lt by (simp add: drop_take)
          also have "\<dots> = line ! pos # take (len - Suc pos) (drop (Suc pos) line)"
            using lt pl by (simp add: Cons_nth_drop_Suc [symmetric] take_Cons' Suc_diff_Suc)
          finally show ?thesis .
        qed
        then show ?thesis using fields_sep [OF P(6)] sep False by (simp add: words_def)
      qed
      have emp: "?w = [] \<longleftrightarrow> \<not> start < pos" using pl P(3) by auto
      have args: "arg_strings ?l argv = arg_strings line argv" using old by (simp add: arg_strings_def)
      have "arg_strings ?l ?argv @ arg_list (mx - 1 - length ?argv) (take (len - Suc pos) (drop (Suc pos) line)) =
          arg_strings line argv @ arg_list (mx - 1 - length argv) ?s"
      proof (cases "start < pos \<and> length argv + 1 < mx")
        case True
        then have "mx - 1 - length argv = Suc (mx - 1 - (length argv + 1))" by linarith
        with True show ?thesis using args cw emp f by (simp add: arg_list_def arg_strings_def)
      next
        case False
        then show ?thesis using args emp f by (auto simp: arg_list_def)
      qed
      moreover have "take start line' = take start line"
      proof -
        have "take start line' = take start (take (Suc pos) line')" using P(3) by (simp add: min_def)
        also have "\<dots> = take start (take (Suc pos) ?l)" using IH by simp
        also have "\<dots> = take start line" using P(3) by (simp add: min_def)
        finally show ?thesis .
      qed
      ultimately show ?thesis using IH True by simp
    qed
  qed
qed

lemma cstr_split: "terminated s \<Longrightarrow> \<exists>r. s = cstr s @ 0 # r"
  by (induction s) auto

lemma parse_command_words:
  assumes "terminated line"
  obtains line' argv where "parse_command line mx = Some (line', argv)" "length line' = length line"
    "drop (Suc (length (cstr line))) line' = drop (Suc (length (cstr line))) line"
    "arg_strings line' argv = arg_list (mx - 1) (cstr line)"
proof -
  let ?len = "length (cstr line)"
  obtain r where line: "line = cstr line @ 0 # r" using cstr_split [OF assms] by blast
  obtain line' argv where p: "parse_loop mx ?len line 0 0 [] = (line', argv)" by fastforce
  have t: "take ?len line = cstr line" by (subst line) simp
  have "?len < length line" "line ! ?len = 0" by (subst line; simp)+
  then have "length line' = length line \<and> take 0 line' = take 0 line \<and> drop (Suc ?len) line' = drop (Suc ?len) line \<and>
    arg_strings line' argv = arg_strings line [] @ arg_list (mx - 1 - length ([]::nat list)) (take (?len - 0) (drop 0 line))"
    using p t by (intro parse_loop_words) (auto simp: cstr_no_0)
  then show thesis using p t assms
    by (intro that [of line' argv]) (auto simp: parse_command_def strlen_cstr arg_strings_def)
qed

text \<open>
  \<open>parse_command\<close> finds the words of a command line. On a terminated line it returns, without writing behind the
  line, and the strings that the entries of \<open>argv\<close> point to in the changed line are the words between spaces and newlines, in
  order, without empty ones and cut off after \<open>max - 1\<close> of them, so that the array has room for the final \<open>NULL\<close>.
\<close>

theorem parse_command_correct:
  assumes "terminated line"
  shows "\<exists>line' argv. parse_command line max_args = Some (line', argv) \<and> length line' = length line \<and>
    drop (Suc (length (cstr line))) line' = drop (Suc (length (cstr line))) line \<and> length argv \<le> max_args - 1 \<and>
    arg_strings line' argv = map (\<lambda>w. w @ [0]) (take (max_args - 1) (words (cstr line)))"
proof -
  obtain line' argv where p: "parse_command line max_args = Some (line', argv)" "length line' = length line"
    "drop (Suc (length (cstr line))) line' = drop (Suc (length (cstr line))) line"
    "arg_strings line' argv = arg_list (max_args - 1) (cstr line)" by (rule parse_command_words [OF assms])
  have "length argv = length (arg_list (max_args - 1) (cstr line))" using p(4) by (metis arg_strings_def length_map)
  then have "length argv \<le> max_args - 1" by (simp add: arg_list_def)
  with p show ?thesis by (simp add: arg_list_def)
qed

theorem parse_command_correct_witness:
  "\<exists>line' argv. parse_command (chars '' ls  -l bin '' @ [0, 65]) 3 = Some (line', argv) \<and>
     arg_strings line' argv = [chars ''ls'' @ [0], chars ''-l'' @ [0]] \<and> drop 13 line' = [65]"
proof -
  let ?l = "chars '' ls  -l bin '' @ [0, 65]"
  have "terminated ?l" by (simp add: terminated_def)
  moreover have "cstr ?l = chars '' ls  -l bin ''" by (simp add: chars_def)
  moreover have "words (chars '' ls  -l bin '') = [chars ''ls'', chars ''-l'', chars ''bin'']"
    by (simp add: words_def is_sep_def chars_def)
  moreover have "length (chars '' ls  -l bin '') = 12" by (simp add: chars_def)
  ultimately show ?thesis using parse_command_correct [of ?l 3] by (auto simp: chars_def numeral_eq_Suc)
qed

subsection \<open>Lines\<close>

text \<open>The complete lines of a text and what is left.\<close>

fun cut :: "bytes \<Rightarrow> bytes list \<times> bytes" where
  "cut [] = ([], [])"
| "cut (c # s) =
     (if c = newline then ([] # fst (cut s), snd (cut s))
      else case fst (cut s) of [] \<Rightarrow> ([], c # snd (cut s)) | l # ls \<Rightarrow> ((c # l) # ls, snd (cut s)))"

lemma cut_none: "newline \<notin> set s \<Longrightarrow> cut s = ([], s)"
  by (induction s) auto

lemma cut_line: "newline \<notin> set l \<Longrightarrow> cut (l @ newline # s) = (l # fst (cut s), snd (cut s))"
  by (induction l) auto

lemma cut_rest: "newline \<notin> set (snd (cut s))"
  by (induction s) (auto split: list.splits)

text \<open>The lines do not depend on the pieces in which the text arrives.\<close>

lemma cut_append: "cut (a @ b) = (fst (cut a) @ fst (cut (snd (cut a) @ b)), snd (cut (snd (cut a) @ b)))"
  by (induction a) (auto split: list.splits)









text \<open>
  The lines that the reference executes when the input arrives in the pieces \<open>ds\<close>. When no line of the input reaches
  \<open>BUFSIZE\<close> bytes these are the lines of the input, however it is cut into pieces. Without this condition they depend on the
  pieces: the bytes of an unfinished line are dropped once there are \<open>BUFSIZE\<close> of them, and the rest of that line is
  taken as a line of its own.
\<close>

fun piece_lines :: "bytes \<Rightarrow> bytes list \<Rightarrow> bytes list" where
  "piece_lines carry [] = []"
| "piece_lines carry (d # ds) =
     fst (cut (carry @ d)) @
     piece_lines (if BUFSIZE \<le> length (snd (cut (carry @ d))) then [] else snd (cut (carry @ d))) ds"

lemma cut_extends:
  assumes "newline \<notin> set r"
  shows "\<exists>l \<in> set (fst (cut (r @ b)) @ [snd (cut (r @ b))]). length r \<le> length l"
proof (cases "newline \<in> set b")
  case True
  then obtain b1 b2 where b: "b = b1 @ newline # b2" "newline \<notin> set b1" by (meson split_list_first)
  then have "cut (r @ b) = ((r @ b1) # fst (cut b2), snd (cut b2))" using cut_line [of "r @ b1" b2] assms by simp
  then show ?thesis by simp
next
  case False
  then show ?thesis using cut_none [of "r @ b"] assms by simp
qed

lemma piece_lines_cut:
  assumes "\<forall>l \<in> set (fst (cut (carry @ concat ds)) @ [snd (cut (carry @ concat ds))]). length l < BUFSIZE"
    and "newline \<notin> set carry"
  shows "piece_lines carry ds = fst (cut (carry @ concat ds))"
  using assms
proof (induction ds arbitrary: carry)
  case Nil
  then show ?case by (simp add: cut_none)
next
  case (Cons d ds)
  let ?r = "snd (cut (carry @ d))"
  have c: "cut (carry @ concat (d # ds)) = (fst (cut (carry @ d)) @ fst (cut (?r @ concat ds)), snd (cut (?r @ concat ds)))"
    using cut_append [of "carry @ d" "concat ds"] by simp
  have short: "\<forall>l \<in> set (fst (cut (?r @ concat ds)) @ [snd (cut (?r @ concat ds))]). length l < BUFSIZE"
    using Cons.prems(1) unfolding c by auto
  then have "length ?r < BUFSIZE" using cut_extends [OF cut_rest, of "carry @ d" "concat ds"] by fastforce
  moreover have "piece_lines ?r ds = fst (cut (?r @ concat ds))" by (rule Cons.IH [OF short cut_rest])
  ultimately show ?case using c by simp
qed












end
