(* ===== verification/Programs.thy ===== *)
theory Programs
  imports Userland
begin

text \<open>
  The programs \<^verbatim>\<open>source/cat.c\<close>, \<^verbatim>\<open>source/ls.c\<close> and \<^verbatim>\<open>source/find.c\<close>, and the processes of
  \<^verbatim>\<open>source/main.c\<close> that run in user mode. The loops end when the system calls say so; the first
  argument bounds the number of iterations, and running out of it is \<open>None\<close>. The result is what \<open>main\<close> returns.
\<close>

subsection \<open>cat\<close>

fun cat_loop :: "nat \<Rightarrow> 'w sys \<Rightarrow> int \<Rightarrow> 'w \<Rightarrow> (int \<times> 'w) option" where
  "cat_loop 0 s fd w = None"
| "cat_loop (Suc n) s fd w =
     (let (r, buf, w) = sys_read s fd 20 w in
      if 0 < r then do { w \<leftarrow> write_buf s 1 buf (nat r) w; cat_loop n s fd w }
      else if 0 > r then do { w \<leftarrow> put_error s (chars ''read'' @ [0]) w; Some (- 1, w) }
      else Some (0, snd (sys_close s fd w)))"

definition cat_main :: "nat \<Rightarrow> 'w sys \<Rightarrow> bytes list \<Rightarrow> 'w \<Rightarrow> (int \<times> 'w) option" where
  "cat_main n s argv w =
     (if 2 > length argv
      then do { w \<leftarrow> put s (chars ''Usage: cat <filename>'' @ [10, 0]) [] w; Some (- 1, w) }
      else (let (fd, w) = sys_open s (cstr (argv ! 1)) 0 w in
            if 0 > fd then do { w \<leftarrow> put_error s (argv ! 1) w; Some (- 1, w) }
            else cat_loop n s fd w))"

subsection \<open>ls\<close>

definition S_IFDIR :: u32 where "S_IFDIR = 0x4000"

text \<open>The nine permission bits, from \<open>S_IRUSR\<close> down to \<open>S_IXOTH\<close>.\<close>

definition permission_bits :: "(u32 \<times> char) list" where
  "permission_bits = zip [0x100, 0x80, 0x40, 0x20, 0x10, 8, 4, 2, 1] (concat (replicate 3 ''rwx''))"

definition mode_chars :: "u32 \<Rightarrow> va list" where
  "mode_chars m =
     Word (if m AND S_IFDIR \<noteq> 0 then of_char CHR ''d'' else of_char CHR ''-'') #
     map (\<lambda>(b, c). Word (if m AND b \<noteq> 0 then of_char c else of_char CHR ''-'')) permission_bits"

definition entry_path :: "'w sys \<Rightarrow> bytes \<Rightarrow> dirent \<Rightarrow> bytes option" where
  "entry_path s path ent = map_option fst (snprintf (sys_junk s PATH_MAX) PATH_MAX (chars ''%s/%s'' @ [0]) [Str path, Str (d_name ent)])"

definition list_entry :: "'w sys \<Rightarrow> bytes \<Rightarrow> dirent \<Rightarrow> 'w \<Rightarrow> 'w option" where
  "list_entry s path ent w =
     do {
       fullpath \<leftarrow> entry_path s path ent;
       let (r, statbuf, w) = sys_stat s (cstr fullpath) w;
       if 0 > r then put_error s fullpath w
       else do {
         w \<leftarrow> put s (chars (concat (replicate 10 ''%c'') @ '' '') @ [0]) (mode_chars (sb_mode statbuf)) w;
         if sb_mode statbuf AND S_IFDIR \<noteq> 0
         then put s (chars ''DIR  %-8d %s/'' @ [10, 0]) [Word (sb_size statbuf), Str (d_name ent)] w
         else put s (chars ''FILE %-8d %s'' @ [10, 0]) [Word (sb_size statbuf), Str (d_name ent)] w
       }
     }"

fun ls_loop :: "nat \<Rightarrow> 'w sys \<Rightarrow> bytes \<Rightarrow> DIR \<Rightarrow> 'w \<Rightarrow> (DIR \<times> 'w) option" where
  "ls_loop 0 s path dirp w = None"
| "ls_loop (Suc n) s path dirp w =
     (case readdir (sys_getdent s) dirp w of
        (None, dirp, w) \<Rightarrow> Some (dirp, w)
      | (Some ent, dirp, w) \<Rightarrow> do { w \<leftarrow> list_entry s path ent w; ls_loop n s path dirp w })"

definition ls_main :: "nat \<Rightarrow> 'w sys \<Rightarrow> bytes list \<Rightarrow> 'w \<Rightarrow> (int \<times> 'w) option" where
  "ls_main n s argv w =
     do {
       let path = (if 2 \<le> length argv then argv ! 1 else chars ''.'' @ [0]);
       (dir, w) \<leftarrow> opendir (\<lambda>p. sys_open s (cstr p)) (sys_malloc_dir s) path w;
       case dir of
         None \<Rightarrow> do { w \<leftarrow> put_error s path w; Some (- 1, w) }
       | Some dirp \<Rightarrow>
           do {
             (dirp, w) \<leftarrow> ls_loop n s path dirp w;
             (_, w) \<leftarrow> closedir (sys_close s) (sys_free_dir s) dirp w;
             Some (0, w)
           }
     }"

subsection \<open>find\<close>

text \<open>The bound counts calls and iterations together. An error below returns at once, without closing the directory.\<close>

fun find_dir :: "nat \<Rightarrow> 'w sys \<Rightarrow> bytes \<Rightarrow> 'w \<Rightarrow> (int \<times> 'w) option"
  and find_loop :: "nat \<Rightarrow> 'w sys \<Rightarrow> bytes \<Rightarrow> DIR \<Rightarrow> 'w \<Rightarrow> (int \<times> 'w) option" where
  "find_dir 0 s path w = None"
| "find_dir (Suc n) s path w =
     do {
       (dir, w) \<leftarrow> opendir (\<lambda>p. sys_open s (cstr p)) (sys_malloc_dir s) path w;
       case dir of
         None \<Rightarrow> do { w \<leftarrow> put_error s path w; Some (- 1, w) }
       | Some dirp \<Rightarrow> find_loop n s path dirp w
     }"
| "find_loop 0 s path dirp w = None"
| "find_loop (Suc n) s path dirp w =
     (case readdir (sys_getdent s) dirp w of
        (None, dirp, w) \<Rightarrow> do { (_, w) \<leftarrow> closedir (sys_close s) (sys_free_dir s) dirp w; Some (0, w) }
      | (Some ent, dirp, w) \<Rightarrow>
          do {
            fullpath \<leftarrow> entry_path s path ent;
            w \<leftarrow> put s (chars ''%s'' @ [10, 0]) [Str fullpath] w;
            let (r, statbuf, w) = sys_stat s (cstr fullpath) w;
            if 0 > r then do { w \<leftarrow> put_error s fullpath w; find_loop n s path dirp w }
            else if sb_mode statbuf AND S_IFDIR \<noteq> 0
            then do {
                   (x, w) \<leftarrow> find_dir n s fullpath w;
                   if x \<noteq> 0 then Some (- 1, w) else find_loop n s path dirp w
                 }
            else find_loop n s path dirp w
          })"

definition find_main :: "nat \<Rightarrow> 'w sys \<Rightarrow> bytes list \<Rightarrow> 'w \<Rightarrow> (int \<times> 'w) option" where
  "find_main n s argv w = find_dir n s (if 2 \<le> length argv then argv ! 1 else chars ''.'' @ [0]) w"

subsection \<open>The processes of the kernel image\<close>

text \<open>
  \<open>process_a\<close> and \<open>process_b\<close> never end: the first argument is the number of iterations after which the world is looked at. The
  delay loop has no effect on it. The counter is an \<open>int\<close> of the machine.
\<close>

fun test_process :: "char \<Rightarrow> nat \<Rightarrow> 'w sys \<Rightarrow> u32 \<Rightarrow> 'w \<Rightarrow> 'w option" where
  "test_process c 0 s iterations w = Some w"
| "test_process c (Suc n) s iterations w =
     do {
       w \<leftarrow> put s (chars (''I am process '' @ [c] @ '' (pid %d), iterations = %d'') @ [10, 0])
              [Word (of_int (sys_getpid s w)), Word iterations] w;
       test_process c n s (iterations + 1) w
     }"

definition process_a :: "nat \<Rightarrow> 'w sys \<Rightarrow> 'w \<Rightarrow> 'w option" where
  "process_a n s w = test_process CHR ''A'' n s 0 w"

definition process_b :: "nat \<Rightarrow> 'w sys \<Rightarrow> 'w \<Rightarrow> 'w option" where
  "process_b n s w = test_process CHR ''B'' n s 0 w"

text \<open>The two filters do not end either, they read again after the end of their input; the bound is the number of calls of \<open>read\<close>.\<close>

definition upper_char :: "u8 \<Rightarrow> u8" where
  "upper_char c = (if of_char CHR ''a'' \<le> c \<and> c \<le> of_char CHR ''z'' then c + (of_char CHR ''A'' - of_char CHR ''a'') else c)"

fun uppercase :: "nat \<Rightarrow> 'w sys \<Rightarrow> 'w \<Rightarrow> 'w option" where
  "uppercase 0 s w = Some w"
| "uppercase (Suc n) s w =
     (let (r, buf, w) = sys_read s 0 BUFSIZE w in
      if 0 < r then do { w \<leftarrow> write_buf s 1 (map upper_char buf) (nat r) w; uppercase n s w }
      else uppercase n s w)"

text \<open>The loop over one buffer writes its bytes one by one, with a number after each newline.\<close>

fun number_bytes :: "'w sys \<Rightarrow> bytes \<Rightarrow> u32 \<Rightarrow> 'w \<Rightarrow> (u32 \<times> 'w) option" where
  "number_bytes s [] lineno w = Some (lineno, w)"
| "number_bytes s (c # cs) lineno w =
     (let w = snd (sys_write s 1 [c] w) in
      if c = 10
      then do { w \<leftarrow> put s (chars ''%3d '' @ [0]) [Word (lineno + 1)] w; number_bytes s cs (lineno + 1) w }
      else number_bytes s cs lineno w)"

fun number_loop :: "nat \<Rightarrow> 'w sys \<Rightarrow> u32 \<Rightarrow> 'w \<Rightarrow> 'w option" where
  "number_loop 0 s lineno w = Some w"
| "number_loop (Suc n) s lineno w =
     (let (r, buf, w) = sys_read s 0 BUFSIZE w in
      if 0 < r then do { (lineno, w) \<leftarrow> number_bytes s (take (nat r) buf) lineno w; number_loop n s lineno w }
      else do { w \<leftarrow> put s (chars ''%3d '' @ [0]) [Word 0] w; number_loop n s 0 w })"

definition number_lines :: "nat \<Rightarrow> 'w sys \<Rightarrow> 'w \<Rightarrow> 'w option" where
  "number_lines n s w = do { w \<leftarrow> put s (chars ''%3d '' @ [0]) [Word 0] w; number_loop n s 0 w }"

definition launch_shell :: "'w sys \<Rightarrow> 'w \<Rightarrow> (unit, 'w) outcome option" where
  "launch_shell s w =
     do {
       (program, _) \<leftarrow> snprintf (sys_junk s 100) 100 (chars ''/bin/sh'' @ [0]) [];
       let (replaced, w) = sys_execve s (cstr program) [] w;
       if replaced then Some (Execed w)
       else do {
         w \<leftarrow> put s (chars ''/bin/sh: execve failed: %d'' @ [10, 0]) [Word (of_int (sys_errno s w))] w;
         Some (Exited 1 w)
       }
     }"

subsection \<open>Copying a file\<close>

text \<open>
  The descriptor \<open>fd\<close> is an open file: \<open>rest\<close> is what \<open>read\<close> has not delivered yet, and \<open>out\<close> what has been written to descriptor 1.
\<close>

definition delivers :: "'w sys \<Rightarrow> int \<Rightarrow> ('w \<Rightarrow> bytes) \<Rightarrow> ('w \<Rightarrow> bytes) \<Rightarrow> bool" where
  "delivers s fd rest out \<longleftrightarrow>
     (\<forall>n w. case sys_read s fd n w of (r, buf, w') \<Rightarrow>
        r = int (length (take n (rest w))) \<and> buf = take n (rest w) \<and> rest w' = drop n (rest w) \<and> out w' = out w) \<and>
     (\<forall>b w. rest (snd (sys_write s 1 b w)) = rest w \<and> out (snd (sys_write s 1 b w)) = out w @ b) \<and>
     (\<forall>w. out (snd (sys_close s fd w)) = out w)"

text \<open>\<open>cat\<close> then ends, after at most one iteration per byte and one more, with all of the file written in order.\<close>

lemma cat_loop_copies:
  assumes d: "delivers s fd rest out" and n: "length (rest w) < n"
  shows "\<exists>w'. cat_loop n s fd w = Some (0, w') \<and> out w' = out w @ rest w"
  using n
proof (induction n arbitrary: w)
  case (Suc n)
  obtain r buf w1 where r: "sys_read s fd 20 w = (r, buf, w1)" by (cases "sys_read s fd 20 w")
  then have R: "r = int (length (take 20 (rest w)))" "buf = take 20 (rest w)" "rest w1 = drop 20 (rest w)" "out w1 = out w"
    using d unfolding delivers_def by (auto dest!: spec [of _ 20] spec [of _ w])
  show ?case
  proof (cases "rest w = []")
    case True
    with r R d show ?thesis by (auto simp: delivers_def)
  next
    case False
    let ?w = "snd (sys_write s 1 buf w1)"
    have W: "rest ?w = drop 20 (rest w)" "out ?w = out w @ take 20 (rest w)" using d R by (simp_all add: delivers_def)
    have "length (rest ?w) < n" using W(1) Suc.prems False by (cases "rest w") auto
    from Suc.IH [OF this] obtain w' where "cat_loop n s fd ?w = Some (0, w')" "out w' = out ?w @ rest ?w" by blast
    moreover have "0 < r" "nat r = length buf" using False R(1,2) by simp_all
    moreover have "write_buf s 1 buf (length buf) w1 = Some ?w" by (simp add: write_buf_def)
    ultimately show ?thesis using r W by simp
  qed
qed simp

text \<open>The filter \<open>uppercase\<close> passes everything on, letter by letter.\<close>

lemma uppercase_filters:
  assumes d: "delivers s 0 rest out" and n: "length (rest w) \<le> n"
  shows "\<exists>w'. uppercase n s w = Some w' \<and> out w' = out w @ map upper_char (rest w) \<and> rest w' = []"
  using n
proof (induction n arbitrary: w)
  case (Suc n)
  obtain r buf w1 where r: "sys_read s 0 BUFSIZE w = (r, buf, w1)" by (cases "sys_read s 0 BUFSIZE w")
  then have R: "r = int (length (take BUFSIZE (rest w)))" "buf = take BUFSIZE (rest w)" "rest w1 = drop BUFSIZE (rest w)" "out w1 = out w"
    using d unfolding delivers_def by (auto dest!: spec [of _ BUFSIZE] spec [of _ w])
  show ?case
  proof (cases "rest w = []")
    case True
    with R(3) have "length (rest w1) \<le> n" by simp
    with Suc.IH [OF this] True r R show ?thesis by auto
  next
    case False
    let ?w = "snd (sys_write s 1 (map upper_char buf) w1)"
    have W: "rest ?w = drop BUFSIZE (rest w)" "out ?w = out w @ map upper_char (take BUFSIZE (rest w))"
      using d R by (simp_all add: delivers_def)
    have "length (rest ?w) \<le> n" using W(1) Suc.prems False by (cases "rest w") auto
    from Suc.IH [OF this] obtain w' where "uppercase n s ?w = Some w'" "out w' = out ?w @ map upper_char (rest ?w)" "rest w' = []" by blast
    moreover have "0 < r" "nat r = length buf" using False R(1,2) by simp_all
    moreover have "write_buf s 1 (map upper_char buf) (length buf) w1 = Some ?w" by (simp add: write_buf_def)
    ultimately show ?thesis using r W by (simp flip: map_append)
  qed
qed simp

end
