(* ===== verification/Fstool_Shell.thy ===== *)
theory Fstool_Shell
  imports Fstool Filesystem_Props Shell Programs
begin

text \<open>
  The commands of \<^verbatim>\<open>source/fstool.c\<close> that look at an image: \<open>-dump\<close>, \<open>-get\<close> and the interactive shell of \<open>-shell\<close>. What they
  print is appended to a text. They are linked with the same \<^verbatim>\<open>filesystem.c\<close> as the kernel; the conversions of \<open>printf\<close> that occur
  here mean the same in the library of the host. Error numbers are named as in \<^verbatim>\<open>constants.h\<close>; the argument \<open>strerr\<close> gives the message of each.
\<close>

definition hprint :: "string \<Rightarrow> bytes \<Rightarrow> va list \<Rightarrow> bytes \<Rightarrow> bytes option" where
  "hprint format nl ap out = do { t \<leftarrow> format_text (chars format @ nl @ [0]) ap; Some (out @ t) }"

subsection \<open>Looking up\<close>

definition getdir :: "bytes \<Rightarrow> bytes \<Rightarrow> (int \<times> nat option) option" where
  "getdir data path =
     do {
       (r, e) \<leftarrow> get_directory_entry data path;
       if 0 > r then Some (r, e)
       else do { a \<leftarrow> e; t \<leftarrow> de_type data a; Some (if t \<noteq> TYPE_DIR then - ENOTDIR else 0, e) }
     }"

definition getfile :: "bytes \<Rightarrow> bytes \<Rightarrow> (int \<times> nat option) option" where
  "getfile data path =
     do {
       (r, e) \<leftarrow> get_directory_entry data path;
       if 0 > r then Some (r, e)
       else do { a \<leftarrow> e; t \<leftarrow> de_type data a; Some (if t \<noteq> TYPE_FILE then - EISDIR else 0, e) }
     }"

subsection \<open>Listing an image\<close>

text \<open>The recursion goes as deep as the directories in the image, which the first argument bounds.\<close>

function dump_dir :: "nat \<Rightarrow> host \<Rightarrow> bytes \<Rightarrow> nat \<Rightarrow> bytes \<Rightarrow> bytes \<Rightarrow> bytes option"
  and dump_entries :: "nat \<Rightarrow> host \<Rightarrow> bytes \<Rightarrow> nat \<Rightarrow> nat \<Rightarrow> nat \<Rightarrow> bytes \<Rightarrow> bytes \<Rightarrow> bytes option" where
  "dump_dir 0 host path entry data out = None"
| "dump_dir (Suc n) host path entry data out =
     do {
       dir \<leftarrow> de_location data entry;
       count \<leftarrow> dir_count data dir;
       dump_entries n host path dir count 0 data out
     }"
| "dump_entries n host path dir count i data out =
     (if i < count
      then do {
        let e = dir_entry dir i;
        assert_c (terminated (de_name data e));
        let fullpath = full_path host path (cstr (de_name data e));
        t \<leftarrow> de_type data e;
        sz \<leftarrow> de_size data e;
        out \<leftarrow> hprint ''%c %-8d %s'' [10] [Word (if t = TYPE_DIR then of_char CHR ''D'' else of_char CHR ''F''), Word sz, Str (fullpath @ [0])] out;
        out \<leftarrow> (if t = TYPE_DIR then dump_dir n host fullpath e data out else Some out);
        dump_entries n host path dir count (Suc i) data out
      }
      else Some out)"
  by pat_completeness auto
termination
  by (relation "measures [\<lambda>x. case x of Inl (n, _) \<Rightarrow> 2 * n | Inr (n, _) \<Rightarrow> 2 * n + 1,
        \<lambda>x. case x of Inl _ \<Rightarrow> 0 | Inr (_, _, _, _, count, i, _) \<Rightarrow> count - i]") auto

definition dump_image :: "nat \<Rightarrow> host \<Rightarrow> bytes \<Rightarrow> bytes option" where
  "dump_image n host data = dump_dir n host [] 0 data []"

definition get_entry :: "host \<Rightarrow> (int \<Rightarrow> bytes) \<Rightarrow> bytes \<Rightarrow> bytes \<Rightarrow> bytes option" where
  "get_entry host strerr data path =
     do {
       (r, e) \<leftarrow> get_directory_entry data path;
       if 0 > r then hprint ''Error: %s'' [10] [Str (strerr (- r) @ [0])] []
       else do {
         a \<leftarrow> e;
         t \<leftarrow> de_type data a;
         sz \<leftarrow> de_size data a;
         loc \<leftarrow> de_location data a;
         hprint ''Type %d Size %d Location %d'' [10] [Word t, Word sz, Word (of_nat loc)] []
       }
     }"

subsection \<open>The interactive shell\<close>

text \<open>\<open>junk\<close> is the uninitialised buffer \<open>abspath\<close>; both buffers have \<open>PATH_MAX\<close> bytes.\<close>

definition list_line :: "bytes \<Rightarrow> nat \<Rightarrow> bytes \<Rightarrow> bytes option" where
  "list_line data e out =
     do {
       t \<leftarrow> de_type data e;
       m \<leftarrow> de_mode data e;
       sz \<leftarrow> de_size data e;
       out \<leftarrow> hprint (concat (replicate 10 ''%c'') @ '' '') []
         (Word (if t = TYPE_DIR then of_char CHR ''d'' else of_char CHR ''-'') #
          map (\<lambda>(b, c). Word (if m AND b \<noteq> 0 then of_char c else of_char CHR ''-'')) permission_bits) out;
       if t = TYPE_DIR then hprint ''DIR  %-8d %s/'' [10] [Word sz, Str (de_name data e)] out
       else hprint ''FILE %-8d %s'' [10] [Word sz, Str (de_name data e)] out
     }"

fun list_lines :: "bytes \<Rightarrow> nat list \<Rightarrow> bytes \<Rightarrow> bytes option" where
  "list_lines data [] out = Some out"
| "list_lines data (e # es) out = do { out \<leftarrow> list_line data e out; list_lines data es out }"

definition error_line :: "(int \<Rightarrow> bytes) \<Rightarrow> int \<Rightarrow> bytes \<Rightarrow> bytes option" where
  "error_line strerr r out = hprint ''%s'' [10] [Str (strerr (- r) @ [0])] out"

definition fs_ls :: "host \<Rightarrow> (int \<Rightarrow> bytes) \<Rightarrow> bytes \<Rightarrow> bytes \<Rightarrow> bytes list \<Rightarrow> bytes \<Rightarrow> bytes \<Rightarrow> bytes option" where
  "fs_ls host strerr data junk argv cwd out =
     do {
       abspath \<leftarrow> (if 2 \<le> length argv then relative_to_absolute junk cwd (argv ! 1) (h_path_max host)
                   else map_option fst (snprintf junk (h_path_max host) (chars ''%s'' @ [0]) [Str cwd]));
       (r, e) \<leftarrow> getdir data abspath;
       if 0 > r then error_line strerr r out
       else do {
         a \<leftarrow> e;
         dir \<leftarrow> de_location data a;
         count \<leftarrow> dir_count data dir;
         list_lines data (map (dir_entry dir) [0..<count]) out
       }
     }"

definition fs_cat :: "host \<Rightarrow> (int \<Rightarrow> bytes) \<Rightarrow> bytes \<Rightarrow> bytes \<Rightarrow> bytes list \<Rightarrow> bytes \<Rightarrow> bytes \<Rightarrow> bytes option" where
  "fs_cat host strerr data junk argv cwd out =
     do {
       abspath \<leftarrow> relative_to_absolute junk cwd (argv ! 1) (h_path_max host);
       (r, e) \<leftarrow> getfile data abspath;
       if 0 > r then error_line strerr r out
       else do {
         a \<leftarrow> e;
         loc \<leftarrow> de_location data a;
         sz \<leftarrow> de_size data a;
         assert_c (loc + unat sz \<le> length data);
         Some (out @ take (unat sz) (drop loc data))
       }
     }"

definition fs_cd :: "host \<Rightarrow> (int \<Rightarrow> bytes) \<Rightarrow> bytes \<Rightarrow> bytes \<Rightarrow> bytes list \<Rightarrow> bytes \<Rightarrow> bytes \<Rightarrow> (bytes \<times> bytes) option" where
  "fs_cd host strerr data junk argv cwd out =
     do {
       abspath \<leftarrow> relative_to_absolute junk cwd (argv ! 1) (h_path_max host);
       (r, e) \<leftarrow> getdir data abspath;
       if 0 > r then do { out \<leftarrow> error_line strerr r out; Some (cwd, out) }
       else do {
         (cwd, _) \<leftarrow> snprintf cwd (h_path_max host) (chars ''%s'' @ [0]) [Str abspath];
         Some (cwd, out)
       }
     }"

definition help_text :: "string list" where
  "help_text =
     [''Commands:'', ''ls [path]  - list directory contents (or . if no path)'', ''cat <path> - display contents of a file'',
      ''cd <path>  - change current working directory'', ''pwd        - print current working directory'', ''q          - quit fstool'']"

text \<open>One command. The result says whether the shell goes on.\<close>

definition fs_command :: "host \<Rightarrow> (int \<Rightarrow> bytes) \<Rightarrow> bytes \<Rightarrow> bytes \<Rightarrow> bytes list \<Rightarrow> bytes \<Rightarrow> bytes \<Rightarrow> (bool \<times> bytes \<times> bytes) option" where
  "fs_command host strerr data junk argv cwd out =
     (let argc = length argv;
          is = (\<lambda>name. 1 \<le> argc \<and> cstr (hd argv) = chars name)
      in if is ''ls'' then do { out \<leftarrow> fs_ls host strerr data junk argv cwd out; Some (True, cwd, out) }
         else if argc = 2 \<and> is ''cat'' then do { out \<leftarrow> fs_cat host strerr data junk argv cwd out; Some (True, cwd, out) }
         else if argc = 2 \<and> is ''cd'' then do { (cwd, out) \<leftarrow> fs_cd host strerr data junk argv cwd out; Some (True, cwd, out) }
         else if argc = 1 \<and> is ''pwd'' then do { out \<leftarrow> hprint ''%s'' [10] [Str cwd] out; Some (True, cwd, out) }
         else if argc = 1 \<and> is ''q'' then Some (False, cwd, out)
         else if argc = 1 \<and> is ''help'' then Some (True, cwd, out @ concat (map (\<lambda>l. chars l @ [10]) help_text))
         else Some (True, cwd, out @ chars ''Invalid command'' @ [10]))"

text \<open>The lines are those that \<open>fgets\<close> stores, of at most 1023 bytes and with a terminating 0.\<close>

fun fs_loop :: "host \<Rightarrow> (int \<Rightarrow> bytes) \<Rightarrow> bytes \<Rightarrow> bytes \<Rightarrow> bytes list \<Rightarrow> bytes \<Rightarrow> bytes \<Rightarrow> bytes option" where
  "fs_loop host strerr data junk [] cwd out = Some out"
| "fs_loop host strerr data junk (l # ls) cwd out =
     do {
       (line, argv) \<leftarrow> parse_command l 8;
       (going, cwd, out) \<leftarrow> fs_command host strerr data junk (arg_strings line argv) cwd out;
       if going then do { out \<leftarrow> hprint ''%s > '' [] [Str cwd] out; fs_loop host strerr data junk ls cwd out }
       else Some out
     }"

definition fs_shell :: "host \<Rightarrow> (int \<Rightarrow> bytes) \<Rightarrow> bytes \<Rightarrow> bytes \<Rightarrow> bytes list \<Rightarrow> bytes option" where
  "fs_shell host strerr data junk lines =
     do {
       (cwd, _) \<leftarrow> snprintf junk (h_path_max host) (chars ''/'' @ [0]) [];
       out \<leftarrow> hprint ''%s > '' [] [Str cwd] [];
       fs_loop host strerr data junk lines cwd out
     }"

subsection \<open>The program\<close>

text \<open>
  \<open>read_file\<close>: the buffer always has \<open>BUFSIZE\<close> (1024 here) bytes behind what was read, which is checked. The image fits into an \<open>int\<close>.
\<close>

fun read_all :: "bytes list \<Rightarrow> nat \<Rightarrow> bytes \<Rightarrow> bytes option" where
  "read_all [] allocated data = Some data"
| "read_all (r # rs) allocated data =
     do { assert_c (length data + 1024 \<le> allocated); read_all rs (allocated + length r) (data @ r) }"

definition read_file :: "host \<Rightarrow> bytes \<Rightarrow> bytes option" where
  "read_file host filename = do { reads \<leftarrow> h_read host filename; read_all reads 1024 [] }"

lemma read_file_whole: "h_read host filename = Some reads \<Longrightarrow> read_file host filename = Some (concat reads)"
proof -
  have "read_all rs (length data + 1024) data = Some (data @ concat rs)" for rs data
  proof (induction rs arbitrary: data)
    case (Cons r rs)
    from Cons.IH [of "data @ r"] show ?case by (simp add: ac_simps)
  qed simp
  from this [of reads "[]"] show "h_read host filename = Some reads \<Longrightarrow> ?thesis" by (simp add: read_file_def)
qed

text \<open>\<open>main\<close>: an image that is written, or a text that is printed. A wrong usage leaves the program with an error.\<close>

datatype fs_effect = Writes bytes bytes | Prints bytes

definition fstool_main :: "nat \<Rightarrow> host \<Rightarrow> (int \<Rightarrow> bytes) \<Rightarrow> bytes \<Rightarrow> bytes list \<Rightarrow> bytes list \<Rightarrow> fs_effect option" where
  "fstool_main n host strerr junk lines argv =
     (let argc = length argv;
          is = (\<lambda>action. argv ! 1 = chars action)
      in if argc = 4 \<and> is ''-build'' then do { data \<leftarrow> build n host (argv ! 3); Some (Writes (argv ! 2) data) }
         else if argc = 3 \<and> is ''-dump'' then do { data \<leftarrow> read_file host (argv ! 2); out \<leftarrow> dump_image n host data; Some (Prints out) }
         else if argc = 4 \<and> is ''-get''
         then do { data \<leftarrow> read_file host (argv ! 2); out \<leftarrow> get_entry host strerr data (argv ! 3 @ [0]); Some (Prints out) }
         else if argc = 3 \<and> is ''-shell''
         then do { data \<leftarrow> read_file host (argv ! 2); out \<leftarrow> fs_shell host strerr data junk lines; Some (Prints out) }
         else None)"

end
