(* ===== verification/Fstool_Shell_Props.thy ===== *)
theory Fstool_Shell_Props
  imports File_Claims Shell_Props Fstool_Shell
begin

text \<open>
  The interactive shell of \<^verbatim>\<open>source/fstool.c\<close> on an image behaves like a shell on the directory tree the image was built from.
\<close>

subsection \<open>A shell on a tree\<close>

text \<open>
  The reference: the working directory is a list of names and files are looked up in the tree. \<open>None\<close> stands for what is not
  described, the command \<open>ls\<close> and paths that are too long for the buffers.
\<close>

definition tree_path :: "nat \<Rightarrow> node \<Rightarrow> bytes list \<Rightarrow> bytes \<Rightarrow> node option option" where
  "tree_path mx t cs w = (if length (path_text cs) + 1 + length w < mx then Some (subtree t (resolved cs w)) else None)"

definition tree_cat :: "(int \<Rightarrow> bytes) \<Rightarrow> node option \<Rightarrow> bytes" where
  "tree_cat msg n = (case n of None \<Rightarrow> msg ENOENT @ [10] | Some (File c) \<Rightarrow> c | Some (Dir _) \<Rightarrow> msg EISDIR @ [10])"

definition tree_cd :: "(int \<Rightarrow> bytes) \<Rightarrow> node option \<Rightarrow> bytes list \<Rightarrow> bytes list \<Rightarrow> bytes list \<times> bytes" where
  "tree_cd msg n cs ds =
     (case n of None \<Rightarrow> (cs, msg ENOENT @ [10]) | Some (File _) \<Rightarrow> (cs, msg ENOTDIR @ [10]) | Some (Dir _) \<Rightarrow> (ds, []))"

definition tree_command :: "nat \<Rightarrow> node \<Rightarrow> (int \<Rightarrow> bytes) \<Rightarrow> bytes list \<Rightarrow> bytes list \<Rightarrow> (bool \<times> bytes list \<times> bytes) option" where
  "tree_command mx t msg ws cs =
     (if ws \<noteq> [] \<and> hd ws = chars ''ls'' then None
      else if length ws = 2 \<and> hd ws = chars ''cat''
        then map_option (\<lambda>n. (True, cs, tree_cat msg n)) (tree_path mx t cs (ws ! 1))
      else if length ws = 2 \<and> hd ws = chars ''cd''
        then map_option (\<lambda>n. (True, tree_cd msg n cs (resolved cs (ws ! 1)))) (tree_path mx t cs (ws ! 1))
      else if ws = [chars ''pwd''] then Some (True, cs, path_text cs @ [10])
      else if ws = [chars ''q''] then Some (False, cs, [])
      else if ws = [chars ''help''] then Some (True, cs, concat (map (\<lambda>l. chars l @ [10]) help_text))
      else Some (True, cs, chars ''Invalid command'' @ [10]))"

fun tree_session :: "nat \<Rightarrow> node \<Rightarrow> (int \<Rightarrow> bytes) \<Rightarrow> bytes list \<Rightarrow> bytes list \<Rightarrow> bytes option" where
  "tree_session mx t msg [] cs = Some []"
| "tree_session mx t msg (l # ls) cs =
     do {
       (going, cs, text) \<leftarrow> tree_command mx t msg (take 7 (words l)) cs;
       if going then map_option (\<lambda>rest. text @ path_text cs @ chars '' > '' @ rest) (tree_session mx t msg ls cs)
       else Some text
     }"

subsection \<open>The commands\<close>

lemma hprint_s:
  "terminated t \<Longrightarrow> hprint ''%s'' [10] [Str t] out = Some (out @ cstr t @ [10])"
  "terminated t \<Longrightarrow> hprint ''%s > '' [] [Str t] out = Some (out @ cstr t @ chars '' > '')"
  by (simp_all add: hprint_def chars_def field_text_def padded_def spaces_def is_digit_def Let_def)

lemma error_line_text: "0 \<notin> set (msg (- r)) \<Longrightarrow> error_line msg r out = Some (out @ msg (- r) @ [10])"
  by (simp add: error_line_def hprint_s terminated_def cstr_append_0)

lemma norm_step_length: "length (path_text (norm_step cs p)) \<le> length (path_text cs) + (length p + 1)"
proof (cases "p = [] \<or> p = chars ''.''")
  case False
  have "length (path_text (butlast cs)) \<le> length (path_text cs)"
    by (cases cs rule: rev_cases) (auto simp: path_text_def Suc_le_eq)
  moreover have "length (path_text (cs @ [p])) \<le> length (path_text cs) + (length p + 1)" by (simp add: path_text_def)
  ultimately show ?thesis using False by (simp add: norm_step_def)
qed (auto simp: norm_step_def)

lemma norm_steps_length: "length (path_text (foldl norm_step cs ps)) \<le> length (path_text cs) + pieces_length ps"
proof (induction ps arbitrary: cs)
  case (Cons p ps)
  show ?case using Cons.IH [of "norm_step cs p"] norm_step_length [of cs p] by (simp add: pieces_length_def)
qed (simp add: pieces_length_def)

lemma resolved_length: "length (path_text (resolved cs t)) \<le> length (path_text cs) + 1 + length t"
proof -
  have "1 \<le> length (path_text cs)" by (simp add: Suc_le_eq)
  moreover have "length (path_text []) = 1" by (simp add: path_text_def)
  ultimately show ?thesis
    using norm_steps_length [of "[]" "pieces t"] norm_steps_length [of cs "pieces t"] by (simp add: resolved_def pieces_length_eq)
qed

text \<open>The working directory of the shell is a buffer that holds a path in normal form.\<close>

definition in_dir :: "nat \<Rightarrow> bytes list \<Rightarrow> bytes \<Rightarrow> bool" where
  "in_dir mx cs cwd \<longleftrightarrow> (\<forall>c\<in>set cs. name_ok c) \<and> cstr cwd = path_text cs \<and> terminated cwd \<and> mx \<le> length cwd \<and> mx < 2147483648"

lemma fs_lookup:
  assumes img: "image_finds data (Dir es)" and d: "in_dir mx cs cwd" "mx \<le> length junk" and w: "0 \<notin> set w"
    and n: "tree_path mx (Dir es) cs w = Some n"
  obtains b where "relative_to_absolute junk cwd (w @ [0]) mx = Some b" "terminated b" "cstr b = path_text (resolved cs w)"
    "\<forall>c\<in>set (resolved cs w). name_ok c"
    "case n of None \<Rightarrow> \<exists>x. get_directory_entry data b = Some (- ENOENT, x)
       | Some t \<Rightarrow> \<exists>e. get_directory_entry data b = Some (0, Some e) \<and> entry_shows data e t"
proof -
  from n have fit: "length (path_text cs) + 1 + length w < mx" and n': "n = subtree (Dir es) (resolved cs w)"
    by (auto simp: tree_path_def split: if_splits)
  from d have c: "\<forall>c\<in>set cs. name_ok c" "cstr cwd = path_text cs" "terminated cwd" by (simp_all add: in_dir_def)
  obtain b where b: "relative_to_absolute junk cwd (w @ [0]) mx = Some b" "terminated b" "cstr b = path_text (resolved cs w)"
    "\<forall>c\<in>set (resolved cs w). name_ok c" by (rule path_resolves [OF c w fit d(2)]) (use d(1) in \<open>auto simp: in_dir_def\<close>)
  show thesis by (rule that [OF b]) (use image_resolves [OF img b(2-4)] n' in blast)
qed

lemma fs_cat_tree:
  assumes img: "image_finds data (Dir es)" "length data < 4294967296" and d: "in_dir (h_path_max host) cs cwd" "h_path_max host \<le> length junk"
    and w: "0 \<notin> set w" and n: "tree_path (h_path_max host) (Dir es) cs w = Some n" and m: "\<forall>e. 0 \<notin> set (msg e)"
  shows "fs_cat host msg data junk [x, w @ [0]] cwd out = Some (out @ tree_cat msg n)"
proof -
  obtain b where b: "relative_to_absolute junk cwd (w @ [0]) (h_path_max host) = Some b"
    "case n of None \<Rightarrow> \<exists>x. get_directory_entry data b = Some (- ENOENT, x)
       | Some t \<Rightarrow> \<exists>e. get_directory_entry data b = Some (0, Some e) \<and> entry_shows data e t"
    by (rule fs_lookup [OF img(1) d w n])
  note R = fs_cat_def getfile_def tree_cat_def b(1)
  consider "n = None" | c where "n = Some (File c)" | ds where "n = Some (Dir ds)" by (metis option.exhaust node.exhaust)
  then show ?thesis
  proof cases
    case 1
    with b(2) obtain y where "get_directory_entry data b = Some (- ENOENT, y)" by auto
    with 1 m show ?thesis by (simp add: R error_line_text)
  next
    case (2 c)
    with b(2) obtain e l where e: "get_directory_entry data b = Some (0, Some e)" "de_type data e = Some TYPE_FILE"
      "de_size data e = Some (of_nat (length c))" "de_location data e = Some l" "l + length c \<le> length data"
      "take (length c) (drop l data) = c" by (auto split: option.splits)
    moreover have "unat (of_nat (length c) :: u32) = length c" using e(5) img(2) by (simp add: unat_of_nat)
    ultimately show ?thesis using 2 by (simp add: R)
  next
    case (3 ds)
    with b(2) obtain e where "get_directory_entry data b = Some (0, Some e)" "de_type data e = Some TYPE_DIR" by auto
    with 3 m show ?thesis by (simp add: R error_line_text)
  qed
qed

lemma fs_cd_tree:
  assumes img: "image_finds data (Dir es)" and d: "in_dir (h_path_max host) cs cwd" "h_path_max host \<le> length junk"
    and w: "0 \<notin> set w" and n: "tree_path (h_path_max host) (Dir es) cs w = Some n" and m: "\<forall>e. 0 \<notin> set (msg e)"
    and c: "tree_cd msg n cs (resolved cs w) = (cs', text)"
  shows "\<exists>cwd'. fs_cd host msg data junk [x, w @ [0]] cwd out = Some (cwd', out @ text) \<and> in_dir (h_path_max host) cs' cwd'"
proof -
  let ?mx = "h_path_max host"
  obtain b where b: "relative_to_absolute junk cwd (w @ [0]) ?mx = Some b" "terminated b" "cstr b = path_text (resolved cs w)"
    "\<forall>c\<in>set (resolved cs w). name_ok c"
    "case n of None \<Rightarrow> \<exists>x. get_directory_entry data b = Some (- ENOENT, x)
       | Some t \<Rightarrow> \<exists>e. get_directory_entry data b = Some (0, Some e) \<and> entry_shows data e t"
    by (rule fs_lookup [OF img d w n])
  note R = fs_cd_def getdir_def b(1)
  consider "n = None" | c where "n = Some (File c)" | ds where "n = Some (Dir ds)" by (metis option.exhaust node.exhaust)
  then show ?thesis
  proof cases
    case 1
    with b(5) obtain y where "get_directory_entry data b = Some (- ENOENT, y)" by auto
    with 1 m c d show ?thesis by (auto simp: R error_line_text tree_cd_def)
  next
    case (2 f)
    with b(5) obtain e where "get_directory_entry data b = Some (0, Some e)" "de_type data e = Some TYPE_FILE" by auto
    with 2 m c d show ?thesis by (auto simp: R error_line_text tree_cd_def)
  next
    case (3 ds)
    let ?t = "path_text (resolved cs w)"
    from b(5) 3 obtain e where e: "get_directory_entry data b = Some (0, Some e)" "de_type data e = Some TYPE_DIR" by auto
    have ft: "format_text (chars ''%s'' @ [0]) [Str b] = Some ?t"
      using b(2,3) by (simp add: chars_def field_text_def padded_def spaces_def is_digit_def Let_def)
    have lt: "length ?t < ?mx" using resolved_length [of cs w] n by (auto simp: tree_path_def split: if_splits)
    then have s: "snprintf cwd ?mx (chars ''%s'' @ [0]) [Str b] = Some (?t @ [0] @ drop (length ?t + 1) cwd, length ?t)"
      using vsnprintf_text [OF _ ft, of ?mx cwd] d(1)
      by (simp add: snprintf_def in_dir_def min_def split: if_splits)
    have "in_dir ?mx (resolved cs w) (?t @ [0] @ drop (length ?t + 1) cwd)"
      using b(4) d(1) lt path_text_no_0 [OF b(4)] by (auto simp: in_dir_def terminated_def cstr_append_0)
    with 3 e s c show ?thesis by (auto simp: R tree_cd_def)
  qed
qed

text \<open>One command: the buffer of the shell follows the names of the reference, and both print the same.\<close>

definition arg_bytes :: "bytes list \<Rightarrow> bytes list" where
  "arg_bytes ws = map (\<lambda>w. w @ [0]) ws"

lemma fs_command_tree:
  assumes img: "image_finds data (Dir es)" "length data < 4294967296" and d: "in_dir (h_path_max host) cs cwd" "h_path_max host \<le> length junk"
    and ws: "\<forall>w\<in>set ws. 0 \<notin> set w" and m: "\<forall>e. 0 \<notin> set (msg e)"
    and c: "tree_command (h_path_max host) (Dir es) msg ws cs = Some (going, cs', text)"
  shows "\<exists>cwd'. fs_command host msg data junk (arg_bytes ws) cwd out = Some (going, cwd', out @ text) \<and> in_dir (h_path_max host) cs' cwd'"
proof -
  have hd_is: "1 \<le> length (arg_bytes ws) \<and> cstr (hd (arg_bytes ws)) = chars name \<longleftrightarrow> ws \<noteq> [] \<and> hd ws = chars name" for name
    using ws by (cases ws) (auto simp: arg_bytes_def cstr_append_0)
  have one: "length ws = 1 \<and> ws \<noteq> [] \<and> hd ws = w \<longleftrightarrow> ws = [w]" for w by (cases ws) auto
  have two: "length ws = 2 \<and> ws \<noteq> [] \<and> hd ws = w \<longleftrightarrow> length ws = 2 \<and> hd ws = w" for w by (cases ws) auto
  have len: "length (arg_bytes ws) = length ws" by (simp add: arg_bytes_def)
  have F: "fs_command host msg data junk (arg_bytes ws) cwd out =
     (if ws \<noteq> [] \<and> hd ws = chars ''ls'' then do { out \<leftarrow> fs_ls host msg data junk (arg_bytes ws) cwd out; Some (True, cwd, out) }
      else if length ws = 2 \<and> hd ws = chars ''cat'' then do { out \<leftarrow> fs_cat host msg data junk (arg_bytes ws) cwd out; Some (True, cwd, out) }
      else if length ws = 2 \<and> hd ws = chars ''cd'' then do { (cwd, out) \<leftarrow> fs_cd host msg data junk (arg_bytes ws) cwd out; Some (True, cwd, out) }
      else if ws = [chars ''pwd''] then do { out \<leftarrow> hprint ''%s'' [10] [Str cwd] out; Some (True, cwd, out) }
      else if ws = [chars ''q''] then Some (False, cwd, out)
      else if ws = [chars ''help''] then Some (True, cwd, out @ concat (map (\<lambda>l. chars l @ [10]) help_text))
      else Some (True, cwd, out @ chars ''Invalid command'' @ [10]))"
    unfolding fs_command_def Let_def hd_is unfolding len one two ..
  have args: "arg_bytes ws = [hd ws @ [0], ws ! 1 @ [0]] \<and> 0 \<notin> set (ws ! 1)" if "length ws = 2"
    using that ws by (cases ws; cases "tl ws") (auto simp: arg_bytes_def)
  have nls: "\<not> (ws \<noteq> [] \<and> hd ws = chars ''ls'')" using c by (auto simp: tree_command_def)
  consider "length ws = 2" "hd ws = chars ''cat''" | "length ws = 2" "hd ws = chars ''cd''"
    | "\<not> (length ws = 2 \<and> hd ws = chars ''cat'')" "\<not> (length ws = 2 \<and> hd ws = chars ''cd'')" by blast
  then show ?thesis
  proof cases
    case 1
    from c have "map_option (\<lambda>n. (True, cs, tree_cat msg n)) (tree_path (h_path_max host) (Dir es) cs (ws ! 1)) = Some (going, cs', text)"
      unfolding tree_command_def if_not_P [OF nls] by (simp only: 1 simp_thms if_True)
    then obtain n where n: "tree_path (h_path_max host) (Dir es) cs (ws ! 1) = Some n"
      "going = True" "cs' = cs" "text = tree_cat msg n" by auto
    from args [OF 1(1)] fs_cat_tree [OF img d _ n(1) m] have
      "fs_cat host msg data junk (arg_bytes ws) cwd out = Some (out @ text)" using n(4) by simp
    with n d(1) show ?thesis unfolding F if_not_P [OF nls] by (simp add: 1)
  next
    case 2
    have ne: "chars ''cd'' \<noteq> chars ''cat''" by (simp add: chars_def)
    from c have "map_option (\<lambda>n. (True, tree_cd msg n cs (resolved cs (ws ! 1)))) (tree_path (h_path_max host) (Dir es) cs (ws ! 1)) =
        Some (going, cs', text)"
      unfolding tree_command_def if_not_P [OF nls] by (simp only: 2 ne simp_thms if_True if_False)
    then obtain n where n: "tree_path (h_path_max host) (Dir es) cs (ws ! 1) = Some n"
      "going = True" "tree_cd msg n cs (resolved cs (ws ! 1)) = (cs', text)" by auto
    from args [OF 2(1)] fs_cd_tree [OF img(1) d _ n(1) m n(3)] obtain cwd' where
      "fs_cd host msg data junk (arg_bytes ws) cwd out = Some (cwd', out @ text)" "in_dir (h_path_max host) cs' cwd'" by auto
    with n ne show ?thesis unfolding F if_not_P [OF nls] by (simp add: 2)
  next
    case 3
    have "hprint ''%s'' [10] [Str cwd] out = Some (out @ path_text cs @ [10])" using d(1) by (simp add: in_dir_def hprint_s)
    with c d(1) show ?thesis unfolding F tree_command_def if_not_P [OF nls] if_not_P [OF 3(1)] if_not_P [OF 3(2)]
      by (simp split: if_splits) auto
  qed
qed

subsection \<open>Sessions\<close>

lemma words_bytes: "w \<in> set (words s) \<Longrightarrow> set w \<subseteq> set s"
proof -
  have "\<forall>w\<in>set (fields s). set w \<subseteq> set s" for s
  proof (induction s)
    case (Cons c s)
    moreover have "fields s \<noteq> []" by (cases s) simp_all
    ultimately show ?case by (cases "fields s") auto
  qed simp
  then show "w \<in> set (words s) \<Longrightarrow> set w \<subseteq> set s" by (simp add: words_def)
qed

lemma fs_loop_tree:
  assumes img: "image_finds data (Dir es)" "length data < 4294967296" and j: "h_path_max host \<le> length junk" and m: "\<forall>e. 0 \<notin> set (msg e)"
  shows "in_dir (h_path_max host) cs cwd \<Longrightarrow> \<forall>l\<in>set ls. 0 \<notin> set l \<Longrightarrow>
    tree_session (h_path_max host) (Dir es) msg ls cs = Some res \<Longrightarrow>
    fs_loop host msg data junk (arg_bytes ls) cwd out = Some (out @ res)"
proof (induction ls arbitrary: cs cwd out res)
  case Nil
  then show ?case by (simp add: arg_bytes_def)
next
  case (Cons l ls)
  have l: "terminated (l @ [0])" "cstr (l @ [0]) = l" using Cons.prems(2) by (simp_all add: terminated_def cstr_append_0)
  obtain line argv where p: "parse_command (l @ [0]) 8 = Some (line, argv)" "arg_strings line argv = arg_list (8 - 1) (cstr (l @ [0]))"
    by (rule parse_command_words [OF l(1)])
  then have a: "arg_strings line argv = arg_bytes (take 7 (words l))" by (simp add: l(2) arg_list_def arg_bytes_def)
  from Cons.prems(3) obtain going cs' t where
    c: "tree_command (h_path_max host) (Dir es) msg (take 7 (words l)) cs = Some (going, cs', t)" and
    r: "(if going then map_option (\<lambda>rest. t @ path_text cs' @ chars '' > '' @ rest) (tree_session (h_path_max host) (Dir es) msg ls cs')
       else Some t) = Some res" by (auto simp: bind_eq_Some_conv)
  have "\<forall>w\<in>set (take 7 (words l)). 0 \<notin> set w" using Cons.prems(2) words_bytes [of _ l] by (auto dest: in_set_takeD)
  from fs_command_tree [OF img Cons.prems(1) j this m c] obtain cwd' where
    f: "fs_command host msg data junk (arg_bytes (take 7 (words l))) cwd out = Some (going, cwd', out @ t)"
      "in_dir (h_path_max host) cs' cwd'" by blast
  have e: "fs_loop host msg data junk (arg_bytes (l # ls)) cwd out =
      (if going then do { out \<leftarrow> hprint ''%s > '' [] [Str cwd'] (out @ t); fs_loop host msg data junk (arg_bytes ls) cwd' out }
       else Some (out @ t))"
    using p(1) a f(1) by (simp add: arg_bytes_def)
  show ?case
  proof (cases going)
    case True
    with r obtain rest where rest: "tree_session (h_path_max host) (Dir es) msg ls cs' = Some rest"
      "res = t @ path_text cs' @ chars '' > '' @ rest" by auto
    have "hprint ''%s > '' [] [Str cwd'] (out @ t) = Some (out @ t @ path_text cs' @ chars '' > '')"
      using f(2) by (simp add: in_dir_def hprint_s)
    with Cons.IH [OF f(2) _ rest(1)] Cons.prems(2) rest(2) show ?thesis by (simp add: e True)
  qed (use r e in simp)
qed

text \<open>
  C29: a session of the \<open>-shell\<close> of \<open>fstool\<close> on an image that \<open>-build\<close> made from a directory tree shows this tree. For lines without
  the command \<open>ls\<close>, and paths that fit into the buffers, the session returns, and it prints what the reference shell on the tree prints:
  \<open>cd\<close> and \<open>cat\<close> resolve their argument against the current directory, \<open>cd\<close> moves only to directories that exist, \<open>cat\<close> prints
  the contents of a file byte by byte, a wrong path gives the message of \<open>ENOENT\<close>, \<open>ENOTDIR\<close> or \<open>EISDIR\<close> and leaves
  the directory, \<open>pwd\<close> prints it, \<open>q\<close> ends the session, and a prompt with the directory follows each other command.
\<close>

theorem fs_shell_correct:
  assumes host: "host_has host dir (Dir es)" "depth (Dir es) \<le> n" "276 + tree_bytes (Dir es) \<le> 2147483647"
    and data: "build n host dir = Some data"
    and mx: "2 \<le> h_path_max host" "h_path_max host \<le> length junk" "h_path_max host < 2 ^ 31" and msg: "\<forall>e. 0 \<notin> set (msg e)" and ls: "\<forall>l\<in>set ls. 0 \<notin> set l"
    and spec: "tree_session (h_path_max host) (Dir es) msg ls [] = Some res"
  shows "fs_shell host msg data junk (map (\<lambda>l. l @ [0]) ls) = Some (chars ''/ > '' @ res)"
proof -
  let ?cwd = "[slash] @ [0] @ drop 2 junk"
  obtain img where "build n host dir = Some img" "length img = 276 + tree_bytes (Dir es)" "image_finds img (Dir es)"
    by (rule build_finds [OF host])
  with data host(3) have img: "image_finds data (Dir es)" "length data < 4294967296" by auto
  have ft: "format_text (chars ''/'' @ [0]) [] = Some [slash]" by (simp add: chars_def slash_def)
  have s: "snprintf junk (h_path_max host) (chars ''/'' @ [0]) [] = Some (?cwd, 1)"
    using vsnprintf_text [OF mx(2) ft] mx(1) by (auto simp: snprintf_def min_def numeral_2_eq_2)
  have d: "in_dir (h_path_max host) [] ?cwd" using mx by (simp add: in_dir_def path_text_def terminated_def slash_def)
  then have "hprint ''%s > '' [] [Str ?cwd] [] = Some (chars ''/ > '')"
    by (simp add: in_dir_def hprint_s path_text_def) (simp add: chars_def slash_def)
  with s fs_loop_tree [OF img mx(2) msg d ls spec] show ?thesis by (simp add: fs_shell_def arg_bytes_def)
qed

theorem fs_shell_correct_witness:
  "\<exists>data. build 2 demo_host (chars ''r'') = Some data \<and>
     fs_shell demo_host (\<lambda>e. chars ''error'') data (replicate 4096 1)
       (map (\<lambda>l. l @ [0]) [chars ''cd d/../d'' @ [10], chars ''pwd'' @ [10], chars ''cat /f'' @ [10], chars ''cd g'' @ [10], chars ''q'' @ [10], []]) =
     Some (chars ''/ > /d > /d'' @ [10] @ chars ''/d > '' @ [1, 2, 3] @ chars ''/d > error'' @ [10] @ chars ''/d > '')"
proof -
  let ?msg = "\<lambda>e::int. chars ''error''"
  let ?ls = "[chars ''cd d/../d'' @ [10], chars ''pwd'' @ [10], chars ''cat /f'' @ [10], chars ''cd g'' @ [10], chars ''q'' @ [10], []]"
  have sz: "276 + tree_bytes (Dir demo_tree) \<le> 2147483647" using demo_tree_size(2) by linarith
  obtain data where data: "build 2 demo_host (chars ''r'') = Some data" by (rule build_finds [OF demo_host_has demo_tree_size(1) sz])
  have mx: "h_path_max demo_host = 4096" "2 \<le> h_path_max demo_host" "h_path_max demo_host \<le> length (replicate 4096 (1::u8))" "h_path_max demo_host < 2 ^ 31" by (simp_all add: demo_host_def)
  have "tree_session (h_path_max demo_host) (Dir demo_tree) ?msg ?ls [] =
      Some (chars ''/d > /d'' @ [10] @ chars ''/d > '' @ [1, 2, 3] @ chars ''/d > error'' @ [10] @ chars ''/d > '')"
    unfolding mx(1) by (simp add: tree_command_def tree_path_def tree_cd_def tree_cat_def resolved_def norm_step_def path_text_def words_def
        is_sep_def demo_tree_def chars_def slash_def)
  from fs_shell_correct [OF demo_host_has demo_tree_size(1) sz data mx(2-4) _ _ this] data show ?thesis by (simp add: chars_def)
qed

end
