(* ===== verification/Buddy_Test.thy ===== *)
theory Buddy_Test
  imports Buddy_Props Format
begin

text \<open>
  The test program for the buddy allocator, \<^verbatim>\<open>source/testbuddy.c\<close>, which runs on the host with \<open>USERLAND\<close> defined: it allocates and
  frees blocks at random and draws the free memory after each step. The generator \<open>rand\<close> and the address of the area are parameters;
  what is printed is collected in a text.
\<close>

subsection \<open>Printing the free memory\<close>

partial_function (option) print_free_list :: "memarea \<Rightarrow> nat \<Rightarrow> nat \<Rightarrow> bytes \<Rightarrow> bytes option" where
  "print_free_list ma m block out =
     (if EMPTY \<noteq> block
      then do {
        t \<leftarrow> format_text (chars ''free %u: 0x%x-0x%x'' @ [10, 0]) [Word (of_nat m), Word (of_nat block), Word (of_nat (block + 2 ^ m))];
        print_free_list ma m (ma_links ma block) (out @ t)
      }
      else Some out)"

fun print_free_lists :: "memarea \<Rightarrow> nat list \<Rightarrow> bytes \<Rightarrow> bytes option" where
  "print_free_lists ma [] out = Some out"
| "print_free_lists ma (m # ms) out =
     do { out \<leftarrow> print_free_list ma m (ma_freelist ma ! m) out; print_free_lists ma ms out }"

definition print_free_mem :: "memarea \<Rightarrow> bytes \<Rightarrow> bytes option" where
  "print_free_mem ma out = print_free_lists ma [ma_lower ma..<Suc (ma_upper ma)] out"

text \<open>
  \<open>print_mem_line\<close> computes with the fractions \<open>block / 2 ^ upper\<close> as \<open>double\<close>s. An offset has at most 32 bits and is divided by
  a power of two, and the line has few characters: none of the operations rounds, and the conversion to \<open>int\<close> is the integer quotient.
\<close>

definition star :: u8 where "star = of_char CHR ''*''"
definition dot :: u8 where "dot = of_char CHR ''.''"

partial_function (option) mark_free :: "memarea \<Rightarrow> nat \<Rightarrow> nat \<Rightarrow> nat \<Rightarrow> bytes \<Rightarrow> bytes option" where
  "mark_free ma len m block line =
     (if EMPTY \<noteq> block
      then do {
        assert_c (block + 2 ^ m \<le> 2 ^ ma_upper ma);
        let istart = block * len div 2 ^ ma_upper ma;
        let iend = (block + 2 ^ m) * len div 2 ^ ma_upper ma;
        assert_c (iend \<le> length line);
        mark_free ma len m (ma_links ma block) (take istart line @ replicate (iend - istart) dot @ drop iend line)
      }
      else Some line)"

fun mark_lists :: "memarea \<Rightarrow> nat \<Rightarrow> nat list \<Rightarrow> bytes \<Rightarrow> bytes option" where
  "mark_lists ma len [] line = Some line"
| "mark_lists ma len (m # ms) line =
     do { line \<leftarrow> mark_free ma len m (ma_freelist ma ! m) line; mark_lists ma len ms line }"

definition print_mem_line :: "memarea \<Rightarrow> nat \<Rightarrow> bytes \<Rightarrow> bytes option" where
  "print_mem_line ma len out =
     do {
       line \<leftarrow> mark_lists ma len [ma_lower ma..<Suc (ma_upper ma)] (replicate len star @ [0]);
       t \<leftarrow> format_text (chars ''%s'' @ [10, 0]) [Str line];
       Some (out @ t)
     }"

subsection \<open>The random test\<close>

record 'r buddy_test =
  bt_area :: memarea
  bt_allocated :: "u32 list"
  bt_got :: nat
  bt_rand :: 'r
  bt_out :: bytes

definition malloc_probability :: nat where "malloc_probability = 50"

text \<open>One iteration, without the delay, which is compiled out.\<close>

definition test_alloc :: "('r \<Rightarrow> nat \<times> 'r) \<Rightarrow> 'r buddy_test \<Rightarrow> 'r buddy_test option" where
  "test_alloc rand s =
     do {
       let (x, r) = rand (bt_rand s);
       let nbytes = of_nat (x mod (2 * 1024 * 1024));
       (ptr, ma) \<leftarrow> buddy_alloc True (bt_area s) nbytes;
       assert_c (bt_got s < length (bt_allocated s));
       Some (s\<lparr>bt_area := ma, bt_allocated := (bt_allocated s)[bt_got s := ptr],
               bt_got := (if ptr \<noteq> 0 then Suc (bt_got s) else bt_got s), bt_rand := r\<rparr>)
     }"

definition test_free :: "('r \<Rightarrow> nat \<times> 'r) \<Rightarrow> 'r buddy_test \<Rightarrow> 'r buddy_test option" where
  "test_free rand s =
     do {
       let (x, r) = rand (bt_rand s);
       let index = x mod bt_got s;
       let a = bt_allocated s;
       ma \<leftarrow> buddy_free (bt_area s) (a ! index);
       Some (s\<lparr>bt_area := ma, bt_rand := r,
               bt_allocated := take index a @ take (bt_got s - index - 1) (drop (Suc index) a) @ drop (bt_got s - 1) a,
               bt_got := bt_got s - 1\<rparr>)
     }"

definition test_step :: "('r \<Rightarrow> nat \<times> 'r) \<Rightarrow> 'r buddy_test \<Rightarrow> 'r buddy_test option" where
  "test_step rand s =
     do {
       let (x, r) = rand (bt_rand s);
       let s = s\<lparr>bt_rand := r\<rparr>;
       s \<leftarrow> (if x mod 100 < malloc_probability \<or> bt_got s = 0 then test_alloc rand s else test_free rand s);
       out \<leftarrow> print_mem_line (bt_area s) 128 (bt_out s);
       Some (s\<lparr>bt_out := out\<rparr>)
     }"

fun test_loop :: "nat \<Rightarrow> ('r \<Rightarrow> nat \<times> 'r) \<Rightarrow> 'r buddy_test \<Rightarrow> 'r buddy_test option" where
  "test_loop 0 rand s = Some s"
| "test_loop (Suc n) rand s = do { s \<leftarrow> test_step rand s; test_loop n rand s }"

text \<open>
  \<open>main\<close>: \<open>membase\<close> and \<open>blocks\<close> are the results of \<open>malloc\<close>, \<open>junk\<close> is the array \<open>allocated\<close> before it is written, and \<open>seed\<close> the state of the
  generator after \<open>srand(1)\<close>. The memory of the area is set to 0.
\<close>

definition iterations :: nat where "iterations = 40000"

definition test_main :: "('r \<Rightarrow> nat \<times> 'r) \<Rightarrow> 'r \<Rightarrow> u32 \<Rightarrow> blockinfo list \<Rightarrow> u32 list \<Rightarrow> 'r buddy_test option" where
  "test_main rand seed membase blocks junk =
     (let sizepow2 = 25;
          ma = buddy_init sizepow2 membase (\<lambda>_. 0) blocks
      in test_loop iterations rand \<lparr>bt_area = ma, bt_allocated = junk, bt_got = 0, bt_rand = seed, bt_out = []\<rparr>)"

subsection \<open>The picture\<close>

text \<open>
  The mark for a block covers the characters whose last byte lies in the block. When a character stands for \<open>c\<close> bytes, it is
  a dot exactly if the last of these is free.
\<close>

lemma div_marks:
  fixes c :: nat
  assumes "0 < c"
  shows "b div c \<le> i \<and> i < e div c \<longleftrightarrow> b \<le> i * c + (c - 1) \<and> i * c + (c - 1) < e"
proof -
  have "b div c \<le> i \<longleftrightarrow> b < Suc i * c" using assms div_less_iff_less_mult [of c b "Suc i"] by (simp add: less_Suc_eq_le)
  moreover have "i < e div c \<longleftrightarrow> Suc i * c \<le> e" using assms less_eq_div_iff_mult_less_eq [of c "Suc i" e] by (simp add: Suc_le_eq)
  ultimately show ?thesis using assms by auto
qed

lemma cut_replicate_nth:
  assumes "s \<le> e" "e \<le> length l" "i < length l"
  shows "(take s l @ replicate (e - s) x @ drop e l) ! i = (if s \<le> i \<and> i < e then x else l ! i)"
  using assms by (auto simp: nth_append)

lemma scale_div: "2 ^ j * c = (n::nat) \<Longrightarrow> 0 < c \<Longrightarrow> x * 2 ^ j div n = x div c"
  by (metis div_mult_mult1 mult.commute power_not_zero zero_neq_numeral)

lemma mark_free_chain:
  assumes "chain (ma_links ma) v bs" "\<forall>b\<in>set bs. b + 2 ^ m \<le> 2 ^ ma_upper ma" "2 ^ j * c = (2::nat) ^ ma_upper ma" "0 < c" "2 ^ j \<le> length line"
  shows "\<exists>line'. mark_free ma (2 ^ j) m v line = Some line' \<and> length line' = length line \<and>
    (\<forall>i < length line. line' ! i = (if \<exists>b\<in>set bs. b \<le> i * c + (c - 1) \<and> i * c + (c - 1) < b + 2 ^ m then dot else line ! i))"
  using assms
proof (induction bs arbitrary: v line)
  case Nil
  then show ?case by (subst mark_free.simps) simp
next
  case (Cons b bs)
  let ?s = "b * 2 ^ j div 2 ^ ma_upper ma" and ?e = "(b + 2 ^ m) * 2 ^ j div 2 ^ ma_upper ma"
  let ?l = "take ?s line @ replicate (?e - ?s) dot @ drop ?e line"
  have sc: "?s = b div c" "?e = (b + 2 ^ m) div c" by (rule scale_div [OF Cons.prems(3,4)])+
  have "?e \<le> 2 ^ ma_upper ma div c" unfolding sc by (rule div_le_mono) (use Cons.prems(2) in simp)
  also have "\<dots> = 2 ^ j" using Cons.prems(3,4) by (metis nonzero_mult_div_cancel_right not_gr_zero)
  finally have e: "?s \<le> ?e" "?e \<le> length line" using Cons.prems(5) sc by (simp_all add: div_le_mono)
  then have l: "length ?l = length line" by simp
  from Cons.IH [of "ma_links ma b" ?l] Cons.prems l obtain line' where
    r: "mark_free ma (2 ^ j) m (ma_links ma b) ?l = Some line'" "length line' = length line"
      "\<forall>i < length line. line' ! i = (if \<exists>b\<in>set bs. b \<le> i * c + (c - 1) \<and> i * c + (c - 1) < b + 2 ^ m then dot else ?l ! i)" by auto
  have "mark_free ma (2 ^ j) m v line = Some line'"
    by (subst mark_free.simps) (use Cons.prems(1,2) e r(1) in \<open>simp add: Let_def\<close>)
  moreover have "?l ! i = (if b \<le> i * c + (c - 1) \<and> i * c + (c - 1) < b + 2 ^ m then dot else line ! i)" if "i < length line" for i
    unfolding cut_replicate_nth [OF e that] unfolding sc div_marks [OF Cons.prems(4)] ..
  ultimately show ?case using r(2,3) by (intro exI [of _ line']) auto
qed

lemma mark_lists_chain:
  assumes "\<forall>m\<in>set ms. chain (ma_links ma) (ma_freelist ma ! m) (F m) \<and> (\<forall>b\<in>set (F m). b + 2 ^ m \<le> 2 ^ ma_upper ma)"
    "2 ^ j * c = (2::nat) ^ ma_upper ma" "0 < c" "2 ^ j \<le> length line"
  shows "\<exists>line'. mark_lists ma (2 ^ j) ms line = Some line' \<and> length line' = length line \<and>
    (\<forall>i < length line. line' ! i =
      (if \<exists>m\<in>set ms. \<exists>b\<in>set (F m). b \<le> i * c + (c - 1) \<and> i * c + (c - 1) < b + 2 ^ m then dot else line ! i))"
  using assms
proof (induction ms arbitrary: line)
  case (Cons m ms)
  from mark_free_chain [of ma "ma_freelist ma ! m" "F m" m j c line] Cons.prems obtain l1 where
    1: "mark_free ma (2 ^ j) m (ma_freelist ma ! m) line = Some l1" "length l1 = length line"
      "\<forall>i < length line. l1 ! i = (if \<exists>b\<in>set (F m). b \<le> i * c + (c - 1) \<and> i * c + (c - 1) < b + 2 ^ m then dot else line ! i)" by auto
  with Cons.IH [of l1] Cons.prems obtain l2 where
    2: "mark_lists ma (2 ^ j) ms l1 = Some l2" "length l2 = length line"
      "\<forall>i < length line. l2 ! i =
        (if \<exists>m\<in>set ms. \<exists>b\<in>set (F m). b \<le> i * c + (c - 1) \<and> i * c + (c - 1) < b + 2 ^ m then dot else l1 ! i)" by auto
  have "mark_lists ma (2 ^ j) (m # ms) line = Some l2" using 1(1) 2(1) by simp
  with 1(3) 2(2,3) show ?case by (intro exI [of _ l2]) auto
qed simp

text \<open>The line that shows an area.\<close>

definition free_byte :: "memarea \<Rightarrow> nat \<Rightarrow> bool" where
  "free_byte ma x \<longleftrightarrow> (\<exists>b m. block_table ma b = Some (m, False) \<and> b \<le> x \<and> x < b + 2 ^ m)"

definition mem_picture :: "memarea \<Rightarrow> nat \<Rightarrow> bytes" where
  "mem_picture ma len = map (\<lambda>i. if free_byte ma (Suc i * (2 ^ ma_upper ma div len) - 1) then dot else star) [0..<len]"

lemma print_mem_line_picture:
  assumes inv: "buddy_inv ma" and j: "j \<le> ma_upper ma"
  shows "print_mem_line ma (2 ^ j) out = Some (out @ mem_picture ma (2 ^ j) @ [10])"
proof -
  define c :: nat where "c = 2 ^ (ma_upper ma - j)"
  have c: "2 ^ j * c = (2::nat) ^ ma_upper ma" "0 < c" "2 ^ ma_upper ma div 2 ^ j = c"
  proof -
    show "2 ^ j * c = (2::nat) ^ ma_upper ma" using j by (simp add: c_def flip: power_add)
    show "2 ^ ma_upper ma div 2 ^ j = c" using j by (simp add: c_def power_diff)
  qed (simp add: c_def)
  from inv obtain F where F: "rep ma (block_table ma) F {}" by (rule buddy_invE)
  note R = repD [OF F]
  let ?ms = "[ma_lower ma..<Suc (ma_upper ma)]" and ?line = "replicate (2 ^ j) star @ [0]"
  have free: "b \<in> set (F m) \<longleftrightarrow> block_table ma b = Some (m, False)" for b m using R(5) [of m] by simp
  have area: "in_area (ma_lower ma) (ma_upper ma) b m" if "block_table ma b = Some (m, False)" for b m by (rule rep_lookup(4) [OF F that])
  have "\<forall>m\<in>set ?ms. chain (ma_links ma) (ma_freelist ma ! m) (F m) \<and> (\<forall>b\<in>set (F m). b + 2 ^ m \<le> 2 ^ ma_upper ma)"
    using R(1,4) area free by (auto simp: lists_def geom_def in_area_def)
  from mark_lists_chain [OF this c(1,2), of ?line] obtain l where
    l: "mark_lists ma (2 ^ j) ?ms ?line = Some l" "length l = Suc (2 ^ j)"
      "\<forall>i < Suc (2 ^ j). l ! i =
        (if \<exists>m\<in>set ?ms. \<exists>b\<in>set (F m). b \<le> i * c + (c - 1) \<and> i * c + (c - 1) < b + 2 ^ m then dot else ?line ! i)" by auto
  have ex: "(\<exists>m\<in>set ?ms. \<exists>b\<in>set (F m). b \<le> x \<and> x < b + 2 ^ m) \<longleftrightarrow> free_byte ma x" for x
  proof -
    have "m \<in> set ?ms" if "block_table ma b = Some (m, False)" for b m using area [OF that] by (auto simp: in_area_def)
    then show ?thesis unfolding free_byte_def Bex_def free by blast
  qed
  have last: "\<not> free_byte ma (2 ^ j * c + (c - 1))"
    unfolding free_byte_def c(1)
  proof clarify
    fix b m assume "block_table ma b = Some (m, False)" "2 ^ ma_upper ma + (c - 1) < b + 2 ^ m"
    with area [of b m] show False by (simp add: in_area_def)
  qed
  have pos: "i * c + (c - 1) = Suc i * c - 1" for i using c(2) by simp
  have "l = mem_picture ma (2 ^ j) @ [0]"
  proof (rule nth_equalityI)
    fix i assume "i < length l"
    then have i: "i < Suc (2 ^ j)" using l(2) by simp
    show "l ! i = (mem_picture ma (2 ^ j) @ [0]) ! i"
    proof (cases "i = 2 ^ j")
      case True
      with l(3) i ex last show ?thesis by (simp add: nth_append mem_picture_def)
    next
      case False
      with i have "i < 2 ^ j" by simp
      with l(3) i show ?thesis unfolding ex pos by (simp add: nth_append mem_picture_def c(3))
    qed
  qed (use l(2) in \<open>simp add: mem_picture_def\<close>)
  moreover have "0 \<notin> set (mem_picture ma (2 ^ j))" by (auto simp: mem_picture_def dot_def star_def)
  then have "format_text (chars ''%s'' @ [10, 0]) [Str (mem_picture ma (2 ^ j) @ [0])] = Some (mem_picture ma (2 ^ j) @ [10])"
    by (simp add: chars_def field_text_def padded_def spaces_def is_digit_def Let_def cstr_append_0 terminated_def)
  ultimately show ?thesis using l(1) by (simp add: print_mem_line_def)
qed

subsection \<open>The run\<close>

text \<open>The pointers that the test holds are those of the blocks in use.\<close>

definition test_inv :: "'r buddy_test \<Rightarrow> bool" where
  "test_inv s \<longleftrightarrow> buddy_inv (bt_area s) \<and> 7 \<le> ma_upper (bt_area s) \<and> bt_got s \<le> length (bt_allocated s) \<and>
     distinct (take (bt_got s) (bt_allocated s)) \<and>
     set (take (bt_got s) (bt_allocated s)) = (\<lambda>(b, m). of_nat b + ma_mem (bt_area s)) ` used_blocks (bt_area s)"

lemma buddy_init_upper: "ma_upper (buddy_init p base lk bs) = p"
  by (simp add: buddy_init_def Let_def)

lemma used_pointer_inj:
  assumes inv: "buddy_inv ma" and u: "(b, m) \<in> used_blocks ma" "(b', m') \<in> used_blocks ma"
    and eq: "of_nat b + ma_mem ma = of_nat b' + ma_mem ma"
  shows "b = b' \<and> m = m'"
proof -
  have "unat (ma_mem ma) + b = unat (ma_mem ma) + b'"
    unfolding used_block_pointer(3) [OF inv u(1), symmetric] used_block_pointer(3) [OF inv u(2), symmetric] eq ..
  then have "b = b'" by simp
  with u show ?thesis by (simp add: used_blocks_iff)
qed

lemma test_alloc_inv:
  assumes inv: "test_inv s" and room: "bt_got s < length (bt_allocated s)"
  shows "\<exists>s'. test_alloc rand s = Some s' \<and> test_inv s' \<and> bt_got s' \<le> Suc (bt_got s) \<and>
    length (bt_allocated s') = length (bt_allocated s) \<and> bt_out s' = bt_out s \<and> ma_upper (bt_area s') = ma_upper (bt_area s)"
proof -
  obtain x r where r: "rand (bt_rand s) = (x, r)" by (cases "rand (bt_rand s)")
  let ?n = "of_nat (x mod (2 * 1024 * 1024)) :: u32" and ?ma = "bt_area s" and ?g = "bt_got s" and ?a = "bt_allocated s"
  have I: "buddy_inv ?ma" "distinct (take ?g ?a)" "set (take ?g ?a) = (\<lambda>(b, m). of_nat b + ma_mem ?ma) ` used_blocks ?ma"
    "7 \<le> ma_upper ?ma" using inv by (simp_all add: test_inv_def)
  have "x mod 2097152 < 2097152" by simp
  then have "x mod 2097152 < 4294967296" "x mod 2097152 < 2147483648" by linarith+
  then have "unat ?n < 2 ^ 31" by (simp add: unat_of_nat)
  then obtain m where m: "mforsize ?ma ?n = Some m" by (rule mforsize_spec)
  have "(\<exists>b ma'. buddy_alloc True ?ma ?n = Some (of_nat b + ma_mem ?ma, ma') \<and> buddy_inv ma' \<and> same_area ?ma ma' \<and>
      used_blocks ma' = insert (b, m) (used_blocks ?ma) \<and> (\<forall>k. (b, k) \<notin> used_blocks ?ma)) \<or> buddy_alloc True ?ma ?n = Some (0, ?ma)"
    using buddy_alloc_inv [OF I(1) m, of True] by (simp split: if_splits) blast
  then show ?thesis
  proof (elim disjE exE conjE)
    fix b ma' assume b: "buddy_alloc True ?ma ?n = Some (of_nat b + ma_mem ?ma, ma')" "buddy_inv ma'" "same_area ?ma ma'"
      "used_blocks ma' = insert (b, m) (used_blocks ?ma)" "\<forall>k. (b, k) \<notin> used_blocks ?ma"
    have mem: "ma_mem ma' = ma_mem ?ma" "ma_upper ma' = ma_upper ?ma" using b(3) by (simp_all add: same_area_def)
    have p: "of_nat b + ma_mem ?ma \<noteq> 0"
      using used_block_pointer(2) [OF b(2), of b m] b(4) mem by simp
    have new: "of_nat b + ma_mem ?ma \<notin> set (take ?g ?a)"
    proof
      assume "of_nat b + ma_mem ?ma \<in> set (take ?g ?a)"
      then obtain b' k where k: "(b', k) \<in> used_blocks ?ma" "of_nat b + ma_mem ?ma = of_nat b' + ma_mem ?ma" unfolding I(3) by auto
      have "b = b' \<and> m = k" by (rule used_pointer_inj [OF b(2)]) (use k b(4) mem(1) in auto)
      with k(1) b(5) show False by blast
    qed
    let ?a' = "?a[?g := of_nat b + ma_mem ?ma]"
    have t: "take (Suc ?g) ?a' = take ?g ?a @ [of_nat b + ma_mem ?ma]" using room by (simp add: take_Suc_conv_app_nth)
    have "test_alloc rand s = Some (s\<lparr>bt_area := ma', bt_allocated := ?a', bt_got := Suc ?g, bt_rand := r\<rparr>)"
      using r b(1) p room by (simp add: test_alloc_def)
    moreover have "test_inv (s\<lparr>bt_area := ma', bt_allocated := ?a', bt_got := Suc ?g, bt_rand := r\<rparr>)"
      using I(2,4) b(2,4) room new mem I(3) by (simp add: test_inv_def t)
    ultimately show ?thesis using mem by simp
  next
    assume "buddy_alloc True ?ma ?n = Some (0, ?ma)"
    with r room inv show ?thesis by (simp add: test_alloc_def test_inv_def)
  qed
qed

lemma drop_at:
  assumes "i < n" "n \<le> length (a :: 'x list)"
  shows "take (n - 1) (take i a @ take (n - i - 1) (drop (Suc i) a) @ drop (n - 1) a) = take i (take n a) @ drop (Suc i) (take n a)"
    "take n a = take i (take n a) @ a ! i # drop (Suc i) (take n a)"
    "length (take i a @ take (n - i - 1) (drop (Suc i) a) @ drop (n - 1) a) = length a"
proof -
  show "take (n - 1) (take i a @ take (n - i - 1) (drop (Suc i) a) @ drop (n - 1) a) = take i (take n a) @ drop (Suc i) (take n a)"
  proof -
    have "n - 1 = i \<or> \<not> n - 1 \<le> i" using assms by linarith
    with assms show ?thesis by (auto simp: take_drop min_def)
  qed
  show "take n a = take i (take n a) @ a ! i # drop (Suc i) (take n a)" using id_take_nth_drop [of i "take n a"] assms by simp
qed (use assms in simp)

lemma test_free_inv:
  assumes inv: "test_inv s" and g: "bt_got s \<noteq> 0"
  shows "\<exists>s'. test_free rand s = Some s' \<and> test_inv s' \<and> bt_got s' \<le> bt_got s \<and>
    length (bt_allocated s') = length (bt_allocated s) \<and> bt_out s' = bt_out s \<and> ma_upper (bt_area s') = ma_upper (bt_area s)"
proof -
  obtain x r where r: "rand (bt_rand s) = (x, r)" by (cases "rand (bt_rand s)")
  let ?ma = "bt_area s" and ?g = "bt_got s" and ?a = "bt_allocated s" and ?i = "x mod bt_got s"
  have i: "?i < ?g" using g by simp
  have I: "buddy_inv ?ma" "distinct (take ?g ?a)" "set (take ?g ?a) = (\<lambda>(b, m). of_nat b + ma_mem ?ma) ` used_blocks ?ma"
    "7 \<le> ma_upper ?ma" "?g \<le> length ?a" using inv by (simp_all add: test_inv_def)
  note D = drop_at [OF i I(5)]
  let ?t = "take ?i (take ?g ?a) @ drop (Suc ?i) (take ?g ?a)"
  have dt: "?a ! ?i \<notin> set ?t" "distinct ?t" "set (take ?g ?a) = insert (?a ! ?i) (set ?t)"
  proof -
    from I(2) D(2) have "distinct (take ?i (take ?g ?a) @ ?a ! ?i # drop (Suc ?i) (take ?g ?a))" by (simp only:)
    then show "?a ! ?i \<notin> set ?t" "distinct ?t" by auto
    show "set (take ?g ?a) = insert (?a ! ?i) (set ?t)" by (subst D(2)) simp
  qed
  have "?a ! ?i \<in> (\<lambda>(b, m). of_nat b + ma_mem ?ma) ` used_blocks ?ma" using dt(3) unfolding I(3) by blast
  then obtain b m where b: "(b, m) \<in> used_blocks ?ma" "?a ! ?i = of_nat b + ma_mem ?ma" by auto
  from buddy_free_inv [OF I(1) b(1) [unfolded used_blocks_iff]] obtain ma' where
    f: "buddy_free ?ma (?a ! ?i) = Some ma'" "buddy_inv ma'" "used_blocks ma' = used_blocks ?ma - {(b, m)}" "same_area ?ma ma'"
    unfolding b(2) by blast
  have mem: "ma_mem ma' = ma_mem ?ma" "ma_upper ma' = ma_upper ?ma" using f(4) by (simp_all add: same_area_def)
  have inj: "inj_on (\<lambda>(b, m). of_nat b + ma_mem ?ma) (used_blocks ?ma)"
  proof (rule inj_onI, clarify)
    fix b m b' m' assume u: "(b, m) \<in> used_blocks ?ma" "(b', m') \<in> used_blocks ?ma" "of_nat b + ma_mem ?ma = of_nat b' + ma_mem ?ma"
    show "b = b' \<and> m = m'" by (rule used_pointer_inj [OF I(1) u])
  qed
  have "set ?t = set (take ?g ?a) - {?a ! ?i}" using dt(1,3) by blast
  also have "\<dots> = (\<lambda>(b, m). of_nat b + ma_mem ?ma) ` (used_blocks ?ma - {(b, m)})"
    unfolding I(3) using b by (subst inj_on_image_set_diff [OF inj]) auto
  finally have st: "set ?t = (\<lambda>(b, m). of_nat b + ma_mem ma') ` used_blocks ma'" using f(3) mem by simp
  define a' where "a' = take ?i ?a @ take (?g - ?i - 1) (drop (Suc ?i) ?a) @ drop (?g - 1) ?a"
  let ?s = "s\<lparr>bt_area := ma', bt_rand := r, bt_allocated := a', bt_got := ?g - 1\<rparr>"
  note a' = D(1,3) [folded a'_def]
  have "test_free rand s = Some ?s" using r f(1) by (simp add: test_free_def Let_def a'_def)
  moreover have "test_inv ?s"
  proof -
    have t: "take (bt_got ?s) (bt_allocated ?s) = ?t" "bt_got ?s \<le> length (bt_allocated ?s)" using a' I(5) by auto
    show ?thesis unfolding test_inv_def t(1) using f(2) mem I(4) dt(2) st t(2) by simp
  qed
  ultimately show ?thesis using mem a'(2) by (intro exI [of _ ?s]) simp
qed

lemma test_step_inv:
  assumes inv: "test_inv s" and room: "bt_got s < length (bt_allocated s)"
  shows "\<exists>s'. test_step rand s = Some s' \<and> test_inv s' \<and> bt_got s' \<le> Suc (bt_got s) \<and>
    length (bt_allocated s') = length (bt_allocated s) \<and> bt_out s' = bt_out s @ mem_picture (bt_area s') 128 @ [10]"
proof -
  obtain x r where r: "rand (bt_rand s) = (x, r)" by (cases "rand (bt_rand s)")
  let ?s = "s\<lparr>bt_rand := r\<rparr>"
  have "test_inv ?s" using inv by (simp add: test_inv_def)
  then have "\<exists>s'. (if x mod 100 < malloc_probability \<or> bt_got ?s = 0 then test_alloc rand ?s else test_free rand ?s) = Some s' \<and> test_inv s' \<and>
      bt_got s' \<le> Suc (bt_got s) \<and> length (bt_allocated s') = length (bt_allocated s) \<and> bt_out s' = bt_out s"
    using test_alloc_inv [of ?s rand] test_free_inv [of ?s rand] room by (fastforce simp: le_Suc_eq)
  then obtain s' where s': "(if x mod 100 < malloc_probability \<or> bt_got ?s = 0 then test_alloc rand ?s else test_free rand ?s) = Some s'"
    "test_inv s'" "bt_got s' \<le> Suc (bt_got s)" "length (bt_allocated s') = length (bt_allocated s)" "bt_out s' = bt_out s" by blast
  have "print_mem_line (bt_area s') 128 (bt_out s') = Some (bt_out s' @ mem_picture (bt_area s') 128 @ [10])"
    using print_mem_line_picture [of "bt_area s'" 7] s'(2) by (simp add: test_inv_def)
  then show ?thesis using s' r by (simp add: test_step_def test_inv_def)
qed

text \<open>
  C30: the random test of the allocator runs to its end, whatever the numbers of the generator are. No assertion of \<open>buddy.c\<close>
  fails, no access leaves the array \<open>allocated\<close>, and no free list is circular. After any number of iterations up to the size of
  the array the pointers that the test holds are distinct and are exactly those of the blocks in use, which are disjoint; and the line printed last
  has a dot for every 128th of the area whose last byte is free, and a star for the others.
\<close>

theorem buddy_test_runs:
  assumes base: "membase \<noteq> 0" "unat membase + 2 ^ 25 < 2 ^ 32" and arrays: "length blocks = buddy_nblocks 25"
    and n: "n \<le> length junk" and start: "s0 = \<lparr>bt_area = buddy_init 25 membase (\<lambda>_. 0) blocks, bt_allocated = junk, bt_got = 0,
      bt_rand = seed, bt_out = []\<rparr>"
  shows "\<exists>s. test_loop n rand s0 = Some s \<and> buddy_inv (bt_area s) \<and> distinct (take (bt_got s) (bt_allocated s)) \<and>
    set (take (bt_got s) (bt_allocated s)) = (\<lambda>(b, m). of_nat b + ma_mem (bt_area s)) ` used_blocks (bt_area s) \<and>
    (0 < n \<longrightarrow> (\<exists>out. bt_out s = out @ mem_picture (bt_area s) 128 @ [10]))"
proof -
  have "\<exists>s. test_loop n rand s0 = Some s \<and> test_inv s \<and> (0 < n \<longrightarrow> (\<exists>out. bt_out s = out @ mem_picture (bt_area s) 128 @ [10]))"
    if "test_inv s0" "bt_got s0 + n \<le> length (bt_allocated s0)" for s0 :: "'a buddy_test"
    using that
  proof (induction n arbitrary: s0)
    case (Suc n)
    then have "bt_got s0 < length (bt_allocated s0)" by simp
    from test_step_inv [OF Suc.prems(1) this, of rand] obtain s1 where s1: "test_step rand s0 = Some s1" "test_inv s1"
      "bt_got s1 \<le> Suc (bt_got s0)" "length (bt_allocated s1) = length (bt_allocated s0)"
      "bt_out s1 = bt_out s0 @ mem_picture (bt_area s1) 128 @ [10]" by blast
    have "bt_got s1 + n \<le> length (bt_allocated s1)" using s1(3,4) Suc.prems(2) by simp
    from Suc.IH [OF s1(2) this] s1(1,5) show ?case by (cases n) auto
  qed simp
  moreover have "buddy_inv (bt_area s0)" "used_blocks (bt_area s0) = {}"
    using buddy_init_inv(1,3) [OF _ _ arrays [unfolded buddy_nblocks_def DEFAULT_LOWER_def] base] by (simp_all add: start)
  then have "test_inv s0" "bt_got s0 + n \<le> length (bt_allocated s0)" using n by (simp_all add: start test_inv_def buddy_init_upper)
  ultimately obtain s where "test_loop n rand s0 = Some s" "test_inv s"
    "0 < n \<longrightarrow> (\<exists>out. bt_out s = out @ mem_picture (bt_area s) 128 @ [10])" by meson
  then show ?thesis by (intro exI [of _ s]) (simp add: test_inv_def)
qed

theorem buddy_test_runs_witness:
  "\<exists>s. test_loop 3 (\<lambda>r. (r, r * 3 + 1)) \<lparr>bt_area = buddy_init 25 4096 (\<lambda>_. 0) (replicate (buddy_nblocks 25) \<lparr>bi_sizem = 9, bi_used = True\<rparr>),
       bt_allocated = [7, 7, 7], bt_got = 0, bt_rand = 5, bt_out = []\<rparr> = Some s \<and>
     distinct (take (bt_got s) (bt_allocated s)) \<and> (\<exists>out. bt_out s = out @ mem_picture (bt_area s) 128 @ [10])"
proof -
  have "(4096::u32) \<noteq> 0" "unat (4096::u32) + 2 ^ 25 < 2 ^ 32"
    "length (replicate (buddy_nblocks 25) \<lparr>bi_sizem = 9, bi_used = True\<rparr>) = buddy_nblocks 25" "3 \<le> length [7, 7, 7 :: u32]" by simp_all
  from buddy_test_runs [OF this refl, of "\<lambda>r. (r, r * 3 + 1)" 5] obtain s where
    "test_loop 3 (\<lambda>r. (r, r * 3 + 1)) \<lparr>bt_area = buddy_init 25 4096 (\<lambda>_. 0) (replicate (buddy_nblocks 25) \<lparr>bi_sizem = 9, bi_used = True\<rparr>),
       bt_allocated = [7, 7, 7], bt_got = 0, bt_rand = 5, bt_out = []\<rparr> = Some s" "distinct (take (bt_got s) (bt_allocated s))"
    "\<exists>out. bt_out s = out @ mem_picture (bt_area s) 128 @ [10]" by (elim exE conjE impE) auto
  then show ?thesis by (intro exI [of _ s] conjI)
qed

end
