(* ===== verification/Tasks.thy ===== *)
theory Tasks
  imports Kernel_State Format
begin

text \<open>
  User programs that work together. A program is what it does next: a system call and how it goes on for each answer, or its end.
  Programs that do not end are infinite, so the type is coinductive. \<open>Return\<close> is the end of a function,
  \<open>Exit\<close> that of the process, and \<open>Spin\<close> a loop without a system call.

  A world of processes runs by interleaving: a step of the world is a step of any of its processes. What a call does is what the system
  calls of the kernel are proved to do: mailboxes hold at most eight messages in order (\<open>syscall_send\<close>, \<open>syscall_receive\<close>), the child of \<open>fork\<close> is
  the caller but for the answer 0 and has no messages, and a call that blocks is executed when it can return.
\<close>

subsection \<open>Programs\<close>

text \<open>
  A buffer for a message is its contents or an address outside of the process. \<open>Printf\<close> is \<open>printf\<close> with the call of
  \<open>write\<close> that it ends with; \<open>Read1\<close> reads one byte from descriptor 0.
\<close>

datatype buffer = Bytes bytes | Outside u32 nat

datatype call =
    Send int u32 buffer
  | Receive bool bool
  | Getpid
  | Geterrno
  | Fork
  | Kill int
  | Waitpid int
  | Printf bytes "va list"
  | Read1

record reply =
  rp_result :: int
  rp_msg :: message
  rp_byte :: u8

codatatype 'a prog = Return 'a | Exit int | Spin | Call call "reply \<Rightarrow> 'a prog"

text \<open>One program after another, and a loop: the body says whether the loop goes on with a new state or ends with a result.\<close>

primcorec after :: "'a prog \<Rightarrow> 'b prog \<Rightarrow> 'b prog" where
  "after m q =
     (case m of
        Return a \<Rightarrow> (case q of Return b \<Rightarrow> Return b | Exit n \<Rightarrow> Exit n | Spin \<Rightarrow> Spin | Call c k \<Rightarrow> Call c k)
      | Exit n \<Rightarrow> Exit n
      | Spin \<Rightarrow> Spin
      | Call c k \<Rightarrow> Call c (\<lambda>r. after (k r) q))"

primcorec loop_on :: "('s \<Rightarrow> ('s + 'a) prog) \<Rightarrow> ('s + 'a) prog \<Rightarrow> 'a prog" where
  "loop_on body m =
     (case m of
        Return x \<Rightarrow>
          (case x of
             Inr a \<Rightarrow> Return a
           | Inl s \<Rightarrow>
               (case body s of
                  Return y \<Rightarrow> (case y of Inr a \<Rightarrow> Return a | Inl t \<Rightarrow> Spin)
                | Exit n \<Rightarrow> Exit n
                | Spin \<Rightarrow> Spin
                | Call c k \<Rightarrow> Call c (\<lambda>r. loop_on body (k r))))
      | Exit n \<Rightarrow> Exit n
      | Spin \<Rightarrow> Spin
      | Call c k \<Rightarrow> Call c (\<lambda>r. loop_on body (k r)))"

definition loop :: "('s \<Rightarrow> ('s + 'a) prog) \<Rightarrow> 's \<Rightarrow> 'a prog" where
  "loop body s = loop_on body (Return (Inl s))"

lemma after_simps [simp]:
  "after (Return a) q = q" "after (Exit n) q = Exit n" "after Spin q = Spin"
  "after (Call c k) q = Call c (\<lambda>r. after (k r) q)"
  subgoal by (subst after.code) (simp split: prog.split)
  subgoal by (subst after.code) simp
  subgoal by (subst after.code) simp
  subgoal by (subst after.code) simp
  done

lemma loop_on_simps [simp]:
  "loop_on body (Return (Inr a)) = Return a" "loop_on body (Exit n) = Exit n" "loop_on body Spin = Spin"
  "loop_on body (Call c k) = Call c (\<lambda>r. loop_on body (k r))"
  subgoal by (subst loop_on.code) simp
  subgoal by (subst loop_on.code) simp
  subgoal by (subst loop_on.code) simp
  subgoal by (subst loop_on.code) simp
  done

lemma loop_call: "body s = Call c k \<Longrightarrow> loop body s = Call c (\<lambda>r. loop_on body (k r))"
  unfolding loop_def by (subst loop_on.code) simp

lemma loop_again [simp]: "loop_on body (Return (Inl s)) = loop body s"
  by (simp add: loop_def)

subsection \<open>Worlds\<close>

text \<open>
  A process that has exited stays until its parent has waited for it. Process ids are those of the kernel, 1 to 31; the parent of
  an orphan is \<open>-1\<close>. \<open>w_input\<close> are the bytes that can be read, \<open>w_out\<close> what has been printed.
\<close>

record task =
  t_prog :: "unit prog"
  t_inbox :: "message list"
  t_errno :: int
  t_parent :: int
  t_exited :: "int option"

record world =
  w_tasks :: "int \<Rightarrow> task option"
  w_input :: bytes
  w_out :: bytes

definition no_msg :: message where
  "no_msg = \<lparr>msg_from = 0, msg_tag = 0, msg_size = 0, msg_data = []\<rparr>"

definition answer :: "int \<Rightarrow> reply" where
  "answer n = \<lparr>rp_result = n, rp_msg = no_msg, rp_byte = 0\<rparr>"

definition put_task :: "int \<Rightarrow> task option \<Rightarrow> world \<Rightarrow> world" where
  "put_task i t w = w\<lparr>w_tasks := (w_tasks w)(i := t)\<rparr>"

definition mail :: "int \<Rightarrow> u32 \<Rightarrow> bytes \<Rightarrow> message" where
  "mail from tag d = \<lparr>msg_from = from, msg_tag = tag, msg_size = of_nat (length d), msg_data = d\<rparr>"

text \<open>The end of a process: its children lose their parent, and without a parent of its own it is gone.\<close>

definition orphan :: "int \<Rightarrow> world \<Rightarrow> world" where
  "orphan i w = w\<lparr>w_tasks := \<lambda>j. map_option (\<lambda>t. if t_parent t = i then t\<lparr>t_parent := - 1\<rparr> else t) (w_tasks w j)\<rparr>"

definition end_task :: "int \<Rightarrow> int \<Rightarrow> world \<Rightarrow> world" where
  "end_task i n w =
     (case w_tasks w i of
        None \<Rightarrow> w
      | Some t \<Rightarrow> put_task i (if t_parent t = - 1 then None else Some (t\<lparr>t_exited := Some n\<rparr>)) (orphan i w))"

text \<open>
  What a call of process \<open>i\<close> does, with the error number if it fails; \<open>None\<close> while it blocks. Messages to and \<open>kill\<close> on a process that has
  exited already use memory that the kernel has released, which is not described.
\<close>

datatype result = Fails int | Gives reply

definition send_call :: "int \<Rightarrow> int \<Rightarrow> u32 \<Rightarrow> buffer \<Rightarrow> world \<Rightarrow> (result \<times> world) option" where
  "send_call i to tag buf w =
     (case buf of
        Outside a n \<Rightarrow> Some (Fails EFAULT, w)
      | Bytes d \<Rightarrow>
          (case w_tasks w to of
             None \<Rightarrow> Some (Fails ESRCH, w)
           | Some t \<Rightarrow>
               if unat MAX_MESSAGE_SIZE < length d then Some (Fails EINVAL, w)
               else if t_exited t \<noteq> None then None
               else if length (t_inbox t) < 8
                 then Some (Gives (answer 0), put_task to (Some (t\<lparr>t_inbox := t_inbox t @ [mail i tag d]\<rparr>)) w)
               else Some (Fails ENOMEM, w)))"

definition receive_call :: "int \<Rightarrow> task \<Rightarrow> bool \<Rightarrow> bool \<Rightarrow> world \<Rightarrow> (result \<times> world) option" where
  "receive_call i t valid block w =
     (if \<not> valid then Some (Fails EFAULT, w)
      else case t_inbox t of
             m # ms \<Rightarrow> Some (Gives ((answer 0)\<lparr>rp_msg := m\<rparr>), put_task i (Some (t\<lparr>t_inbox := ms\<rparr>)) w)
           | [] \<Rightarrow> if block then None else Some (Fails EAGAIN, w))"

definition kill_call :: "int \<Rightarrow> world \<Rightarrow> (result \<times> world) option" where
  "kill_call p w =
     (case w_tasks w p of
        None \<Rightarrow> Some (Fails ESRCH, w)
      | Some t \<Rightarrow> if t_exited t \<noteq> None then None else Some (Gives (answer 0), end_task p 0 w))"

definition waitpid_call :: "int \<Rightarrow> int \<Rightarrow> world \<Rightarrow> (result \<times> world) option" where
  "waitpid_call i p w =
     (case w_tasks w p of
        None \<Rightarrow> Some (Fails ECHILD, w)
      | Some t \<Rightarrow>
          if t_parent t \<noteq> i then Some (Fails ECHILD, w)
          else if t_exited t \<noteq> None then Some (Gives (answer p), put_task p None w)
          else None)"

definition kernel_call :: "int \<Rightarrow> task \<Rightarrow> call \<Rightarrow> world \<Rightarrow> (result \<times> world) option" where
  "kernel_call i t c w =
     (case c of
        Send to tag buf \<Rightarrow> send_call i to tag buf w
      | Receive valid block \<Rightarrow> receive_call i t valid block w
      | Getpid \<Rightarrow> Some (Gives (answer i), w)
      | Geterrno \<Rightarrow> Some (Gives (answer (t_errno t)), w)
      | Fork \<Rightarrow> None
      | Kill p \<Rightarrow> kill_call p w
      | Waitpid p \<Rightarrow> waitpid_call i p w
      | Printf format ap \<Rightarrow> do { u \<leftarrow> format_text format ap; Some (Gives (answer (int (length u))), w\<lparr>w_out := w_out w @ u\<rparr>) }
      | Read1 \<Rightarrow> (case w_input w of [] \<Rightarrow> None | b # bs \<Rightarrow> Some (Gives ((answer 1)\<lparr>rp_byte := b\<rparr>), w\<lparr>w_input := bs\<rparr>)))"

text \<open>The process goes on with the answer; \<open>errno\<close> is set by every call but \<open>geterrno\<close>.\<close>

definition go_on :: "int \<Rightarrow> call \<Rightarrow> (reply \<Rightarrow> unit prog) \<Rightarrow> result \<Rightarrow> world \<Rightarrow> world" where
  "go_on i c k r w =
     (case w_tasks w i of
        None \<Rightarrow> w
      | Some t \<Rightarrow>
          (case r of
             Fails e \<Rightarrow> put_task i (Some (t\<lparr>t_prog := k (answer (- 1)), t_errno := e\<rparr>)) w
           | Gives a \<Rightarrow> put_task i (Some (t\<lparr>t_prog := k a, t_errno := (if c = Geterrno then t_errno t else 0)\<rparr>)) w))"

definition free_pid :: "world \<Rightarrow> int option" where
  "free_pid w = find (\<lambda>p. w_tasks w p = None) (map int [1..<MAX_PROCESSES])"

definition fork_call :: "int \<Rightarrow> (reply \<Rightarrow> unit prog) \<Rightarrow> world \<Rightarrow> world" where
  "fork_call i k w =
     (case free_pid w of
        None \<Rightarrow> go_on i Fork k (Fails EAGAIN) w
      | Some p \<Rightarrow>
          put_task p (Some \<lparr>t_prog = k (answer 0), t_inbox = [], t_errno = 0, t_parent = i, t_exited = None\<rparr>)
            (go_on i Fork k (Gives (answer p)) w))"

definition task_step :: "int \<Rightarrow> world \<Rightarrow> world option" where
  "task_step i w =
     (case w_tasks w i of
        None \<Rightarrow> None
      | Some t \<Rightarrow>
          if t_exited t \<noteq> None then None
          else case t_prog t of
                 Return _ \<Rightarrow> None
               | Exit n \<Rightarrow> Some (end_task i n w)
               | Spin \<Rightarrow> Some w
               | Call c k \<Rightarrow>
                   if c = Fork then Some (fork_call i k w)
                   else do { (r, w') \<leftarrow> kernel_call i t c w; Some (go_on i c k r w') })"

text \<open>\<open>runs n w v\<close>: after \<open>n\<close> steps of processes in \<open>w\<close>, in any order, the world is \<open>v\<close>.\<close>

inductive runs :: "nat \<Rightarrow> world \<Rightarrow> world \<Rightarrow> bool" where
  runs_none: "runs 0 w w"
| runs_step: "runs n w v \<Longrightarrow> task_step i v = Some u \<Longrightarrow> runs (Suc n) w u"

inductive_cases runs_SucE: "runs (Suc n) w u"

subsection \<open>The steps\<close>

lemma w_tasks_put [simp]: "w_tasks (put_task i t w) = (w_tasks w)(i := t)" "w_out (put_task i t w) = w_out w"
  "w_input (put_task i t w) = w_input w" "put_task i s (put_task i t w) = put_task i s w"
  by (simp_all add: put_task_def)

lemma answer_simps [simp]: "rp_result (answer n) = n" "rp_msg (answer n) = no_msg"
  by (simp_all add: answer_def)

lemma mail_simps [simp]: "msg_from (mail f tag d) = f" "msg_tag (mail f tag d) = tag" "msg_size (mail f tag d) = of_nat (length d)"
  "msg_data (mail f tag d) = d"
  by (simp_all add: mail_def)


lemma step_printf:
  assumes at: "w_tasks w i = Some t" "t_exited t = None"
    and a: "t_prog t = Call (Printf format ap) k" "format_text format ap = Some u"
  shows "task_step i w =
    Some (put_task i (Some (t\<lparr>t_prog := k (answer (int (length u))), t_errno := 0\<rparr>)) (w\<lparr>w_out := w_out w @ u\<rparr>))"
  using at a by (simp add: task_step_def kernel_call_def go_on_def)

lemma step_getpid: "w_tasks w i = Some t \<Longrightarrow> t_exited t = None \<Longrightarrow> t_prog t = Call Getpid k \<Longrightarrow> task_step i w = Some (put_task i (Some (t\<lparr>t_prog := k (answer i), t_errno := 0\<rparr>)) w)"
  by (simp add: task_step_def kernel_call_def go_on_def)

lemma step_geterrno: "w_tasks w i = Some t \<Longrightarrow> t_exited t = None \<Longrightarrow> t_prog t = Call Geterrno k \<Longrightarrow> task_step i w = Some (put_task i (Some (t\<lparr>t_prog := k (answer (t_errno t))\<rparr>)) w)"
  by (simp add: task_step_def kernel_call_def go_on_def)

lemma step_send:
  assumes at: "w_tasks w i = Some t" "t_exited t = None"
    and a: "t_prog t = Call (Send to tag (Bytes d)) k" "w_tasks w to = Some t'" "t_exited t' = None" "length (t_inbox t') < 8"
    "length d \<le> 1024" "to \<noteq> i"
  shows "task_step i w = Some (put_task i (Some (t\<lparr>t_prog := k (answer 0), t_errno := 0\<rparr>))
    (put_task to (Some (t'\<lparr>t_inbox := t_inbox t' @ [mail i tag d]\<rparr>)) w))"
  using at a by (simp add: task_step_def kernel_call_def send_call_def go_on_def)

lemma step_receive:
  assumes at: "w_tasks w i = Some t" "t_exited t = None"
    and a: "t_prog t = Call (Receive True b) k" "t_inbox t = m # ms"
  shows "task_step i w = Some (put_task i (Some (t\<lparr>t_inbox := ms, t_prog := k ((answer 0)\<lparr>rp_msg := m\<rparr>), t_errno := 0\<rparr>)) w)"
  using at a by (simp add: task_step_def kernel_call_def receive_call_def go_on_def)

lemma step_blocked: "w_tasks w i = Some t \<Longrightarrow> t_exited t = None \<Longrightarrow> t_prog t = Call (Receive True True) k \<Longrightarrow> t_inbox t = [] \<Longrightarrow> task_step i w = None"
  by (simp add: task_step_def kernel_call_def receive_call_def)

lemma step_fork:
  assumes at: "w_tasks w i = Some t" "t_exited t = None"
    and a: "t_prog t = Call Fork k" "free_pid w = Some p" "p \<noteq> i"
  shows "task_step i w = Some (put_task p (Some \<lparr>t_prog = k (answer 0), t_inbox = [], t_errno = 0, t_parent = i, t_exited = None\<rparr>)
    (put_task i (Some (t\<lparr>t_prog := k (answer p), t_errno := 0\<rparr>)) w))"
  using at a by (simp add: task_step_def fork_call_def go_on_def)

lemma step_kill:
  assumes at: "w_tasks w i = Some t" "t_exited t = None"
    and a: "t_prog t = Call (Kill p) k" "w_tasks w p = Some t'" "t_exited t' = None" "p \<noteq> i" "t_parent t' = i" "i \<noteq> - 1"
    "\<forall>j t. w_tasks w j = Some t \<longrightarrow> t_parent t \<noteq> p"
  shows "task_step i w = Some (put_task i (Some (t\<lparr>t_prog := k (answer 0), t_errno := 0\<rparr>)) (put_task p (Some (t'\<lparr>t_exited := Some 0\<rparr>)) w))"
proof -
  have "orphan p w = w" using a(7) unfolding orphan_def
    by (auto intro!: world.equality ext simp: map_option_case split: option.splits)
  then show ?thesis using at a(1-6) by (simp add: task_step_def kernel_call_def kill_call_def end_task_def go_on_def)
qed

lemma step_waitpid:
  assumes at: "w_tasks w i = Some t" "t_exited t = None"
    and a: "t_prog t = Call (Waitpid p) k" "w_tasks w p = Some t'" "t_exited t' \<noteq> None" "p \<noteq> i" "t_parent t' = i"
  shows "task_step i w = Some (put_task i (Some (t\<lparr>t_prog := k (answer p), t_errno := 0\<rparr>)) (put_task p None w))"
  using at a by (simp add: task_step_def kernel_call_def waitpid_call_def go_on_def)

lemma step_return: "w_tasks w i = Some t \<Longrightarrow> t_exited t = None \<Longrightarrow> t_prog t = Return x \<Longrightarrow> task_step i w = None"
  by (simp add: task_step_def)

lemma step_dead: "w_tasks w i = None \<or> (\<exists>t. w_tasks w i = Some t \<and> t_exited t \<noteq> None) \<Longrightarrow> task_step i w = None"
  by (auto simp: task_step_def)

lemma free_pid_found:
  assumes "finite D" "card D < 31" "\<forall>p. p \<notin> D \<longrightarrow> w_tasks w p = None"
  obtains p where "free_pid w = Some p" "w_tasks w p = None" "1 \<le> p"
proof (cases "free_pid w")
  case None
  then have "\<forall>p\<in>set (map int [1..<MAX_PROCESSES]). w_tasks w p \<noteq> None" unfolding free_pid_def find_None_iff by meson
  then have "set (map int [1..<MAX_PROCESSES]) \<subseteq> D" using assms(3) by blast
  then have "card (set (map int [1..<MAX_PROCESSES])) \<le> card D" using assms(1) by (rule card_mono [rotated])
  moreover have "card (set (map int [1..<MAX_PROCESSES])) = 31" by (subst distinct_card) (simp_all add: distinct_map)
  ultimately show thesis using assms(2) by simp
next
  case (Some p)
  then show thesis using that [of p] by (auto simp: free_pid_def find_Some_iff)
qed

end
