(* ===== verification/Mptest.thy ===== *)
theory Mptest
  imports Tasks
begin

text \<open>
  The message passing tests, \<^verbatim>\<open>source/mptest.c\<close>. Functions take what follows their return as an argument; a format is a
  list of bytes, with a newline in it as 10.
\<close>

definition TAG_TEST :: u32 where [simp]: "TAG_TEST = 1"
definition TAG_PING :: u32 where [simp]: "TAG_PING = 2"
definition TAG_PONG :: u32 where [simp]: "TAG_PONG = 3"
definition TAG_COMMAND :: u32 where [simp]: "TAG_COMMAND = 4"
definition TAG_RESPONSE :: u32 where [simp]: "TAG_RESPONSE = 5"
definition TAG_NEIGHBOUR :: u32 where [simp]: "TAG_NEIGHBOUR = 6"
definition TAG_TOKEN :: u32 where [simp]: "TAG_TOKEN = 7"
definition NSLAVES :: nat where [simp]: "NSLAVES = 6"
definition RING_SIZE :: nat where [simp]: "RING_SIZE = 4"
definition RING_MAX_PASSES :: int where [simp]: "RING_MAX_PASSES = 100"

definition say :: "string \<Rightarrow> va list \<Rightarrow> 'a prog \<Rightarrow> 'a prog" where
  "say format ap q = Call (Printf (chars format @ [10, 0]) ap) (\<lambda>_. q)"

definition str :: "string \<Rightarrow> va" where
  "str s = Str (chars s @ [0])"

definition num :: "int \<Rightarrow> va" where
  "num n = Word (of_int n)"

text \<open>The macro \<open>try\<close>, with the text of the expression, and \<open>assert\<close>.\<close>

definition attempt :: "string \<Rightarrow> call \<Rightarrow> (reply \<Rightarrow> 'a prog) \<Rightarrow> 'a prog" where
  "attempt expr c k =
     Call c (\<lambda>r. if 0 > rp_result r
       then Call Geterrno (\<lambda>e. say ''%s: %s'' [str expr, str (strerror (rp_result e))] (Exit 1))
       else k r)"

definition insist :: "bool \<Rightarrow> string \<Rightarrow> string \<Rightarrow> 'a prog \<Rightarrow> 'a prog" where
  "insist b func expr q = (if b then q else say ''Assertion failure in %s: %s'' [str func, str expr] (Exit 1))"

text \<open>An \<open>int\<close> as the contents of a message, and back; the first byte of the contents as a \<open>char\<close>.\<close>

definition int_bytes :: "int \<Rightarrow> bytes" where
  "int_bytes n = word_bytes (of_int n)"

definition msg_int :: "message \<Rightarrow> int" where
  "msg_int m = (case img_word (msg_data m) 0 of None \<Rightarrow> 0 | Some v \<Rightarrow> sint v)"

definition msg_char :: "message \<Rightarrow> int" where
  "msg_char m = (case msg_data m of [] \<Rightarrow> 0 | c # _ \<Rightarrow> sint c)"

subsection \<open>Non-blocking receive\<close>

definition key_loop :: "int \<Rightarrow> unit prog" where
  "key_loop child_pid =
     loop (\<lambda>_. Call Read1 (\<lambda>r.
       if rp_result r = 1 \<and> rp_byte r \<noteq> of_char CHR ''q''
       then Call (Send child_pid TAG_TEST (Bytes [rp_byte r])) (\<lambda>_. Return (Inl ()))
       else Return (Inr ()))) ()"

definition key_parent :: "int \<Rightarrow> 'a prog \<Rightarrow> 'a prog" where
  "key_parent child_pid q =
     say ''Press a key to send a message to the child; q to finish'' []
       (after (key_loop child_pid)
         (attempt ''kill(child_pid)'' (Kill child_pid) (\<lambda>_.
          attempt ''waitpid(child_pid,NULL,0)'' (Waitpid child_pid) (\<lambda>_. q))))"

definition nb_child :: "'a prog" where
  "nb_child =
     loop (\<lambda>counter. let counter = counter + 1 in
       Call (Receive True False) (\<lambda>r.
         if rp_result r = 0
         then say ''Non-blocking receive: tag %d, size %d, char %d, counter = %d''
                [Word (msg_tag (rp_msg r)), Word (msg_size (rp_msg r)), num (msg_char (rp_msg r)), Word counter] (Return (Inl 0))
         else Return (Inl counter))) (0 :: u32)"

definition test_nb_receive_simple :: "'a prog \<Rightarrow> 'a prog" where
  "test_nb_receive_simple q =
     attempt ''fork()'' Fork (\<lambda>r.
       if rp_result r = 0 then nb_child
       else key_parent (rp_result r) (say ''Non-blocking receive - simple test: finished'' [] q))"

definition test_nb_receive_advanced :: "'a prog \<Rightarrow> 'a prog" where
  "test_nb_receive_advanced q =
     Call (Receive True False) (\<lambda>res.
     Call Geterrno (\<lambda>err.
     say ''First receive(): res = %d, errno = %d; should be -1 and %d (EAGAIN)''
       [num (rp_result res), num (rp_result err), num EAGAIN] (
     Call Getpid (\<lambda>pid.
     Call (Send (rp_result pid) TAG_TEST (Bytes (int_bytes 1234))) (\<lambda>res.
     say ''First send(): res = %d; should be 0'' [num (rp_result res)] (
     Call (Receive True False) (\<lambda>res.
     say ''Second receive(): res = %d; should be 0'' [num (rp_result res)] (
     let q = say ''Non-blocking receive - advanced test: finished'' [] q in
     if rp_result res = 0
     then say ''tag = %d (should be %d)'' [Word (msg_tag (rp_msg res)), Word TAG_TEST] (
          say ''size = %d (should be %d)'' [Word (msg_size (rp_msg res)), num 4] (
          say ''r_testval = %d (should be %d)'' [num (msg_int (rp_msg res)), num 1234] q))
     else q))))))))"

text \<open>The counting loop of the third test: \<open>n\<close> is how many messages are left to try, the argument of the continuation how many were sent.\<close>

fun flood :: "nat \<Rightarrow> int \<Rightarrow> (int \<Rightarrow> 'a prog) \<Rightarrow> 'a prog" where
  "flood 0 nsent k = k nsent"
| "flood (Suc n) nsent k =
     Call Getpid (\<lambda>pid.
     Call (Send (rp_result pid) TAG_TEST (Bytes (int_bytes nsent))) (\<lambda>res.
     if rp_result res \<noteq> 0 then k nsent else flood n (nsent + 1) k))"

fun drain :: "nat \<Rightarrow> int \<Rightarrow> 'a prog \<Rightarrow> 'a prog" where
  "drain 0 i q = q"
| "drain (Suc n) i q =
     attempt ''receive(&msg,0)'' (Receive True False) (\<lambda>r.
     insist (msg_tag (rp_msg r) = TAG_TEST) ''test_nb_multiple_messages'' ''TAG_TEST == msg.tag'' (
     insist (msg_size (rp_msg r) = 4) ''test_nb_multiple_messages'' ''sizeof(int) == msg.size'' (
     insist (msg_int (rp_msg r) = i) ''test_nb_multiple_messages'' ''*(int*)msg.data == i'' (
     drain n (i + 1) q))))"

definition test_nb_multiple_messages :: "'a prog \<Rightarrow> 'a prog" where
  "test_nb_multiple_messages q =
     say ''Checking how many messages can be outstanding...'' [] (
     flood 10000 0 (\<lambda>nsent.
     Call Geterrno (\<lambda>err.
     say ''send() returned error after %d messages'' [num nsent] (
     say ''errno = %d; should be %d (ENOMEM)'' [num (rp_result err), num ENOMEM] (
     drain (nat nsent) 0 (
     say ''Received all messages ok'' [] (
     Call (Receive True False) (\<lambda>res.
     Call Geterrno (\<lambda>err.
     say ''Final receive() returned %d, errno %d; should be -1 and %d (EAGAIN)'' [num (rp_result res), num (rp_result err), num EAGAIN] (
     say ''Non-blocking receive with multiple messages: finished'' [] q))))))))))"

subsection \<open>Blocking receive\<close>

definition b_child :: "'a prog" where
  "b_child =
     loop (\<lambda>_.
       attempt ''receive(&msg,1)'' (Receive True True) (\<lambda>r.
         say ''Blocking receive: tag %d, size %d, char %d''
           [Word (msg_tag (rp_msg r)), Word (msg_size (rp_msg r)), num (msg_char (rp_msg r))] (Return (Inl ())))) ()"

definition test_b_receive_simple :: "'a prog \<Rightarrow> 'a prog" where
  "test_b_receive_simple q =
     attempt ''fork()'' Fork (\<lambda>r.
       if rp_result r = 0 then b_child
       else key_parent (rp_result r) (say ''Blocking receive - simple test: finished'' [] q))"

subsection \<open>Ping-pong\<close>

text \<open>The loops count from \<open>count\<close> for \<open>n\<close> more rounds.\<close>

fun ping_loop :: "nat \<Rightarrow> int \<Rightarrow> int \<Rightarrow> 'a prog \<Rightarrow> 'a prog" where
  "ping_loop 0 count pong_pid q = q"
| "ping_loop (Suc n) count pong_pid q =
     attempt ''send(pong_pid,TAG_PING,NULL,0)'' (Send pong_pid TAG_PING (Bytes [])) (\<lambda>_.
     attempt ''receive(&msg,1)'' (Receive True True) (\<lambda>_.
     say ''ping: received pong %d'' [num count] (
     ping_loop n (count + 1) pong_pid q)))"

definition ping :: "int \<Rightarrow> 'a prog \<Rightarrow> 'a prog" where
  "ping pong_pid q = ping_loop 100 1 pong_pid q"

fun pong_loop :: "nat \<Rightarrow> int \<Rightarrow> 'a prog \<Rightarrow> 'a prog" where
  "pong_loop 0 count q = q"
| "pong_loop (Suc n) count q =
     attempt ''receive(&msg,1)'' (Receive True True) (\<lambda>r.
     say ''pong: received ping %d'' [num count] (
     attempt ''send(msg.from,TAG_PONG,NULL,0)'' (Send (msg_from (rp_msg r)) TAG_PONG (Bytes [])) (\<lambda>_.
     pong_loop n (count + 1) q)))"

definition pong :: "'a prog \<Rightarrow> 'a prog" where
  "pong q = pong_loop 100 1 q"

definition test_ping_pong :: "'a prog \<Rightarrow> 'a prog" where
  "test_ping_pong q =
     attempt ''fork()'' Fork (\<lambda>r.
       if rp_result r = 0 then pong (Exit 0)
       else let pong_pid = rp_result r in
            attempt ''fork()'' Fork (\<lambda>r.
              if rp_result r = 0 then ping pong_pid (Exit 0)
              else attempt ''waitpid(pong_pid,NULL,0)'' (Waitpid pong_pid) (\<lambda>_.
                   attempt ''waitpid(ping_pid,NULL,0)'' (Waitpid (rp_result r)) (\<lambda>_.
                   say ''Ping-pong: finished'' [] q))))"

subsection \<open>Broadcast\<close>

text \<open>A string formatted into a buffer of 100 bytes, with its terminating 0.\<close>

definition text100 :: "bytes \<Rightarrow> va list \<Rightarrow> (bytes \<Rightarrow> 'a prog) \<Rightarrow> 'a prog" where
  "text100 format ap k = (case snprintf (replicate 100 0) 100 format ap of None \<Rightarrow> Spin | Some (b, _) \<Rightarrow> k (cstr b @ [0]))"

definition slave :: "'a prog \<Rightarrow> 'a prog" where
  "slave q =
     attempt ''receive(&msg,1)'' (Receive True True) (\<lambda>r.
     Call Getpid (\<lambda>pid.
     text100 (chars ''I am process %d, and got '' @ [34] @ chars ''%s'' @ [34, 0]) [num (rp_result pid), Str (msg_data (rp_msg r))] (\<lambda>s.
     Call (Send (msg_from (rp_msg r)) TAG_RESPONSE (Bytes s)) (\<lambda>_. q))))"

fun start_slaves :: "nat \<Rightarrow> int list \<Rightarrow> (int list \<Rightarrow> 'a prog) \<Rightarrow> 'a prog" where
  "start_slaves 0 pids k = k pids"
| "start_slaves (Suc n) pids k =
     attempt ''fork()'' Fork (\<lambda>r. if rp_result r = 0 then slave (Exit 0) else start_slaves n (pids @ [rp_result r]) k)"

fun send_commands :: "int list \<Rightarrow> 'a prog \<Rightarrow> 'a prog" where
  "send_commands [] q = q"
| "send_commands (p # ps) q =
     text100 (chars ''You are process %d'' @ [0]) [num p] (\<lambda>s.
     Call (Send p TAG_COMMAND (Bytes s)) (\<lambda>_. send_commands ps q))"

fun get_responses :: "nat \<Rightarrow> 'a prog \<Rightarrow> 'a prog" where
  "get_responses 0 q = q"
| "get_responses (Suc n) q =
     attempt ''receive(&msg,1)'' (Receive True True) (\<lambda>r.
     say ''Slave %d said: %s'' [num (msg_from (rp_msg r)), Str (msg_data (rp_msg r))] (get_responses n q))"

fun wait_all :: "int list \<Rightarrow> 'a prog \<Rightarrow> 'a prog" where
  "wait_all [] q = q"
| "wait_all (p # ps) q = attempt ''waitpid(slave_pids[i],NULL,0)'' (Waitpid p) (\<lambda>_. wait_all ps q)"

definition test_broadcast :: "'a prog \<Rightarrow> 'a prog" where
  "test_broadcast q =
     start_slaves NSLAVES [] (\<lambda>pids.
     send_commands pids (
     get_responses NSLAVES (
     wait_all pids (
     say ''Broadcast: finished'' [] q))))"

subsection \<open>Ring\<close>

text \<open>One round of a process of the ring; \<open>token\<close> is an \<open>int\<close> of the machine.\<close>

definition ring_round :: "int \<Rightarrow> int \<Rightarrow> int \<Rightarrow> unit \<Rightarrow> (unit + 'a) prog" where
  "ring_round my_index main_pid next_pid u =
     attempt ''receive(&msg,1)'' (Receive True True) (\<lambda>r.
     insist (msg_tag (rp_msg r) = TAG_TOKEN) ''ring'' ''TAG_TOKEN == msg.tag'' (
     insist (msg_size (rp_msg r) = 4) ''ring'' ''sizeof(int) == msg.size'' (
     let token = sint (of_int (msg_int (rp_msg r) + 1) :: u32);
         next_index = (my_index + 1) mod int RING_SIZE
     in if token < RING_MAX_PASSES
        then say ''%d: got token (value = %d), passing to %d'' [num my_index, num token, num next_index] (
             attempt ''send(next,TAG_TOKEN,(void*)&token,sizeof(int))'' (Send next_pid TAG_TOKEN (Bytes (int_bytes token))) (\<lambda>_.
             Return (Inl ())))
        else say ''%d: got token (value = %d), passing back to main process'' [num my_index, num token] (
             Call (Send main_pid TAG_TOKEN (Bytes (int_bytes token))) (\<lambda>_.
             Return (Inl ()))))))"

definition ring :: "int \<Rightarrow> int \<Rightarrow> 'a prog" where
  "ring my_index main_pid =
     attempt ''receive(&msg,1)'' (Receive True True) (\<lambda>r.
     insist (msg_tag (rp_msg r) = TAG_NEIGHBOUR) ''ring'' ''TAG_NEIGHBOUR == msg.tag'' (
     insist (msg_size (rp_msg r) = 4) ''ring'' ''sizeof(pid_t) == msg.size'' (
     loop (ring_round my_index main_pid (msg_int (rp_msg r))) ())))"

fun start_ring :: "nat \<Rightarrow> int \<Rightarrow> int list \<Rightarrow> (int list \<Rightarrow> 'a prog) \<Rightarrow> 'a prog" where
  "start_ring 0 main_pid pids k = k pids"
| "start_ring (Suc n) main_pid pids k =
     attempt ''fork()'' Fork (\<lambda>r.
       if rp_result r = 0 then ring (int (length pids)) main_pid
       else start_ring n main_pid (pids @ [rp_result r]) k)"

fun send_neighbours :: "(int \<times> int) list \<Rightarrow> 'a prog \<Rightarrow> 'a prog" where
  "send_neighbours [] q = q"
| "send_neighbours ((p, n) # ps) q = Call (Send p TAG_NEIGHBOUR (Bytes (int_bytes n))) (\<lambda>_. send_neighbours ps q)"

fun kill_all :: "int list \<Rightarrow> 'a prog \<Rightarrow> 'a prog" where
  "kill_all [] q = q"
| "kill_all (p # ps) q =
     attempt ''kill(pids[i])'' (Kill p) (\<lambda>_.
     attempt ''waitpid(pids[i],NULL,0)'' (Waitpid p) (\<lambda>_. kill_all ps q))"

definition test_ring :: "'a prog \<Rightarrow> 'a prog" where
  "test_ring q =
     Call Getpid (\<lambda>main_pid.
     start_ring RING_SIZE (rp_result main_pid) [] (\<lambda>pids.
     send_neighbours (zip pids (rotate1 pids)) (
     Call (Send (hd pids) TAG_TOKEN (Bytes (int_bytes 0))) (\<lambda>_.
     attempt ''receive(&msg,1)'' (Receive True True) (\<lambda>r.
     insist (msg_tag (rp_msg r) = TAG_TOKEN) ''test_ring'' ''TAG_TOKEN == msg.tag'' (
     insist (msg_size (rp_msg r) = 4) ''test_ring'' ''sizeof(int) == msg.size'' (
     say ''Main process received token: value = %d'' [num (msg_int (rp_msg r))] (
     kill_all pids (
     say ''Ring: finished'' [] q)))))))))"

subsection \<open>Errors\<close>

text \<open>\<open>junk\<close> is the uninitialised array \<open>data\<close> of \<open>MAX_MESSAGE_SIZE+1\<close> bytes.\<close>

definition say_error :: "int \<Rightarrow> string \<Rightarrow> reply \<Rightarrow> 'a prog \<Rightarrow> 'a prog" where
  "say_error e name res q =
     Call Geterrno (\<lambda>err. say (''res = %d, err = %d; should be -1 and %d ('' @ name @ '')'') [num (rp_result res), num (rp_result err), num e] q)"

definition test_error_handling :: "bytes \<Rightarrow> 'a prog \<Rightarrow> 'a prog" where
  "test_error_handling junk q =
     say ''Testing send() with invalid size...'' [] (
     Call Getpid (\<lambda>pid.
     Call (Send (rp_result pid) TAG_TEST (Bytes junk)) (\<lambda>res.
     say_error EINVAL ''EINVAL'' res (
     say ''Testing send() with invalid pointer...'' [] (
     Call Getpid (\<lambda>pid.
     Call (Send (rp_result pid) TAG_TEST (Outside 0xD12F301A 20)) (\<lambda>res.
     say_error EFAULT ''EFAULT'' res (
     say ''Testing send() with non-existant process...'' [] (
     Call (Send 99 TAG_TEST (Bytes (take 1 junk))) (\<lambda>res.
     say_error ESRCH ''ESRCH'' res (
     say ''Testing receive() with invalid pointer...'' [] (
     Call (Receive False False) (\<lambda>res.
     say_error EFAULT ''EFAULT'' res q)))))))))))))"

subsection \<open>The menu\<close>

definition menu :: "string list" where
  "menu =
     [''Enter test to run:'', ''1. Non-blocking receive - simple test'', ''2. Non-blocking receive - advanced test'',
      ''3. Non-blocking receive with multiple messages'', ''4. Blocking receive - simple test'', ''5. Ping-pong'',
      ''6. Broadcast'', ''7. Ring'', ''8. Error handling'', ''q. Quit test program'']"

fun say_all :: "string list \<Rightarrow> 'a prog \<Rightarrow> 'a prog" where
  "say_all [] q = q"
| "say_all (l # ls) q = say l [] (say_all ls q)"

definition run_choice :: "bytes \<Rightarrow> u8 \<Rightarrow> (unit + unit) prog" where
  "run_choice junk c =
     (let again = Return (Inl ());
          is = (\<lambda>d. c = of_char d)
      in if is CHR ''1'' then test_nb_receive_simple again
         else if is CHR ''2'' then test_nb_receive_advanced again
         else if is CHR ''3'' then test_nb_multiple_messages again
         else if is CHR ''4'' then test_b_receive_simple again
         else if is CHR ''5'' then test_ping_pong again
         else if is CHR ''6'' then test_broadcast again
         else if is CHR ''7'' then test_ring again
         else if is CHR ''8'' then test_error_handling junk again
         else if is CHR ''q'' then Exit 0
         else again)"

definition mptest_main :: "bytes \<Rightarrow> unit prog" where
  "mptest_main junk =
     say_all [[], ''Message passing tests'', ''---------------------''] (
     loop (\<lambda>_.
       say_all ([] # menu) (
       Call Read1 (\<lambda>r. if rp_result r = 1 then say [] [] (run_choice junk (rp_byte r)) else Return (Inl ())))) ())"

end
