(* ===== verification/Ring_Props.thy ===== *)
theory Ring_Props
  imports Mptest
begin

text \<open>
  The ring of \<^verbatim>\<open>source/mptest.c\<close>: under every interleaving of its five processes the token goes around, and the test ends. The state of the
  whole world is described by where the main process is, which children know their neighbour, and where the token is.
\<close>

subsection \<open>What is printed\<close>

definition pass_line :: "nat \<Rightarrow> bytes" where
  "pass_line v =
     (let j = int ((v - 1) mod 4) in
      the (if v < 100 then format_text (chars ''%d: got token (value = %d), passing to %d'' @ [10, 0]) [num j, num (int v), num ((j + 1) mod 4)]
           else format_text (chars ''%d: got token (value = %d), passing back to main process'' @ [10, 0]) [num j, num (int v)]))"

definition main_line :: bytes where
  "main_line = chars ''Main process received token: value = 100'' @ [10]"

definition end_line :: bytes where
  "end_line = chars ''Ring: finished'' @ [10]"

lemmas text_eval = chars_def num_def field_text_def padded_def spaces_def is_digit_def Let_def

lemma pass_line_text:
  "v < 100 \<Longrightarrow> j = (v - 1) mod 4 \<Longrightarrow> format_text (chars ''%d: got token (value = %d), passing to %d'' @ [10, 0])
      [num (int j), num (int v), num ((int j + 1) mod 4)] = Some (pass_line v)"
  "\<not> v < 100 \<Longrightarrow> j = (v - 1) mod 4 \<Longrightarrow> format_text (chars ''%d: got token (value = %d), passing back to main process'' @ [10, 0])
      [num (int j), num (int v)] = Some (pass_line v)"
  by (simp_all add: pass_line_def) (simp_all add: text_eval)

lemma main_line_text: "format_text (chars ''Main process received token: value = %d'' @ [10, 0]) [num 100] = Some main_line"
  by code_simp

lemma end_line_text: "format_text (chars ''Ring: finished'' @ [10, 0]) [] = Some end_line"
  by (simp add: end_line_def text_eval)

subsection \<open>The control points\<close>

definition kill_rest :: "int list \<Rightarrow> unit prog" where
  "kill_rest ps = kill_all ps (say ''Ring: finished'' [] (Return ()))"

definition main_waits :: "int list \<Rightarrow> unit prog" where
  "main_waits pids =
     attempt ''receive(&msg,1)'' (Receive True True) (\<lambda>r.
     insist (msg_tag (rp_msg r) = TAG_TOKEN) ''test_ring'' ''TAG_TOKEN == msg.tag'' (
     insist (msg_size (rp_msg r) = 4) ''test_ring'' ''sizeof(int) == msg.size'' (
     say ''Main process received token: value = %d'' [num (msg_int (rp_msg r))] (kill_rest pids))))"

definition main_gives :: "int list \<Rightarrow> unit prog" where
  "main_gives pids = Call (Send (hd pids) TAG_TOKEN (Bytes (int_bytes 0))) (\<lambda>_. main_waits pids)"

definition main_tells :: "int list \<Rightarrow> nat \<Rightarrow> unit prog" where
  "main_tells pids k = send_neighbours (drop k (zip pids (rotate1 pids))) (main_gives pids)"

text \<open>Where the main process is: it has forked, told, killed or waited for as many of its children.\<close>

datatype pc = Start | Forks nat | Tells nat | Waits | Shows | Kills nat | Reaps nat | Over

fun main_prog :: "int \<Rightarrow> int list \<Rightarrow> pc \<Rightarrow> unit prog" where
  "main_prog m pids Start = test_ring (Return ())"
| "main_prog m pids (Forks n) = start_ring (4 - n) m pids (\<lambda>pids. main_tells pids 0)"
| "main_prog m pids (Tells k) = main_tells pids k"
| "main_prog m pids Waits = main_waits pids"
| "main_prog m pids Shows = say ''Main process received token: value = %d'' [num 100] (kill_rest pids)"
| "main_prog m pids (Kills k) = kill_rest (drop k pids)"
| "main_prog m pids (Reaps k) = attempt ''waitpid(pids[i],NULL,0)'' (Waitpid (pids ! k)) (\<lambda>_. kill_rest (drop (Suc k) pids))"
| "main_prog m pids Over = Return ()"

text \<open>
  Where the token is: not yet sent, among the messages of a child, in the hands of a child before or after it has printed the new value,
  or on the way back.
\<close>

datatype tok = Nowhere | Inbox nat | Prints nat | Passes nat | Back

text \<open>The value \<open>v\<close> is at the child \<open>v mod 4\<close> before it has been received, and at the one before when it has been increased.\<close>

definition holder :: "nat \<Rightarrow> nat" where
  "holder v = (v - 1) mod 4"

definition passing :: "int \<Rightarrow> int list \<Rightarrow> nat \<Rightarrow> unit prog" where
  "passing m pids v =
     (let j = int (holder v); go = loop (ring_round j m (pids ! (Suc (holder v) mod 4))) () in
      if v < 100
      then attempt ''send(next,TAG_TOKEN,(void*)&token,sizeof(int))'' (Send (pids ! (Suc (holder v) mod 4)) TAG_TOKEN (Bytes (int_bytes (int v)))) (\<lambda>_. go)
      else Call (Send m TAG_TOKEN (Bytes (int_bytes (int v)))) (\<lambda>_. go))"

definition printing :: "int \<Rightarrow> int list \<Rightarrow> nat \<Rightarrow> unit prog" where
  "printing m pids v =
     (let j = int (holder v) in
      if v < 100 then say ''%d: got token (value = %d), passing to %d'' [num j, num (int v), num ((j + 1) mod 4)] (passing m pids v)
      else say ''%d: got token (value = %d), passing back to main process'' [num j, num (int v)] (passing m pids v))"

definition child_prog :: "int \<Rightarrow> int list \<Rightarrow> (nat \<Rightarrow> bool) \<Rightarrow> tok \<Rightarrow> nat \<Rightarrow> unit prog" where
  "child_prog m pids know tok j =
     (case tok of
        Prints v \<Rightarrow> if j = holder v then printing m pids v else
          if know j then loop (ring_round (int j) m (pids ! (Suc j mod 4))) () else ring (int j) m
      | Passes v \<Rightarrow> if j = holder v then passing m pids v else
          if know j then loop (ring_round (int j) m (pids ! (Suc j mod 4))) () else ring (int j) m
      | _ \<Rightarrow> if know j then loop (ring_round (int j) m (pids ! (Suc j mod 4))) () else ring (int j) m)"

subsection \<open>Messages\<close>

text \<open>A message without its sender.\<close>

definition content :: "message \<Rightarrow> u32 \<times> u32 \<times> bytes" where
  "content x = (msg_tag x, msg_size x, msg_data x)"

definition told :: "pc \<Rightarrow> nat" where
  "told pc = (case pc of Start \<Rightarrow> 0 | Forks n \<Rightarrow> 0 | Tells k \<Rightarrow> k | _ \<Rightarrow> 4)"

definition child_box :: "int list \<Rightarrow> (nat \<Rightarrow> bool) \<Rightarrow> tok \<Rightarrow> pc \<Rightarrow> nat \<Rightarrow> (u32 \<times> u32 \<times> bytes) list" where
  "child_box pids know tok pc j =
     (if j < told pc \<and> \<not> know j then [(TAG_NEIGHBOUR, 4, int_bytes (pids ! (Suc j mod 4)))] else []) @
     (case tok of Inbox v \<Rightarrow> if j = v mod 4 then [(TAG_TOKEN, 4, int_bytes (int v))] else [] | _ \<Rightarrow> [])"

definition main_box :: "tok \<Rightarrow> pc \<Rightarrow> (u32 \<times> u32 \<times> bytes) list" where
  "main_box tok pc = (if tok = Back \<and> pc = Waits then [(TAG_TOKEN, 4, int_bytes 100)] else [])"

subsection \<open>The invariant\<close>

definition gone :: "pc \<Rightarrow> nat" where
  "gone pc = (case pc of Kills k \<Rightarrow> k | Reaps k \<Rightarrow> k | Over \<Rightarrow> 4 | _ \<Rightarrow> 0)"

definition forked :: "pc \<Rightarrow> nat" where
  "forked pc = (case pc of Start \<Rightarrow> 0 | Forks n \<Rightarrow> n | _ \<Rightarrow> 4)"

definition tok_ok :: "tok \<Rightarrow> pc \<Rightarrow> bool" where
  "tok_ok tok pc \<longleftrightarrow>
     (case pc of
        Start \<Rightarrow> tok = Nowhere
      | Forks n \<Rightarrow> tok = Nowhere \<and> n < 4
      | Tells k \<Rightarrow> tok = Nowhere \<and> k \<le> 4
      | Waits \<Rightarrow> (case tok of Nowhere \<Rightarrow> False | Inbox v \<Rightarrow> v < 100 | Prints v \<Rightarrow> 1 \<le> v \<and> v \<le> 100 | Passes v \<Rightarrow> 1 \<le> v \<and> v \<le> 100 | Back \<Rightarrow> True)
      | Kills k \<Rightarrow> tok = Back \<and> k \<le> 4
      | Reaps k \<Rightarrow> tok = Back \<and> k < 4
      | _ \<Rightarrow> tok = Back)"

text \<open>What has been printed.\<close>

definition printed :: "tok \<Rightarrow> nat" where
  "printed tok = (case tok of Nowhere \<Rightarrow> 0 | Inbox v \<Rightarrow> v | Prints v \<Rightarrow> v - 1 | Passes v \<Rightarrow> v | Back \<Rightarrow> 100)"

text \<open>How many children have had the token.\<close>

definition reached :: "tok \<Rightarrow> nat" where
  "reached tok = (case tok of Nowhere \<Rightarrow> 0 | Inbox v \<Rightarrow> v | Prints v \<Rightarrow> v | Passes v \<Rightarrow> v | Back \<Rightarrow> 100)"

definition ring_out :: "tok \<Rightarrow> pc \<Rightarrow> bytes" where
  "ring_out tok pc =
     concat (map pass_line [1..<Suc (printed tok)]) @
     (case pc of Kills k \<Rightarrow> main_line | Reaps k \<Rightarrow> main_line | Over \<Rightarrow> main_line @ end_line | _ \<Rightarrow> [])"

definition child_at :: "int \<Rightarrow> int list \<Rightarrow> (nat \<Rightarrow> bool) \<Rightarrow> tok \<Rightarrow> pc \<Rightarrow> nat \<Rightarrow> task option \<Rightarrow> bool" where
  "child_at m pids know tok pc j x \<longleftrightarrow>
     (if j < gone pc then x = None
      else \<exists>t. x = Some t \<and> t_parent t = m \<and>
        (if pc = Reaps j then t_exited t \<noteq> None
         else t_exited t = None \<and> t_prog t = child_prog m pids know tok j \<and> map content (t_inbox t) = child_box pids know tok pc j))"

definition main_at :: "int \<Rightarrow> int list \<Rightarrow> tok \<Rightarrow> pc \<Rightarrow> task option \<Rightarrow> bool" where
  "main_at m pids tok pc x \<longleftrightarrow>
     (\<exists>t. x = Some t \<and> t_parent t = - 1 \<and> t_exited t = None \<and> t_prog t = main_prog m pids pc \<and> map content (t_inbox t) = main_box tok pc)"

definition pids_ok :: "int \<Rightarrow> int list \<Rightarrow> pc \<Rightarrow> bool" where
  "pids_ok m pids pc \<longleftrightarrow> 1 \<le> m \<and> m < 32 \<and> m \<notin> set pids \<and> distinct pids \<and> (\<forall>p\<in>set pids. 1 \<le> p \<and> p < 32) \<and> length pids = forked pc"

definition ring_inv :: "int \<Rightarrow> bytes \<Rightarrow> int list \<Rightarrow> (nat \<Rightarrow> bool) \<Rightarrow> tok \<Rightarrow> pc \<Rightarrow> world \<Rightarrow> bool" where
  "ring_inv m out pids know tok pc w \<longleftrightarrow>
     pids_ok m pids pc \<and> tok_ok tok pc \<and> main_at m pids tok pc (w_tasks w m) \<and>
     (\<forall>j < length pids. child_at m pids know tok pc j (w_tasks w (pids ! j))) \<and>
     (\<forall>p. p \<noteq> m \<and> p \<notin> set pids \<longrightarrow> w_tasks w p = None) \<and>
     (\<forall>j. told pc \<le> j \<longrightarrow> \<not> know j) \<and> (\<forall>j < 4. j < reached tok \<longrightarrow> know j) \<and>
     w_out w = out @ ring_out tok pc"

text \<open>The number of steps that are left.\<close>

definition main_left :: "pc \<Rightarrow> nat" where
  "main_left pc =
     (case pc of Start \<Rightarrow> 21 | Forks n \<Rightarrow> 20 - n | Tells k \<Rightarrow> 16 - k | Waits \<Rightarrow> 11 | Shows \<Rightarrow> 10 | Kills k \<Rightarrow> 9 - 2 * k | Reaps k \<Rightarrow> 8 - 2 * k | Over \<Rightarrow> 0)"

definition tok_left :: "tok \<Rightarrow> nat" where
  "tok_left tok =
     (case tok of Nowhere \<Rightarrow> 300 | Inbox v \<Rightarrow> 3 * (100 - v) | Prints v \<Rightarrow> 3 * (100 - v) + 2 | Passes v \<Rightarrow> 3 * (100 - v) + 1 | Back \<Rightarrow> 0)"

definition know_left :: "(nat \<Rightarrow> bool) \<Rightarrow> nat" where
  "know_left know = card {j. j < 4 \<and> \<not> know j}"

definition ring_left :: "(nat \<Rightarrow> bool) \<Rightarrow> tok \<Rightarrow> pc \<Rightarrow> nat" where
  "ring_left know tok pc = main_left pc + tok_left tok + know_left know"

subsection \<open>How the programs go on\<close>

lemma sint_small: "- 2147483648 \<le> v \<Longrightarrow> v < 2147483648 \<Longrightarrow> sint (of_int v :: u32) = v"
  by (simp add: signed_of_int signed_take_bit_int_eq_self)

lemma msg_int_content: "content x = (tag, n, int_bytes v) \<Longrightarrow> - 2147483648 \<le> v \<Longrightarrow> v < 2147483648 \<Longrightarrow> msg_int x = v"
  by (simp add: content_def msg_int_def int_bytes_def img_word_bytes sint_small)

lemma length_int_bytes [simp]: "length (int_bytes v) = 4"
  by (simp add: int_bytes_def)

lemma content_mail: "content (mail f tag d) = (tag, of_nat (length d), d)"
  by (simp add: content_def)

lemma map_content_Cons: "map content ms = x # xs \<longleftrightarrow> (\<exists>y ys. ms = y # ys \<and> content y = x \<and> map content ys = xs)"
  by (cases ms) auto

lemma test_ring_starts: "test_ring (Return ()) = Call Getpid (\<lambda>r. start_ring 4 (rp_result r) [] (\<lambda>pids. main_tells pids 0))"
  by (simp add: test_ring_def main_tells_def main_gives_def main_waits_def kill_rest_def)

lemma start_ring_forks:
  "start_ring (Suc n) m pids k = Call Fork (\<lambda>r. if 0 > rp_result r
     then Call Geterrno (\<lambda>e. say ''%s: %s'' [str ''fork()'', str (strerror (rp_result e))] (Exit 1))
     else if rp_result r = 0 then ring (int (length pids)) m else start_ring n m (pids @ [rp_result r]) k)"
  by (simp add: attempt_def)

lemma main_tells_next:
  assumes "length pids = 4" "k < 4"
  shows "main_tells pids k = Call (Send (pids ! k) TAG_NEIGHBOUR (Bytes (int_bytes (pids ! (Suc k mod 4))))) (\<lambda>_. main_tells pids (Suc k))"
proof -
  have "drop k (zip pids (rotate1 pids)) = (pids ! k, pids ! (Suc k mod 4)) # drop (Suc k) (zip pids (rotate1 pids))"
    using assms Cons_nth_drop_Suc [of k "zip pids (rotate1 pids)"] nth_rotate1 [of k pids] by simp
  then show ?thesis by (simp add: main_tells_def)
qed

lemma main_tells_done: "length pids = 4 \<Longrightarrow> main_tells pids 4 = main_gives pids"
  by (simp add: main_tells_def)

lemma kill_rest_next:
  assumes "length pids = 4" "k < 4"
  shows "kill_rest (drop k pids) = attempt ''kill(pids[i])'' (Kill (pids ! k)) (\<lambda>_. main_prog m pids (Reaps k))"
  using assms by (subst Cons_nth_drop_Suc [symmetric]) (simp_all add: kill_rest_def)

definition ring_heard :: "int \<Rightarrow> int \<Rightarrow> reply \<Rightarrow> unit prog" where
  "ring_heard j m r =
     (if 0 > rp_result r
      then Call Geterrno (\<lambda>e. say ''%s: %s'' [str ''receive(&msg,1)'', str (strerror (rp_result e))] (Exit 1))
      else insist (msg_tag (rp_msg r) = TAG_NEIGHBOUR) ''ring'' ''TAG_NEIGHBOUR == msg.tag'' (
        insist (msg_size (rp_msg r) = 4) ''ring'' ''sizeof(pid_t) == msg.size'' (
        loop (ring_round j m (msg_int (rp_msg r))) ())))"

lemma ring_listens: "ring j m = Call (Receive True True) (ring_heard j m)"
  by (simp add: ring_def attempt_def ring_heard_def fun_eq_iff)

lemma ring_learns:
  assumes "rp_result r = 0" "content (rp_msg r) = (TAG_NEIGHBOUR, 4, int_bytes p)" "1 \<le> p" "p < 32"
  shows "ring_heard j m r = loop (ring_round j m p) ()"
proof -
  have "msg_int (rp_msg r) = p" by (rule msg_int_content [OF assms(2)]) (use assms in auto)
  with assms(1,2) show ?thesis by (simp add: ring_heard_def insist_def content_def)
qed

definition ring_got :: "int \<Rightarrow> int \<Rightarrow> int \<Rightarrow> reply \<Rightarrow> unit prog" where
  "ring_got j m p r =
     loop_on (ring_round j m p)
       (if 0 > rp_result r
        then Call Geterrno (\<lambda>e. say ''%s: %s'' [str ''receive(&msg,1)'', str (strerror (rp_result e))] (Exit 1))
        else insist (msg_tag (rp_msg r) = TAG_TOKEN) ''ring'' ''TAG_TOKEN == msg.tag'' (
          insist (msg_size (rp_msg r) = 4) ''ring'' ''sizeof(int) == msg.size'' (
          let token = sint (of_int (msg_int (rp_msg r) + 1) :: u32);
              next_index = (j + 1) mod int RING_SIZE
          in if token < RING_MAX_PASSES
             then say ''%d: got token (value = %d), passing to %d'' [num j, num token, num next_index] (
                  attempt ''send(next,TAG_TOKEN,(void*)&token,sizeof(int))'' (Send p TAG_TOKEN (Bytes (int_bytes token))) (\<lambda>_.
                  Return (Inl ())))
             else say ''%d: got token (value = %d), passing back to main process'' [num j, num token] (
                  Call (Send m TAG_TOKEN (Bytes (int_bytes token))) (\<lambda>_.
                  Return (Inl ()))))))"

lemma ring_waits: "loop (ring_round j m p) () = Call (Receive True True) (ring_got j m p)"
  unfolding ring_got_def by (rule loop_call) (simp only: ring_round_def attempt_def)

lemma ring_takes:
  assumes "rp_result r = 0" "content (rp_msg r) = (TAG_TOKEN, 4, int_bytes (int v))" "v < 100"
  shows "ring_got (int (v mod 4)) m (pids ! (Suc (v mod 4) mod 4)) r = printing m pids (Suc v)"
proof -
  have i: "msg_int (rp_msg r) = int v" by (rule msg_int_content [OF assms(2)]) (use assms in auto)
  have s: "sint (of_int (int v + 1) :: u32) = int (Suc v)" using assms(3) sint_small [of "int v + 1"] by simp
  have h: "holder (Suc v) = v mod 4" by (simp add: holder_def)
  have t: "msg_tag (rp_msg r) = TAG_TOKEN" "msg_size (rp_msg r) = 4" using assms(2) by (simp_all add: content_def)
  show ?thesis
    unfolding ring_got_def i s t insist_def printing_def passing_def h Let_def using assms(1) by (simp add: say_def attempt_def fun_eq_iff)
qed

subsection \<open>Steps of the main process\<close>

lemma ring_invD:
  assumes "ring_inv m out pids know tok pc w"
  shows "pids_ok m pids pc" "tok_ok tok pc" "main_at m pids tok pc (w_tasks w m)"
    "\<And>j. j < length pids \<Longrightarrow> child_at m pids know tok pc j (w_tasks w (pids ! j))"
    "\<And>p. p \<noteq> m \<Longrightarrow> p \<notin> set pids \<Longrightarrow> w_tasks w p = None"
    "\<And>j. told pc \<le> j \<Longrightarrow> \<not> know j" "\<And>j. j < 4 \<Longrightarrow> j < reached tok \<Longrightarrow> know j" "w_out w = out @ ring_out tok pc"
  using assms by (simp_all add: ring_inv_def)

lemma pids_okD:
  assumes "pids_ok m pids pc"
  shows "1 \<le> m" "m < 32" "m \<notin> set pids" "distinct pids" "\<And>p. p \<in> set pids \<Longrightarrow> 1 \<le> p \<and> p < 32" "length pids = forked pc"
  using assms by (simp_all add: pids_ok_def)

lemma main_atE:
  assumes "main_at m pids tok pc x"
  obtains t where "x = Some t" "t_exited t = None" "t_prog t = main_prog m pids pc" "map content (t_inbox t) = main_box tok pc" "t_parent t = - 1"
  using assms by (auto simp: main_at_def)

lemma child_at_pc:
  assumes "told pc' = told pc" "gone pc' = gone pc" "pc' = Reaps j \<longleftrightarrow> pc = Reaps j"
  shows "child_at m pids know tok pc' j x = child_at m pids know tok pc j x"
  unfolding child_at_def child_box_def assms ..

text \<open>A step in which the main process only changes itself.\<close>

lemma main_alone:
  assumes inv: "ring_inv m out pids know tok pc w"
    and pc: "told pc' = told pc" "gone pc' = gone pc" "forked pc' = forked pc" "tok_ok tok pc'"
      "\<And>j. pc \<noteq> Reaps j" "\<And>j. pc' \<noteq> Reaps j"
    and t: "t_parent t = - 1" "t_exited t = None" "t_prog t = main_prog m pids pc'" "map content (t_inbox t) = main_box tok pc'"
    and out: "w_out w' = out @ ring_out tok pc'" and w': "w_tasks w' = (w_tasks w)(m \<mapsto> t)"
  shows "ring_inv m out pids know tok pc' w'"
proof -
  note I = ring_invD [OF inv]
  have "child_at m pids know tok pc' j (w_tasks w' (pids ! j))" if "j < length pids" for j
  proof -
    have "pids ! j \<noteq> m" using pids_okD(3) [OF I(1)] that nth_mem by fastforce
    with I(4) [OF that] child_at_pc [of pc' pc j] pc w' show ?thesis by simp
  qed
  moreover have "pids_ok m pids pc'" using I(1) pc(3) by (simp add: pids_ok_def)
  ultimately show ?thesis using I(5-7) pc t out w' by (auto simp: ring_inv_def main_at_def)
qed

lemma child_update:
  assumes "distinct pids" "j < length pids" "\<And>i. i < length pids \<Longrightarrow> i \<noteq> j \<Longrightarrow> child_at m pids know tok pc i (f (pids ! i))"
    "child_at m pids know tok pc j x"
  shows "\<forall>i < length pids. child_at m pids know tok pc i ((f(pids ! j := x)) (pids ! i))"
  using assms by (auto simp: nth_eq_iff_index_eq)

lemma ring_forks:
  assumes inv: "ring_inv m out pids know tok (Forks n) w"
  shows "\<exists>w' pids' pc'. task_step m w = Some w' \<and> ring_inv m out pids' know tok pc' w' \<and>
    Suc (ring_left know tok pc') = ring_left know tok (Forks n)"
proof -
  note I = ring_invD [OF inv] and P = pids_okD [OF ring_invD(1) [OF inv]]
  have n: "n < 4" "tok = Nowhere" "length pids = n" using I(2) P(6) by (simp_all add: tok_ok_def forked_def)
  obtain t where t: "w_tasks w m = Some t" "t_exited t = None" "t_prog t = start_ring (4 - n) m pids (\<lambda>pids. main_tells pids 0)"
    "t_inbox t = []" "t_parent t = - 1"
    by (rule main_atE [OF I(3)]) (use n in \<open>simp add: main_box_def\<close>)
  have "card (insert m (set pids)) \<le> Suc (length pids)" using P(3) by (simp add: card_length)
  then have c: "finite (insert m (set pids))" "card (insert m (set pids)) < 31" using n by auto
  have d: "\<forall>p. p \<notin> insert m (set pids) \<longrightarrow> w_tasks w p = None" using I(5) by simp
  obtain p where p: "free_pid w = Some p" "w_tasks w p = None" "1 \<le> p" by (rule free_pid_found [OF c d])
  have p32: "p < 32" using p(1) by (auto simp: free_pid_def find_Some_iff)
  have ch: "child_at m pids know tok (Forks n) j (w_tasks w (pids ! j))" if "j < n" for j using I(4) n(3) that by simp
  have pn: "p \<noteq> m" "p \<notin> set pids"
  proof -
    show "p \<noteq> m" using p(2) t(1) by auto
    show "p \<notin> set pids"
    proof
      assume "p \<in> set pids"
      then obtain j where "j < n" "pids ! j = p" using n(3) by (auto simp: in_set_conv_nth)
      with ch [of j] p(2) show False by (simp add: child_at_def gone_def)
    qed
  qed
  let ?K = "\<lambda>pids. main_tells pids 0" and ?pc = "if n = 3 then Tells 0 else Forks (Suc n)"
  have "4 - n = Suc (3 - n)" using n by simp
  note e = t(3) [unfolded this start_ring_forks n(3)]
  let ?c = "\<lparr>t_prog = ring (int n) m, t_inbox = [], t_errno = 0, t_parent = m, t_exited = None\<rparr>"
  let ?w = "put_task p (Some ?c) (put_task m (Some (t\<lparr>t_prog := start_ring (3 - n) m (pids @ [p]) ?K, t_errno := 0\<rparr>)) w)"
  have s: "task_step m w = Some ?w" using step_fork [OF t(1,2) e p(1) pn(1)] p(3) by simp
  have nk: "\<not> know j" for j using I(6) by (simp add: told_def)
  have q: "told ?pc = 0" "gone ?pc = 0" "forked ?pc = Suc n" "\<And>j. ?pc \<noteq> Reaps j" "\<And>j. Forks n \<noteq> Reaps j"
    by (simp_all add: told_def gone_def forked_def)
  have "child_at m (pids @ [p]) know tok ?pc j (w_tasks ?w ((pids @ [p]) ! j))" if "j < Suc n" for j
  proof (cases "j = n")
    case True
    then show ?thesis using n q nk by (simp add: child_at_def child_prog_def child_box_def nth_append)
  next
    case False
    with that have j: "j < n" by simp
    then have "pids ! j \<in> set pids" using n(3) by simp
    then have "pids ! j \<noteq> p" "pids ! j \<noteq> m" using pn P(3) by auto
    with ch [OF j] j n q nk show ?thesis
      by (simp add: child_at_def child_prog_def child_box_def nth_append told_def gone_def)
  qed
  moreover have "main_at m (pids @ [p]) tok ?pc (w_tasks ?w m)"
    using t pn n by (simp add: main_at_def main_box_def)
  moreover have "pids_ok m (pids @ [p]) ?pc" using P n q pn p(3) p32 by (simp add: pids_ok_def)
  moreover have "w_out ?w = out @ ring_out tok ?pc" using I(8) by (simp add: ring_out_def)
  ultimately have "ring_inv m out (pids @ [p]) know tok ?pc ?w"
    using I(5) n q nk by (simp add: ring_inv_def tok_ok_def reached_def)
  moreover have "Suc (ring_left know tok ?pc) = ring_left know tok (Forks n)" using n by (auto simp: ring_left_def main_left_def)
  ultimately show ?thesis using s by blast
qed

lemma ring_starts:
  assumes inv: "ring_inv m out pids know tok Start w"
  shows "\<exists>w'. task_step m w = Some w' \<and> ring_inv m out pids know tok (Forks 0) w' \<and>
    Suc (ring_left know tok (Forks 0)) = ring_left know tok Start"
proof -
  note I = ring_invD [OF inv] and P = pids_okD [OF ring_invD(1) [OF inv]]
  have n: "tok = Nowhere" "pids = []" using I(2) P(6) by (simp_all add: tok_ok_def forked_def)
  obtain t where t: "w_tasks w m = Some t" "t_exited t = None" "t_prog t = test_ring (Return ())" "t_inbox t = []" "t_parent t = - 1"
    by (rule main_atE [OF I(3)]) (use n in \<open>simp add: main_box_def\<close>)
  from step_getpid [OF t(1,2) t(3) [unfolded test_ring_starts]] have
    s: "task_step m w = Some (put_task m (Some (t\<lparr>t_prog := main_prog m pids (Forks 0), t_errno := 0\<rparr>)) w)" by (simp add: n)
  have "ring_inv m out pids know tok (Forks 0) (put_task m (Some (t\<lparr>t_prog := main_prog m pids (Forks 0), t_errno := 0\<rparr>)) w)"
    by (rule main_alone [OF inv]) (use t n I(8) in \<open>simp_all add: told_def gone_def forked_def tok_ok_def main_box_def ring_out_def\<close>)
  with s show ?thesis by (simp add: ring_left_def main_left_def)
qed

text \<open>The main process sends a message to the child \<open>j\<close>.\<close>

lemma main_sends:
  assumes inv: "ring_inv m out pids know tok pc w" and j: "j < length pids" "gone pc = 0" "\<And>i. pc \<noteq> Reaps i" "\<And>i. pc' \<noteq> Reaps i"
    and prog: "main_prog m pids pc = Call (Send (pids ! j) tag (Bytes d)) (\<lambda>_. main_prog m pids pc')" and d: "length d = 4"
    and box: "child_box pids know tok' pc' j = child_box pids know tok pc j @ [(tag, 4, d)]"
      "\<And>i. i \<noteq> j \<Longrightarrow> child_box pids know tok' pc' i = child_box pids know tok pc i"
    and same: "\<And>i. child_prog m pids know tok' i = child_prog m pids know tok i" "gone pc' = 0" "main_box tok' pc' = main_box tok pc"
      "forked pc' = forked pc" "tok_ok tok' pc'" "ring_out tok' pc' = ring_out tok pc"
    and know: "\<And>i. told pc' \<le> i \<Longrightarrow> told pc \<le> i" "reached tok' = reached tok" and few: "length (child_box pids know tok pc j) < 8"
  shows "\<exists>w'. task_step m w = Some w' \<and> ring_inv m out pids know tok' pc' w'"
proof -
  note I = ring_invD [OF inv] and P = pids_okD [OF ring_invD(1) [OF inv]]
  obtain t where t: "w_tasks w m = Some t" "t_exited t = None" "t_prog t = main_prog m pids pc" "map content (t_inbox t) = main_box tok pc" "t_parent t = - 1"
    by (rule main_atE [OF I(3)])
  from I(4) [OF j(1)] j(2,3) obtain c where c: "w_tasks w (pids ! j) = Some c" "t_parent c = m" "t_exited c = None"
    "t_prog c = child_prog m pids know tok j" "map content (t_inbox c) = child_box pids know tok pc j" by (auto simp: child_at_def)
  have ne: "pids ! i \<noteq> m" if "i < length pids" for i using P(3) that nth_mem by fastforce
  have "length (t_inbox c) < 8" using few c(5) by (metis length_map)
  from step_send [OF t(1,2) t(3) [unfolded prog] c(1,3) this] d ne [OF j(1)] have
    s: "task_step m w = Some (put_task m (Some (t\<lparr>t_prog := main_prog m pids pc', t_errno := 0\<rparr>))
      (put_task (pids ! j) (Some (c\<lparr>t_inbox := t_inbox c @ [mail m tag d]\<rparr>)) w))" (is "_ = Some ?w") by simp
  have "\<forall>i < length pids. child_at m pids know tok' pc' i
      (((w_tasks w)(pids ! j := Some (c\<lparr>t_inbox := t_inbox c @ [mail m tag d]\<rparr>))) (pids ! i))"
  proof (rule child_update [OF P(4) j(1)])
    show "child_at m pids know tok' pc' j (Some (c\<lparr>t_inbox := t_inbox c @ [mail m tag d]\<rparr>))"
      using c j(4) box(1) same(1,2) d by (simp add: child_at_def content_mail)
    show "child_at m pids know tok' pc' i (w_tasks w (pids ! i))" if "i < length pids" "i \<noteq> j" for i
      using I(4) [OF that(1)] box(2) [OF that(2)] same(1,2) j(2-4) by (simp add: child_at_def)
  qed
  moreover have "w_tasks ?w (pids ! i) = ((w_tasks w)(pids ! j := Some (c\<lparr>t_inbox := t_inbox c @ [mail m tag d]\<rparr>))) (pids ! i)"
    if "i < length pids" for i using ne [OF that] by simp
  ultimately have ch: "\<forall>i < length pids. child_at m pids know tok' pc' i (w_tasks ?w (pids ! i))" by simp
  have "main_at m pids tok' pc' (w_tasks ?w m)" using t same(3) by (simp add: main_at_def)
  moreover have "pids_ok m pids pc'" using I(1) same(4) by (simp add: pids_ok_def)
  moreover have "\<forall>p. p \<noteq> m \<and> p \<notin> set pids \<longrightarrow> w_tasks ?w p = None" using I(5) j(1) by auto
  ultimately have "ring_inv m out pids know tok' pc' ?w"
    using ch same(5,6) know I(6-8) by (simp add: ring_inv_def)
  with s show ?thesis by blast
qed

lemma ring_tells:
  assumes inv: "ring_inv m out pids know tok (Tells k) w"
  shows "\<exists>w' tok' pc'. task_step m w = Some w' \<and> ring_inv m out pids know tok' pc' w' \<and>
    Suc (ring_left know tok' pc') = ring_left know tok (Tells k)"
proof -
  note I = ring_invD [OF inv] and P = pids_okD [OF ring_invD(1) [OF inv]]
  have n: "tok = Nowhere" "k \<le> 4" "length pids = 4" using I(2) P(6) by (simp_all add: tok_ok_def forked_def)
  note D = told_def gone_def forked_def tok_ok_def main_box_def ring_out_def child_box_def child_prog_def reached_def printed_def
  show ?thesis
  proof (cases "k = 4")
    case True
    have "main_prog m pids (Tells k) = Call (Send (pids ! 0) TAG_TOKEN (Bytes (int_bytes 0))) (\<lambda>_. main_prog m pids Waits)"
      using n True by (simp add: main_tells_done main_gives_def hd_conv_nth flip: length_greater_0_conv)
    then have "\<exists>w'. task_step m w = Some w' \<and> ring_inv m out pids know (Inbox 0) Waits w'"
      by (rule main_sends [OF inv, rotated 4]) (use n True in \<open>auto simp: D\<close>)
    moreover have "Suc (ring_left know (Inbox 0) Waits) = ring_left know tok (Tells k)"
      using n True by (simp add: ring_left_def main_left_def tok_left_def)
    ultimately show ?thesis by blast
  next
    case False
    then have k: "k < 4" using n by simp
    have nk: "\<not> know k" using I(6) by (simp add: told_def)
    have "main_prog m pids (Tells k) = Call (Send (pids ! k) TAG_NEIGHBOUR (Bytes (int_bytes (pids ! (Suc k mod 4))))) (\<lambda>_. main_prog m pids (Tells (Suc k)))"
      using main_tells_next [OF n(3) k] by simp
    then have "\<exists>w'. task_step m w = Some w' \<and> ring_inv m out pids know tok (Tells (Suc k)) w'"
      by (rule main_sends [OF inv, rotated 4]) (use n k nk in \<open>auto simp: D less_Suc_eq\<close>)
    moreover have "Suc (ring_left know tok (Tells (Suc k))) = ring_left know tok (Tells k)"
      using k by (simp add: ring_left_def main_left_def)
    ultimately show ?thesis by blast
  qed
qed

lemma ring_gets_back:
  assumes inv: "ring_inv m out pids know tok Waits w"
  shows "if tok = Back then \<exists>w'. task_step m w = Some w' \<and> ring_inv m out pids know tok Shows w' else task_step m w = None"
proof -
  note I = ring_invD [OF inv] and P = pids_okD [OF ring_invD(1) [OF inv]]
  obtain t where t: "w_tasks w m = Some t" "t_exited t = None" "t_prog t = main_waits pids" "map content (t_inbox t) = main_box tok Waits" "t_parent t = - 1"
    by (rule main_atE [OF I(3)]) simp
  note e = t(3) [unfolded main_waits_def attempt_def]
  show ?thesis
  proof (cases "tok = Back")
    case True
    with t(4) obtain x where x: "t_inbox t = [x]" "content x = (TAG_TOKEN, 4, int_bytes 100)" by (auto simp: main_box_def map_content_Cons)
    have "msg_int x = 100" by (rule msg_int_content [OF x(2)]) simp_all
    with step_receive [OF t(1,2) e x(1)] x(2) have
      s: "task_step m w = Some (put_task m (Some (t\<lparr>t_inbox := [], t_prog := main_prog m pids Shows, t_errno := 0\<rparr>)) w)"
      by (simp add: insist_def content_def)
    have "ring_inv m out pids know tok Shows (put_task m (Some (t\<lparr>t_inbox := [], t_prog := main_prog m pids Shows, t_errno := 0\<rparr>)) w)"
      by (rule main_alone [OF inv]) (use t True I(8) in \<open>simp_all add: told_def gone_def forked_def tok_ok_def main_box_def ring_out_def\<close>)
    with s True show ?thesis by simp
  next
    case False
    with t(4) have "t_inbox t = []" by (simp add: main_box_def)
    with step_blocked [OF t(1,2) e] False show ?thesis by simp
  qed
qed

lemma main_says:
  assumes inv: "ring_inv m out pids know tok pc w" and prog: "main_prog m pids pc = say f ap (main_prog m pids pc')"
    and u: "format_text (chars f @ [10, 0]) ap = Some u" "ring_out tok pc' = ring_out tok pc @ u"
    and pc: "told pc' = told pc" "gone pc' = gone pc" "forked pc' = forked pc" "tok_ok tok pc'" "main_box tok pc' = main_box tok pc"
      "\<And>j. pc \<noteq> Reaps j" "\<And>j. pc' \<noteq> Reaps j"
  shows "\<exists>w'. task_step m w = Some w' \<and> ring_inv m out pids know tok pc' w'"
proof -
  note I = ring_invD [OF inv]
  obtain t where t: "w_tasks w m = Some t" "t_exited t = None" "t_prog t = main_prog m pids pc" "map content (t_inbox t) = main_box tok pc" "t_parent t = - 1"
    by (rule main_atE [OF I(3)])
  note s = step_printf [OF t(1,2) t(3) [unfolded prog say_def] u(1)]
  have "ring_inv m out pids know tok pc' (put_task m (Some (t\<lparr>t_prog := main_prog m pids pc', t_errno := 0\<rparr>)) (w\<lparr>w_out := w_out w @ u\<rparr>))"
    by (rule main_alone [OF inv pc(1-4,6,7)]) (use t u(2) I(8) pc(5) in simp_all)
  with s show ?thesis by blast
qed

lemma ring_kills:
  assumes inv: "ring_inv m out pids know tok (Kills k) w" and k: "k < 4"
  shows "\<exists>w'. task_step m w = Some w' \<and> ring_inv m out pids know tok (Reaps k) w'"
proof -
  note I = ring_invD [OF inv] and P = pids_okD [OF ring_invD(1) [OF inv]]
  have n: "tok = Back" "length pids = 4" using I(2) P(6) by (simp_all add: tok_ok_def forked_def)
  obtain t where t: "w_tasks w m = Some t" "t_exited t = None" "t_prog t = main_prog m pids (Kills k)" "map content (t_inbox t) = main_box tok (Kills k)" "t_parent t = - 1"
    by (rule main_atE [OF I(3)])
  have kp: "k < length pids" using n k by simp
  from I(4) [OF kp] obtain c where c: "w_tasks w (pids ! k) = Some c" "t_parent c = m" "t_exited c = None"
    by (auto simp: child_at_def gone_def)
  have ne: "pids ! i \<noteq> m" if "i < length pids" for i using P(3) that nth_mem by fastforce
  have pos: "1 \<le> pids ! k" using P(5) kp by simp
  have "t_parent x \<noteq> pids ! k" if ix: "w_tasks w i = Some x" for i x
  proof -
    consider "i = m" | j where "j < length pids" "i = pids ! j" using I(5) [of i] ix by (cases "i = m"; cases "i \<in> set pids") (auto simp: in_set_conv_nth)
    then show ?thesis
    proof cases
      case 1
      with ix t(1,5) pos show ?thesis by auto
    next
      case (2 j)
      with I(4) [OF 2(1)] ix have "t_parent x = m" by (auto simp: child_at_def split: if_splits)
      with ne [OF kp] show ?thesis by simp
    qed
  qed
  then have par: "\<forall>j x. w_tasks w j = Some x \<longrightarrow> t_parent x \<noteq> pids ! k" by blast
  note e = t(3) [unfolded main_prog.simps kill_rest_next [OF n(2) k, of m] attempt_def]
  have "m \<noteq> - 1" using P(1) by simp
  from step_kill [OF t(1,2) e c(1,3) ne [OF kp] c(2) this par] have
    s: "task_step m w = Some (put_task m (Some (t\<lparr>t_prog := main_prog m pids (Reaps k), t_errno := 0\<rparr>)) (put_task (pids ! k) (Some (c\<lparr>t_exited := Some 0\<rparr>)) w))"
    (is "_ = Some ?w") by (simp add: attempt_def)
  have "\<forall>i < length pids. child_at m pids know tok (Reaps k) i (((w_tasks w)(pids ! k := Some (c\<lparr>t_exited := Some 0\<rparr>))) (pids ! i))"
  proof (rule child_update [OF P(4) kp])
    show "child_at m pids know tok (Reaps k) k (Some (c\<lparr>t_exited := Some 0\<rparr>))" using c by (simp add: child_at_def gone_def)
    show "child_at m pids know tok (Reaps k) i (w_tasks w (pids ! i))" if "i < length pids" "i \<noteq> k" for i
      using I(4) [OF that(1)] that(2) child_at_pc [of "Reaps k" "Kills k" i] by (simp add: told_def gone_def)
  qed
  then have "\<forall>i < length pids. child_at m pids know tok (Reaps k) i (w_tasks ?w (pids ! i))" using ne by simp
  moreover have "main_at m pids tok (Reaps k) (w_tasks ?w m)" using t by (simp add: main_at_def main_box_def)
  moreover have "\<forall>p. p \<noteq> m \<and> p \<notin> set pids \<longrightarrow> w_tasks ?w p = None" using I(5) kp by auto
  ultimately have "ring_inv m out pids know tok (Reaps k) ?w"
    using I(1,6-8) n k by (simp add: ring_inv_def pids_ok_def forked_def tok_ok_def told_def ring_out_def)
  with s show ?thesis by blast
qed

lemma ring_reaps:
  assumes inv: "ring_inv m out pids know tok (Reaps k) w"
  shows "\<exists>w'. task_step m w = Some w' \<and> ring_inv m out pids know tok (Kills (Suc k)) w'"
proof -
  note I = ring_invD [OF inv] and P = pids_okD [OF ring_invD(1) [OF inv]]
  have n: "tok = Back" "length pids = 4" "k < 4" using I(2) P(6) by (simp_all add: tok_ok_def forked_def)
  obtain t where t: "w_tasks w m = Some t" "t_exited t = None" "t_prog t = main_prog m pids (Reaps k)" "map content (t_inbox t) = main_box tok (Reaps k)" "t_parent t = - 1"
    by (rule main_atE [OF I(3)])
  have kp: "k < length pids" using n by simp
  from I(4) [OF kp] obtain c where c: "w_tasks w (pids ! k) = Some c" "t_parent c = m" "t_exited c \<noteq> None"
    by (auto simp: child_at_def gone_def)
  have ne: "pids ! i \<noteq> m" if "i < length pids" for i using P(3) that nth_mem by fastforce
  have "0 \<le> pids ! k" using P(5) [of "pids ! k"] kp by simp
  with step_waitpid [OF t(1,2) t(3) [unfolded main_prog.simps attempt_def] c(1,3) ne [OF kp] c(2)] have
    s: "task_step m w = Some (put_task m (Some (t\<lparr>t_prog := main_prog m pids (Kills (Suc k)), t_errno := 0\<rparr>)) (put_task (pids ! k) None w))"
    (is "_ = Some ?w") by simp
  have "\<forall>i < length pids. child_at m pids know tok (Kills (Suc k)) i (((w_tasks w)(pids ! k := None)) (pids ! i))"
  proof (rule child_update [OF P(4) kp])
    show "child_at m pids know tok (Kills (Suc k)) k None" by (simp add: child_at_def gone_def)
    show "child_at m pids know tok (Kills (Suc k)) i (w_tasks w (pids ! i))" if "i < length pids" "i \<noteq> k" for i
      using I(4) [OF that(1)] that(2) by (auto simp: child_at_def gone_def child_box_def told_def)
  qed
  then have "\<forall>i < length pids. child_at m pids know tok (Kills (Suc k)) i (w_tasks ?w (pids ! i))" using ne by simp
  moreover have "main_at m pids tok (Kills (Suc k)) (w_tasks ?w m)" using t by (simp add: main_at_def main_box_def)
  moreover have "\<forall>p. p \<noteq> m \<and> p \<notin> set pids \<longrightarrow> w_tasks ?w p = None" using I(5) by auto
  ultimately have "ring_inv m out pids know tok (Kills (Suc k)) ?w"
    using I(1,6-8) n by (simp add: ring_inv_def pids_ok_def forked_def tok_ok_def told_def ring_out_def)
  with s show ?thesis by blast
qed

subsection \<open>Steps of the children\<close>

lemma child_update_inv:
  assumes inv: "ring_inv m out pids know tok pc w" and j: "j < length pids" and w': "w_tasks w' = (w_tasks w)(pids ! j \<mapsto> t)"
    and out: "w_out w' = out @ ring_out tok' pc" and ok: "tok_ok tok' pc" "main_box tok' pc = main_box tok pc"
    and t: "child_at m pids know' tok' pc j (Some t)"
    and others: "\<And>i. i < length pids \<Longrightarrow> i \<noteq> j \<Longrightarrow> child_at m pids know' tok' pc i (w_tasks w (pids ! i))"
    and know: "\<And>i. told pc \<le> i \<Longrightarrow> \<not> know' i" "\<And>i. i < 4 \<Longrightarrow> i < reached tok' \<Longrightarrow> know' i"
  shows "ring_inv m out pids know' tok' pc w'"
proof -
  note I = ring_invD [OF inv] and P = pids_okD [OF ring_invD(1) [OF inv]]
  have "m \<noteq> pids ! j" using P(3) j nth_mem by metis
  then have "main_at m pids tok' pc (w_tasks w' m)" using I(3) ok(2) w' by (simp add: main_at_def)
  moreover have "\<forall>i < length pids. child_at m pids know' tok' pc i (w_tasks w' (pids ! i))"
    unfolding w' by (rule child_update [OF P(4) j others t])
  moreover have "\<forall>p. p \<noteq> m \<and> p \<notin> set pids \<longrightarrow> w_tasks w' p = None" using I(5) j w' by auto
  ultimately show ?thesis using I(1) ok(1) out know by (simp add: ring_inv_def)
qed

lemma child_at_other:
  assumes "child_at m pids know tok pc i x" "child_prog m pids know' tok' i = child_prog m pids know tok i"
    "child_box pids know' tok' pc i = child_box pids know tok pc i"
  shows "child_at m pids know' tok' pc i x"
  using assms(1) unfolding child_at_def assms(2,3) .

lemma holder_less: "1 \<le> v \<Longrightarrow> holder v < v" "holder v < 4"
  using mod_less_eq_dividend [of "v - 1" 4] by (simp_all add: holder_def)

text \<open>A child that does not know its neighbour: it waits for the message, or takes it.\<close>

lemma child_learns:
  assumes inv: "ring_inv m out pids know tok pc w" and j: "j < length pids" "gone pc \<le> j" "pc \<noteq> Reaps j" "\<not> know j"
  shows "(\<exists>w'. task_step (pids ! j) w = Some w' \<and> ring_inv m out pids (know(j := True)) tok pc w') \<and> j < told pc \<or>
    task_step (pids ! j) w = None \<and> told pc \<le> j"
proof -
  note I = ring_invD [OF inv] and P = pids_okD [OF ring_invD(1) [OF inv]]
  have j4: "j < 4" using j(1) P(6) I(2) by (auto simp: forked_def tok_ok_def split: pc.splits)
  have nt: "tok \<noteq> Prints v" "tok \<noteq> Passes v" if "holder v = j" for v
    using I(2) I(7) [OF j4] j(4) that holder_less(1) [of v] by (auto simp: reached_def tok_ok_def split: pc.splits)
  have cp: "child_prog m pids know tok j = ring (int j) m" using j(4) nt by (auto simp: child_prog_def split: tok.splits)
  from I(4) [OF j(1)] j(2,3) obtain c where c: "w_tasks w (pids ! j) = Some c" "t_parent c = m" "t_exited c = None"
    "t_prog c = ring (int j) m" "map content (t_inbox c) = child_box pids know tok pc j" unfolding cp by (auto simp: child_at_def cp)
  note e = c(4) [unfolded ring_listens]
  show ?thesis
  proof (cases "j < told pc")
    case False
    then have "tok = Nowhere" using I(2) j4 by (auto simp: told_def tok_ok_def split: pc.splits)
    with c(5) False have "t_inbox c = []" by (simp add: child_box_def)
    with step_blocked [OF c(1,3) e] False show ?thesis by simp
  next
    case True
    then have len: "length pids = 4" using P(6) by (auto simp: told_def forked_def split: pc.splits)
    let ?p = "pids ! (Suc j mod 4)"
    have p: "1 \<le> ?p" "?p < 32" using P(5) [of ?p] len by simp_all
    from c(5) True j(4) obtain x xs where x: "t_inbox c = x # xs" "content x = (TAG_NEIGHBOUR, 4, int_bytes ?p)"
      "map content xs = child_box pids (know(j := True)) tok pc j" by (auto simp: child_box_def map_content_Cons)
    let ?t = "c\<lparr>t_inbox := xs, t_prog := loop (ring_round (int j) m ?p) (), t_errno := 0\<rparr>"
    from step_receive [OF c(1,3) e x(1)] ring_learns [of "(answer 0)\<lparr>rp_msg := x\<rparr>" ?p "int j" m] x(2) p have
      s: "task_step (pids ! j) w = Some (put_task (pids ! j) (Some ?t) w)" by simp
    have "ring_inv m out pids (know(j := True)) tok pc (put_task (pids ! j) (Some ?t) w)"
    proof (rule child_update_inv [OF inv j(1)])
      have "child_prog m pids (know(j := True)) tok j = loop (ring_round (int j) m ?p) ()"
        using nt by (auto simp: child_prog_def split: tok.splits)
      with c(2,3) x(3) j(2,3) show "child_at m pids (know(j := True)) tok pc j (Some ?t)" by (simp add: child_at_def)
      show "child_at m pids (know(j := True)) tok pc i (w_tasks w (pids ! i))" if "i < length pids" "i \<noteq> j" for i
        by (rule child_at_other [OF I(4) [OF that(1)]]) (use that(2) in \<open>simp_all add: child_prog_def child_box_def\<close>)
    qed (use I True in auto)
    with s True show ?thesis by blast
  qed
qed

text \<open>A child that knows its neighbour and does not have the token.\<close>

lemma child_takes:
  assumes inv: "ring_inv m out pids know tok pc w" and j: "j < length pids" "gone pc \<le> j" "pc \<noteq> Reaps j" "know j"
    and nt: "\<And>v. holder v = j \<Longrightarrow> tok \<noteq> Prints v \<and> tok \<noteq> Passes v"
  shows "case tok of Inbox v \<Rightarrow> if v mod 4 = j then \<exists>w'. task_step (pids ! j) w = Some w' \<and> ring_inv m out pids know (Prints (Suc v)) pc w'
      else task_step (pids ! j) w = None | _ \<Rightarrow> task_step (pids ! j) w = None"
proof -
  note I = ring_invD [OF inv] and P = pids_okD [OF ring_invD(1) [OF inv]]
  let ?p = "pids ! (Suc j mod 4)"
  have cp: "child_prog m pids know tok j = loop (ring_round (int j) m ?p) ()" using j(4) nt by (auto simp: child_prog_def split: tok.splits)
  from I(4) [OF j(1)] j(2,3) obtain c where c: "w_tasks w (pids ! j) = Some c" "t_parent c = m" "t_exited c = None"
    "t_prog c = loop (ring_round (int j) m ?p) ()" "map content (t_inbox c) = child_box pids know tok pc j" by (auto simp: child_at_def cp)
  note e = c(4) [unfolded ring_waits]
  show ?thesis
  proof (cases "\<exists>v. tok = Inbox v \<and> v mod 4 = j")
    case False
    with c(5) j(4) have "t_inbox c = []" by (auto simp: child_box_def split: tok.splits)
    with step_blocked [OF c(1,3) e] False show ?thesis by (simp split: tok.splits)
  next
    case True
    then obtain v where v: "tok = Inbox v" "v mod 4 = j" by blast
    have pc: "pc = Waits" "v < 100" using I(2) v(1) by (auto simp: tok_ok_def split: pc.splits)
    from c(5) v j(4) obtain x where x: "t_inbox c = [x]" "content x = (TAG_TOKEN, 4, int_bytes (int v))"
      by (auto simp: child_box_def map_content_Cons)
    let ?t = "c\<lparr>t_inbox := [], t_prog := printing m pids (Suc v), t_errno := 0\<rparr>"
    from step_receive [OF c(1,3) e x(1)] ring_takes [of "(answer 0)\<lparr>rp_msg := x\<rparr>" v m pids] x(2) pc(2) v(2) have
      s: "task_step (pids ! j) w = Some (put_task (pids ! j) (Some ?t) w)" by simp
    have h: "holder (Suc v) = j" using v(2) by (simp add: holder_def)
    have "ring_inv m out pids know (Prints (Suc v)) pc (put_task (pids ! j) (Some ?t) w)"
    proof (rule child_update_inv [OF inv j(1)])
      show "child_at m pids know (Prints (Suc v)) pc j (Some ?t)"
        using c(2,3) j h by (simp add: child_at_def child_prog_def child_box_def)
      show "child_at m pids know (Prints (Suc v)) pc i (w_tasks w (pids ! i))" if "i < length pids" "i \<noteq> j" for i
        by (rule child_at_other [OF I(4) [OF that(1)]]) (use that(2) h v in \<open>auto simp: child_prog_def child_box_def\<close>)
      show "know i" if "i < 4" "i < reached (Prints (Suc v))" for i
        using I(7) [OF that(1)] that j(4) v by (cases "i = v") (auto simp: reached_def)
    qed (use I(6,8) v pc in \<open>auto simp: tok_ok_def main_box_def ring_out_def printed_def\<close>)
    with s v show ?thesis by auto
  qed
qed

text \<open>The child that has the token prints its value, and sends it on.\<close>

lemma child_prints:
  assumes inv: "ring_inv m out pids know (Prints v) pc w"
  shows "\<exists>w'. task_step (pids ! holder v) w = Some w' \<and> ring_inv m out pids know (Passes v) pc w'"
proof -
  note I = ring_invD [OF inv] and P = pids_okD [OF ring_invD(1) [OF inv]]
  let ?j = "holder v"
  have pc: "pc = Waits" "1 \<le> v" "v \<le> 100" using I(2) by (auto simp: tok_ok_def split: pc.splits)
  have j: "?j < length pids" using P(6) pc(1) holder_less(2) [of v] by (simp add: forked_def)
  from I(4) [OF j] pc(1) obtain c where c: "w_tasks w (pids ! ?j) = Some c" "t_parent c = m" "t_exited c = None"
    "t_prog c = printing m pids v" "map content (t_inbox c) = child_box pids know (Prints v) pc ?j"
    by (auto simp: child_at_def child_prog_def gone_def)
  let ?t = "c\<lparr>t_prog := passing m pids v, t_errno := 0\<rparr>" and ?w = "w\<lparr>w_out := w_out w @ pass_line v\<rparr>"
  have s: "task_step (pids ! ?j) w = Some (put_task (pids ! ?j) (Some ?t) ?w)"
  proof (cases "v < 100")
    case True
    have e: "t_prog c = Call (Printf (chars ''%d: got token (value = %d), passing to %d'' @ [10, 0])
        [num (int ?j), num (int v), num ((int ?j + 1) mod 4)]) (\<lambda>_. passing m pids v)" using c(4) True by (simp add: printing_def say_def Let_def)
    show ?thesis by (rule step_printf [OF c(1,3) e pass_line_text(1) [OF True holder_def]])
  next
    case False
    have e: "t_prog c = Call (Printf (chars ''%d: got token (value = %d), passing back to main process'' @ [10, 0])
        [num (int ?j), num (int v)]) (\<lambda>_. passing m pids v)" using c(4) False by (simp add: printing_def say_def Let_def)
    show ?thesis by (rule step_printf [OF c(1,3) e pass_line_text(2) [OF False holder_def]])
  qed
  have "ring_inv m out pids know (Passes v) pc (put_task (pids ! ?j) (Some ?t) ?w)"
  proof (rule child_update_inv [OF inv j])
    show "child_at m pids know (Passes v) pc ?j (Some ?t)" using c pc(1) by (simp add: child_at_def child_prog_def child_box_def gone_def)
    show "child_at m pids know (Passes v) pc i (w_tasks w (pids ! i))" if "i < length pids" "i \<noteq> ?j" for i
      by (rule child_at_other [OF I(4) [OF that(1)]]) (use that(2) in \<open>simp_all add: child_prog_def child_box_def\<close>)
    have "[1..<Suc v] = [1..<v] @ [v]" using pc(2) by simp
    then show "w_out (put_task (pids ! ?j) (Some ?t) ?w) = out @ ring_out (Passes v) pc"
      using I(8) pc(1,2) by (simp add: ring_out_def printed_def)
  qed (use I(6,7) pc in \<open>auto simp: tok_ok_def main_box_def reached_def\<close>)
  with s show ?thesis by blast
qed

lemma child_passes:
  assumes inv: "ring_inv m out pids know (Passes v) pc w"
  shows "\<exists>w'. task_step (pids ! holder v) w = Some w' \<and> ring_inv m out pids know (if v < 100 then Inbox v else Back) pc w'"
proof -
  note I = ring_invD [OF inv] and P = pids_okD [OF ring_invD(1) [OF inv]]
  let ?j = "holder v" and ?n = "v mod 4"
  have pc: "pc = Waits" "1 \<le> v" "v \<le> 100" using I(2) by (auto simp: tok_ok_def split: pc.splits)
  have len: "length pids = 4" using P(6) pc(1) by (simp add: forked_def)
  have n: "Suc ?j mod 4 = ?n" using pc(2) by (simp add: holder_def mod_Suc_eq)
  have kj: "know ?j" using I(7) [of ?j] holder_less pc(2) by (simp add: reached_def)
  have j: "?j < length pids" "?n < length pids" using len holder_less(2) [of v] by simp_all
  have "Suc ?j mod 4 \<noteq> ?j" using holder_less(2) [of v] by (auto simp: mod_Suc)
  then have jn: "?j \<noteq> ?n" using n by simp
  from I(4) [OF j(1)] pc(1) obtain c where c: "w_tasks w (pids ! ?j) = Some c" "t_parent c = m" "t_exited c = None"
    "t_prog c = passing m pids v" "map content (t_inbox c) = child_box pids know (Passes v) pc ?j"
    by (auto simp: child_at_def child_prog_def gone_def)
  let ?go = "loop (ring_round (int ?j) m (pids ! ?n)) ()"
  let ?t = "c\<lparr>t_prog := ?go, t_errno := 0\<rparr>"
  have me: "child_at m pids know (if v < 100 then Inbox v else Back) pc ?j (Some ?t)"
    using c pc(1) kj n jn by (auto simp: child_at_def child_prog_def child_box_def gone_def)
  have rest: "child_at m pids know (if v < 100 then Inbox v else Back) pc i (w_tasks w (pids ! i))"
    if "i < length pids" "i \<noteq> ?j" "v < 100 \<longrightarrow> i \<noteq> ?n" for i
    by (rule child_at_other [OF I(4) [OF that(1)]]) (use that(2,3) in \<open>auto simp: child_prog_def child_box_def\<close>)
  show ?thesis
  proof (cases "v < 100")
    case True
    from I(4) [OF j(2)] pc(1) jn obtain d where d: "w_tasks w (pids ! ?n) = Some d" "t_parent d = m" "t_exited d = None"
      "t_prog d = child_prog m pids know (Passes v) ?n" "map content (t_inbox d) = child_box pids know (Passes v) pc ?n"
      by (auto simp: child_at_def gone_def)
    have few: "length (t_inbox d) < 8" using arg_cong [OF d(5), of length] by (simp add: child_box_def split: if_splits)
    let ?d = "d\<lparr>t_inbox := t_inbox d @ [mail (pids ! ?j) TAG_TOKEN (int_bytes (int v))]\<rparr>"
    have ne: "pids ! ?n \<noteq> pids ! ?j" using jn j P(4) by (simp add: nth_eq_iff_index_eq)
    have e: "t_prog c = Call (Send (pids ! ?n) TAG_TOKEN (Bytes (int_bytes (int v)))) (\<lambda>r. if 0 > rp_result r
        then Call Geterrno (\<lambda>e. say ''%s: %s'' [str ''send(next,TAG_TOKEN,(void*)&token,sizeof(int))'', str (strerror (rp_result e))] (Exit 1)) else ?go)"
      using c(4) True n by (simp add: passing_def attempt_def)
    from step_send [OF c(1,3) e d(1,3) few _ ne] have
      s: "task_step (pids ! ?j) w = Some (put_task (pids ! ?j) (Some ?t) (put_task (pids ! ?n) (Some ?d) w))" by simp
    let ?w = "put_task (pids ! ?j) (Some ?t) (put_task (pids ! ?n) (Some ?d) w)"
    have it: "child_at m pids know (Inbox v) pc ?n (Some ?d)"
      using d pc(1) jn by (simp add: child_at_def child_prog_def child_box_def content_mail gone_def)
    have "\<forall>i < length pids. child_at m pids know (Inbox v) pc i ((((w_tasks w)(pids ! ?n := Some ?d))(pids ! ?j := Some ?t)) (pids ! i))"
    proof (rule child_update [OF P(4) j(1)])
      show "child_at m pids know (Inbox v) pc ?j (Some ?t)" using me True by simp
      have "\<forall>i < length pids. i \<noteq> ?j \<longrightarrow> child_at m pids know (Inbox v) pc i (((w_tasks w)(pids ! ?n := Some ?d)) (pids ! i))"
        using rest True it P(4) j by (auto simp: nth_eq_iff_index_eq)
      then show "child_at m pids know (Inbox v) pc i (((w_tasks w)(pids ! ?n := Some ?d)) (pids ! i))" if "i < length pids" "i \<noteq> ?j" for i
        using that by blast
    qed
    moreover have "pids ! ?n \<noteq> m" "pids ! ?j \<noteq> m" using P(3) j nth_mem by metis+
    then have "main_at m pids (Inbox v) pc (w_tasks ?w m)" using I(3) by (simp add: main_at_def main_box_def)
    moreover have "\<forall>p. p \<noteq> m \<and> p \<notin> set pids \<longrightarrow> w_tasks ?w p = None" using I(5) j by auto
    ultimately have "ring_inv m out pids know (Inbox v) pc ?w"
      using I(1,6-8) True pc by (simp add: ring_inv_def tok_ok_def reached_def ring_out_def printed_def)
    with s True show ?thesis by auto
  next
    case False
    then have v: "v = 100" using pc(3) by simp
    obtain t where t: "w_tasks w m = Some t" "t_exited t = None" "t_prog t = main_prog m pids pc" "map content (t_inbox t) = main_box (Passes v) pc" "t_parent t = - 1"
      by (rule main_atE [OF I(3)])
    have box: "t_inbox t = []" using t(4) by (simp add: main_box_def)
    let ?m = "t\<lparr>t_inbox := t_inbox t @ [mail (pids ! ?j) TAG_TOKEN (int_bytes (int v))]\<rparr>"
    have ne: "m \<noteq> pids ! ?j" using P(3) j(1) nth_mem by metis
    have e: "t_prog c = Call (Send m TAG_TOKEN (Bytes (int_bytes (int v)))) (\<lambda>_. ?go)" using c(4) False n by (simp add: passing_def)
    let ?w = "put_task (pids ! ?j) (Some ?t) (put_task m (Some ?m) w)"
    have s: "task_step (pids ! ?j) w = Some ?w" using step_send [OF c(1,3) e t(1,2) _ _ ne] box by simp
    have ms: "pids ! i \<noteq> m" if "i < length pids" for i using P(3) that nth_mem by metis
    have "\<forall>i < length pids. child_at m pids know Back pc i (((w_tasks w)(pids ! ?j := Some ?t)) (pids ! i))"
      by (rule child_update [OF P(4) j(1)]) (use rest me False in auto)
    moreover have "w_tasks ?w (pids ! i) = ((w_tasks w)(pids ! ?j := Some ?t)) (pids ! i)" if "i < length pids" for i using ms [OF that] by simp
    ultimately have "\<forall>i < length pids. child_at m pids know Back pc i (w_tasks ?w (pids ! i))" by simp
    moreover have "main_at m pids Back pc (w_tasks ?w m)" using t ne box pc(1) v by (simp add: main_at_def main_box_def content_mail)
    moreover have "\<forall>p. p \<noteq> m \<and> p \<notin> set pids \<longrightarrow> w_tasks ?w p = None" using I(5) j by auto
    ultimately have "ring_inv m out pids know Back pc ?w"
      using I(1,6-8) v pc by (simp add: ring_inv_def tok_ok_def reached_def ring_out_def printed_def)
    with s False show ?thesis by auto
  qed
qed

subsection \<open>Every run\<close>

definition ring_goes :: "int \<Rightarrow> bytes \<Rightarrow> (nat \<Rightarrow> bool) \<Rightarrow> tok \<Rightarrow> pc \<Rightarrow> world option \<Rightarrow> bool" where
  "ring_goes m out know tok pc x \<longleftrightarrow>
     (case x of None \<Rightarrow> True
      | Some w' \<Rightarrow> \<exists>pids' know' tok' pc'. ring_inv m out pids' know' tok' pc' w' \<and> Suc (ring_left know' tok' pc') = ring_left know tok pc)"

lemma ring_goesI:
  "task_step i w = Some w' \<Longrightarrow> ring_inv m out pids' know' tok' pc' w' \<Longrightarrow> Suc (ring_left know' tok' pc') = ring_left know tok pc \<Longrightarrow>
    ring_goes m out know tok pc (task_step i w)"
  by (auto simp: ring_goes_def)

lemma ring_main_step:
  assumes inv: "ring_inv m out pids know tok pc w"
  shows "ring_goes m out know tok pc (task_step m w)" "pc \<noteq> Over \<Longrightarrow> pc \<noteq> Waits \<or> tok = Back \<Longrightarrow> task_step m w \<noteq> None"
proof -
  note I = ring_invD [OF inv] and L = ring_left_def main_left_def
  note D = told_def gone_def forked_def tok_ok_def main_box_def ring_out_def
  have *: "(\<exists>w' pids' know' tok' pc'. task_step m w = Some w' \<and> ring_inv m out pids' know' tok' pc' w' \<and> Suc (ring_left know' tok' pc') = ring_left know tok pc) \<or>
      task_step m w = None \<and> (pc = Over \<or> pc = Waits \<and> tok \<noteq> Back)"
  proof (cases pc)
    case Start
    with ring_starts inv show ?thesis by blast
  next
    case (Forks n)
    with ring_forks inv show ?thesis by blast
  next
    case (Tells k)
    with ring_tells inv show ?thesis by blast
  next
    case Waits
    have "Suc (ring_left know tok Shows) = ring_left know tok Waits" by (simp add: L)
    with ring_gets_back [OF inv [unfolded Waits]] Waits show ?thesis by (cases "tok = Back") (simp_all, blast)
  next
    case Shows
    have "\<exists>w'. task_step m w = Some w' \<and> ring_inv m out pids know tok (Kills 0) w'"
      by (rule main_says [OF inv _ main_line_text]) (use Shows I(2) in \<open>simp_all add: D\<close>)
    moreover have "Suc (ring_left know tok (Kills 0)) = ring_left know tok pc" using Shows by (simp add: L)
    ultimately show ?thesis by blast
  next
    case (Kills k)
    then have k: "tok = Back" "k \<le> 4" "length pids = 4" using I(2) pids_okD(6) [OF I(1)] by (simp_all add: D)
    show ?thesis
    proof (cases "k = 4")
      case True
      have "\<exists>w'. task_step m w = Some w' \<and> ring_inv m out pids know tok Over w'"
        by (rule main_says [OF inv _ end_line_text]) (use Kills True k in \<open>simp_all add: D kill_rest_def\<close>)
      moreover have "Suc (ring_left know tok Over) = ring_left know tok pc" using Kills True by (simp add: L)
      ultimately show ?thesis by blast
    next
      case False
      then have "k < 4" using k by simp
      moreover from this have "Suc (ring_left know tok (Reaps k)) = ring_left know tok pc" using Kills by (simp add: L)
      ultimately show ?thesis using ring_kills inv Kills by blast
    qed
  next
    case (Reaps k)
    then have "k < 4" using I(2) by (simp add: D)
    then have "Suc (ring_left know tok (Kills (Suc k))) = ring_left know tok pc" using Reaps by (simp add: L)
    with ring_reaps inv Reaps show ?thesis by blast
  next
    case Over
    obtain t where "w_tasks w m = Some t" "t_exited t = None" "t_prog t = Return ()" by (rule main_atE [OF I(3)]) (use Over in simp)
    from step_return [OF this] Over show ?thesis by simp
  qed
  then show "ring_goes m out know tok pc (task_step m w)"
    by (elim disjE exE conjE) (rule ring_goesI, assumption+, simp_all add: ring_goes_def)
  from * show "pc \<noteq> Over \<Longrightarrow> pc \<noteq> Waits \<or> tok = Back \<Longrightarrow> task_step m w \<noteq> None" by auto
qed

lemma know_left_learn: "j < 4 \<Longrightarrow> \<not> know j \<Longrightarrow> Suc (know_left (know(j := True))) = know_left know"
proof -
  assume j: "j < 4" "\<not> know j"
  then have "{i. i < 4 \<and> \<not> know i} = insert j {i. i < 4 \<and> \<not> (know(j := True)) i}" by auto
  moreover have "finite {i. i < (4::nat) \<and> \<not> (know(j := True)) i}" "j \<notin> {i. i < 4 \<and> \<not> (know(j := True)) i}" by auto
  ultimately show ?thesis unfolding know_left_def by simp
qed

lemma ring_child_step:
  assumes inv: "ring_inv m out pids know tok pc w" and j: "j < length pids"
  shows "ring_goes m out know tok pc (task_step (pids ! j) w)"
proof (cases "gone pc \<le> j \<and> pc \<noteq> Reaps j")
  case False
  with ring_invD(4) [OF inv j] have "task_step (pids ! j) w = None" by (intro step_dead) (auto simp: child_at_def split: if_splits)
  then show ?thesis by (simp add: ring_goes_def)
next
  case True
  note I = ring_invD [OF inv] and P = pids_okD [OF ring_invD(1) [OF inv]]
  have j4: "j < 4" using j P(6) I(2) by (auto simp: forked_def tok_ok_def split: pc.splits)
  consider v where "tok = Prints v" "holder v = j" | v where "tok = Passes v" "holder v = j"
    | "\<not> know j" | "know j" "\<And>v. holder v = j \<Longrightarrow> tok \<noteq> Prints v \<and> tok \<noteq> Passes v" by blast
  then show ?thesis
  proof cases
    case (1 v)
    with child_prints inv obtain w' where "task_step (pids ! j) w = Some w'" "ring_inv m out pids know (Passes v) pc w'" by blast
    then show ?thesis by (rule ring_goesI) (simp add: 1(1) ring_left_def tok_left_def)
  next
    case (2 v)
    with child_passes inv obtain w' where "task_step (pids ! j) w = Some w'" "ring_inv m out pids know (if v < 100 then Inbox v else Back) pc w'" by blast
    moreover have "v \<le> 100" using I(2) 2(1) by (auto simp: tok_ok_def split: pc.splits)
    ultimately show ?thesis by (intro ring_goesI) (auto simp: 2(1) ring_left_def tok_left_def)
  next
    case 3
    show ?thesis
    proof (cases "task_step (pids ! j) w")
      case (Some w')
      with child_learns [OF inv j _ _ 3] True have "ring_inv m out pids (know(j := True)) tok pc w'" by auto
      with Some know_left_learn [of j know] j4 3 show ?thesis by (intro ring_goesI) (auto simp: ring_left_def)
    qed (simp add: ring_goes_def)
  next
    case 4
    show ?thesis
    proof (cases "task_step (pids ! j) w")
      case (Some w')
      with child_takes [OF inv j _ _ 4] True obtain v where v: "tok = Inbox v" "ring_inv m out pids know (Prints (Suc v)) pc w'"
        by (auto split: tok.splits if_splits)
      have "v < 100" using I(2) v(1) by (auto simp: tok_ok_def split: pc.splits)
      with Some v show ?thesis by (intro ring_goesI) (auto simp: ring_left_def tok_left_def)
    qed (simp add: ring_goes_def)
  qed
qed

lemma ring_progress:
  assumes inv: "ring_inv m out pids know tok pc w" and pc: "pc \<noteq> Over"
  shows "\<exists>i w'. task_step i w = Some w'"
proof (cases "pc \<noteq> Waits \<or> tok = Back")
  case True
  then show ?thesis using ring_main_step(2) [OF inv pc] by auto
next
  case False
  then have W: "pc = Waits" "tok \<noteq> Back" by simp_all
  note I = ring_invD [OF inv]
  have len: "length pids = 4" using pids_okD(6) [OF I(1)] W by (simp add: forked_def)
  show ?thesis
  proof (cases tok)
    case Nowhere
    then show ?thesis using I(2) W by (simp add: tok_ok_def)
  next
    case (Inbox v)
    have j: "v mod 4 < length pids" "gone pc \<le> v mod 4" "pc \<noteq> Reaps (v mod 4)" "v mod 4 < told pc" using len W by (simp_all add: gone_def told_def)
    show ?thesis
    proof (cases "know (v mod 4)")
      case True
      with child_takes [OF inv j(1-3)] Inbox show ?thesis by auto
    next
      case False
      with child_learns [OF inv j(1-3) False] j(4) show ?thesis by auto
    qed
  next
    case (Prints v)
    with child_prints inv show ?thesis by blast
  next
    case (Passes v)
    with child_passes inv show ?thesis by blast
  qed (use W in simp)
qed

text \<open>The world in which the main process starts the test, alone.\<close>

definition ring_world :: "int \<Rightarrow> int \<Rightarrow> bytes \<Rightarrow> bytes \<Rightarrow> world" where
  "ring_world m e inp out =
     \<lparr>w_tasks = [m \<mapsto> \<lparr>t_prog = test_ring (Return ()), t_inbox = [], t_errno = e, t_parent = - 1, t_exited = None\<rparr>], w_input = inp, w_out = out\<rparr>"

lemma ring_world_inv: "1 \<le> m \<Longrightarrow> m < 32 \<Longrightarrow> ring_inv m out [] (\<lambda>_. False) Nowhere Start (ring_world m e inp out)"
  by (simp add: ring_inv_def ring_world_def pids_ok_def forked_def tok_ok_def main_at_def main_box_def ring_out_def printed_def reached_def)

lemma ring_left_start: "ring_left (\<lambda>_. False) Nowhere Start = 325"
  by (simp add: ring_left_def main_left_def tok_left_def know_left_def)

lemma ring_runs:
  assumes "runs n w0 w" "ring_inv m out pids0 know0 tok0 pc0 w0"
  shows "\<exists>pids know tok pc. ring_inv m out pids know tok pc w \<and> n + ring_left know tok pc = ring_left know0 tok0 pc0"
  using assms
proof (induction rule: runs.induct)
  case (runs_none w)
  then show ?case by (metis add_0)
next
  case (runs_step n w v i u)
  then obtain pids know tok pc where
    v: "ring_inv m out pids know tok pc v" "n + ring_left know tok pc = ring_left know0 tok0 pc0" by blast
  note I = ring_invD [OF v(1)]
  have "\<exists>t. w_tasks v i = Some t" using runs_step.hyps(2) by (auto simp: task_step_def split: option.splits)
  then have "i = m \<or> i \<in> set pids" using I(5) [of i] by fastforce
  then have "ring_goes m out know tok pc (task_step i v)"
    using ring_main_step(1) [OF v(1)] ring_child_step [OF v(1)] by (auto simp: in_set_conv_nth)
  with runs_step.hyps(2) obtain pids' know' tok' pc' where
    u: "ring_inv m out pids' know' tok' pc' u" "Suc (ring_left know' tok' pc') = ring_left know tok pc" by (auto simp: ring_goes_def)
  then have "Suc n + ring_left know' tok' pc' = ring_left know0 tok0 pc0" using v(2) by simp
  with u(1) show ?case by blast
qed

text \<open>
  C24: the ring test of \<open>mptest\<close> ends under every interleaving of its processes. From a world with only the main process, no run has more than
  325 steps; before that some process can always make a step, so there is no deadlock; and the world after 325 steps is always the same up to
  \<open>errno\<close>: the test has returned without a failed assertion or system call, the four children are gone, no message is left, and the
  output is the token passed from child to child with the values 1 to 100, and then the value 100 received by the main process.
\<close>

theorem test_ring_correct:
  assumes "1 \<le> m" "m < 32" "runs n (ring_world m e inp out) w"
  shows "n \<le> 325 \<and>
    (if n < 325 then \<exists>i w'. task_step i w = Some w'
     else \<exists>e'. w_tasks w = [m \<mapsto> \<lparr>t_prog = Return (), t_inbox = [], t_errno = e', t_parent = - 1, t_exited = None\<rparr>] \<and>
       w_out w = out @ concat (map pass_line [1..<101]) @ main_line @ end_line)"
proof -
  from ring_runs [OF assms(3) ring_world_inv [OF assms(1,2)]] obtain pids know tok pc where
    r: "ring_inv m out pids know tok pc w" "n + ring_left know tok pc = 325" unfolding ring_left_start by blast
  note I = ring_invD [OF r(1)]
  show ?thesis
  proof (cases "pc = Over")
    case False
    then have "0 < main_left pc" using I(2) by (auto simp: main_left_def tok_ok_def split: pc.splits)
    then have "n < 325" using r(2) by (simp add: ring_left_def)
    with ring_progress [OF r(1) False] show ?thesis by simp
  next
    case True
    then have b: "tok = Back" "length pids = 4" using I(2) pids_okD(6) [OF I(1)] by (simp_all add: tok_ok_def forked_def)
    have "{j. j < 4 \<and> \<not> know j} = {}" using I(7) b(1) by (auto simp: reached_def)
    then have "know_left know = 0" by (simp only: know_left_def card.empty)
    then have "n = 325" using r(2) True b(1) by (simp add: ring_left_def main_left_def tok_left_def)
    moreover obtain t where t: "w_tasks w m = Some t" "t_exited t = None" "t_prog t = Return ()" "t_inbox t = []" "t_parent t = - 1"
      by (rule main_atE [OF I(3)]) (use True b in \<open>simp add: main_box_def\<close>)
    have "w_tasks w p = ([m \<mapsto> t]) p" for p
    proof (cases "p \<in> set pids")
      case True
      then obtain j where "j < length pids" "p = pids ! j" by (auto simp: in_set_conv_nth)
      with I(4) [of j] \<open>pc = Over\<close> b(2) pids_okD(3) [OF I(1)] True show ?thesis by (auto simp: child_at_def gone_def)
    qed (use I(5) t(1) in auto)
    then have "w_tasks w = [m \<mapsto> t]" by blast
    moreover obtain e' where "t = \<lparr>t_prog = Return (), t_inbox = [], t_errno = e', t_parent = - 1, t_exited = None\<rparr>"
      using t(2-5) by (cases t) auto
    moreover have "w_out w = out @ concat (map pass_line [1..<101]) @ main_line @ end_line"
      using I(8) True b(1) by (simp add: ring_out_def printed_def)
    ultimately show ?thesis by auto
  qed
qed

theorem test_ring_correct_witness:
  "\<exists>w. runs 325 (ring_world 1 0 [] []) w \<and> w_out w = concat (map pass_line [1..<101]) @ main_line @ end_line"
proof -
  let ?w = "ring_world 1 0 [] []"
  note T = test_ring_correct [of 1 _ 0 "[]" "[]", simplified]
  have "\<exists>w. runs n ?w w" if "n \<le> 325" for n
    using that
  proof (induction n)
    case 0
    show ?case by (blast intro: runs_none)
  next
    case (Suc n)
    then obtain w where w: "runs n ?w w" by auto
    with T [OF w] Suc.prems obtain i w' where "task_step i w = Some w'" by auto
    with w show ?case by (blast intro: runs_step)
  qed
  then obtain w where w: "runs 325 ?w w" by blast
  from T [OF w] w show ?thesis by auto
qed

end
