(* ===== verification/Kill_Props.thy ===== *)
theory Kill_Props
  imports User_Mem Filedesc_Props Mail_Claims
begin

text \<open>
  The end of a process: \<open>kill_process\<close> gives back what the process had, its pages, descriptors and mailbox, takes it off the scheduler's
  lists, and wakes a parent that waits for it.
\<close>

subsection \<open>The memory\<close>

definition pages_at :: "mm \<Rightarrow> u32 \<Rightarrow> u32 set \<Rightarrow> u32 set" where
  "pages_at s pdir A = page_of s pdir ` A"

text \<open>The pages at the addresses \<open>A\<close> of a directory are mapped, handed out and used nowhere else in it.\<close>

definition owned :: "mm \<Rightarrow> u32 \<Rightarrow> u32 set \<Rightarrow> bool" where
  "owned s pdir A \<longleftrightarrow>
     pages_inv s \<and> dir_ok s pdir \<and> inj_on (page_of s pdir) A \<and>
     (\<forall>a\<in>A. page_aligned a \<and> pte s pdir a \<noteq> None \<and> page_of s pdir a \<in> live_pages s - frames s pdir)"

definition released :: "mm \<Rightarrow> u32 \<Rightarrow> u32 set \<Rightarrow> mm \<Rightarrow> bool" where
  "released s pdir A s' \<longleftrightarrow>
     pages_inv s' \<and> dir_ok s' pdir \<and> frames s' pdir = frames s pdir \<and> live_pages s' = live_pages s - pages_at s pdir A \<and>
     (\<forall>k. page_aligned k \<and> k \<notin> A \<longrightarrow> pte s' pdir k = pte s pdir k) \<and> agree_on (live_pages s' - frames s pdir) s s'"

lemma unmap_owned:
  assumes o: "owned s pdir (insert a A)" and a: "a \<notin> A"
  obtains s' where "unmap_and_free_page pdir a s = Some s'" "released s pdir {a} s'" "owned s' pdir A"
    "\<forall>k\<in>A. page_of s' pdir k = page_of s pdir k"
proof -
  from o have O: "pages_inv s" "dir_ok s pdir" "page_aligned a" "pte s pdir a \<noteq> None" "page_of s pdir a \<in> live_pages s - frames s pdir"
    "inj_on (page_of s pdir) (insert a A)" by (simp_all add: owned_def)
  then obtain e where e: "pte s pdir a = Some e" "page_of s pdir a = e AND PAGE_ADDRESS_MASK" by (auto simp: page_of_def)
  obtain s' where s': "unmap_and_free_page pdir a s = Some s'" "pages_inv s'" "dir_ok s' pdir" "frames s' pdir = frames s pdir"
    "live_pages s' = live_pages s - {page_of s pdir a}" "\<And>k. page_aligned k \<Longrightarrow> pte s' pdir k = (if k = a then None else pte s pdir k)"
    "agree_on (live_pages s' - frames s pdir) s s'"
    by (rule unmap_mapped [OF O(1-3) e(1)]) (use O(5) e(2) in simp_all)
  have same: "page_of s' pdir k = page_of s pdir k" "pte s' pdir k = pte s pdir k" if "k \<in> A" for k
    using o that a s'(6) by (auto simp: owned_def page_of_def)
  have "owned s' pdir A"
    using o s'(2-5) same O(6) a unfolding owned_def by (auto simp: inj_on_def)
  moreover have "released s pdir {a} s'" using s'(2-7) by (simp add: released_def pages_at_def)
  ultimately show thesis using s'(1) same(1) by (intro that) blast+
qed

lemma released_trans:
  assumes r: "released s pdir A s1" "released s1 pdir B s2" and B: "\<forall>k\<in>B. page_of s1 pdir k = page_of s pdir k"
  shows "released s pdir (A \<union> B) s2"
proof -
  have "agree_on (live_pages s2 - frames s pdir) s s1" using r by (auto simp: released_def elim: agree_on_mono)
  with r B show ?thesis by (auto simp: released_def pages_at_def image_Un intro: agree_on_trans)
qed

lemma unmap_range_releases:
  assumes "owned s pdir (pages_in addr limit \<union> A)" "pages_in addr limit \<inter> A = {}" "page_aligned addr" "limit \<le> 0xFFFFF000"
    "unat limit \<le> unat addr + 4096 * n"
  shows "\<exists>s'. unmap_range pdir addr limit s = Some s' \<and> released s pdir (pages_in addr limit) s' \<and> owned s' pdir A \<and>
    (\<forall>k\<in>A. page_of s' pdir k = page_of s pdir k)"
  using assms
proof (induction n arbitrary: addr s)
  case 0
  then have "\<not> addr < limit" "pages_in addr limit = {}" by (auto simp: word_less_nat_alt word_le_nat_alt pages_in_def)
  with 0 show ?case by (subst unmap_range.simps) (auto simp: released_def pages_at_def owned_def agree_on_def)
next
  case (Suc n)
  show ?case
  proof (cases "addr < limit")
    case False
    then have "pages_in addr limit = {}" by (auto simp: pages_in_def)
    with False Suc.prems show ?thesis by (subst unmap_range.simps) (auto simp: released_def pages_at_def owned_def agree_on_def)
  next
    case True
    let ?R = "pages_in (addr + PAGE_SIZE) limit"
    note P = pages_in_step [OF Suc.prems(3) True Suc.prems(4)]
    have "owned s pdir (insert addr (?R \<union> A))" "addr \<notin> ?R \<union> A" using Suc.prems(1,2) P by auto
    from unmap_owned [OF this] obtain s1 where 1: "unmap_and_free_page pdir addr s = Some s1" "released s pdir {addr} s1"
      "owned s1 pdir (?R \<union> A)" "\<forall>k\<in>?R \<union> A. page_of s1 pdir k = page_of s pdir k" by blast
    have lt: "unat addr < 4294963200" using True Suc.prems(4) by (simp add: word_less_nat_alt word_le_nat_alt)
    then have u: "unat (addr + PAGE_SIZE) = unat addr + 4096" "page_aligned (addr + PAGE_SIZE)"
      using page_aligned_next [OF Suc.prems(3)] by simp_all
    have "unat limit \<le> unat (addr + PAGE_SIZE) + 4096 * n" using Suc.prems(5) u(1) by simp
    from Suc.IH [OF 1(3) _ u(2) Suc.prems(4) this] P Suc.prems(2) obtain s' where
      2: "unmap_range pdir (addr + PAGE_SIZE) limit s1 = Some s'" "released s1 pdir ?R s'" "owned s' pdir A" "\<forall>k\<in>A. page_of s' pdir k = page_of s1 pdir k" by auto
    have "released s pdir ({addr} \<union> ?R) s'" by (rule released_trans [OF 1(2) 2(2)]) (use 1(4) in simp)
    moreover have "unmap_range pdir addr limit s = Some s'" by (subst unmap_range.simps) (use True 1(1) 2(1) in simp)
    ultimately show ?thesis using 1(4) 2(3,4) P(1) by auto
  qed
qed

text \<open>
  With the pages of the process mapped, handed out and its own, \<open>free_memory\<close> returns; the pages of its stack, data and text, its page
  tables and its page directory go back to the allocator, and nothing else does: every other page stays handed out and keeps its contents.
\<close>

lemma free_memory_returns:
  assumes m: "private_memory s p"
  shows "\<exists>s'. free_memory p s = Some s' \<and> pages_inv s' \<and>
    live_pages s' = live_pages s - (user_pages s p \<union> frames s (pr_pdir p)) \<and> agree_on (live_pages s') s s'"
proof -
  let ?d = "pr_pdir p" and ?S = "pages_in (pr_stack_start p) (pr_stack_end p)" and ?D = "pages_in (pr_data_start p) (pr_data_end p)"
    and ?T = "pages_in (pr_text_start p) (pr_text_end p)"
  from m have O: "space_ok p" "pages_inv s" "dir_ok s ?d" "inj_on (page_of s ?d) (space_pages p)" "page_of s ?d ` space_pages p \<inter> frames s ?d = {}"
    "\<forall>a\<in>space_pages p. pte s ?d a \<noteq> None \<and> page_of s ?d a \<in> live_pages s" by (auto simp: private_memory_def owns_memory_def)
  have sp: "space_pages p = ?S \<union> (?D \<union> (?T \<union> {}))" by (auto simp: space_pages_def)
  have al: "page_aligned a" if "a \<in> space_pages p" for a using that by (auto simp: space_pages_def pages_in_def)
  have dj: "?S \<inter> (?D \<union> (?T \<union> {})) = {}" "?D \<inter> (?T \<union> {}) = {}" "?T \<inter> {} = {}"
  proof -
    have le: "pr_data_end p \<le> pr_stack_start p" "pr_text_end p \<le> pr_data_start p" "pr_text_end p \<le> pr_stack_start p"
      using O(1) unfolding space_ok_def by (auto intro: order.trans)
    show "?S \<inter> (?D \<union> (?T \<union> {})) = {}" using pages_in_disjoint [OF le(1)] pages_in_disjoint [OF le(3)] by blast
    show "?D \<inter> (?T \<union> {}) = {}" using pages_in_disjoint [OF le(2)] by blast
  qed simp
  have lim: "pr_stack_end p \<le> 0xFFFFF000" "pr_data_end p \<le> 0xFFFFF000" "pr_text_end p \<le> 0xFFFFF000"
    "page_aligned (pr_stack_start p)" "page_aligned (pr_data_start p)" "page_aligned (pr_text_start p)"
    using O(1) unfolding space_ok_def by (auto intro: order.trans)
  have far: "unat l \<le> unat a + 4096 * 1048576" for l a :: u32 using unat_lt_u32 [of l] by linarith
  have "owned s ?d (?S \<union> (?D \<union> (?T \<union> {})))" using O al unfolding owned_def sp [symmetric] by blast
  from unmap_range_releases [OF this dj(1) lim(4,1) far] obtain s1 where
    1: "unmap_range ?d (pr_stack_start p) (pr_stack_end p) s = Some s1" "released s ?d ?S s1" "owned s1 ?d (?D \<union> (?T \<union> {}))"
      "\<forall>k\<in>?D \<union> (?T \<union> {}). page_of s1 ?d k = page_of s ?d k" by blast
  from unmap_range_releases [OF 1(3) dj(2) lim(5,2) far] obtain s2 where
    2: "unmap_range ?d (pr_data_start p) (pr_data_end p) s1 = Some s2" "released s1 ?d ?D s2" "owned s2 ?d (?T \<union> {})"
      "\<forall>k\<in>?T \<union> {}. page_of s2 ?d k = page_of s1 ?d k" by blast
  from unmap_range_releases [OF 2(3) dj(3) lim(6,3) far] obtain s3 where
    3: "unmap_range ?d (pr_text_start p) (pr_text_end p) s2 = Some s3" "released s2 ?d ?T s3" by blast
  have "released s1 ?d (?D \<union> ?T) s3" by (rule released_trans [OF 2(2) 3(2)]) (use 2(4) in simp)
  then have "released s ?d (?S \<union> (?D \<union> ?T)) s3" by (rule released_trans [OF 1(2)]) (use 1(4) in auto)
  then have R: "pages_inv s3" "dir_ok s3 ?d" "frames s3 ?d = frames s ?d" "live_pages s3 = live_pages s - user_pages s p"
    "agree_on (live_pages s3 - frames s ?d) s s3" using sp by (auto simp: released_def pages_at_def user_pages_def)
  from free_page_dir_returns [OF R(1,2)] obtain s' where
    f: "free_page_dir ?d s3 = Some s'" "pages_inv s'" "live_pages s' = live_pages s3 - frames s3 ?d" "agree_on (live_pages s') s3 s'" by blast
  have "agree_on (live_pages s') s s'"
    using agree_on_mono [OF R(5), of "live_pages s'"] f(3,4) R(3) by (auto intro: agree_on_trans)
  moreover have "free_memory p s = Some s'" using 1(1) 2(1) 3(1) f(1) by (simp add: free_memory_def)
  ultimately show ?thesis using f(2,3) R(3,4) by (auto simp: Diff_Diff_Int)
qed

subsection \<open>Waiting for a child\<close>

lemma vread_upd_proc: "vread a n (upd_proc i f k) = vread a n k"
  by (rule vread_cong) (simp_all add: upd_proc_def)

lemma sched_live: "sched k rs ss \<Longrightarrow> j < MAX_PROCESSES \<Longrightarrow> live_proc (k_procs k ! j) \<longleftrightarrow> j \<in> set rs \<union> set ss"
  unfolding sched_def by blast

text \<open>A process that is not live can change without the scheduler noticing.\<close>

lemma sched_dead:
  assumes s: "sched k rs ss" and c: "\<not> live_proc (k_procs k ! c)" and q: "q = f (k_procs k ! c)" "\<not> live_proc q" "pr_prev q = pr_prev (k_procs k ! c)"
    "pr_next q = pr_next (k_procs k ! c)" "pr_exists q \<longrightarrow> pr_pid q = int c"
  shows "sched (upd_proc c f k) rs ss"
proof -
  let ?k = "upd_proc c f k"
  have l: "length (k_procs k) = MAX_PROCESSES" by (rule sched_length [OF s])
  have p: "k_procs ?k ! j = (if j = c then q else k_procs k ! j)" if "j < MAX_PROCESSES" for j
    using that l q(1) by (auto simp: nth_upd_proc)
  have nl: "live_proc (k_procs ?k ! j) = live_proc (k_procs k ! j)" "unlinked (k_procs ?k) j = unlinked (k_procs k) j"
    "pr_exists (k_procs ?k ! j) \<Longrightarrow> pr_pid (k_procs ?k ! j) = int j"
    "live_proc (k_procs k ! j) \<Longrightarrow> pr_ready (k_procs ?k ! j) = pr_ready (k_procs k ! j)" if "j < MAX_PROCESSES" for j
    using p [OF that] c q that s by (auto simp: unlinked_def sched_def split: if_splits)
  have d: "dlist (k_procs ?k) lst xs = dlist (k_procs k) lst xs" if "\<forall>x\<in>set xs. x < MAX_PROCESSES" for lst xs
    by (rule dlist_cong) (use that p q in \<open>auto simp: upd_proc_def\<close>)
  have b: "\<forall>x\<in>set rs. x < MAX_PROCESSES" "\<forall>x\<in>set ss. x < MAX_PROCESSES" using s by (auto simp: sched_def dlist_def)
  have e: "k_ready ?k = k_ready k" "k_suspended ?k = k_suspended k" "k_current ?k = k_current k" "length (k_procs ?k) = length (k_procs k)"
    by (simp_all add: upd_proc_def)
  show ?thesis
    unfolding sched_def e d [OF b(1)] d [OF b(2)] using s nl unfolding sched_def by auto
qed

text \<open>The exit status of a child is stored where the caller wants it.\<close>

lemma store_status:
  assumes "status \<noteq> 0 \<longrightarrow> serves p k \<and> valid_pointer p status 4"
  obtains k' where "(if status \<noteq> 0 then vstore32 status v k else Some k) = Some k'" "\<exists>m. k' = k\<lparr>k_mm := m\<rparr>"
    "status \<noteq> 0 \<longrightarrow> vread status 4 k' = Some (word_bytes v)"
proof (cases "status = 0")
  case True
  then show thesis by (intro that [of k] exI [of _ "k_mm k"]) simp_all
next
  case False
  then have "serves p k" "valid_pointer p status 4" using assms by simp_all
  from user_write [OF this, of "word_bytes v"] False show thesis by (auto simp: vstore32_def only_user_def intro!: that)
qed

lemma collect_child:
  assumes s: "sched k rs ss" and c: "c < MAX_PROCESSES" "pr_exited (k_procs k ! c)" and st: "status \<noteq> 0 \<longrightarrow> serves p k \<and> valid_pointer p status 4"
  obtains k' where "do { k \<leftarrow> (if status \<noteq> 0 then vstore32 status v k else Some k); Some (pid, upd_proc c (\<lambda>p. p\<lparr>pr_exists := False\<rparr>) k) } = Some (pid :: int, k')"
    "sched k' rs ss" "\<not> pr_exists (k_procs k' ! c)" "\<forall>j<MAX_PROCESSES. j \<noteq> c \<longrightarrow> k_procs k' ! j = k_procs k ! j"
    "status \<noteq> 0 \<longrightarrow> vread status 4 k' = Some (word_bytes v)"
proof -
  obtain k2 where k2: "(if status \<noteq> 0 then vstore32 status v k else Some k) = Some k2" "\<exists>m. k2 = k\<lparr>k_mm := m\<rparr>"
    "status \<noteq> 0 \<longrightarrow> vread status 4 k2 = Some (word_bytes v)" by (rule store_status [OF st])
  let ?k = "upd_proc c (\<lambda>p. p\<lparr>pr_exists := False\<rparr>) k2"
  have s2: "sched k2 rs ss" using k2(2) by (elim exE) (rule sched_frame [OF s], use s in \<open>auto simp: sched_def\<close>)
  have p2: "k_procs k2 = k_procs k" using k2(2) by auto
  have "sched ?k rs ss" by (rule sched_dead [OF s2 _ refl]) (use c(2) p2 in \<open>simp_all add: live_proc_def\<close>)
  then show thesis
    using k2(1,3) c(1) p2 sched_length [OF s] by (intro that [of ?k]) (auto simp: nth_upd_proc vread_upd_proc)
qed

lemma await_child:
  assumes s: "sched k rs ss" and i: "i \<in> set rs"
  obtains k' where "suspend_process i (upd_proc i (\<lambda>p. p\<lparr>pr_waiting_on := pid\<rparr>) k) = Some k'" "sched k' (remove1 i rs) (i # ss)"
    "pr_waiting_on (k_procs k' ! i) = pid" "\<forall>j<MAX_PROCESSES. j \<noteq> i \<longrightarrow> same_body (k_procs k ! j) (k_procs k' ! j)"
proof -
  let ?k = "upd_proc i (\<lambda>p. p\<lparr>pr_waiting_on := pid\<rparr>) k"
  have s2: "sched ?k rs ss" by (rule sched_update [OF s]) (simp add: same_links_def)
  obtain k' where k': "suspend_process i ?k = Some k'" "sched k' (remove1 i rs) (i # ss)" "same_procs ?k k'" by (rule suspend_sched [OF s2 i])
  have i': "i < length (k_procs ?k)" using sched_lt [OF s, of i] sched_length [OF s] i by simp
  with k'(3) obtain pv nx r where "k_procs k' ! i = (k_procs ?k ! i)\<lparr>pr_prev := pv, pr_next := nx, pr_ready := r\<rparr>" unfolding same_procs_def by blast
  then have "pr_waiting_on (k_procs k' ! i) = pid" using i' by (simp add: nth_upd_proc)
  moreover have "\<forall>j<MAX_PROCESSES. j \<noteq> i \<longrightarrow> same_body (k_procs k ! j) (k_procs k' ! j)"
    using suspend_others [OF s2 i k'(1)] sched_length [OF s] by (simp add: nth_upd_proc)
  ultimately show thesis by (rule that [OF k'(1,2)])
qed

text \<open>\<open>waitpid\<close> when the id is in the table: by the state of the child.\<close>

lemma syscall_waitpid_eq:
  assumes "current_process k = Some (i, p)" "pr_pid p = int i" "nat pid < MAX_PROCESSES" "pid_index pid = nat pid" "0 \<le> pid"
    and "get_proc (nat pid) (upd_proc i (\<lambda>p. p\<lparr>pr_waiting_on := - 1\<rparr>) k) = Some q"
  shows "syscall_waitpid pid status k =
     (if \<not> pr_exists q \<or> pr_parent_pid q \<noteq> int i then Some (- ECHILD, upd_proc i (\<lambda>p. p\<lparr>pr_waiting_on := - 1\<rparr>) k)
      else if pr_exited q
      then do {
             k \<leftarrow> (if status \<noteq> 0 then vstore32 status (of_int (pr_exit_status q)) (upd_proc i (\<lambda>p. p\<lparr>pr_waiting_on := - 1\<rparr>) k)
                  else Some (upd_proc i (\<lambda>p. p\<lparr>pr_waiting_on := - 1\<rparr>) k));
             Some (pid, upd_proc (nat pid) (\<lambda>p. p\<lparr>pr_exists := False\<rparr>) k)
           }
      else do {
             k \<leftarrow> suspend_process i (upd_proc i (\<lambda>p. p\<lparr>pr_waiting_on := pid\<rparr>) (upd_proc i (\<lambda>p. p\<lparr>pr_waiting_on := - 1\<rparr>) k));
             Some (- ESUSPEND, k)
           })"
proof -
  have "\<not> (0 > pid \<or> int MAX_PROCESSES \<le> pid)" using assms(3,5) by simp
  then show ?thesis using assms by (simp add: syscall_waitpid_def Let_def)
qed

text \<open>
  C27: \<open>waitpid\<close>. For a process id out of range or of a process that does not exist or is not a child of the caller it returns
  \<open>-ECHILD\<close>. For a child that has exited it returns the process id, stores the exit status of the child where the caller wants
  it, and frees the entry of the child in the process table, so that its id can be used again. For a child that still runs the caller leaves the
  ready list and is marked as waiting for this child. In every case both lists of the scheduler fit again, and no other process is changed, except that the
  links of those next to the caller in the lists are when it is suspended. The status pointer has to be null or valid when a status is stored: \<open>waitpid\<close> does not check it,
  and what it writes through any other pointer is not covered.
\<close>

theorem syscall_waitpid_correct:
  assumes s: "sched k rs ss" and cur: "k_current k = Some i" and i: "i \<in> set rs"
    and st: "status \<noteq> 0 \<and> pr_exited (k_procs k ! nat pid) \<longrightarrow> serves (k_procs k ! i) k \<and> valid_pointer (k_procs k ! i) status 4"
  shows "if pid < 0 \<or> 32 \<le> pid \<or> \<not> pr_exists (k_procs k ! nat pid) \<or> pr_parent_pid (k_procs k ! nat pid) \<noteq> int i
    then \<exists>k'. syscall_waitpid pid status k = Some (- ECHILD, k') \<and> sched k' rs ss \<and> (\<forall>j<32. j \<noteq> i \<longrightarrow> k_procs k' ! j = k_procs k ! j)
    else if pr_exited (k_procs k ! nat pid)
    then \<exists>k'. syscall_waitpid pid status k = Some (pid, k') \<and> sched k' rs ss \<and> \<not> pr_exists (k_procs k' ! nat pid) \<and>
      (\<forall>j<32. j \<noteq> i \<and> j \<noteq> nat pid \<longrightarrow> k_procs k' ! j = k_procs k ! j) \<and>
      (status \<noteq> 0 \<longrightarrow> vread status 4 k' = Some (word_bytes (of_int (pr_exit_status (k_procs k ! nat pid)))))
    else \<exists>k'. syscall_waitpid pid status k = Some (- ESUSPEND, k') \<and> sched k' (remove1 i rs) (i # ss) \<and>
      pr_waiting_on (k_procs k' ! i) = pid \<and> (\<forall>j<32. j \<noteq> i \<longrightarrow> same_body (k_procs k ! j) (k_procs k' ! j))"
proof -
  let ?p = "k_procs k ! i" and ?c = "nat pid" and ?k1 = "upd_proc i (\<lambda>p. p\<lparr>pr_waiting_on := - 1\<rparr>) k"
  have i': "i \<in> set rs \<union> set ss" using i by simp
  note I = sched_lt [OF s i'] sched_proc [OF s i'] and L = sched_length [OF s]
  have cp: "current_process k = Some (i, ?p)" using cur I(2) by (simp add: current_process_def)
  have s1: "sched ?k1 rs ss" by (rule sched_update [OF s]) (simp add: same_links_def)
  have o: "\<forall>j<32. j \<noteq> i \<longrightarrow> k_procs ?k1 ! j = k_procs k ! j" using L by (simp add: nth_upd_proc)
  show ?thesis
  proof (cases "pid < 0 \<or> 32 \<le> pid")
    case True
    then show ?thesis using s by (auto simp: syscall_waitpid_def)
  next
    case False
    then have c: "?c < MAX_PROCESSES" "pid_index pid = ?c" "0 \<le> pid" by (simp_all add: pid_index_def nat_less_iff)
    let ?q = "k_procs ?k1 ! ?c"
    have q: "get_proc ?c ?k1 = Some ?q" "pr_exists ?q = pr_exists (k_procs k ! ?c)" "pr_parent_pid ?q = pr_parent_pid (k_procs k ! ?c)"
      "pr_exited ?q = pr_exited (k_procs k ! ?c)" "pr_exit_status ?q = pr_exit_status (k_procs k ! ?c)"
      using c(1) L by (auto simp: get_proc_def nth_upd_proc)
    note w = syscall_waitpid_eq [OF cp I(6) c q(1), of status]
    consider (none) "\<not> pr_exists ?q \<or> pr_parent_pid ?q \<noteq> int i" | (done_) "pr_exists ?q" "pr_parent_pid ?q = int i" "pr_exited ?q"
      | (runs) "pr_exists ?q" "pr_parent_pid ?q = int i" "\<not> pr_exited ?q" by blast
    then show ?thesis
    proof cases
      case none
      then show ?thesis unfolding w q using s1 o by auto
    next
      case done_
      have "status \<noteq> 0 \<longrightarrow> serves ?p ?k1 \<and> valid_pointer ?p status 4" using st done_(3) q(4) by (simp add: serves_def upd_proc_def)
      then obtain k3 where k3: "do { k \<leftarrow> (if status \<noteq> 0 then vstore32 status (of_int (pr_exit_status ?q)) ?k1 else Some ?k1);
            Some (pid, upd_proc ?c (\<lambda>p. p\<lparr>pr_exists := False\<rparr>) k) } = Some (pid, k3)"
        "sched k3 rs ss" "\<not> pr_exists (k_procs k3 ! ?c)" "\<forall>j<MAX_PROCESSES. j \<noteq> ?c \<longrightarrow> k_procs k3 ! j = k_procs ?k1 ! j"
        "status \<noteq> 0 \<longrightarrow> vread status 4 k3 = Some (word_bytes (of_int (pr_exit_status ?q)))"
        by (rule collect_child [OF s1 c(1) done_(3)])
      have "syscall_waitpid pid status k = Some (pid, k3)" unfolding w using done_ k3(1) by simp
      then show ?thesis using done_ False o k3(2-5) unfolding q by auto
    next
      case runs
      obtain k3 where k3: "suspend_process i (upd_proc i (\<lambda>p. p\<lparr>pr_waiting_on := pid\<rparr>) ?k1) = Some k3" "sched k3 (remove1 i rs) (i # ss)"
        "pr_waiting_on (k_procs k3 ! i) = pid" "\<forall>j<MAX_PROCESSES. j \<noteq> i \<longrightarrow> same_body (k_procs ?k1 ! j) (k_procs k3 ! j)"
        by (rule await_child [OF s1 i])
      then have "syscall_waitpid pid status k = Some (- ESUSPEND, k3)" unfolding w using runs by simp
      then show ?thesis using k3(2-4) o runs False unfolding q by auto
    qed
  qed
qed

theorem syscall_waitpid_correct_witness:
  "\<exists>k k'. pr_exited (k_procs k ! 3) \<and> syscall_waitpid 3 0x3FFFF000 k = Some (3, k') \<and> \<not> pr_exists (k_procs k' ! 3) \<and>
     vread 0x3FFFF000 4 k' = Some (word_bytes 7)"
proof -
  let ?p = "\<lambda>pdir. stack_proc pdir []" and ?f = "\<lambda>p. p\<lparr>pr_exists := True, pr_exited := True, pr_pid := 3, pr_parent_pid := 1, pr_exit_status := 7\<rparr>"
  obtain k0 pdir where k0: "serves (?p pdir) k0" "current_process k0 = Some (1, ?p pdir)" "sched k0 [1] [2]" by (rule user_machine)
  let ?k = "upd_proc 3 ?f k0"
  have l: "length (k_procs k0) = 32" using sched_length [OF k0(3)] by simp
  have cur: "k_current k0 = Some 1" "k_procs k0 ! 1 = ?p pdir"
    using k0(2) by (auto simp: current_process_def get_proc_def bind_eq_Some_conv split: if_splits)
  have "\<not> live_proc (k_procs k0 ! 3)" using sched_live [OF k0(3), of 3] by simp
  then have s: "sched ?k [1] [2]" by (rule sched_dead [OF k0(3) _ refl]) (simp_all add: live_proc_def)
  have q: "k_procs ?k ! 1 = ?p pdir" "k_procs ?k ! 3 = ?f (k_procs k0 ! 3)" using cur l by (simp_all add: nth_upd_proc)
  have "serves (k_procs ?k ! 1) ?k" unfolding q using k0(1) by (simp add: serves_def upd_proc_def)
  moreover have "valid_pointer (k_procs ?k ! 1) 0x3FFFF000 4"
    unfolding q by (simp add: valid_pointer_def within_def stack_proc_def with_stack_def)
  ultimately have st: "(0x3FFFF000::u32) \<noteq> 0 \<and> pr_exited (k_procs ?k ! nat 3) \<longrightarrow> serves (k_procs ?k ! 1) ?k \<and> valid_pointer (k_procs ?k ! 1) 0x3FFFF000 4" by blast
  have c: "k_current ?k = Some 1" "1 \<in> set [1::nat]" using cur by (simp_all add: upd_proc_def)
  have w: "\<exists>k'. syscall_waitpid 3 0x3FFFF000 ?k = Some (3, k') \<and> \<not> pr_exists (k_procs k' ! 3) \<and> vread 0x3FFFF000 4 k' = Some (word_bytes 7)"
    using syscall_waitpid_correct [OF s c st] q(2) by auto
  show ?thesis by (rule exI [of _ ?k]) (use w q(2) in simp)
qed

end
