(* ===== verification/Exit_Props.thy ===== *)
theory Exit_Props
  imports Kill_Props
begin

text \<open>
  The whole of \<open>kill_process\<close>. The code marks the process as exited last. Nothing before looks at this mark, so the order does not
  matter (\<open>kill_process_eq\<close>); with the mark set first, the scheduler's invariant holds all along.
\<close>

subsection \<open>What closing leaves alone\<close>

definition relinked :: "process \<Rightarrow> process \<Rightarrow> bool" where
  "relinked p q \<longleftrightarrow> q = p\<lparr>pr_prev := pr_prev q, pr_next := pr_next q, pr_ready := pr_ready q\<rparr>"

lemma relinked_iff: "(\<exists>pv nx r. q = p\<lparr>pr_prev := pv, pr_next := nx, pr_ready := r\<rparr>) \<longleftrightarrow> relinked p q"
  unfolding relinked_def by (rule iffI) (elim exE, simp, blast)

lemma relinked_refl [simp]: "relinked p p"
  by (simp add: relinked_def)

lemma relinked_trans: "relinked p q \<Longrightarrow> relinked q r \<Longrightarrow> relinked p r"
  by (cases p; cases q; cases r) (simp add: relinked_def)

lemma relinked_exited: "relinked p q \<Longrightarrow> relinked (p\<lparr>pr_exited := e\<rparr>) (q\<lparr>pr_exited := e\<rparr>)"
  by (cases p; cases q) (simp add: relinked_def)

lemma relinked_fields:
  assumes "relinked p q"
  shows "pr_exited q = pr_exited p" "pr_exists q = pr_exists p" "pr_pid q = pr_pid p" "pr_parent_pid q = pr_parent_pid p"
    "pr_exit_status q = pr_exit_status p" "pr_in_syscall q = pr_in_syscall p" "pr_waiting_on q = pr_waiting_on p"
  using assms by (cases p; cases q; simp add: relinked_def)+

lemma same_procs_iff:
  "same_procs k k' \<longleftrightarrow> length (k_procs k') = length (k_procs k) \<and> (\<forall>j<length (k_procs k). relinked (k_procs k ! j) (k_procs k' ! j))"
  by (simp add: same_procs_def relinked_iff)

lemma same_procs_cong: "k_procs k' = k_procs k \<Longrightarrow> same_procs k k'"
  by (simp add: same_procs_iff)

lemma same_procs_trans: "same_procs a b \<Longrightarrow> same_procs b c \<Longrightarrow> same_procs a c"
  by (auto simp: same_procs_iff intro: relinked_trans)

definition mild :: "kernel \<Rightarrow> kernel \<Rightarrow> bool" where
  "mild k k' \<longleftrightarrow> k_mm k' = k_mm k \<and> k_mailboxes k' = k_mailboxes k \<and> k_current k' = k_current k \<and> same_procs k k'"

lemma mild_refl [simp]: "mild k k"
  by (simp add: mild_def same_procs_cong)

lemma mild_trans: "mild a b \<Longrightarrow> mild b c \<Longrightarrow> mild a c"
  unfolding mild_def by (auto intro: same_procs_trans)

lemma mild_objects:
  "k_mm k' = k_mm k \<Longrightarrow> k_mailboxes k' = k_mailboxes k \<Longrightarrow> k_current k' = k_current k \<Longrightarrow> k_procs k' = k_procs k \<Longrightarrow> mild k k'"
  by (simp add: mild_def same_procs_cong)

lemma mild_upd: "(\<And>p. relinked p (f p)) \<Longrightarrow> mild k (upd_proc i f k)"
  by (auto simp: mild_def same_procs_iff nth_upd_proc)

lemma mild_set_list: "mild k (set_list w l k)"
  by (rule mild_objects) (cases w; simp add: set_list_def)+

lemma mild_list_add: "mild k (list_add w i k)"
  unfolding list_add_def Let_def
  by (auto split: option.split intro!: mild_set_list mild_trans [OF _ mild_set_list] mild_trans [OF mild_upd mild_upd] simp: relinked_def)

lemma mild_list_remove: "mild k (list_remove w i k)"
proof -
  have "mild k (upd_proc i f k1)" if "mild k k1" "\<And>p. relinked p (f p)" for f k1 i using that mild_upd mild_trans by blast
  moreover have "mild k (if b then set_list w l k1 else k1)" if "mild k k1" for b l k1
    using that mild_set_list mild_trans by (cases b) auto
  moreover have "mild k (case x of None \<Rightarrow> k1 | Some n \<Rightarrow> upd_proc n f k1)" if "mild k k1" "\<And>p. relinked p (f p)" for f k1 x
    using that mild_upd mild_trans by (cases x) auto
  ultimately show ?thesis unfolding list_remove_def Let_def by (simp add: relinked_def)
qed

lemma mild_resume: "resume_process j k = Some k' \<Longrightarrow> mild k k'"
proof -
  assume "resume_process j k = Some k'"
  then have "k' = list_add Ready j (list_remove Suspended j (upd_proc j (\<lambda>p. p\<lparr>pr_ready := True\<rparr>) k))"
    by (auto simp: resume_process_def Let_def bind_eq_Some_conv assert_c_def split: if_splits)
  moreover have "mild k (upd_proc j (\<lambda>p. p\<lparr>pr_ready := True\<rparr>) k)" by (rule mild_upd) (simp add: relinked_def)
  ultimately show ?thesis using mild_trans mild_list_add mild_list_remove by blast
qed

lemma mild_free:
  "free_handle a k = Some k' \<Longrightarrow> mild k k'" "free_pipe a k = Some k' \<Longrightarrow> mild k k'" "free_array a k = Some k' \<Longrightarrow> mild k k'"
  "upd_pipe a f k = Some k' \<Longrightarrow> mild k k'" "upd_handle a g k = Some k' \<Longrightarrow> mild k k'"
  by (auto simp: free_handle_def free_pipe_def free_array_def k_free_def upd_pipe_def upd_handle_def intro: mild_objects)

lemma mild_check: "check_buffer_free b k = Some k' \<Longrightarrow> mild k k'"
  by (auto simp: check_buffer_free_def bind_eq_Some_conv split: if_splits dest!: mild_free intro: mild_trans)

lemma mild_wake: "wake_up_reader b k = Some k' \<Longrightarrow> mild k k'"
  by (auto simp: wake_up_reader_def bind_eq_Some_conv split: if_splits dest!: mild_free mild_resume intro: mild_trans)

lemma mild_close: "close_filehandle fh k = Some k' \<Longrightarrow> mild k k'"
proof -
  have "mild k k'" if d: "destroy_handle fh k = Some k'" for k k'
  proof -
    from d obtain h where h: "k_handles k fh = Some h" by (auto simp: destroy_handle_def bind_eq_Some_conv)
    show ?thesis
      using d h by (cases "fh_destroy h")
        (auto simp: destroy_handle_def screen_destroy_def file_destroy_def pipe_reader_destroy_def pipe_writer_destroy_def
          bind_eq_Some_conv split: if_splits dest!: mild_free mild_wake mild_check intro: mild_trans)
  qed
  then show "close_filehandle fh k = Some k' \<Longrightarrow> mild k k'"
    by (auto simp: close_filehandle_def bind_eq_Some_conv split: if_splits dest!: mild_free intro: mild_trans)
qed

subsection \<open>Marking a process as exited\<close>

definition dead :: "nat \<Rightarrow> kernel \<Rightarrow> kernel" where
  "dead i k = upd_proc i (\<lambda>p. p\<lparr>pr_exited := True\<rparr>) k"

named_theorems dead_commutes

lemma dead_fields [simp]:
  "k_mm (dead i k) = k_mm k" "k_heap (dead i k) = k_heap k" "k_handles (dead i k) = k_handles k" "k_pipes (dead i k) = k_pipes k"
  "k_arrays (dead i k) = k_arrays k" "k_mailboxes (dead i k) = k_mailboxes k" "k_current (dead i k) = k_current k"
  "get_list w (dead i k) = get_list w k" "length (k_procs (dead i k)) = length (k_procs k)"
  by (simp_all add: dead_def)

lemma dead_proc: "k_procs (dead i k) ! j = (if j = i \<and> i < length (k_procs k) then (k_procs k ! j)\<lparr>pr_exited := True\<rparr> else k_procs k ! j)"
  by (cases "i < length (k_procs k)") (auto simp: dead_def upd_proc_def not_less list_update_beyond)

lemma dead_proc_fields [simp]:
  "pr_next (k_procs (dead i k) ! j) = pr_next (k_procs k ! j)" "pr_prev (k_procs (dead i k) ! j) = pr_prev (k_procs k ! j)"
  "pr_exists (k_procs (dead i k) ! j) = pr_exists (k_procs k ! j)" "pr_ready (k_procs (dead i k) ! j) = pr_ready (k_procs k ! j)"
  "pr_filedesc (k_procs (dead i k) ! j) = pr_filedesc (k_procs k ! j)" "pr_mailbox (k_procs (dead i k) ! j) = pr_mailbox (k_procs k ! j)"
  "pr_pid (k_procs (dead i k) ! j) = pr_pid (k_procs k ! j)" "pr_parent_pid (k_procs (dead i k) ! j) = pr_parent_pid (k_procs k ! j)"
  "pr_in_syscall (k_procs (dead i k) ! j) = pr_in_syscall (k_procs k ! j)"
  "pr_waiting_on (k_procs (dead i k) ! j) = pr_waiting_on (k_procs k ! j)" "pr_pdir (k_procs (dead i k) ! j) = pr_pdir (k_procs k ! j)"
  "free_memory (k_procs (dead i k) ! j) = free_memory (k_procs k ! j)" "free_mailbox (k_procs (dead i k) ! j) = free_mailbox (k_procs k ! j)"
  by (simp_all add: dead_proc free_memory_def free_mailbox_def fun_eq_iff)

lemma dead_upd:
  assumes "\<And>p. f (p\<lparr>pr_exited := True\<rparr>) = (f p)\<lparr>pr_exited := True\<rparr>"
  shows "upd_proc j f (dead i k) = dead i (upd_proc j f k)"
proof (cases "i = j")
  case True
  then show ?thesis using assms by (cases "j < length (k_procs k)") (simp_all add: dead_def upd_proc_def not_less list_update_beyond)
next
  case False
  then show ?thesis by (simp add: dead_def upd_proc_def list_update_swap)
qed

lemma dead_set_list: "set_list w l (dead i k) = dead i (set_list w l k)"
  by (cases w) (simp_all add: set_list_def dead_def upd_proc_def)

lemma dead_list_add: "list_add w j (dead i k) = dead i (list_add w j k)"
  by (simp add: list_add_def Let_def dead_upd dead_set_list split: option.split)

lemma dead_list_remove: "list_remove w j (dead i k) = dead i (list_remove w j k)"
proof -
  have 1: "(if b then set_list w l (dead i k) else dead i k) = dead i (if b then set_list w l k else k)" for b l k
    by (simp add: dead_set_list)
  have 2: "(case x of None \<Rightarrow> dead i k | Some n \<Rightarrow> upd_proc n (\<lambda>p. p\<lparr>pr_prev := a\<rparr>) (dead i k)) =
      dead i (case x of None \<Rightarrow> k | Some n \<Rightarrow> upd_proc n (\<lambda>p. p\<lparr>pr_prev := a\<rparr>) k)" for x a k
    by (cases x) (simp_all add: dead_upd)
  have 3: "(case x of None \<Rightarrow> dead i k | Some n \<Rightarrow> upd_proc n (\<lambda>p. p\<lparr>pr_next := a\<rparr>) (dead i k)) =
      dead i (case x of None \<Rightarrow> k | Some n \<Rightarrow> upd_proc n (\<lambda>p. p\<lparr>pr_next := a\<rparr>) k)" for x a k
    by (cases x) (simp_all add: dead_upd)
  show ?thesis unfolding list_remove_def Let_def dead_fields dead_proc_fields 1 2 3 by (rule dead_upd) simp
qed

lemma dead_resume [dead_commutes]: "resume_process j (dead i k) = map_option (dead i) (resume_process j k)"
  by (simp add: resume_process_def get_proc_def assert_c_def dead_upd dead_list_add dead_list_remove)

lemma dead_objects [dead_commutes]:
  "upd_pipe b f (dead i k) = map_option (dead i) (upd_pipe b f k)" "upd_handle fh g (dead i k) = map_option (dead i) (upd_handle fh g k)"
  "free_handle fh (dead i k) = map_option (dead i) (free_handle fh k)" "free_pipe b (dead i k) = map_option (dead i) (free_pipe b k)"
  "free_array a (dead i k) = map_option (dead i) (free_array a k)"
  by (cases k; simp add: upd_pipe_def upd_handle_def free_handle_def free_pipe_def free_array_def k_free_def dead_def upd_proc_def option.map_comp comp_def)+

lemma map_option_bind: "map_option f (Option.bind m g) = Option.bind m (\<lambda>x. map_option f (g x))"
  by (cases m) simp_all

lemmas dead_bind = map_option_bind bind_map_option comp_def

lemma dead_close [dead_commutes]: "close_filehandle fh (dead i k) = map_option (dead i) (close_filehandle fh k)"
proof -
  have c: "check_buffer_free b (dead i k) = map_option (dead i) (check_buffer_free b k)" for b k
    by (cases "k_pipes k b") (auto simp: check_buffer_free_def dead_commutes dead_bind assert_c_def)
  have w: "wake_up_reader b (dead i k) = map_option (dead i) (wake_up_reader b k)" for b k
    by (cases "k_pipes k b") (auto simp: wake_up_reader_def dead_commutes dead_bind)
  have d: "destroy_handle fh (dead i k) = map_option (dead i) (destroy_handle fh k)" for k
  proof (cases "k_handles k fh")
    case (Some h)
    then show ?thesis
      by (cases "fh_destroy h"; cases "k_pipes k (fh_p h)")
        (simp_all add: destroy_handle_def screen_destroy_def file_destroy_def pipe_reader_destroy_def pipe_writer_destroy_def
          c w dead_commutes dead_bind assert_c_def)
  qed (simp add: destroy_handle_def)
  show ?thesis by (cases "k_handles k fh") (auto simp: close_filehandle_def d dead_commutes dead_bind assert_c_def if_distrib [of "map_option (dead i)"] cong: if_cong)
qed

lemma dead_close_fds [dead_commutes]: "close_fds xs (dead i k) = map_option (dead i) (close_fds xs k)"
proof (induction xs arbitrary: k)
  case (Cons x xs)
  then show ?case by (cases x) (simp_all add: dead_commutes dead_bind)
qed simp

subsection \<open>The mark first\<close>

lemma dead_memory: "on_mm (free_memory p) (dead i k) = map_option (dead i) (on_mm (free_memory p) k)"
  by (cases k) (simp add: on_mm_def dead_def upd_proc_def option.map_comp comp_def)

lemma dead_mailbox: "free_mailbox p (dead i k) = map_option (dead i) (free_mailbox p k)"
  by (cases k) (auto simp: free_mailbox_def k_free_def dead_def upd_proc_def option.map_comp comp_def split: option.split)

lemma dead_orphan: "orphan_children n (dead i k) = dead i (orphan_children n k)"
  by (cases "i < length (k_procs k)"; cases "k_procs k ! i")
    (simp_all add: orphan_children_def dead_def upd_proc_def map_update list_update_beyond not_less)

lemma dead_wake_parent: "wake_parent i (dead i k) = map_option (dead i) (wake_parent i k)"
  by (simp add: wake_parent_def Let_def get_proc_def dead_upd dead_commutes dead_bind)

lemma kill_process_eq:
  "kill_process i k =
     do {
       proc \<leftarrow> get_proc i k;
       let current = (k_current k = Some i);
       let k = disable_paging k;
       let k = (if current then k\<lparr>k_current := None\<rparr> else k);
       let k = dead i (list_remove (if pr_ready proc then Ready else Suspended) i k);
       k \<leftarrow> close_fds (pr_filedesc (k_procs k ! i)) k;
       k \<leftarrow> on_mm (free_memory (k_procs k ! i)) k;
       k \<leftarrow> free_mailbox (k_procs k ! i) k;
       let k = orphan_children (pr_pid (k_procs k ! i)) k;
       k \<leftarrow> wake_parent i k;
       restore_paging current k
     }"
  by (simp add: kill_process_def Let_def dead_commutes dead_memory dead_mailbox dead_orphan dead_wake_parent dead_bind flip: dead_def)

subsection \<open>Off the lists\<close>

lemma unlink_sched:
  assumes s: "sched k rs ss" and i: "i \<in> set rs \<union> set ss" and cur: "k_current k \<noteq> Some i"
    and k0: "k0 = list_remove (if pr_ready (k_procs k ! i) then Ready else Suspended) i k"
  shows "sched (dead i k0) (remove1 i rs) (remove1 i ss)" "same_procs k k0"
proof -
  let ?w = "if pr_ready (k_procs k ! i) then Ready else Suspended"
  note I = sched_lt [OF s i] sched_proc(4) [OF s i] and l = sched_length [OF s]
  have dj: "set rs \<inter> set ss = {}" and D: "dlist (k_procs k) (k_ready k) rs" "dlist (k_procs k) (k_suspended k) ss" using s by (simp_all add: sched_def)
  define xs where "xs = (if i \<in> set rs then rs else ss)"
  define ys where "ys = (if i \<in> set rs then ss else rs)"
  define v where "v = (if i \<in> set rs then Suspended else Ready)"
  have x: "dlist (k_procs k) (get_list ?w k) xs" "dlist (k_procs k) (get_list v k) ys" "i \<in> set xs" "i \<notin> set ys" "set xs \<inter> set ys = {}" "?w \<noteq> v"
    using D dj i I(2) by (auto simp: xs_def ys_def v_def get_list_def)
  note R = list_remove_dlist [OF x(1,3), folded k0] and B = list_remove_body [OF x(1,3), folded k0]
  have ys: "j < length (k_procs k)" "j \<notin> set xs" if "j \<in> set ys" for j using that x(2,5) by (auto simp: dlist_def)
  have gl: "get_list v k0 = get_list v k" unfolding k0 by (rule list_remove_frame(3) [OF x(6)])
  have Y: "dlist (k_procs k0) (get_list v k0) ys"
    unfolding gl by (rule dlist_untouched [OF x(2)]) (use B(2) ys in \<open>simp_all add: k0\<close>)
  have l0: "length (k_procs k0) = MAX_PROCESSES" "k_current k0 = k_current k" using l by (simp_all add: k0)
  show "same_procs k k0"
    using mild_list_remove [of k ?w i] by (simp add: k0 mild_def)
  have dd: "dlist (k_procs (dead i k0)) lst zs = dlist (k_procs k0) lst zs" for lst zs by (rule dlist_cong) simp_all
  have L: "dlist (k_procs (dead i k0)) (k_ready (dead i k0)) (remove1 i rs)" "dlist (k_procs (dead i k0)) (k_suspended (dead i k0)) (remove1 i ss)"
    unfolding dd using R(1) Y x(4) dj i I(2) by (auto simp: xs_def ys_def v_def get_list_def dead_def remove1_idem split: if_splits)
  have b: "pr_ready (k_procs k0 ! j) = pr_ready (k_procs k ! j)" "live_proc (k_procs (dead i k0) ! j) \<longleftrightarrow> j \<noteq> i \<and> live_proc (k_procs k ! j)"
    "pr_exists (k_procs k0 ! j) = pr_exists (k_procs k ! j)" "pr_pid (k_procs k0 ! j) = pr_pid (k_procs k ! j)" if "j < MAX_PROCESSES" for j
    using same_bodyD [OF B(1), of j] that l l0 I(1) by (auto simp: live_proc_def dead_proc)
  have u: "unlinked (k_procs (dead i k0)) j" if "j < MAX_PROCESSES" "j \<notin> set rs \<union> set ss \<or> j = i" for j
    using R(2) B(2) [of j] that l s i by (cases "j = i") (auto simp: unlinked_def xs_def sched_def split: if_splits)
  have m: "set (remove1 i rs) = set rs - {i}" "set (remove1 i ss) = set ss - {i}" using D by (simp_all add: dlist_def)
  show "sched (dead i k0) (remove1 i rs) (remove1 i ss)"
    unfolding sched_def m using L l0 b u dj cur s unfolding sched_def by auto
qed

subsection \<open>Closing all descriptors\<close>

text \<open>Handles with references from the live processes and from a list \<open>xs\<close> of descriptors that nobody has any more.\<close>

definition fds_held :: "u32 option list \<Rightarrow> kernel \<Rightarrow> nat list \<Rightarrow> bool" where
  "fds_held xs k ss \<longleftrightarrow>
     pipes_ok k \<and> ends_ok k \<and> readers_ok k ss \<and>
     (\<forall>i<MAX_PROCESSES. live_proc (k_procs k ! i) \<longrightarrow> length (pr_filedesc (k_procs k ! i)) = MAX_FDS) \<and>
     (\<forall>fh h. k_handles k fh = Some h \<longrightarrow>
        0 < refs fh k + count_list xs (Some fh) \<and> fh_refcount h = int (refs fh k + count_list xs (Some fh))) \<and>
     (\<forall>fh. k_handles k fh = None \<longrightarrow> refs fh k + count_list xs (Some fh) = 0)"

lemma fds_held_none: "fds_held [] k ss \<longleftrightarrow> fds_ok k ss"
  by (simp add: fds_held_def fds_ok_def)

lemma fds_heldD:
  assumes "fds_held xs k ss"
  shows "pipes_ok k" "ends_ok k" "readers_ok k ss"
    "i < MAX_PROCESSES \<Longrightarrow> live_proc (k_procs k ! i) \<Longrightarrow> length (pr_filedesc (k_procs k ! i)) = MAX_FDS"
    "k_handles k fh = Some h \<Longrightarrow> 0 < refs fh k + count_list xs (Some fh) \<and> fh_refcount h = int (refs fh k + count_list xs (Some fh))"
    "k_handles k fh = None \<Longrightarrow> refs fh k + count_list xs (Some fh) = 0"
  using assms by (auto simp: fds_held_def)

lemma close_held:
  assumes f: "fds_held (Some fh # xs) k ss" and s: "sched k rs ss"
  obtains k1 rs' ss' where "close_filehandle fh k = Some k1" "sched k1 rs' ss'" "set rs \<subseteq> set rs'" "fds_held xs k1 ss'"
    "\<And>x. unblocked x k \<Longrightarrow> unblocked x k1 \<and> (x \<in> set ss \<longrightarrow> x \<in> set ss')"
proof -
  note F = fds_heldD [OF f]
  let ?n = "refs fh k + count_list (Some fh # xs) (Some fh)"
  have "0 < ?n" by simp
  with F(6) [of fh] obtain h where h: "k_handles k fh = Some h" by (cases "k_handles k fh") auto
  have last: "Some fh \<notin> set (pr_filedesc (k_procs k ! pid_index (pb_readpid p)))"
    if n: "?n = 1" and p: "k_pipes k b = Some p" "pb_readpid p \<noteq> - 1" for b p
  proof
    let ?x = "pid_index (pb_readpid p)"
    assume m: "Some fh \<in> set (pr_filedesc (k_procs k ! ?x))"
    from readers_okD [OF F(3) p] have x: "?x \<in> set rs \<union> set ss" by blast
    have "live_proc (k_procs k ! ?x)" using sched_proc(2,3) [OF s x] by (simp add: live_proc_def)
    from refs_pos [OF sched_lt [OF s x] this m] n show False by simp
  qed
  obtain k1 rs' ss' where k1: "close_filehandle fh k = Some k1" "sched k1 rs' ss'" "set rs \<subseteq> set rs'"
    "pipes_ok k1" "ends_ok k1" "readers_ok k1 ss'"
    "\<And>j. j < MAX_PROCESSES \<Longrightarrow> live_proc (k_procs k1 ! j) = live_proc (k_procs k ! j) \<and> pr_filedesc (k_procs k1 ! j) = pr_filedesc (k_procs k ! j)"
    "\<And>g. g \<noteq> fh \<Longrightarrow> k_handles k1 g = k_handles k g"
    "if ?n = 1 then k_handles k1 fh = None else \<exists>h. k_handles k1 fh = Some h \<and> fh_refcount h = int ?n - 1"
    "\<And>x. unblocked x k \<Longrightarrow> unblocked x k1 \<and> (x \<in> set ss \<longrightarrow> x \<in> set ss')"
    by (rule close_reference [OF F(1-3) s h _ \<open>0 < ?n\<close> last]) (use F(5) [OF h] in \<open>simp_all del: count_list.simps\<close>)
  have r: "refs g k1 = refs g k" for g by (rule refs_cong) (use k1(7) in simp)
  have g: "case k_handles k1 g of Some h \<Rightarrow> 0 < refs g k1 + count_list xs (Some g) \<and> fh_refcount h = int (refs g k1 + count_list xs (Some g))
     | None \<Rightarrow> refs g k1 + count_list xs (Some g) = 0" for g
  proof (cases "g = fh")
    case True
    then show ?thesis using k1(9) r [of fh] by (auto split: option.split if_splits)
  next
    case False
    then show ?thesis using k1(8) [OF False] r [of g] F(5) [of g] F(6) [of g] by (auto split: option.split)
  qed
  have g1: "0 < refs g k1 + count_list xs (Some g) \<and> fh_refcount h = int (refs g k1 + count_list xs (Some g))" if "k_handles k1 g = Some h" for g h
    using g [of g] that by simp
  have g0: "refs g k1 + count_list xs (Some g) = 0" if "k_handles k1 g = None" for g using g [of g] that by simp
  have fl: "length (pr_filedesc (k_procs k1 ! j)) = MAX_FDS" if "j < MAX_PROCESSES" "live_proc (k_procs k1 ! j)" for j
    using k1(7) [OF that(1)] F(4) that by simp
  have "fds_held xs k1 ss'" unfolding fds_held_def using k1(4-6) g1 g0 fl by blast
  then show thesis using k1(1-3,10) by (intro that [of k1 rs' ss']) blast+
qed

lemma close_fds_held:
  assumes "fds_held xs k ss" "sched k rs ss"
  shows "\<exists>k' rs' ss'. close_fds xs k = Some k' \<and> sched k' rs' ss' \<and> set rs \<subseteq> set rs' \<and> fds_ok k' ss' \<and> mild k k' \<and>
    (\<forall>x. unblocked x k \<longrightarrow> unblocked x k' \<and> (x \<in> set ss \<longrightarrow> x \<in> set ss'))"
  using assms
proof (induction xs arbitrary: k rs ss)
  case Nil
  then show ?case by (auto simp: fds_held_none)
next
  case (Cons x xs)
  show ?case
  proof (cases x)
    case None
    with Cons.prems(1) have "fds_held xs k ss" by (simp add: fds_held_def)
    with Cons.IH Cons.prems(2) None show ?thesis by simp
  next
    case (Some fh)
    obtain k1 rs1 ss1 where 1: "close_filehandle fh k = Some k1" "sched k1 rs1 ss1" "set rs \<subseteq> set rs1" "fds_held xs k1 ss1"
      "\<And>x. unblocked x k \<Longrightarrow> unblocked x k1 \<and> (x \<in> set ss \<longrightarrow> x \<in> set ss1)"
      by (rule close_held [OF Cons.prems(1) [unfolded Some] Cons.prems(2)]) blast
    from Cons.IH [OF 1(4,2)] obtain k' rs' ss' where 2: "close_fds xs k1 = Some k'" "sched k' rs' ss'" "set rs1 \<subseteq> set rs'" "fds_ok k' ss'" "mild k1 k'"
      "\<forall>x. unblocked x k1 \<longrightarrow> unblocked x k' \<and> (x \<in> set ss1 \<longrightarrow> x \<in> set ss')" by blast
    have "close_fds (x # xs) k = Some k'" "mild k k'" using Some 1(1) 2(1) mild_trans [OF mild_close [OF 1(1)] 2(5)] by simp_all
    with 1(3,5) 2(2-4,6) show ?thesis by blast
  qed
qed

text \<open>The invariant of descriptors when handles and pipes stay as they are.\<close>

lemma fds_move:
  assumes f: "fds_ok k ss" and p: "pipes_ok k'" and e: "k_handles k' = k_handles k" "k_pipes k' = k_pipes k"
    and q: "\<And>j. j < MAX_PROCESSES \<Longrightarrow> live_proc (k_procs k' ! j) = live_proc (k_procs k ! j) \<and> pr_filedesc (k_procs k' ! j) = pr_filedesc (k_procs k ! j)"
    and m: "\<And>x. x \<in> set ss \<Longrightarrow> x < MAX_PROCESSES \<and> (x \<in> set ss' \<or> unblocked x k)"
  shows "fds_ok k' ss'"
proof -
  note F = fds_okD [OF f]
  have "pid_index (pb_readpid r) \<in> set ss' \<and> pid_index (pb_readpid r) < MAX_PROCESSES" if r: "k_pipes k b = Some r" "pb_readpid r \<noteq> - 1" for b r
  proof -
    from readers_ok_reader [OF F(3) r(1)] r(2) have x: "0 \<le> pb_readpid r" "pid_index (pb_readpid r) \<in> set ss" by (auto simp: reader_ok_def)
    then have "\<not> unblocked (pid_index (pb_readpid r)) k" using r(1) by (auto simp: unblocked_def pid_index_def)
    with m [OF x(2)] show ?thesis by blast
  qed
  then have "readers_ok k' ss'" using F(3) q unfolding readers_ok_def e by metis
  moreover have "refs fh k' = refs fh k" for fh by (rule refs_cong) (use q in blast)
  moreover have "ends_ok k'" using F(2) by (simp add: ends_ok_def e)
  ultimately show ?thesis unfolding fds_ok_def e using p q f unfolding fds_ok_def by auto
qed

lemma unlink_held:
  assumes f: "fds_ok k ss" and s: "sched k rs ss" and i: "i \<in> set rs \<union> set ss" and u: "unblocked i k"
    and k0: "k0 = list_remove (if pr_ready (k_procs k ! i) then Ready else Suspended) i k"
  shows "fds_held (pr_filedesc (k_procs k ! i)) (dead i k0) (remove1 i ss)"
proof -
  note F = fds_okD [OF f] and I = sched_lt [OF s i] sched_proc(2,3) [OF s i] and l = sched_length [OF s]
  let ?k = "dead i k0"
  have o: "only_sched k k0" unfolding k0 by (rule only_sched_list_remove)
  then have e: "k_handles ?k = k_handles k" "k_pipes ?k = k_pipes k" and p: "pipes_ok ?k"
    using only_schedD [OF o] F(1) pipes_frame(1) [of ?k k] by simp_all
  have sp: "same_procs k k0" using mild_list_remove [of k _ i] by (simp add: k0 mild_def)
  have q: "pr_filedesc (k_procs ?k ! j) = pr_filedesc (k_procs k ! j) \<and> (live_proc (k_procs ?k ! j) \<longleftrightarrow> j \<noteq> i \<and> live_proc (k_procs k ! j))"
    if "j < MAX_PROCESSES" for j
    using same_procs_fds [OF sp, of j] that l sp I(1) by (auto simp: dead_proc live_proc_def same_procs_iff)
  let ?f = "\<lambda>k fh j. if live_proc (k_procs k ! j) then count_list (pr_filedesc (k_procs k ! j)) (Some fh) else 0"
  have r: "refs fh ?k + count_list (pr_filedesc (k_procs k ! i)) (Some fh) = refs fh k" for fh
  proof -
    have split: "refs fh k' = ?f k' fh i + (\<Sum>j\<in>{..<MAX_PROCESSES} - {i}. ?f k' fh j)" for k'
      unfolding refs_def using I(1) by (subst sum.remove [of _ i]) auto
    have "(\<Sum>j\<in>{..<MAX_PROCESSES} - {i}. ?f ?k fh j) = (\<Sum>j\<in>{..<MAX_PROCESSES} - {i}. ?f k fh j)"
      by (rule sum.cong) (use q in auto)
    moreover have "?f ?k fh i = 0" using q [OF I(1)] by simp
    moreover have "?f k fh i = count_list (pr_filedesc (k_procs k ! i)) (Some fh)" using I(2,3) by (simp add: live_proc_def)
    ultimately show ?thesis unfolding split by simp
  qed
  have lt: "pid_index (pb_readpid z) < MAX_PROCESSES \<and> pid_index (pb_readpid z) \<in> set (remove1 i ss)"
    if z: "k_pipes k b = Some z" "pb_readpid z \<noteq> - 1" for b z
  proof -
    from readers_ok_reader [OF F(3) z(1)] z(2) have x: "0 \<le> pb_readpid z" "pid_index (pb_readpid z) \<in> set ss" by (auto simp: reader_ok_def)
    have "pb_readpid z \<noteq> int i" using u z(1) by (simp add: unblocked_def)
    then have "pid_index (pb_readpid z) \<noteq> i" using x(1) by (auto simp: pid_index_def)
    with x sched_lt [OF s] show ?thesis by simp
  qed
  have "readers_ok ?k (remove1 i ss)" using F(3) q lt unfolding readers_ok_def e by metis
  moreover have "ends_ok ?k" using F(2) unfolding ends_ok_def e .
  ultimately show ?thesis unfolding fds_held_def r e using p q f unfolding fds_ok_def by auto
qed

subsection \<open>The mailbox\<close>

definition without_mail :: "process \<Rightarrow> kernel \<Rightarrow> u32 \<Rightarrow> message list option" where
  "without_mail p k = (case pr_mailbox p of None \<Rightarrow> k_mailboxes k | Some m \<Rightarrow> (k_mailboxes k)(m := None))"

lemma free_mailbox_returns:
  assumes ok: "pipes_ok k" and m: "\<And>m. pr_mailbox p = Some m \<Longrightarrow> m \<in> dom (k_mailboxes k)"
  obtains hp where "free_mailbox p k = Some (k\<lparr>k_heap := hp, k_mailboxes := without_mail p k\<rparr>)" "pipes_ok (k\<lparr>k_heap := hp, k_mailboxes := without_mail p k\<rparr>)"
proof (cases "pr_mailbox p")
  case None
  then show thesis using ok by (intro that [of "k_heap k"]) (simp_all add: free_mailbox_def without_mail_def)
next
  case (Some a)
  have h: "heap_ok k" using ok by (simp add: pipes_ok_def)
  let ?k = "k\<lparr>k_mailboxes := (k_mailboxes k)(a := None)\<rparr>"
  have "heap_has (k_heap ?k) a" "a \<notin> heap_objs ?k" using h m [OF Some] by (auto simp: heap_ok_def heap_objs_def)
  from k_free_returns [OF heap_ok_drop(4) [OF h] this] obtain hp where
    f: "k_free a ?k = Some (?k\<lparr>k_heap := hp\<rparr>)" "heap_ok (?k\<lparr>k_heap := hp\<rparr>)" by blast
  have e: "?k\<lparr>k_heap := hp\<rparr> = k\<lparr>k_heap := hp, k_mailboxes := without_mail p k\<rparr>" using Some by (simp add: without_mail_def)
  have "pipes_ok (?k\<lparr>k_heap := hp\<rparr>)" using ok f(2) by (simp add: pipes_ok_def pipe_wf_def)
  with f(1) Some show thesis unfolding e by (intro that [of hp]) (simp_all add: free_mailbox_def)
qed

lemma mail_without:
  assumes ok: "mail_ok k" and h: "heap_ok k'" and i: "lives i k" and m: "k_mailboxes k' = without_mail (k_procs k ! i) k"
    and q: "\<And>j. lives j k' \<Longrightarrow> lives j k \<and> j \<noteq> i \<and> pr_mailbox (k_procs k' ! j) = pr_mailbox (k_procs k ! j) \<and>
      pr_mailbox_size (k_procs k' ! j) = pr_mailbox_size (k_procs k ! j) \<and> pr_mailbox_alloc (k_procs k' ! j) = pr_mailbox_alloc (k_procs k ! j)"
  shows "mail_ok k'" "lives j k' \<Longrightarrow> mail j k' = mail j k"
proof -
  have b: "k_mailboxes k' a = k_mailboxes k a" if "lives j k'" "pr_mailbox (k_procs k ! j) = Some a" for j a
    using ok i q [OF that(1)] that(2) unfolding mail_ok_def m without_mail_def by (auto split: option.split)
  have w: "mail_wf k' (k_procs k' ! j)" if "lives j k'" for j
  proof -
    have "mail_wf k (k_procs k ! j)" using ok q [OF that] by (simp add: mail_ok_def)
    then show ?thesis using b [OF that] q [OF that] by (simp add: mail_wf_def split: option.splits)
  qed
  show "mail_ok k'" unfolding mail_ok_def using h w q ok unfolding mail_ok_def by metis
  show "mail j k' = mail j k" if "lives j k'"
    using q [OF that] b [OF that] by (simp add: mail_def split: option.splits)
qed

subsection \<open>Relatives\<close>

lemma orphan_proc:
  assumes "j < length (k_procs k)"
  shows "k_procs (orphan_children n k) ! j =
    (k_procs k ! j)\<lparr>pr_parent_pid := (if pr_parent_pid (k_procs k ! j) = n then - 1 else pr_parent_pid (k_procs k ! j))\<rparr>"
  using assms by (simp add: orphan_children_def)

lemma orphan_fields [simp]:
  "k_mm (orphan_children n k) = k_mm k" "k_heap (orphan_children n k) = k_heap k" "k_handles (orphan_children n k) = k_handles k"
  "k_pipes (orphan_children n k) = k_pipes k" "k_arrays (orphan_children n k) = k_arrays k" "k_mailboxes (orphan_children n k) = k_mailboxes k"
  "k_current (orphan_children n k) = k_current k" "length (k_procs (orphan_children n k)) = length (k_procs k)"
  "k_ready (orphan_children n k) = k_ready k" "k_suspended (orphan_children n k) = k_suspended k"
  by (simp_all add: orphan_children_def)

text \<open>The parent of a process waits for its end, as \<open>waitpid\<close> has left it.\<close>

definition awaited :: "nat \<Rightarrow> kernel \<Rightarrow> bool" where
  "awaited i k \<longleftrightarrow>
     (let parent = k_procs k ! pid_index (pr_parent_pid (k_procs k ! i))
      in pr_parent_pid (k_procs k ! i) \<noteq> - 1 \<and> pr_in_syscall parent = SYSCALL_WAITPID \<and> pr_waiting_on parent = int i)"

definition parent_ok :: "nat \<Rightarrow> kernel \<Rightarrow> nat list \<Rightarrow> bool" where
  "parent_ok i k ss \<longleftrightarrow>
     (let pp = pr_parent_pid (k_procs k ! i)
      in pp = - 1 \<or> 0 \<le> pp \<and> pid_index pp < MAX_PROCESSES \<and> pid_index pp \<noteq> i \<and>
           (awaited i k \<longrightarrow> pid_index pp \<in> set ss \<and> unblocked (pid_index pp) k))"

definition bystander :: "nat \<Rightarrow> process \<Rightarrow> process \<Rightarrow> bool" where
  "bystander i p q \<longleftrightarrow>
     q = p\<lparr>pr_prev := pr_prev q, pr_next := pr_next q, pr_ready := pr_ready q, pr_waiting_on := pr_waiting_on q,
       pr_parent_pid := (if pr_parent_pid p = int i then - 1 else pr_parent_pid p)\<rparr>"

lemma bystander_relinked: "bystander i p q \<Longrightarrow> relinked q r \<Longrightarrow> bystander i p r" "relinked p q \<Longrightarrow> bystander i q r \<Longrightarrow> bystander i p r"
  by (cases p; cases q; cases r; simp add: bystander_def relinked_def)+

lemma bystanderD:
  assumes "bystander i p q"
  shows "live_proc q = live_proc p" "pr_filedesc q = pr_filedesc p" "pr_mailbox q = pr_mailbox p" "pr_mailbox_size q = pr_mailbox_size p"
    "pr_mailbox_alloc q = pr_mailbox_alloc p"
  using assms by (cases p; cases q; simp add: bystander_def live_proc_def)+

text \<open>The last steps, once the process is off the lists and marked.\<close>

lemma wake_parent_returns:
  assumes s: "sched k rs ss" and f: "fds_ok k ss" and i: "i < MAX_PROCESSES" "\<not> live_proc (k_procs k ! i)" "pr_pid (k_procs k ! i) = int i"
    and p: "parent_ok i k ss"
  obtains k' rs' ss' where "wake_parent i k = Some k'" "sched k' rs' ss'" "fds_ok k' ss'" "set rs \<subseteq> set rs'" "only_sched k k'"
    "\<And>j. j < MAX_PROCESSES \<Longrightarrow> j \<noteq> i \<Longrightarrow> \<exists>w. relinked ((k_procs k ! j)\<lparr>pr_waiting_on := w\<rparr>) (k_procs k' ! j)"
    "relinked ((k_procs k ! i)\<lparr>pr_exists := (pr_exists (k_procs k ! i) \<and> pr_parent_pid (k_procs k ! i) \<noteq> - 1)\<rparr>) (k_procs k' ! i)"
    "awaited i k \<Longrightarrow> pid_index (pr_parent_pid (k_procs k ! i)) \<in> set rs'"
proof -
  let ?pp = "pr_parent_pid (k_procs k ! i)"
  have l: "length (k_procs k) = MAX_PROCESSES" by (rule sched_length [OF s])
  have lt: "x \<in> set ss \<Longrightarrow> x < MAX_PROCESSES" for x using sched_lt [OF s] by simp
  have self: "\<exists>w. relinked (p\<lparr>pr_waiting_on := w\<rparr>) p" for p by (intro exI [of _ "pr_waiting_on p"]) (simp add: relinked_def)
  show thesis
  proof (cases "?pp = - 1")
    case True
    let ?k = "upd_proc i (\<lambda>p. p\<lparr>pr_exists := False\<rparr>) k"
    have w: "wake_parent i k = Some ?k" using True by (simp add: wake_parent_def)
    have sk: "sched ?k rs ss" by (rule sched_dead [OF s i(2) refl]) (simp_all add: live_proc_def)
    have nj: "k_procs ?k ! j = (if j = i then (k_procs k ! i)\<lparr>pr_exists := False\<rparr> else k_procs k ! j)" if "j < MAX_PROCESSES" for j
      using that l by (simp add: nth_upd_proc)
    have "pipes_ok ?k" using pipes_frame(1) [of ?k k] fds_okD(1) [OF f] by simp
    then have "fds_ok ?k ss" by (rule fds_move [OF f]) (use nj i(2) lt in \<open>auto simp: live_proc_def\<close>)
    with w sk nj i(1) True self show thesis by (intro that [of ?k rs ss]) (auto simp: awaited_def Let_def)
  next
    case False
    let ?j = "pid_index ?pp"
    from p False have j: "?j < MAX_PROCESSES" "?j \<noteq> i" "awaited i k \<Longrightarrow> ?j \<in> set ss \<and> unblocked ?j k" by (auto simp: parent_ok_def Let_def)
    have g: "get_proc ?j k = Some (k_procs k ! ?j)" using j(1) l by (simp add: get_proc_def)
    show thesis
    proof (cases "awaited i k")
      case no: False
      then have "wake_parent i k = Some k" using False g i(3) by (auto simp: wake_parent_def awaited_def Let_def)
      with no s f False self show thesis by (intro that [of k rs ss]) (auto simp: relinked_def)
    next
      case True
      let ?k1 = "upd_proc ?j (\<lambda>p. p\<lparr>pr_waiting_on := - 1\<rparr>) k"
      have s1: "sched ?k1 rs ss" by (rule sched_update [OF s]) (simp add: same_links_def)
      obtain k' where k': "resume_process ?j ?k1 = Some k'" "sched k' (?j # rs) (remove1 ?j ss)" "only_sched ?k1 k'" "same_procs ?k1 k'"
        by (rule resume_sched [OF s1]) (use j(3) True in blast)
      have w: "wake_parent i k = Some k'" using True g i(3) k'(1) by (simp add: wake_parent_def awaited_def Let_def)
      have o: "only_sched k k'" by (rule only_sched_trans [OF only_sched_upd k'(3)])
      have r: "relinked (if x = ?j then (k_procs k ! x)\<lparr>pr_waiting_on := - 1\<rparr> else k_procs k ! x) (k_procs k' ! x)" if "x < MAX_PROCESSES" for x
        using k'(4) that l by (auto simp: same_procs_iff nth_upd_proc split: if_splits)
      have q: "live_proc (k_procs k' ! x) = live_proc (k_procs k ! x) \<and> pr_filedesc (k_procs k' ! x) = pr_filedesc (k_procs k ! x)" if "x < MAX_PROCESSES" for x
        using r [OF that] by (cases "k_procs k ! x"; cases "k_procs k' ! x") (auto simp: relinked_def live_proc_def split: if_splits)
      have "pipes_ok k'" using pipes_only_sched(1) [OF o] fds_okD(1) [OF f] by simp
      moreover have "x < MAX_PROCESSES \<and> (x \<in> set (remove1 ?j ss) \<or> unblocked x k)" if "x \<in> set ss" for x
        using that lt j(3) [OF True] by (cases "x = ?j") auto
      ultimately have "fds_ok k' (remove1 ?j ss)" by (intro fds_move [OF f _ only_schedD(3,4) [OF o] q]) auto
      moreover have "\<exists>w. relinked ((k_procs k ! x)\<lparr>pr_waiting_on := w\<rparr>) (k_procs k' ! x)" if "x < MAX_PROCESSES" for x
        using r [OF that] self [of "k_procs k ! x"] by (cases "x = ?j") (simp_all, blast, metis relinked_trans)
      moreover have "(k_procs k ! i)\<lparr>pr_exists := pr_exists (k_procs k ! i)\<rparr> = k_procs k ! i" by simp
      ultimately show thesis using w k'(2) o r [OF i(1)] j(2) False by (intro that [of k' "?j # rs" "remove1 ?j ss"]) auto
    qed
  qed
qed

subsection \<open>All together\<close>

lemma kill_closes:
  assumes s: "sched k rs ss" and i: "i \<in> set rs \<union> set ss" and f: "fds_ok k ss" and u: "unblocked i k"
    and ka: "ka = (if k_current k = Some i then (disable_paging k)\<lparr>k_current := None\<rparr> else disable_paging k)"
    and k0: "k0 = dead i (list_remove (if pr_ready (k_procs k ! i) then Ready else Suspended) i ka)"
  obtains k1 rs1 ss1 where "close_fds (pr_filedesc (k_procs k0 ! i)) k0 = Some k1" "sched k1 rs1 ss1" "set rs - {i} \<subseteq> set rs1" "fds_ok k1 ss1"
    "k_mm k1 = k_mm k" "k_mailboxes k1 = k_mailboxes k" "k_current k1 = (if k_current k = Some i then None else k_current k)"
    "\<And>j. j < MAX_PROCESSES \<Longrightarrow> relinked (if j = i then (k_procs k ! j)\<lparr>pr_exited := True\<rparr> else k_procs k ! j) (k_procs k1 ! j)"
    "\<And>x. unblocked x k \<Longrightarrow> unblocked x k1 \<and> (x \<in> set ss \<and> x \<noteq> i \<longrightarrow> x \<in> set ss1)"
proof -
  have a: "k_procs ka = k_procs k" "k_handles ka = k_handles k" "k_pipes ka = k_pipes k" "k_mm ka = k_mm k" "k_mailboxes ka = k_mailboxes k"
    "k_heap ka = k_heap k" "k_arrays ka = k_arrays k" "k_ready ka = k_ready k" "k_suspended ka = k_suspended k"
    "k_current ka = (if k_current k = Some i then None else k_current k)" by (simp_all add: ka disable_paging_def)
  have sa: "sched ka rs ss" by (rule sched_frame [OF s]) (use a s in \<open>auto simp: sched_def split: if_splits\<close>)
  have "pipes_ok ka" using pipes_frame(1) [of ka k] a fds_okD(1) [OF f] by simp
  then have fa: "fds_ok ka ss" by (rule fds_move [OF f]) (use a sched_lt [OF s] in auto)
  have ua: "unblocked x ka = unblocked x k" for x by (simp add: unblocked_def a(3))
  let ?w = "if pr_ready (k_procs k ! i) then Ready else Suspended"
  define kb where "kb = list_remove ?w i ka"
  have kb: "kb = list_remove (if pr_ready (k_procs ka ! i) then Ready else Suspended) i ka" and k0': "k0 = dead i kb" by (simp_all add: kb_def a(1) k0)
  have cur: "k_current ka \<noteq> Some i" using a(10) by simp
  note U = unlink_sched [OF sa i cur kb] and H = unlink_held [OF fa sa i _ kb]
  have o: "only_sched ka kb" unfolding kb by (rule only_sched_list_remove)
  have fd: "pr_filedesc (k_procs k0 ! i) = pr_filedesc (k_procs ka ! i)"
    using same_procs_fds [OF U(2), of i] sched_lt [OF s i] sched_length [OF sa] by (simp add: k0')
  have m: "set (remove1 i rs) = set rs - {i}" "set (remove1 i ss) = set ss - {i}" using s by (simp_all add: sched_def dlist_def)
  have "fds_held (pr_filedesc (k_procs k0 ! i)) k0 (remove1 i ss)" "sched k0 (remove1 i rs) (remove1 i ss)"
    unfolding fd using H U(1) ua u by (simp_all only: k0')
  from close_fds_held [OF this] obtain k1 rs1 ss1 where
    1: "close_fds (pr_filedesc (k_procs k0 ! i)) k0 = Some k1" "sched k1 rs1 ss1" "set rs - {i} \<subseteq> set rs1" "fds_ok k1 ss1" "mild k0 k1"
      "\<forall>x. unblocked x k0 \<longrightarrow> unblocked x k1 \<and> (x \<in> set ss - {i} \<longrightarrow> x \<in> set ss1)" unfolding m by blast
  have q: "relinked (if j = i then (k_procs k ! j)\<lparr>pr_exited := True\<rparr> else k_procs k ! j) (k_procs k1 ! j)" if "j < MAX_PROCESSES" for j
  proof (rule relinked_trans)
    show "relinked (k_procs k0 ! j) (k_procs k1 ! j)" using 1(5) that sched_length [OF sa] U(2) by (simp add: mild_def same_procs_iff k0')
    have "relinked (k_procs k ! j) (k_procs kb ! j)" using U(2) that sched_length [OF s] by (simp add: same_procs_iff a(1))
    then show "relinked (if j = i then (k_procs k ! j)\<lparr>pr_exited := True\<rparr> else k_procs k ! j) (k_procs k0 ! j)"
      using that sched_length [OF sa] U(2) by (auto simp: k0' dead_proc same_procs_iff intro: relinked_exited)
  qed
  have "unblocked x k0 = unblocked x k" for x using only_schedD(4) [OF o] a(3) by (simp add: unblocked_def k0')
  then show thesis
    using 1 q only_schedD [OF o] a by (intro that [of k1 rs1 ss1]) (auto simp: mild_def k0')
qed

lemma relinked_memory:
  assumes "relinked (p\<lparr>pr_exited := e\<rparr>) q"
  shows "private_memory s q = private_memory s p" "user_pages s q = user_pages s p" "pr_pdir q = pr_pdir p" "pr_mailbox q = pr_mailbox p" "pr_pid q = pr_pid p"
  using assms by (cases p; cases q; simp add: relinked_def private_memory_def owns_memory_def space_ok_def space_pages_def user_pages_def)+

definition orphaned :: "nat \<Rightarrow> process \<Rightarrow> process" where
  "orphaned i p = p\<lparr>pr_parent_pid := (if pr_parent_pid p = int i then - 1 else pr_parent_pid p)\<rparr>"

lemma kill_releases:
  assumes s: "sched k rs ss" and f: "fds_ok k ss" and i: "i < MAX_PROCESSES" and m: "private_memory (k_mm k) (k_procs k ! i)"
    and b: "\<And>m. pr_mailbox (k_procs k ! i) = Some m \<Longrightarrow> m \<in> dom (k_mailboxes k)" and pid: "pr_pid (k_procs k ! i) = int i"
  obtains k' where "do { k \<leftarrow> on_mm (free_memory (k_procs k ! i)) k; k \<leftarrow> free_mailbox (k_procs k ! i) k;
        Some (orphan_children (pr_pid (k_procs k ! i)) k) } = Some k'"
    "sched k' rs ss" "fds_ok k' ss" "k_current k' = k_current k" "k_pipes k' = k_pipes k" "k_mailboxes k' = without_mail (k_procs k ! i) k"
    "\<And>j. j < MAX_PROCESSES \<Longrightarrow> k_procs k' ! j = orphaned i (k_procs k ! j)"
    "pages_inv (k_mm k')" "live_pages (k_mm k') = live_pages (k_mm k) - (user_pages (k_mm k) (k_procs k ! i) \<union> frames (k_mm k) (pr_pdir (k_procs k ! i)))"
    "agree_on (live_pages (k_mm k')) (k_mm k) (k_mm k')"
proof -
  from free_memory_returns [OF m] obtain s' where
    1: "free_memory (k_procs k ! i) (k_mm k) = Some s'" "pages_inv s'"
      "live_pages s' = live_pages (k_mm k) - (user_pages (k_mm k) (k_procs k ! i) \<union> frames (k_mm k) (pr_pdir (k_procs k ! i)))"
      "agree_on (live_pages s') (k_mm k) s'" by blast
  let ?k1 = "k\<lparr>k_mm := s'\<rparr>"
  have "pipes_ok ?k1" using pipes_frame(1) [of ?k1 k] fds_okD(1) [OF f] by simp
  moreover have wm: "without_mail (k_procs k ! i) ?k1 = without_mail (k_procs k ! i) k" by (simp add: without_mail_def split: option.split)
  moreover have "m \<in> dom (k_mailboxes ?k1)" if "pr_mailbox (k_procs k ! i) = Some m" for m using b [OF that] by simp
  ultimately obtain hp where
    2: "free_mailbox (k_procs k ! i) ?k1 = Some (?k1\<lparr>k_heap := hp, k_mailboxes := without_mail (k_procs k ! i) k\<rparr>)"
      "pipes_ok (?k1\<lparr>k_heap := hp, k_mailboxes := without_mail (k_procs k ! i) k\<rparr>)" by (metis free_mailbox_returns)
  let ?k2 = "?k1\<lparr>k_heap := hp, k_mailboxes := without_mail (k_procs k ! i) k\<rparr>" let ?k = "orphan_children (int i) ?k2"
  have l: "length (k_procs k) = MAX_PROCESSES" by (rule sched_length [OF s])
  have q: "k_procs ?k ! j = orphaned i (k_procs k ! j)" if "j < MAX_PROCESSES" for j
    using orphan_proc [of j ?k2 "int i"] that l by (simp add: orphaned_def)
  have "sched ?k rs ss" by (rule sched_frame [OF s]) (use q s in \<open>auto simp: same_links_def sched_def orphaned_def\<close>)
  moreover have "pipes_ok ?k" using pipes_frame(1) [of ?k ?k2] 2(2) by simp
  then have "fds_ok ?k ss" by (rule fds_move [OF f]) (use q sched_lt [OF s] in \<open>auto simp: live_proc_def orphaned_def\<close>)
  ultimately show thesis using 1 2(1) q pid by (intro that [of ?k]) (simp_all add: on_mm_def)
qed

lemma relinked_orphaned: "relinked p q \<Longrightarrow> relinked (orphaned i p) (orphaned i q)"
  by (cases p; cases q) (simp add: relinked_def orphaned_def)

text \<open>The state before the parent is looked at; for everybody but the process itself only links and the parent of children have changed.\<close>

lemma kill_until_parent:
  assumes s: "sched k rs ss" and i: "i \<in> set rs \<union> set ss" and f: "fds_ok k ss" and u: "unblocked i k"
    and mail: "mail_ok k" and mem: "private_memory (k_mm k) (k_procs k ! i)"
  obtains k2 rs1 ss1 where "kill_process i k = do { k' \<leftarrow> wake_parent i k2; restore_paging (k_current k = Some i) k' }"
    "sched k2 rs1 ss1" "fds_ok k2 ss1" "set rs - {i} \<subseteq> set rs1" "k_current k2 = (if k_current k = Some i then None else k_current k)"
    "k_mailboxes k2 = without_mail (k_procs k ! i) k" "pages_inv (k_mm k2)"
    "live_pages (k_mm k2) = live_pages (k_mm k) - (user_pages (k_mm k) (k_procs k ! i) \<union> frames (k_mm k) (pr_pdir (k_procs k ! i)))"
    "agree_on (live_pages (k_mm k2)) (k_mm k) (k_mm k2)"
    "\<And>j. j < MAX_PROCESSES \<Longrightarrow> relinked (orphaned i (if j = i then (k_procs k ! j)\<lparr>pr_exited := True\<rparr> else k_procs k ! j)) (k_procs k2 ! j)"
    "\<And>x. unblocked x k \<Longrightarrow> unblocked x k2 \<and> (x \<in> set ss \<and> x \<noteq> i \<longrightarrow> x \<in> set ss1)"
proof -
  let ?p = "k_procs k ! i"
  note I = sched_lt [OF s i] sched_proc [OF s i]
  define ka where "ka = (if k_current k = Some i then (disable_paging k)\<lparr>k_current := None\<rparr> else disable_paging k)"
  define k0 where "k0 = dead i (list_remove (if pr_ready ?p then Ready else Suspended) i ka)"
  obtain k1 rs1 ss1 where 1: "close_fds (pr_filedesc (k_procs k0 ! i)) k0 = Some k1" "sched k1 rs1 ss1" "set rs - {i} \<subseteq> set rs1" "fds_ok k1 ss1"
    "k_mm k1 = k_mm k" "k_mailboxes k1 = k_mailboxes k" "k_current k1 = (if k_current k = Some i then None else k_current k)"
    "\<And>j. j < MAX_PROCESSES \<Longrightarrow> relinked (if j = i then (k_procs k ! j)\<lparr>pr_exited := True\<rparr> else k_procs k ! j) (k_procs k1 ! j)"
    "\<And>x. unblocked x k \<Longrightarrow> unblocked x k1 \<and> (x \<in> set ss \<and> x \<noteq> i \<longrightarrow> x \<in> set ss1)"
    by (rule kill_closes [OF s i f u ka_def k0_def]) blast
  have "relinked (?p\<lparr>pr_exited := True\<rparr>) (k_procs k1 ! i)" using 1(8) [OF I(1)] by simp
  note M = relinked_memory [OF this]
  have "lives i k" using I sched_length [OF s] by (simp add: lives_def live_proc_def)
  then have "mail_wf k ?p" using mail by (simp add: mail_ok_def)
  then have box: "m \<in> dom (k_mailboxes k)" if "pr_mailbox ?p = Some m" for m using that by (auto simp: mail_wf_def)
  have wm: "without_mail (k_procs k1 ! i) k1 = without_mail ?p k" by (simp add: without_mail_def M(4) 1(6) split: option.split)
  obtain k2 where 2: "do { k \<leftarrow> on_mm (free_memory (k_procs k1 ! i)) k1; k \<leftarrow> free_mailbox (k_procs k ! i) k;
        Some (orphan_children (pr_pid (k_procs k ! i)) k) } = Some k2" "sched k2 rs1 ss1" "fds_ok k2 ss1" "k_current k2 = k_current k1"
    "k_pipes k2 = k_pipes k1" "k_mailboxes k2 = without_mail ?p k" "\<And>j. j < MAX_PROCESSES \<Longrightarrow> k_procs k2 ! j = orphaned i (k_procs k1 ! j)"
    "pages_inv (k_mm k2)" "live_pages (k_mm k2) = live_pages (k_mm k) - (user_pages (k_mm k) ?p \<union> frames (k_mm k) (pr_pdir ?p))"
    "agree_on (live_pages (k_mm k2)) (k_mm k) (k_mm k2)"
    by (rule kill_releases [OF 1(2,4) I(1)]) (use M mem box I(6) 1(5,6) wm in simp_all)
  from 2(1) obtain kb kc where b: "on_mm (free_memory (k_procs k1 ! i)) k1 = Some kb" "free_mailbox (k_procs kb ! i) kb = Some kc"
    "k2 = orphan_children (pr_pid (k_procs kc ! i)) kc" by (auto simp: bind_eq_Some_conv)
  have e: "kill_process i k = do { k' \<leftarrow> wake_parent i k2; restore_paging (k_current k = Some i) k' }"
    unfolding kill_process_eq using I(2) 1(1) b by (simp add: Let_def k0_def ka_def)
  have q: "relinked (orphaned i (if j = i then (k_procs k ! j)\<lparr>pr_exited := True\<rparr> else k_procs k ! j)) (k_procs k2 ! j)" if "j < MAX_PROCESSES" for j
    unfolding 2(7) [OF that] by (rule relinked_orphaned [OF 1(8) [OF that]])
  have "unblocked x k1 = unblocked x k2" for x by (simp add: unblocked_def 2(5))
  then show thesis using e 1(3,7,9) 2(2-4,6,8-10) q by (intro that [of k2 rs1 ss1]) auto
qed

lemma parent_ok_kept:
  assumes p: "parent_ok i k ss" and i: "i < MAX_PROCESSES"
    and q: "\<And>j. j < MAX_PROCESSES \<Longrightarrow> relinked (orphaned i (if j = i then (k_procs k ! j)\<lparr>pr_exited := True\<rparr> else k_procs k ! j)) (k_procs k' ! j)"
    and u: "\<And>x. unblocked x k \<Longrightarrow> unblocked x k' \<and> (x \<in> set ss \<and> x \<noteq> i \<longrightarrow> x \<in> set ss')"
  shows "pr_parent_pid (k_procs k' ! i) = pr_parent_pid (k_procs k ! i)" "awaited i k' \<longleftrightarrow> awaited i k" "parent_ok i k' ss'"
proof -
  let ?pp = "pr_parent_pid (k_procs k ! i)"
  have P: "?pp = - 1 \<or> 0 \<le> ?pp \<and> pid_index ?pp < MAX_PROCESSES \<and> pid_index ?pp \<noteq> i" using p by (auto simp: parent_ok_def Let_def)
  then have ne: "?pp \<noteq> int i" by (auto simp: pid_index_def)
  show e: "pr_parent_pid (k_procs k' ! i) = ?pp" using relinked_fields(4) [OF q [OF i]] ne by (simp add: orphaned_def)
  have a: "pr_in_syscall (k_procs k' ! pid_index ?pp) = pr_in_syscall (k_procs k ! pid_index ?pp)"
    "pr_waiting_on (k_procs k' ! pid_index ?pp) = pr_waiting_on (k_procs k ! pid_index ?pp)" if "?pp \<noteq> - 1"
    using that P relinked_fields(6,7) [OF q, of "pid_index ?pp"] by (auto simp: orphaned_def)
  show w: "awaited i k' \<longleftrightarrow> awaited i k" using a by (cases "?pp = - 1") (simp_all add: awaited_def Let_def e)
  show "parent_ok i k' ss'" using p u unfolding parent_ok_def Let_def e w by auto
qed

lemma restore_paging_returns:
  assumes "sched k rs ss" "c \<or> k_current k \<noteq> None"
  shows "\<exists>x. restore_paging c k = Some (k\<lparr>k_paging := x\<rparr>)"
proof (cases c)
  case True
  then show ?thesis by (intro exI [of _ "k_paging k"]) (simp add: restore_paging_def)
next
  case False
  with assms obtain j where "k_current k = Some j" "j \<in> set rs \<union> set ss" by (auto simp: sched_def)
  with sched_proc(1) [OF assms(1)] False show ?thesis by (auto simp: restore_paging_def current_process_def enable_paging_def)
qed

lemma kill_process_ends:
  assumes s: "sched k rs ss" and i: "i \<in> set rs \<union> set ss" and f: "fds_ok k ss" and u: "unblocked i k" and par: "parent_ok i k ss"
    and mail: "mail_ok k" and mem: "private_memory (k_mm k) (k_procs k ! i)" and cur: "k_current k \<noteq> None"
  obtains k' rs' ss' where "kill_process i k = Some k'" "sched k' rs' ss'" "fds_ok k' ss'" "set rs - {i} \<subseteq> set rs'"
    "awaited i k \<Longrightarrow> pid_index (pr_parent_pid (k_procs k ! i)) \<in> set rs'" "pr_exited (k_procs k' ! i)"
    "pr_exists (k_procs k' ! i) \<longleftrightarrow> pr_parent_pid (k_procs k ! i) \<noteq> - 1" "pr_exit_status (k_procs k' ! i) = pr_exit_status (k_procs k ! i)"
    "\<And>j. j < MAX_PROCESSES \<Longrightarrow> j \<noteq> i \<Longrightarrow> bystander i (k_procs k ! j) (k_procs k' ! j)"
    "k_mailboxes k' = without_mail (k_procs k ! i) k" "pages_inv (k_mm k')"
    "live_pages (k_mm k') = live_pages (k_mm k) - (user_pages (k_mm k) (k_procs k ! i) \<union> frames (k_mm k) (pr_pdir (k_procs k ! i)))"
    "agree_on (live_pages (k_mm k')) (k_mm k) (k_mm k')"
proof -
  let ?p = "k_procs k ! i"
  note I = sched_lt [OF s i] sched_proc [OF s i]
  obtain k2 rs1 ss1 where 2: "kill_process i k = do { k' \<leftarrow> wake_parent i k2; restore_paging (k_current k = Some i) k' }"
    "sched k2 rs1 ss1" "fds_ok k2 ss1" "set rs - {i} \<subseteq> set rs1" "k_current k2 = (if k_current k = Some i then None else k_current k)"
    "k_mailboxes k2 = without_mail ?p k" "pages_inv (k_mm k2)"
    "live_pages (k_mm k2) = live_pages (k_mm k) - (user_pages (k_mm k) ?p \<union> frames (k_mm k) (pr_pdir ?p))"
    "agree_on (live_pages (k_mm k2)) (k_mm k) (k_mm k2)"
    "\<And>j. j < MAX_PROCESSES \<Longrightarrow> relinked (orphaned i (if j = i then (k_procs k ! j)\<lparr>pr_exited := True\<rparr> else k_procs k ! j)) (k_procs k2 ! j)"
    "\<And>x. unblocked x k \<Longrightarrow> unblocked x k2 \<and> (x \<in> set ss \<and> x \<noteq> i \<longrightarrow> x \<in> set ss1)"
    by (rule kill_until_parent [OF s i f u mail mem]) blast
  have P: "pr_parent_pid (k_procs k2 ! i) = pr_parent_pid ?p" "awaited i k2 \<longleftrightarrow> awaited i k" "parent_ok i k2 ss1"
    by (rule parent_ok_kept [OF par I(1)]; use 2(10,11) in blast)+
  have z: "pr_exited (k_procs k2 ! i)" "pr_exists (k_procs k2 ! i)" "pr_pid (k_procs k2 ! i) = int i" "pr_exit_status (k_procs k2 ! i) = pr_exit_status ?p"
    using relinked_fields [OF 2(10) [OF I(1)]] I by (simp_all add: orphaned_def)
  then have nl: "\<not> live_proc (k_procs k2 ! i)" by (simp add: live_proc_def)
  obtain k3 rs' ss' where 3: "wake_parent i k2 = Some k3" "sched k3 rs' ss'" "fds_ok k3 ss'" "set rs1 \<subseteq> set rs'" "only_sched k2 k3"
    "\<And>j. j < MAX_PROCESSES \<Longrightarrow> j \<noteq> i \<Longrightarrow> \<exists>w. relinked ((k_procs k2 ! j)\<lparr>pr_waiting_on := w\<rparr>) (k_procs k3 ! j)"
    "relinked ((k_procs k2 ! i)\<lparr>pr_exists := (pr_exists (k_procs k2 ! i) \<and> pr_parent_pid (k_procs k2 ! i) \<noteq> - 1)\<rparr>) (k_procs k3 ! i)"
    "awaited i k2 \<Longrightarrow> pid_index (pr_parent_pid (k_procs k2 ! i)) \<in> set rs'"
    by (rule wake_parent_returns [OF 2(2,3) I(1) nl z(3) P(3)]) (rule that)
  note O = only_schedD [OF 3(5)]
  have "k_current k = Some i \<or> k_current k3 \<noteq> None" using cur O(7) 2(5) by auto
  from restore_paging_returns [OF 3(2) this] obtain x where x: "restore_paging (k_current k = Some i) k3 = Some (k3\<lparr>k_paging := x\<rparr>)" by blast
  let ?k = "k3\<lparr>k_paging := x\<rparr>"
  have sk: "sched ?k rs' ss'" by (rule sched_frame [OF 3(2)]) (use 3(2) in \<open>auto simp: sched_def\<close>)
  have pk: "pipes_ok ?k" using pipes_frame(1) [of ?k k3] fds_okD(1) [OF 3(3)] by simp
  then have fk: "fds_ok ?k ss'" by (rule fds_move [OF 3(3)]) (use sched_lt [OF 3(2)] in auto)
  have st: "bystander i (k_procs k ! j) (k_procs ?k ! j)" if "j < MAX_PROCESSES" "j \<noteq> i" for j
  proof -
    have "relinked (orphaned i (k_procs k ! j)) (k_procs k2 ! j)" using 2(10) [OF that(1)] that(2) by simp
    then show ?thesis using 3(6) [OF that] by (cases "k_procs k ! j"; cases "k_procs k2 ! j"; cases "k_procs k3 ! j") (auto simp: bystander_def relinked_def orphaned_def)
  qed
  have y: "pr_exited (k_procs ?k ! i)" "pr_exists (k_procs ?k ! i) \<longleftrightarrow> pr_parent_pid ?p \<noteq> - 1" "pr_exit_status (k_procs ?k ! i) = pr_exit_status ?p"
    using relinked_fields [OF 3(7)] z P(1) by simp_all
  show thesis
    using 2(1,4) 3(1,4,8) x sk fk st y P(1,2) 2(6-9) O(1,6) by (intro that [of ?k rs' ss']) auto
qed

text \<open>
  C25: the end of a process. \<open>kill_process\<close> on a live process with memory of its own, that is not blocked on a pipe and whose parent,
  if it waits for this process, is suspended in \<open>waitpid\<close>, returns: no assertion fails and nothing is freed twice. The process is off the lists and marked as
  exited; its entry is free at once without a parent, and stays, with the exit status, for a parent to collect; a waiting parent is ready again.
  All descriptors of the process are closed (the counts of all handles are those of the others, and the invariants of pipes and blocked readers
  hold), its mailbox is freed and the mail of the others is not touched, its memory goes back to the allocator
  and no other page is changed. Of the other processes only the links, and the parent of its children, change.
\<close>

theorem kill_process_correct:
  assumes s: "sched k rs ss" and i: "i \<in> set rs \<union> set ss" and f: "fds_ok k ss" and u: "unblocked i k" and par: "parent_ok i k ss"
    and mail: "mail_ok k" and mem: "private_memory (k_mm k) (k_procs k ! i)" and cur: "k_current k \<noteq> None"
  shows "\<exists>k' rs' ss'. kill_process i k = Some k' \<and> sched k' rs' ss' \<and> fds_ok k' ss' \<and> mail_ok k' \<and> pages_inv (k_mm k') \<and>
    set rs' \<union> set ss' = set rs \<union> set ss - {i} \<and> set rs - {i} \<subseteq> set rs' \<and> (awaited i k \<longrightarrow> pid_index (pr_parent_pid (k_procs k ! i)) \<in> set rs') \<and>
    pr_exited (k_procs k' ! i) \<and> pr_exit_status (k_procs k' ! i) = pr_exit_status (k_procs k ! i) \<and>
    (pr_exists (k_procs k' ! i) \<longleftrightarrow> pr_parent_pid (k_procs k ! i) \<noteq> - 1) \<and>
    (\<forall>j<MAX_PROCESSES. j \<noteq> i \<longrightarrow> bystander i (k_procs k ! j) (k_procs k' ! j)) \<and> (\<forall>j\<in>set rs' \<union> set ss'. mail j k' = mail j k) \<and>
    live_pages (k_mm k') = live_pages (k_mm k) - (user_pages (k_mm k) (k_procs k ! i) \<union> frames (k_mm k) (pr_pdir (k_procs k ! i))) \<and>
    agree_on (live_pages (k_mm k')) (k_mm k) (k_mm k')"
proof -
  obtain k' rs' ss' where K: "kill_process i k = Some k'" "sched k' rs' ss'" "fds_ok k' ss'" "set rs - {i} \<subseteq> set rs'"
    "awaited i k \<Longrightarrow> pid_index (pr_parent_pid (k_procs k ! i)) \<in> set rs'" "pr_exited (k_procs k' ! i)"
    "pr_exists (k_procs k' ! i) \<longleftrightarrow> pr_parent_pid (k_procs k ! i) \<noteq> - 1" "pr_exit_status (k_procs k' ! i) = pr_exit_status (k_procs k ! i)"
    "\<And>j. j < MAX_PROCESSES \<Longrightarrow> j \<noteq> i \<Longrightarrow> bystander i (k_procs k ! j) (k_procs k' ! j)"
    "k_mailboxes k' = without_mail (k_procs k ! i) k" "pages_inv (k_mm k')"
    "live_pages (k_mm k') = live_pages (k_mm k) - (user_pages (k_mm k) (k_procs k ! i) \<union> frames (k_mm k) (pr_pdir (k_procs k ! i)))"
    "agree_on (live_pages (k_mm k')) (k_mm k) (k_mm k')"
    by (rule kill_process_ends [OF assms]) blast
  note l = sched_length [OF s] sched_length [OF K(2)]
  have live: "live_proc (k_procs k' ! j) \<longleftrightarrow> j \<noteq> i \<and> live_proc (k_procs k ! j)" if "j < MAX_PROCESSES" for j
    using bystanderD(1) [OF K(9) [OF that]] K(6) by (cases "j = i") (simp_all add: live_proc_def)
  have un: "j \<in> set rs' \<union> set ss' \<longleftrightarrow> j \<in> set rs \<union> set ss - {i}" for j
    using sched_live [OF s, of j] sched_live [OF K(2), of j] live [of j] sched_lt [OF s, of j] sched_lt [OF K(2), of j] by (cases "j < MAX_PROCESSES") auto
  have lv: "lives j k' \<longleftrightarrow> j \<in> set rs' \<union> set ss'" "lives i k" for j
    using sched_live [OF K(2), of j] sched_lt [OF K(2), of j] sched_live [OF s, of i] sched_lt [OF s i] i l by (auto simp: lives_def)
  have q: "lives j k \<and> j \<noteq> i \<and> pr_mailbox (k_procs k' ! j) = pr_mailbox (k_procs k ! j) \<and>
      pr_mailbox_size (k_procs k' ! j) = pr_mailbox_size (k_procs k ! j) \<and> pr_mailbox_alloc (k_procs k' ! j) = pr_mailbox_alloc (k_procs k ! j)" if "lives j k'" for j
    using that live [of j] l bystanderD(3-5) [OF K(9), of j] by (auto simp: lives_def)
  have "heap_ok k'" using fds_okD(1) [OF K(3)] by (simp add: pipes_ok_def)
  note W = mail_without [OF mail this lv(2) K(10) q]
  have e: "set rs' \<union> set ss' = set rs \<union> set ss - {i}" using un by blast
  have "\<forall>j\<in>set rs' \<union> set ss'. mail j k' = mail j k" using W(2) lv(1) by blast
  then show ?thesis using K W(1) e by (intro exI [of _ k'] exI [of _ rs'] exI [of _ ss']) simp
qed

text \<open>A machine in which process 2 waits for process 1.\<close>

lemma waited_machine:
  obtains k where "sched k [1] [2]" "fds_ok k [2]" "mail_ok k" "unblocked 1 k" "parent_ok 1 k [2]" "awaited 1 k" "pr_parent_pid (k_procs k ! 1) = 2"
    "private_memory (k_mm k) (k_procs k ! 1)" "k_current k = Some 1"
proof -
  let ?fds = "replicate 16 None :: u32 option list" and ?q = "(proc_of 2 False)\<lparr>pr_in_syscall := 14, pr_waiting_on := 1\<rparr>"
  obtain k0 pdir where k0: "serves (stack_proc pdir ?fds) k0" "current_process k0 = Some (1, stack_proc pdir ?fds)" "sched k0 [1] [2]"
    "k_heap k0 = k_heap two_procs" "k_pipes k0 = Map.empty" "k_arrays k0 = Map.empty" "k_mailboxes k0 = Map.empty" "k_handles k0 = Map.empty"
    "k_procs k0 = (k_procs two_procs)[1 := stack_proc pdir ?fds]" by (rule user_machine)
  let ?p = "(stack_proc pdir ?fds)\<lparr>pr_parent_pid := 2\<rparr>"
  let ?k1 = "upd_proc 1 (\<lambda>p. p\<lparr>pr_parent_pid := 2\<rparr>) k0" let ?k = "upd_proc 2 (\<lambda>p. p\<lparr>pr_in_syscall := 14, pr_waiting_on := 1\<rparr>) ?k1"
  have "sched ?k1 [1] [2]" by (rule sched_update [OF k0(3)]) (simp add: same_links_def)
  then have s: "sched ?k [1] [2]" by (rule sched_update) (simp add: same_links_def)
  have n: "k_procs ?k ! j = (if j = 1 then ?p else if j = 2 then ?q else zero_process)" if "j < MAX_PROCESSES" for j
    using that by (auto simp: k0(9) upd_proc_def two_procs_def nth_list_update)
  have fd: "pr_filedesc (k_procs ?k ! j) = ?fds" "pr_mailbox (k_procs ?k ! j) = None" "pr_mailbox_size (k_procs ?k ! j) = 0" if "j < MAX_PROCESSES" for j
    using n [OF that] by (simp_all add: stack_proc_def with_stack_def proc_of_def zero_process_def)
  have h: "heap_ok ?k" using small_area_inv(1) k0(4-8) by (simp add: heap_ok_def heap_objs_def two_procs_def)
  have "refs fh ?k = 0" for fh unfolding refs_def by (rule sum.neutral) (use fd in auto)
  then have "fds_ok ?k [2]" using h fd k0(5,8) by (simp add: fds_ok_def pipes_ok_def ends_ok_def readers_ok_def)
  moreover have "mail_ok ?k" using h fd s by (auto simp: mail_ok_def mail_wf_def lives_def sched_def)
  moreover have "awaited 1 ?k" "pr_parent_pid (k_procs ?k ! 1) = 2" using n [of 1] n [of 2] by (simp_all add: awaited_def Let_def pid_index_def)
  moreover have "private_memory (k_mm ?k) (k_procs ?k ! 1)"
    using k0(1) n [of 1] by (simp add: serves_def private_memory_def owns_memory_def space_ok_def space_pages_def)
  moreover have "k_current ?k = Some 1" using k0(2) by (auto simp: current_process_def bind_eq_Some_conv)
  moreover have "unblocked x ?k" for x using k0(5) by (simp add: unblocked_def)
  ultimately show thesis using s by (intro that [of ?k]) (simp_all add: parent_ok_def Let_def pid_index_def)
qed

theorem kill_process_correct_witness:
  "\<exists>k k' rs' ss'. kill_process 1 k = Some k' \<and> sched k' rs' ss' \<and> set rs' = {2} \<and> ss' = [] \<and>
     pr_exited (k_procs k' ! 1) \<and> pr_exists (k_procs k' ! 1)"
proof -
  obtain k where k: "sched k [1] [2]" "fds_ok k [2]" "mail_ok k" "unblocked 1 k" "parent_ok 1 k [2]" "awaited 1 k" "pr_parent_pid (k_procs k ! 1) = 2"
    "private_memory (k_mm k) (k_procs k ! 1)" "k_current k = Some 1" by (rule waited_machine)
  have "1 \<in> set [1::nat] \<union> set [2]" "k_current k \<noteq> None" using k(9) by simp_all
  from kill_process_correct [OF k(1) this(1) k(2,4,5,3,8) this(2)] k(6,7) obtain k' rs' ss' where
    1: "kill_process 1 k = Some k'" "sched k' rs' ss'" "set rs' \<union> set ss' = {2}" "2 \<in> set rs'" "pr_exited (k_procs k' ! 1)" "pr_exists (k_procs k' ! 1)"
    by (auto simp: pid_index_def)
  moreover from 1(2) have "set rs' \<inter> set ss' = {}" by (simp add: sched_def)
  ultimately have "set rs' = {2}" "ss' = []" by (auto simp: set_eq_iff) (metis list.set_intros(1) neq_Nil_conv)
  with 1 show ?thesis by blast
qed

end
