(* ===== verification/Keyboard_Props.thy ===== *)
theory Keyboard_Props
  imports Sched_Props Pipe_Claims
begin

text \<open>
  From the keyboard to the input pipe: what \<open>keyboard_handler\<close> of \<^verbatim>\<open>source/main.c\<close> does with the scan codes
  of a text that is typed.
\<close>

subsection \<open>The keys for a text\<close>

text \<open>
  The keyboard of a PC: the scan codes of its rows, from left to right, with what is on the keys without and with shift. The codes
  and characters are those of the hardware, stated here independently of the tables in the code.
\<close>

definition pc_rows :: "(nat \<times> bytes \<times> bytes) list" where
  "pc_rows =
     [(2, chars ''1234567890-='', chars ''!@#$%^&*()_+''),
      (16, chars ''qwertyuiop[]'', chars ''QWERTYUIOP{}''),
      (28, [10], [10]),
      (30, chars ''asdfghjkl;'' @ [39, 96], chars ''ASDFGHJKL:'' @ [34, 126]),
      (43, [92] @ chars ''zxcvbnm,./'', [124] @ chars ''ZXCVBNM<>?''),
      (57, chars '' '', chars '' '')]"

definition pc_keys :: "(nat \<times> u8 \<times> u8) list" where
  "pc_keys = concat (map (\<lambda>(start, plain, shifted). zip [start..<start + length plain] (zip plain shifted)) pc_rows)"

text \<open>A key is pressed and released, with the shift key (42) held where the character needs it.\<close>

definition key_codes :: "u8 \<Rightarrow> u8 list" where
  "key_codes c =
     (case find (\<lambda>(x, plain, shifted). plain = c) pc_keys of
        Some (x, _) \<Rightarrow> [of_nat x, of_nat x OR 0x80]
      | None \<Rightarrow>
          (case find (\<lambda>(x, plain, shifted). shifted = c) pc_keys of
             Some (x, _) \<Rightarrow> [42, of_nat x, of_nat x OR 0x80, 42 OR 0x80]
           | None \<Rightarrow> []))"

text \<open>The interrupts of the keyboard, each with the registers of the process it interrupts.\<close>

fun keyboard_run :: "(regs \<times> u8) list \<Rightarrow> kernel \<Rightarrow> kernel option" where
  "keyboard_run [] k = Some k"
| "keyboard_run ((r, scancode) # es) k = do { (_, k) \<leftarrow> keyboard_handler r scancode k; keyboard_run es k }"

lemma keyboard_run_append: "keyboard_run (as @ bs) k = do { k \<leftarrow> keyboard_run as k; keyboard_run bs k }"
proof (induction as k rule: keyboard_run.induct)
  case (2 r x es k)
  then show ?case by (cases "keyboard_handler r x k") auto
qed simp

definition printable :: "u8 \<Rightarrow> bool" where
  "printable c \<longleftrightarrow> 32 \<le> c \<and> c \<le> 126 \<or> c = 10"

text \<open>The tables of the code agree with the keyboard, and every printable character is on a key.\<close>

lemma tables_agree:
  "\<forall>(x, plain, shifted)\<in>set pc_keys. x < 128 \<and> x \<noteq> 42 \<and> kbdmap ! x = plain \<and> kbdmap_shift ! x = shifted"
  unfolding pc_keys_def pc_rows_def kbdmap_def kbdmap_shift_def kbd_pad_def chars_def by (simp add: upt_rec)

lemma all_keys: "\<forall>c\<in>set (10 # map of_nat [32..<127]). c \<in> set (map (\<lambda>(x, p, s). p) pc_keys) \<union> set (map (\<lambda>(x, p, s). s) pc_keys)"
  unfolding pc_keys_def pc_rows_def chars_def by (simp add: upt_rec)

lemma printable_cases: "printable c \<Longrightarrow> c \<in> set (10 # map of_nat [32..<127])"
proof -
  assume "printable c"
  then have "c = 10 \<or> (32 \<le> unat c \<and> unat c < 127)" by (auto simp: printable_def word_le_nat_alt)
  moreover have "c = of_nat (unat c)" by simp
  ultimately show ?thesis by (metis atLeastLessThan_iff image_eqI list.set_intros(1,2) list.set_map set_upt)
qed

lemma find_found: "find P xs = Some y \<Longrightarrow> y \<in> set xs \<and> P y"
  by (induction xs) (auto split: if_splits)

lemma printable_key:
  assumes "printable c"
  obtains x where "key_codes c = [of_nat x, of_nat x OR 0x80]" "x < 128" "x \<noteq> 42" "kbdmap ! x = c"
  | x where "key_codes c = [42, of_nat x, of_nat x OR 0x80, 42 OR 0x80]" "x < 128" "x \<noteq> 42" "kbdmap_shift ! x = c"
proof (cases "find (\<lambda>(x, plain, shifted). plain = c) pc_keys")
  case (Some y)
  obtain x s where y: "y = (x, c, s)" "(x, c, s) \<in> set pc_keys" using find_found [OF Some] by (cases y) auto
  show thesis by (rule that(1) [of x]) (use Some y tables_agree in \<open>auto simp: key_codes_def\<close>)
next
  case None
  then have "c \<notin> set (map (\<lambda>(x, p, s). p) pc_keys)" by (auto simp: find_None_iff)
  then have "c \<in> set (map (\<lambda>(x, p, s). s) pc_keys)" using all_keys printable_cases [OF assms] by blast
  then obtain y where f: "find (\<lambda>(x, plain, shifted). shifted = c) pc_keys = Some y"
    by (cases "find (\<lambda>(x, plain, shifted). shifted = c) pc_keys") (auto simp: find_None_iff)
  obtain x p where y: "y = (x, p, c)" "(x, p, c) \<in> set pc_keys" using find_found [OF f] by (cases y) auto
  show thesis by (rule that(2) [of x]) (use None f y tables_agree in \<open>auto simp: key_codes_def\<close>)
qed

subsection \<open>One key\<close>

lemma seven_bits:
  fixes x :: u8
  assumes "unat x < 128"
  shows "x AND 0x7F = x" "x AND 0x80 = 0" "(x OR 0x80) AND 0x80 \<noteq> 0" "(x OR 0x80) AND 0x7F = x"
proof -
  have "take_bit 7 x = x" using assms by (simp add: take_bit_eq_mod word_unat_eq_iff unat_mod)
  then show a: "x AND 0x7F = x" using take_bit_eq_mask [of 7 x] by (simp add: mask_eq_exp_minus_1)
  have "x AND 0x80 = (x AND 0x7F) AND 0x80" by (simp add: a)
  also have "\<dots> = x AND (0x7F AND 0x80)" by (simp add: and.assoc)
  finally show b: "x AND 0x80 = 0" by simp
  show "(x OR 0x80) AND 0x80 \<noteq> 0" by (simp add: bit.conj_disj_distrib2 b)
  show "(x OR 0x80) AND 0x7F = x" by (simp add: bit.conj_disj_distrib2 a)
qed

lemma key_release:
  assumes "unat x < 128"
  shows "key_event (x OR 0x80) k = Some (if x = KEY_SHIFT then k\<lparr>k_shift_pressed := False\<rparr> else k)"
  using seven_bits [OF assms] by (simp add: key_event_def)

lemma key_press:
  assumes "unat x < 128" "x \<noteq> KEY_SHIFT" "k_input_pipe k = Some b" "(if k_shift_pressed k then kbdmap_shift else kbdmap) ! unat x = c"
  shows "key_event x k = write_to_pipe b [c] k"
  using seven_bits [OF assms(1)] assms(2-4) by (auto simp: key_event_def Let_def)

text \<open>A character written to a pipe that has room for it.\<close>

definition takes_input :: "u32 \<Rightarrow> nat \<Rightarrow> nat list \<Rightarrow> nat list \<Rightarrow> kernel \<Rightarrow> bool" where
  "takes_input b n rs ss k \<longleftrightarrow>
     pipes_ok k \<and> sched k rs ss \<and> k_input_pipe k = Some b \<and>
     (\<exists>p. k_pipes k b = Some p \<and> reader_ok p ss \<and> length (pipe_content b k) + n \<le> unat (pb_alloc p))"

definition reader_of :: "u32 \<Rightarrow> kernel \<Rightarrow> int" where
  "reader_of b k = (case k_pipes k b of Some p \<Rightarrow> pb_readpid p | None \<Rightarrow> - 1)"

lemma write_one:
  assumes t: "takes_input b (Suc n) rs ss k"
  obtains k' rs' ss' where "write_to_pipe b [c] k = Some k'" "takes_input b n rs' ss' k'" "pipe_content b k' = pipe_content b k @ [c]"
    "\<And>d. d \<noteq> b \<Longrightarrow> pipe_content d k' = pipe_content d k" "set rs \<subseteq> set rs'" "k_shift_pressed k' = k_shift_pressed k"
    "reader_of b k \<noteq> - 1 \<Longrightarrow> pid_index (reader_of b k) \<in> set rs'" "reader_of b k' = - 1"
    "reader_of b k = - 1 \<Longrightarrow> rs' = rs \<and> ss' = ss" "\<And>xs. \<forall>x\<in>set xs. x < MAX_PROCESSES \<Longrightarrow> no_calls k' xs = no_calls k xs"
proof -
  from t obtain p where p: "pipes_ok k" "sched k rs ss" "k_input_pipe k = Some b" "k_pipes k b = Some p" "reader_ok p ss"
    "length (pipe_content b k) + Suc n \<le> unat (pb_alloc p)" by (auto simp: takes_input_def)
  from pipes_okD [OF p(1,4)] obtain arr where "unat (pb_len p) \<le> length arr" "pipe_content b k = take (unat (pb_len p)) arr" by metis
  then have fits: "unat (pb_len p) + length [c] \<le> unat (pb_alloc p)" using p(6) by simp
  then have "unat (pb_len p + of_nat (length [c])) = unat (pb_len p) + length [c]"
    by (intro unat_add_of_nat_u32) (use unat_lt_u32 [of "pb_alloc p"] in linarith)
  then have "\<not> pb_alloc p < pb_len p + of_nat (length [c])" using fits by (simp add: word_less_nat_alt)
  then have r: "resize_pipe b (pb_len p + of_nat (length [c])) k = Some k" using p(4) by (simp add: resize_pipe_def)
  from write_core [OF r resized_refl [OF p(1,4)] p(4) fits] obtain k2 p2 where
    k2: "write_to_pipe b [c] k = wake_up_reader b k2" "pipes_ok k2" "pipe_content b k2 = pipe_content b k @ [c]"
      "\<And>c. c \<noteq> b \<Longrightarrow> pipe_content c k2 = pipe_content c k" "k_pipes k2 b = Some p2" "pb_readpid p2 = pb_readpid p" "pb_alloc p2 = pb_alloc p"
      "k2 = k\<lparr>k_heap := k_heap k2, k_pipes := k_pipes k2, k_arrays := k_arrays k2\<rparr>" by metis
  then obtain h ps as where e2: "k2 = k\<lparr>k_heap := h, k_pipes := ps, k_arrays := as\<rparr>" by blast
  then have s2: "sched k2 rs ss" by (intro sched_frame [OF p(2)]) (use p(2) in \<open>auto simp: sched_def\<close>)
  have "reader_ok p2 ss" using p(5) k2(6) by (simp add: reader_ok_def)
  from wake_up_reader_returns [OF s2 k2(5) this] obtain k' qs r s where
    k': "wake_up_reader b k2 = Some k'" "k_pipes k' b = Some (p2\<lparr>pb_readpid := - 1\<rparr>)"
      "if pb_readpid p2 = - 1 then sched k' rs ss
       else sched k' (pid_index (pb_readpid p2) # rs) (remove1 (pid_index (pb_readpid p2)) ss)" "same_procs k2 k'"
      "k' = k2\<lparr>k_procs := qs, k_ready := r, k_suspended := s, k_pipes := (k_pipes k2)(b \<mapsto> p2\<lparr>pb_readpid := - 1\<rparr>)\<rparr>" by metis
  note W = wake_up_reader_pipes [OF k2(2) k'(1)]
  define rs' where "rs' = (if pb_readpid p = - 1 then rs else pid_index (pb_readpid p) # rs)"
  define ss' where "ss' = (if pb_readpid p = - 1 then ss else remove1 (pid_index (pb_readpid p)) ss)"
  have "sched k' rs' ss'" using k'(3) by (simp add: rs'_def ss'_def k2(6) split: if_splits)
  then have "takes_input b n rs' ss' k'"
    unfolding takes_input_def using W k2(3,7) k'(2,5) e2 p(3,6) by (auto simp: reader_ok_def)
  moreover have "reader_of b k = pb_readpid p" by (simp add: reader_of_def p(4))
  moreover have "reader_of b k' = - 1" using k'(2) by (simp add: reader_of_def)
  moreover have "no_calls k' xs = no_calls k xs" if "\<forall>x\<in>set xs. x < MAX_PROCESSES" for xs
  proof -
    have "pr_in_syscall (k_procs k' ! x) = pr_in_syscall (k_procs k ! x)" if "x < MAX_PROCESSES" for x
    proof -
      have "x < length (k_procs k2)" using that sched_length [OF s2] by simp
      with k'(4) obtain pv nx rd where "k_procs k' ! x = (k_procs k2 ! x)\<lparr>pr_prev := pv, pr_next := nx, pr_ready := rd\<rparr>" unfolding same_procs_def by blast
      then show ?thesis using e2 by simp
    qed
    with that show ?thesis by (simp add: no_calls_def)
  qed
  ultimately show thesis
    using k2(1,3,4) k'(1,5) W e2 by (intro that [of k' rs' ss']) (auto simp: rs'_def ss'_def)
qed

text \<open>
  One key with a waiting reader: when the context switch at the end of the handler is entered, the character is in the pipe and the
  reader ready.
\<close>

lemma key_wakes_reader:
  assumes t: "takes_input b (Suc n) rs ss k" and x: "unat x < 128" "x \<noteq> KEY_SHIFT" and c: "(if k_shift_pressed k then kbdmap_shift else kbdmap) ! unat x = c"
  obtains k' rs' ss' where "keyboard_handler r x k = context_switch r k'" "sched k' rs' ss'" "pipe_content b k' = pipe_content b k @ [c]"
    "reader_of b k \<noteq> - 1 \<Longrightarrow> pid_index (reader_of b k) \<in> set rs'"
proof -
  have inp: "k_input_pipe k = Some b" using t by (simp add: takes_input_def)
  obtain k' rs' ss' where k': "write_to_pipe b [c] k = Some k'" "takes_input b n rs' ss' k'" "pipe_content b k' = pipe_content b k @ [c]"
    "reader_of b k \<noteq> - 1 \<Longrightarrow> pid_index (reader_of b k) \<in> set rs'" by (rule write_one [OF t]) (rule that)
  show thesis by (rule that [of k' rs' ss']) (use k' key_press [OF x inp c] in \<open>simp_all add: keyboard_handler_def takes_input_def\<close>)
qed

subsection \<open>Typing\<close>

text \<open>A context switch when no ready process is inside a system call.\<close>

lemma context_switch_quiet:
  assumes s: "sched k rs ss" and n: "no_calls k rs"
  obtains r' k' ps c pg where "context_switch r k = Some (r', k')" "k' = k\<lparr>k_procs := ps, k_current := c, k_paging := pg\<rparr>" "sched k' rs ss" "no_calls k' rs"
proof (cases "next_ready rs (k_current k)")
  case None
  have rs: "rs = []" using next_ready_in [of rs "k_current k"] None s by (auto simp: sched_def dlist_def)
  let ?k = "(save_regs r k)\<lparr>k_current := None\<rparr>" and ?r = "init_regs (ly_idle_stack (k_layout k) + IDLE_STACK_SIZE) (ly_idle (k_layout k))"
  from None have "switch_process r k = Some (False, ?r, ?k)" unfolding switch_process_eq [OF s] by simp
  then have c: "context_switch r k = Some (?r, ?k)" by (subst context_switch.simps) (simp only: bind.simps prod.case if_False)
  have e: "?k = k\<lparr>k_procs := k_procs (save_regs r k), k_current := None, k_paging := k_paging k\<rparr>" by (subst save_regs_only) simp
  have "sched ?k rs ss" by (rule sched_frame [OF save_regs_sched [OF s, of r]]) simp_all
  then show thesis by (rule that [OF c e]) (simp add: rs no_calls_def)
next
  case (Some j)
  have j: "j \<in> set rs"
    using next_ready_in [of rs "k_current k"] Some s
    by (cases "rs = []") (auto simp: sched_def dlist_def next_ready_def first_of_def split: option.splits)
  let ?k = "(save_regs r k)\<lparr>k_current := Some j, k_paging := Some (pr_pdir (k_procs k ! j))\<rparr>"
  note P = context_switch_plain [OF s n Some j refl, where r = r]
  show thesis by (rule that [OF P(1) _ P(2,3)]) (subst save_regs_only, simp)
qed

text \<open>\<open>quiet b n rs ss k\<close>: the input pipe has room for \<open>n\<close> characters, nobody waits for it, and no ready process is inside a system call.\<close>

definition quiet :: "u32 \<Rightarrow> nat \<Rightarrow> nat list \<Rightarrow> nat list \<Rightarrow> kernel \<Rightarrow> bool" where
  "quiet b n rs ss k \<longleftrightarrow> takes_input b n rs ss k \<and> reader_of b k = - 1 \<and> no_calls k rs"

text \<open>The whole handler, from what the key event does.\<close>

lemma quiet_handler:
  assumes e: "key_event x k = Some k1" and q: "quiet b n rs ss k1"
  obtains r' k' where "keyboard_handler r x k = Some (r', k')" "quiet b n rs ss k'" "\<And>d. pipe_content d k' = pipe_content d k1" "k_shift_pressed k' = k_shift_pressed k1"
proof -
  have s: "sched k1 rs ss" "no_calls k1 rs" using q by (simp_all add: quiet_def takes_input_def)
  obtain r' k' ps c pg where k': "context_switch r k1 = Some (r', k')" "k' = k1\<lparr>k_procs := ps, k_current := c, k_paging := pg\<rparr>" "sched k' rs ss" "no_calls k' rs"
    by (rule context_switch_quiet [OF s]) (rule that)
  have f: "pipes_ok k' = pipes_ok k1" "pipe_content d k' = pipe_content d k1" for d using pipes_frame [of k' k1] k'(2) by simp_all
  have "quiet b n rs ss k'" using q k' f by (simp add: quiet_def takes_input_def reader_of_def)
  then show thesis using e k' f by (intro that [of r' k']) (simp_all add: keyboard_handler_def)
qed

lemma quiet_shift: "quiet b n rs ss (k\<lparr>k_shift_pressed := v\<rparr>) = quiet b n rs ss k" "pipe_content d (k\<lparr>k_shift_pressed := v\<rparr>) = pipe_content d k"
proof -
  let ?k = "k\<lparr>k_shift_pressed := v\<rparr>"
  have "sched ?k rs ss = sched k rs ss" by (simp add: sched_def)
  then show "quiet b n rs ss ?k = quiet b n rs ss k"
    using pipes_frame [of ?k k] by (simp add: quiet_def takes_input_def reader_of_def no_calls_def)
  show "pipe_content d ?k = pipe_content d k" using pipes_frame(2) [of ?k k] by simp
qed

lemma quiet_press:
  assumes q: "quiet b (Suc n) rs ss k" and x: "x < 128" "x \<noteq> 42" and c: "(if k_shift_pressed k then kbdmap_shift else kbdmap) ! x = c"
  obtains r' k' where "keyboard_handler r (of_nat x) k = Some (r', k')" "quiet b n rs ss k'" "pipe_content b k' = pipe_content b k @ [c]"
    "\<And>d. d \<noteq> b \<Longrightarrow> pipe_content d k' = pipe_content d k" "k_shift_pressed k' = k_shift_pressed k"
proof -
  have u: "unat (of_nat x :: u8) = x" using x(1) by (simp add: unat_of_nat)
  have ne: "(of_nat x :: u8) \<noteq> KEY_SHIFT" using x u by (auto dest: arg_cong [of _ _ unat])
  have t: "takes_input b (Suc n) rs ss k" "k_input_pipe k = Some b" "reader_of b k = - 1" "sched k rs ss" "no_calls k rs" using q by (simp_all add: quiet_def takes_input_def)
  obtain k1 rs' ss' where k1: "write_to_pipe b [c] k = Some k1" "takes_input b n rs' ss' k1" "pipe_content b k1 = pipe_content b k @ [c]"
    "\<And>d. d \<noteq> b \<Longrightarrow> pipe_content d k1 = pipe_content d k" "k_shift_pressed k1 = k_shift_pressed k" "reader_of b k1 = - 1"
    "reader_of b k = - 1 \<Longrightarrow> rs' = rs \<and> ss' = ss" "\<And>xs. \<forall>x\<in>set xs. x < MAX_PROCESSES \<Longrightarrow> no_calls k1 xs = no_calls k xs"
    by (rule write_one [OF t(1)]) (rule that)
  have "\<forall>x\<in>set rs. x < MAX_PROCESSES" using sched_lt [OF t(4)] by blast
  then have q1: "quiet b n rs ss k1" using k1(2,6) k1(7) [OF t(3)] k1(8) t(5) by (simp add: quiet_def)
  have e: "key_event (of_nat x) k = Some k1" using key_press [of "of_nat x" k b c] u x(1) ne t(2) c k1(1) by simp
  obtain r' k' where "keyboard_handler r (of_nat x) k = Some (r', k')" "quiet b n rs ss k'" "\<And>d. pipe_content d k' = pipe_content d k1" "k_shift_pressed k' = k_shift_pressed k1"
    by (rule quiet_handler [OF e q1]) (rule that)
  then show thesis using k1(3-5) by (intro that [of r' k']) simp_all
qed

lemma quiet_release:
  assumes q: "quiet b n rs ss k" and x: "x < 128"
  obtains r' k' where "keyboard_handler r (of_nat x OR 0x80) k = Some (r', k')" "quiet b n rs ss k'" "\<And>d. pipe_content d k' = pipe_content d k"
    "k_shift_pressed k' = (x \<noteq> 42 \<and> k_shift_pressed k)"
proof -
  have u: "unat (of_nat x :: u8) = x" using x by (simp add: unat_of_nat)
  have ne: "(of_nat x :: u8) = KEY_SHIFT \<longleftrightarrow> x = 42" using u by (auto dest: arg_cong [of _ _ unat])
  let ?k1 = "if x = 42 then k\<lparr>k_shift_pressed := False\<rparr> else k"
  have e: "key_event (of_nat x OR 0x80) k = Some ?k1" using key_release [of "of_nat x" k] u x ne by simp
  have q1: "quiet b n rs ss ?k1" using q by (simp add: quiet_shift)
  obtain r' k' where "keyboard_handler r (of_nat x OR 0x80) k = Some (r', k')" "quiet b n rs ss k'" "\<And>d. pipe_content d k' = pipe_content d ?k1" "k_shift_pressed k' = k_shift_pressed ?k1"
    by (rule quiet_handler [OF e q1]) (rule that)
  then show thesis by (intro that [of r' k']) (simp_all add: quiet_shift)
qed

lemma quiet_shift_down:
  assumes q: "quiet b n rs ss k"
  obtains r' k' where "keyboard_handler r 42 k = Some (r', k')" "quiet b n rs ss k'" "\<And>d. pipe_content d k' = pipe_content d k" "k_shift_pressed k'"
proof -
  let ?k1 = "k\<lparr>k_shift_pressed := True\<rparr>"
  have e: "key_event 42 k = Some ?k1" by (simp add: key_event_def)
  have q1: "quiet b n rs ss ?k1" using q by (simp add: quiet_shift)
  obtain r' k' where "keyboard_handler r 42 k = Some (r', k')" "quiet b n rs ss k'" "\<And>d. pipe_content d k' = pipe_content d ?k1" "k_shift_pressed k' = k_shift_pressed ?k1"
    by (rule quiet_handler [OF e q1]) (rule that)
  then show thesis by (intro that [of r' k']) (simp_all add: quiet_shift)
qed

lemma type_char:
  assumes q: "quiet b (Suc n) rs ss k" and sh: "\<not> k_shift_pressed k" and c: "printable c" and es: "map snd es = key_codes c"
  obtains k' where "keyboard_run es k = Some k'" "quiet b n rs ss k'" "pipe_content b k' = pipe_content b k @ [c]"
    "\<And>d. d \<noteq> b \<Longrightarrow> pipe_content d k' = pipe_content d k" "\<not> k_shift_pressed k'"
  using c
proof (cases rule: printable_key)
  case (1 x)
  with es obtain r1 r2 where e: "es = [(r1, of_nat x), (r2, of_nat x OR 0x80)]" by (auto simp: map_eq_Cons_conv)
  have "(if k_shift_pressed k then kbdmap_shift else kbdmap) ! x = c" using sh 1(4) by simp
  then obtain r' k1 where k1: "keyboard_handler r1 (of_nat x) k = Some (r', k1)" "quiet b n rs ss k1" "pipe_content b k1 = pipe_content b k @ [c]"
    "\<And>d. d \<noteq> b \<Longrightarrow> pipe_content d k1 = pipe_content d k" "k_shift_pressed k1 = k_shift_pressed k" by (rule quiet_press [OF q 1(2,3)]) (rule that)
  obtain r'' k2 where k2: "keyboard_handler r2 (of_nat x OR 0x80) k1 = Some (r'', k2)" "quiet b n rs ss k2" "\<And>d. pipe_content d k2 = pipe_content d k1"
    "k_shift_pressed k2 = (x \<noteq> 42 \<and> k_shift_pressed k1)" by (rule quiet_release [OF k1(2) 1(2)]) (rule that)
  show thesis by (rule that [of k2]) (use e k1 k2 sh in simp_all)
next
  case (2 x)
  with es obtain r1 r2 r3 r4 where e: "es = [(r1, 42), (r2, of_nat x), (r3, of_nat x OR 0x80), (r4, 42 OR 0x80)]" by (auto simp: map_eq_Cons_conv)
  obtain s1 k1 where k1: "keyboard_handler r1 42 k = Some (s1, k1)" "quiet b (Suc n) rs ss k1" "\<And>d. pipe_content d k1 = pipe_content d k" "k_shift_pressed k1"
    by (rule quiet_shift_down [OF q]) (rule that)
  have "(if k_shift_pressed k1 then kbdmap_shift else kbdmap) ! x = c" using k1(4) 2(4) by simp
  then obtain s2 k2 where k2: "keyboard_handler r2 (of_nat x) k1 = Some (s2, k2)" "quiet b n rs ss k2" "pipe_content b k2 = pipe_content b k1 @ [c]"
    "\<And>d. d \<noteq> b \<Longrightarrow> pipe_content d k2 = pipe_content d k1" "k_shift_pressed k2 = k_shift_pressed k1" by (rule quiet_press [OF k1(2) 2(2,3)]) (rule that)
  obtain s3 k3 where k3: "keyboard_handler r3 (of_nat x OR 0x80) k2 = Some (s3, k3)" "quiet b n rs ss k3" "\<And>d. pipe_content d k3 = pipe_content d k2"
    by (rule quiet_release [OF k2(2) 2(2)]) (rule that)
  obtain s4 k4 where k4: "keyboard_handler r4 (of_nat 42 OR 0x80) k3 = Some (s4, k4)" "quiet b n rs ss k4" "\<And>d. pipe_content d k4 = pipe_content d k3"
    "k_shift_pressed k4 = ((42::nat) \<noteq> 42 \<and> k_shift_pressed k3)" by (rule quiet_release [OF k3(2), of 42 r4]) (simp, rule that)
  have "keyboard_run es k = Some k4" using e k1(1) k2(1) k3(1) k4(1) by simp
  then show thesis by (rule that [of k4]) (use k1 k2 k3 k4 in simp_all)
qed

text \<open>
  C31: what is typed arrives. For every text of printable characters and newlines, the keys of a PC keyboard that produce it, pressed and released one
  after the other, with shift held where a character needs it, append exactly this text to the input pipe and change no other pipe, as long as the array of the pipe has room,
  the process that reads it is not waiting for input and no ready process is inside a system call (so that the context switch
  after each key does not execute a call that could take the text out again). The shift key is up again at the end, and the lists of the scheduler are as they were,
  whatever the registers of the interrupted processes are.
\<close>

theorem typing_correct:
  assumes t: "takes_input b (length typed) rs ss k" and r: "reader_of b k = - 1" and n: "\<forall>j\<in>set rs. pr_in_syscall (k_procs k ! j) = 0"
    and sh: "\<not> k_shift_pressed k" and c: "\<forall>c\<in>set typed. printable c" and es: "map snd es = concat (map key_codes typed)"
  shows "\<exists>k'. keyboard_run es k = Some k' \<and> takes_input b 0 rs ss k' \<and> \<not> k_shift_pressed k' \<and>
    pipe_content b k' = pipe_content b k @ typed \<and> (\<forall>d. d \<noteq> b \<longrightarrow> pipe_content d k' = pipe_content d k)"
proof -
  have "\<exists>k'. keyboard_run es k = Some k' \<and> quiet b 0 rs ss k' \<and> \<not> k_shift_pressed k' \<and>
    pipe_content b k' = pipe_content b k @ typed \<and> (\<forall>d. d \<noteq> b \<longrightarrow> pipe_content d k' = pipe_content d k)"
    if "quiet b (length typed) rs ss k" "\<not> k_shift_pressed k" "\<forall>c\<in>set typed. printable c" "map snd es = concat (map key_codes typed)" for typed es k
    using that
  proof (induction typed arbitrary: k es)
    case (Cons c cs)
    then have q: "quiet b (Suc (length cs)) rs ss k" "printable c" by simp_all
    from Cons.prems(4) obtain e1 e2 where e: "es = e1 @ e2" "map snd e1 = key_codes c" "map snd e2 = concat (map key_codes cs)"
      by (auto simp: map_eq_append_conv)
    obtain k1 where k1: "keyboard_run e1 k = Some k1" "quiet b (length cs) rs ss k1" "pipe_content b k1 = pipe_content b k @ [c]"
      "\<And>d. d \<noteq> b \<Longrightarrow> pipe_content d k1 = pipe_content d k" "\<not> k_shift_pressed k1" by (rule type_char [OF q(1) Cons.prems(2) q(2) e(2)]) (rule that)
    from Cons.IH [OF k1(2,5) _ e(3)] Cons.prems(3) obtain k' where "keyboard_run e2 k1 = Some k'" "quiet b 0 rs ss k'" "\<not> k_shift_pressed k'"
      "pipe_content b k' = pipe_content b k1 @ cs" "\<forall>d. d \<noteq> b \<longrightarrow> pipe_content d k' = pipe_content d k1" by auto
    with k1 e(1) show ?case by (intro exI [of _ k']) (simp add: keyboard_run_append)
  qed auto
  moreover have "quiet b (length typed) rs ss k" using t r n by (simp add: quiet_def no_calls_def)
  ultimately show ?thesis using sh c es by (fastforce simp: quiet_def)
qed

theorem typing_correct_witness:
  "\<exists>k b k' es. map snd es = concat (map key_codes (chars ''Ls -l'' @ [10])) \<and> keyboard_run es k = Some k' \<and> pipe_content b k' = chars ''Ls -l'' @ [10]"
proof -
  obtain b d rd wr k0 where k0: "pipes_ok k0" "k_pipes k0 = [b \<mapsto> fresh_pipe d]" "pipe_content b k0 = []" "sched k0 [1] [2]" "k_procs k0 = k_procs two_procs"
    by (rule pipe_machine_pipe)
  let ?k = "k0\<lparr>k_input_pipe := Some b, k_shift_pressed := False\<rparr>" and ?t = "chars ''Ls -l'' @ [10]"
  have "sched ?k [1] [2]" by (rule sched_frame [OF k0(4)]) (use k0(4) in \<open>auto simp: sched_def\<close>)
  then have t: "takes_input b (length ?t) [1] [2] ?k"
    using k0(1-3) pipes_frame [of ?k k0] by (simp add: takes_input_def fresh_pipe_def reader_ok_def chars_def)
  have r: "reader_of b ?k = - 1" "\<forall>j\<in>set [1]. pr_in_syscall (k_procs ?k ! j) = 0" using k0(2,5) by (simp_all add: reader_of_def fresh_pipe_def two_procs_def proc_of_def zero_process_def)
  have p: "\<not> k_shift_pressed ?k" "\<forall>c\<in>set ?t. printable c" by (simp_all add: chars_def printable_def)
  define es where "es = map (\<lambda>x. (init_regs 0 0, x)) (concat (map key_codes ?t))"
  have es: "map snd es = concat (map key_codes ?t)" by (simp add: es_def comp_def)
  from typing_correct [OF t r p es] obtain k' where "keyboard_run es ?k = Some k'" "pipe_content b k' = pipe_content b ?k @ ?t" by blast
  then show ?thesis using k0(3) pipes_frame(2) [of ?k k0] es by auto
qed

end
