(* ===== verification/Brk_Props.thy ===== *)
theory Brk_Props
  imports User_Mem
begin

text \<open>
  The data segment grows: what \<open>syscall_brk\<close> of \<^verbatim>\<open>source/syscall.c\<close> does to the memory of the process that calls it.
\<close>

subsection \<open>Bytes of pages\<close>

text \<open>The words of a page determine its bytes.\<close>

lemma load32_byte:
  assumes "load32 m a = load32 m' b" "r < 4"
  shows "m (a + of_nat r) = m' (b + of_nat r)"
proof (rule bit_word_eqI)
  fix n assume n: "n < LENGTH(8)"
  have "bit (load32 m x) (8 * r + n) = bit (m (x + of_nat r)) n" for m x
  proof -
    consider "r = 0" | "r = 1" | "r = 2" | "r = 3" using assms(2) by linarith
    then show ?thesis by cases (use n in \<open>auto simp: load32_def bit_simps dest: bit_imp_le_length\<close>)
  qed
  then show "bit (m (a + of_nat r)) n = bit (m' (b + of_nat r)) n" using assms(1) by metis
qed

lemma page_bytes:
  assumes "\<forall>j<1024. mm_load (slot p j) s = mm_load (slot p j) s'" "i < 4096"
  shows "mm_mem s (p + of_nat i) = mm_mem s' (p + of_nat i)"
proof -
  let ?j = "of_nat (i div 4) :: u32"
  have "i div 4 < 1024" using assms(2) by simp
  then have "?j < 1024" by (simp add: word_less_nat_alt unat_of_nat)
  moreover have "slot p ?j + of_nat (i mod 4) = p + of_nat (4 * (i div 4) + i mod 4)" by (simp only: slot_def of_nat_add of_nat_mult) (simp add: add.assoc)
  ultimately show ?thesis
    using assms(1) load32_byte [of "mm_mem s" "slot p ?j" "mm_mem s'" "slot p ?j" "i mod 4"] by (simp add: mm_load_def)
qed

lemma zero_page_bytes:
  assumes "\<forall>j<1024. mm_load (slot p j) s = 0" "i < 4096"
  shows "mm_mem s (p + of_nat i) = 0"
  using page_bytes [of p s "s\<lparr>mm_mem := \<lambda>_. 0\<rparr>" i] assms by (simp add: mm_load_def load32_def)

subsection \<open>The new end\<close>

definition page_up :: "u32 \<Rightarrow> u32" where
  "page_up e = (if e mod PAGE_SIZE \<noteq> 0 then (e div PAGE_SIZE + 1) * PAGE_SIZE else e)"

lemma round_up:
  fixes e :: nat
  shows "e mod 4096 \<noteq> 0 \<Longrightarrow> (e + 4095) div 4096 = e div 4096 + 1" "e \<le> 4096 * ((e + 4095) div 4096)"
    "e \<le> 4096 * x \<Longrightarrow> (e + 4095) div 4096 \<le> x"
proof -
  have e: "e = 4096 * (e div 4096) + e mod 4096" "e mod 4096 < 4096" by simp_all
  show "e mod 4096 \<noteq> 0 \<Longrightarrow> (e + 4095) div 4096 = e div 4096 + 1" using e by linarith
  show "e \<le> 4096 * ((e + 4095) div 4096)" using e by linarith
  show "e \<le> 4096 * x \<Longrightarrow> (e + 4095) div 4096 \<le> x" using less_mult_imp_div_less [of "e + 4095" "Suc x" 4096] by simp
qed

lemma unat_page_up:
  assumes "unat e \<le> 4294963200"
  shows "unat (page_up e) = 4096 * ((unat e + 4095) div 4096)"
proof -
  have m: "unat (e mod PAGE_SIZE) = unat e mod 4096" "unat (e div PAGE_SIZE) = unat e div 4096" by (simp_all add: unat_mod unat_div)
  have z: "e mod PAGE_SIZE = 0 \<longleftrightarrow> unat e mod 4096 = 0" using m(1) by (metis unat_eq_zero)
  show ?thesis
  proof (cases "unat e mod 4096 = 0")
    case True
    then obtain x where "unat e = 4096 * x" by auto
    then have "4096 * ((unat e + 4095) div 4096) = unat e" by simp
    with True z show ?thesis by (simp add: page_up_def)
  next
    case False
    then have q: "unat e div 4096 + 1 \<le> 1048575" using round_up(1) [of "unat e"] round_up(3) [of "unat e" 1048575] assms by simp
    have "unat (e div PAGE_SIZE + 1) = unat e div 4096 + 1" using unat_add_u32 [of "e div PAGE_SIZE" 1] m(2) q by simp
    then have "unat ((e div PAGE_SIZE + 1) * PAGE_SIZE) = (unat e div 4096 + 1) * 4096" using q by (simp add: unat_word_ariths)
    with False z round_up(1) [OF False] show ?thesis by (simp add: page_up_def)
  qed
qed

text \<open>\<open>page_up e\<close> is the least page boundary from \<open>e\<close> on, if there is one.\<close>

lemma page_up_bounds:
  assumes "page_aligned b" "e \<le> b"
  shows "page_aligned (page_up e)" "e \<le> page_up e" "page_up e \<le> b"
proof -
  have "unat e \<le> 4294963200" using page_aligned_bound [OF assms(1)] assms(2) by (simp add: word_le_nat_alt)
  note u = unat_page_up [OF this]
  show "page_aligned (page_up e)" by (simp add: page_aligned_def u)
  show "e \<le> page_up e" unfolding word_le_nat_alt u by (rule round_up(2))
  obtain x where x: "unat b = 4096 * x" using assms(1) by (auto simp: page_aligned_def)
  then have "(unat e + 4095) div 4096 \<le> x" using assms(2) by (intro round_up(3)) (simp add: word_le_nat_alt)
  with x show "page_up e \<le> b" by (simp add: word_le_nat_alt u)
qed

subsection \<open>Growing\<close>

text \<open>The pages of a range of addresses, counted from its start.\<close>

lemma pages_in_lpage:
  assumes "page_aligned l" "page_aligned e" "l \<le> e" "a \<in> pages_in l e"
  obtains i where "i < (unat e - unat l) div 4096" "a = lpage l i"
proof -
  have a: "page_aligned a" "unat l \<le> unat a" "unat a < unat e" using assms(4) by (auto simp: pages_in_def word_le_nat_alt word_less_nat_alt)
  obtain x y z where xyz: "unat l = 4096 * x" "unat e = 4096 * y" "unat a = 4096 * z"
    using assms(1,2) a(1) by (auto simp: page_aligned_def dvd_def)
  have "unat (lpage l (z - x)) = unat a"
    using unat_add_of_nat_u32 [of l "4096 * (z - x)"] xyz a(2) unat_lt_u32 [of a] by (simp add: lpage_def diff_mult_distrib2)
  then have "a = lpage l (z - x)" by (simp add: word_unat_eq_iff)
  moreover have "z - x < (unat e - unat l) div 4096" using xyz a(2,3) by (simp flip: diff_mult_distrib2)
  ultimately show thesis by (intro that)
qed

text \<open>A range of addresses that is mapped to new pages.\<close>

lemma map_new_pages_fresh:
  assumes s: "pages_inv s" "dir_ok s d" and l: "page_aligned l" "page_aligned e" "l \<le> e"
    and n: "n = (unat e - unat l) div 4096" and r: "card (live_pages s) + 2 * n \<le> ram_pages s"
  obtains s' where "map_new_pages d l ((e - l) div PAGE_SIZE) s = Some s'" "dir_ext s d s'" "inj_on (page_of s' d) (pages_in l e)"
    "\<And>a. page_aligned a \<Longrightarrow> a \<notin> pages_in l e \<Longrightarrow> pte s' d a = pte s d a" "\<And>a. a \<in> pages_in l e \<Longrightarrow> pte s' d a \<noteq> None"
    "\<And>a. a \<in> pages_in l e \<Longrightarrow> page_of s' d a \<in> live_pages s' - live_pages s - frames s' d"
    "\<And>a j. a \<in> pages_in l e \<Longrightarrow> j < 1024 \<Longrightarrow> mm_load (slot (page_of s' d a) j) s' = 0"
proof -
  let ?N = "pages_in l e"
  have un: "unat ((e - l) div PAGE_SIZE) = n" using l(3) n by (simp add: unat_div unat_sub word_le_nat_alt)
  have "unat l + 4096 * n \<le> unat e" unfolding n using l(3) by (simp add: word_le_nat_alt)
  then have fit: "unat l + 4096 * n \<le> 2 ^ 32" and in_e: "\<And>a. page_aligned a \<Longrightarrow> in_range l n a \<Longrightarrow> a \<in> ?N"
    using less_imp_le [OF unat_lt_u32 [of e]] by (auto simp: in_range_def pages_in_def word_le_nat_alt word_less_nat_alt)
  obtain s' where s': "map_new_pages_loop d l n s = Some s'" using map_new_pages_loop_returns [OF s l(1) r] by blast
  from map_new_pages_loop_spec [OF s l(1) fit s'] obtain ps where
    x: "dir_ext s d s'" "\<And>k. page_aligned k \<Longrightarrow> \<not> in_range l n k \<Longrightarrow> pte s' d k = pte s d k" and ps: "fresh_pages s d l n ps s'" by blast
  have P: "length ps = n" "distinct ps" "\<And>i. i < n \<Longrightarrow> ps ! i \<in> live_pages s' - live_pages s - frames s' d"
    "\<And>i j. i < n \<Longrightarrow> j < 1024 \<Longrightarrow> mm_load (slot (ps ! i) j) s' = 0" using ps by (fastforce simp: fresh_pages_def disjoint_iff subset_iff)+
  have new: "\<exists>i<n. a = lpage l i \<and> pte s' d a \<noteq> None \<and> page_of s' d a = ps ! i" if a: "a \<in> ?N" for a
  proof -
    obtain i where i: "i < n" "a = lpage l i" using pages_in_lpage [OF l a] n by blast
    then have "page_aligned (ps ! i)" "pte s' d a = Some (ps ! i OR 7)" using P(3) live_aligned [of "ps ! i" s'] ps by (auto simp: fresh_pages_def)
    with i entry_address [of "ps ! i" PAGE_USER PAGE_READ_WRITE] flags_ok_consts show ?thesis by (auto simp: page_of_def)
  qed
  have N: "pte s' d a \<noteq> None" "page_of s' d a \<in> live_pages s' - live_pages s - frames s' d"
    "\<And>j. j < 1024 \<Longrightarrow> mm_load (slot (page_of s' d a) j) s' = 0" if "a \<in> ?N" for a using new [OF that] P(3,4) by auto
  have "inj_on (page_of s' d) ?N" by (rule inj_onI) (use new P(1,2) in \<open>metis nth_eq_iff_index_eq\<close>)
  moreover have "map_new_pages d l ((e - l) div PAGE_SIZE) s = Some s'" using s' l(1) un by (simp add: map_new_pages_def page_aligned_mod)
  ultimately show thesis using x in_e N by (intro that [of s']) blast+
qed

definition grown :: "u32 \<Rightarrow> process \<Rightarrow> process" where
  "grown e p = p\<lparr>pr_data_end := e\<rparr>"

lemma grown_pages:
  assumes "space_ok p" "pr_data_end p \<le> e" "page_aligned e" "e \<le> pr_stack_start p"
  shows "space_pages (grown e p) = space_pages p \<union> pages_in (pr_data_end p) e" "space_ok (grown e p)"
    "space_pages p \<inter> pages_in (pr_data_end p) e = {}"
proof -
  have "pages_in (pr_data_start p) e = pages_in (pr_data_start p) (pr_data_end p) \<union> pages_in (pr_data_end p) e"
    using assms(1,2) by (auto simp: pages_in_def space_ok_def)
  then show "space_pages (grown e p) = space_pages p \<union> pages_in (pr_data_end p) e" by (auto simp: space_pages_def grown_def)
  show "space_ok (grown e p)" using assms by (auto simp: space_ok_def grown_def)
  show "space_pages p \<inter> pages_in (pr_data_end p) e = {}" using assms by (auto simp: space_pages_def pages_in_def space_ok_def)
qed

lemma map_new_pages_grows:
  assumes m: "private_memory s p" and e: "pr_data_end p \<le> e" "page_aligned e" "e \<le> pr_stack_start p"
    and n: "n = (unat e - unat (pr_data_end p)) div 4096" and r: "card (live_pages s) + 2 * n \<le> ram_pages s"
  obtains s' where "map_new_pages (pr_pdir p) (pr_data_end p) ((e - pr_data_end p) div PAGE_SIZE) s = Some s'"
    "private_memory s' (grown e p)" "dir_ext s (pr_pdir p) s'" "\<forall>a\<in>space_pages p. page_of s' (pr_pdir p) a = page_of s (pr_pdir p) a"
    "\<forall>a\<in>pages_in (pr_data_end p) e. \<forall>j<1024. mm_load (slot (page_of s' (pr_pdir p) a) j) s' = 0"
proof -
  let ?d = "pr_pdir p" and ?N = "pages_in (pr_data_end p) e"
  have M: "space_ok p" "pages_inv s" "dir_ok s ?d" "inj_on (page_of s ?d) (space_pages p)" "page_of s ?d ` space_pages p \<inter> frames s ?d = {}"
    "\<And>a. a \<in> space_pages p \<Longrightarrow> pte s ?d a \<noteq> None \<and> page_of s ?d a \<in> live_pages s" using m by (auto simp: private_memory_def owns_memory_def)
  have l: "page_aligned (pr_data_end p)" using M(1) by (simp add: space_ok_def)
  note G = grown_pages [OF M(1) e]
  obtain s' where s': "map_new_pages ?d (pr_data_end p) ((e - pr_data_end p) div PAGE_SIZE) s = Some s'" "dir_ext s ?d s'" "inj_on (page_of s' ?d) ?N"
    "\<And>a. page_aligned a \<Longrightarrow> a \<notin> ?N \<Longrightarrow> pte s' ?d a = pte s ?d a" "\<And>a. a \<in> ?N \<Longrightarrow> pte s' ?d a \<noteq> None"
    "\<And>a. a \<in> ?N \<Longrightarrow> page_of s' ?d a \<in> live_pages s' - live_pages s - frames s' ?d" "\<And>a j. a \<in> ?N \<Longrightarrow> j < 1024 \<Longrightarrow> mm_load (slot (page_of s' ?d a) j) s' = 0"
    by (rule map_new_pages_fresh [OF M(2,3) l e(2,1) n r]) (rule that)
  have old: "pte s' ?d a = pte s ?d a" if "a \<in> space_pages p" for a
    using space_pages_high [OF M(1) that] that G(3) by (intro s'(4)) auto
  then have po: "page_of s' ?d a = page_of s ?d a" if "a \<in> space_pages p" for a using that by (simp add: page_of_def)
  have "inj_on (page_of s' ?d) (space_pages p)" using M(4) po by (metis inj_on_cong)
  moreover have "page_of s' ?d ` space_pages p \<inter> page_of s' ?d ` ?N = {}" using M(6) po s'(6) by fastforce
  ultimately have "inj_on (page_of s' ?d) (space_pages p \<union> ?N)" using G(3) s'(3) by (simp add: inj_on_Un) blast
  moreover have "page_of s' ?d a \<in> live_pages s' - frames s' ?d" if "a \<in> space_pages p" for a
    using M(5) M(6) [OF that] that s'(2) po [OF that] by (fastforce simp: dir_ext_def)
  ultimately have "private_memory s' (grown e p)"
    using M(6) s'(5,6) G(2) s'(2) old unfolding private_memory_def owns_memory_def G(1) by (auto simp: grown_def dir_ext_def)
  then show thesis using s'(1,2,7) po by (intro that [of s']) blast+
qed

text \<open>What the process sees of its memory, old and new.\<close>

lemma grown_view:
  assumes k: "serves p k" and k': "serves (grown e p) k'" and e: "pr_data_end p \<le> e" "page_aligned e" "e \<le> pr_stack_start p"
    and x: "dir_ext (k_mm k) (pr_pdir p) (k_mm k')" "\<forall>a\<in>space_pages p. page_of (k_mm k') (pr_pdir p) a = page_of (k_mm k) (pr_pdir p) a"
    "\<forall>a\<in>pages_in (pr_data_end p) e. \<forall>j<1024. mm_load (slot (page_of (k_mm k') (pr_pdir p) a) j) (k_mm k') = 0"
  shows "a \<in> user_addrs p \<Longrightarrow> vload a k' = vload a k" "pr_data_end p \<le> a \<Longrightarrow> a < e \<Longrightarrow> vload a k' = Some 0"
proof -
  let ?d = "pr_pdir p"
  have m: "private_memory (k_mm k) p" using k by (simp add: serves_def)
  then have ok: "space_ok p" by (simp add: private_memory_def owns_memory_def)
  note G = grown_pages [OF ok e]
  have d: "pr_pdir (grown e p) = ?d" by (simp add: grown_def)
  show "vload a k' = vload a k" if a: "a \<in> user_addrs p"
  proof -
    have "a \<in> user_addrs (grown e p)" using a G(1) by (simp add: user_addrs_def)
    then have v: "vload a k' = Some (mm_mem (k_mm k') (phys (k_mm k') (grown e p) a))" by (rule vload_serves [OF k'])
    let ?P = "page_of (k_mm k) ?d (page_base a)"
    have "?P \<in> live_pages (k_mm k) - frames (k_mm k) ?d" using m a by (auto simp: private_memory_def owns_memory_def user_addrs_def)
    then have "\<forall>j<1024. mm_load (slot ?P j) (k_mm k') = mm_load (slot ?P j) (k_mm k)" using x(1) by (auto simp: dir_ext_def agree_on_def)
    then have "mm_mem (k_mm k') (phys (k_mm k) p a) = mm_mem (k_mm k) (phys (k_mm k) p a)" unfolding phys_def by (rule page_bytes) simp
    moreover have "phys (k_mm k') (grown e p) a = phys (k_mm k) p a" using x(2) a by (simp add: phys_def d user_addrs_def)
    ultimately show ?thesis using v vload_serves [OF k a] by simp
  qed
  show "vload a k' = Some 0" if a: "pr_data_end p \<le> a" "a < e"
  proof -
    have "page_aligned (pr_data_end p)" using ok by (simp add: space_ok_def)
    then have b: "page_base a \<in> pages_in (pr_data_end p) e" using a by (intro segment_page) (simp_all add: word_le_nat_alt word_less_nat_alt)
    then have u: "a \<in> user_addrs (grown e p)" using G(1) by (simp add: user_addrs_def)
    have "mm_mem (k_mm k') (phys (k_mm k') (grown e p) a) = 0"
      unfolding phys_def d by (rule zero_page_bytes) (use x(3) b in simp_all)
    with vload_serves [OF k' u] show ?thesis by simp
  qed
qed

text \<open>
  C28: \<open>brk\<close>. For an end that the data segment has already, nothing happens. Otherwise, with memory left and the new end not
  behind the start of the stack, the call returns 0 and the data segment ends at the next page boundary; the new addresses read as zero, all
  that was in the memory of the process is still there, its pages are still its own, and no page in use changes but the page tables
  of this process.
\<close>

theorem syscall_brk_correct:
  assumes c: "current_process k = Some (i, p)" and s: "serves p k" and e: "newend \<le> pr_stack_start p"
    and r: "card (live_pages (k_mm k)) + 2 * ((unat (page_up newend) - unat (pr_data_end p)) div 4096) \<le> ram_pages (k_mm k)"
  shows "if newend \<le> pr_data_end p then syscall_brk newend k = Some (0, k)
    else \<exists>s'. syscall_brk newend k = Some (0, upd_proc i (grown (page_up newend)) (k\<lparr>k_mm := s'\<rparr>)) \<and>
      (\<forall>k'. k' = upd_proc i (grown (page_up newend)) (k\<lparr>k_mm := s'\<rparr>) \<longrightarrow>
        newend \<le> page_up newend \<and> page_aligned (page_up newend) \<and> current_process k' = Some (i, grown (page_up newend) p) \<and>
        serves (grown (page_up newend) p) k' \<and> (\<forall>a\<in>user_addrs p. vload a k' = vload a k) \<and>
        (\<forall>a. pr_data_end p \<le> a \<and> a < page_up newend \<longrightarrow> vload a k' = Some 0) \<and>
        agree_on (live_pages (k_mm k) - frames (k_mm k) (pr_pdir p)) (k_mm k) (k_mm k'))"
proof (cases "newend \<le> pr_data_end p")
  case True
  with c show ?thesis by (simp add: syscall_brk_def)
next
  case False
  let ?e = "page_up newend" and ?d = "pr_pdir p"
  have m: "private_memory (k_mm k) p" "k_paging k = Some ?d" using s by (simp_all add: serves_def)
  then have "page_aligned (pr_stack_start p)" by (simp add: private_memory_def owns_memory_def space_ok_def)
  note U = page_up_bounds [OF this e]
  have le: "pr_data_end p \<le> ?e" using False U(2) by simp
  obtain s' where s': "map_new_pages ?d (pr_data_end p) ((?e - pr_data_end p) div PAGE_SIZE) (k_mm k) = Some s'"
    "private_memory s' (grown ?e p)" "dir_ext (k_mm k) ?d s'" "\<forall>a\<in>space_pages p. page_of s' ?d a = page_of (k_mm k) ?d a"
    "\<forall>a\<in>pages_in (pr_data_end p) ?e. \<forall>j<1024. mm_load (slot (page_of s' ?d a) j) s' = 0"
    by (rule map_new_pages_grows [OF m(1) le U(1,3) refl r]) (rule that)
  let ?k = "upd_proc i (grown ?e) (k\<lparr>k_mm := s'\<rparr>)"
  have k: "k\<lparr>k_mm := s', k_paging := Some ?d\<rparr> = k\<lparr>k_mm := s'\<rparr>" using m(2) by (cases k) simp
  have "syscall_brk newend k = Some (0, ?k)"
    using c False s'(1) k by (auto simp: syscall_brk_def page_up_def disable_paging_def enable_paging_def on_mm_def grown_def [abs_def] Let_def)
  moreover have "current_process ?k = Some (i, grown ?e p)"
    using c by (auto simp: current_process_def get_proc_def upd_proc_def bind_eq_Some_conv split: if_splits)
  moreover have sk: "serves (grown ?e p) ?k" using s'(2) m(2) by (simp add: serves_def upd_proc_def grown_def)
  moreover note V = grown_view [OF s sk le U(1,3)]
  have "vload a ?k = vload a k" if "a \<in> user_addrs p" for a by (rule V(1)) (use s'(3-5) that in \<open>auto simp: upd_proc_def\<close>)
  moreover have "vload a ?k = Some 0" if "pr_data_end p \<le> a" "a < ?e" for a by (rule V(2)) (use s'(3-5) that in \<open>auto simp: upd_proc_def\<close>)
  moreover have "agree_on (live_pages (k_mm k) - frames (k_mm k) ?d) (k_mm k) (k_mm ?k)" using s'(3) by (simp add: dir_ext_def)
  ultimately show ?thesis using False U(1,2) by auto
qed

theorem syscall_brk_correct_witness:
  "\<exists>k k' p'. syscall_brk 0x20001001 k = Some (0, k') \<and> current_process k' = Some (1, p') \<and> pr_data_end p' = 0x20002000 \<and>
     serves p' k' \<and> vload 0x20000000 k' = Some 0 \<and> vload 0x20001FFF k' = Some 0 \<and> vload 0x3FFFF000 k' = vload 0x3FFFF000 k"
proof -
  obtain k pdir where k: "serves (stack_proc pdir []) k" "current_process k = Some (1, stack_proc pdir [])"
    "card (live_pages (k_mm k)) \<le> 3" "ram_pages (k_mm k) = 2560" by (rule user_machine)
  let ?p = "stack_proc pdir []" and ?e = "0x20001001 :: u32"
  have up: "page_up ?e = 0x20002000" by (simp add: page_up_def)
  have p: "pr_data_end ?p = 0x20000000" "?e \<le> pr_stack_start ?p" by (simp_all add: stack_proc_def with_stack_def)
  have "page_base 0x3FFFF000 = 0x3FFFF000" by (simp add: page_base_def)
  then have u: "0x3FFFF000 \<in> user_addrs ?p" using one_page by (simp add: user_addrs_def space_pages_def stack_proc_def with_stack_def)
  have "card (live_pages (k_mm k)) + 2 * ((unat (page_up ?e) - unat (pr_data_end ?p)) div 4096) \<le> ram_pages (k_mm k)" using k(3,4) by (simp add: up p)
  from syscall_brk_correct [OF k(2,1) p(2) this] obtain k' where k': "syscall_brk ?e k = Some (0, k')"
    "current_process k' = Some (1, grown 0x20002000 ?p)" "serves (grown 0x20002000 ?p) k'" "\<forall>a\<in>user_addrs ?p. vload a k' = vload a k"
    "\<forall>a. 0x20000000 \<le> a \<and> a < 0x20002000 \<longrightarrow> vload a k' = Some 0" by (auto simp: up p(1))
  moreover have "pr_data_end (grown 0x20002000 ?p) = 0x20002000" by (simp add: grown_def)
  ultimately show ?thesis using u by (intro exI [of _ k] exI [of _ k'] exI [of _ "grown 0x20002000 ?p"]) auto
qed

end
