(* ===== verification/Buddy_Room.thy ===== *)
theory Buddy_Room
  imports Buddy_Props
begin

text \<open>
  When an allocation cannot fail: a bound on fragmentation. Because free buddies merge, an aligned part of
  the area in which nothing is in use is one free block, or part of one.
\<close>

subsection \<open>A part of the area with nothing in use\<close>

lemma buddy_of_shift:
  assumes "2 ^ k dvd c" "m < k" "2 ^ m dvd x"
  shows "buddy_of m (c + x) = c + buddy_of m x"
proof -
  have d: "2 ^ Suc m dvd c" using assms(1,2) by (meson Suc_leI dvd_trans le_imp_power_dvd)
  then have "2 ^ m dvd c + x" using assms(3) by (meson dvd_add dvd_trans le_imp_power_dvd lessI less_imp_le)
  moreover have "2 ^ Suc m dvd c + x \<longleftrightarrow> 2 ^ Suc m dvd x" by (rule dvd_add_right_iff [OF d])
  ultimately show ?thesis using buddy_of_arith [OF assms(3)] buddy_of_arith [of m "c + x"] not_dvd_Suc_ge [OF assms(3)] by simp
qed

lemma free_chunk:
  assumes t: "tiles lo up B" and co: "coalesced up (\<lambda>m. {b. B b = Some (m, False)})"
    and k: "lo \<le> k" "k \<le> up" and c: "2 ^ k dvd c" "c + 2 ^ k \<le> 2 ^ up"
    and unused: "\<And>b m. B b = Some (m, True) \<Longrightarrow> b < c + 2 ^ k \<Longrightarrow> c < b + 2 ^ m \<Longrightarrow> False"
  shows "\<exists>b m. k \<le> m \<and> B b = Some (m, False)"
proof (rule ccontr)
  assume none: "\<not> ?thesis"
  let ?B = "\<lambda>x. if x < 2 ^ k then B (c + x) else None"
  have inside: "m < k" "\<not> u" "c \<le> b" "b + 2 ^ m \<le> c + 2 ^ k" "in_area lo up b m"
    if "B b = Some (m, u)" "b < c + 2 ^ k" "c < b + 2 ^ m" for b m u
  proof -
    show u: "\<not> u" using unused that by (cases u) auto
    show m: "m < k" using none that(1) u by (cases "k \<le> m") auto
    show a: "in_area lo up b m" by (rule tiles_area [OF t that(1)])
    then have d: "2 ^ m dvd b" by (simp add: in_area_def)
    have p: "(2::nat) ^ m dvd 2 ^ k" using m by (intro le_imp_power_dvd) simp
    then have "2 ^ m dvd c" using c(1) by (rule dvd_trans)
    then show "c \<le> b" using dvd_less_add_le [OF d, of c] that(3) by (cases "c \<le> b") auto
    have "2 ^ m dvd c + 2 ^ k" using \<open>2 ^ m dvd c\<close> p by (rule dvd_add)
    then show "b + 2 ^ m \<le> c + 2 ^ k" by (rule dvd_less_add_le [OF d _ that(2)])
  qed
  have part: "m < k" "\<not> u" "x + 2 ^ m \<le> 2 ^ k" "lo \<le> m" "2 ^ m dvd x" if "?B x = Some (m, u)" for x m u
  proof -
    have x: "B (c + x) = Some (m, u)" "c + x < c + 2 ^ k" "c < c + x + 2 ^ m" using that by (auto split: if_splits)
    show "m < k" "\<not> u" "x + 2 ^ m \<le> 2 ^ k" "lo \<le> m" using inside [OF x] by (auto simp: in_area_def)
    then have "2 ^ m dvd c" using c(1) by (meson dvd_trans le_imp_power_dvd less_imp_le)
    then show "2 ^ m dvd x" using inside(5) [OF x] by (simp add: in_area_def dvd_add_right_iff)
  qed
  have "tiles lo k ?B"
    unfolding tiles_def
  proof (intro conjI allI impI)
    show "in_area lo k x m" if "?B x = Some (m, u)" for x m u using part [OF that] by (simp add: in_area_def)
    show "x + 2 ^ m \<le> y" if "?B x = Some (m, u)" "?B y = Some (m', u')" "x < y" for x m u y m' u'
      using tiles_disjoint [OF t, of "c + x" m u "c + y" m' u'] that by (auto split: if_splits)
    show "\<exists>b m u. ?B b = Some (m, u) \<and> b \<le> x \<and> x < b + 2 ^ m" if x: "x < 2 ^ k" for x
    proof -
      have "c + x < 2 ^ up" using c(2) x by linarith
      from tiles_cover [OF t this] obtain b m u where b: "B b = Some (m, u)" "b \<le> c + x" "c + x < b + 2 ^ m" .
      have "c \<le> b" using inside(3) [OF b(1)] b(2,3) x by linarith
      then show ?thesis using b x by (intro exI [of _ "b - c"] exI [of _ m] exI [of _ u]) auto
    qed
  qed
  moreover have "coalesced k (\<lambda>m. {x. ?B x = Some (m, False)})"
    unfolding coalesced_def
  proof (intro allI impI notI)
    fix m x assume m: "m < k" and x: "x \<in> {x. ?B x = Some (m, False)}" and y: "buddy_of m x \<in> {x. ?B x = Some (m, False)}"
    have "2 ^ m dvd x" using part(5) x by blast
    from buddy_of_shift [OF c(1) m this] x y have "B (c + x) = Some (m, False)" "B (buddy_of m (c + x)) = Some (m, False)" by (auto split: if_splits)
    then show False using co m k(2) by (auto simp: coalesced_def)
  qed
  ultimately have "?B = [0 \<mapsto> (k, False)]" using part(2) by (intro all_free_single) blast+
  from fun_cong [OF this, of 0] have "B c = Some (k, False)" by simp
  with none show False by (auto split: if_splits)
qed

subsection \<open>Few blocks in use\<close>

text \<open>
  With fewer blocks in use than there are parts of size \<open>2 ^ k\<close>, and none of them larger than such a part, a part is left without
  a block in use.
\<close>

lemma unused_part:
  fixes U :: "(nat \<times> nat) set"
  assumes U: "finite U" "card U < 2 ^ (up - k)" and k: "k \<le> up"
    and u: "\<And>b m. (b, m) \<in> U \<Longrightarrow> m \<le> k \<and> 2 ^ m dvd b"
  obtains c where "2 ^ k dvd c" "c + 2 ^ k \<le> 2 ^ up" "\<And>b m. (b, m) \<in> U \<Longrightarrow> b < c + 2 ^ k \<Longrightarrow> c < b + 2 ^ m \<Longrightarrow> False"
proof -
  let ?f = "\<lambda>(b, m). b div 2 ^ k"
  have "card (?f ` U) < 2 ^ (up - k)" using card_image_le [OF U(1), of ?f] U(2) by linarith
  then have "\<not> {..<2 ^ (up - k)} \<subseteq> ?f ` U" using card_mono [of "?f ` U" "{..<2 ^ (up - k)}"] U(1) by auto
  then obtain i where i: "i < 2 ^ (up - k)" "i \<notin> ?f ` U" by auto
  have "2 ^ up = 2 ^ (up - k) * (2::nat) ^ k" using k by (simp flip: power_add)
  moreover have "Suc i * 2 ^ k \<le> 2 ^ (up - k) * 2 ^ k" using i(1) by (intro mult_right_mono) auto
  ultimately have "i * 2 ^ k + 2 ^ k \<le> 2 ^ up" by simp
  moreover have "False" if "(b, m) \<in> U" "b < i * 2 ^ k + 2 ^ k" "i * 2 ^ k < b + 2 ^ m" for b m
  proof -
    have d: "2 ^ m dvd b" "(2::nat) ^ m dvd 2 ^ k" using u [OF that(1)] by (auto intro: le_imp_power_dvd)
    then have "2 ^ m dvd i * 2 ^ k" by simp
    then have "i * 2 ^ k \<le> b" using dvd_less_add_le [OF d(1), of "i * 2 ^ k"] that(3) by (cases "i * 2 ^ k \<le> b") auto
    then have "b div 2 ^ k = i" using that(2) by (intro div_nat_eqI) (simp_all add: mult.commute)
    with i(2) that(1) show False by force
  qed
  ultimately show thesis by (intro that [of "i * 2 ^ k"]) simp_all
qed

lemma few_used_free:
  assumes inv: "buddy_inv ma" and k: "ma_lower ma \<le> k" "k \<le> ma_upper ma"
    and U: "card (used_blocks ma) < 2 ^ (ma_upper ma - k)" and small: "\<And>b m. (b, m) \<in> used_blocks ma \<Longrightarrow> m \<le> k"
  shows "\<exists>b m. k \<le> m \<and> block_table ma b = Some (m, False)"
proof -
  from inv obtain F where F: "rep ma (block_table ma) F {}" "coalesced (ma_upper ma) (\<lambda>m. set (F m))" by (rule buddy_invE)
  note R = repD [OF F(1)]
  have co: "coalesced (ma_upper ma) (\<lambda>m. {b. block_table ma b = Some (m, False)})" using F(2) R(5) by (simp only: Diff_empty)
  have "used_blocks ma \<subseteq> {..<2 ^ ma_upper ma} \<times> {..ma_upper ma}"
    using tiles_area [OF R(2)] tiles_lt [OF R(2)] by (auto simp: used_blocks_iff in_area_def)
  then have fin: "finite (used_blocks ma)" by (rule finite_subset) simp
  have al: "m \<le> k \<and> 2 ^ m dvd b" if "(b, m) \<in> used_blocks ma" for b m
    using small [OF that] tiles_area [OF R(2)] that by (auto simp: used_blocks_iff in_area_def)
  obtain c where c: "2 ^ k dvd c" "c + 2 ^ k \<le> 2 ^ ma_upper ma"
    "\<And>b m. (b, m) \<in> used_blocks ma \<Longrightarrow> b < c + 2 ^ k \<Longrightarrow> c < b + 2 ^ m \<Longrightarrow> False"
    by (rule unused_part [OF fin U k(2) al]) (assumption | rule that)+
  show ?thesis by (rule free_chunk [OF R(2) co k c(1,2)]) (use c(3) in \<open>auto simp: used_blocks_iff\<close>)
qed

lemma room_alloc:
  assumes inv: "buddy_inv ma" and k: "ma_lower ma \<le> k" "k \<le> ma_upper ma" and n: "unat nbytes < 2 ^ k"
    and few: "card (used_blocks ma) < 2 ^ (ma_upper ma - k)" and small: "\<And>b m. (b, m) \<in> used_blocks ma \<Longrightarrow> m \<le> k"
  shows "\<exists>b m ma'. buddy_alloc userland ma nbytes = Some (of_nat b + ma_mem ma, ma') \<and> buddy_inv ma' \<and> m \<le> k \<and>
    unat nbytes < 2 ^ m \<and> used_blocks ma' = insert (b, m) (used_blocks ma) \<and> (\<forall>j. (b, j) \<notin> used_blocks ma) \<and> same_area ma ma'"
proof -
  from inv obtain F where "rep ma (block_table ma) F {}" by (rule buddy_invE)
  from repD(1) [OF this] have up: "ma_upper ma \<le> 31" by (simp add: geom_def)
  have "(2::nat) ^ k \<le> 2 ^ 31" using k(2) up by (intro power_increasing) simp_all
  then have "unat nbytes < 2 ^ 31" using n by (rule order.strict_trans2 [rotated])
  then obtain m where m: "mforsize ma nbytes = Some m" "unat nbytes < 2 ^ m" "m = ma_lower ma \<or> 2 ^ (m - 1) \<le> unat nbytes"
    by (rule mforsize_spec)
  have mk: "m \<le> k"
  proof (cases "m = ma_lower ma")
    case False
    then have "2 ^ (m - 1) < (2::nat) ^ k" using m(3) n by linarith
    then show ?thesis by simp
  qed (use k(1) in simp)
  have "\<exists>j b. m \<le> j \<and> block_table ma b = Some (j, False)" using few_used_free [OF inv k few small] mk by (meson order.trans)
  from buddy_alloc_inv [OF inv m(1), of userland, unfolded if_P [OF this]] mk m(2) show ?thesis by blast
qed

text \<open>
  C3: how far fragmentation can go. As long as fewer blocks are in use than there are parts of \<open>2 ^ k\<close> bytes in the area, none of
  them larger than such a part, a request of less than \<open>2 ^ k\<close> bytes is served, whatever the history of the area: what is handed out is
  a new block, and nothing else becomes used.
\<close>

theorem buddy_alloc_room:
  assumes inv: "buddy_inv ma" and k: "ma_lower ma \<le> k" "k \<le> ma_upper ma" and n: "unat nbytes < 2 ^ k"
    and few: "card (used_blocks ma) < 2 ^ (ma_upper ma - k)" and small: "\<forall>(b, m)\<in>used_blocks ma. m \<le> k"
  shows "\<exists>b m ma'. buddy_alloc userland ma nbytes = Some (of_nat b + ma_mem ma, ma') \<and> buddy_inv ma' \<and> m \<le> k \<and>
    unat nbytes < 2 ^ m \<and> used_blocks ma' = insert (b, m) (used_blocks ma) \<and> (\<forall>j. (b, j) \<notin> used_blocks ma) \<and> same_area ma ma'"
  by (rule room_alloc [OF inv k n few]) (use small in auto)

theorem buddy_alloc_room_witness:
  "\<exists>ma b m c ma'. used_blocks ma = {(b, m)} \<and> buddy_alloc False ma 300 = Some (c, ma') \<and> buddy_inv ma'"
proof -
  have s: "ma_lower small_area = 8" "ma_upper small_area = 10" by (simp_all add: small_area_lower) (simp add: small_area_def buddy_init_def Let_def)
  have "\<exists>b m ma. buddy_alloc False small_area 100 = Some (of_nat b + ma_mem small_area, ma) \<and> buddy_inv ma \<and> m \<le> 9 \<and>
    unat (100::u32) < 2 ^ m \<and> used_blocks ma = insert (b, m) (used_blocks small_area) \<and> (\<forall>j. (b, j) \<notin> used_blocks small_area) \<and> same_area small_area ma"
    by (rule room_alloc) (simp_all add: s small_area_inv)
  then obtain b m ma where m: "buddy_inv ma" "m \<le> 9" "used_blocks ma = {(b, m)}" "same_area small_area ma" by (auto simp: small_area_inv)
  have "ma_lower ma = 8" "ma_upper ma = 10" using m(4) s by (simp_all add: same_area_def)
  then have "ma_lower ma \<le> 9" "9 \<le> ma_upper ma" "unat (300::u32) < 2 ^ 9" "card (used_blocks ma) < 2 ^ (ma_upper ma - 9)" "\<forall>(b, m)\<in>used_blocks ma. m \<le> 9"
    using m(2,3) by simp_all
  from buddy_alloc_room [OF m(1) this, of False] m(3) show ?thesis by blast
qed

end
