(* ===== verification/Boot_Props.thy ===== *)
theory Boot_Props
  imports Keyboard_Props Brk_Props Buddy_Room Exit_Props Interrupt_Props
begin

text \<open>
  The start of the kernel: \<open>kernel_main\<close> of \<^verbatim>\<open>source/main.c\<close> and \<open>start_process\<close> of \<^verbatim>\<open>source/process.c\<close> lead to a
  state in which the invariants of the other theories hold.
\<close>

subsection \<open>The screen\<close>

lemma screen_inv_ports [simp]: "screen_inv (outb p v s) = screen_inv s" "screen_inv (outbs cs s) = screen_inv s" "screen_inv (move_cursor x y s) = screen_inv s"
proof -
  show o: "screen_inv (outb p v s) = screen_inv s" for p v s by (simp add: outb_def screen_inv_def)
  show "screen_inv (move_cursor x y s) = screen_inv s" by (simp add: move_cursor_def o Let_def)
  show "screen_inv (outbs cs s) = screen_inv s" by (induction cs s rule: outbs.induct) (simp_all add: o)
qed

lemma setup_interrupts_screen: "screen_inv (snd (setup_interrupts hs s)) = screen_inv s"
  by (simp add: setup_interrupts_def Let_def)

lemma clear_screen_returns:
  assumes "screen_inv s"
  obtains s' where "clear_screen s = Some s'" "screen_inv s'"
proof -
  have "length (scr_cells s) = 2000" using assms by (simp add: screen_inv_def)
  with blank_cells_spec [of 0 2000 "scr_cells s"] obtain cs where
    cs: "blank_cells 0 2000 (scr_cells s) = Some cs" "length cs = 2000" by auto
  then have "clear_screen s = Some (move_cursor (scr_xpos s) (scr_ypos s) (s\<lparr>scr_cells := cs\<rparr>))"
    by (simp add: clear_screen_def)
  moreover have "screen_inv (s\<lparr>scr_cells := cs\<rparr>)" using assms cs(2) by (simp add: screen_inv_def)
  ultimately show thesis by (intro that [of "move_cursor (scr_xpos s) (scr_ypos s) (s\<lparr>scr_cells := cs\<rparr>)"]) simp_all
qed

text \<open>A message of the kernel that fits into the buffer of \<open>kprintf\<close>.\<close>

lemma k_printf_returns:
  assumes s: "screen_inv (k_screen k)" "4096 \<le> length (k_stack k)" and f: "format_text (chars fmt @ [0]) args = Some t" "length t < 4096"
  obtains s' where "k_printf fmt args k = Some (k\<lparr>k_screen := s'\<rparr>)" "screen_inv s'"
proof -
  let ?b = "take 4095 t @ [0] @ drop (min (length t) 4095 + 1) (k_stack k)"
  have v: "vsnprintf (k_stack k) 4096 (chars fmt @ [0]) args = Some (?b, length t)"
    using vsnprintf_text [OF s(2) f(1)] f(2) by simp
  have "length t \<le> length ?b" using f(2) s(2) by simp
  from write_chars_spec [OF s(1) this] obtain s1 where
    "write_chars ?b (length t) (k_screen k) = Some s1" "screen_inv s1" by blast
  then show thesis
    using v by (intro that [of "move_cursor (scr_xpos s1) (scr_ypos s1) s1"])
      (simp_all add: k_printf_def on_screen_def kprintf_def write_to_screen_def)
qed

lemma welcome_text: "format_text (chars (''Welcome to AdelaideOS'' @ [CHR 0x0A]) @ [0]) [] = Some (chars (''Welcome to AdelaideOS'' @ [CHR 0x0A]))"
  by (simp add: chars_def)

subsection \<open>The heap\<close>

text \<open>The heap of the kernel with room for a few more blocks of less than half a megabyte.\<close>

definition roomy :: "nat \<Rightarrow> memarea \<Rightarrow> bool" where
  "roomy n h \<longleftrightarrow>
     buddy_inv h \<and> ma_lower h = 8 \<and> ma_upper h = 22 \<and> finite (used_blocks h) \<and> card (used_blocks h) + n \<le> 8 \<and>
     (\<forall>(b, m)\<in>used_blocks h. m \<le> 19)"

lemma roomy_init:
  assumes "length bs = buddy_nblocks KERNEL_MEM_SIZEPOW2"
  shows "roomy 8 (kmalloc_init lk bs)"
proof -
  have "used_blocks (kmalloc_init lk bs) = {}"
    unfolding used_blocks_def kmalloc_init_inv(3) [OF assms] by (auto simp: used_of_def)
  moreover have "ma_lower (kmalloc_init lk bs) = 8" "ma_upper (kmalloc_init lk bs) = 22"
    by (simp_all add: kmalloc_init_def buddy_init_def Let_def)
  ultimately show ?thesis using kmalloc_init_inv(1) [OF assms] by (simp add: roomy_def)
qed

lemma roomy_kmalloc:
  assumes "roomy (Suc n) h" "unat sz < 2 ^ 19"
  obtains p h' where "kmalloc sz h = Some (p, h')" "roomy n h'"
proof -
  have h: "buddy_inv h" "ma_lower h \<le> 19" "19 \<le> ma_upper h" "card (used_blocks h) < 2 ^ (ma_upper h - 19)" "ma_lower h = 8" "ma_upper h = 22"
    "finite (used_blocks h)" "card (used_blocks h) + Suc n \<le> 8" and u: "\<And>b m. (b, m) \<in> used_blocks h \<Longrightarrow> m \<le> 19"
    using assms(1) by (auto simp: roomy_def)
  have "\<exists>b m h'. buddy_alloc False h sz = Some (of_nat b + ma_mem h, h') \<and> buddy_inv h' \<and> m \<le> 19 \<and> unat sz < 2 ^ m \<and>
    used_blocks h' = insert (b, m) (used_blocks h) \<and> (\<forall>j. (b, j) \<notin> used_blocks h) \<and> same_area h h'"
    by (rule room_alloc [OF h(1-3) assms(2) h(4)]) (rule u)
  then obtain b m h' where
    a: "buddy_alloc False h sz = Some (of_nat b + ma_mem h, h')" "buddy_inv h'" "m \<le> 19"
      "used_blocks h' = insert (b, m) (used_blocks h)" "\<forall>j. (b, j) \<notin> used_blocks h" "same_area h h'" by blast
  have "of_nat b + ma_mem h \<noteq> 0" using used_block_pointer(2) [OF a(2), of b m] a(4,6) by (simp add: same_area_def)
  then have "kmalloc sz h = Some (of_nat b + ma_mem h, h')" using a(1) by (simp add: kmalloc_def)
  moreover have "roomy n h'" using a h(5-8) u by (auto simp: roomy_def same_area_def)
  ultimately show thesis by (rule that)
qed

subsection \<open>The standard handles\<close>

definition screen_handle :: filehandle where
  "screen_handle =
     \<lparr>fh_kind = FH_SCREEN, fh_refcount = 1, fh_write = Screen_write, fh_read = Screen_read,
       fh_destroy = Screen_destroy, fh_p = 0, fh_entry = 0, fh_pos = 0, fh_entryno = 0\<rparr>"

lemma new_pipe_returns:
  assumes ok: "pipes_ok k" and r: "roomy (Suc (Suc n)) (k_heap k)"
  obtains b d h as where "new_pipe k = Some (b, k\<lparr>k_heap := h, k_pipes := (k_pipes k)(b \<mapsto> fresh_pipe d), k_arrays := as\<rparr>)" "roomy n h"
    "pipes_ok (k\<lparr>k_heap := h, k_pipes := (k_pipes k)(b \<mapsto> fresh_pipe d), k_arrays := as\<rparr>)"
proof -
  obtain b h1 where 1: "kmalloc 24 (k_heap k) = Some (b, h1)" "roomy (Suc n) h1" by (rule roomy_kmalloc [OF r, of 24]) auto
  obtain d h2 where 2: "kmalloc 1024 h1 = Some (d, h2)" "roomy n h2" by (rule roomy_kmalloc [OF 1(2), of 1024]) auto
  let ?k = "k\<lparr>k_heap := h2, k_pipes := (k_pipes k)(b \<mapsto> fresh_pipe d), k_arrays := (k_arrays k)(d \<mapsto> replicate 1024 0)\<rparr>"
  have n: "new_pipe k = Some (b, ?k)" using 1(1) 2(1) by (simp add: new_pipe_def new_array_def k_malloc_def fresh_pipe_def)
  from new_pipe_ok [OF ok n] have "pipes_ok ?k" by metis
  with n 2(2) show thesis by (rule that)
qed

lemma new_handle_returns:
  assumes ok: "pipes_ok k" and r: "roomy (Suc n) (k_heap k)"
  obtains a h where "new_handle x k = Some (a, k\<lparr>k_heap := h, k_handles := (k_handles k)(a \<mapsto> x)\<rparr>)" "roomy n h" "k_handles k a = None"
    "pipes_ok (k\<lparr>k_heap := h, k_handles := (k_handles k)(a \<mapsto> x)\<rparr>)"
proof -
  obtain a h where 1: "kmalloc 36 (k_heap k) = Some (a, h)" "roomy n h" by (rule roomy_kmalloc [OF r, of 36]) auto
  let ?k = "k\<lparr>k_heap := h, k_handles := (k_handles k)(a \<mapsto> x)\<rparr>"
  have n: "new_handle x k = Some (a, ?k)" using 1(1) by (simp add: new_handle_def k_malloc_def)
  from new_handle_ok [OF ok n] have "pipes_ok ?k" "a \<notin> heap_objs k" by metis+
  with n 1(2) show thesis by (intro that [of a h]) (auto simp: heap_objs_def)
qed

text \<open>Standard input is a pipe, standard output and error are the screen.\<close>

lemma start_handles_returns:
  assumes ok: "pipes_ok k" and r: "roomy 5 (k_heap k)" and i: "i < length (k_procs k)" "pr_filedesc (k_procs k ! i) = replicate 16 None"
    and e: "k_handles k = Map.empty" "k_pipes k = Map.empty"
  obtains b d rd o1 o2 h as where "distinct [rd, o1, o2]"
    "start_handles i k = Some (k\<lparr>k_heap := h, k_handles := [rd \<mapsto> reader_handle b, o1 \<mapsto> screen_handle, o2 \<mapsto> screen_handle],
       k_pipes := [b \<mapsto> fresh_pipe d], k_arrays := as,
       k_procs := (k_procs k)[i := (k_procs k ! i)\<lparr>pr_filedesc := [Some rd, Some o1, Some o2] @ replicate 13 None\<rparr>]\<rparr>)"
    "pipes_ok (k\<lparr>k_heap := h, k_handles := [rd \<mapsto> reader_handle b, o1 \<mapsto> screen_handle, o2 \<mapsto> screen_handle],
       k_pipes := [b \<mapsto> fresh_pipe d], k_arrays := as\<rparr>)"
proof -
  have fd: "pipes_ok (set_fd i n v k) = pipes_ok k" "k_heap (set_fd i n v k) = k_heap k" "k_handles (set_fd i n v k) = k_handles k" for n v k
    using pipes_frame(1) [of "set_fd i n v k" k] by (simp_all add: set_fd_def)
  have r5: "roomy (Suc (Suc 3)) (k_heap k)" using r by (simp add: eval_nat_numeral)
  obtain b d h1 as where 1: "new_pipe k = Some (b, k\<lparr>k_heap := h1, k_pipes := (k_pipes k)(b \<mapsto> fresh_pipe d), k_arrays := as\<rparr>)"
    "roomy 3 h1" "pipes_ok (k\<lparr>k_heap := h1, k_pipes := (k_pipes k)(b \<mapsto> fresh_pipe d), k_arrays := as\<rparr>)" by (rule new_pipe_returns [OF ok r5]) (rule that)
  let ?k1 = "k\<lparr>k_heap := h1, k_pipes := (k_pipes k)(b \<mapsto> fresh_pipe d), k_arrays := as\<rparr>"
  have r1: "roomy (Suc 2) (k_heap ?k1)" using 1(2) by (simp add: eval_nat_numeral)
  obtain rd h2 where 2: "new_handle (reader_handle b) ?k1 = Some (rd, ?k1\<lparr>k_heap := h2, k_handles := (k_handles ?k1)(rd \<mapsto> reader_handle b)\<rparr>)"
    "roomy 2 h2" "pipes_ok (?k1\<lparr>k_heap := h2, k_handles := (k_handles ?k1)(rd \<mapsto> reader_handle b)\<rparr>)" by (rule new_handle_returns [OF 1(3) r1]) (rule that)
  let ?k2 = "set_fd i 0 (Some rd) (?k1\<lparr>k_heap := h2, k_handles := (k_handles ?k1)(rd \<mapsto> reader_handle b)\<rparr>)"
  have p2: "pipes_ok ?k2" "roomy (Suc 1) (k_heap ?k2)" using 2(2,3) by (simp_all add: fd eval_nat_numeral)
  obtain o1 h3 where 3: "new_handle screen_handle ?k2 = Some (o1, ?k2\<lparr>k_heap := h3, k_handles := (k_handles ?k2)(o1 \<mapsto> screen_handle)\<rparr>)"
    "roomy 1 h3" "k_handles ?k2 o1 = None" "pipes_ok (?k2\<lparr>k_heap := h3, k_handles := (k_handles ?k2)(o1 \<mapsto> screen_handle)\<rparr>)"
    by (rule new_handle_returns [OF p2]) (rule that)
  let ?k3 = "set_fd i 1 (Some o1) (?k2\<lparr>k_heap := h3, k_handles := (k_handles ?k2)(o1 \<mapsto> screen_handle)\<rparr>)"
  have p3: "pipes_ok ?k3" "roomy (Suc 0) (k_heap ?k3)" using 3(2,4) by (simp_all add: fd)
  obtain o2 h4 where 4: "new_handle screen_handle ?k3 = Some (o2, ?k3\<lparr>k_heap := h4, k_handles := (k_handles ?k3)(o2 \<mapsto> screen_handle)\<rparr>)"
    "k_handles ?k3 o2 = None" "pipes_ok (?k3\<lparr>k_heap := h4, k_handles := (k_handles ?k3)(o2 \<mapsto> screen_handle)\<rparr>)"
    by (rule new_handle_returns [OF p3]) (rule that)
  let ?k4 = "?k3\<lparr>k_heap := h4, k_handles := (k_handles ?k3)(o2 \<mapsto> screen_handle)\<rparr>"
  have d: "distinct [rd, o1, o2]" using 3(3) 4(2) by (auto simp: fd split: if_splits)
  let ?K = "k\<lparr>k_heap := h4, k_handles := [rd \<mapsto> reader_handle b, o1 \<mapsto> screen_handle, o2 \<mapsto> screen_handle], k_pipes := [b \<mapsto> fresh_pipe d], k_arrays := as\<rparr>"
  have fds: "(replicate 16 None)[0 := Some rd, 1 := Some o1, 2 := Some o2] = [Some rd, Some o1, Some o2] @ replicate 13 None" by (simp add: eval_nat_numeral)
  have K: "set_fd i 2 (Some o2) ?k4 = ?K\<lparr>k_procs := (k_procs k)[i := (k_procs k ! i)\<lparr>pr_filedesc := [Some rd, Some o1, Some o2] @ replicate 13 None\<rparr>]\<rparr>"
    using i e fds by (simp add: set_fd_def upd_proc_def fun_upd_twist)
  have "start_handles i k = Some (set_fd i 2 (Some o2) ?k4)"
    using 1(1) 2(1) 3(1) 4(1) by (simp add: start_handles_def new_pipe_reader_def new_screen_handle_def flip: reader_handle_def screen_handle_def)
  note S = this [unfolded K]
  have "pipes_ok ?K" using 4(3) pipes_frame(1) [of ?K ?k4] e by (simp add: set_fd_def upd_proc_def)
  from that [OF d S this] show thesis .
qed

subsection \<open>The memory of the first process\<close>

text \<open>The code of the kernel starts on a page and lies below the memory that is handed out in pages.\<close>

definition layout_ok :: "layout \<Rightarrow> bool" where
  "layout_ok l \<longleftrightarrow> page_aligned (ly_code l) \<and> ly_data l \<le> 6 * MB"

lemma start_mappings_returns:
  assumes s: "pages_inv (k_mm k)" "dir_ok (k_mm k) pdir" and l: "layout_ok (k_layout k)"
    and r: "card (live_pages (k_mm k)) + 3104 \<le> ram_pages (k_mm k)"
    and p: "pr_pdir p = pdir" "space_ok p" "space_pages p = pages_in (pr_stack_start p) (pr_stack_end p)" "unat (pr_stack_end p) - unat (pr_stack_start p) = 65536"
    and q: "pr_stack_start q = pr_stack_start p" "pr_stack_end q = pr_stack_end p"
  obtains s' where "start_mappings pdir q k = Some (k\<lparr>k_mm := s'\<rparr>)" "private_memory s' p"
proof -
  have al: "page_aligned (0 * MB)" by (simp add: page_aligned_mod)
  have "\<exists>s1. identity_map pdir (0 * MB) (6 * MB) PAGE_SUPERVISOR PAGE_READ_ONLY (k_mm k) = Some s1 \<and> dir_ext (k_mm k) pdir s1 \<and>
    card (live_pages s1) \<le> card (live_pages (k_mm k)) + 1536 \<and>
    (\<forall>a. page_aligned a \<longrightarrow> pte s1 pdir a = (if 0 * MB \<le> a \<and> a < 6 * MB then Some (a OR PAGE_PRESENT OR PAGE_SUPERVISOR OR PAGE_READ_ONLY) else pte (k_mm k) pdir a))"
    by (rule identity_map_spec [OF s al]) (use r in simp_all)
  then obtain s1 where 1: "identity_map pdir (0 * MB) (6 * MB) PAGE_SUPERVISOR PAGE_READ_ONLY (k_mm k) = Some s1" "dir_ext (k_mm k) pdir s1"
    "card (live_pages s1) \<le> card (live_pages (k_mm k)) + 1536" by blast
  have ram1: "ram_pages s1 = ram_pages (k_mm k)" using 1(2) by (simp add: dir_ext_def ram_pages_def)
  let ?c = "ly_code (k_layout k)" and ?d = "ly_data (k_layout k)"
  have "unat ?d \<le> 6291456" using l by (simp add: layout_ok_def word_le_nat_alt)
  then have d: "?d \<le> 0xFFFFF000" "unat ?d \<le> unat ?c + 4096 * 1536" by (simp_all add: word_le_nat_alt)
  have i1: "pages_inv s1" "dir_ok s1 pdir" "page_aligned ?c" using 1(2) l by (auto simp: dir_ext_def layout_ok_def)
  from identity_map_spec [OF i1 d, of PAGE_USER PAGE_READ_ONLY] r 1(3) ram1 obtain s2 where
    2: "identity_map pdir ?c ?d PAGE_USER PAGE_READ_ONLY s1 = Some s2" "dir_ext s1 pdir s2" "card (live_pages s2) \<le> card (live_pages s1) + 1536" by auto
  have i2: "pages_inv s2" "dir_ok s2 pdir" "ram_pages s2 = ram_pages (k_mm k)" using 2(2) ram1 by (auto simp: dir_ext_def ram_pages_def)
  have st: "page_aligned (pr_stack_start p)" "page_aligned (pr_stack_end p)" "pr_stack_start p \<le> pr_stack_end p" using p(2) by (auto simp: space_ok_def)
  have r2: "card (live_pages s2) + 2 * 16 \<le> ram_pages s2" using r 1(3) 2(3) i2(3) by simp
  have n: "16 = (unat (pr_stack_end p) - unat (pr_stack_start p)) div 4096" using p(4) by simp
  let ?N = "pages_in (pr_stack_start p) (pr_stack_end p)"
  obtain s' where s': "map_new_pages pdir (pr_stack_start p) ((pr_stack_end p - pr_stack_start p) div PAGE_SIZE) s2 = Some s'" "dir_ext s2 pdir s'"
    "inj_on (page_of s' pdir) ?N" "\<And>a. a \<in> ?N \<Longrightarrow> pte s' pdir a \<noteq> None" "\<And>a. a \<in> ?N \<Longrightarrow> page_of s' pdir a \<in> live_pages s' - live_pages s2 - frames s' pdir"
    by (rule map_new_pages_fresh [OF i2(1,2) st n r2]) (rule that)
  have "private_memory s' p" using s'(2-5) p by (auto simp: private_memory_def owns_memory_def dir_ext_def)
  moreover have "start_mappings pdir q k = Some (k\<lparr>k_mm := s'\<rparr>)"
    using 1(1) 2(1) s'(1) q by (simp add: start_mappings_def on_mm_def)
  ultimately show thesis by (intro that)
qed

text \<open>The process that \<open>start_process\<close> makes.\<close>

definition first_proc :: "u32 \<Rightarrow> u32 option list \<Rightarrow> u32 \<Rightarrow> process" where
  "first_proc pdir fds start =
     zero_process\<lparr>pr_pid := 1, pr_exists := True, pr_stack_start := 0x3FFF0000, pr_stack_end := 0x40000000, pr_pdir := pdir,
       pr_data_start := 0x20000000, pr_data_end := 0x20000000, pr_text_start := 0x10000000, pr_text_end := 0x10000000,
       pr_parent_pid := - 1, pr_waiting_on := - 1, pr_exit_status := 255, pr_filedesc := fds, pr_cwd := [47, 0] @ replicate 1022 0,
       pr_saved_regs := init_regs 0x40000000 start, pr_ready := True\<rparr>"

lemma first_cwd: "snprintf (replicate 1024 0) 1024 (chars ''/'' @ [0]) [] = Some ([47, 0] @ replicate 1022 0, 1)"
proof -
  have "format_text (chars ''/'' @ [0]) [] = Some [47]" by (simp add: chars_def)
  moreover have "drop 2 (replicate 1024 (0::u8)) = replicate 1022 0" by simp
  ultimately show ?thesis using vsnprintf_text [of 1024 "replicate 1024 0" "chars ''/'' @ [0]" "[]" "[47]"] by (simp add: snprintf_def)
qed

lemma first_space: "space_ok (first_proc pdir fds start)" "space_pages (first_proc pdir fds start) = pages_in 0x3FFF0000 0x40000000"
  by (simp_all add: space_ok_def space_pages_def first_proc_def page_aligned_mod)

subsection \<open>The first process\<close>

text \<open>The state in which \<open>kernel_main\<close> calls \<open>start_process\<close>: no processes and no objects on the heap.\<close>

definition booting :: "kernel \<Rightarrow> bool" where
  "booting k \<longleftrightarrow>
     k_procs k = replicate 32 zero_process \<and> k_current k = None \<and> k_ready k = \<lparr>pl_first = None, pl_last = None\<rparr> \<and>
     k_suspended k = \<lparr>pl_first = None, pl_last = None\<rparr> \<and> k_handles k = Map.empty \<and> k_pipes k = Map.empty \<and>
     k_arrays k = Map.empty \<and> k_mailboxes k = Map.empty \<and> roomy 8 (k_heap k) \<and> pages_inv (k_mm k) \<and>
     live_pages (k_mm k) = {} \<and> 3105 \<le> ram_pages (k_mm k) \<and> layout_ok (k_layout k)"

lemma booting_invs:
  assumes "booting k"
  shows "sched k [] []" "pipes_ok k" "get_free_pid k = 1"
proof -
  have z: "k_procs k ! i = zero_process" if "i < 32" for i using assms that by (simp add: booting_def)
  show "sched k [] []"
    using assms z by (auto simp: booting_def sched_def dlist_def live_proc_def unlinked_def zero_process_def)
  show "pipes_ok k" using assms by (simp add: booting_def pipes_ok_def heap_ok_def heap_objs_def roomy_def)
  have "free_pid_loop k 1 = 1" by (subst free_pid_loop.simps) (simp add: z zero_process_def)
  then show "get_free_pid k = 1" by (simp add: get_free_pid_def)
qed

text \<open>What is there when the process has been started: its descriptors, and the pipe it reads from.\<close>

definition started :: "kernel \<Rightarrow> u32 \<Rightarrow> u32 \<Rightarrow> u32 \<Rightarrow> bool" where
  "started k b rd start \<longleftrightarrow>
     (\<exists>pdir o1 o2 d. distinct [rd, o1, o2] \<and>
        k_procs k = (replicate 32 zero_process)[1 := first_proc pdir ([Some rd, Some o1, Some o2] @ replicate 13 None) start] \<and>
        k_handles k = [rd \<mapsto> reader_handle b, o1 \<mapsto> screen_handle, o2 \<mapsto> screen_handle] \<and> k_pipes k = [b \<mapsto> fresh_pipe d] \<and>
        k_mailboxes k = Map.empty)"

lemma start_process_boots:
  assumes bt: "booting k"
  obtains k' b rd where "start_process start k = Some (1, k')" "started k' b rd start" "sched k' [1] []" "pipes_ok k'" "private_memory (k_mm k') (k_procs k' ! 1)"
    "k_screen k' = k_screen k" "k_filesystem k' = k_filesystem k" "k_current k' = None" "k_shift_pressed k' = k_shift_pressed k" "k_stack k' = k_stack k"
proof -
  have K: "k_procs k = replicate 32 zero_process" "k_handles k = Map.empty" "k_pipes k = Map.empty" "pages_inv (k_mm k)" "live_pages (k_mm k) = {}"
    "3105 \<le> ram_pages (k_mm k)" "layout_ok (k_layout k)" "roomy 5 (k_heap k)" "k_current k = None" "k_mailboxes k = Map.empty"
    using bt by (auto simp: booting_def roomy_def)
  note B = booting_invs [OF bt]
  obtain pdir s1 where a: "alloc_page (k_mm k) = Some (pdir, s1)" using alloc_page_room [OF K(4)] room_if [OF K(4)] K(5,6) by auto
  note g = alloc_page_granted [OF K(4) a]
  have s1: "pages_inv s1" "dir_ok s1 pdir" "card (live_pages s1) + 3104 \<le> ram_pages s1"
    using g new_dir(1) [OF g] K(5,6) by (auto simp: granted_def ram_pages_def)
  define p0 where "p0 = zero_process\<lparr>pr_pid := 1, pr_exists := True, pr_stack_start := 0x3FFF0000, pr_stack_end := 0x40000000, pr_pdir := pdir\<rparr>"
  define p1 where "p1 = p0\<lparr>pr_data_start := 0x20000000, pr_data_end := 0x20000000, pr_text_start := 0x10000000, pr_text_end := 0x10000000,
    pr_parent_pid := - 1, pr_waiting_on := - 1, pr_exit_status := 255\<rparr>"
  let ?ps = "replicate 32 zero_process"
  let ?k1 = "k\<lparr>k_procs := ?ps[1 := p0], k_mm := s1\<rparr>"
  obtain s' where m: "start_mappings pdir p0 ?k1 = Some (?k1\<lparr>k_mm := s'\<rparr>)" "\<And>fds. private_memory s' (first_proc pdir fds start)"
  proof -
    obtain s' where "start_mappings pdir p0 ?k1 = Some (?k1\<lparr>k_mm := s'\<rparr>)" "private_memory s' (first_proc pdir [] start)"
      by (rule start_mappings_returns [of ?k1 pdir "first_proc pdir [] start" p0]) (use s1 K(7) first_space in \<open>simp_all add: first_proc_def p0_def\<close>)
    moreover have "private_memory s' (first_proc pdir fds start) = private_memory s' (first_proc pdir [] start)" for fds
      by (simp add: private_memory_def owns_memory_def first_space) (simp add: first_proc_def)
    ultimately show thesis using that by blast
  qed
  let ?k2 = "k\<lparr>k_procs := ?ps[1 := p1], k_mm := s'\<rparr>"
  have p2: "pipes_ok ?k2" using B(2) pipes_frame(1) [of ?k2 k] by simp
  have k2: "roomy 5 (k_heap ?k2)" "1 < length (k_procs ?k2)" "pr_filedesc (k_procs ?k2 ! 1) = replicate 16 None" "k_handles ?k2 = Map.empty" "k_pipes ?k2 = Map.empty"
    using K by (simp_all add: p1_def p0_def zero_process_def)
  obtain b d rd o1 o2 h as where h: "distinct [rd, o1, o2]"
    "start_handles 1 ?k2 = Some (?k2\<lparr>k_heap := h, k_handles := [rd \<mapsto> reader_handle b, o1 \<mapsto> screen_handle, o2 \<mapsto> screen_handle],
       k_pipes := [b \<mapsto> fresh_pipe d], k_arrays := as,
       k_procs := (k_procs ?k2)[1 := (k_procs ?k2 ! 1)\<lparr>pr_filedesc := [Some rd, Some o1, Some o2] @ replicate 13 None\<rparr>]\<rparr>)"
    "pipes_ok (?k2\<lparr>k_heap := h, k_handles := [rd \<mapsto> reader_handle b, o1 \<mapsto> screen_handle, o2 \<mapsto> screen_handle],
       k_pipes := [b \<mapsto> fresh_pipe d], k_arrays := as\<rparr>)" by (rule start_handles_returns [OF p2 k2]) (rule that)
  let ?fds = "[Some rd, Some o1, Some o2] @ replicate 13 None"
  let ?P = "first_proc pdir ?fds start"
  let ?k3 = "k\<lparr>k_mm := s', k_heap := h, k_handles := [rd \<mapsto> reader_handle b, o1 \<mapsto> screen_handle, o2 \<mapsto> screen_handle],
       k_pipes := [b \<mapsto> fresh_pipe d], k_arrays := as, k_procs := ?ps[1 := ?P]\<rparr>"
  define kh where "kh = ?k2\<lparr>k_heap := h, k_handles := [rd \<mapsto> reader_handle b, o1 \<mapsto> screen_handle, o2 \<mapsto> screen_handle],
       k_pipes := [b \<mapsto> fresh_pipe d], k_arrays := as, k_procs := ?ps[1 := p1\<lparr>pr_filedesc := ?fds\<rparr>]\<rparr>"
  have S: "start_handles 1 ?k2 = Some kh" using h(2) by (simp add: kh_def)
  have e: "upd_proc 1 (\<lambda>p. p\<lparr>pr_pdir := pdir\<rparr>) ((upd_proc 1 (\<lambda>_. zero_process\<lparr>pr_pid := 1, pr_exists := True,
      pr_stack_start := PROCESS_STACK_BASE - PROCESS_STACK_SIZE, pr_stack_end := PROCESS_STACK_BASE\<rparr>) k)\<lparr>k_mm := s1\<rparr>) = ?k1"
    "upd_proc 1 (\<lambda>p. p\<lparr>pr_data_start := PROCESS_DATA_BASE, pr_data_end := PROCESS_DATA_BASE, pr_text_start := PROCESS_TEXT_BASE,
      pr_text_end := PROCESS_TEXT_BASE, pr_parent_pid := - 1, pr_waiting_on := - 1, pr_exit_status := 255\<rparr>) (?k1\<lparr>k_mm := s'\<rparr>) = ?k2"
    "upd_proc 1 (\<lambda>p. p\<lparr>pr_saved_regs := init_regs (pr_stack_end p) start, pr_ready := True\<rparr>)
      (upd_proc 1 (\<lambda>p. p\<lparr>pr_cwd := [47, 0] @ replicate 1022 0\<rparr>) kh) = ?k3" "pr_cwd (k_procs kh ! 1) = replicate 1024 0" "k_procs ?k1 ! 1 = p0"
    using K(1) by (simp_all add: upd_proc_def p0_def p1_def kh_def first_proc_def zero_process_def)
  have st: "start_process start k = Some (1, list_add Ready 1 ?k3)"
    unfolding start_process_def B(3) Let_def pid_index_def k_alloc_page_def
    by (simp only: upd_proc_fields a option.map prod.case bind.bind_lunit nat_1 One_nat_def [symmetric] e m(1) S PATH_MAX_def first_cwd) simp
  have "\<not> pr_exists (k_procs k ! 1)" "live_proc ?P" "pr_ready ?P" "pr_pid ?P = int 1" "pr_prev ?P = None" "pr_next ?P = None"
    using K(1) by (simp_all add: first_proc_def zero_process_def live_proc_def)
  then have sc: "sched (list_add Ready 1 ?k3) [1] []" by (intro sched_new(1) [OF B(1)]) (use K(1) in simp_all)
  have f: "list_add Ready 1 ?k3 = ?k3\<lparr>k_ready := \<lparr>pl_first = Some 1, pl_last = Some 1\<rparr>\<rparr>" using bt by (simp add: list_add_def get_list_def set_list_def booting_def)
  let ?k = "?k3\<lparr>k_ready := \<lparr>pl_first = Some 1, pl_last = Some 1\<rparr>\<rparr>"
  have "pipes_ok ?k" using h(3) pipes_frame(1) [of ?k "?k2\<lparr>k_heap := h, k_handles := [rd \<mapsto> reader_handle b, o1 \<mapsto> screen_handle, o2 \<mapsto> screen_handle],
       k_pipes := [b \<mapsto> fresh_pipe d], k_arrays := as\<rparr>"] by simp
  moreover have "started ?k b rd start" unfolding started_def using h(1) K(10) by (intro exI [of _ pdir] exI [of _ o1] exI [of _ o2] exI [of _ d]) simp
  ultimately show thesis using st [unfolded f] sc [unfolded f] m(2) K(9) by (intro that [of ?k b rd]) simp_all
qed

text \<open>The invariants of descriptors and of mail for the first process.\<close>

lemma started_ok:
  assumes st: "started k b rd start" and ok: "pipes_ok k"
  shows "fds_ok k []" "mail_ok k" "pipe_content b k = []"
proof -
  from st obtain pdir o1 o2 d where S: "distinct [rd, o1, o2]"
    "k_procs k = (replicate 32 zero_process)[1 := first_proc pdir ([Some rd, Some o1, Some o2] @ replicate 13 None) start]"
    "k_handles k = [rd \<mapsto> reader_handle b, o1 \<mapsto> screen_handle, o2 \<mapsto> screen_handle]" "k_pipes k = [b \<mapsto> fresh_pipe d]" "k_mailboxes k = Map.empty"
    by (auto simp: started_def)
  let ?P = "first_proc pdir ([Some rd, Some o1, Some o2] @ replicate 13 None) start"
  have p: "k_procs k ! i = (if i = 1 then ?P else zero_process)" if "i < 32" for i using that by (simp add: S(2) nth_list_update)
  have lp: "live_proc ?P" "\<not> live_proc zero_process" "pr_filedesc ?P = [Some rd, Some o1, Some o2] @ replicate 13 None" "pr_mailbox ?P = None" "pr_mailbox_size ?P = 0"
    by (simp_all add: live_proc_def first_proc_def zero_process_def)
  have refs: "refs fh k = count_list (pr_filedesc ?P) (Some fh)" for fh
  proof -
    have "refs fh k = (\<Sum>i<(32::nat). if i = 1 then count_list (pr_filedesc ?P) (Some fh) else 0)"
      unfolding refs_def MAX_PROCESSES_def using p lp(1,2) by (intro sum.cong) auto
    then show ?thesis by simp
  qed
  have c: "count_list (pr_filedesc ?P) (Some fh) = (if fh \<in> {rd, o1, o2} then 1 else 0)" for fh
    unfolding lp(3) using S(1) by (auto simp: count_list_0_iff)
  have h: "k_handles k fh \<noteq> None \<longleftrightarrow> fh \<in> {rd, o1, o2}" "\<And>h. k_handles k fh = Some h \<Longrightarrow> h = reader_handle b \<and> fh = rd \<or> h = screen_handle" for fh
    using S(1) by (auto simp: S(3) split: if_splits)
  have "fh_refcount x = 1" if "k_handles k fh = Some x" for fh x using h(2) [OF that] by (auto simp: reader_handle_def screen_handle_def)
  moreover have "ends_ok k"
    unfolding ends_ok_def S(4) by (auto dest!: h(2) simp: is_reader_def is_writer_def reader_handle_def screen_handle_def fresh_pipe_def)
  moreover have "readers_ok k []" unfolding readers_ok_def S(4) by (auto simp: fresh_pipe_def split: if_splits)
  moreover have "\<forall>i<MAX_PROCESSES. live_proc (k_procs k ! i) \<longrightarrow> length (pr_filedesc (k_procs k ! i)) = MAX_FDS"
    using lp by (auto simp: p)
  ultimately show "fds_ok k []" unfolding fds_ok_def refs c using ok h(1) by auto
  have l: "length (k_procs k) = 32" by (simp add: S(2))
  have "pr_mailbox (k_procs k ! i) = None" "pr_mailbox_size (k_procs k ! i) = 0" if "i < length (k_procs k)" for i
    unfolding p [OF that [unfolded l]] using lp(4,5) by (simp_all add: zero_process_def)
  then show "mail_ok k" using ok by (auto simp: mail_ok_def mail_wf_def lives_def pipes_ok_def)
  show "pipe_content b k = []" by (simp add: pipe_content_def S(4) fresh_pipe_def split: option.split)
qed

subsection \<open>Boot\<close>

lemma kernel_main_boots:
  assumes "screen_inv scr" and "length (ma_blocks heap) = buddy_nblocks KERNEL_MEM_SIZEPOW2" and "4096 \<le> length stack"
    and "19 * 1048576 \<le> ram" and "ram < 2 ^ 32" and "layout_ok ly" and "loaded < 2 * MB"
  shows "\<exists>gdt t idt k b rd. kernel_main tss_addr ih_stack handlers [(loaded, img)] (boot_state mem ram scr stack ly heap) = Some (User_loop gdt t idt k) \<and>
    (\<forall>n\<in>{1, 2, 3, 4}. segment_base (gdt ! n) = 0 \<and> segment_limit (gdt ! n) = 0xFFFFFFFF \<and> gdt_present (gdt ! n) = 1 \<and> dpl (gdt ! n) = (if n \<le> 2 then 0 else 3)) \<and>
    tss_esp0 t = ih_stack \<and> idt = fst (setup_interrupts handlers scr) \<and>
    started k b rd (ly_launch_shell ly) \<and> sched k [1] [] \<and> fds_ok k [] \<and> mail_ok k \<and> private_memory (k_mm k) (k_procs k ! 1) \<and>
    screen_inv (k_screen k) \<and> k_filesystem k = img \<and> k_current k = None \<and> takes_input b 1024 [1] [] k \<and> \<not> k_shift_pressed k"
proof -
  let ?boot = "boot_state mem ram scr stack ly heap"
  obtain gdt t where g: "setup_segmentation tss_addr ih_stack (replicate 6 zero_segment) = (gdt, t)" by fastforce
  obtain idt scr1 where i: "setup_interrupts handlers scr = (idt, scr1)" by fastforce
  have sc: "k_screen ?boot = scr" by (simp add: boot_state_def)
  define k1 where "k1 = ?boot\<lparr>k_screen := scr1, k_heap := kmalloc_init (ma_links (k_heap ?boot)) (ma_blocks (k_heap ?boot))\<rparr>"
  have s1: "screen_inv (k_screen k1)" using assms(1) setup_interrupts_screen [of handlers scr] i by (simp add: k1_def)
  obtain s2 where 2: "clear_screen (k_screen k1) = Some s2" "screen_inv s2" using s1 by (rule clear_screen_returns)
  define k2 where "k2 = k1\<lparr>k_screen := s2\<rparr>"
  have "screen_inv (k_screen k2)" "4096 \<le> length (k_stack k2)" "length (chars (''Welcome to AdelaideOS'' @ [CHR 0x0A])) < 4096"
    using 2(2) assms(3) by (simp_all add: boot_state_def chars_def k1_def k2_def)
  then obtain s3 where 3: "k_printf (''Welcome to AdelaideOS'' @ [CHR 0x0A]) [] k2 = Some (k2\<lparr>k_screen := s3\<rparr>)" "screen_inv s3"
    by (rule k_printf_returns [OF _ _ welcome_text]) (rule that)
  let ?k3 = "k2\<lparr>k_screen := s3, k_filesystem := img\<rparr>"
  have "pages_inv (mm_init mem ram)" "live_pages (mm_init mem ram) = {}" using mm_init_inv [of ram mem] assms(4,5) by simp_all
  moreover have "3105 \<le> ram_pages (mm_init mem ram)" using assms(4) by (simp add: ram_pages_def mm_init_def less_eq_div_iff_mult_less_eq)
  ultimately have "booting ?k3" using roomy_init [OF assms(2)] assms(6) by (simp add: booting_def boot_state_def k1_def k2_def)
  then obtain k b rd where k: "start_process (ly_launch_shell ly) ?k3 = Some (1, k)" "started k b rd (ly_launch_shell ly)" "sched k [1] []" "pipes_ok k"
    "private_memory (k_mm k) (k_procs k ! 1)" "k_screen k = s3" "k_filesystem k = img" "k_current k = None" "k_shift_pressed k = False"
    by (rule start_process_boots [where start = "ly_launch_shell ly"]) (rule that, simp_all add: boot_state_def k1_def k2_def)
  let ?k = "k\<lparr>k_input_pipe := Some b\<rparr>"
  have ly: "k_layout k2 = ly" by (simp add: boot_state_def k1_def k2_def)
  from k(2) have rd: "pr_filedesc (k_procs k ! 1) ! 0 = Some rd" "k_handles k rd = Some (reader_handle b)" by (auto simp: started_def first_proc_def)
  have main: "kernel_main tss_addr ih_stack handlers [(loaded, img)] ?boot = Some (User_loop gdt t idt ?k)"
    unfolding kernel_main_def Let_def on_screen_def NUM_SEGMENTS_def g sc i prod.case k1_def [symmetric]
    using 2(1) 3(1) k(1) rd assms(7) ly by (simp add: pid_index_def reader_handle_def flip: k2_def)
  have st: "started ?k b rd (ly_launch_shell ly)" using k(2) by (simp add: started_def)
  have ok: "pipes_ok ?k" using k(4) pipes_frame(1) [of ?k k] by simp
  note S = started_ok [OF st ok]
  have sk: "sched ?k [1] []" by (rule sched_frame [OF k(3)]) (use k(8) in simp_all)
  moreover have "takes_input b 1024 [1] [] ?k"
    using ok sk S(3) st by (auto simp: takes_input_def started_def fresh_pipe_def reader_ok_def)
  moreover have "\<forall>n\<in>{1, 2, 3, 4}. segment_base (gdt ! n) = 0 \<and> segment_limit (gdt ! n) = 0xFFFFFFFF \<and> gdt_present (gdt ! n) = 1 \<and> dpl (gdt ! n) = (if n \<le> 2 then 0 else 3)"
    "tss_esp0 t = ih_stack" using setup_segmentation_correct [OF _ g] by simp_all
  ultimately show ?thesis using main st S(1,2) k(5-9) 3(2) i by (intro exI [of _ gdt] exI [of _ t] exI [of _ idt] exI [of _ ?k] exI [of _ b] exI [of _ rd]) simp
qed

text \<open>
  C26: the kernel starts. With a screen, the block table of the kernel heap, a kernel stack of at least 4096 bytes, 19MB of memory, the kernel's code below 6MB
  and one module below 2MB, \<open>kernel_main\<close> does not halt: it reaches its last loop in user mode. By then the code and data segments of both rings cover the address space
  and the interrupt stack is set; process 1 is the only process, ready to enter \<open>launch_shell\<close> in its root directory on
  memory of its own; its standard input is the pipe that the keyboard writes to, empty and with room for 1024 characters; the filesystem is the module; and the
  invariants of the scheduler, of descriptors and pipes, of mail and of the screen hold.
\<close>

theorem kernel_main_correct:
  assumes "screen_inv scr" and "length (ma_blocks heap) = buddy_nblocks KERNEL_MEM_SIZEPOW2" and "4096 \<le> length stack"
    and "19 * 1048576 \<le> ram" and "ram < 2 ^ 32" and "layout_ok ly" and "loaded < 2 * MB"
  shows "\<exists>gdt t idt k b rd. kernel_main tss_addr ih_stack handlers [(loaded, img)] (boot_state mem ram scr stack ly heap) = Some (User_loop gdt t idt k) \<and>
    (\<forall>n\<in>{1, 2, 3, 4}. segment_base (gdt ! n) = 0 \<and> segment_limit (gdt ! n) = 0xFFFFFFFF \<and> gdt_present (gdt ! n) = 1 \<and> dpl (gdt ! n) = (if n \<le> 2 then 0 else 3)) \<and>
    tss_esp0 t = ih_stack \<and> idt = fst (setup_interrupts handlers scr) \<and>
    started k b rd (ly_launch_shell ly) \<and> sched k [1] [] \<and> fds_ok k [] \<and> mail_ok k \<and> private_memory (k_mm k) (k_procs k ! 1) \<and>
    screen_inv (k_screen k) \<and> k_filesystem k = img \<and> k_current k = None \<and> takes_input b 1024 [1] [] k \<and> \<not> k_shift_pressed k"
  by (rule kernel_main_boots [OF assms])

theorem kernel_main_correct_witness:
  "\<exists>gdt t idt k b rd. kernel_main 0x112340 0x120000 [] [(0x100000, [])] (boot_state (\<lambda>_. 0) 33554432 blank_screen (replicate 4096 0)
      \<lparr>ly_code = 0x200000, ly_data = 0x210000, ly_idle_stack = 0x220000, ly_idle = 0x200100, ly_launch_shell = 0x200200\<rparr>
      (kmalloc_init (\<lambda>_. 0) (replicate 16384 \<lparr>bi_sizem = 0, bi_used = False\<rparr>))) = Some (User_loop gdt t idt k) \<and>
    started k b rd 0x200200 \<and> sched k [1] [] \<and> takes_input b 1024 [1] [] k"
proof -
  let ?ly = "\<lparr>ly_code = 0x200000, ly_data = 0x210000, ly_idle_stack = 0x220000, ly_idle = 0x200100, ly_launch_shell = 0x200200\<rparr>"
  let ?bs = "replicate 16384 \<lparr>bi_sizem = 0, bi_used = False\<rparr>"
  have "buddy_inv (kmalloc_init (\<lambda>_. 0) ?bs)" by (rule kmalloc_init_inv(1)) (simp add: buddy_nblocks_def)
  then obtain F where "rep (kmalloc_init (\<lambda>_. 0) ?bs) (block_table (kmalloc_init (\<lambda>_. 0) ?bs)) F {}" by (rule buddy_invE)
  then have "geom (kmalloc_init (\<lambda>_. 0) ?bs)" by (rule repD(1))
  then have "length (ma_blocks (kmalloc_init (\<lambda>_. 0) ?bs)) = buddy_nblocks KERNEL_MEM_SIZEPOW2"
    by (simp add: geom_def buddy_nblocks_def kmalloc_init_def buddy_init_def Let_def)
  moreover have "screen_inv blank_screen" by (simp add: screen_inv_def blank_screen_def)
  moreover have "layout_ok ?ly" by (simp add: layout_ok_def page_aligned_mod)
  moreover have "4096 \<le> length (replicate 4096 (0::u8))" "19 * 1048576 \<le> (33554432::nat)" "(33554432::nat) < 2 ^ 32" "(0x100000 :: u32) < 2 * MB" by simp_all
  ultimately show ?thesis using kernel_main_correct [where tss_addr = "0x112340" and ih_stack = "0x120000" and scr = blank_screen and heap = "kmalloc_init (\<lambda>_. 0) ?bs"
      and stack = "replicate 4096 0" and ram = 33554432 and ly = ?ly and loaded = "0x100000"] by fastforce
qed

end
