(* ===== verification/Kernel_Typed.thy ===== *)
theory Kernel_Typed
  imports Boot_Props Mail_Claims
begin

text \<open>
  A type invariant of the whole kernel state and that every operation keeps it, whatever the processes do: the table of
  processes has its shape, process ids are indices, links and the current process stay in the table, every working directory is an
  existing directory, mailboxes hold whole messages, the cursor is on the screen and the filesystem never changes.

  The proofs go through a rule per construct of the option monad and one per operation, collected as \<open>wp\<close>: \<open>yields P m\<close> is the weakest
  (liberal) precondition, that what \<open>m\<close> returns, if it returns, satisfies \<open>P\<close>.
\<close>

subsection \<open>Weakest preconditions\<close>

definition yields :: "('a \<Rightarrow> bool) \<Rightarrow> 'a option \<Rightarrow> bool" where
  "yields P m \<longleftrightarrow> (\<forall>x. m = Some x \<longrightarrow> P x)"

named_theorems wp \<open>weakest preconditions of the operations\<close>

lemma yields_any: "(\<And>x. m = Some x \<Longrightarrow> P x) \<Longrightarrow> yields P m"
  by (simp add: yields_def)

lemma yieldsD: "yields P m \<Longrightarrow> m = Some x \<Longrightarrow> P x"
  by (simp add: yields_def)

lemma yields_weaken: "yields Q m \<Longrightarrow> (\<And>x. Q x \<Longrightarrow> P x) \<Longrightarrow> yields P m"
  by (simp add: yields_def)

lemma yields_Some [wp]: "P x \<Longrightarrow> yields P (Some x)"
  by (simp add: yields_def)

lemma yields_None [wp]: "yields P None"
  by (simp add: yields_def)

lemma yields_bind [wp]: "yields (\<lambda>x. yields P (f x)) m \<Longrightarrow> yields P (Option.bind m f)"
  by (auto simp: yields_def bind_eq_Some_conv)

lemma yields_map [wp]: "yields (\<lambda>x. P (f x)) m \<Longrightarrow> yields P (map_option f m)"
  by (auto simp: yields_def)

lemma yields_if [wp]: "(b \<Longrightarrow> yields P m) \<Longrightarrow> (\<not> b \<Longrightarrow> yields P n) \<Longrightarrow> yields P (if b then m else n)"
  by (simp add: yields_def)

lemma yields_Let [wp]: "yields P (f x) \<Longrightarrow> yields P (Let x f)"
  by (simp add: Let_def)

lemma yields_option [wp]:
  "(x = None \<Longrightarrow> yields P m) \<Longrightarrow> (\<And>y. x = Some y \<Longrightarrow> yields P (f y)) \<Longrightarrow> yields P (case x of None \<Rightarrow> m | Some y \<Rightarrow> f y)"
  by (cases x) auto

lemma yields_prod [wp]: "(\<And>a b. x = (a, b) \<Longrightarrow> yields P (f a b)) \<Longrightarrow> yields P (case x of (a, b) \<Rightarrow> f a b)"
  by (cases x) auto

lemma yields_assert [wp]: "(b \<Longrightarrow> P ()) \<Longrightarrow> yields P (assert_c b)"
  by (simp add: yields_def)

subsection \<open>The type of the state\<close>

definition in_table :: "nat option \<Rightarrow> bool" where
  "in_table x \<longleftrightarrow> (\<forall>i. x = Some i \<longrightarrow> i < MAX_PROCESSES)"

lemma in_table_simps [simp]: "in_table None" "in_table (Some i) \<longleftrightarrow> i < MAX_PROCESSES"
  by (simp_all add: in_table_def)

definition is_directory :: "bytes \<Rightarrow> bytes \<Rightarrow> bool" where
  "is_directory img path \<longleftrightarrow> (\<exists>e. get_directory_entry img path = Some (0, Some e) \<and> de_type img e = Some TYPE_DIR)"

definition process_typed :: "bytes \<Rightarrow> process \<Rightarrow> bool" where
  "process_typed img p \<longleftrightarrow>
     length (pr_filedesc p) = MAX_FDS \<and> length (pr_cwd p) = PATH_MAX \<and> is_directory img (pr_cwd p) \<and>
     in_table (pr_prev p) \<and> in_table (pr_next p) \<and> pr_mailbox_size p \<le> pr_mailbox_alloc p \<and> pr_mailbox_alloc p \<le> 8 \<and>
     0 \<le> pr_last_errno p"

definition mailbox_typed :: "message list \<Rightarrow> bool" where
  "mailbox_typed arr \<longleftrightarrow> length arr = 8 \<and> (\<forall>m\<in>set arr. length (msg_data m) = 1024 \<and> msg_size m \<le> MAX_MESSAGE_SIZE)"

definition list_typed :: "processlist \<Rightarrow> bool" where
  "list_typed l \<longleftrightarrow> in_table (pl_first l) \<and> in_table (pl_last l)"

definition typed :: "kernel \<Rightarrow> bool" where
  "typed k \<longleftrightarrow>
     length (k_procs k) = MAX_PROCESSES \<and> process_typed (k_filesystem k) zero_process \<and>
     (\<forall>i<MAX_PROCESSES. process_typed (k_filesystem k) (k_procs k ! i) \<and> (pr_exists (k_procs k ! i) \<longrightarrow> pr_pid (k_procs k ! i) = int i)) \<and>
     in_table (k_current k) \<and> list_typed (k_ready k) \<and> list_typed (k_suspended k) \<and>
     (\<forall>m arr. k_mailboxes k m = Some arr \<longrightarrow> mailbox_typed arr) \<and> screen_inv (k_screen k) \<and> 4096 \<le> length (k_stack k) \<and>
     length (k_stack k) < size_t_max"

text \<open>\<open>keeps k k'\<close>: the state after an operation is typed again, on the same filesystem.\<close>

definition keeps :: "kernel \<Rightarrow> kernel \<Rightarrow> bool" where
  "keeps k k' \<longleftrightarrow> typed k' \<and> k_filesystem k' = k_filesystem k"

lemma typed_other [simp]:
  "typed (k\<lparr>k_mm := a\<rparr>) = typed k" "typed (k\<lparr>k_heap := b\<rparr>) = typed k" "typed (k\<lparr>k_handles := c\<rparr>) = typed k"
  "typed (k\<lparr>k_pipes := d\<rparr>) = typed k" "typed (k\<lparr>k_arrays := e\<rparr>) = typed k" "typed (k\<lparr>k_paging := f\<rparr>) = typed k"
  "typed (k\<lparr>k_input_pipe := g\<rparr>) = typed k" "typed (k\<lparr>k_shift_pressed := h\<rparr>) = typed k" "typed (k\<lparr>k_timer_ticks := i\<rparr>) = typed k"
  "typed (k\<lparr>k_fpustate := j\<rparr>) = typed k"
  by (simp_all add: typed_def)

lemma typed_upd_proc [intro]:
  assumes "typed k" "\<And>p. process_typed (k_filesystem k) p \<Longrightarrow> process_typed (k_filesystem k) (f p)"
    "\<And>p. pr_pid (f p) = pr_pid p" "\<And>p. pr_exists (f p) \<Longrightarrow> pr_exists p"
  shows "typed (upd_proc i f k)"
  using assms by (auto simp: typed_def nth_upd_proc)

lemma typed_proc: "typed k \<Longrightarrow> i < MAX_PROCESSES \<Longrightarrow> process_typed (k_filesystem k) (k_procs k ! i)"
  by (simp add: typed_def)

lemma typed_length: "typed k \<Longrightarrow> length (k_procs k) = MAX_PROCESSES"
  by (simp add: typed_def)

lemma get_proc_wp [wp]:
  "typed k \<Longrightarrow> (\<And>p. i < MAX_PROCESSES \<Longrightarrow> p = k_procs k ! i \<Longrightarrow> process_typed (k_filesystem k) p \<Longrightarrow> P p) \<Longrightarrow> yields P (get_proc i k)"
  by (auto simp: get_proc_def yields_def typed_proc typed_length)

lemma current_process_wp [wp]:
  assumes "typed k" "\<And>i p. i < MAX_PROCESSES \<Longrightarrow> p = k_procs k ! i \<Longrightarrow> process_typed (k_filesystem k) p \<Longrightarrow> P (i, p)"
  shows "yields P (current_process k)"
  unfolding current_process_def by (rule wp yields_any assms impI | assumption)+

lemma yields_weaken2: "yields (\<lambda>(a, b). Q a b) m \<Longrightarrow> (\<And>a b. Q a b \<Longrightarrow> P (a, b)) \<Longrightarrow> yields P m"
  by (auto simp: yields_def)

subsection \<open>Lists of processes\<close>

lemma set_list_typed: "typed k \<Longrightarrow> list_typed l \<Longrightarrow> typed (set_list w l k)"
  by (cases w) (simp_all add: set_list_def typed_def)

lemma get_list_typed: "typed k \<Longrightarrow> list_typed (get_list w k)"
  by (cases w) (simp_all add: get_list_def typed_def)

lemma set_list_fs [simp]: "k_filesystem (set_list w l k) = k_filesystem k" "get_list w (upd_proc i f k) = get_list w k"
  by (cases w; simp add: set_list_def get_list_def)+

lemma link_typed:
  "typed k \<Longrightarrow> in_table j \<Longrightarrow> typed (upd_proc i (\<lambda>p. p\<lparr>pr_next := j\<rparr>) k)"
  "typed k \<Longrightarrow> in_table j \<Longrightarrow> typed (upd_proc i (\<lambda>p. p\<lparr>pr_prev := j\<rparr>) k)"
  "typed k \<Longrightarrow> typed (upd_proc i (\<lambda>p. p\<lparr>pr_next := None, pr_prev := None\<rparr>) k)"
  by (rule typed_upd_proc; simp add: process_typed_def)+

lemma list_add_keeps: "typed k \<Longrightarrow> i < MAX_PROCESSES \<Longrightarrow> keeps k (list_add w i k)"
  using get_list_typed [of k w]
  by (auto simp: list_add_def keeps_def Let_def list_typed_def split: option.split intro!: set_list_typed link_typed)

lemma list_remove_keeps: "typed k \<Longrightarrow> i < MAX_PROCESSES \<Longrightarrow> keeps k (list_remove w i k)"
proof -
  assume k: "typed k" "i < MAX_PROCESSES"
  have l: "in_table (pr_next (k_procs k ! i))" "in_table (pr_prev (k_procs k ! i))" using typed_proc [OF k] by (simp_all add: process_typed_def)
  show ?thesis
    unfolding list_remove_def keeps_def Let_def using k l get_list_typed [OF k(1), of w]
    by (auto simp: list_typed_def split: option.split intro!: link_typed set_list_typed)
qed

lemma suspend_process_wp [THEN yields_weaken, wp]: "typed k \<Longrightarrow> yields (keeps k) (suspend_process i k)"
proof -
  assume k: "typed k"
  have "keeps k (list_add Suspended i (list_remove Ready i (upd_proc i (\<lambda>p. p\<lparr>pr_ready := False\<rparr>) k)))" if "i < MAX_PROCESSES"
    using list_remove_keeps [OF typed_upd_proc [OF k] that, of "\<lambda>p. p\<lparr>pr_ready := False\<rparr>" i Ready] list_add_keeps that
    by (auto simp: process_typed_def keeps_def)
  then show ?thesis unfolding suspend_process_def using k by (auto intro!: wp)
qed

lemma resume_process_wp [THEN yields_weaken, wp]: "typed k \<Longrightarrow> yields (keeps k) (resume_process i k)"
proof -
  assume k: "typed k"
  have "keeps k (list_add Ready i (list_remove Suspended i (upd_proc i (\<lambda>p. p\<lparr>pr_ready := True\<rparr>) k)))" if "i < MAX_PROCESSES"
    using list_remove_keeps [OF typed_upd_proc [OF k] that, of "\<lambda>p. p\<lparr>pr_ready := True\<rparr>" i Suspended] list_add_keeps that
    by (auto simp: process_typed_def keeps_def)
  then show ?thesis unfolding resume_process_def using k by (auto intro!: wp)
qed

subsection \<open>Heap, memory and pipes\<close>

lemma k_malloc_wp [THEN yields_weaken2, wp]: "typed k \<Longrightarrow> yields (\<lambda>(_, k'). keeps k k') (k_malloc n k)"
  by (auto simp: k_malloc_def yields_def keeps_def split_beta)

lemma k_free_wp [THEN yields_weaken, wp]: "typed k \<Longrightarrow> yields (keeps k) (k_free p k)"
  by (auto simp: k_free_def yields_def keeps_def)

lemma on_mm_wp [THEN yields_weaken, wp]: "typed k \<Longrightarrow> yields (keeps k) (on_mm f k)"
  by (auto simp: on_mm_def yields_def keeps_def)

lemma k_alloc_page_wp [THEN yields_weaken2, wp]: "typed k \<Longrightarrow> yields (\<lambda>(_, k'). keeps k k') (k_alloc_page k)"
  by (auto simp: k_alloc_page_def yields_def keeps_def split_beta)

lemma upd_pipe_wp [THEN yields_weaken, wp]: "typed k \<Longrightarrow> yields (keeps k) (upd_pipe b f k)"
  by (auto simp: upd_pipe_def yields_def keeps_def)

lemma upd_handle_wp [THEN yields_weaken, wp]: "typed k \<Longrightarrow> yields (keeps k) (upd_handle fh f k)"
  by (auto simp: upd_handle_def yields_def keeps_def)

lemma vstore_wp [THEN yields_weaken, wp]: "typed k \<Longrightarrow> yields (keeps k) (vstore a v k)"
  by (auto simp: vstore_def yields_def keeps_def bind_eq_Some_conv)

lemma vwrite_wp [THEN yields_weaken, wp]: "typed k \<Longrightarrow> yields (keeps k) (vwrite a bs k)"
proof (induction bs arbitrary: a k)
  case (Cons c cs)
  show ?case using Cons.prems by (auto simp: keeps_def intro!: wp yields_weaken [OF Cons.IH])
qed (simp add: yields_def keeps_def)

lemma vstore32_wp [THEN yields_weaken, wp]: "typed k \<Longrightarrow> yields (keeps k) (vstore32 a v k)"
  unfolding vstore32_def by (rule wp | simp)+

lemma free_object_wp [THEN yields_weaken, wp]:
  "typed k \<Longrightarrow> yields (keeps k) (free_pipe b k)" "typed k \<Longrightarrow> yields (keeps k) (free_array b k)" "typed k \<Longrightarrow> yields (keeps k) (free_handle b k)"
  unfolding free_pipe_def free_array_def free_handle_def by (auto simp: keeps_def intro!: wp)

lemma new_array_wp [THEN yields_weaken2, wp]: "typed k \<Longrightarrow> yields (\<lambda>(_, k'). keeps k k') (new_array n k)"
  unfolding new_array_def by (auto simp: keeps_def intro!: wp)

lemma new_handle_wp [THEN yields_weaken2, wp]: "typed k \<Longrightarrow> yields (\<lambda>(_, k'). keeps k k') (new_handle h k)"
  unfolding new_handle_def by (auto simp: keeps_def intro!: wp)

lemma new_pipe_wp [THEN yields_weaken2, wp]: "typed k \<Longrightarrow> yields (\<lambda>(_, k'). keeps k k') (new_pipe k)"
  unfolding new_pipe_def by (auto simp: keeps_def intro!: wp)

lemma new_ends_wp [THEN yields_weaken2, wp]:
  "typed k \<Longrightarrow> yields (\<lambda>(_, k'). keeps k k') (new_pipe_reader b k)" "typed k \<Longrightarrow> yields (\<lambda>(_, k'). keeps k k') (new_pipe_writer b k)"
  "typed k \<Longrightarrow> yields (\<lambda>(_, k'). keeps k k') (new_screen_handle k)" "typed k \<Longrightarrow> yields (\<lambda>(_, k'). keeps k k') (new_file t k)"
  unfolding new_pipe_reader_def new_pipe_writer_def new_screen_handle_def new_file_def by (auto intro!: wp)

lemma wake_up_reader_wp [THEN yields_weaken, wp]: "typed k \<Longrightarrow> yields (keeps k) (wake_up_reader b k)"
  unfolding wake_up_reader_def by (rule wp yields_any | simp add: keeps_def)+

lemma resize_pipe_wp [THEN yields_weaken, wp]: "typed k \<Longrightarrow> yields (keeps k) (resize_pipe b n k)"
  unfolding resize_pipe_def by (rule wp yields_any | simp add: keeps_def)+

lemma write_to_pipe_wp [THEN yields_weaken, wp]: "typed k \<Longrightarrow> yields (keeps k) (write_to_pipe b bs k)"
  unfolding write_to_pipe_def by (rule wp yields_any | simp add: keeps_def)+

lemma check_buffer_free_wp [THEN yields_weaken, wp]: "typed k \<Longrightarrow> yields (keeps k) (check_buffer_free b k)"
  unfolding check_buffer_free_def by (rule wp yields_any | simp add: keeps_def)+

lemma destroy_wp [THEN yields_weaken, wp]:
  "typed k \<Longrightarrow> yields (keeps k) (pipe_writer_destroy fh k)" "typed k \<Longrightarrow> yields (keeps k) (pipe_reader_destroy fh k)"
  "typed k \<Longrightarrow> yields (keeps k) (screen_destroy fh k)" "typed k \<Longrightarrow> yields (keeps k) (file_destroy fh k)"
  unfolding pipe_writer_destroy_def pipe_reader_destroy_def screen_destroy_def file_destroy_def
  by (rule wp yields_any | simp add: keeps_def)+

lemma yields_funs [wp]:
  "yields P a \<Longrightarrow> yields P b \<Longrightarrow> yields P c \<Longrightarrow> yields P d \<Longrightarrow> yields P (case f of Screen_destroy \<Rightarrow> a | Pipe_writer_destroy \<Rightarrow> b | Pipe_reader_destroy \<Rightarrow> c | File_destroy \<Rightarrow> d)"
  "yields Q a' \<Longrightarrow> yields Q b' \<Longrightarrow> yields Q c' \<Longrightarrow> yields Q d' \<Longrightarrow> yields Q (case w of Screen_write \<Rightarrow> a' | Pipe_writer_write \<Rightarrow> b' | Pipe_reader_write \<Rightarrow> c' | File_write \<Rightarrow> d')"
  "yields Q a' \<Longrightarrow> yields Q b' \<Longrightarrow> yields Q c' \<Longrightarrow> yields Q d' \<Longrightarrow> yields Q (case r of Screen_read \<Rightarrow> a' | Pipe_writer_read \<Rightarrow> b' | Pipe_reader_read \<Rightarrow> c' | File_read \<Rightarrow> d')"
  by ((cases f; simp), (cases w; simp), (cases r; simp))

lemma destroy_handle_wp [THEN yields_weaken, wp]: "typed k \<Longrightarrow> yields (keeps k) (destroy_handle fh k)"
  unfolding destroy_handle_def by (rule wp yields_any | simp add: keeps_def)+

lemma close_filehandle_wp [THEN yields_weaken, wp]: "typed k \<Longrightarrow> yields (keeps k) (close_filehandle fh k)"
  unfolding close_filehandle_def by (rule wp yields_any | simp add: keeps_def)+

lemma set_fd_typed [simp]: "typed k \<Longrightarrow> typed (set_fd i n v k)" "k_filesystem (set_fd i n v k) = k_filesystem k"
  by (auto simp: set_fd_def process_typed_def)

lemma close_dup2_wp [THEN yields_weaken2, wp]:
  "typed k \<Longrightarrow> yields (\<lambda>(_, k'). keeps k k') (syscall_close fd k)" "typed k \<Longrightarrow> yields (\<lambda>(_, k'). keeps k k') (syscall_dup2 fd fd' k)"
  unfolding syscall_close_def syscall_dup2_def
  by (rule wp yields_any | simp add: keeps_def)+

subsection \<open>Processes\<close>

lemma start_handles_wp [THEN yields_weaken, wp]: "typed k \<Longrightarrow> yields (keeps k) (start_handles i k)"
  unfolding start_handles_def by (rule wp yields_any | simp add: keeps_def)+

lemma close_fds_wp [THEN yields_weaken, wp]: "typed k \<Longrightarrow> yields (keeps k) (close_fds fds k)"
proof (induction fds arbitrary: k)
  case (Cons fd fds)
  show ?case using Cons.prems by (cases fd) (auto simp: keeps_def intro!: wp yields_weaken [OF Cons.IH])
qed (simp add: yields_def keeps_def)

lemma drop_mailbox_typed: "typed k \<Longrightarrow> typed (k\<lparr>k_mailboxes := (k_mailboxes k)(m := None)\<rparr>)"
  by (simp add: typed_def)

lemma free_mailbox_wp [THEN yields_weaken, wp]: "typed k \<Longrightarrow> yields (keeps k) (free_mailbox p k)"
  unfolding free_mailbox_def by (rule wp yields_any drop_mailbox_typed | simp add: keeps_def)+

lemma orphan_children_typed [simp]:
  "typed k \<Longrightarrow> typed (orphan_children pid k)" "k_filesystem (orphan_children pid k) = k_filesystem k"
  by (auto simp: orphan_children_def typed_def process_typed_def)

lemma wake_parent_wp [THEN yields_weaken, wp]: "typed k \<Longrightarrow> yields (keeps k) (wake_parent i k)"
  unfolding wake_parent_def
  by (rule wp yields_any | auto simp: keeps_def process_typed_def)+

lemma current_typed: "typed k \<Longrightarrow> in_table x \<Longrightarrow> typed (k\<lparr>k_current := x\<rparr>)"
  by (simp add: typed_def)

lemma paging_simps [simp]:
  "typed (disable_paging k) = typed k" "typed (enable_paging d k) = typed k" "k_filesystem (disable_paging k) = k_filesystem k"
  "k_filesystem (enable_paging d k) = k_filesystem k"
  by (simp_all add: disable_paging_def enable_paging_def)

lemma restore_paging_wp [THEN yields_weaken, wp]: "typed k \<Longrightarrow> yields (keeps k) (restore_paging c k)"
  unfolding restore_paging_def by (rule wp yields_any | simp add: keeps_def)+

lemma kill_process_wp [THEN yields_weaken, wp]:
  assumes k: "typed k"
  shows "yields (keeps k) (kill_process i k)"
proof -
  let ?k1 = "if k_current k = Some i then (disable_paging k)\<lparr>k_current := None\<rparr> else disable_paging k"
  have k1: "typed ?k1" "k_filesystem ?k1 = k_filesystem k" using k by (simp_all add: current_typed)
  have up: "typed (upd_proc i (\<lambda>p. p\<lparr>pr_exited := True\<rparr>) q)" if "typed q" for q using that by (auto simp: process_typed_def)
  have "yields (keeps k) (do {
       k \<leftarrow> close_fds (pr_filedesc (k_procs q ! i)) q;
       k \<leftarrow> on_mm (free_memory (k_procs k ! i)) k;
       k \<leftarrow> free_mailbox (k_procs k ! i) k;
       let k = orphan_children (pr_pid (k_procs k ! i)) k;
       k \<leftarrow> wake_parent i k;
       let k = upd_proc i (\<lambda>p. p\<lparr>pr_exited := True\<rparr>) k;
       restore_paging c k
     })" if "keeps ?k1 q" for q c
    by (insert that k1(2)) (rule wp yields_any | simp add: keeps_def up del: if_split)+
  note rest = this [unfolded Let_def]
  show ?thesis unfolding kill_process_def Let_def
    by (rule yields_bind, rule get_proc_wp [OF k], rule rest, rule list_remove_keeps [OF k1(1)])
qed

lemma choose_next_typed: "typed k \<Longrightarrow> in_table (choose_next k)"
proof -
  assume k: "typed k"
  have "in_table (pr_next p)" if "current_process k = Some (i, p)" for i p
    using yieldsD [OF current_process_wp [OF k, of "\<lambda>(i, p). in_table (pr_next p)"] that] by (simp add: process_typed_def)
  moreover have "in_table (pl_first (k_ready k))" using k by (simp add: typed_def list_typed_def)
  ultimately show ?thesis by (auto simp: choose_next_def split: option.splits)
qed

lemma switch_process_wp [wp]:
  assumes k: "typed k" and P: "\<And>b r' k'. keeps k k' \<Longrightarrow> P (b, r', k')"
  shows "yields P (switch_process r k)"
proof -
  define k1 where "k1 = (case k_current k of Some i \<Rightarrow> upd_proc i (\<lambda>p. p\<lparr>pr_saved_regs := r\<rparr>) k | None \<Rightarrow> k)"
  have k1: "typed k1" "k_filesystem k1 = k_filesystem k" using k by (auto simp: k1_def process_typed_def split: option.split)
  have "keeps k (k1\<lparr>k_current := choose_next k1\<rparr>)" using k1 choose_next_typed [OF k1(1)] by (simp add: keeps_def current_typed)
  then show ?thesis unfolding switch_process_def k1_def [symmetric] Let_def keeps_def
    by (intro yields_option yields_bind get_proc_wp yields_Some P) (simp_all add: keeps_def)
qed

subsection \<open>The screen\<close>

lemma write_chars_inv: "screen_inv s \<Longrightarrow> write_chars d n s = Some s' \<Longrightarrow> screen_inv s'"
proof (induction d n s arbitrary: s' rule: write_chars.induct)
  case (3 c d n s)
  from write_char_spec [OF 3(2), of c] obtain s1 where "write_char c s = Some s1" "screen_inv s1" by blast
  with 3(1) [of s1 s'] 3(3) show ?case by simp
qed auto

lemma screen_write_wp [THEN yields_weaken2, wp]: "typed k \<Longrightarrow> yields (\<lambda>(_, k'). keeps k k') (screen_write bs k)"
  by (auto simp: screen_write_def on_screen_def write_to_screen_def yields_def keeps_def typed_def bind_eq_Some_conv dest: write_chars_inv)

lemma k_printf_wp [THEN yields_weaken, wp]: "typed k \<Longrightarrow> yields (keeps k) (k_printf fmt args k)"
  by (auto simp: k_printf_def on_screen_def kprintf_def write_to_screen_def yields_def keeps_def typed_def bind_eq_Some_conv dest: write_chars_inv)

subsection \<open>System calls\<close>

lemma field_typed [simp]:
  "typed k \<Longrightarrow> typed (upd_proc i (\<lambda>p. p\<lparr>pr_exit_status := a\<rparr>) k)" "typed k \<Longrightarrow> typed (upd_proc i (\<lambda>p. p\<lparr>pr_data_end := b\<rparr>) k)"
  "typed k \<Longrightarrow> typed (upd_proc i (\<lambda>p. p\<lparr>pr_receive_blocked := c\<rparr>) k)" "typed k \<Longrightarrow> typed (upd_proc i (\<lambda>p. p\<lparr>pr_waiting_on := d\<rparr>) k)"
  "typed k \<Longrightarrow> typed (upd_proc i (\<lambda>p. p\<lparr>pr_exists := False\<rparr>) k)" "typed k \<Longrightarrow> typed (upd_proc i (\<lambda>p. p\<lparr>pr_in_syscall := e\<rparr>) k)"
  "typed k \<Longrightarrow> typed (upd_proc i (\<lambda>p. p\<lparr>pr_text_start := f, pr_text_end := f', pr_data_start := g, pr_data_end := g'\<rparr>) k)"
  "typed k \<Longrightarrow> 0 \<le> h \<Longrightarrow> typed (upd_proc i (\<lambda>p. p\<lparr>pr_last_errno := h\<rparr>) k)"
  by (rule typed_upd_proc; simp add: process_typed_def)+

lemma simple_calls_wp [THEN yields_weaken2, wp]:
  "typed k \<Longrightarrow> yields (\<lambda>(_, k'). keeps k k') (syscall_getpid k)" "typed k \<Longrightarrow> yields (\<lambda>(_, k'). keeps k k') (syscall_geterrno k)"
  "typed k \<Longrightarrow> yields (\<lambda>(_, k'). keeps k k') (syscall_exit st k)" "typed k \<Longrightarrow> yields (\<lambda>(_, k'). keeps k k') (syscall_kill pid k)"
  "typed k \<Longrightarrow> yields (\<lambda>(_, k'). keeps k k') (syscall_brk e k)"
  unfolding syscall_getpid_def syscall_geterrno_def syscall_exit_def syscall_kill_def syscall_brk_def
  by (rule wp yields_any | simp add: keeps_def)+

lemma pipe_take_wp [THEN yields_weaken2, wp]: "typed k \<Longrightarrow> yields (\<lambda>(_, k'). keeps k k') (pipe_take b n k)"
  unfolding pipe_take_def by (rule wp yields_any | simp add: keeps_def)+

lemma ends_wp [THEN yields_weaken2, wp]:
  "typed k \<Longrightarrow> yields (\<lambda>(_, k'). keeps k k') (pipe_reader_read fh buf n k)" "typed k \<Longrightarrow> yields (\<lambda>(_, k'). keeps k k') (pipe_writer_write fh bs k)"
  "typed k \<Longrightarrow> yields (\<lambda>(_, k'). keeps k k') (file_read fh buf n k)"
  unfolding pipe_reader_read_def pipe_writer_write_def file_read_def
  by (rule wp yields_any | simp add: keeps_def)+

lemma refused_wp [THEN yields_weaken2, wp]:
  "typed k \<Longrightarrow> yields (\<lambda>(_, k'). keeps k k') (file_write k)" "typed k \<Longrightarrow> yields (\<lambda>(_, k'). keeps k k') (pipe_reader_write k)"
  "typed k \<Longrightarrow> yields (\<lambda>(_, k'). keeps k k') (pipe_writer_read k)" "typed k \<Longrightarrow> yields (\<lambda>(_, k'). keeps k k') (screen_read k)"
  by (simp_all add: file_write_def pipe_reader_write_def pipe_writer_read_def screen_read_def yields_def keeps_def)

lemma handle_calls_wp [THEN yields_weaken2, wp]:
  "typed k \<Longrightarrow> yields (\<lambda>(_, k'). keeps k k') (handle_write fh buf n k)" "typed k \<Longrightarrow> yields (\<lambda>(_, k'). keeps k k') (handle_read fh buf n k)"
  unfolding handle_write_def handle_read_def by (rule wp yields_any | simp add: keeps_def)+

lemma read_write_wp [THEN yields_weaken2, wp]:
  "typed k \<Longrightarrow> yields (\<lambda>(_, k'). keeps k k') (syscall_write fd buf n k)" "typed k \<Longrightarrow> yields (\<lambda>(_, k'). keeps k k') (syscall_read fd buf n k)"
  unfolding syscall_write_def syscall_read_def by (rule wp yields_any | simp add: keeps_def)+

lemma syscall_pipe_wp [THEN yields_weaken2, wp]: "typed k \<Longrightarrow> yields (\<lambda>(_, k'). keeps k k') (syscall_pipe fds k)"
  unfolding syscall_pipe_def by (rule wp yields_any | simp add: keeps_def)+

subsection \<open>Messages\<close>

lemma fresh_mailbox_typed: "mailbox_typed (fresh_mailbox mem a 8)"
  by (auto simp: mailbox_typed_def fresh_mailbox_def fresh_message_def)

lemma put_mailbox_typed: "typed k \<Longrightarrow> mailbox_typed arr \<Longrightarrow> typed (k\<lparr>k_mailboxes := (k_mailboxes k)(m \<mapsto> arr)\<rparr>)"
  by (simp add: typed_def)

lemma get_mailbox_typed: "typed k \<Longrightarrow> k_mailboxes k m = Some arr \<Longrightarrow> mailbox_typed arr"
  by (simp add: typed_def)

lemma mailbox_room_wp [THEN yields_weaken, wp]:
  assumes k: "typed k"
  shows "yields (\<lambda>r. \<forall>k'. r = Some k' \<longrightarrow> keeps k k') (mailbox_room j k)"
proof -
  have new: "typed (upd_proc j (\<lambda>p. p\<lparr>pr_mailbox_alloc := 8, pr_mailbox_size := Suc 0, pr_mailbox := Some m\<rparr>) q)" if "typed q" for q m
    by (rule typed_upd_proc [OF that]) (simp_all add: process_typed_def)
  have more: "typed (upd_proc j (\<lambda>p. p\<lparr>pr_mailbox_size := Suc (pr_mailbox_size p)\<rparr>) k)" if "pr_mailbox_size (k_procs k ! j) < pr_mailbox_alloc (k_procs k ! j)"
    using k that by (auto simp: typed_def nth_upd_proc process_typed_def)
  show ?thesis unfolding mailbox_room_def
    by (insert k fresh_mailbox_typed) (rule wp yields_any | simp add: keeps_def new more put_mailbox_typed)+
qed

lemma put_message_wp [THEN yields_weaken, wp]:
  assumes k: "typed k" and m: "length (msg_data msg) \<le> 1024" "msg_size msg \<le> MAX_MESSAGE_SIZE"
  shows "yields (keeps k) (put_message j msg k)"
proof -
  have "mailbox_typed (arr[n := msg\<lparr>msg_data := msg_data msg @ drop (length (msg_data msg)) (msg_data (arr ! n))\<rparr>])" if "mailbox_typed arr" "n < length arr" for arr n
    using that m by (auto simp: mailbox_typed_def dest!: set_update_subset_insert [THEN subsetD])
  then show ?thesis unfolding put_message_def
    using k get_mailbox_typed [OF k] by (intro wp yields_any) (simp add: keeps_def put_mailbox_typed)
qed

lemma wake_receiver_wp [THEN yields_weaken, wp]: "typed k \<Longrightarrow> yields (keeps k) (wake_receiver j k)"
  unfolding wake_receiver_def by (rule wp yields_any | simp add: keeps_def)+

lemma syscall_send_wp [THEN yields_weaken2, wp]: "typed k \<Longrightarrow> yields (\<lambda>(_, k'). keeps k k') (syscall_send pid tag d sz k)"
  unfolding syscall_send_def
  by (rule wp yields_any | simp add: keeps_def pid_exists_def pid_index_def vread_length word_less_nat_alt word_le_nat_alt not_less)+

lemma take_message_wp [THEN yields_weaken2, wp]:
  assumes k: "typed k" and i: "i < MAX_PROCESSES" "p = k_procs k ! i" "0 < pr_mailbox_size p"
  shows "yields (\<lambda>(_, k'). keeps k k') (take_message i p k)"
proof -
  let ?n = "pr_mailbox_size p"
  have n: "?n - 1 \<le> pr_mailbox_alloc (k_procs k ! i)" using typed_proc [OF k i(1)] i(2) by (auto simp: process_typed_def)
  have "mailbox_typed (take (?n - 1) (drop 1 arr) @ drop (?n - 1) arr)" if "mailbox_typed arr" "?n \<le> length arr" for arr
    using that i(3) by (auto simp: mailbox_typed_def dest: in_set_takeD in_set_dropD)
  moreover have "typed (upd_proc i (\<lambda>p. p\<lparr>pr_mailbox_size := ?n - 1\<rparr>) (k\<lparr>k_mailboxes := ms\<rparr>))" if "typed (k\<lparr>k_mailboxes := ms\<rparr>)" for ms
    using that n by (auto simp: typed_def nth_upd_proc process_typed_def)
  ultimately show ?thesis unfolding take_message_def
    using k get_mailbox_typed [OF k] by (intro wp yields_any) (simp add: keeps_def put_mailbox_typed)
qed

lemma syscall_receive_wp [THEN yields_weaken2, wp]: "typed k \<Longrightarrow> yields (\<lambda>(_, k'). keeps k k') (syscall_receive msg b k)"
  unfolding syscall_receive_def by (rule wp yields_any | simp add: keeps_def)+

subsection \<open>Working directories\<close>

text \<open>\<open>path_at mx b n\<close>: the path in the buffer ends at \<open>n\<close>, which is within the first \<open>mx\<close> bytes.\<close>

definition path_at :: "nat \<Rightarrow> nat \<Rightarrow> bytes \<times> nat \<Rightarrow> bool" where
  "path_at l mx x \<longleftrightarrow> length (fst x) = l \<and> snd x < mx \<and> snd x < l \<and> fst x ! snd x = 0"

lemma strip_component_at: "path_at l mx (b, n) \<Longrightarrow> yields (path_at l mx) (strip_component b n)"
proof (induction b n rule: strip_component.induct)
  case (2 b n)
  show ?case using 2 by (auto simp: path_at_def yields_def)
qed (simp add: yields_def)

lemma remove_last_at: "path_at l mx (b, n) \<Longrightarrow> yields (path_at l mx) (remove_last b n)"
  unfolding remove_last_def
  by (rule wp yields_weaken [OF strip_component_at] | auto simp: path_at_def)+

lemma append_bytes_at:
  "length b = l \<Longrightarrow> n < mx \<Longrightarrow> yields (\<lambda>x. length (fst x) = l \<and> snd x < mx) (append_bytes mx cs b n)"
  by (induction mx cs b n rule: append_bytes.induct) (auto simp: yields_def)

lemma add_component_at: "path_at l mx (b, n) \<Longrightarrow> yields (path_at l mx) (add_component mx c b n)"
  unfolding add_component_def
  by (rule wp yields_weaken [OF append_bytes_at] | auto simp: path_at_def)+

lemma apply_component_at: "path_at l mx (b, n) \<Longrightarrow> yields (path_at l mx) (apply_component mx c len b n)"
  unfolding apply_component_def
  by (intro yields_bind yields_any) (auto dest: yieldsD [OF remove_last_at] yieldsD [OF add_component_at] split: if_splits)

lemma relative_loop_at: "path_at l mx (b, n) \<Longrightarrow> yields (path_at l mx) (relative_loop rel len mx pos start b n)"
proof (induction rel len mx pos start b n rule: relative_loop.induct)
  case (1 rel len mx pos start b n)
  have "yields (path_at l mx) (relative_loop rel len mx (Suc pos) (Suc pos) (fst x) (snd x))"
    if "pos \<le> len" "rel ! pos = slash \<or> pos = len" "start < pos" "apply_component mx (drop start rel) (pos - start) b n = Some x" for x
    using 1(1) [OF that] yieldsD [OF apply_component_at [OF 1(4)] that(4)] that(4) by simp
  then show ?case
    using 1(2-4) by (subst relative_loop.simps) (auto simp: yields_def bind_eq_Some_conv simp del: slash_def)
qed

lemma cstr_within:
  assumes "0 \<in> set (take mx b)"
  shows "length (cstr b) < mx" "length (cstr b) < length b" "b ! length (cstr b) = 0" "cstr (take mx b) = cstr b"
proof -
  have "takeWhile (\<lambda>c. c \<noteq> 0) (take mx b @ drop mx b) = takeWhile (\<lambda>c. c \<noteq> 0) (take mx b)"
    using assms by (intro takeWhile_append1) auto
  then show e: "cstr (take mx b) = cstr b" by (simp add: cstr_def)
  have "terminated (take mx b)" "terminated b" using assms by (auto simp: terminated_def dest: in_set_takeD)
  then show "b ! length (cstr b) = 0" by (simp add: terminated_end)
  have "length (cstr s) < length s" if "terminated s" for s using that by (induction s) auto
  with \<open>terminated (take mx b)\<close> have "length (cstr (take mx b)) < length (take mx b)" by blast
  then show "length (cstr b) < mx" "length (cstr b) < length b" unfolding e by simp_all
qed

text \<open>Whatever is printed, the buffer keeps its size and is terminated.\<close>

definition same_buffer :: "out \<Rightarrow> out \<Rightarrow> bool" where
  "same_buffer out out' \<longleftrightarrow> length (fst out') = length (fst out) \<and> (snd out < size_t_max \<longrightarrow> snd out' < size_t_max)"

lemma addchars_same: "addchars sz t out = Some out' \<Longrightarrow> same_buffer out out'"
proof (induction t arbitrary: out)
  case (Cons c t)
  then obtain o1 where "addchar sz c out = Some o1" "same_buffer o1 out'" by (auto simp: bind_eq_Some_conv)
  then show ?case by (auto simp: addchar_def same_buffer_def split: prod.splits if_splits)
qed (simp add: same_buffer_def)

lemma print_padded_same:
  assumes "print_padded sz right pad c ap out = Some (out', ap')"
  shows "same_buffer out out'"
proof -
  have f: "same_buffer x y" if "print_field sz c ap x = Some (y, ap'')" for x y ap''
    using that by (auto simp: print_field_text bind_eq_Some_conv intro: addchars_same)
  have p: "same_buffer x y" if "pad_spaces sz n x = Some y" for n x y using that addchars_same by (simp add: pad_spaces_text)
  show ?thesis using assms
    by (auto simp: print_padded_def Let_def bind_eq_Some_conv same_buffer_def split: if_splits dest!: f p)
qed

lemma vsnprintf_loop_same: "vsnprintf_loop sz fmt ap out = Some out' \<Longrightarrow> same_buffer out out'"
proof (induction sz fmt ap out rule: vsnprintf_loop.induct)
  case (2 sz c cs ap out)
  show ?case
  proof (cases "c = of_char CHR ''%''")
    case True
    define left where "left = (cs \<noteq> [] \<and> hd cs = of_char CHR ''-'')"
    from 2(3) True obtain pad rest o1 ap1 where o: "scan_pad 0 (if left then tl cs else cs) = Some (pad, rest)"
      "print_padded sz (\<not> left) pad (hd rest) ap out = Some (o1, ap1)" "vsnprintf_loop sz (tl rest) ap1 o1 = Some out'"
      by (auto simp: Let_def left_def bind_eq_Some_conv)
    have "same_buffer o1 out'" by (rule 2(1) [OF _ _ left_def o(1) refl o(2) refl o(3)]) (use True in auto)
    with print_padded_same [OF o(2)] show ?thesis by (auto simp: same_buffer_def)
  next
    case False
    show ?thesis
    proof (cases "c = 0")
      case nz: False
      with False 2(3) obtain o1 where o: "addchar sz c out = Some o1" "vsnprintf_loop sz cs ap o1 = Some out'" by (auto simp: bind_eq_Some_conv)
      have "same_buffer out o1" by (rule addchars_same [of sz "[c]"]) (use o(1) in \<open>simp add: addchars_single\<close>)
      moreover have "same_buffer o1 out'" by (rule 2(2) [OF nz False o])
      ultimately show ?thesis by (auto simp: same_buffer_def)
    qed (use 2(3) in \<open>simp add: same_buffer_def\<close>)
  qed
qed simp

lemma snprintf_within:
  assumes l: "mx \<le> length b" "0 < mx" "length b < size_t_max" and s: "snprintf b mx fmt args = Some (b1, n)"
  shows "length b1 = length b \<and> 0 \<in> set (take mx b1)"
proof -
  from s obtain b2 where v: "vsnprintf_loop mx fmt args (b, 0) = Some (b2, n)"
    and b1: "b1 = b2[(if (n + 1) mod size_t_max < mx then n else mx - 1) := 0]" "(if (n + 1) mod size_t_max < mx then n else mx - 1) < length b2"
    using l(2) by (auto simp: snprintf_def vsnprintf_def bind_eq_Some_conv Let_def split: if_splits)
  have e: "length b2 = length b" "n < size_t_max" using vsnprintf_loop_same [OF v] by (auto simp: same_buffer_def)
  define i where "i = (if (n + 1) mod size_t_max < mx then n else mx - 1)"
  have "n < mx" if "(n + 1) mod size_t_max < mx" "n < length b"
    using that l(3) by (simp split: if_splits)
  then have "i < mx" "i < length b2" "b1 = b2[i := 0]" using b1 l(2) e by (auto simp: i_def split: if_splits)
  then have "take mx b1 ! i = 0" "i < length (take mx b1)" by simp_all
  then have "0 \<in> set (take mx b1)" by (metis nth_mem)
  with e(1) \<open>b1 = b2[i := 0]\<close> show ?thesis by simp
qed

lemma relative_to_absolute_at:
  assumes l: "mx \<le> length b" "0 < mx" "length b < size_t_max" and r: "relative_to_absolute b base rel mx = Some b'"
  shows "length b' = length b \<and> 0 \<in> set (take mx b')"
proof -
  from r obtain b1 n1 len n x where x: "length b1 = length b" "0 \<in> set (take mx b1)" "strlen b1 = Some n" "relative_loop rel len mx 0 0 b1 n = Some (b', x)"
    by (auto simp: relative_to_absolute_def bind_eq_Some_conv dest: snprintf_within [OF l] split: if_splits)
  have "n = length (cstr b1)" using x(3) by (simp add: strlen_cstr split: if_splits)
  then have "path_at (length b) mx (b1, n)" using x(1) cstr_within [OF x(2)] by (simp add: path_at_def)
  from yieldsD [OF relative_loop_at [OF this] x(4)] show ?thesis by (auto simp: path_at_def in_set_conv_nth)
qed

lemma directory_prefix:
  assumes "0 \<in> set (take n path)"
  shows "get_directory_entry img (take n path) = get_directory_entry img path"
proof -
  have t: "terminated (take n path)" "terminated path" using assms by (auto simp: terminated_def dest: in_set_takeD)
  show ?thesis
    using get_directory_entry_loop_walk [OF t(1), of 0 0] get_directory_entry_loop_walk [OF t(2), of 0 0] t
    by (simp add: get_directory_entry_def strlen_cstr scanning_def cstr_within(4) [OF assms])
qed

lemma kernel_path_typed:
  assumes k: "typed k" and e: "kernel_path p s k = Some cwd" "get_directory_entry img cwd = Some (0, Some e)" "de_type img e = Some TYPE_DIR"
  shows "length (take PATH_MAX cwd) = PATH_MAX" "is_directory img (take PATH_MAX cwd)"
proof -
  have "PATH_MAX \<le> length (k_stack k)" "length (k_stack k) < size_t_max" using k by (simp_all add: typed_def)
  then have "length cwd = length (k_stack k) \<and> 0 \<in> set (take PATH_MAX cwd)"
    using e(1) by (intro relative_to_absolute_at) (simp_all add: kernel_path_def)
  then show "length (take PATH_MAX cwd) = PATH_MAX" "is_directory img (take PATH_MAX cwd)"
    using k e(2,3) directory_prefix [of PATH_MAX cwd img] by (auto simp: typed_def is_directory_def)
qed

lemma syscall_chdir_wp [THEN yields_weaken2, wp]:
  assumes k: "typed k"
  shows "yields (\<lambda>(_, k'). keeps k k') (syscall_chdir path k)"
proof -
  have cd: "typed (upd_proc i (\<lambda>p. p\<lparr>pr_cwd := take PATH_MAX c\<rparr>) k)"
    if "kernel_path p s k = Some c" "get_directory_entry (k_filesystem k) c = Some (0, Some e)" "de_type (k_filesystem k) e = Some TYPE_DIR" for i c p s e
    using kernel_path_typed [OF k that] by (intro typed_upd_proc [OF k]) (simp_all add: process_typed_def)
  show ?thesis unfolding syscall_chdir_def
    by (insert k) (rule wp yields_any | auto simp: keeps_def intro!: cd [unfolded PATH_MAX_def TYPE_DIR_def])+
qed

lemma user_snprintf_wp [THEN yields_weaken, wp]: "typed k \<Longrightarrow> yields (keeps k) (user_snprintf a n f args k)"
  unfolding user_snprintf_def by (rule wp yields_any | simp add: keeps_def)+

lemma open_entry_wp [THEN yields_weaken2, wp]: "typed k \<Longrightarrow> yields (\<lambda>(_, k'). keeps k k') (open_entry i fd fl e k)"
  unfolding open_entry_def by (rule wp yields_any | simp add: keeps_def)+

lemma file_calls_wp [THEN yields_weaken2, wp]:
  "typed k \<Longrightarrow> yields (\<lambda>(_, k'). keeps k k') (syscall_stat path buf k)" "typed k \<Longrightarrow> yields (\<lambda>(_, k'). keeps k k') (syscall_open path fl k)"
  "typed k \<Longrightarrow> yields (\<lambda>(_, k'). keeps k k') (syscall_getdent fd ent k)" "typed k \<Longrightarrow> yields (\<lambda>(_, k'). keeps k k') (syscall_getcwd buf sz k)"
  unfolding syscall_stat_def syscall_open_def syscall_getdent_def syscall_getcwd_def
  by (rule wp yields_any | simp add: keeps_def)+

subsection \<open>New processes and programs\<close>

lemma new_process_typed:
  assumes "typed k" "c < MAX_PROCESSES"
  shows "typed (upd_proc c (\<lambda>_. zero_process\<lparr>pr_pid := int c, pr_parent_pid := q, pr_exists := True\<rparr>) k)"
  using assms by (auto simp: typed_def nth_upd_proc process_typed_def)

lemma share_fds_wp [THEN yields_weaken, wp]: "typed k \<Longrightarrow> yields (keeps k) (share_fds c n fds k)"
proof (induction fds arbitrary: n k)
  case (Cons fd fds)
  show ?case using Cons.prems by (cases fd) (auto simp: keeps_def intro!: wp yields_weaken [OF Cons.IH])
qed (simp add: yields_def keeps_def)

lemma inherit_typed [simp]:
  "typed k \<Longrightarrow> typed (upd_proc i (\<lambda>p. p\<lparr>pr_pdir := d, pr_text_start := a, pr_text_end := b, pr_data_start := a', pr_data_end := b',
     pr_stack_start := a'', pr_stack_end := b''\<rparr>) k)"
  "typed k \<Longrightarrow> process_typed (k_filesystem k) q \<Longrightarrow> typed (upd_proc i (\<lambda>p. p\<lparr>pr_saved_regs := r, pr_cwd := pr_cwd q, pr_ready := True\<rparr>) k)"
  by (rule typed_upd_proc; simp add: process_typed_def)+

lemma list_add_typed [simp]:
  "typed k \<Longrightarrow> i < MAX_PROCESSES \<Longrightarrow> typed (list_add w i k)" "typed k \<Longrightarrow> i < MAX_PROCESSES \<Longrightarrow> k_filesystem (list_add w i k) = k_filesystem k"
  using list_add_keeps [of k i w] by (simp_all add: keeps_def)

lemma syscall_fork_wp [THEN yields_weaken2, wp]:
  assumes k: "typed k"
  shows "yields (\<lambda>(_, k'). keeps k k') (syscall_fork r k)"
proof (cases rule: get_free_pid_cases [of k])
  case 1
  then show ?thesis using k by (simp add: syscall_fork_def yields_def keeps_def)
next
  case (2 c)
  have c: "pid_index (int c) = c" by (simp add: pid_index_def)
  show ?thesis unfolding syscall_fork_def 2(1) Let_def c
    by (insert k 2(3)) (rule wp yields_any | simp add: keeps_def new_process_typed)+
qed

lemma exec_image_wp [THEN yields_weaken2, wp]: "typed k \<Longrightarrow> yields (\<lambda>(_, k'). keeps k k') (exec_image i p e args k)"
  unfolding exec_image_def by (rule wp yields_any | simp add: keeps_def)+

lemma syscall_execve_wp [wp]:
  "typed k \<Longrightarrow> (\<And>res r' k'. keeps k k' \<Longrightarrow> P (res, r', k')) \<Longrightarrow> yields P (syscall_execve f argv r k)"
  unfolding syscall_execve_def by (rule wp yields_any | simp add: keeps_def)+

lemma syscall_waitpid_wp [THEN yields_weaken2, wp]: "typed k \<Longrightarrow> yields (\<lambda>(_, k'). keeps k k') (syscall_waitpid pid st k)"
  unfolding syscall_waitpid_def by (rule wp yields_any | simp add: keeps_def)+

subsection \<open>The dispatcher and the interrupts\<close>

lemma call_handler_keeps: "yields (\<lambda>f. \<forall>r k. typed k \<longrightarrow> yields (\<lambda>(_, k'). keeps k k') (f r k)) (call_handler c)"
  unfolding call_handler_def by (rule wp yields_any allI impI | simp add: keeps_def)+

lemma call_handler_wp [THEN yields_weaken2, wp]:
  "call_handler c = Some f \<Longrightarrow> typed k \<Longrightarrow> yields (\<lambda>(_, k'). keeps k k') (f r k)"
  using yieldsD [OF call_handler_keeps] by blast

lemma dispatch_wp [wp]:
  "typed k \<Longrightarrow> (\<And>res r' k'. keeps k k' \<Longrightarrow> P (res, r', k')) \<Longrightarrow> yields P (dispatch c r k)"
  unfolding dispatch_def by (rule wp yields_any | simp add: keeps_def)+

lemma record_errno_wp:
  "typed k \<Longrightarrow> (\<And>res' k'. keeps k k' \<Longrightarrow> yields P (f res' k')) \<Longrightarrow> yields P (case record_errno c res k of (res', k') \<Rightarrow> f res' k')"
  by (auto simp: record_errno_def keeps_def split: option.splits if_splits)

lemma syscall_step_wp [wp]:
  assumes k: "typed k" and P: "\<And>b r' k'. keeps k k' \<Longrightarrow> P (b, r', k')"
  shows "yields P (syscall_step r k)"
  unfolding syscall_step_def
  by (insert k) (rule record_errno_wp wp yields_any P | simp add: keeps_def)+

lemma context_switch_wp [THEN yields_weaken2, wp]:
  assumes "typed k"
  shows "yields (\<lambda>(_, k'). keeps k k') (context_switch r k)"
proof -
  have "typed k \<longrightarrow> keeps k (snd x)" if "context_switch r k = Some x" for r k x
  proof (rule context_switch.raw_induct [of "\<lambda>r k x. typed k \<longrightarrow> keeps k (snd x)", OF _ that], rule impI)
    fix cs :: "regs \<Rightarrow> kernel \<Rightarrow> (regs \<times> kernel) option" and r k x
    assume IH: "\<And>r k x. cs r k = Some x \<Longrightarrow> typed k \<longrightarrow> keeps k (snd x)" and k: "typed k"
      and x: "do {
        (in_syscall, r, k) \<leftarrow> switch_process r k;
        if in_syscall then do { (switch, r, k) \<leftarrow> syscall_step r k; if switch then cs r k else Some (r, k) } else Some (r, k)
      } = Some x" (is "?body = _")
    have cs: "yields (\<lambda>(_, k''). keeps k' k'') (cs r' k')" if "typed k'" for r' k'
      using IH [of r' k'] that by (auto simp: yields_def)
    have "yields (\<lambda>(_, k'). keeps k k') ?body"
      by (insert k) (rule wp cs [THEN yields_weaken2] | simp add: keeps_def)+
    with x show "keeps k (snd x)" by (auto dest: yieldsD)
  qed
  then show ?thesis using assms by (auto simp: yields_def)
qed

lemma syscall_wp [THEN yields_weaken2, wp]: "typed k \<Longrightarrow> yields (\<lambda>(_, k'). keeps k k') (syscall r k)"
  unfolding syscall_def by (rule wp yields_any | simp add: keeps_def)+

lemma key_event_wp [THEN yields_weaken, wp]: "typed k \<Longrightarrow> yields (keeps k) (key_event sc k)"
  unfolding key_event_def by (rule wp yields_any | simp add: keeps_def)+

lemma handlers_wp [THEN yields_weaken2, wp]:
  "typed k \<Longrightarrow> yields (\<lambda>(_, k'). keeps k k') (timer_handler r k)" "typed k \<Longrightarrow> yields (\<lambda>(_, k'). keeps k k') (keyboard_handler r sc k)"
  "typed k \<Longrightarrow> yields (\<lambda>(_, k'). keeps k k') (kill_faulting cr2 i p r k)"
  unfolding timer_handler_def keyboard_handler_def kill_faulting_def by (rule wp yields_any | simp add: keeps_def)+

lemma handle_interrupt_wp [THEN yields_weaken2, wp]: "typed k \<Longrightarrow> yields (\<lambda>(_, k'). keeps k k') (handle_interrupt sc cr2 r k)"
  unfolding handle_interrupt_def by (rule wp yields_any | simp add: keeps_def)+

lemma end_of_interrupt_typed: "typed k \<Longrightarrow> typed (k\<lparr>k_screen := end_of_interrupt n (k_screen k)\<rparr>)"
  by (simp add: typed_def end_of_interrupt_def)

lemma interrupt_handler_wp: "typed k \<Longrightarrow> yields (\<lambda>(_, k'). keeps k k') (interrupt_handler sc cr2 r k)"
  unfolding interrupt_handler_def by (rule wp yields_any | simp add: keeps_def end_of_interrupt_typed)+

subsection \<open>Boot\<close>

lemma is_directory_walk:
  assumes "terminated path"
  shows "is_directory img path \<longleftrightarrow>
    (\<exists>d e. de_location img 0 = Some d \<and> walk img d (Some 0) (pieces (cstr path)) = Some (0, Some e) \<and> de_type img e = Some TYPE_DIR)"
  using get_directory_entry_loop_walk [OF assms, of 0 0] assms
  by (auto simp: is_directory_def get_directory_entry_def strlen_cstr scanning_def bind_eq_Some_conv)

text \<open>The root of the image is a directory.\<close>

definition root_ok :: "bytes \<Rightarrow> bool" where
  "root_ok img \<longleftrightarrow> de_type img 0 = Some TYPE_DIR \<and> de_location img 0 \<noteq> None"

lemma root_is_directory: "root_ok img \<longleftrightarrow> is_directory img (replicate PATH_MAX 0)" "is_directory img (47 # 0 # s) \<longleftrightarrow> root_ok img"
  by (auto simp: root_ok_def is_directory_walk terminated_def cstr_def slash_def)

lemma slash_printed:
  assumes "length s = PATH_MAX" "snprintf s PATH_MAX (chars ''/'' @ [0]) [] = Some (b, n)"
  shows "b = 47 # 0 # drop 2 s"
proof -
  have "format_text (chars ''/'' @ [0]) [] = Some [47]" by (simp add: chars_def)
  then show ?thesis using assms vsnprintf_text [of 1024 s "chars ''/'' @ [0]" "[]" "[47]"] by (auto simp: snprintf_def numeral_2_eq_2)
qed

lemma start_fields_typed [simp]:
  "typed k \<Longrightarrow> c < MAX_PROCESSES \<Longrightarrow>
     typed (upd_proc c (\<lambda>_. zero_process\<lparr>pr_pid := int c, pr_exists := True, pr_stack_start := a, pr_stack_end := b\<rparr>) k)"
  "typed k \<Longrightarrow> typed (upd_proc i (\<lambda>p. p\<lparr>pr_pdir := d\<rparr>) k)"
  "typed k \<Longrightarrow> typed (upd_proc i (\<lambda>p. p\<lparr>pr_data_start := a, pr_data_end := a', pr_text_start := b, pr_text_end := b', pr_parent_pid := q,
     pr_waiting_on := w, pr_exit_status := e\<rparr>) k)"
  "typed k \<Longrightarrow> typed (upd_proc i (\<lambda>p. p\<lparr>pr_saved_regs := f p, pr_ready := True\<rparr>) k)"
  by (auto simp: typed_def nth_upd_proc process_typed_def)

lemma start_mappings_wp [THEN yields_weaken, wp]: "typed k \<Longrightarrow> yields (keeps k) (start_mappings pdir p k)"
  unfolding start_mappings_def by (rule wp yields_any | simp add: keeps_def)+

lemma start_cwd_typed:
  assumes k: "typed k" and i: "i < MAX_PROCESSES" and s: "snprintf (pr_cwd (k_procs k ! i)) PATH_MAX (chars ''/'' @ [0]) [] = Some (b, n)"
  shows "typed (upd_proc i (\<lambda>p. p\<lparr>pr_cwd := b\<rparr>) k)"
proof -
  have l: "length (pr_cwd (k_procs k ! i)) = PATH_MAX" using typed_proc [OF k i] by (simp add: process_typed_def)
  have "is_directory (k_filesystem k) (pr_cwd zero_process)" using k by (simp add: typed_def process_typed_def)
  then have "is_directory (k_filesystem k) b" unfolding slash_printed [OF l s] root_is_directory by (simp add: root_is_directory zero_process_def)
  then show ?thesis using l slash_printed [OF l s] by (intro typed_upd_proc [OF k]) (simp_all add: process_typed_def)
qed

lemma start_process_wp [THEN yields_weaken2, wp]:
  assumes k: "typed k"
  shows "yields (\<lambda>(_, k'). keeps k k') (start_process start k)"
proof (cases rule: get_free_pid_cases [of k])
  case 1
  then show ?thesis using k by (simp add: start_process_def yields_def keeps_def)
next
  case (2 c)
  have c: "pid_index (int c) = c" by (simp add: pid_index_def)
  show ?thesis unfolding start_process_def 2(1) Let_def c
    by (insert k 2(3)) (rule wp yields_any | simp add: keeps_def start_cwd_typed)+
qed

lemma boot_screen_typed:
  "typed (k\<lparr>k_filesystem := img\<rparr>) \<Longrightarrow> yields (\<lambda>k'. typed (k'\<lparr>k_filesystem := img\<rparr>)) (on_screen clear_screen k)"
  "typed (k\<lparr>k_filesystem := img\<rparr>) \<Longrightarrow> yields (\<lambda>k'. typed (k'\<lparr>k_filesystem := img\<rparr>)) (k_printf fmt args k)"
proof -
  show "yields (\<lambda>k'. typed (k'\<lparr>k_filesystem := img\<rparr>)) (on_screen clear_screen k)" if "typed (k\<lparr>k_filesystem := img\<rparr>)"
    using that by (auto simp: on_screen_def yields_def typed_def elim: clear_screen_returns)
  show "yields (\<lambda>k'. typed (k'\<lparr>k_filesystem := img\<rparr>)) (k_printf fmt args k)" if "typed (k\<lparr>k_filesystem := img\<rparr>)"
    using that by (auto simp: k_printf_def on_screen_def kprintf_def write_to_screen_def yields_def typed_def bind_eq_Some_conv dest: write_chars_inv)
qed

lemma kernel_main_typed:
  assumes scr: "screen_inv scr" and st: "4096 \<le> length stack" "length stack < size_t_max" and img: "root_ok img"
  shows "yields (\<lambda>x. case x of User_loop gdt t idt k \<Rightarrow> typed k \<and> k_filesystem k = img)
    (kernel_main tss_addr ih_stack handlers [(loaded, img)] (boot_state mem ram scr stack ly heap))"
proof -
  let ?boot = "boot_state mem ram scr stack ly heap"
  obtain gdt t where g: "setup_segmentation tss_addr ih_stack (replicate 6 zero_segment) = (gdt, t)" by fastforce
  obtain idt scr1 where i: "setup_interrupts handlers scr = (idt, scr1)" by fastforce
  have sc: "k_screen ?boot = scr" by (simp add: boot_state_def)
  define k0 where "k0 = ?boot\<lparr>k_screen := scr1, k_heap := kmalloc_init (ma_links (k_heap ?boot)) (ma_blocks (k_heap ?boot))\<rparr>"
  have z: "process_typed img zero_process" using img by (simp add: process_typed_def zero_process_def root_is_directory)
  have "screen_inv scr1" using scr setup_interrupts_screen [of handlers scr] i by simp
  then have "typed (k0\<lparr>k_filesystem := img\<rparr>)"
    using st z by (simp add: k0_def typed_def boot_state_def list_typed_def) (simp add: zero_process_def)
  then show ?thesis unfolding kernel_main_def Let_def NUM_SEGMENTS_def g sc i prod.case k0_def [symmetric]
    by - (rule boot_screen_typed [THEN yields_weaken] yields_bind yields_assert yields_prod start_process_wp yields_Some yields_any | simp add: keeps_def)+
qed

subsection \<open>Reachable states\<close>

text \<open>
  The states of the machine on the image \<open>img\<close>: after boot; after an interrupt, whatever the registers, the scancode and the faulting address are; and
  between interrupts, when a process runs and may change memory and the state of the floating point unit in any way.
\<close>

inductive reaches :: "bytes \<Rightarrow> kernel \<Rightarrow> bool" for img where
  boot: "screen_inv scr \<Longrightarrow> 4096 \<le> length stack \<Longrightarrow> length stack < size_t_max \<Longrightarrow>
    kernel_main tss_addr ih_stack handlers [(loaded, img)] (boot_state mem ram scr stack ly heap) = Some (User_loop gdt t idt k) \<Longrightarrow> reaches img k"
| interrupt: "reaches img k \<Longrightarrow> interrupt_handler scancode cr2 r k = Some (r', k') \<Longrightarrow> reaches img k'"
| user: "reaches img k \<Longrightarrow> reaches img (k\<lparr>k_mm := (k_mm k)\<lparr>mm_mem := m\<rparr>, k_fpustate := f\<rparr>)"

text \<open>
  C11: the state of the kernel keeps its type as long as the kernel makes no wild access. Whatever the processes do, and whatever sequence of interrupts, system calls
  and exceptions arrives, in every state that the machine reaches by steps in which the kernel accesses only live objects, the memory of
  processes and what is mapped for it, the table of processes has its 32 entries and the id of a process is its index; links, list ends and the current process stay
  in the table; descriptor tables have their size; every working directory is a path that resolves to an existing directory; mailboxes hold at most 8 whole
  messages of at most 1024 bytes; no recorded errno is negative; the cursor is on the screen; and the filesystem is the image that was loaded.
  Nothing is said of a machine after a step in which the kernel stores into its own structures through an unchecked pointer (the status pointer
  of \<open>waitpid\<close>) or uses an object that it has freed (the mailbox or a handle of a process that has exited): the code
  goes on there with corrupted memory, the model has no next state (\<open>None\<close>), and \<open>reaches\<close> ends.
\<close>

theorem kernel_state_typed:
  assumes "reaches img k" and "root_ok img"
  shows "typed k \<and> k_filesystem k = img"
  using assms
proof (induction rule: reaches.induct)
  case boot
  then show ?case using yieldsD [OF kernel_main_typed [OF boot(1-3,5)] boot(4)] by simp
next
  case (interrupt k scancode cr2 r r' k')
  then show ?case using yieldsD [OF interrupt_handler_wp] by (fastforce simp: keeps_def)
qed simp

theorem kernel_state_typed_witness:
  "\<exists>k. reaches ([0, 0, 0, 0, 1] @ replicate 200 0) k \<and> typed k \<and> k_filesystem k = [0, 0, 0, 0, 1] @ replicate 200 0"
proof -
  let ?img = "[0, 0, 0, 0, 1] @ replicate 200 0"
  let ?ly = "\<lparr>ly_code = 0x200000, ly_data = 0x210000, ly_idle_stack = 0x220000, ly_idle = 0x200100, ly_launch_shell = 0x200200\<rparr>"
  let ?heap = "\<lparr>ma_lower = 0, ma_upper = 0, ma_mem = 0, ma_blocks = replicate 16384 \<lparr>bi_sizem = 0, bi_used = False\<rparr>, ma_freelist = [], ma_links = \<lambda>_. 0\<rparr>"
  have root: "root_ok ?img" by (simp add: root_ok_def de_type_def de_location_def img_word_def)
  have scr: "screen_inv blank_screen" by (simp add: screen_inv_def blank_screen_def)
  have "layout_ok ?ly" by (simp add: layout_ok_def page_aligned_mod)
  then obtain gdt t idt k where
    "kernel_main 0x112340 0x120000 [] [(0x100000, ?img)] (boot_state (\<lambda>_. 0) 33554432 blank_screen (replicate 4096 0) ?ly ?heap) = Some (User_loop gdt t idt k)"
    using kernel_main_boots [of blank_screen ?heap "replicate 4096 0" 33554432 ?ly "0x100000" "0x112340" "0x120000" "[]" ?img "\<lambda>_. 0"] scr by (auto simp: buddy_nblocks_def)
  then have "reaches ?img k" by (intro reaches.boot [OF scr]) simp_all
  with kernel_state_typed [OF _ root] show ?thesis by blast
qed

end
