(* ===== verification/Spec2Isabelle.thy ===== *)
theory Spec2Isabelle
  imports Interrupt_Props Mail_Claims Sched_Props Exec_Props Fork_Props Filedesc_Props File_Claims Shell_Props Programs Fstool_Shell_Props Buddy_Test Ring_Props Exit_Props Keyboard_Props Brk_Props Buddy_Room Kernel_Typed
begin

text \<open>
  \<^bold>\<open>AdelaideOS\<close>

  AdelaideOS is a small teaching kernel for the PC: processes with paged memory, system calls, pipes, messages and a
  read-only filesystem, with a C library, a shell and a few programs. The sources in \<^verbatim>\<open>source/\<close> are
  annotated with feature macros from which nine versions are generated (\<^verbatim>\<open>dist/version1\<close> to
  \<^verbatim>\<open>dist/version9\<close>). This library models the last version, with all features on, from the files in \<^verbatim>\<open>source/\<close>.

  \<^bold>\<open>Conventions.\<close> Addresses, sizes, registers and data are words (\<open>u8\<close>, \<open>u16\<close>, \<open>u32\<close>), so their arithmetic wraps where the code's does. Process
  ids, counters, indices of arrays and results of system calls are \<open>nat\<close> or \<open>int\<close>, either because the code keeps them small or with the
  wrap-around written out where it matters (the positions of \<open>vsnprintf\<close> modulo \<open>size_t_max\<close>; field widths are words), and theorems state the bounds below which
  no \<open>int\<close> overflows. State is passed explicitly. Error numbers that system calls return are ordinary results. \<open>None\<close> is one of
  two things: a machine that stops (a failed assertion, a page fault inside the kernel, a loop that does not end), or an
  access that the model does not follow (outside an object, to a freed object, or a store into the structures of the kernel through an unchecked pointer). In the second
  case the real kernel may go on with corrupted memory, and no theorem says anything about it afterwards; the places where a process
  can bring this about (the status pointer of \<open>waitpid\<close>, the mailbox and the handles of a process that has exited) are known defects of the code. Loops with a structural
  or obvious bound are \<open>fun\<close> or \<open>function\<close>; loops that may run forever (\<open>mforsize\<close>, growing a buffer, scanning a string,
  walking over a range of pages) are \<open>partial_function (option)\<close>, and the theorems about them show that they return. Fuel is
  used for the recursion of \<open>fstool\<close> over directories (the depth of the tree is enough, \<open>image_roundtrip\<close>) and for the
  loops of the programs in user mode, which end only when the outside world ends them: the statement about the shell holds for every
  number of iterations, and the one about \<open>cat\<close> gives a number that is enough. The tests that consist of several processes are coinductive and need none.

  \<^bold>\<open>Memory.\<close> The record \<open>kernel\<close> (theory Kernel\_State) holds the whole machine: physical memory with the page allocator
  (\<open>k_mm\<close>), the kernel heap (\<open>k_heap\<close>), the table of 32 processes, the ready and suspended lists, the active page
  directory, screen, filesystem image. Objects in the kernel heap (file handles, pipes, their arrays, mailboxes) are entries of
  maps from their address to a record, and an address is valid as long as the allocator has it handed out
  (theory Kernel\_Heap). The memory of processes, page directories and page tables are bytes of the physical memory, and
  every access of the kernel through a pointer of a process goes through the page tables, as the memory management unit of the processor does it
  (\<open>translate\<close>, \<open>vload\<close>, \<open>vstore\<close>: they model hardware and have no counterpart in the sources).

  \<^bold>\<open>Shared theories\<close>
  \<^item> Prelude: types, constants, \<open>assert_c\<close>, simplification rules for the option monad, arithmetic on words.
  \<^item> Memory: bytes and words in memory, the 1024 words of a page.
  \<^item> Alloc\_Spec, Fifo\_Spec, Source\_Spec: the locales \<open>allocator\<close> (interpreted for the kernel heap and for the page allocator),
    \<open>fifo\<close> (interpreted for pipes and for mailboxes) and \<open>source\<close> (interpreted for open files).

  \<^bold>\<open>Components\<close>
  \<^item> \<^verbatim>\<open>buddy.c\<close>: Buddy (definitions), Buddy\_Tiles (blocks as tiles of an area), Buddy\_Correct (the block table
    and the free lists represent a tiling), Buddy\_Props. Allocation and release keep the representation, succeed exactly
    when they should, and no two live regions of the kernel heap overlap, whatever the history. Buddy\_Room: how many blocks of
    which size can be in use before a request can fail.
  \<^item> \<^verbatim>\<open>page.c\<close>: Page, Page\_Correct (the free list in memory), Page\_Dirs (two-level page tables), Page\_Props: what
    mapping, unmapping, freeing and identity mapping do to lookups, and what they leave alone.
  \<^item> \<^verbatim>\<open>libc.c\<close>: Libc, Libc\_Props (\<open>memmove\<close>, strings), Format (\<open>vsnprintf\<close> against a reference formatter).
  \<^item> \<^verbatim>\<open>filesystem.c\<close>: Filesystem, Filesystem\_Props: lookup as a walk over the pieces of a path, and relative paths in normal form.
  \<^item> \<^verbatim>\<open>main.c\<close> and \<^verbatim>\<open>interrupts.c\<close>: Screen (the text screen), Interrupts (timer, keyboard, exceptions, the
    interrupt table, start of the kernel; also \<^verbatim>\<open>segmentation.c\<close>), Interrupt\_Props (the tables decode to what was meant),
    Keyboard\_Props (what is typed arrives in the input pipe), Boot\_Props (\<open>kernel_main\<close> starts the first process, establishes the invariants and reaches its final loop, the outcome \<open>User_loop\<close>),
    Kernel\_Typed (a rule for every operation of the kernel, and with them the type of the state in every state the machine can reach).
  \<^item> \<^verbatim>\<open>process.c\<close>: Process\_List (the doubly linked lists of processes refine lists; \<open>sched k rs ss\<close> says that \<open>rs\<close> and \<open>ss\<close>
    are the ready and the suspended processes), Process (start, kill, switch), Sched\_Props (context switch, round robin).
  \<^item> \<^verbatim>\<open>pipe.c\<close> and \<^verbatim>\<open>filedesc.c\<close>: Pipe; Kernel\_Heap, Pipe\_Props, Pipe\_Chan, Pipe\_Claims (pipes deliver
    bytes in order), Filedesc\_Props (reference counts, open ends and blocked readers under \<open>close\<close> and \<open>dup2\<close>).
  \<^item> \<^verbatim>\<open>syscall.c\<close>: Syscall (handlers), Dispatch (the dispatcher), Syscall\_Props (checks of pointers and strings,
    \<open>errno\<close>), Mail\_Props and Mail\_Claims (messages), User\_Mem (what passes the checks can be accessed, and only that changes),
    Brk\_Props (the data segment grows by zeroed pages of its own).
  \<^item> \<^verbatim>\<open>fscalls.c\<close>: Fscalls; File\_Props and File\_Claims (reading a file in pieces; opening and reading what \<open>fstool\<close> stored).
  \<^item> \<^verbatim>\<open>unixproc.c\<close>: Unixproc; Fork\_Props (the child has a copy of its own of the memory), Exec\_Props (arguments of programs),
    Kill\_Props (the memory of a process is released, and nothing else; \<open>waitpid\<close>), Exit\_Props (\<open>kill_process\<close> keeps all invariants).
  \<^item> \<^verbatim>\<open>fstool.c\<close>: Fstool, Fstool\_Props: the image contains the directory tree of the host. Fstool\_Shell, Fstool\_Shell\_Props: the
    commands that look at an image, and that a session of its shell shows the tree the image was made from.
  \<^item> \<^verbatim>\<open>sh.c\<close>, \<^verbatim>\<open>cat.c\<close>, \<^verbatim>\<open>ls.c\<close>, \<^verbatim>\<open>find.c\<close>: Userland (system calls as a parameter), Shell, Shell\_Props, Programs
    (also the processes of \<^verbatim>\<open>main.c\<close> that run in user mode).
  \<^item> \<^verbatim>\<open>mptest.c\<close>: Tasks (programs as coinductive trees of system calls, and the interleaved runs of a world of processes), Mptest
    (the tests), Ring\_Props: the ring test ends in every interleaving.
  \<^item> \<^verbatim>\<open>testbuddy.c\<close>: Buddy\_Test, with the proof that the random test runs and draws the free memory.

  \<^bold>\<open>How the parts meet.\<close> \<open>kernel_heap_safe\<close> and \<open>page_allocator_safe\<close> are the allocator's lemmas at its two
  interpretations; \<open>pipe_stream\<close> and \<open>mail_stream\<close> those of the channel. \<open>open_read_roundtrip\<close> follows the contents of a file from
  the machine on which the image was built through \<open>fstool\<close>, the lookup, \<open>open\<close> and \<open>read\<close> into the memory of a process; it
  uses that user memory behaves as memory (\<open>user_memory_correct\<close>) and that files are sources (\<open>file_read_stream\<close>).

  \<^bold>\<open>Invariants as hypotheses.\<close> \<open>buddy_inv\<close>, \<open>pages_inv\<close>, \<open>dir_ok\<close>, \<open>sched\<close>, \<open>pipes_ok\<close>, \<open>mail_ok\<close>, \<open>fds_ok\<close> and \<open>private_memory\<close>
  describe states of the running kernel; \<open>kernel_main_correct\<close> shows that boot establishes them, the operations about which there are theorems keep the
  invariants that they start from, and each theorem has a witness on a concrete machine. One invariant needs no hypothesis:
  \<open>typed\<close> (theory Kernel\_Typed) holds in every state that, without a wild access of the kernel, boot, interrupts, system calls, exceptions and whatever processes do to
  their memory can lead to (\<open>kernel_state_typed\<close>). The invariants of the heap are not part of it, because \<open>kill\<close> on a process that has exited and is
  not waited for yet releases its mailbox a second time. That memory is left, where a theorem needs it, is a hypothesis: the kernel
  halts when its heap is exhausted, and \<open>alloc_page\<close> does not check the size of the installed memory at all (the field \<open>mm_ram\<close>
  of the model; handing out a page beyond it is \<open>None\<close>).

  \<^bold>\<open>Not modelled.\<close> The assembly files (entry points, interrupt stubs, system call stubs) and the loading of tables into the
  processor; ports are recorded as output. \<open>allocate_memory\<close> of \<^verbatim>\<open>process.c\<close> belongs to the versions without paging. Timing,
  and interrupts arriving while the kernel runs, do not occur: the kernel runs with interrupts disabled. Of the tests of
  \<^verbatim>\<open>mptest.c\<close>, all of which are modelled, only the ring has a property of its own; the system calls that they make are those of an abstract world of processes (\<open>kernel_call\<close> in theory Tasks),
  which is not derived from the model of the kernel.
\<close>

end
